(* ===== verification/Prelude.thy ===== *)
theory Prelude
  imports Main "HOL-Library.Word" "HOL-Library.List_Lexorder" "HOL-Library.AList" "HOL-Library.Multiset"
begin

unbundle bit_operations_syntax

text \<open>
  Shared vocabulary of the development: bytes and machine integers, slices of byte
  arrays, the in-place copy of Go, little-endian integers as they lie in a page or a log
  record, and the error values of the repository.

  A Go byte slice or array is a list of \<open>8 word\<close>. Identifiers (\<open>PageID\<close>,
  \<open>TxnID\<close>, \<open>LogSequenceNumber\<close>) are \<open>64 word\<close>. Offsets and lengths are
  \<open>nat\<close>; where the source computes them in \<open>uint16\<close> or \<open>uint32\<close> and the value
  can leave that range, the reduction modulo \<open>2 ^ 16\<close> or \<open>2 ^ 32\<close> is written out.
  \<open>List_Lexorder\<close> orders byte lists as \<open>bytes.Compare\<close> does.
\<close>

named_theorems slice_simps \<open>evaluation of slices and copies on appended byte strings\<close>
named_theorems codec_simps \<open>round trips and lengths of encoders\<close>

type_synonym byte = "8 word"
type_synonym bytes = "8 word list"
type_synonym PageID = "64 word"
type_synonym TxnID = "64 word"
type_synonym LSN = "64 word"

section \<open>Errors\<close>

text \<open>
  Every error value the modelled code returns, and the run-time panic of an access out of
  range, is one constructor. A fallible operation returns \<open>error + 'a\<close>.
\<close>

datatype error =
    ErrPageFull
  | ErrKeyNotFound
  | ErrCompactionFailed
  | ErrEOF
  | ErrUnexpectedEOF
  | ErrSlotRange
  | ErrOverflow
  | ErrOffsetAnomaly
  | ErrChecksum
  | ErrPoolExhausted
  | ErrCorruptNode
  | ErrDevice
  | ErrTxnWindow
  | ErrTombstoned
  | ErrNoVersion
  | ErrWriteConflict
  | ErrNesting
  | ErrMissingParen
  | ErrUnexpectedToken
  | ErrWalPayload
  | ErrWalCrc
  | ErrEnvelope
  | ErrCodecMismatch
  | ErrCursorBounds
  | ErrCellSize
  | Blocked
  | ErrNoDB
  | ErrExpectedFrom
  | ErrExpectedOn
  | ErrExpectedWhere
  | ErrExpectedValues
  | ErrUnknownStatement
  | ErrShowTarget
  | ErrNumber
  | ErrNoMetrics
  | ErrCompressParams
  | ErrSparsePath
  | ErrAccessDenied
  | ErrModel
  | ErrJson
  | GoPanic
  | OutOfFuel

type_synonym 'a result = "error + 'a"

section \<open>Wrap-around\<close>

definition u16 :: "nat \<Rightarrow> nat" where
  "u16 x = x mod 2 ^ 16"

definition u32 :: "nat \<Rightarrow> nat" where
  "u32 x = x mod 2 ^ 32"

lemma u32_id [simp]: "x < 2 ^ 32 \<Longrightarrow> u32 x = x"
  by (simp add: u32_def)

lemma u16_id [simp]: "x < 2 ^ 16 \<Longrightarrow> u16 x = x"
  by (simp add: u16_def)

section \<open>Slices and copies\<close>

definition slice :: "'a list \<Rightarrow> nat \<Rightarrow> nat \<Rightarrow> 'a list" where
  "slice xs a b = take (b - a) (drop a xs)"

definition blit :: "'a list \<Rightarrow> nat \<Rightarrow> 'a list \<Rightarrow> 'a list" where
  "blit xs off ys = take off xs @ ys @ drop (off + length ys) xs"

definition zero_range :: "bytes \<Rightarrow> nat \<Rightarrow> nat \<Rightarrow> bytes" where
  "zero_range d a b = blit d a (replicate (b - a) 0)"

lemma length_blit [simp]:
  "off + length ys \<le> length xs \<Longrightarrow> length (blit xs off ys) = length xs"
  by (simp add: blit_def)

lemma length_slice [simp]: "length (slice xs a b) = min (b - a) (length xs - a)"
  by (simp add: slice_def)

lemma length_zero_range [simp]:
  "a \<le> b \<Longrightarrow> b \<le> length d \<Longrightarrow> length (zero_range d a b) = length d"
  by (simp add: zero_range_def)

lemma slice_append [slice_simps]:
  "length xs = a \<Longrightarrow> b = a + length ys \<Longrightarrow> slice (xs @ ys @ zs) a b = ys"
  by (simp add: slice_def)

lemma blit_append [slice_simps]:
  "length xs = a \<Longrightarrow> length ys' = length ys \<Longrightarrow> blit (xs @ ys @ zs) a ys' = xs @ ys' @ zs"
  by (simp add: blit_def)

lemma slice_blit_same:
  "off + length ys \<le> length xs \<Longrightarrow> b = off + length ys \<Longrightarrow> slice (blit xs off ys) off b = ys"
  by (simp add: slice_def blit_def)

lemma slice_blit_before:
  "b \<le> off \<Longrightarrow> off \<le> length xs \<Longrightarrow> slice (blit xs off ys) a b = slice xs a b"
  by (cases "a \<le> off") (simp_all add: slice_def blit_def take_drop min_def)

lemma slice_blit_after:
  assumes "off + length ys \<le> a" and "off + length ys \<le> length xs"
  shows "slice (blit xs off ys) a b = slice xs a b"
proof -
  have "drop a (blit xs off ys) = drop (a - (off + length ys)) (drop (off + length ys) xs)"
    using assms by (simp add: blit_def min_def)
  also have "\<dots> = drop a xs"
    using assms by simp
  finally show ?thesis by (simp add: slice_def)
qed

lemma blit_prefix: "off + length ys \<le> length xs \<Longrightarrow> blit (xs @ zs) off ys = blit xs off ys @ zs"
  by (simp add: blit_def)

lemma nth_blit:
  assumes "off + length ys \<le> length xs" and "i < length xs"
  shows "blit xs off ys ! i =
    (if off \<le> i \<and> i < off + length ys then ys ! (i - off) else xs ! i)"
  using assms by (auto simp: blit_def nth_append min_def)

lemma slice_split:
  "a \<le> b \<Longrightarrow> b \<le> length xs \<Longrightarrow> take a xs @ slice xs a b @ drop b xs = xs"
  by (metis append_take_drop_id drop_drop le_add_diff_inverse2 slice_def)

lemma slice_slice:
  "a \<le> b \<Longrightarrow> b \<le> d - c \<Longrightarrow> slice (slice xs c d) a b = slice xs (c + a) (c + b)"
  by (simp add: slice_def drop_take min_def add.commute)

section \<open>Little-endian integers\<close>

text \<open>
  \<open>put_le w x\<close> is what \<open>binary.LittleEndian.PutUint16/32/64\<close> stores for \<open>w\<close> = 2,
  4, 8: the low \<open>w\<close> bytes of \<open>x\<close>, lowest first. \<open>get_le\<close> reads such a run of bytes.
\<close>

primrec put_le :: "nat \<Rightarrow> nat \<Rightarrow> bytes" where
  "put_le 0 x = []"
| "put_le (Suc w) x = word_of_nat x # put_le w (x div 256)"

primrec get_le :: "bytes \<Rightarrow> nat" where
  "get_le [] = 0"
| "get_le (b # bs) = unat b + 256 * get_le bs"

lemma unat_byte: "x < 256 \<Longrightarrow> unat (word_of_nat x :: byte) = x"
  by (simp add: unat_of_nat take_bit_eq_mod)

lemma length_put_le [simp, codec_simps]: "length (put_le w x) = w"
  by (induction w arbitrary: x) simp_all

lemma get_put_le [simp, codec_simps]: "get_le (put_le w x) = x mod 256 ^ w"
proof (induction w arbitrary: x)
  case (Suc w)
  have "unat (word_of_nat x :: 8 word) = x mod 256"
    by (simp add: unat_of_nat take_bit_eq_mod)
  with Suc show ?case by (simp add: mod_mult2_eq)
qed simp

lemma get_le_bound: "get_le bs < 256 ^ length bs"
proof (induction bs)
  case (Cons b bs)
  have "unat b < 256" using unsigned_less [of b, where ?'a = nat] by simp
  with Cons show ?case by simp
qed simp

lemma put_get_le: "length bs = w \<Longrightarrow> put_le w (get_le bs) = bs"
proof (induction bs arbitrary: w)
  case (Cons b bs)
  have b: "unat b < 256" using unsigned_less [of b, where ?'a = nat] by simp
  have z: "(256 :: 8 word) = 0" by simp
  have "(word_of_nat (unat b + 256 * get_le bs) :: 8 word) = b"
    by (simp only: of_nat_add of_nat_mult of_nat_numeral z) simp
  moreover have "(unat b + 256 * get_le bs) div 256 = get_le bs"
    using b by simp
  ultimately show ?case using Cons by auto
qed simp

lemma get_le_replicate_0 [simp]: "get_le (replicate n 0) = 0"
  by (induction n) simp_all

text \<open>Reading and writing an integer of \<open>w\<close> bytes at an offset of an array.\<close>

definition rd_le :: "nat \<Rightarrow> bytes \<Rightarrow> nat \<Rightarrow> nat" where
  "rd_le w d off = get_le (slice d off (off + w))"

definition wr_le :: "nat \<Rightarrow> bytes \<Rightarrow> nat \<Rightarrow> nat \<Rightarrow> bytes" where
  "wr_le w d off x = blit d off (put_le w x)"

lemma length_wr_le [simp]: "off + w \<le> length d \<Longrightarrow> length (wr_le w d off x) = length d"
  by (simp add: wr_le_def)

lemma rd_wr_le_same [simp]:
  "off + w \<le> length d \<Longrightarrow> rd_le w (wr_le w d off x) off = x mod 256 ^ w"
  by (simp add: rd_le_def wr_le_def slice_blit_same)

lemma rd_wr_le_before:
  "off' + w' \<le> off \<Longrightarrow> off + w \<le> length d \<Longrightarrow> rd_le w' (wr_le w d off x) off' = rd_le w' d off'"
  by (simp add: rd_le_def wr_le_def slice_blit_before)

lemma rd_wr_le_after:
  "off + w \<le> off' \<Longrightarrow> off + w \<le> length d \<Longrightarrow> rd_le w' (wr_le w d off x) off' = rd_le w' d off'"
  by (simp add: rd_le_def wr_le_def slice_blit_after)

lemma rd_le_append [slice_simps]:
  "length xs = off \<Longrightarrow> length ys = w \<Longrightarrow> rd_le w (xs @ ys @ zs) off = get_le ys"
  by (simp add: rd_le_def slice_append)

lemma rd_le_prefix: "off + w \<le> length xs \<Longrightarrow> rd_le w (xs @ ys) off = rd_le w xs off"
  by (simp add: rd_le_def slice_def)

lemma wr_le_prefix: "off + w \<le> length xs \<Longrightarrow> wr_le w (xs @ ys) off x = wr_le w xs off x @ ys"
  by (simp add: wr_le_def blit_prefix)

lemma rd_le_drop: "length xs = a \<Longrightarrow> rd_le w (xs @ ys) (a + off) = rd_le w ys off"
  by (simp add: rd_le_def slice_def)

lemma rd_le_bound: "rd_le w d off < 256 ^ w"
proof -
  have "get_le (slice d off (off + w)) < 256 ^ length (slice d off (off + w))"
    by (rule get_le_bound)
  also have "\<dots> \<le> 256 ^ w"
    by (rule power_increasing) simp_all
  finally show ?thesis by (simp add: rd_le_def)
qed

lemma word64_of_unat_mod [simp]: "word_of_nat (unat (w :: 64 word) mod 256 ^ 8) = w"
proof -
  have "unat w < 256 ^ 8" using unsigned_less [of w, where ?'a = nat] by simp
  then show ?thesis by simp
qed

section \<open>Prefixes and key order\<close>

definition has_prefix :: "'a list \<Rightarrow> 'a list \<Rightarrow> bool" where
  "has_prefix s p \<longleftrightarrow> take (length p) s = p"

lemma has_prefix_append [simp]: "has_prefix (p @ s) p"
  by (simp add: has_prefix_def)

lemma unat_of_char [simp]: "unat (of_char c :: byte) = of_char c"
proof -
  have "unat (of_nat (of_char c) :: byte) = of_char c mod 256"
    by (simp only: unat_of_nat take_bit_eq_mod) simp
  then show ?thesis by (simp only: of_nat_of_char of_char_mod_256)
qed

definition bytes_of :: "string \<Rightarrow> bytes" where
  "bytes_of s = map of_char s"

section \<open>Association lists as Go maps\<close>

text \<open>
  A Go map is an association list with distinct keys; the order of the list is the order
  in which a \<open>range\<close> loop visits the entries, which Go leaves unspecified, so every
  statement about such a loop holds for all orders.
\<close>

lemma map_of_AList_update [simp]: "map_of (AList.update k v al) = (map_of al)(k \<mapsto> v)"
  by (rule AList.update_conv')

lemma AList_update_fresh: "k \<notin> fst ` set al \<Longrightarrow> AList.update k v al = al @ [(k, v)]"
  by (induction al) auto

text \<open>The first entry of a key.\<close>

lemma split_key_first:
  "key \<in> fst ` set cs \<Longrightarrow> \<exists>as v bs. cs = as @ (key, v) # bs \<and> key \<notin> fst ` set as"
proof (induction cs)
  case (Cons c cs)
  show ?case
  proof (cases "fst c = key")
    case True
    then show ?thesis by (intro exI [of _ "[]"] exI [of _ "snd c"] exI [of _ cs]) auto
  next
    case False
    with Cons obtain as v bs where "cs = as @ (key, v) # bs" "key \<notin> fst ` set as" by auto
    with False show ?thesis by (intro exI [of _ "c # as"] exI [of _ v] exI [of _ bs]) auto
  qed
qed simp

end
