(* ===== verification/GoStd.thy ===== *)
theory GoStd
  imports Prelude "HOL-Library.Char_ord"
begin

text \<open>
  The parts of the Go standard library the modelled sources call: \<open>sort.Search\<close>,
  \<open>binary.Read\<close> on a byte reader, the base-128 varints of \<open>encoding/binary\<close>, CRC-32 and the
  string functions of \<open>strings\<close>. They are written as the library implements them and
  characterised once here. A Go string is a list of bytes, so it is an Isabelle
  \<open>string\<close>; \<open>ToLower\<close>, \<open>ToUpper\<close> and \<open>Fields\<close> are the library's on ASCII text (on
  other text Go decodes UTF-8 first).
\<close>

section \<open>sort.Search\<close>

text \<open>The bisection of \<open>sort.Search\<close>: the interval \<open>[i, j)\<close> halves at \<open>h\<close>.\<close>

function search_loop :: "(nat \<Rightarrow> bool) \<Rightarrow> nat \<Rightarrow> nat \<Rightarrow> nat" where
  "search_loop f i j =
     (if i < j then
        let h = (i + j) div 2
        in if \<not> f h then search_loop f (h + 1) j else search_loop f i h
      else i)"
  by pat_completeness auto
termination
  by (relation "measure (\<lambda>(f, i, j). j - i)") auto

declare search_loop.simps [simp del]

definition sort_Search :: "nat \<Rightarrow> (nat \<Rightarrow> bool) \<Rightarrow> nat" where
  "sort_Search n f = search_loop f 0 n"

lemma search_loop_least:
  assumes "i \<le> j" and "\<And>x y. x \<le> y \<Longrightarrow> y < n \<Longrightarrow> f x \<Longrightarrow> f y" and "j \<le> n"
    and "\<And>x. x < i \<Longrightarrow> \<not> f x" and "\<And>x. j \<le> x \<Longrightarrow> x < n \<Longrightarrow> f x"
  shows "i \<le> search_loop f i j \<and> search_loop f i j \<le> j
    \<and> (\<forall>x < search_loop f i j. \<not> f x)
    \<and> (\<forall>x. search_loop f i j \<le> x \<longrightarrow> x < n \<longrightarrow> f x)"
  using assms
proof (induction f i j rule: search_loop.induct)
  case (1 f i j)
  note mono = "1.prems"(2)
  show ?case
  proof (cases "i < j")
    case False
    then have "search_loop f i j = i" by (simp add: search_loop.simps [of f i j])
    with False "1.prems" show ?thesis by auto
  next
    case True
    let ?h = "(i + j) div 2"
    have h: "i \<le> ?h" "?h < j" "?h < n" using True "1.prems"(3) by auto
    show ?thesis
    proof (cases "f ?h")
      case fh: False
      have below: "\<not> f x" if "x < ?h + 1" for x
        using mono [of x ?h] fh h that by auto
      have "?h + 1 \<le> search_loop f (?h + 1) j \<and> search_loop f (?h + 1) j \<le> j
          \<and> (\<forall>x < search_loop f (?h + 1) j. \<not> f x)
          \<and> (\<forall>x. search_loop f (?h + 1) j \<le> x \<longrightarrow> x < n \<longrightarrow> f x)"
        by (rule "1.IH"(1)) (use True fh h below "1.prems" in auto)
      with True fh h show ?thesis by (auto simp: search_loop.simps [of f i j] Let_def)
    next
      case fh: True
      have above: "f x" if "?h \<le> x" "x < n" for x
        using mono [of ?h x] fh that by auto
      have "i \<le> search_loop f i ?h \<and> search_loop f i ?h \<le> ?h
          \<and> (\<forall>x < search_loop f i ?h. \<not> f x)
          \<and> (\<forall>x. search_loop f i ?h \<le> x \<longrightarrow> x < n \<longrightarrow> f x)"
        by (rule "1.IH"(2)) (use True fh h above "1.prems" in auto)
      with True fh h show ?thesis by (auto simp: search_loop.simps [of f i j] Let_def)
    qed
  qed
qed

text \<open>On a monotone predicate the result splits the range into false and true.\<close>

lemma sort_Search_split:
  assumes "\<And>x y. x \<le> y \<Longrightarrow> y < n \<Longrightarrow> f x \<Longrightarrow> f y"
  shows "sort_Search n f \<le> n"
    and "x < sort_Search n f \<Longrightarrow> \<not> f x"
    and "sort_Search n f \<le> x \<Longrightarrow> x < n \<Longrightarrow> f x"
  using search_loop_least [of 0 n n f, OF _ assms] by (simp_all add: sort_Search_def)

section \<open>Byte readers\<close>

text \<open>
  \<open>binary.Read\<close> of a fixed-size integer of \<open>w\<close> bytes. When fewer bytes remain the
  reader is drained and an error is returned.
\<close>

definition bread :: "nat \<Rightarrow> bytes \<Rightarrow> nat option \<times> bytes" where
  "bread w rd = (if w \<le> length rd then (Some (get_le (take w rd)), drop w rd) else (None, []))"

lemma bread_put [codec_simps]: "bread w (put_le w x @ rd) = (Some (x mod 256 ^ w), rd)"
  by (simp add: bread_def)

section \<open>Unsigned varints\<close>

text \<open>\<open>binary.PutUvarint\<close>: seven bits per byte, the top bit set on all but the last.\<close>

fun put_uvarint :: "nat \<Rightarrow> bytes" where
  "put_uvarint x =
     (if 128 \<le> x then word_of_nat (x mod 128 + 128) # put_uvarint (x div 128)
      else [word_of_nat x])"

declare put_uvarint.simps [simp del]

text \<open>
  \<open>binary.ReadUvarint\<close>: at most ten bytes; the tenth must be at most one. The shift
  \<open>x | uint64(b \& 0x7f) << s\<close> accumulates disjoint bits, so it is an addition.
\<close>

fun get_uvarint_loop :: "nat \<Rightarrow> nat \<Rightarrow> nat \<Rightarrow> bytes \<Rightarrow> nat option \<times> bytes" where
  "get_uvarint_loop i x s [] = (None, [])"
| "get_uvarint_loop i x s (b # rd) =
     (if 10 \<le> i then (None, b # rd)
      else if unat b < 128 then
        (if i = 9 \<and> 1 < unat b then (None, rd) else (Some (x + unat b * 2 ^ s), rd))
      else get_uvarint_loop (Suc i) (x + (unat b - 128) * 2 ^ s) (s + 7) rd)"

definition get_uvarint :: "bytes \<Rightarrow> nat option \<times> bytes" where
  "get_uvarint rd = get_uvarint_loop 0 0 0 rd"

lemma get_put_uvarint_loop:
  assumes "y < 2 ^ (64 - 7 * i)" and "i < 10"
  shows "get_uvarint_loop i x (7 * i) (put_uvarint y @ rd) = (Some (x + y * 2 ^ (7 * i)), rd)"
  using assms
proof (induction y arbitrary: i x rule: put_uvarint.induct)
  case (1 y)
  show ?case
  proof (cases "128 \<le> y")
    case False
    have "i = 9 \<Longrightarrow> y < 2" using "1.prems" by simp
    with False "1.prems" show ?thesis
      by (auto simp: put_uvarint.simps [of y] unat_of_nat take_bit_eq_mod)
  next
    case True
    have i: "i < 9"
    proof (rule ccontr)
      assume "\<not> i < 9"
      with "1.prems" have "i = 9" by simp
      with "1.prems" True show False by simp
    qed
    have b: "unat (word_of_nat (y mod 128 + 128) :: 8 word) = y mod 128 + 128"
      by (rule unat_byte) (use mod_less_divisor [of 128 y] in linarith)
    have "64 - 7 * i = 7 + (64 - 7 * Suc i)" using i by simp
    then have "(2::nat) ^ (64 - 7 * i) = 128 * 2 ^ (64 - 7 * Suc i)"
      by (simp only: power_add) simp
    with "1.prems" have lt: "y div 128 < 2 ^ (64 - 7 * Suc i)"
      by (simp add: less_mult_imp_div_less mult.commute)
    have "get_uvarint_loop (Suc i) (x + y mod 128 * 2 ^ (7 * i)) (7 * Suc i) (put_uvarint (y div 128) @ rd)
       = (Some (x + y mod 128 * 2 ^ (7 * i) + y div 128 * 2 ^ (7 * Suc i)), rd)"
      by (rule "1.IH") (use True lt i in auto)
    moreover have "y mod 128 * 2 ^ (7 * i) + y div 128 * 2 ^ (7 * Suc i) = y * 2 ^ (7 * i)"
    proof -
      have "(2::nat) ^ (7 * Suc i) = 128 * 2 ^ (7 * i)" by (simp add: power_add)
      then have "y mod 128 * 2 ^ (7 * i) + y div 128 * 2 ^ (7 * Suc i)
          = (y mod 128 + y div 128 * 128) * 2 ^ (7 * i)"
        by (simp only: distrib_right mult.assoc)
      then show ?thesis by (simp only: mod_div_mult_eq)
    qed
    ultimately show ?thesis
      using True i b by (simp add: put_uvarint.simps [of y] add.commute)
  qed
qed

lemma get_put_uvarint [codec_simps]:
  "y < 2 ^ 64 \<Longrightarrow> get_uvarint (put_uvarint y @ rd) = (Some y, rd)"
  using get_put_uvarint_loop [of y 0 0 rd] by (simp add: get_uvarint_def)

section \<open>CRC-32\<close>

text \<open>\<open>crc32.ChecksumIEEE\<close>: the reflected polynomial \<open>0xEDB88320\<close>, bit by bit.
  Feeding a hash in pieces, as \<open>hash.Write\<close> does, is the same as one run over their
  concatenation.\<close>

primrec crc_bits :: "nat \<Rightarrow> 32 word \<Rightarrow> 32 word" where
  "crc_bits 0 c = c"
| "crc_bits (Suc n) c =
     crc_bits n (if bit c 0 then drop_bit 1 c XOR 0xEDB88320 else drop_bit 1 c)"

definition crc_byte :: "32 word \<Rightarrow> byte \<Rightarrow> 32 word" where
  "crc_byte c b = crc_bits 8 (c XOR ucast b)"

definition ChecksumIEEE :: "bytes \<Rightarrow> nat" where
  "ChecksumIEEE bs = unat (NOT (foldl crc_byte (NOT 0) bs))"

lemma ChecksumIEEE_bound: "ChecksumIEEE bs < 2 ^ 32"
  unfolding ChecksumIEEE_def using unsigned_less [of "NOT (foldl crc_byte (NOT 0) bs)", where ?'a = nat]
  by simp

section \<open>Strings\<close>

definition char_in :: "char \<Rightarrow> char \<Rightarrow> char \<Rightarrow> bool" where
  "char_in lo hi c \<longleftrightarrow> lo \<le> c \<and> c \<le> hi"

definition to_lower_char :: "char \<Rightarrow> char" where
  "to_lower_char c = (if char_in (CHR ''A'') (CHR ''Z'') c then char_of (of_char c + 32 :: nat) else c)"

definition to_upper_char :: "char \<Rightarrow> char" where
  "to_upper_char c = (if char_in (CHR ''a'') (CHR ''z'') c then char_of (of_char c - 32 :: nat) else c)"

definition ToLower :: "string \<Rightarrow> string" where
  "ToLower s = map to_lower_char s"

definition ToUpper :: "string \<Rightarrow> string" where
  "ToUpper s = map to_upper_char s"

definition is_space :: "char \<Rightarrow> bool" where
  "is_space c \<longleftrightarrow> c \<in> {CHR '' '', CHR 0x09, CHR 0x0A, CHR 0x0B, CHR 0x0C, CHR 0x0D}"

text \<open>\<open>strings.FieldsFunc\<close>: the maximal runs of characters that are no separators.\<close>

fun fields_loop :: "(char \<Rightarrow> bool) \<Rightarrow> string \<Rightarrow> string \<Rightarrow> string list" where
  "fields_loop f cur [] = (if cur = [] then [] else [rev cur])"
| "fields_loop f cur (c # s) =
     (if f c then (if cur = [] then fields_loop f [] s else rev cur # fields_loop f [] s)
      else fields_loop f (c # cur) s)"

definition FieldsFunc :: "(char \<Rightarrow> bool) \<Rightarrow> string \<Rightarrow> string list" where
  "FieldsFunc f s = fields_loop f [] s"

definition Fields :: "string \<Rightarrow> string list" where
  "Fields s = FieldsFunc is_space s"

text \<open>\<open>strings.ReplaceAll\<close> for a pattern of one character.\<close>

definition ReplaceAll :: "char \<Rightarrow> string \<Rightarrow> string \<Rightarrow> string" where
  "ReplaceAll old new s = concat (map (\<lambda>c. if c = old then new else [c]) s)"

lemma fields_loop_parts:
  assumes "\<forall>c \<in> set cur. \<not> f c" and "t \<in> set (fields_loop f cur s)"
  shows "t \<noteq> [] \<and> (\<forall>c \<in> set t. \<not> f c) \<and> set t \<subseteq> set cur \<union> set s"
  using assms
proof (induction s arbitrary: cur)
  case (Cons c s)
  show ?case
  proof (cases "f c")
    case True
    then have "t = rev cur \<and> cur \<noteq> [] \<or> t \<in> set (fields_loop f [] s)"
      using Cons.prems(2) by (cases "cur = []") simp_all
    then show ?thesis
    proof (elim disjE conjE)
      assume "t = rev cur" and "cur \<noteq> []"
      then show ?thesis using Cons.prems(1) by simp blast
    next
      assume "t \<in> set (fields_loop f [] s)"
      with Cons.IH [of "[]"] show ?thesis by simp blast
    qed
  next
    case False
    then have "\<forall>x \<in> set (c # cur). \<not> f x" and "t \<in> set (fields_loop f (c # cur) s)"
      using Cons.prems by simp_all
    from Cons.IH [OF this] show ?thesis by simp
  qed
qed (auto split: if_splits)

lemma FieldsFunc_parts:
  assumes "t \<in> set (FieldsFunc f s)"
  shows "t \<noteq> []" and "c \<in> set t \<Longrightarrow> \<not> f c" and "set t \<subseteq> set s"
  using fields_loop_parts [of "[]" f t s] assms by (auto simp: FieldsFunc_def)

lemma fields_loop_word:
  "(\<And>c. c \<in> set w \<Longrightarrow> \<not> f c) \<Longrightarrow> fields_loop f cur (w @ s) = fields_loop f (rev w @ cur) s"
  by (induction w arbitrary: cur) auto

text \<open>Fields that are joined by separators are found again.\<close>

lemma FieldsFunc_word:
  assumes "\<And>c. c \<in> set w \<Longrightarrow> \<not> f c" and "w \<noteq> []" and "f sep"
  shows "FieldsFunc f (w @ sep # s) = w # FieldsFunc f s"
  using fields_loop_word [of w f "[]" "sep # s", OF assms(1)] assms(2,3)
  by (simp add: FieldsFunc_def)

lemma FieldsFunc_last:
  assumes "\<And>c. c \<in> set w \<Longrightarrow> \<not> f c" and "w \<noteq> []"
  shows "FieldsFunc f w = [w]"
  using fields_loop_word [of w f "[]" "[]", OF assms(1)] assms(2) by (simp add: FieldsFunc_def)

end
