(* ===== verification/Strconv.thy ===== *)
theory Strconv
  imports GoStd
begin

text \<open>
  Decimal numbers: \<open>fmt.Sprintf("%d", ...)\<close> of an unsigned integer, \<open>strconv.ParseUint\<close>
  of base 10 and \<open>strconv.Atoi\<close>. Printing and parsing are inverse.
\<close>

definition is_digit :: "char \<Rightarrow> bool" where
  "is_digit c \<longleftrightarrow> char_in (CHR ''0'') (CHR ''9'') c"

definition digit_char :: "nat \<Rightarrow> char" where
  "digit_char d = char_of (48 + d)"

fun dec :: "nat \<Rightarrow> string" where
  "dec n = (if n < 10 then [digit_char n] else dec (n div 10) @ [digit_char (n mod 10)])"

declare dec.simps [simp del]

fun parse_digits :: "nat \<Rightarrow> string \<Rightarrow> nat option" where
  "parse_digits acc [] = Some acc"
| "parse_digits acc (c # s) =
     (if is_digit c then parse_digits (10 * acc + (of_char c - 48)) s else None)"

definition ParseUint :: "string \<Rightarrow> nat result" where
  "ParseUint s =
     (if s = [] then Inl ErrNumber
      else case parse_digits 0 s of
             None \<Rightarrow> Inl ErrNumber
           | Some n \<Rightarrow> if int n < 2 ^ 64 then Inr n else Inl ErrNumber)"

text \<open>An optional sign, then digits; the value has to fit an \<open>int64\<close>.\<close>

definition Atoi :: "string \<Rightarrow> int result" where
  "Atoi s =
     (let neg = (s \<noteq> [] \<and> hd s = CHR ''-'');
          body = (if s \<noteq> [] \<and> (hd s = CHR ''-'' \<or> hd s = CHR ''+'') then tl s else s)
      in case ParseUint body of
           Inl e \<Rightarrow> Inl e
         | Inr n \<Rightarrow>
             if neg then (if int n \<le> 2 ^ 63 then Inr (- int n) else Inl ErrNumber)
             else (if int n < 2 ^ 63 then Inr (int n) else Inl ErrNumber))"

lemma is_digit_code: "is_digit c \<longleftrightarrow> 48 \<le> (of_char c :: nat) \<and> (of_char c :: nat) \<le> 57"
  by (simp add: is_digit_def char_in_def less_eq_char_def)

lemma of_digit_char: "d < 10 \<Longrightarrow> (of_char (digit_char d) :: nat) = 48 + d"
  by (simp add: digit_char_def)

lemma is_digit_char [simp]: "d < 10 \<Longrightarrow> is_digit (digit_char d)"
  by (simp add: is_digit_code of_digit_char)

lemma dec_nonempty [simp]: "dec n \<noteq> []"
  by (simp add: dec.simps [of n])

lemma dec_digits: "c \<in> set (dec n) \<Longrightarrow> is_digit c"
  by (induction n rule: dec.induct) (metis Un_iff dec.simps empty_iff is_digit_char list.set(1)
      mod_less_divisor set_ConsD set_append zero_less_numeral)

lemma parse_digits_append:
  "parse_digits acc (s @ [c]) =
     (case parse_digits acc s of
        None \<Rightarrow> None
      | Some n \<Rightarrow> if is_digit c then Some (10 * n + (of_char c - 48)) else None)"
  by (induction s arbitrary: acc) (simp_all)

lemma parse_digits_dec [simp]: "parse_digits 0 (dec n) = Some n"
proof (induction n rule: dec.induct)
  case (1 n)
  show ?case
  proof (cases "n < 10")
    case True
    then show ?thesis by (simp add: dec.simps [of n] of_digit_char)
  next
    case False
    then have "parse_digits 0 (dec (n div 10)) = Some (n div 10)" by (rule "1.IH")
    with False show ?thesis
      by (simp add: dec.simps [of n] parse_digits_append of_digit_char)
  qed
qed

lemma ParseUint_dec: "n < 2 ^ 64 \<Longrightarrow> ParseUint (dec n) = Inr n"
  by (simp add: ParseUint_def)

lemma dec_inject: "dec m = dec n \<Longrightarrow> m = n"
  by (metis option.inject parse_digits_dec)

end
