(* ===== verification/Roaring.thy ===== *)
theory Roaring
  imports GoStd "HOL-Library.Multiset"
begin

text \<open>
  \<open>roaring.go\<close>: sets of 64-bit document identifiers, split into chunks by the high 48
  bits, each chunk a sorted slice of the low 16 bits. The abstraction is the set
  \<open>roaring_set\<close>; every operation is shown to keep the representation well formed and to
  compute the corresponding set operation.
\<close>

section \<open>Data and operations\<close>

record roaring =
  Chunks :: "(64 word \<times> 16 word list) list"

definition NewRoaringBitmap :: roaring where
  "NewRoaringBitmap = \<lparr>Chunks = []\<rparr>"

text \<open>\<open>r.Chunks[k]\<close>: a missing key reads as the nil slice.\<close>

definition chunk_at :: "(64 word \<times> 16 word list) list \<Rightarrow> 64 word \<Rightarrow> 16 word list" where
  "chunk_at cs k = (case map_of cs k of None \<Rightarrow> [] | Some l \<Rightarrow> l)"

definition Roaring_Add :: "64 word \<Rightarrow> roaring \<Rightarrow> roaring" where
  "Roaring_Add val r =
     (let k = drop_bit 16 val;
          lsb = (ucast (val AND 0xFFFF) :: 16 word);
          l = chunk_at (Chunks r) k;
          idx = sort_Search (length l) (\<lambda>i. lsb \<le> l ! i)
      in if idx < length l \<and> l ! idx = lsb then r
         else let l1 = l @ [0];
                  l2 = blit l1 (idx + 1) (slice l1 idx (length l1 - 1));
                  l3 = l2[idx := lsb]
              in r\<lparr>Chunks := AList.update k l3 (Chunks r)\<rparr>)"

text \<open>\<open>(k << 16) | uint64(lsb)\<close>.\<close>

definition join :: "64 word \<Rightarrow> 16 word \<Rightarrow> 64 word" where
  "join k lsb = push_bit 16 k OR ucast lsb"

definition Roaring_ToArray :: "roaring \<Rightarrow> 64 word list" where
  "Roaring_ToArray r =
     (let keys = sort (map fst (Chunks r))
      in concat (map (\<lambda>k. map (join k) (chunk_at (Chunks r) k)) keys))"

text \<open>The two-pointer loops of the three binary operations; a pointer that advances
  drops the head of its list.\<close>

fun inter_loop :: "16 word list \<Rightarrow> 16 word list \<Rightarrow> 16 word list" where
  "inter_loop (a # l1) (b # l2) =
     (if a < b then inter_loop l1 (b # l2)
      else if a > b then inter_loop (a # l1) l2
      else a # inter_loop l1 l2)"
| "inter_loop [] l2 = []"
| "inter_loop l1 [] = []"

fun union_loop :: "16 word list \<Rightarrow> 16 word list \<Rightarrow> 16 word list" where
  "union_loop (a # l1) (b # l2) =
     (if a < b then a # union_loop l1 (b # l2)
      else if a > b then b # union_loop (a # l1) l2
      else a # union_loop l1 l2)"
| "union_loop [] l2 = l2"
| "union_loop l1 [] = l1"

fun diff_loop :: "16 word list \<Rightarrow> 16 word list \<Rightarrow> 16 word list" where
  "diff_loop (a # l1) (b # l2) =
     (if a < b then a # diff_loop l1 (b # l2)
      else if a > b then diff_loop (a # l1) l2
      else diff_loop l1 l2)"
| "diff_loop [] l2 = []"
| "diff_loop l1 [] = l1"

definition RoaringIntersect :: "roaring \<Rightarrow> roaring \<Rightarrow> roaring" where
  "RoaringIntersect r1 r2 =
     \<lparr>Chunks = foldl (\<lambda>res (k, l1).
        case map_of (Chunks r2) k of
          None \<Rightarrow> res
        | Some l2 \<Rightarrow>
            (let interl = inter_loop l1 l2
             in if interl \<noteq> [] then AList.update k interl res else res))
        [] (Chunks r1)\<rparr>"

definition RoaringUnion :: "roaring \<Rightarrow> roaring \<Rightarrow> roaring" where
  "RoaringUnion r1 r2 =
     (let res0 = foldl (\<lambda>res (k, l1). AList.update k l1 res) [] (Chunks r1)
      in \<lparr>Chunks = foldl (\<lambda>res (k, l2).
            case map_of res k of
              Some l1 \<Rightarrow> AList.update k (union_loop l1 l2) res
            | None \<Rightarrow> AList.update k l2 res)
          res0 (Chunks r2)\<rparr>)"

definition RoaringDifference :: "roaring \<Rightarrow> roaring \<Rightarrow> roaring" where
  "RoaringDifference r1 r2 =
     \<lparr>Chunks = foldl (\<lambda>res (k, l1).
        case map_of (Chunks r2) k of
          Some l2 \<Rightarrow>
            (let difl = diff_loop l1 l2
             in if difl \<noteq> [] then AList.update k difl res else res)
        | None \<Rightarrow> AList.update k l1 res)
        [] (Chunks r1)\<rparr>"

definition Roaring_Len :: "roaring \<Rightarrow> nat" where
  "Roaring_Len r = foldl (\<lambda>count (k, l). count + length l) 0 (Chunks r)"

definition Roaring_Serialize :: "roaring \<Rightarrow> bytes" where
  "Roaring_Serialize r =
     put_le 4 (length (Chunks r)) @
     concat (map (\<lambda>(k, l). put_le 8 (unat k) @ put_le 4 (length l)
                    @ concat (map (\<lambda>v. put_le 2 (unat v)) l)) (Chunks r))"

text \<open>In the loops of \<open>Deserialize\<close> a failed read leaves the zero value.\<close>

fun read_list :: "nat \<Rightarrow> bytes \<Rightarrow> 16 word list \<times> bytes" where
  "read_list 0 rd = ([], rd)"
| "read_list (Suc n) rd =
     (let (v, rd1) = bread 2 rd;
          (vs, rd2) = read_list n rd1
      in ((case v of None \<Rightarrow> 0 | Some x \<Rightarrow> word_of_nat x) # vs, rd2))"

fun read_chunks :: "nat \<Rightarrow> bytes \<Rightarrow> (64 word \<times> 16 word list) list \<Rightarrow> (64 word \<times> 16 word list) list" where
  "read_chunks 0 rd cs = cs"
| "read_chunks (Suc n) rd cs =
     (let (k, rd1) = bread 8 rd;
          (listLen, rd2) = bread 4 rd1;
          (vs, rd3) = read_list (case listLen of None \<Rightarrow> 0 | Some x \<Rightarrow> x) rd2
      in read_chunks n rd3
           (AList.update (case k of None \<Rightarrow> 0 | Some x \<Rightarrow> word_of_nat x) vs cs))"

definition Roaring_Deserialize :: "bytes \<Rightarrow> roaring \<Rightarrow> unit result \<times> roaring" where
  "Roaring_Deserialize data r =
     (if data = [] then (Inr (), r)
      else case bread 4 data of
             (None, _) \<Rightarrow> (Inl ErrUnexpectedEOF, r)
           | (Some chunkCount, rd) \<Rightarrow> (Inr (), r\<lparr>Chunks := read_chunks chunkCount rd []\<rparr>))"

section \<open>Well-formed bitmaps and the sets they stand for\<close>

definition chunks_wf :: "(64 word \<times> 16 word list) list \<Rightarrow> bool" where
  "chunks_wf cs \<longleftrightarrow> distinct (map fst cs) \<and>
     (\<forall>(k, l) \<in> set cs. k < 2 ^ 48 \<and> sorted_wrt (<) l)"

definition roaring_wf :: "roaring \<Rightarrow> bool" where
  "roaring_wf r \<longleftrightarrow> chunks_wf (Chunks r)"

definition roaring_set :: "roaring \<Rightarrow> 64 word set" where
  "roaring_set r = {v. (ucast v :: 16 word) \<in> set (chunk_at (Chunks r) (drop_bit 16 v))}"

section \<open>Splitting and joining identifiers\<close>

lemma ucast_and_FFFF: "(ucast (v AND 0xFFFF) :: 16 word) = ucast (v :: 64 word)"
proof -
  have "(0xFFFF :: 64 word) = mask 16" by (simp add: mask_eq_exp_minus_1)
  then have "v AND 0xFFFF = take_bit 16 v" by (simp add: take_bit_eq_mask)
  then show ?thesis by (auto intro!: bit_eqI simp: bit_simps)
qed

lemma unat_hi: "unat (drop_bit 16 (v :: 64 word)) = unat v div 65536"
  by (subst unat_drop_bit_eq) (simp add: drop_bit_eq_div)

lemma unat_lo: "unat (ucast (v :: 64 word) :: 16 word) = unat v mod 65536"
  by (simp add: unsigned_ucast_eq take_bit_eq_mod)

lemma unat_hi_lo: "unat (v :: 64 word) = unat (drop_bit 16 v) * 65536 + unat (ucast v :: 16 word)"
  unfolding unat_hi unat_lo by simp

lemma hi_bound: "drop_bit 16 (v :: 64 word) < 2 ^ 48"
proof -
  have "unat v < 2 ^ 64" using unsigned_less [of v, where ?'a = nat] by simp
  then have "unat v div 65536 < 2 ^ 48" by (simp add: div_less_iff_less_mult)
  then show ?thesis unfolding word_less_nat_alt unat_hi by simp
qed

lemma unat_join:
  assumes "(k :: 64 word) < 2 ^ 48"
  shows "unat (join k l) = unat k * 65536 + unat l"
proof -
  have k: "unat k < 2 ^ 48" using assms unfolding word_less_nat_alt by simp
  have l: "unat l < 65536" using unsigned_less [of l, where ?'a = nat] by simp
  have "push_bit 16 k AND ucast l = 0"
    by (rule bit_eqI) (auto simp: bit_simps dest: bit_imp_le_length)
  then have "push_bit 16 k OR ucast l = push_bit 16 k + ucast l"
    by (simp add: disjunctive_add_eq_or)
  moreover have "unat (push_bit 16 k) = unat k * 65536"
    using k by (simp add: push_bit_eq_mult unat_word_ariths)
  moreover have "unat (ucast l :: 64 word) = unat l"
    using l by (simp add: unsigned_ucast_eq take_bit_eq_mod)
  ultimately show ?thesis
    using k l by (simp add: join_def unat_word_ariths)
qed

lemma hi_join [simp]: "(k :: 64 word) < 2 ^ 48 \<Longrightarrow> drop_bit 16 (join k l) = k"
  using unsigned_less [of l, where ?'a = nat]
  unfolding word_unat_eq_iff unat_hi by (simp add: unat_join)

lemma lo_join [simp]: "(k :: 64 word) < 2 ^ 48 \<Longrightarrow> ucast (join k l) = l"
  using unsigned_less [of l, where ?'a = nat]
  unfolding word_unat_eq_iff unat_lo by (simp add: unat_join)

lemma join_hi_lo [simp]: "join (drop_bit 16 v) (ucast v) = v"
  unfolding word_unat_eq_iff by (subst unat_join [OF hi_bound]) (rule unat_hi_lo [symmetric])

lemma join_less:
  assumes "(k :: 64 word) < 2 ^ 48" and "k' < 2 ^ 48" and "k < k' \<or> k = k' \<and> l < l'"
  shows "join k l < join k' l'"
proof -
  have "unat l < 65536" "unat l' < 65536"
    using unsigned_less [of l, where ?'a = nat] unsigned_less [of l', where ?'a = nat] by simp_all
  moreover have "unat k < unat k' \<or> unat k = unat k' \<and> unat l < unat l'"
    using assms(3) by (auto simp: word_less_nat_alt)
  ultimately have "unat k * 65536 + unat l < unat k' * 65536 + unat l'" by linarith
  with assms(1,2) show ?thesis by (simp add: word_less_nat_alt unat_join)
qed

section \<open>The loops on sorted slices\<close>

lemma loop_Nil [simp]: "inter_loop l [] = []" "union_loop l [] = l" "diff_loop l [] = l"
  by (cases l; simp)+

lemma set_inter_loop:
  "sorted_wrt (<) l1 \<Longrightarrow> sorted_wrt (<) l2 \<Longrightarrow> set (inter_loop l1 l2) = set l1 \<inter> set l2"
proof (induction l1 l2 rule: inter_loop.induct)
  case (1 a l1 b l2)
  have a: "a \<notin> set l1" and ab: "a < b \<Longrightarrow> a \<notin> set l2" and b: "b \<notin> set l2"
    and ba: "b < a \<Longrightarrow> b \<notin> set l1"
    using "1.prems" by (auto dest: less_asym)
  consider "a < b" | "b < a" | "a = b" by (rule linorder_cases)
  then show ?case
    by cases (use 1 a b ab ba in \<open>auto dest: less_asym\<close>)
qed simp_all

lemma set_union_loop: "set (union_loop l1 l2) = set l1 \<union> set l2"
  by (induction l1 l2 rule: union_loop.induct) auto

lemma set_diff_loop:
  "sorted_wrt (<) l1 \<Longrightarrow> sorted_wrt (<) l2 \<Longrightarrow> set (diff_loop l1 l2) = set l1 - set l2"
proof (induction l1 l2 rule: diff_loop.induct)
  case (1 a l1 b l2)
  have a: "a \<notin> set l1" and ab: "a < b \<Longrightarrow> a \<notin> set l2" and b: "b \<notin> set l2"
    and ba: "b < a \<Longrightarrow> b \<notin> set l1"
    using "1.prems" by (auto dest: less_asym)
  consider "a < b" | "b < a" | "a = b" by (rule linorder_cases)
  then show ?case
    by cases (use 1 a b ab ba in \<open>auto dest: less_asym\<close>)
qed simp_all

lemma sorted_inter_loop:
  "sorted_wrt (<) l1 \<Longrightarrow> sorted_wrt (<) l2 \<Longrightarrow> sorted_wrt (<) (inter_loop l1 l2)"
  by (induction l1 l2 rule: inter_loop.induct) (auto simp: set_inter_loop)

lemma sorted_union_loop:
  "sorted_wrt (<) l1 \<Longrightarrow> sorted_wrt (<) l2 \<Longrightarrow> sorted_wrt (<) (union_loop l1 l2)"
  by (induction l1 l2 rule: union_loop.induct) (auto simp: set_union_loop)

lemma sorted_diff_loop:
  "sorted_wrt (<) l1 \<Longrightarrow> sorted_wrt (<) l2 \<Longrightarrow> sorted_wrt (<) (diff_loop l1 l2)"
  by (induction l1 l2 rule: diff_loop.induct) (auto simp: set_diff_loop)

lemmas loop_facts =
  set_inter_loop set_union_loop set_diff_loop sorted_inter_loop sorted_union_loop sorted_diff_loop

section \<open>Chunk maps\<close>

text \<open>
  A loop over the entries of one map that reads and writes its result map only at the key
  of the current entry.
\<close>

lemma foldl_keyed:
  assumes step: "\<And>res k l k'. map_of (step res (k, l)) k' =
      (if k' = k then g k l (map_of res k) else map_of res k')"
    and "distinct (map fst cs)"
  shows "map_of (foldl step acc cs) k =
    (case map_of cs k of None \<Rightarrow> map_of acc k | Some l \<Rightarrow> g k l (map_of acc k))"
  using assms(2)
proof (induction cs arbitrary: acc)
  case (Cons c cs)
  obtain k0 l0 where c: "c = (k0, l0)" by (cases c)
  with Cons.prems have "k = k0 \<Longrightarrow> map_of cs k = None"
    by (auto simp: map_of_eq_None_iff)
  with Cons c show ?case by (auto simp: step split: option.split)
qed simp

lemma chunks_wf_at:
  "chunks_wf cs \<Longrightarrow> sorted_wrt (<) (chunk_at cs k)"
  "chunks_wf cs \<Longrightarrow> map_of cs k = Some l \<Longrightarrow> k < 2 ^ 48 \<and> sorted_wrt (<) l"
  by (auto simp: chunks_wf_def chunk_at_def split: option.split dest!: map_of_SomeD)

lemma chunks_wf_update:
  assumes "chunks_wf cs" and "k < 2 ^ 48" and "sorted_wrt (<) l"
  shows "chunks_wf (AList.update k l cs)"
proof -
  have "distinct (map fst (AList.update k l cs))"
    using assms(1) by (simp add: chunks_wf_def distinct_update)
  moreover have "x < 2 ^ 48 \<and> sorted_wrt (<) xs" if "(x, xs) \<in> set (AList.update k l cs)" for x xs
  proof -
    have "map_of (AList.update k l cs) x = Some xs"
      using calculation that by (rule map_of_is_SomeI)
    with assms chunks_wf_at(2) [OF assms(1)] show ?thesis by (auto split: if_splits)
  qed
  ultimately show ?thesis by (auto simp: chunks_wf_def)
qed

lemma chunks_wf_Nil [simp]: "chunks_wf []"
  by (simp add: chunks_wf_def)

lemma foldl_chunks_wf:
  assumes "chunks_wf acc" and "chunks_wf cs"
    and "\<And>res k l. chunks_wf res \<Longrightarrow> k < 2 ^ 48 \<Longrightarrow> sorted_wrt (<) l \<Longrightarrow> chunks_wf (step res (k, l))"
  shows "chunks_wf (foldl step acc cs)"
  using assms(1,2)
proof (induction cs arbitrary: acc)
  case (Cons c cs)
  obtain k l where c: "c = (k, l)" by (cases c)
  with Cons.prems have "chunks_wf (step acc (k, l))" and "chunks_wf cs"
    using assms(3) [of acc k l] by (simp_all add: chunks_wf_def)
  with c show ?case by (simp add: Cons.IH)
qed simp

lemma chunk_at_update [simp]:
  "chunk_at (AList.update k l cs) k' = (if k' = k then l else chunk_at cs k')"
  by (simp add: chunk_at_def)

lemma in_roaring_set:
  "v \<in> roaring_set r \<longleftrightarrow> (ucast v :: 16 word) \<in> set (chunk_at (Chunks r) (drop_bit 16 v))"
  by (simp add: roaring_set_def)

section \<open>Insertion\<close>

text \<open>Shifting the tail right by one and writing the gap inserts an element.\<close>

lemma shift_insert:
  assumes "idx \<le> length l"
  shows "(blit (l @ [z]) (idx + 1) (slice (l @ [z]) idx (length (l @ [z]) - 1)))[idx := x]
    = take idx l @ x # drop idx l"
proof -
  have "slice (l @ [z]) idx (length (l @ [z]) - 1) = drop idx l"
    using assms by (simp add: slice_def)
  then have "blit (l @ [z]) (idx + 1) (slice (l @ [z]) idx (length (l @ [z]) - 1))
      = take (idx + 1) (l @ [z]) @ drop idx l"
    using assms by (simp add: blit_def)
  also have "take (idx + 1) (l @ [z]) = take idx (l @ [z]) @ [(l @ [z]) ! idx]"
    using take_Suc_conv_app_nth [of idx "l @ [z]"] assms by (simp del: take_append)
  finally show ?thesis
    using assms by (simp add: list_update_append min_def)
qed

lemma insert_position:
  fixes x :: "16 word"
  assumes "sorted_wrt (<) (l :: 16 word list)"
  defines "idx \<equiv> sort_Search (length l) (\<lambda>i. x \<le> l ! i)"
  shows "idx \<le> length l" and "y \<in> set (take idx l) \<Longrightarrow> y < x" and "y \<in> set (drop idx l) \<Longrightarrow> x \<le> y"
proof -
  have mono: "x \<le> l ! j" if "i \<le> j" "j < length l" "x \<le> l ! i" for i j
  proof (cases "i = j")
    case False
    with that have "l ! i < l ! j" using assms(1) by (simp add: sorted_wrt_iff_nth_less)
    with that(3) show ?thesis by simp
  qed (use that in simp)
  have below: "\<not> x \<le> l ! i" if "i < idx" for i
    using sort_Search_split(2) [of "length l" "\<lambda>i. x \<le> l ! i"] mono that unfolding idx_def by blast
  have above: "x \<le> l ! i" if "idx \<le> i" "i < length l" for i
    using sort_Search_split(3) [of "length l" "\<lambda>i. x \<le> l ! i"] mono that unfolding idx_def by blast
  show "idx \<le> length l"
    using sort_Search_split(1) [of "length l" "\<lambda>i. x \<le> l ! i"] mono unfolding idx_def by blast
  show "y < x" if y: "y \<in> set (take idx l)"
  proof -
    obtain i where "i < idx" "i < length l" "y = l ! i" using y by (auto simp: in_set_conv_nth)
    with below [of i] show ?thesis by (simp add: not_le)
  qed
  show "x \<le> y" if y: "y \<in> set (drop idx l)"
  proof -
    obtain i where "i < length l - idx" "y = l ! (idx + i)"
      using y by (auto simp: in_set_conv_nth)
    with above [of "idx + i"] show ?thesis by simp
  qed
qed

lemma sorted_insert_at:
  fixes x :: "16 word"
  assumes "sorted_wrt (<) (l :: 16 word list)" and "x \<notin> set l"
  defines "idx \<equiv> sort_Search (length l) (\<lambda>i. x \<le> l ! i)"
  shows "sorted_wrt (<) (take idx l @ x # drop idx l)"
proof -
  have "sorted_wrt (<) (take idx l @ drop idx l)" using assms(1) by simp
  moreover have "x < y" if "y \<in> set (drop idx l)" for y
    using insert_position(3) [OF assms(1), of y x, folded idx_def, OF that] assms(2)
      in_set_dropD [OF that] by (auto simp: le_less)
  ultimately show ?thesis
    using insert_position(2) [OF assms(1), of _ x, folded idx_def]
    by (fastforce simp: sorted_wrt_append simp del: append_take_drop_id)
qed

lemma insert_found:
  fixes x :: "16 word"
  assumes "sorted_wrt (<) (l :: 16 word list)"
  defines "idx \<equiv> sort_Search (length l) (\<lambda>i. x \<le> l ! i)"
  shows "idx < length l \<and> l ! idx = x \<longleftrightarrow> x \<in> set l"
proof
  assume x: "x \<in> set l"
  have "x \<notin> set (take idx l)"
    using insert_position(2) [OF assms(1), of x x, folded idx_def] by auto
  with x have d: "x \<in> set (drop idx l)" by (metis Un_iff append_take_drop_id set_append)
  then have len: "idx < length l" by (cases "idx < length l") simp_all
  then have dr: "drop idx l = l ! idx # drop (Suc idx) l" by (rule Cons_nth_drop_Suc [symmetric])
  have "x \<le> l ! idx"
    using insert_position(3) [OF assms(1), of "l ! idx" x, folded idx_def] dr by simp
  moreover have "l ! idx \<le> x"
  proof -
    have "sorted_wrt (<) (drop idx l)" using assms(1) by (rule sorted_wrt_drop)
    with dr d show ?thesis by auto
  qed
  ultimately show "idx < length l \<and> l ! idx = x" using len by simp
qed auto

lemma Roaring_Add_chunk:
  fixes val :: "64 word"
  assumes "roaring_wf r"
  defines "k \<equiv> drop_bit 16 val" and "lsb \<equiv> (ucast val :: 16 word)"
  shows "roaring_wf (Roaring_Add val r)"
    and "set (chunk_at (Chunks (Roaring_Add val r)) k') =
      (if k' = k then insert lsb (set (chunk_at (Chunks r) k)) else set (chunk_at (Chunks r) k'))"
proof -
  let ?l = "chunk_at (Chunks r) k"
  let ?idx = "sort_Search (length ?l) (\<lambda>i. lsb \<le> ?l ! i)"
  have sorted: "sorted_wrt (<) ?l"
    using assms(1) by (simp add: roaring_wf_def chunks_wf_at)
  have add: "Roaring_Add val r =
      (if lsb \<in> set ?l then r
       else r\<lparr>Chunks := AList.update k (take ?idx ?l @ lsb # drop ?idx ?l) (Chunks r)\<rparr>)"
    using shift_insert [OF insert_position(1) [OF sorted, of lsb], of 0 lsb]
    unfolding Roaring_Add_def Let_def ucast_and_FFFF
      k_def [symmetric] lsb_def [symmetric] insert_found [OF sorted, of lsb] by simp
  show "roaring_wf (Roaring_Add val r)"
  proof (cases "lsb \<in> set ?l")
    case False
    have "chunks_wf (AList.update k (take ?idx ?l @ lsb # drop ?idx ?l) (Chunks r))"
      using assms(1) hi_bound [of val] sorted_insert_at [OF sorted False]
      by (intro chunks_wf_update) (simp_all add: roaring_wf_def k_def)
    with False show ?thesis by (simp add: add roaring_wf_def)
  qed (use assms(1) in \<open>simp add: add\<close>)
  have "set (take ?idx ?l @ lsb # drop ?idx ?l) = insert lsb (set ?l)"
    by (metis append_take_drop_id list.simps(15) set_append Un_insert_right)
  then show "set (chunk_at (Chunks (Roaring_Add val r)) k') =
      (if k' = k then insert lsb (set ?l) else set (chunk_at (Chunks r) k'))"
    by (auto simp: add)
qed

lemma roaring_wf_Add: "roaring_wf r \<Longrightarrow> roaring_wf (Roaring_Add val r)"
  by (rule Roaring_Add_chunk(1))

lemma roaring_set_Add:
  assumes "roaring_wf r"
  shows "roaring_set (Roaring_Add val r) = insert val (roaring_set r)"
proof (rule set_eqI)
  fix v
  have "drop_bit 16 v = drop_bit 16 val \<Longrightarrow> (ucast v :: 16 word) = ucast val \<Longrightarrow> v = val"
    by (metis join_hi_lo)
  then show "v \<in> roaring_set (Roaring_Add val r) \<longleftrightarrow> v \<in> insert val (roaring_set r)"
    by (auto simp: in_roaring_set Roaring_Add_chunk(2) [OF assms])
qed

section \<open>The three set operations\<close>

lemma Intersect_chunk:
  assumes "roaring_wf r1" and "roaring_wf r2"
  shows "roaring_wf (RoaringIntersect r1 r2)"
    and "set (chunk_at (Chunks (RoaringIntersect r1 r2)) k)
      = set (chunk_at (Chunks r1) k) \<inter> set (chunk_at (Chunks r2) k)"
proof -
  let ?g = "\<lambda>k l1 old. case map_of (Chunks r2) k of None \<Rightarrow> old
      | Some l2 \<Rightarrow> if inter_loop l1 l2 \<noteq> [] then Some (inter_loop l1 l2) else old"
  have d: "distinct (map fst (Chunks r1))"
    using assms(1) by (simp add: roaring_wf_def chunks_wf_def)
  have "map_of (Chunks (RoaringIntersect r1 r2)) k =
      (case map_of (Chunks r1) k of None \<Rightarrow> None | Some l \<Rightarrow> ?g k l None)"
    unfolding RoaringIntersect_def roaring.select_convs
    by (subst foldl_keyed [where g = ?g, OF _ d]) (auto simp: Let_def split: option.split)
  then have "chunk_at (Chunks (RoaringIntersect r1 r2)) k
      = inter_loop (chunk_at (Chunks r1) k) (chunk_at (Chunks r2) k)"
    by (auto simp: chunk_at_def split: option.split)
  with assms show "set (chunk_at (Chunks (RoaringIntersect r1 r2)) k)
      = set (chunk_at (Chunks r1) k) \<inter> set (chunk_at (Chunks r2) k)"
    by (simp add: roaring_wf_def chunks_wf_at(1) loop_facts)
  show "roaring_wf (RoaringIntersect r1 r2)"
    unfolding RoaringIntersect_def roaring_wf_def roaring.select_convs Let_def
    by (rule foldl_chunks_wf)
      (use assms  chunks_wf_at(2) in \<open>auto simp: roaring_wf_def
        intro!: chunks_wf_update sorted_inter_loop split: option.split\<close>)
qed

lemma Union_chunk:
  assumes "roaring_wf r1" and "roaring_wf r2"
  shows "roaring_wf (RoaringUnion r1 r2)"
    and "set (chunk_at (Chunks (RoaringUnion r1 r2)) k)
      = set (chunk_at (Chunks r1) k) \<union> set (chunk_at (Chunks r2) k)"
proof -
  let ?res0 = "foldl (\<lambda>res (k, l1). AList.update k l1 res) [] (Chunks r1)"
  let ?g = "\<lambda>k l2 old. case old of Some l1 \<Rightarrow> Some (union_loop l1 l2) | None \<Rightarrow> Some l2"
  have d1: "distinct (map fst (Chunks r1))" and d2: "distinct (map fst (Chunks r2))"
    using assms by (simp_all add: roaring_wf_def chunks_wf_def)
  have res0: "map_of ?res0 k = map_of (Chunks r1) k" for k
    by (subst foldl_keyed [where g = "\<lambda>k l old. Some l", OF _ d1]) (auto split: option.split)
  have wf0: "chunks_wf ?res0"
    by (rule foldl_chunks_wf) (use assms(1) in \<open>auto simp: roaring_wf_def intro: chunks_wf_update\<close>)
  have "map_of (Chunks (RoaringUnion r1 r2)) k =
      (case map_of (Chunks r2) k of None \<Rightarrow> map_of ?res0 k | Some l \<Rightarrow> ?g k l (map_of ?res0 k))"
    unfolding RoaringUnion_def roaring.select_convs Let_def
    by (subst foldl_keyed [where g = ?g, OF _ d2]) (auto split: option.split)
  then show "set (chunk_at (Chunks (RoaringUnion r1 r2)) k)
      = set (chunk_at (Chunks r1) k) \<union> set (chunk_at (Chunks r2) k)"
    by (auto simp: chunk_at_def res0 loop_facts split: option.split)
  show "roaring_wf (RoaringUnion r1 r2)"
    unfolding RoaringUnion_def roaring_wf_def roaring.select_convs Let_def
    by (rule foldl_chunks_wf)
      (use assms wf0 chunks_wf_at(2) in \<open>auto simp: roaring_wf_def
        intro!: chunks_wf_update sorted_union_loop split: option.split\<close>)
qed

lemma Difference_chunk:
  assumes "roaring_wf r1" and "roaring_wf r2"
  shows "roaring_wf (RoaringDifference r1 r2)"
    and "set (chunk_at (Chunks (RoaringDifference r1 r2)) k)
      = set (chunk_at (Chunks r1) k) - set (chunk_at (Chunks r2) k)"
proof -
  let ?g = "\<lambda>k l1 old. case map_of (Chunks r2) k of None \<Rightarrow> Some l1
      | Some l2 \<Rightarrow> if diff_loop l1 l2 \<noteq> [] then Some (diff_loop l1 l2) else old"
  have d: "distinct (map fst (Chunks r1))"
    using assms(1) by (simp add: roaring_wf_def chunks_wf_def)
  have "map_of (Chunks (RoaringDifference r1 r2)) k =
      (case map_of (Chunks r1) k of None \<Rightarrow> None | Some l \<Rightarrow> ?g k l None)"
    unfolding RoaringDifference_def roaring.select_convs
    by (subst foldl_keyed [where g = ?g, OF _ d]) (auto simp: Let_def split: option.split)
  then have "chunk_at (Chunks (RoaringDifference r1 r2)) k
      = diff_loop (chunk_at (Chunks r1) k) (chunk_at (Chunks r2) k)"
    by (auto simp: chunk_at_def split: option.split)
  with assms show "set (chunk_at (Chunks (RoaringDifference r1 r2)) k)
      = set (chunk_at (Chunks r1) k) - set (chunk_at (Chunks r2) k)"
    by (simp add: roaring_wf_def chunks_wf_at(1) loop_facts)
  show "roaring_wf (RoaringDifference r1 r2)"
    unfolding RoaringDifference_def roaring_wf_def roaring.select_convs Let_def
    by (rule foldl_chunks_wf)
      (use assms  chunks_wf_at(2) in \<open>auto simp: roaring_wf_def
        intro!: chunks_wf_update sorted_diff_loop split: option.split\<close>)
qed

lemmas roaring_wf_ops = roaring_wf_Add Intersect_chunk(1) Union_chunk(1) Difference_chunk(1)

lemma roaring_set_ops:
  assumes "roaring_wf r1" and "roaring_wf r2"
  shows "roaring_set (RoaringIntersect r1 r2) = roaring_set r1 \<inter> roaring_set r2"
    and "roaring_set (RoaringUnion r1 r2) = roaring_set r1 \<union> roaring_set r2"
    and "roaring_set (RoaringDifference r1 r2) = roaring_set r1 - roaring_set r2"
  by (auto simp: in_roaring_set Intersect_chunk(2) [OF assms] Union_chunk(2) [OF assms]
      Difference_chunk(2) [OF assms])

section \<open>Enumeration and cardinality\<close>

lemma sorted_concat_join:
  assumes "sorted_wrt (<) keys" and "\<And>k. k \<in> set keys \<Longrightarrow> k < 2 ^ 48"
    and "\<And>k. sorted_wrt (<) (f k)"
  shows "sorted_wrt (<) (concat (map (\<lambda>k. map (join k) (f k)) keys))"
  using assms(1,2)
proof (induction keys)
  case (Cons k keys)
  have "sorted_wrt (\<lambda>x y. join k x < join k y) (f k)"
    by (rule sorted_wrt_mono_rel [OF _ assms(3)]) (use Cons.prems in \<open>simp add: join_less\<close>)
  moreover have "join k x < join k' y" if "k' \<in> set keys" for k' x y
    using Cons.prems that by (auto intro: join_less)
  ultimately show ?case
    using Cons by (auto simp: sorted_wrt_append sorted_wrt_map)
qed simp

lemma set_ToArray:
  assumes "roaring_wf r"
  shows "set (Roaring_ToArray r) = roaring_set r"
proof (rule set_eqI)
  fix v
  let ?cs = "Chunks r"
  have bound: "k < 2 ^ 48" if "k \<in> fst ` set ?cs" for k
    using assms that by (auto simp: roaring_wf_def chunks_wf_def)
  have "v \<in> roaring_set r" if "k \<in> fst ` set ?cs" "l \<in> set (chunk_at ?cs k)" "v = join k l" for k l
    using that bound [OF that(1)] by (simp add: in_roaring_set)
  moreover have "\<exists>k \<in> fst ` set ?cs. v \<in> join k ` set (chunk_at ?cs k)" if "v \<in> roaring_set r"
  proof
    show "v \<in> join (drop_bit 16 v) ` set (chunk_at ?cs (drop_bit 16 v))"
      using that by (auto simp: in_roaring_set intro!: image_eqI [of v _ "ucast v"])
    show "drop_bit 16 v \<in> fst ` set ?cs"
      using that by (rule contrapos_pp) (simp add: in_roaring_set chunk_at_def map_of_eq_None_iff
          [THEN iffD2])
  qed
  ultimately show "v \<in> set (Roaring_ToArray r) \<longleftrightarrow> v \<in> roaring_set r"
    by (auto simp: Roaring_ToArray_def Let_def)
qed

lemma sorted_ToArray:
  assumes "roaring_wf r"
  shows "sorted_wrt (<) (Roaring_ToArray r)"
  unfolding Roaring_ToArray_def Let_def
proof (rule sorted_concat_join)
  show "sorted_wrt (<) (sort (map fst (Chunks r)))"
    using assms by (simp add: strict_sorted_iff roaring_wf_def chunks_wf_def)
qed (use assms in \<open>auto simp: roaring_wf_def chunks_wf_at(1) chunks_wf_def\<close>)

lemma ToArray_eq:
  "roaring_wf r \<Longrightarrow> Roaring_ToArray r = sorted_list_of_set (roaring_set r)"
  using sorted_ToArray [of r] set_ToArray [of r]
  by (metis sorted_list_of_set.idem_if_sorted_distinct strict_sorted_iff)

lemma Len_sum: "Roaring_Len r = sum_list (map (length \<circ> snd) (Chunks r))"
proof -
  have "foldl (\<lambda>count (k, l). count + length l) n cs = n + sum_list (map (length \<circ> snd) cs)"
    for n and cs :: "(64 word \<times> 16 word list) list"
    by (induction cs arbitrary: n) auto
  then show ?thesis by (simp add: Roaring_Len_def)
qed

lemma Len_eq_length:
  assumes "roaring_wf r"
  shows "Roaring_Len r = length (Roaring_ToArray r)"
proof -
  let ?f = "\<lambda>k. length (chunk_at (Chunks r) k)"
  have d: "distinct (map fst (Chunks r))" using assms by (simp add: roaring_wf_def chunks_wf_def)
  have "length (Roaring_ToArray r) = sum_list (map ?f (sort (map fst (Chunks r))))"
    by (simp add: Roaring_ToArray_def Let_def length_concat comp_def)
  also have "\<dots> = sum_list (map ?f (map fst (Chunks r)))"
    by (simp only: mset_map mset_sort flip: sum_mset_sum_list)
  also have "map ?f (map fst (Chunks r)) = map (length \<circ> snd) (Chunks r)"
    using d by (auto simp: chunk_at_def map_of_is_SomeI)
  finally show ?thesis by (simp add: Len_sum)
qed

section \<open>Serialisation\<close>

lemma read_list_put:
  "read_list (length l) (concat (map (\<lambda>v. put_le 2 (unat v)) l) @ rd) = (l, rd)"
proof (induction l)
  case (Cons v l)
  have "unat v mod 65536 = unat v"
    using unsigned_less [of v, where ?'a = nat] by simp
  with Cons show ?case by (simp add: bread_put)
qed simp

lemma read_chunks_put:
  assumes "distinct (map fst (cs0 @ cs))" and "\<And>k l. (k, l) \<in> set cs \<Longrightarrow> length l < 2 ^ 32"
  shows "read_chunks (length cs)
      (concat (map (\<lambda>(k, l). put_le 8 (unat k) @ put_le 4 (length l)
                    @ concat (map (\<lambda>v. put_le 2 (unat v)) l)) cs)) cs0 = cs0 @ cs"
  using assms
proof (induction cs arbitrary: cs0)
  case (Cons c cs)
  obtain k l where c: "c = (k, l)" by (cases c)
  have len: "length l mod 256 ^ 4 = length l"
    using Cons.prems(2) [of k l] c by simp
  have upd: "AList.update k l cs0 = cs0 @ [(k, l)]"
    by (rule AList_update_fresh) (use Cons.prems(1) c in auto)
  have "read_chunks (length cs)
      (concat (map (\<lambda>(k, l). put_le 8 (unat k) @ put_le 4 (length l)
                    @ concat (map (\<lambda>v. put_le 2 (unat v)) l)) cs)) (cs0 @ [(k, l)])
      = (cs0 @ [(k, l)]) @ cs"
    by (rule Cons.IH) (use Cons.prems c in auto)
  then show ?case
    unfolding c by (simp only: length_Cons read_chunks.simps list.map concat.simps case_prod_conv
        append_assoc bread_put len upd read_list_put Let_def option.case word64_of_unat_mod) simp
qed simp

lemma Deserialize_Serialize:
  assumes "distinct (map fst (Chunks r))" and "length (Chunks r) < 2 ^ 32"
    and "\<And>k l. (k, l) \<in> set (Chunks r) \<Longrightarrow> length l < 2 ^ 32"
  shows "Roaring_Deserialize (Roaring_Serialize r) r0 = (Inr (), r0\<lparr>Chunks := Chunks r\<rparr>)"
proof -
  have "4 \<le> length (Roaring_Serialize r)" by (simp add: Roaring_Serialize_def)
  then have "Roaring_Serialize r \<noteq> []" by auto
  moreover have "bread 4 (Roaring_Serialize r) =
      (Some (length (Chunks r)),
       concat (map (\<lambda>(k, l). put_le 8 (unat k) @ put_le 4 (length l)
                    @ concat (map (\<lambda>v. put_le 2 (unat v)) l)) (Chunks r)))"
    using assms(2) by (simp add: Roaring_Serialize_def bread_put)
  ultimately show ?thesis
    using read_chunks_put [of "[]" "Chunks r"] assms(1,3)
    by (simp add: Roaring_Deserialize_def)
qed

lemma sorted_chunk_length:
  assumes "sorted_wrt (<) (l :: 16 word list)"
  shows "length l \<le> 65536"
proof -
  have "card (set l) = length l" using assms strict_sorted_iff distinct_card by blast
  moreover have "card (unat ` set l) = card (set l)" by (intro card_image inj_onI) (simp add: word_unat_eq_iff)
  moreover have "unat ` set l \<subseteq> {..<65536}"
    using unsigned_less [where ?'a = nat and ?'b = 16] by auto
  then have "card (unat ` set l) \<le> 65536" using card_mono [of "{..<65536}" "unat ` set l"] by simp
  ultimately show ?thesis by simp
qed

section \<open>Bitmaps as sets of identifiers\<close>

text \<open>What the query evaluator relies on: a well-formedness invariant kept by every
  operation and the set each result stands for.\<close>

locale bitmap =
  fixes wf :: "'b \<Rightarrow> bool" and elems :: "'b \<Rightarrow> 64 word set" and empty :: 'b
    and add :: "64 word \<Rightarrow> 'b \<Rightarrow> 'b" and inter union diff :: "'b \<Rightarrow> 'b \<Rightarrow> 'b"
    and enum :: "'b \<Rightarrow> 64 word list"
  assumes empty: "wf empty" "elems empty = {}"
    and add: "wf a \<Longrightarrow> wf (add x a)" "wf a \<Longrightarrow> elems (add x a) = insert x (elems a)"
    and inter: "wf a \<Longrightarrow> wf b \<Longrightarrow> wf (inter a b)" "wf a \<Longrightarrow> wf b \<Longrightarrow> elems (inter a b) = elems a \<inter> elems b"
    and union: "wf a \<Longrightarrow> wf b \<Longrightarrow> wf (union a b)" "wf a \<Longrightarrow> wf b \<Longrightarrow> elems (union a b) = elems a \<union> elems b"
    and diff: "wf a \<Longrightarrow> wf b \<Longrightarrow> wf (diff a b)" "wf a \<Longrightarrow> wf b \<Longrightarrow> elems (diff a b) = elems a - elems b"
    and enum: "wf a \<Longrightarrow> enum a = sorted_list_of_set (elems a)"
begin

lemma foldl_add:
  "wf a \<Longrightarrow> wf (foldl (\<lambda>a x. add x a) a xs) \<and> elems (foldl (\<lambda>a x. add x a) a xs) = elems a \<union> set xs"
  by (induction xs arbitrary: a) (auto simp: add)

lemma of_list:
  "wf (foldl (\<lambda>a x. add x a) empty xs)" "elems (foldl (\<lambda>a x. add x a) empty xs) = set xs"
  using foldl_add [of empty xs] by (simp_all add: empty)

text \<open>Collecting identifiers in a bitmap and listing it sorts them and drops duplicates.\<close>

lemma enum_of_list: "enum (foldl (\<lambda>a x. add x a) empty xs) = sorted_list_of_set (set xs)"
  by (simp add: enum of_list)

end

lemma New_empty: "roaring_wf NewRoaringBitmap" "roaring_set NewRoaringBitmap = {}"
  by (simp_all add: NewRoaringBitmap_def roaring_wf_def chunks_wf_def roaring_set_def chunk_at_def)

interpretation rb: bitmap roaring_wf roaring_set NewRoaringBitmap Roaring_Add
  RoaringIntersect RoaringUnion RoaringDifference Roaring_ToArray
  by unfold_locales (simp_all add: New_empty roaring_wf_ops roaring_set_Add roaring_set_ops ToArray_eq)

section \<open>Properties\<close>

text \<open>C34: \<open>Add\<close>, intersection, union and difference keep bitmaps well formed and compute
  exactly the set operations on the stored identifiers.\<close>

theorem roaring_operations:
  assumes "roaring_wf a" "roaring_wf b"
  shows "roaring_wf (Roaring_Add x a) \<and> roaring_set (Roaring_Add x a) = insert x (roaring_set a)
    \<and> roaring_wf (RoaringIntersect a b) \<and> roaring_set (RoaringIntersect a b) = roaring_set a \<inter> roaring_set b
    \<and> roaring_wf (RoaringUnion a b) \<and> roaring_set (RoaringUnion a b) = roaring_set a \<union> roaring_set b
    \<and> roaring_wf (RoaringDifference a b) \<and> roaring_set (RoaringDifference a b) = roaring_set a - roaring_set b"
  using assms rb.add rb.inter rb.union rb.diff by (intro conjI) simp_all

theorem roaring_operations_witness:
  "roaring_set (RoaringIntersect (Roaring_Add 5 NewRoaringBitmap) NewRoaringBitmap) = {}"
  using roaring_operations [of "Roaring_Add 5 NewRoaringBitmap" NewRoaringBitmap 0] rb.add rb.empty by simp

text \<open>\<open>ToArray\<close> lists the identifiers of a bitmap in ascending order without
  repetition and \<open>Len\<close> is their number.\<close>

theorem roaring_enumeration:
  assumes "roaring_wf r"
  shows "Roaring_ToArray r = sorted_list_of_set (roaring_set r) \<and> Roaring_Len r = card (roaring_set r)"
  using rb.enum [OF assms] Len_eq_length [OF assms]
  by (simp add: sorted_list_of_set.length_sorted_key_list_of_set)

theorem roaring_enumeration_witness:
  "Roaring_ToArray (Roaring_Add 70000 (Roaring_Add 3 NewRoaringBitmap)) = [3, 70000]"
  using roaring_enumeration [of "Roaring_Add 70000 (Roaring_Add 3 NewRoaringBitmap)"] rb.add rb.empty by simp

text \<open>A well-formed bitmap survives \<open>Serialize\<close> and \<open>Deserialize\<close>: the receiver
  gets the same chunks and no error.\<close>

theorem roaring_roundtrip:
  assumes "roaring_wf r" "length (Chunks r) < 2 ^ 32"
  shows "Roaring_Deserialize (Roaring_Serialize r) r0 = (Inr (), r)"
proof -
  have "length l < 2 ^ 32" if "(k, l) \<in> set (Chunks r)" for k l
    using assms(1) that sorted_chunk_length [of l] by (fastforce simp: roaring_wf_def chunks_wf_def)
  moreover have "distinct (map fst (Chunks r))" using assms(1) by (simp add: roaring_wf_def chunks_wf_def)
  ultimately show ?thesis using Deserialize_Serialize [of r r0] assms(2) by simp
qed

theorem roaring_roundtrip_witness:
  "Roaring_Deserialize (Roaring_Serialize NewRoaringBitmap) NewRoaringBitmap = (Inr (), NewRoaringBitmap)"
  using roaring_roundtrip [of NewRoaringBitmap NewRoaringBitmap] rb.empty by (simp add: NewRoaringBitmap_def)

end
