(* ===== verification/Index.thy ===== *)
theory Index
  imports GoStd "HOL-Library.Multiset"
begin

text \<open>
  \<open>index.go\<close>: the tokenizer, the in-memory inverted index, the segment file it is written
  to and the searcher that reads such a file. The main fact is the round trip: what
  \<open>FetchPostings\<close> reads from the bytes of \<open>WriteSegment\<close> is the sorted posting list.

  The searcher parses its dictionary once (\<open>once.Do(s.initDict)\<close>) from bytes that no method
  changes; the model computes that dictionary at each use.
\<close>

section \<open>Tokenizer and memory index\<close>

definition token_sep :: "char \<Rightarrow> bool" where
  "token_sep c \<longleftrightarrow> \<not> (char_in (CHR ''a'') (CHR ''z'') c \<or> char_in (CHR ''A'') (CHR ''Z'') c
                       \<or> char_in (CHR ''0'') (CHR ''9'') c)"

definition Tokenize :: "string \<Rightarrow> string list" where
  "Tokenize text = FieldsFunc token_sep (ToLower text)"

record mem_index =
  postings :: "(string \<times> 64 word list) list"
  docsCount :: "64 word"

definition NewMemIndex :: mem_index where
  "NewMemIndex = \<lparr>postings = [], docsCount = 0\<rparr>"

definition postings_at :: "(string \<times> 64 word list) list \<Rightarrow> string \<Rightarrow> 64 word list" where
  "postings_at ps t = (case map_of ps t of None \<Rightarrow> [] | Some l \<Rightarrow> l)"

fun add_tokens :: "64 word \<Rightarrow> string list \<Rightarrow> string set \<Rightarrow> (string \<times> 64 word list) list
    \<Rightarrow> (string \<times> 64 word list) list" where
  "add_tokens docID [] seen ps = ps"
| "add_tokens docID (t # ts) seen ps =
     (if t \<notin> seen
      then add_tokens docID ts (insert t seen) (AList.update t (postings_at ps t @ [docID]) ps)
      else add_tokens docID ts seen ps)"

definition MemIndex_Add :: "64 word \<Rightarrow> string \<Rightarrow> mem_index \<Rightarrow> mem_index" where
  "MemIndex_Add docID text m =
     m\<lparr>postings := add_tokens docID (Tokenize text) {} (postings m),
       docsCount := docsCount m + 1\<rparr>"

section \<open>Segments\<close>

text \<open>The delta loop of one posting list; \<open>id - lastID\<close> is a \<open>uint64\<close> subtraction.\<close>

fun write_deltas :: "64 word \<Rightarrow> 64 word list \<Rightarrow> bytes" where
  "write_deltas lastID [] = []"
| "write_deltas lastID (i # ids) = put_uvarint (unat (i - lastID)) @ write_deltas i ids"

definition write_postings :: "64 word list \<Rightarrow> bytes" where
  "write_postings ids = put_le 4 (length ids) @ write_deltas 0 ids"

text \<open>The first loop writes the lsts and collects the offset of each term.\<close>

fun write_lists :: "(string \<Rightarrow> 64 word list) \<Rightarrow> nat \<Rightarrow> string list \<Rightarrow> bytes \<times> nat list" where
  "write_lists post currentOffset [] = ([], [])"
| "write_lists post currentOffset (t # ts) =
     (let buf = write_postings (post t);
          (rest, offs) = write_lists post (currentOffset + length buf) ts
      in (buf @ rest, currentOffset # offs))"

definition dict_entry :: "string \<Rightarrow> nat \<Rightarrow> bytes" where
  "dict_entry t off = put_le 4 (length t) @ bytes_of t @ put_le 8 off"

definition segment_bytes :: "(string \<Rightarrow> 64 word list) \<Rightarrow> string list \<Rightarrow> bytes" where
  "segment_bytes post terms =
     (let (lsts, offs) = write_lists post 0 terms
      in lsts @ concat (map2 dict_entry terms offs) @ put_le 8 (length lsts))"

text \<open>
  \<open>WriteSegment\<close>: terms in sorted order; \<open>sort.Slice\<close> sorts each posting list in place,
  so the index it returns holds the sorted lsts. The result is the file's content.
\<close>

definition MemIndex_WriteSegment :: "mem_index \<Rightarrow> bytes \<times> mem_index" where
  "MemIndex_WriteSegment m =
     (let terms = sort (map fst (postings m));
          m' = m\<lparr>postings := map (\<lambda>(t, ids). (t, sort ids)) (postings m)\<rparr>
      in (segment_bytes (postings_at (postings m')) terms, m'))"

section \<open>Searcher\<close>

record searcher =
  Data :: bytes

definition string_of :: "bytes \<Rightarrow> string" where
  "string_of bs = map (\<lambda>b. char_of (unat b)) bs"

function dict_loop :: "bytes \<Rightarrow> (string \<times> nat) list \<Rightarrow> (string \<times> nat) list" where
  "dict_loop rd dict =
     (if length rd < 4 then dict
      else let termLen = get_le (take 4 rd); rd1 = drop 4 rd
           in if length rd1 < termLen then dict
              else let term = string_of (take termLen rd1); rd2 = drop termLen rd1
                   in if length rd2 < 8 then dict
                      else dict_loop (drop 8 rd2) (AList.update term (get_le (take 8 rd2)) dict))"
  by pat_completeness auto
termination
  by (relation "measure (\<lambda>(rd, dict). length rd)") auto

declare dict_loop.simps [simp del]

definition initDict :: "searcher \<Rightarrow> (string \<times> nat) list" where
  "initDict s =
     (if length (Data s) < 8 then []
      else let n = length (Data s) - 8; dictOffset = rd_le 8 (Data s) n
           in if n \<le> dictOffset then [] else dict_loop (slice (Data s) dictOffset n) [])"

fun read_deltas :: "nat \<Rightarrow> 64 word \<Rightarrow> bytes \<Rightarrow> 64 word list" where
  "read_deltas 0 lastID rd = []"
| "read_deltas (Suc n) lastID rd =
     (case get_uvarint rd of
        (None, _) \<Rightarrow> []
      | (Some delta, rd') \<Rightarrow> (let i = lastID + word_of_nat delta in i # read_deltas n i rd'))"

text \<open>\<open>s.Data[offset:]\<close> panics when the offset lies beyond the data.\<close>

definition FetchPostings :: "searcher \<Rightarrow> string \<Rightarrow> 64 word list result" where
  "FetchPostings s target =
     (case map_of (initDict s) target of
        None \<Rightarrow> Inr []
      | Some offset \<Rightarrow>
          if length (Data s) < offset then Inl GoPanic
          else (case bread 4 (drop offset (Data s)) of
                  (None, _) \<Rightarrow> Inr []
                | (Some postCount, rd) \<Rightarrow> Inr (read_deltas postCount 0 rd)))"

section \<open>The memory index\<close>

lemma postings_at_update [simp]:
  "postings_at (AList.update t l ps) t' = (if t' = t then l else postings_at ps t')"
  by (simp add: postings_at_def)

lemma postings_add_tokens:
  "postings_at (add_tokens d ts seen ps) t =
     postings_at ps t @ (if t \<in> set ts \<and> t \<notin> seen then [d] else [])"
  by (induction d ts seen ps rule: add_tokens.induct) auto

lemma distinct_add_tokens:
  "distinct (map fst ps) \<Longrightarrow> distinct (map fst (add_tokens d ts seen ps))"
  by (induction d ts seen ps rule: add_tokens.induct) (auto simp: distinct_update)

lemma postings_MemIndex_Add:
  "postings_at (postings (MemIndex_Add d text m)) t =
     postings_at (postings m) t @ (if t \<in> set (Tokenize text) then [d] else [])"
  by (simp add: MemIndex_Add_def postings_add_tokens)

section \<open>Reading back a posting list\<close>

lemma read_write_deltas: "read_deltas (length ids) lastID (write_deltas lastID ids @ rd) = ids"
proof (induction ids arbitrary: lastID)
  case (Cons i ids)
  have "unat (i - lastID) < 2 ^ 64"
    using unsigned_less [of "i - lastID", where ?'a = nat] by simp
  with Cons show ?case by (simp add: get_put_uvarint)
qed simp

lemma string_of_bytes_of [simp]: "string_of (bytes_of t) = t"
  by (simp add: string_of_def bytes_of_def comp_def)

lemma length_bytes_of [simp]: "length (bytes_of t) = length t"
  by (simp add: bytes_of_def)

section \<open>Segment layout\<close>

lemma write_lists_lengths:
  "length (snd (write_lists post base ts)) = length ts"
  by (induction post base ts rule: write_lists.induct) (auto simp: Let_def split: prod.split)

lemma write_lists_offset:
  assumes "write_lists post base ts = (bs, offs)" and "(t, off) \<in> set (zip ts offs)"
  shows "\<exists>pre suf. bs = pre @ write_postings (post t) @ suf \<and> off = base + length pre"
  using assms
proof (induction post base ts arbitrary: bs offs rule: write_lists.induct)
  case (2 post base t' ts)
  obtain rest offs' where w: "write_lists post (base + length (write_postings (post t'))) ts = (rest, offs')"
    by (cases "write_lists post (base + length (write_postings (post t'))) ts")
  have bs: "bs = write_postings (post t') @ rest" and offs: "offs = base # offs'"
    using "2.prems"(1) w by (simp_all add: Let_def)
  show ?case
  proof (cases "(t, off) = (t', base)")
    case True
    then have "bs = [] @ write_postings (post t) @ rest \<and> off = base + length []"
      using bs by simp
    then show ?thesis by blast
  next
    case False
    with "2.prems"(2) offs have "(t, off) \<in> set (zip ts offs')" by auto
    from "2.IH" [OF refl w this] obtain pre suf where
      "rest = pre @ write_postings (post t) @ suf"
      "off = base + length (write_postings (post t')) + length pre" by blast
    then have "bs = (write_postings (post t') @ pre) @ write_postings (post t) @ suf
        \<and> off = base + length (write_postings (post t') @ pre)"
      using bs by simp
    then show ?thesis by blast
  qed
qed simp

lemma dict_loop_entry:
  assumes "length t < 2 ^ 32" and "off < 2 ^ 64"
  shows "dict_loop (dict_entry t off @ rd) dict = dict_loop rd (AList.update t off dict)"
proof -
  have "take 4 (dict_entry t off @ rd) = put_le 4 (length t)"
    and "drop 4 (dict_entry t off @ rd) = bytes_of t @ put_le 8 off @ rd"
    by (simp_all add: dict_entry_def)
  with assms show ?thesis
    by (simp add: dict_loop.simps [of "dict_entry t off @ rd" dict] Let_def) (simp add: dict_entry_def)
qed

lemma dict_loop_entries:
  assumes "length ts = length offs" and "distinct (map fst dict @ ts)"
    and "\<And>t. t \<in> set ts \<Longrightarrow> length t < 2 ^ 32" and "\<And>off. off \<in> set offs \<Longrightarrow> off < 2 ^ 64"
  shows "dict_loop (concat (map2 dict_entry ts offs)) dict = dict @ zip ts offs"
  using assms
proof (induction ts offs arbitrary: dict rule: list_induct2)
  case Nil
  show ?case by (simp add: dict_loop.simps [of "[]"])
next
  case (Cons t ts off offs)
  have "AList.update t off dict = dict @ [(t, off)]"
    by (rule AList_update_fresh) (use Cons.prems(1) in auto)
  moreover have "dict_loop (concat (map2 dict_entry ts offs)) (dict @ [(t, off)]) = (dict @ [(t, off)]) @ zip ts offs"
    by (rule Cons.IH) (use Cons.prems in auto)
  ultimately show ?case
    using Cons.prems by (simp add: dict_loop_entry)
qed

section \<open>Round trip\<close>

lemma segment_bytes_split:
  assumes "write_lists post 0 ts = (lsts, offs)"
  shows "segment_bytes post ts = lsts @ concat (map2 dict_entry ts offs) @ put_le 8 (length lsts)"
  using assms by (simp add: segment_bytes_def)

lemma initDict_segment:
  assumes w: "write_lists post 0 ts = (lsts, offs)" and "distinct ts"
    and "\<And>t. t \<in> set ts \<Longrightarrow> length t < 2 ^ 32" and size: "length (segment_bytes post ts) < 2 ^ 64"
  shows "initDict \<lparr>Data = segment_bytes post ts\<rparr> = zip ts offs"
proof -
  define dict where "dict = concat (map2 dict_entry ts offs)"
  let ?d = "segment_bytes post ts"
  have d: "?d = lsts @ dict @ put_le 8 (length lsts)"
    unfolding dict_def by (rule segment_bytes_split [OF w])
  have len: "length ts = length offs"
    using write_lists_lengths [of post 0 ts] w by simp
  have lsts: "length lsts < 2 ^ 64" using size d by simp
  have offs: "off < 2 ^ 64" if off: "off \<in> set offs" for off
  proof -
    obtain t where "(t, off) \<in> set (zip ts offs)"
      using off len by (auto simp: set_zip in_set_conv_nth)
    from write_lists_offset [OF w this] lsts show ?thesis by auto
  qed
  have ptr: "rd_le 8 ?d (length ?d - 8) = length lsts"
  proof -
    have "rd_le 8 ((lsts @ dict) @ put_le 8 (length lsts) @ []) (length (lsts @ dict)) = length lsts"
      using lsts by (subst rd_le_append) simp_all
    then show ?thesis by (simp add: d)
  qed
  have sl: "slice ?d (length lsts) (length ?d - 8) = dict"
    using slice_append [of lsts "length lsts" "length lsts + length dict" dict] by (simp add: d)
  have "dict_loop dict [] = zip ts offs"
    using dict_loop_entries [of ts offs "[]"] len assms(2,3) offs by (simp add: dict_def)
  moreover have "ts \<noteq> [] \<Longrightarrow> 0 < length dict"
    using len by (cases ts; cases offs) (auto simp: dict_entry_def dict_def)
  ultimately show ?thesis
    using ptr sl by (cases "ts = []") (auto simp: initDict_def Let_def d dict_loop.simps [of "[]"])
qed

lemma FetchPostings_segment:
  assumes "distinct ts" and "\<And>t. t \<in> set ts \<Longrightarrow> length t < 2 ^ 32"
    and "\<And>t. t \<in> set ts \<Longrightarrow> length (post t) < 2 ^ 32" and "length (segment_bytes post ts) < 2 ^ 64"
  shows "FetchPostings \<lparr>Data = segment_bytes post ts\<rparr> t = Inr (if t \<in> set ts then post t else [])"
proof -
  obtain lsts offs where w: "write_lists post 0 ts = (lsts, offs)"
    by (cases "write_lists post 0 ts")
  have dict: "initDict \<lparr>Data = segment_bytes post ts\<rparr> = zip ts offs"
    by (rule initDict_segment [OF w]) (use assms in auto)
  have len: "length ts = length offs"
    using write_lists_lengths [of post 0 ts] w by simp
  show ?thesis
  proof (cases "t \<in> set ts")
    case False
    then have "map_of (zip ts offs) t = None"
      using len by (auto simp: map_of_zip_is_None)
    with False show ?thesis by (simp add: FetchPostings_def dict)
  next
    case True
    then obtain off where off: "map_of (zip ts offs) t = Some off"
      using len by (metis map_of_zip_is_Some)
    then obtain pre suf where l: "lsts = pre @ write_postings (post t) @ suf" and o: "off = length pre"
      using write_lists_offset [OF w] map_of_SomeD [OF off] by fastforce
    have "drop off (segment_bytes post ts) =
        put_le 4 (length (post t)) @ write_deltas 0 (post t)
        @ (suf @ concat (map2 dict_entry ts offs) @ put_le 8 (length lsts))"
      by (simp add: segment_bytes_split [OF w] l o write_postings_def)
    moreover have "off \<le> length (segment_bytes post ts)"
      by (simp add: segment_bytes_split [OF w] l o)
    moreover have "length (post t) mod 256 ^ 4 = length (post t)"
      using assms(3) [OF True] by simp
    ultimately show ?thesis
      using True by (simp add: FetchPostings_def dict off bread_put read_write_deltas)
  qed
qed

lemma postings_at_sorted:
  "postings_at (map (\<lambda>(t, ids). (t, sort ids)) ps) t = sort (postings_at ps t)"
  by (simp add: postings_at_def map_of_map split: option.split)

text \<open>The sizes a segment file can represent.\<close>

definition index_fits :: "mem_index \<Rightarrow> bool" where
  "index_fits m \<longleftrightarrow> distinct (map fst (postings m))
     \<and> (\<forall>(t, ids) \<in> set (postings m). length t < 2 ^ 32 \<and> length ids < 2 ^ 32)
     \<and> length (fst (MemIndex_WriteSegment m)) < 2 ^ 64"

lemma FetchPostings_WriteSegment:
  assumes "index_fits m"
  shows "FetchPostings \<lparr>Data = fst (MemIndex_WriteSegment m)\<rparr> t = Inr (sort (postings_at (postings m) t))"
proof -
  let ?ps = "map (\<lambda>(t, ids). (t, sort ids)) (postings m)"
  let ?ts = "sort (map fst (postings m))"
  have keys: "map fst ?ps = map fst (postings m)" by auto
  have short: "length (postings_at ?ps t) < 2 ^ 32" if "t \<in> set ?ts" for t
    using assms that
    by (auto simp: index_fits_def postings_at_sorted) (auto simp: postings_at_def split: option.split dest!: map_of_SomeD)
  have "FetchPostings \<lparr>Data = segment_bytes (postings_at ?ps) ?ts\<rparr> t =
      Inr (if t \<in> set ?ts then postings_at ?ps t else [])"
    by (rule FetchPostings_segment)
      (use assms short in \<open>auto simp: index_fits_def MemIndex_WriteSegment_def\<close>)
  moreover have "t \<notin> set ?ts \<Longrightarrow> postings_at (postings m) t = []"
    by (simp add: postings_at_def map_of_eq_None_iff [THEN iffD2])
  ultimately show ?thesis
    by (auto simp: MemIndex_WriteSegment_def postings_at_sorted)
qed

end
