(* ===== verification/Query.thy ===== *)
theory Query
  imports Roaring Index
begin

text \<open>
  \<open>ast.go\<close> and \<open>SegmentSearcher.Search\<close>: the boolean query language, its
  recursive-descent parser and the evaluation of a query on bitmaps.

  The parser state \<open>Parser{tokens, pos}\<close> is the list of tokens that are left;
  \<open>consume\<close> past the end leaves it empty. The \<open>depth\<close> counter goes up by one in each
  parse method and down again when the method returns, so it is an argument.
\<close>

section \<open>Queries and their evaluation\<close>

datatype query =
    TermQuery string
  | AndQuery query query
  | OrQuery query query
  | NotQuery query query

definition Term_Execute :: "searcher \<Rightarrow> string \<Rightarrow> roaring result" where
  "Term_Execute s term =
     (case FetchPostings s term of
        Inl e \<Rightarrow> Inl e
      | Inr ids \<Rightarrow> Inr (foldl (\<lambda>bm i. Roaring_Add i bm) NewRoaringBitmap ids))"

definition lift2 :: "('a \<Rightarrow> 'a \<Rightarrow> 'a) \<Rightarrow> 'a result \<Rightarrow> 'a result \<Rightarrow> 'a result" where
  "lift2 f x y =
     (case x of Inl e \<Rightarrow> Inl e | Inr a \<Rightarrow> (case y of Inl e \<Rightarrow> Inl e | Inr b \<Rightarrow> Inr (f a b)))"

primrec Execute :: "searcher \<Rightarrow> query \<Rightarrow> roaring result" where
  "Execute s (TermQuery term) = Term_Execute s term"
| "Execute s (AndQuery l r) = lift2 RoaringIntersect (Execute s l) (Execute s r)"
| "Execute s (OrQuery l r) = lift2 RoaringUnion (Execute s l) (Execute s r)"
| "Execute s (NotQuery l r) = lift2 RoaringDifference (Execute s l) (Execute s r)"

section \<open>Parser\<close>

definition MaxQueryDepth :: nat where
  "MaxQueryDepth = 50"

definition current :: "string list \<Rightarrow> string" where
  "current toks = (case toks of [] \<Rightarrow> '''' | t # _ \<Rightarrow> t)"

definition consume :: "string list \<Rightarrow> string list" where
  "consume toks = tl toks"

function (sequential)
      parseExpression :: "nat \<Rightarrow> string list \<Rightarrow> (query \<times> string list) result"
  and orLoop :: "nat \<Rightarrow> query \<Rightarrow> string list \<Rightarrow> (query \<times> string list) result"
  and parseTerm :: "nat \<Rightarrow> string list \<Rightarrow> (query \<times> string list) result"
  and andLoop :: "nat \<Rightarrow> query \<Rightarrow> string list \<Rightarrow> (query \<times> string list) result"
  and parseFactor :: "nat \<Rightarrow> string list \<Rightarrow> (query \<times> string list) result"
where
  "parseExpression depth toks =
     (if depth + 1 > MaxQueryDepth then Inl ErrNesting
      else case parseTerm (depth + 1) toks of
             Inl e \<Rightarrow> Inl e
           | Inr (left, toks1) \<Rightarrow> orLoop (depth + 1) left toks1)"
| "orLoop depth left toks =
     (if current toks = ''OR''
      then case parseTerm depth (consume toks) of
             Inl e \<Rightarrow> Inl e
           | Inr (right, toks1) \<Rightarrow> orLoop depth (OrQuery left right) toks1
      else Inr (left, toks))"
| "parseTerm depth toks =
     (if depth + 1 > MaxQueryDepth then Inl ErrNesting
      else case parseFactor (depth + 1) toks of
             Inl e \<Rightarrow> Inl e
           | Inr (left, toks1) \<Rightarrow> andLoop (depth + 1) left toks1)"
| "andLoop depth left toks =
     (if current toks = ''AND'' \<or> current toks = ''NOT''
      then case parseFactor depth (consume toks) of
             Inl e \<Rightarrow> Inl e
           | Inr (right, toks1) \<Rightarrow>
               andLoop depth
                 (if current toks = ''AND'' then AndQuery left right else NotQuery left right) toks1
      else Inr (left, toks))"
| "parseFactor depth toks =
     (if depth + 1 > MaxQueryDepth then Inl ErrNesting
      else if current toks = ''(''
      then case parseExpression (depth + 1) (consume toks) of
             Inl e \<Rightarrow> Inl e
           | Inr (expr, toks1) \<Rightarrow>
               if current toks1 \<noteq> '')'' then Inl ErrMissingParen
               else Inr (expr, consume toks1)
      else if current toks \<in> {'''', '')'', ''AND'', ''OR'', ''NOT''} then Inl ErrUnexpectedToken
      else case Tokenize (current toks) of
             [] \<Rightarrow> Inr (TermQuery '''', consume toks)
           | w # _ \<Rightarrow> Inr (TermQuery w, consume toks))"
  by pat_completeness auto

text \<open>A method that succeeds has consumed at least one token, a loop none or more.\<close>

lemma consume_less: "current toks = c # cs \<Longrightarrow> length (consume toks) < length toks"
  by (cases toks) (auto simp: current_def consume_def)

lemma parse_consumes:
  shows "parseExpression_orLoop_parseTerm_andLoop_parseFactor_dom (Inl (Inl (d1, t1)))
      \<Longrightarrow> parseExpression d1 t1 = Inr (q1, r1) \<Longrightarrow> length r1 < length t1"
    and "parseExpression_orLoop_parseTerm_andLoop_parseFactor_dom (Inl (Inr (d2, l2, t2)))
      \<Longrightarrow> orLoop d2 l2 t2 = Inr (q2, r2) \<Longrightarrow> length r2 \<le> length t2"
    and "parseExpression_orLoop_parseTerm_andLoop_parseFactor_dom (Inr (Inl (d3, t3)))
      \<Longrightarrow> parseTerm d3 t3 = Inr (q3, r3) \<Longrightarrow> length r3 < length t3"
    and "parseExpression_orLoop_parseTerm_andLoop_parseFactor_dom (Inr (Inr (Inl (d4, l4, t4))))
      \<Longrightarrow> andLoop d4 l4 t4 = Inr (q4, r4) \<Longrightarrow> length r4 \<le> length t4"
    and "parseExpression_orLoop_parseTerm_andLoop_parseFactor_dom (Inr (Inr (Inr (d5, t5))))
      \<Longrightarrow> parseFactor d5 t5 = Inr (q5, r5) \<Longrightarrow> length r5 < length t5"
proof (induction d1 t1 and d2 l2 t2 and d3 t3 and d4 l4 t4 and d5 t5
    arbitrary: q1 r1 and q2 r2 and q3 r3 and q4 r4 and q5 r5
    rule: parseExpression_orLoop_parseTerm_andLoop_parseFactor.pinduct)
  case (1 depth toks)
  then show ?case
    by (fastforce simp: parseExpression.psimps split: if_splits sum.splits prod.splits)
next
  case (2 depth left toks)
  show ?case
  proof (cases "current toks = ''OR''")
    case True
    with "2.prems" "2.hyps" obtain right toks1 where
      r: "parseTerm depth (consume toks) = Inr (right, toks1)" and
      "orLoop depth (OrQuery left right) toks1 = Inr (q2, r2)"
      by (auto simp: orLoop.psimps split: sum.splits)
    with "2.IH" True have "length toks1 < length (consume toks)" "length r2 \<le> length toks1"
      by blast+
    with consume_less [OF True] show ?thesis by simp
  qed (use "2.prems" "2.hyps" in \<open>simp add: orLoop.psimps\<close>)
next
  case (3 depth toks)
  then show ?case
    by (fastforce simp: parseTerm.psimps split: if_splits sum.splits prod.splits)
next
  case (4 depth left toks)
  show ?case
  proof (cases "current toks = ''AND'' \<or> current toks = ''NOT''")
    case True
    let ?q = "\<lambda>right. if current toks = ''AND'' then AndQuery left right else NotQuery left right"
    from True "4.prems" "4.hyps" obtain right toks1 where
      r: "parseFactor depth (consume toks) = Inr (right, toks1)" and
      "andLoop depth (?q right) toks1 = Inr (q4, r4)"
      by (auto simp: andLoop.psimps split: sum.splits)
    with "4.IH" True have "length toks1 < length (consume toks)" "length r4 \<le> length toks1"
      by blast+
    moreover have "length (consume toks) < length toks"
      using True by (auto dest: consume_less)
    ultimately show ?thesis by simp
  qed (use "4.prems" "4.hyps" in \<open>simp add: andLoop.psimps\<close>)
next
  case (5 depth toks)
  have ne: "length (consume toks) < length toks" if "current toks \<noteq> ''''"
    using that by (cases "current toks") (auto dest: consume_less)
  show ?case
  proof (cases "current toks = ''(''")
    case True
    with "5.prems" "5.hyps" obtain toks1 where
      "\<not> MaxQueryDepth < depth + 1"
      "parseExpression (depth + 1) (consume toks) = Inr (q5, toks1)" "r5 = consume toks1"
      by (auto simp: parseFactor.psimps split: if_splits sum.splits)
    with True "5.IH" have "length toks1 < length (consume toks)" "r5 = consume toks1"
      by blast+
    with ne True show ?thesis by (simp add: consume_def)
  next
    case False
    with "5.prems" "5.hyps" have "r5 = consume toks" "current toks \<noteq> ''''"
      by (auto simp: parseFactor.psimps split: if_splits list.splits)
    with ne show ?thesis by simp
  qed
qed

termination parseExpression
proof (relation "measures [\<lambda>x. case x of Inl (Inl (d, ts)) \<Rightarrow> length ts | Inl (Inr (d, l, ts)) \<Rightarrow> length ts
      | Inr (Inl (d, ts)) \<Rightarrow> length ts | Inr (Inr (Inl (d, l, ts))) \<Rightarrow> length ts
      | Inr (Inr (Inr (d, ts))) \<Rightarrow> length ts,
    \<lambda>x. case x of Inl (Inl _) \<Rightarrow> 2 | Inl (Inr _) \<Rightarrow> 0 | Inr (Inl _) \<Rightarrow> 1 | Inr (Inr _) \<Rightarrow> 0]",
    goal_cases)
qed (auto dest!: parse_consumes(3) parse_consumes(5) dest: consume_less intro: less_trans)

declare parseExpression.simps [simp del] orLoop.simps [simp del] parseTerm.simps [simp del]
  andLoop.simps [simp del] parseFactor.simps [simp del]

definition ParseQuery :: "string \<Rightarrow> query result" where
  "ParseQuery input =
     (let input1 = ReplaceAll (CHR ''('') '' ( '' input;
          input2 = ReplaceAll (CHR '')'') '' ) '' input1
      in case parseExpression 0 (Fields input2) of
           Inl e \<Rightarrow> Inl e
         | Inr (q, _) \<Rightarrow> Inr q)"

definition Search :: "searcher \<Rightarrow> string \<Rightarrow> roaring result" where
  "Search s queryString =
     (case ParseQuery queryString of Inl e \<Rightarrow> Inl e | Inr ast \<Rightarrow> Execute s ast)"

section \<open>Evaluation computes the denoted set of documents\<close>

primrec query_docs :: "(string \<Rightarrow> 64 word set) \<Rightarrow> query \<Rightarrow> 64 word set" where
  "query_docs P (TermQuery t) = P t"
| "query_docs P (AndQuery l r) = query_docs P l \<inter> query_docs P r"
| "query_docs P (OrQuery l r) = query_docs P l \<union> query_docs P r"
| "query_docs P (NotQuery l r) = query_docs P l - query_docs P r"

lemma Execute_sound:
  assumes "\<And>t. FetchPostings s t = Inr (P t)"
  shows "\<exists>bm. Execute s q = Inr bm \<and> roaring_wf bm \<and> roaring_set bm = query_docs (\<lambda>t. set (P t)) q"
proof (induction q)
  case (TermQuery t)
  show ?case
    by (simp add: Term_Execute_def assms rb.of_list)
qed (auto simp: lift2_def rb.inter rb.union rb.diff)

section \<open>Print and parse\<close>

text \<open>
  A printer with the precedences of the grammar: \<open>pr 0\<close> prints an expression, \<open>pr 1\<close> a
  term and \<open>pr 2\<close> a factor, with parentheses where the query binds weaker.
\<close>

definition paren :: "bool \<Rightarrow> string list \<Rightarrow> string list" where
  "paren b ts = (if b then ''('' # ts @ ['')''] else ts)"

primrec pr :: "query \<Rightarrow> nat \<Rightarrow> string list" where
  "pr (TermQuery t) k = [t]"
| "pr (OrQuery a b) k = paren (0 < k) (pr a 0 @ ''OR'' # pr b 1)"
| "pr (AndQuery a b) k = paren (1 < k) (pr a 1 @ ''AND'' # pr b 2)"
| "pr (NotQuery a b) k = paren (1 < k) (pr a 1 @ ''NOT'' # pr b 2)"

primrec nest :: "query \<Rightarrow> nat \<Rightarrow> nat" where
  "nest (TermQuery t) k = 0"
| "nest (OrQuery a b) k = of_bool (0 < k) + max (nest a 0) (nest b 1)"
| "nest (AndQuery a b) k = of_bool (1 < k) + max (nest a 1) (nest b 2)"
| "nest (NotQuery a b) k = of_bool (1 < k) + max (nest a 1) (nest b 2)"

definition word_char :: "char \<Rightarrow> bool" where
  "word_char c \<longleftrightarrow> char_in (CHR ''a'') (CHR ''z'') c \<or> char_in (CHR ''0'') (CHR ''9'') c"

definition clean_word :: "string \<Rightarrow> bool" where
  "clean_word t \<longleftrightarrow> t \<noteq> [] \<and> (\<forall>c \<in> set t. word_char c)"

primrec clean :: "query \<Rightarrow> bool" where
  "clean (TermQuery t) = clean_word t"
| "clean (AndQuery a b) \<longleftrightarrow> clean a \<and> clean b"
| "clean (OrQuery a b) \<longleftrightarrow> clean a \<and> clean b"
| "clean (NotQuery a b) \<longleftrightarrow> clean a \<and> clean b"

definition print_query :: "query \<Rightarrow> string" where
  "print_query q = concat (map (\<lambda>t. t @ '' '') (pr q 0))"

lemma word_char_lower: "word_char c \<Longrightarrow> to_lower_char c = c"
  by (auto simp: word_char_def to_lower_char_def char_in_def less_eq_char_def)

lemma Tokenize_clean: "clean_word t \<Longrightarrow> Tokenize t = [t]"
proof -
  assume t: "clean_word t"
  then have "ToLower t = t"
    by (auto simp: ToLower_def clean_word_def word_char_lower intro: map_idI)
  moreover have "\<not> token_sep c" if "c \<in> set t" for c
    using t that by (auto simp: token_sep_def clean_word_def word_char_def)
  ultimately show ?thesis
    using t by (simp add: Tokenize_def FieldsFunc_last clean_word_def)
qed

lemma clean_word_not_reserved:
  assumes "clean_word t"
  shows "t \<noteq> ''(''" "t \<notin> {'''', '')'', ''AND'', ''OR'', ''NOT''}"
  using assms by (auto simp: clean_word_def word_char_def char_in_def less_eq_char_def)

lemma current_Cons [simp]: "current (t # ts) = t" and current_Nil [simp]: "current [] = ''''"
  and consume_Cons [simp]: "consume (t # ts) = ts"
  by (simp_all add: current_def consume_def)

lemma andLoop_stop: "current r \<noteq> ''AND'' \<Longrightarrow> current r \<noteq> ''NOT'' \<Longrightarrow> andLoop d q r = Inr (q, r)"
  by (simp add: andLoop.simps)

lemma orLoop_stop: "current r \<noteq> ''OR'' \<Longrightarrow> orLoop d q r = Inr (q, r)"
  by (simp add: orLoop.simps)

text \<open>
  The three levels: \<open>parse_at q k\<close> says that printing \<open>q\<close> at level \<open>k\<close> and parsing it at
  that level gives \<open>q\<close> back, with the loop of the level left to run on the rest.
\<close>

definition parses_E :: "query \<Rightarrow> bool" where
  "parses_E q \<longleftrightarrow> (\<forall>d r. d + 3 * nest q 0 + 3 \<le> MaxQueryDepth \<longrightarrow> current r \<noteq> ''AND'' \<longrightarrow> current r \<noteq> ''NOT''
     \<longrightarrow> parseExpression d (pr q 0 @ r) = orLoop (d + 1) q r)"

definition parses_T :: "query \<Rightarrow> bool" where
  "parses_T q \<longleftrightarrow> (\<forall>d r. d + 3 * nest q 1 + 2 \<le> MaxQueryDepth
     \<longrightarrow> parseTerm d (pr q 1 @ r) = andLoop (d + 1) q r)"

definition parses_F :: "query \<Rightarrow> bool" where
  "parses_F q \<longleftrightarrow> (\<forall>d r. d + 3 * nest q 2 + 1 \<le> MaxQueryDepth \<longrightarrow> parseFactor d (pr q 2 @ r) = Inr (q, r))"

lemma parses_T_of_F: "pr q 1 = pr q 2 \<Longrightarrow> nest q 1 = nest q 2 \<Longrightarrow> parses_F q \<Longrightarrow> parses_T q"
  by (simp add: parses_T_def parses_F_def parseTerm.simps)

lemma parses_E_of_T: "pr q 0 = pr q 1 \<Longrightarrow> nest q 0 = nest q 1 \<Longrightarrow> parses_T q \<Longrightarrow> parses_E q"
  by (simp add: parses_T_def parses_E_def parseExpression.simps andLoop_stop)

lemma parses_F_of_E:
  assumes "pr q 2 = ''('' # pr q 0 @ ['')'']" and "nest q 2 = Suc (nest q 0)" and "parses_E q"
  shows "parses_F q"
  unfolding parses_F_def
proof (intro allI impI)
  fix d r assume d: "d + 3 * nest q 2 + 1 \<le> MaxQueryDepth"
  with assms(2,3) have "parseExpression (d + 1) (pr q 0 @ '')'' # r) = orLoop (d + 2) q ('')'' # r)"
    by (simp add: parses_E_def)
  then have "parseExpression (d + 1) (pr q 0 @ '')'' # r) = Inr (q, '')'' # r)"
    by (simp add: orLoop_stop)
  with d show "parseFactor d (pr q 2 @ r) = Inr (q, r)"
    by (simp add: assms(1) parseFactor.simps)
qed

lemma parses_E_Or: "parses_E a \<Longrightarrow> parses_T b \<Longrightarrow> parses_E (OrQuery a b)"
  by (auto simp: parses_E_def parses_T_def paren_def andLoop_stop orLoop.simps [of _ _ "''OR'' # _"])

lemma parses_T_And:
  "parses_T a \<Longrightarrow> parses_F b \<Longrightarrow> parses_T (AndQuery a b)"
  "parses_T a \<Longrightarrow> parses_F b \<Longrightarrow> parses_T (NotQuery a b)"
  by (auto simp: parses_T_def parses_F_def paren_def andLoop.simps [of _ _ "''AND'' # _"]
      andLoop.simps [of _ _ "''NOT'' # _"])

lemma parses_pr: "clean q \<Longrightarrow> parses_E q \<and> parses_T q \<and> parses_F q"
proof (induction q)
  case (TermQuery t)
  then have "parses_F (TermQuery t)"
    using clean_word_not_reserved [of t]
    by (simp add: parses_F_def parseFactor.simps Tokenize_clean)
  then show ?case by (simp add: parses_T_of_F parses_E_of_T)
next
  case (OrQuery a b)
  then have e: "parses_E (OrQuery a b)" by (simp add: parses_E_Or)
  then have "parses_F (OrQuery a b)" by (rule parses_F_of_E [rotated 2]) (simp_all add: paren_def)
  with e show ?case by (simp add: parses_T_of_F paren_def)
next
  case (AndQuery a b)
  then have t: "parses_T (AndQuery a b)" by (simp add: parses_T_And)
  then have e: "parses_E (AndQuery a b)" by (simp add: parses_E_of_T paren_def)
  then have "parses_F (AndQuery a b)" by (rule parses_F_of_E [rotated 2]) (simp_all add: paren_def)
  with e t show ?case by simp
next
  case (NotQuery a b)
  then have t: "parses_T (NotQuery a b)" by (simp add: parses_T_And)
  then have e: "parses_E (NotQuery a b)" by (simp add: parses_E_of_T paren_def)
  then have "parses_F (NotQuery a b)" by (rule parses_F_of_E [rotated 2]) (simp_all add: paren_def)
  with e t show ?case by simp
qed

text \<open>From tokens to text.\<close>

lemma ReplaceAll_append: "ReplaceAll c n (s @ t) = ReplaceAll c n s @ ReplaceAll c n t"
  by (simp add: ReplaceAll_def)

lemma ReplaceAll_other: "c \<notin> set s \<Longrightarrow> ReplaceAll c n s = s"
  by (induction s) (auto simp: ReplaceAll_def)

lemma Fields_space: "Fields ('' '' @ s) = Fields s"
  by (simp add: Fields_def FieldsFunc_def is_space_def)

lemma Fields_word: "(\<And>c. c \<in> set w \<Longrightarrow> \<not> is_space c) \<Longrightarrow> w \<noteq> [] \<Longrightarrow> Fields (w @ '' '' @ s) = w # Fields s"
  using FieldsFunc_word [of w is_space "CHR '' ''" s] by (simp add: Fields_def is_space_def)

definition plain_token :: "string \<Rightarrow> bool" where
  "plain_token t \<longleftrightarrow> t \<noteq> [] \<and> (\<forall>c \<in> set t. \<not> is_space c) \<and>
     (t = ''('' \<or> t = '')'' \<or> (CHR ''('' \<notin> set t \<and> CHR '')'' \<notin> set t))"

lemma Fields_tokens:
  assumes "\<forall>t \<in> set ts. plain_token t"
  shows "Fields (ReplaceAll (CHR '')'') '' ) ''
      (ReplaceAll (CHR ''('') '' ( '' (concat (map (\<lambda>t. t @ '' '') ts)))) = ts"
  using assms
proof (induction ts)
  case Nil
  show ?case by (simp add: Fields_def FieldsFunc_def ReplaceAll_def)
next
  case (Cons t ts)
  let ?R = "\<lambda>s. ReplaceAll (CHR '')'') '' ) '' (ReplaceAll (CHR ''('') '' ( '' s)"
  let ?rest = "?R (concat (map (\<lambda>t. t @ '' '') ts))"
  have IH: "Fields ?rest = ts" using Cons by simp
  have split: "?R (concat (map (\<lambda>t. t @ '' '') (t # ts))) = ?R t @ '' '' @ ?rest"
    by (simp add: ReplaceAll_append) (simp add: ReplaceAll_def)
  have t: "plain_token t" using Cons.prems by simp
  have "?R t = t" if "t \<noteq> ''(''" "t \<noteq> '')''"
    using t that by (simp add: plain_token_def ReplaceAll_other)
  with t consider "t = ''(''" | "t = '')''" | "?R t = t" "t \<noteq> []" "\<forall>c \<in> set t. \<not> is_space c"
    unfolding plain_token_def by blast
  then show ?case
  proof cases
    case 3
    with IH show ?thesis unfolding split by (simp add: Fields_word [simplified])
  qed (use IH Fields_word [of "''(''" "'' '' @ ?rest"] Fields_word [of "'')''" "'' '' @ ?rest"]
      Fields_space [of ?rest] Fields_space [of "''('' @ '' '' @ '' '' @ ?rest"]
      Fields_space [of "'')'' @ '' '' @ '' '' @ ?rest"] in
      \<open>simp_all add: split, simp_all add: ReplaceAll_def is_space_def\<close>)
qed

lemma plain_token_pr: "clean q \<Longrightarrow> t \<in> set (pr q k) \<Longrightarrow> plain_token t"
proof (induction q arbitrary: k)
  case (TermQuery w)
  have "\<not> is_space c \<and> c \<noteq> CHR ''('' \<and> c \<noteq> CHR '')''" if "word_char c" for c
    using that by (auto simp: word_char_def char_in_def less_eq_char_def is_space_def)
  with TermQuery show ?case by (auto simp: plain_token_def clean_word_def)
qed (auto simp: paren_def split: if_splits, simp_all add: plain_token_def is_space_def)

lemma ParseQuery_print:
  assumes "clean q" and "3 * nest q 0 + 3 \<le> MaxQueryDepth"
  shows "ParseQuery (print_query q) = Inr q"
proof -
  have "parseExpression 0 (pr q 0 @ []) = orLoop 1 q []"
    using parses_pr [OF assms(1)] assms(2) unfolding parses_E_def
    by (metis One_nat_def add_0 current_Nil list.simps(3) plus_nat.add_0)
  then have "parseExpression 0 (pr q 0) = Inr (q, [])"
    by (simp add: orLoop_stop)
  moreover have "\<forall>t \<in> set (pr q 0). plain_token t"
    using plain_token_pr [OF assms(1)] by blast
  ultimately show ?thesis
    by (simp add: ParseQuery_def Let_def print_query_def Fields_tokens)
qed

section \<open>Lower-cased filters\<close>

text \<open>
  The statements of \<open>query.go\<close> hand \<open>strings.ToLower(...)\<close> of the text after
  \<open>WHERE\<close> to \<open>ParseQuery\<close>, whose operators are the upper-case words. Without an operator
  token every parse method returns a single term and leaves the other tokens unread.
\<close>

definition no_op :: "string list \<Rightarrow> bool" where
  "no_op ts \<longleftrightarrow> (\<forall>t \<in> set ts. t \<noteq> ''AND'' \<and> t \<noteq> ''OR'' \<and> t \<noteq> ''NOT'')"

lemma no_op_current: "no_op ts \<Longrightarrow> current ts \<noteq> ''AND'' \<and> current ts \<noteq> ''OR'' \<and> current ts \<noteq> ''NOT''"
  by (cases ts) (auto simp: no_op_def)

lemma no_op_consume: "no_op ts \<Longrightarrow> no_op (consume ts)"
  by (cases ts) (auto simp: no_op_def consume_def)

lemma no_op_parse:
  shows "no_op t1 \<Longrightarrow> parseExpression d1 t1 = Inr (q1, r1) \<Longrightarrow> (\<exists>t. q1 = TermQuery t) \<and> no_op r1"
    and "no_op t2 \<Longrightarrow> orLoop d2 l2 t2 = Inr (q2, r2) \<Longrightarrow> q2 = l2 \<and> r2 = t2"
    and "no_op t3 \<Longrightarrow> parseTerm d3 t3 = Inr (q3, r3) \<Longrightarrow> (\<exists>t. q3 = TermQuery t) \<and> no_op r3"
    and "no_op t4 \<Longrightarrow> andLoop d4 l4 t4 = Inr (q4, r4) \<Longrightarrow> q4 = l4 \<and> r4 = t4"
    and "no_op t5 \<Longrightarrow> parseFactor d5 t5 = Inr (q5, r5) \<Longrightarrow> (\<exists>t. q5 = TermQuery t) \<and> no_op r5"
proof (induction d1 t1 and d2 l2 t2 and d3 t3 and d4 l4 t4 and d5 t5
    arbitrary: q1 r1 and q2 r2 and q3 r3 and q4 r4 and q5 r5
    rule: parseExpression_orLoop_parseTerm_andLoop_parseFactor.induct)
  case (1 depth toks)
  from "1.prems" obtain q' toks1 where "\<not> depth + 1 > MaxQueryDepth"
    "parseTerm (depth + 1) toks = Inr (q', toks1)" "orLoop (depth + 1) q' toks1 = Inr (q1, r1)"
    by (auto simp: parseExpression.simps split: if_splits sum.splits)
  with "1.IH" "1.prems" show ?case by blast
next
  case (2 depth left toks)
  with no_op_current [of toks] show ?case by (simp add: orLoop.simps)
next
  case (3 depth toks)
  from "3.prems" obtain q' toks1 where "\<not> depth + 1 > MaxQueryDepth"
    "parseFactor (depth + 1) toks = Inr (q', toks1)" "andLoop (depth + 1) q' toks1 = Inr (q3, r3)"
    by (auto simp: parseTerm.simps split: if_splits sum.splits)
  with "3.IH" "3.prems" show ?case by blast
next
  case (4 depth left toks)
  with no_op_current [of toks] show ?case by (simp add: andLoop.simps)
next
  case (5 depth toks)
  show ?case
  proof (cases "current toks = ''(''")
    case True
    with "5.prems" obtain toks1 where "\<not> depth + 1 > MaxQueryDepth"
      "parseExpression (depth + 1) (consume toks) = Inr (q5, toks1)" "r5 = consume toks1"
      by (auto simp: parseFactor.simps split: if_splits sum.splits)
    with "5.IH" True "5.prems" show ?thesis by (blast intro: no_op_consume)
  next
    case False
    with "5.prems" show ?thesis
      by (auto simp: parseFactor.simps no_op_consume split: if_splits list.splits)
  qed
qed

lemma ToLower_no_upper: "c \<in> set (ToLower s) \<Longrightarrow> \<not> char_in (CHR ''A'') (CHR ''Z'') c"
proof -
  have "\<not> char_in (CHR ''A'') (CHR ''Z'') (to_lower_char c)" for c
  proof (cases "char_in (CHR ''A'') (CHR ''Z'') c")
    case True
    then have "65 \<le> (of_char c :: nat)" "(of_char c :: nat) \<le> 90"
      by (simp_all add: char_in_def less_eq_char_def)
    with True show ?thesis
      by (simp add: to_lower_char_def char_in_def less_eq_char_def)
  qed (simp add: to_lower_char_def)
  then show "c \<in> set (ToLower s) \<Longrightarrow> \<not> char_in (CHR ''A'') (CHR ''Z'') c"
    by (auto simp: ToLower_def)
qed

lemma set_ReplaceAll: "set (ReplaceAll c n s) \<subseteq> set n \<union> set s"
  by (auto simp: ReplaceAll_def split: if_splits)

lemma ParseQuery_lower:
  assumes "ParseQuery (ToLower s) = Inr q"
  shows "\<exists>t. q = TermQuery t"
proof -
  let ?s = "ReplaceAll (CHR '')'') '' ) '' (ReplaceAll (CHR ''('') '' ( '' (ToLower s))"
  have "set ?s \<subseteq> set '' ) '' \<union> (set '' ( '' \<union> set (ToLower s))"
    using set_ReplaceAll [of _ _ "ReplaceAll (CHR ''('') '' ( '' (ToLower s)"] set_ReplaceAll [of _ _ "ToLower s"]
    by blast
  then have low: "\<not> char_in (CHR ''A'') (CHR ''Z'') c" if "c \<in> set ?s" for c
    using that ToLower_no_upper [of c s] by (auto simp: char_in_def less_eq_char_def)
  have "no_op (Fields ?s)"
    unfolding no_op_def
  proof
    fix t assume "t \<in> set (Fields ?s)"
    then have "set t \<subseteq> set ?s" unfolding Fields_def by (rule FieldsFunc_parts(3))
    moreover have "CHR ''A'' \<notin> set ?s" "CHR ''O'' \<notin> set ?s" "CHR ''N'' \<notin> set ?s"
      using low [of "CHR ''A''"] low [of "CHR ''O''"] low [of "CHR ''N''"]
      by (auto simp: char_in_def less_eq_char_def)
    ultimately have "CHR ''A'' \<notin> set t" "CHR ''O'' \<notin> set t" "CHR ''N'' \<notin> set t"
      by blast+
    then show "t \<noteq> ''AND'' \<and> t \<noteq> ''OR'' \<and> t \<noteq> ''NOT''"
      by auto
  qed
  moreover obtain r where "parseExpression 0 (Fields ?s) = Inr (q, r)"
    using assms by (auto simp: ParseQuery_def Let_def split: sum.splits)
  ultimately show ?thesis using no_op_parse(1) by blast
qed

section \<open>Searching a written segment\<close>

definition build_index :: "(64 word \<times> string) list \<Rightarrow> mem_index" where
  "build_index docs = foldl (\<lambda>m (d, text). MemIndex_Add d text m) NewMemIndex docs"

primrec matches :: "string \<Rightarrow> query \<Rightarrow> bool" where
  "matches text (TermQuery t) \<longleftrightarrow> t \<in> set (Tokenize text)"
| "matches text (AndQuery l r) \<longleftrightarrow> matches text l \<and> matches text r"
| "matches text (OrQuery l r) \<longleftrightarrow> matches text l \<or> matches text r"
| "matches text (NotQuery l r) \<longleftrightarrow> matches text l \<and> \<not> matches text r"

lemma postings_build:
  "set (postings_at (postings (foldl (\<lambda>m (d, text). MemIndex_Add d text m) m docs)) t)
   = set (postings_at (postings m) t) \<union> {d. \<exists>text. (d, text) \<in> set docs \<and> t \<in> set (Tokenize text)}"
  by (induction docs arbitrary: m) (auto simp: postings_MemIndex_Add)

lemma query_docs_matches:
  assumes "distinct (map fst docs)"
  shows "query_docs (\<lambda>t. {d. \<exists>text. (d, text) \<in> set docs \<and> t \<in> set (Tokenize text)}) q
    = {d. \<exists>text. (d, text) \<in> set docs \<and> matches text q}"
proof -
  have one: "x = x'" if "(d, x) \<in> set docs" "(d, x') \<in> set docs" for d x x'
    using assms that by (rule eq_key_imp_eq_value)
  have uniq: "(\<exists>text. (d, text) \<in> set docs \<and> A text \<and> B text) \<longleftrightarrow>
      (\<exists>text. (d, text) \<in> set docs \<and> A text) \<and> (\<exists>text. (d, text) \<in> set docs \<and> B text)"
    "(\<exists>text. (d, text) \<in> set docs \<and> A text \<and> \<not> B text) \<longleftrightarrow>
      (\<exists>text. (d, text) \<in> set docs \<and> A text) \<and> \<not> (\<exists>text. (d, text) \<in> set docs \<and> B text)" for d A B
    using one by blast+
  show ?thesis
    by (induction q) (simp_all add: uniq, auto, metis one)
qed

lemma Search_segment:
  assumes "distinct (map fst docs)" and "index_fits (build_index docs)" and "ParseQuery qs = Inr q"
  shows "\<exists>bm. Search \<lparr>Data = fst (MemIndex_WriteSegment (build_index docs))\<rparr> qs = Inr bm
    \<and> Roaring_ToArray bm = sorted_list_of_set {d. \<exists>text. (d, text) \<in> set docs \<and> matches text q}"
proof -
  let ?s = "\<lparr>Data = fst (MemIndex_WriteSegment (build_index docs))\<rparr>"
  let ?P = "\<lambda>t. sort (postings_at (postings (build_index docs)) t)"
  have "(\<lambda>t. set (?P t)) = (\<lambda>t. {d. \<exists>text. (d, text) \<in> set docs \<and> t \<in> set (Tokenize text)})"
    using postings_build [of NewMemIndex docs]
    by (simp add: build_index_def NewMemIndex_def postings_at_def fun_eq_iff)
  then have "query_docs (\<lambda>t. set (?P t)) q = {d. \<exists>text. (d, text) \<in> set docs \<and> matches text q}"
    using query_docs_matches [OF assms(1), of q] by simp
  moreover obtain bm where "Execute ?s q = Inr bm" "roaring_wf bm"
    "roaring_set bm = query_docs (\<lambda>t. set (?P t)) q"
    using Execute_sound [of ?s ?P q] FetchPostings_WriteSegment [OF assms(2)] by blast
  ultimately show ?thesis
    by (auto simp: Search_def assms(3) rb.enum)
qed

section \<open>Properties\<close>

text \<open>C13: from documents to answer: documents with distinct identifiers are indexed, the segment is
  written and opened again, the query string is parsed and executed; when the index is within
  the sizes of the segment format, the identifiers returned are, in ascending order, exactly
  those of the documents that match the query.\<close>

theorem Search_exact:
  assumes "distinct (map fst docs)" and "index_fits (build_index docs)" and "ParseQuery qs = Inr q"
  shows "\<exists>bm. Search \<lparr>Data = fst (MemIndex_WriteSegment (build_index docs))\<rparr> qs = Inr bm
    \<and> Roaring_ToArray bm = sorted_list_of_set {d. \<exists>text. (d, text) \<in> set docs \<and> matches text q}"
  using assms by (rule Search_segment)

theorem Search_exact_witness:
  "\<exists>bm. Search \<lparr>Data = fst (MemIndex_WriteSegment (build_index [(7, ''go fast''), (3, ''rust''), (5, ''Go'')]))\<rparr> ''go NOT fast OR rust'' = Inr bm
    \<and> Roaring_ToArray bm = [3, 5]"
proof -
  let ?docs = "[(7 :: 64 word, ''go fast''), (3, ''rust''), (5, ''Go'')]"
  let ?q = "OrQuery (NotQuery (TermQuery ''go'') (TermQuery ''fast'')) (TermQuery ''rust'')"
  have "postings (build_index ?docs) = [(''go'', [7, 5]), (''fast'', [7]), (''rust'', [3])]" by code_simp
  moreover have "length (fst (MemIndex_WriteSegment (build_index ?docs))) < 999" by code_simp
  ultimately have fits: "index_fits (build_index ?docs)" by (simp add: index_fits_def)
  have q: "ParseQuery ''go NOT fast OR rust'' = Inr ?q" by code_simp
  have "map (\<lambda>(d, text). matches text ?q) ?docs = [False, True, True]" by code_simp
  then have "{d. \<exists>text. (d, text) \<in> set ?docs \<and> matches text ?q} = {3, 5}" by auto
  moreover have "sorted_list_of_set {3, 5 :: 64 word} = [3, 5]" by code_simp
  ultimately show ?thesis using Search_exact [OF _ fits q] by simp
qed

text \<open>Writing a segment and fetching the postings of a term from its bytes returns the
  indexed identifiers of that term in ascending order.\<close>

theorem segment_roundtrip:
  assumes "index_fits m"
  shows "FetchPostings \<lparr>Data = fst (MemIndex_WriteSegment m)\<rparr> t = Inr (sort (postings_at (postings m) t))"
  using assms by (rule FetchPostings_WriteSegment)

theorem segment_roundtrip_witness:
  "FetchPostings \<lparr>Data = fst (MemIndex_WriteSegment (MemIndex_Add 7 ''Go db'' NewMemIndex))\<rparr> ''db'' = Inr [7]"
proof -
  have "postings (MemIndex_Add 7 ''Go db'' NewMemIndex) = [(''go'', [7]), (''db'', [7])]" by code_simp
  moreover have "length (fst (MemIndex_WriteSegment (MemIndex_Add 7 ''Go db'' NewMemIndex))) < 64" by code_simp
  ultimately have "index_fits (MemIndex_Add 7 ''Go db'' NewMemIndex)" by (simp add: index_fits_def)
  moreover have "postings_at (postings (MemIndex_Add 7 ''Go db'' NewMemIndex)) ''db'' = [7]" by code_simp
  ultimately show ?thesis using segment_roundtrip [of "MemIndex_Add 7 ''Go db'' NewMemIndex" "''db''"] by simp
qed

text \<open>C33: the parser inverts the printer of the grammar for every query within the depth
  limit.\<close>

theorem ParseQuery_roundtrip:
  assumes "clean q" and "3 * nest q 0 + 3 \<le> MaxQueryDepth"
  shows "ParseQuery (print_query q) = Inr q"
  using assms by (rule ParseQuery_print)

theorem ParseQuery_roundtrip_witness:
  "ParseQuery (print_query (AndQuery (TermQuery ''go'') (TermQuery ''db''))) = Inr (AndQuery (TermQuery ''go'') (TermQuery ''db''))"
proof (rule ParseQuery_roundtrip)
  show "clean (AndQuery (TermQuery ''go'') (TermQuery ''db''))" by code_simp
  show "3 * nest (AndQuery (TermQuery ''go'') (TermQuery ''db'')) 0 + 3 \<le> MaxQueryDepth" by code_simp
qed

text \<open>A lower-cased query string, which is what the \<open>WHERE\<close> clause hands to the
  parser, never yields an operator: the result is a single term.\<close>

theorem ParseQuery_of_lower_case:
  assumes "ParseQuery (ToLower s) = Inr q"
  shows "\<exists>t. q = TermQuery t"
  using assms by (rule ParseQuery_lower)

theorem ParseQuery_of_lower_case_witness:
  "\<exists>t. TermQuery ''go'' = TermQuery t \<and> ParseQuery (ToLower ''go AND db'') = Inr (TermQuery ''go'')"
proof -
  have "ParseQuery (ToLower ''go AND db'') = Inr (TermQuery ''go'')" by code_simp
  with ParseQuery_of_lower_case [of "''go AND db''"] show ?thesis by blast
qed

end
