(* ===== verification/UQL.thy ===== *)
theory UQL
  imports Strconv Query
begin

text \<open>
  The statement language of \<open>query.go\<close>: the lexer with its cursor, the token types, the
  two-token parser and one parse method per statement. Every loop of the lexer and of the
  parser is total: a character is consumed as long as the current one is not NUL, which
  \<open>readChar\<close> also stores at the end of the input.

  Characters are bytes, as in the source; \<open>unicode.IsLetter(rune(ch))\<close> on a byte is the test
  of the Latin-1 letters.
\<close>

section \<open>Tokens\<close>

datatype TokenType =
    TokenIllegal | TokenEOF | TokenIdent | TokenString | TokenNumber
  | TokenSelect | TokenInsert | TokenInto | TokenValues | TokenUpdate | TokenSet | TokenDelete
  | TokenFrom | TokenWhere | TokenJoin | TokenOn | TokenAnd | TokenOr | TokenNot | TokenLimit
  | TokenHSet | TokenCompressed | TokenRecover | TokenCheckpoint | TokenShow | TokenMetrics
  | TokenLParen | TokenRParen | TokenAsterisk | TokenComma | TokenEqual | TokenColon

record token =
  tokType :: TokenType
  tokLiteral :: string

definition keyword_table :: "(string \<times> TokenType) list" where
  "keyword_table =
     [(''SELECT'', TokenSelect), (''INSERT'', TokenInsert), (''INTO'', TokenInto),
      (''VALUES'', TokenValues), (''UPDATE'', TokenUpdate), (''SET'', TokenSet),
      (''DELETE'', TokenDelete), (''FROM'', TokenFrom), (''WHERE'', TokenWhere),
      (''JOIN'', TokenJoin), (''ON'', TokenOn), (''AND'', TokenAnd), (''OR'', TokenOr),
      (''NOT'', TokenNot), (''LIMIT'', TokenLimit), (''HSET'', TokenHSet),
      (''COMPRESSED'', TokenCompressed), (''RECOVER'', TokenRecover),
      (''CHECKPOINT'', TokenCheckpoint), (''SHOW'', TokenShow), (''METRICS'', TokenMetrics)]"

definition LookupIdent :: "string \<Rightarrow> TokenType" where
  "LookupIdent ident = (case map_of keyword_table (ToUpper ident) of Some tok \<Rightarrow> tok | None \<Rightarrow> TokenIdent)"

section \<open>The lexer\<close>

abbreviation NUL :: char where
  "NUL \<equiv> CHR 0x00"

record lexer =
  lexInput :: string
  lexPosition :: nat
  readPosition :: nat
  lexCh :: char

definition readChar :: "lexer \<Rightarrow> lexer" where
  "readChar l =
     l\<lparr>lexCh := (if length (lexInput l) \<le> readPosition l then NUL else lexInput l ! readPosition l),
       lexPosition := readPosition l, readPosition := readPosition l + 1\<rparr>"

definition NewLexer :: "string \<Rightarrow> lexer" where
  "NewLexer input = readChar \<lparr>lexInput = input, lexPosition = 0, readPosition = 0, lexCh = NUL\<rparr>"

definition latin1_letter :: "char \<Rightarrow> bool" where
  "latin1_letter ch \<longleftrightarrow>
     char_in (CHR ''a'') (CHR ''z'') ch \<or> char_in (CHR ''A'') (CHR ''Z'') ch
     \<or> ch \<in> {CHR 0xAA, CHR 0xB5, CHR 0xBA} \<or> char_in (CHR 0xC0) (CHR 0xD6) ch
     \<or> char_in (CHR 0xD8) (CHR 0xF6) ch \<or> char_in (CHR 0xF8) (CHR 0xFF) ch"

definition isLetter :: "char \<Rightarrow> bool" where
  "isLetter ch \<longleftrightarrow> latin1_letter ch \<or> ch = CHR ''_''"

definition blank_char :: "char \<Rightarrow> bool" where
  "blank_char ch \<longleftrightarrow> ch \<in> {CHR '' '', CHR 0x09, CHR 0x0A, CHR 0x0D}"

definition ident_char :: "char \<Rightarrow> bool" where
  "ident_char ch \<longleftrightarrow> isLetter ch \<or> is_digit ch \<or> ch = CHR ''.'' \<or> ch = CHR ''_''"

definition string_char :: "char \<Rightarrow> bool" where
  "string_char ch \<longleftrightarrow> ch \<noteq> CHR 0x27 \<and> ch \<noteq> NUL"

text \<open>The loops \<open>for <test>(l.ch) { l.readChar() }\<close>; a test never holds of NUL.\<close>

definition lex_left :: "lexer \<Rightarrow> nat" where
  "lex_left l = 2 * (length (lexInput l) + 1 - readPosition l) + (if lexCh l = NUL then 0 else 1)"

function read_while :: "(char \<Rightarrow> bool) \<Rightarrow> lexer \<Rightarrow> lexer" where
  "read_while P l = (if P (lexCh l) \<and> lexCh l \<noteq> NUL then read_while P (readChar l) else l)"
  by pat_completeness auto
termination
  by (relation "measure (lex_left \<circ> snd)") (auto simp: lex_left_def readChar_def split: if_splits)

declare read_while.simps [simp del]

definition skipWhitespace :: "lexer \<Rightarrow> lexer" where
  "skipWhitespace l = read_while blank_char l"

definition readIdentifier :: "lexer \<Rightarrow> string \<times> lexer" where
  "readIdentifier l =
     (let l' = read_while ident_char l in (slice (lexInput l) (lexPosition l) (lexPosition l'), l'))"

definition readNumber :: "lexer \<Rightarrow> string \<times> lexer" where
  "readNumber l =
     (let l' = read_while is_digit l in (slice (lexInput l) (lexPosition l) (lexPosition l'), l'))"

definition readString :: "lexer \<Rightarrow> string \<times> lexer" where
  "readString l0 =
     (let l = readChar l0; l' = read_while string_char l
      in (slice (lexInput l) (lexPosition l) (lexPosition l'), readChar l'))"

text \<open>\<open>string(l.ch)\<close> is the UTF-8 text of the character with that number.\<close>

definition string_of_byte :: "char \<Rightarrow> string" where
  "string_of_byte ch =
     (if of_char ch < (128 :: nat) then [ch]
      else [char_of (192 + of_char ch div 64 :: nat), char_of (128 + of_char ch mod 64 :: nat)])"

definition NextToken :: "lexer \<Rightarrow> token \<times> lexer" where
  "NextToken l0 =
     (let l = skipWhitespace l0; ch = lexCh l;
          single = (\<lambda>ty lit. (\<lparr>tokType = ty, tokLiteral = lit\<rparr>, readChar l))
      in if ch = CHR ''('' then single TokenLParen ''(''
         else if ch = CHR '')'' then single TokenRParen '')''
         else if ch = CHR ''*'' then single TokenAsterisk ''*''
         else if ch = CHR '','' then single TokenComma '',''
         else if ch = CHR ''='' then single TokenEqual ''=''
         else if ch = CHR '':'' then single TokenColon '':''
         else if ch = CHR 0x27 then
           (case readString l of (lit, l') \<Rightarrow> (\<lparr>tokType = TokenString, tokLiteral = lit\<rparr>, l'))
         else if ch = NUL then single TokenEOF ''''
         else if isLetter ch then
           (case readIdentifier l of (lit, l') \<Rightarrow> (\<lparr>tokType = LookupIdent lit, tokLiteral = lit\<rparr>, l'))
         else if is_digit ch then
           (case readNumber l of (lit, l') \<Rightarrow> (\<lparr>tokType = TokenNumber, tokLiteral = lit\<rparr>, l'))
         else single TokenIllegal (string_of_byte ch))"

section \<open>The parser\<close>

record parser =
  pLexer :: lexer
  curTok :: token
  peekTok :: token

definition nextToken :: "parser \<Rightarrow> parser" where
  "nextToken p =
     (case NextToken (pLexer p) of (tok, l) \<Rightarrow> p\<lparr>curTok := peekTok p, peekTok := tok, pLexer := l\<rparr>)"

definition no_token :: token where
  "no_token = \<lparr>tokType = TokenIllegal, tokLiteral = ''''\<rparr>"

definition NewParserUQL :: "string \<Rightarrow> parser" where
  "NewParserUQL input =
     nextToken (nextToken \<lparr>pLexer = NewLexer input, curTok = no_token, peekTok = no_token\<rparr>)"

text \<open>The loops that collect the literals after \<open>WHERE\<close>, up to \<open>LIMIT\<close> or the end.\<close>

definition parse_left :: "parser \<Rightarrow> nat" where
  "parse_left p =
     (if tokType (curTok p) = TokenEOF then 0
      else if tokType (peekTok p) = TokenEOF then 1 else 2 + lex_left (pLexer p))"

lemma lex_left_readChar: "lexCh l \<noteq> NUL \<Longrightarrow> lex_left (readChar l) < lex_left l"
  by (auto simp: lex_left_def readChar_def split: if_splits)

lemma lex_left_read_while: "lex_left (read_while P l) \<le> lex_left l"
proof (induction P l rule: read_while.induct)
  case (1 P l)
  then show ?case
    using lex_left_readChar [of l] by (subst read_while.simps) auto
qed

lemma lex_left_readChar_le: "lex_left (readChar l) \<le> lex_left l"
  by (auto simp: lex_left_def readChar_def)

lemma NextToken_left:
  assumes "tokType (fst (NextToken l)) \<noteq> TokenEOF"
  shows "lex_left (snd (NextToken l)) < lex_left l"
proof -
  let ?l = "skipWhitespace l"
  have le: "lex_left ?l \<le> lex_left l" by (simp add: skipWhitespace_def lex_left_read_while)
  have nz: "lexCh ?l \<noteq> NUL" using assms by (auto simp: NextToken_def Let_def split: if_splits)
  note less = lex_left_readChar [OF nz]
  have "snd (NextToken l) \<in> {readChar ?l, readChar (read_while string_char (readChar ?l)),
      read_while ident_char (readChar ?l), read_while is_digit (readChar ?l)}"
    using nz by (auto simp: NextToken_def Let_def readString_def readIdentifier_def readNumber_def
        read_while.simps [of ident_char ?l] read_while.simps [of is_digit ?l] ident_char_def)
  moreover have "lex_left (read_while P (readChar ?l)) < lex_left l" for P
    using lex_left_read_while [of P "readChar ?l"] less le by simp
  moreover have "lex_left (readChar (read_while string_char (readChar ?l))) < lex_left l"
    using lex_left_readChar_le [of "read_while string_char (readChar ?l)"]
      lex_left_read_while [of string_char "readChar ?l"] less le by simp
  ultimately show ?thesis using less le by auto
qed

lemma parse_left_nextToken:
  "tokType (curTok p) \<noteq> TokenEOF \<Longrightarrow> parse_left (nextToken p) < parse_left p"
  using NextToken_left [of "pLexer p"]
  by (auto simp: parse_left_def nextToken_def split: prod.splits)

function collect_until :: "TokenType list \<Rightarrow> parser \<Rightarrow> string list \<times> parser" where
  "collect_until stops p =
     (if tokType (curTok p) = TokenEOF \<or> tokType (curTok p) \<in> set stops then ([], p)
      else case collect_until stops (nextToken p) of
             (lits, p') \<Rightarrow> (tokLiteral (curTok p) # lits, p'))"
  by pat_completeness auto
termination
  by (relation "measure (parse_left \<circ> snd)") (auto simp: parse_left_nextToken)

declare collect_until.simps [simp del]

definition Join :: "string list \<Rightarrow> string" where
  "Join ss = (case ss of [] \<Rightarrow> '''' | s # rest \<Rightarrow> s @ concat (map (\<lambda>t. '' '' @ t) rest))"

section \<open>Statements\<close>

record select_stmt =
  selFilter :: query
  selLimit :: int
  selCompressed :: bool
  selJoinTable :: string
  selJoinLeft :: string
  selJoinRight :: string

datatype statement =
    HSetStatement string string string
  | SelectStatement select_stmt
  | RecoverStatement
  | CheckpointStatement
  | MetricsStatement
  | InsertStatement nat string bool
  | UpdateStatement query string
  | DeleteStatement query

definition parseHSet :: "parser \<Rightarrow> statement result" where
  "parseHSet p0 =
     (let p1 = nextToken p0; p2 = nextToken p1; p3 = nextToken p2
      in Inr (HSetStatement (tokLiteral (curTok p1)) (tokLiteral (curTok p2)) (tokLiteral (curTok p3))))"

definition parseFilter :: "string list \<Rightarrow> query result" where
  "parseFilter remaining = ParseQuery (ToLower (Join remaining))"

definition skip_type :: "TokenType \<Rightarrow> parser \<Rightarrow> parser" where
  "skip_type ty p = (if tokType (curTok p) = ty then nextToken p else p)"

text \<open>The clause \<open>JOIN table ON left = right\<close>.\<close>

definition parseJoin :: "parser \<Rightarrow> ((string \<times> string \<times> string) \<times> parser) result" where
  "parseJoin p =
     (if tokType (curTok p) = TokenJoin then
        let p1 = nextToken p; p2 = nextToken p1
        in if tokType (curTok p2) \<noteq> TokenOn then Inl ErrExpectedOn
           else let p3 = nextToken p2; p5 = nextToken (nextToken p3)
                in Inr ((tokLiteral (curTok p1), tokLiteral (curTok p3), tokLiteral (curTok p5)), nextToken p5)
      else Inr (('''', '''', ''''), p))"

definition parseLimit :: "parser \<Rightarrow> int" where
  "parseLimit p =
     (if tokType (curTok p) = TokenLimit then
        (case Atoi (tokLiteral (curTok (nextToken p))) of Inl _ \<Rightarrow> 100 | Inr n \<Rightarrow> n)
      else 100)"

definition parseSelect :: "parser \<Rightarrow> statement result" where
  "parseSelect p0 =
     (let p1 = nextToken p0; p2 = skip_type TokenCompressed p1; p3 = skip_type TokenAsterisk p2
      in if tokType (curTok p3) \<noteq> TokenFrom then Inl ErrExpectedFrom
         else case parseJoin (nextToken (nextToken p3)) of
                Inl e \<Rightarrow> Inl e
              | Inr ((jt, jl, jr), p4) \<Rightarrow>
                  if tokType (curTok p4) \<noteq> TokenWhere then Inl ErrExpectedWhere
                  else case collect_until [TokenLimit] (nextToken p4) of
                         (remaining, p5) \<Rightarrow>
                           (case parseFilter remaining of
                              Inl e \<Rightarrow> Inl e
                            | Inr ast \<Rightarrow>
                                Inr (SelectStatement \<lparr>selFilter = ast, selLimit = parseLimit p5,
                                  selCompressed = (tokType (curTok p1) = TokenCompressed),
                                  selJoinTable = jt, selJoinLeft = jl, selJoinRight = jr\<rparr>)))"

definition parseInsert :: "parser \<Rightarrow> statement result" where
  "parseInsert p0 =
     (let p1 = nextToken p0; isComp = (tokType (curTok p1) = TokenCompressed);
          p2 = nextToken (nextToken (skip_type TokenCompressed p1))
      in if tokType (curTok p2) \<noteq> TokenValues then Inl ErrExpectedValues
         else let p3 = nextToken (nextToken p2)
              in case ParseUint (tokLiteral (curTok p3)) of
                   Inl e \<Rightarrow> Inl e
                 | Inr i \<Rightarrow> Inr (InsertStatement i (tokLiteral (curTok (nextToken (nextToken p3)))) isComp))"

definition parseUpdate :: "parser \<Rightarrow> statement result" where
  "parseUpdate p0 =
     (let p5 = nextToken (nextToken (nextToken (nextToken (nextToken p0))));
          newVal = tokLiteral (curTok p5);
          p7 = nextToken (nextToken p5)
      in if tokType (curTok p7) \<noteq> TokenWhere then Inl ErrExpectedWhere
         else case parseFilter (fst (collect_until [] (nextToken p7))) of
                Inl e \<Rightarrow> Inl e
              | Inr ast \<Rightarrow> Inr (UpdateStatement ast newVal))"

definition parseDelete :: "parser \<Rightarrow> statement result" where
  "parseDelete p0 =
     (let p4 = nextToken (nextToken (nextToken (nextToken p0)))
      in if tokType (curTok p4) \<noteq> TokenWhere then Inl ErrExpectedWhere
         else case parseFilter (fst (collect_until [] (nextToken p4))) of
                Inl e \<Rightarrow> Inl e
              | Inr ast \<Rightarrow> Inr (DeleteStatement ast))"

definition ParseUQL :: "string \<Rightarrow> statement result" where
  "ParseUQL input =
     (let p = NewParserUQL input
      in case tokType (curTok p) of
           TokenSelect \<Rightarrow> parseSelect p
         | TokenInsert \<Rightarrow> parseInsert p
         | TokenUpdate \<Rightarrow> parseUpdate p
         | TokenDelete \<Rightarrow> parseDelete p
         | TokenHSet \<Rightarrow> parseHSet p
         | TokenRecover \<Rightarrow> Inr RecoverStatement
         | TokenCheckpoint \<Rightarrow> Inr CheckpointStatement
         | TokenShow \<Rightarrow>
             if tokType (peekTok p) = TokenMetrics then Inr MetricsStatement else Inl ErrShowTarget
         | _ \<Rightarrow> Inl ErrUnknownStatement)"

section \<open>The lexer as a scanner of strings\<close>

text \<open>
  The cursor of the lexer is a suffix of the input; \<open>scan\<close> is the lexer on such a suffix, with
  the library functions on lists in place of the loops.
\<close>

definition lex_rest :: "lexer \<Rightarrow> string" where
  "lex_rest l = drop (lexPosition l) (lexInput l)"

definition lex_ok :: "lexer \<Rightarrow> bool" where
  "lex_ok l \<longleftrightarrow> readPosition l = Suc (lexPosition l) \<and> lexCh l = (case lex_rest l of [] \<Rightarrow> NUL | c # _ \<Rightarrow> c)"

definition scan :: "string \<Rightarrow> token \<times> string" where
  "scan s0 =
     (case dropWhile blank_char s0 of
        [] \<Rightarrow> (\<lparr>tokType = TokenEOF, tokLiteral = []\<rparr>, [])
      | c # s \<Rightarrow>
          if c = CHR ''('' then (\<lparr>tokType = TokenLParen, tokLiteral = [c]\<rparr>, s)
          else if c = CHR '')'' then (\<lparr>tokType = TokenRParen, tokLiteral = [c]\<rparr>, s)
          else if c = CHR ''*'' then (\<lparr>tokType = TokenAsterisk, tokLiteral = [c]\<rparr>, s)
          else if c = CHR '','' then (\<lparr>tokType = TokenComma, tokLiteral = [c]\<rparr>, s)
          else if c = CHR ''='' then (\<lparr>tokType = TokenEqual, tokLiteral = [c]\<rparr>, s)
          else if c = CHR '':'' then (\<lparr>tokType = TokenColon, tokLiteral = [c]\<rparr>, s)
          else if c = CHR 0x27 then
            (\<lparr>tokType = TokenString, tokLiteral = takeWhile string_char s\<rparr>, drop 1 (dropWhile string_char s))
          else if c = NUL then (\<lparr>tokType = TokenEOF, tokLiteral = []\<rparr>, s)
          else if isLetter c then
            (\<lparr>tokType = LookupIdent (c # takeWhile ident_char s), tokLiteral = c # takeWhile ident_char s\<rparr>,
             dropWhile ident_char s)
          else if is_digit c then
            (\<lparr>tokType = TokenNumber, tokLiteral = c # takeWhile is_digit s\<rparr>, dropWhile is_digit s)
          else (\<lparr>tokType = TokenIllegal, tokLiteral = string_of_byte c\<rparr>, s))"

lemma nul_tests [simp]:
  "\<not> blank_char NUL" "\<not> ident_char NUL" "\<not> is_digit NUL" "\<not> string_char NUL"
  by (auto simp: blank_char_def ident_char_def isLetter_def latin1_letter_def char_in_def
      less_eq_char_def is_digit_def string_char_def)

lemma readChar_ok:
  assumes "readPosition l = Suc (lexPosition l)"
  shows "lex_ok (readChar l)" and "lex_rest (readChar l) = tl (lex_rest l)"
    and "lexInput (readChar l) = lexInput l" and "lexPosition (readChar l) = Suc (lexPosition l)"
proof -
  show rest: "lex_rest (readChar l) = tl (lex_rest l)"
    using assms by (simp add: lex_rest_def readChar_def drop_Suc tl_drop)
  show "lex_ok (readChar l)"
    using assms by (auto simp: lex_ok_def lex_rest_def readChar_def hd_drop_conv_nth Cons_nth_drop_Suc [symmetric]
        split: list.splits)
qed (use assms in \<open>simp_all add: readChar_def\<close>)

lemma lex_okD: "lex_ok l \<Longrightarrow> readPosition l = Suc (lexPosition l)"
  by (simp add: lex_ok_def)

lemma read_while_ok:
  assumes "\<not> P NUL" and "lex_ok l"
  shows "lex_ok (read_while P l) \<and> lexInput (read_while P l) = lexInput l
    \<and> lex_rest (read_while P l) = dropWhile P (lex_rest l)
    \<and> lexPosition (read_while P l) = lexPosition l + length (takeWhile P (lex_rest l))"
  using assms
proof (induction P l rule: read_while.induct)
  case (1 P l)
  note R = readChar_ok [OF lex_okD [OF "1.prems"(2)]]
  show ?case
  proof (cases "lex_rest l")
    case Nil
    with "1.prems" have "lexCh l = NUL" by (simp add: lex_ok_def)
    with Nil "1.prems" show ?thesis by (simp add: read_while.simps [of P l])
  next
    case (Cons c s)
    with "1.prems" have c: "lexCh l = c" by (simp add: lex_ok_def)
    show ?thesis
    proof (cases "P c")
      case True
      with "1.prems" c have "P (lexCh l) \<and> lexCh l \<noteq> NUL" by auto
      with "1.IH" [OF this] R "1.prems" Cons c True show ?thesis
        by (simp add: read_while.simps [of P l])
    qed (use "1.prems" Cons c in \<open>simp add: read_while.simps [of P l]\<close>)
  qed
qed

text \<open>A literal is cut out of the input by the positions before and after the loop.\<close>

lemma literal_ok:
  assumes "\<not> P NUL" and "lex_ok l"
  shows "slice (lexInput l) (lexPosition l) (lexPosition (read_while P l)) = takeWhile P (lex_rest l)"
proof -
  have "slice (lexInput l) (lexPosition l) (lexPosition (read_while P l))
      = take (length (takeWhile P (lex_rest l))) (lex_rest l)"
    using read_while_ok [of P l] assms by (simp add: slice_def lex_rest_def)
  then show ?thesis by (simp only: takeWhile_eq_take [symmetric])
qed

lemma NextToken_scan:
  assumes "lex_ok l"
  shows "fst (NextToken l) = fst (scan (lex_rest l))" and "lex_ok (snd (NextToken l))"
    and "lex_rest (snd (NextToken l)) = snd (scan (lex_rest l))"
proof -
  let ?l = "skipWhitespace l"
  have ws: "lex_ok ?l" "lex_rest ?l = dropWhile blank_char (lex_rest l)"
    using read_while_ok [of blank_char, OF _ assms] by (simp_all add: skipWhitespace_def)
  note R = readChar_ok [OF lex_okD [OF ws(1)]]
  note S = read_while_ok [of string_char, OF _ R(1)] literal_ok [of string_char, OF _ R(1)]
  note I = read_while_ok [of ident_char, OF _ ws(1)] literal_ok [of ident_char, OF _ ws(1)]
  note D = read_while_ok [of is_digit, OF _ ws(1)] literal_ok [of is_digit, OF _ ws(1)]
  note S2 = readChar_ok [OF lex_okD, of "read_while string_char (readChar ?l)"]
  have "fst (NextToken l) = fst (scan (lex_rest l)) \<and> lex_ok (snd (NextToken l))
      \<and> lex_rest (snd (NextToken l)) = snd (scan (lex_rest l))"
  proof (cases "lex_rest ?l")
    case Nil
    then have "lexCh ?l = NUL" using ws(1) by (simp add: lex_ok_def)
    moreover have "dropWhile blank_char (lex_rest l) = []" using Nil ws(2) by simp
    ultimately show ?thesis using R Nil by (simp only: NextToken_def scan_def Let_def) simp
  next
    case (Cons c s)
    then have c: "lexCh ?l = c" using ws(1) by (simp add: lex_ok_def)
    have "isLetter c \<Longrightarrow> ident_char c" by (simp add: ident_char_def)
    moreover have "dropWhile blank_char (lex_rest l) = c # s" using Cons ws(2) by simp
    ultimately show ?thesis using Cons c R S I D S2
      by (auto simp: NextToken_def scan_def Let_def readString_def readIdentifier_def readNumber_def drop_Suc)
  qed
  then show "fst (NextToken l) = fst (scan (lex_rest l))" and "lex_ok (snd (NextToken l))"
    and "lex_rest (snd (NextToken l)) = snd (scan (lex_rest l))"
    by blast+
qed

lemma NewLexer_ok: "lex_ok (NewLexer s)" "lex_rest (NewLexer s) = s"
  by (auto simp: NewLexer_def readChar_def lex_ok_def lex_rest_def hd_conv_nth split: list.splits)

section \<open>The parser as a reader of a token stream\<close>

primrec token_at :: "string \<Rightarrow> nat \<Rightarrow> token" where
  "token_at s 0 = fst (scan s)"
| "token_at s (Suc n) = token_at (snd (scan s)) n"

definition tok :: "parser \<Rightarrow> nat \<Rightarrow> token" where
  "tok p n = (case n of 0 \<Rightarrow> curTok p | Suc 0 \<Rightarrow> peekTok p | Suc (Suc m) \<Rightarrow> token_at (lex_rest (pLexer p)) m)"

lemma nextToken_ok:
  assumes "lex_ok (pLexer p)"
  shows "lex_ok (pLexer (nextToken p))" and "tok (nextToken p) n = tok p (Suc n)"
  using NextToken_scan [OF assms]
  by (auto simp: nextToken_def tok_def split: prod.splits nat.splits)

lemma NewParserUQL_ok:
  shows "lex_ok (pLexer (NewParserUQL s))" and "tok (NewParserUQL s) n = token_at s n"
proof -
  let ?p = "\<lparr>pLexer = NewLexer s, curTok = no_token, peekTok = no_token\<rparr>"
  have ok: "lex_ok (pLexer ?p)" by (simp add: NewLexer_ok)
  note N1 = nextToken_ok [OF ok] 
  note N2 = nextToken_ok [OF N1(1)]
  show "lex_ok (pLexer (NewParserUQL s))" unfolding NewParserUQL_def by (rule N2(1))
  show "tok (NewParserUQL s) n = token_at s n"
    unfolding NewParserUQL_def N2(2) N1(2) by (simp add: tok_def NewLexer_ok)
qed

text \<open>The parser after \<open>n\<close> calls of \<open>nextToken\<close>.\<close>

lemma curTok_tok: "curTok p = tok p 0" and peekTok_tok: "peekTok p = tok p 1"
  by (simp_all add: tok_def)

lemma tokens_of_next:
  assumes "lex_ok (pLexer p)"
  shows "curTok (nextToken p) = tok p 1"
    and "curTok (nextToken (nextToken p)) = tok p 2"
    and "curTok (nextToken (nextToken (nextToken p))) = tok p 3"
    and "curTok (nextToken (nextToken (nextToken (nextToken p)))) = tok p 4"
    and "curTok (nextToken (nextToken (nextToken (nextToken (nextToken p))))) = tok p 5"
    and "curTok (nextToken (nextToken (nextToken (nextToken (nextToken (nextToken (nextToken p))))))) = tok p 7"
  by (simp_all add: curTok_tok nextToken_ok assms numeral_eq_Suc)

lemma parseInsert_tok:
  assumes "lex_ok (pLexer p)" and "tokType (tok p 1) \<noteq> TokenCompressed" and "tokType (tok p 3) = TokenValues"
    and "ParseUint (tokLiteral (tok p 5)) = Inr i"
  shows "parseInsert p = Inr (InsertStatement i (tokLiteral (tok p 7)) False)"
  using assms by (simp add: parseInsert_def skip_type_def Let_def tokens_of_next)

lemma parseUpdate_tok:
  assumes "lex_ok (pLexer p)" and "tokType (tok p 7) \<noteq> TokenWhere"
  shows "parseUpdate p = Inl ErrExpectedWhere"
  using assms by (simp add: parseUpdate_def Let_def tokens_of_next)

lemma parseDelete_tok:
  assumes "lex_ok (pLexer p)" and "tokType (tok p 4) \<noteq> TokenWhere"
  shows "parseDelete p = Inl ErrExpectedWhere"
  using assms by (simp add: parseDelete_def Let_def tokens_of_next)

lemma ParseUQL_tok:
  "ParseUQL s =
     (case tokType (token_at s 0) of
        TokenSelect \<Rightarrow> parseSelect (NewParserUQL s)
      | TokenInsert \<Rightarrow> parseInsert (NewParserUQL s)
      | TokenUpdate \<Rightarrow> parseUpdate (NewParserUQL s)
      | TokenDelete \<Rightarrow> parseDelete (NewParserUQL s)
      | TokenHSet \<Rightarrow> parseHSet (NewParserUQL s)
      | TokenRecover \<Rightarrow> Inr RecoverStatement
      | TokenCheckpoint \<Rightarrow> Inr CheckpointStatement
      | TokenShow \<Rightarrow> if tokType (token_at s 1) = TokenMetrics then Inr MetricsStatement else Inl ErrShowTarget
      | _ \<Rightarrow> Inl ErrUnknownStatement)"
  unfolding ParseUQL_def Let_def curTok_tok peekTok_tok NewParserUQL_ok ..

section \<open>Tokens of statement texts\<close>

definition ident_word :: "string \<Rightarrow> bool" where
  "ident_word w \<longleftrightarrow> w \<noteq> [] \<and> isLetter (hd w) \<and> list_all ident_char w"

definition ends :: "(char \<Rightarrow> bool) \<Rightarrow> string \<Rightarrow> bool" where
  "ends P s \<longleftrightarrow> s = [] \<or> \<not> P (hd s)"

lemma while_ends: "list_all P w \<Longrightarrow> ends P s \<Longrightarrow> takeWhile P (w @ s) = w \<and> dropWhile P (w @ s) = s"
  by (cases s) (auto simp: ends_def list_all_iff)

lemma letter_code:
  "isLetter c \<Longrightarrow> 65 \<le> (of_char c :: nat)" "is_digit c \<Longrightarrow> 48 \<le> (of_char c :: nat) \<and> (of_char c :: nat) \<le> 57"
  by (auto simp: isLetter_def latin1_letter_def char_in_def less_eq_char_def is_digit_code)

lemma scan_ident:
  assumes "ident_word w" and "ends ident_char s"
  shows "scan (w @ s) = (\<lparr>tokType = LookupIdent w, tokLiteral = w\<rparr>, s)"
proof -
  obtain c cs where w: "w = c # cs" and c: "isLetter c" and cs: "list_all ident_char cs"
    using assms(1) by (cases w) (auto simp: ident_word_def)
  have "\<not> blank_char c" using letter_code(1) [OF c] by (auto simp: blank_char_def)
  moreover have "c \<notin> {CHR ''('', CHR '')'', CHR ''*'', CHR '','', CHR ''='', CHR '':'', CHR 0x27, NUL}"
    using letter_code(1) [OF c] by auto
  ultimately show ?thesis
    using c while_ends [OF cs assms(2)] by (simp add: scan_def w)
qed

lemma scan_number:
  assumes "w \<noteq> []" and "list_all is_digit w" and "ends is_digit s"
  shows "scan (w @ s) = (\<lparr>tokType = TokenNumber, tokLiteral = w\<rparr>, s)"
proof -
  obtain c cs where w: "w = c # cs" and c: "is_digit c" and cs: "list_all is_digit cs"
    using assms(1,2) by (cases w) auto
  have "\<not> blank_char c" and "\<not> isLetter c"
    using letter_code [of c] c by (auto simp: blank_char_def)
  moreover have "c \<notin> {CHR ''('', CHR '')'', CHR ''*'', CHR '','', CHR ''='', CHR '':'', CHR 0x27, NUL}"
    using letter_code(2) [OF c] by auto
  ultimately show ?thesis
    using c while_ends [OF cs assms(3)] by (simp add: scan_def w)
qed

text \<open>A string literal ends at the next quote.\<close>

lemma scan_string:
  "scan (CHR 0x27 # s) =
     (\<lparr>tokType = TokenString, tokLiteral = takeWhile string_char s\<rparr>, drop 1 (dropWhile string_char s))"
  by (simp add: scan_def blank_char_def)

lemma scan_blank: "blank_char c \<Longrightarrow> scan (c # s) = scan s"
  by (simp add: scan_def)

lemma scan_punct:
  "scan (CHR ''('' # s) = (\<lparr>tokType = TokenLParen, tokLiteral = ''(''\<rparr>, s)"
  "scan (CHR '','' # s) = (\<lparr>tokType = TokenComma, tokLiteral = '',''\<rparr>, s)"
  "scan (CHR ''='' # s) = (\<lparr>tokType = TokenEqual, tokLiteral = ''=''\<rparr>, s)"
  by (simp_all add: scan_def blank_char_def)

lemma ends_space [simp]: "ends ident_char (CHR '' '' # s)"
  by (simp add: ends_def ident_char_def isLetter_def latin1_letter_def char_in_def less_eq_char_def is_digit_def)

lemma ends_comma [simp]: "ends is_digit (CHR '','' # s)"
  by (simp add: ends_def char_in_def less_eq_char_def is_digit_def)

text \<open>A keyword followed by a space.\<close>

lemma scan_keyword:
  assumes "ident_word w"
  shows "scan (w @ CHR '' '' # s) = (\<lparr>tokType = LookupIdent w, tokLiteral = w\<rparr>, CHR '' '' # s)"
  by (rule scan_ident [OF assms]) simp

lemma space_blank [simp]: "blank_char (CHR '' '')"
  by (simp add: blank_char_def)

lemmas scan_texts = scan_keyword scan_blank scan_punct scan_string scan_number

lemma keyword_words:
  "ident_word ''INSERT''" "ident_word ''INTO''" "ident_word ''VALUES''" "ident_word ''DELETE''"
  "ident_word ''FROM''" "ident_word ''WHERE''" "ident_word ''UPDATE''" "ident_word ''SET''"
  by code_simp+

lemma keyword_types:
  "LookupIdent ''INSERT'' = TokenInsert" "LookupIdent ''INTO'' = TokenInto" "LookupIdent ''VALUES'' = TokenValues"
  "LookupIdent ''DELETE'' = TokenDelete" "LookupIdent ''FROM'' = TokenFrom" "LookupIdent ''WHERE'' = TokenWhere"
  "LookupIdent ''UPDATE'' = TokenUpdate" "LookupIdent ''SET'' = TokenSet"
  by code_simp+

definition insert_text :: "string \<Rightarrow> nat \<Rightarrow> string \<Rightarrow> string" where
  "insert_text t i body =
     ''INSERT INTO '' @ t @ '' VALUES ('' @ dec i @ '', '' @ [CHR 0x27] @ body @ [CHR 0x27] @ '')''"

definition delete_text :: "string \<Rightarrow> string \<Rightarrow> string" where
  "delete_text t cond = ''DELETE FROM '' @ t @ '' WHERE '' @ cond"

definition update_text :: "string \<Rightarrow> string \<Rightarrow> string \<Rightarrow> string \<Rightarrow> string" where
  "update_text t f body cond =
     ''UPDATE '' @ t @ '' SET '' @ f @ '' = '' @ [CHR 0x27] @ body @ [CHR 0x27] @ '' WHERE '' @ cond"

lemma takeWhile_string:
  assumes "list_all string_char body"
  shows "takeWhile string_char (body @ CHR 0x27 # s) = body" and "dropWhile string_char (body @ CHR 0x27 # s) = CHR 0x27 # s"
  using assms by (auto simp: list_all_iff string_char_def)

lemma scan_word:
  assumes "ident_word w" and "r = w @ CHR '' '' # s"
  shows "scan r = (\<lparr>tokType = LookupIdent w, tokLiteral = w\<rparr>, CHR '' '' # s)"
    and "scan (CHR '' '' # r) = (\<lparr>tokType = LookupIdent w, tokLiteral = w\<rparr>, CHR '' '' # s)"
  using scan_keyword [OF assms(1)] assms(2) by (simp_all add: scan_blank)

lemma insert_tokens:
  assumes "ident_word t"
  shows "tokType (token_at (insert_text t i body) 0) = TokenInsert"
    and "tokType (token_at (insert_text t i body) 1) = TokenInto"
    and "tokType (token_at (insert_text t i body) 3) = TokenValues"
    and "tokLiteral (token_at (insert_text t i body) 5) = dec i"
    and "tokLiteral (token_at (insert_text t i body) 7) = takeWhile string_char (body @ CHR 0x27 # '')'')"
proof -
  define s5 where "s5 = CHR '','' # CHR '' '' # CHR 0x27 # body @ CHR 0x27 # '')''"
  define s4 where "s4 = CHR ''('' # dec i @ s5"
  define s3 where "s3 = ''VALUES'' @ CHR '' '' # s4"
  define s2 where "s2 = t @ CHR '' '' # s3"
  define s1 where "s1 = ''INTO'' @ CHR '' '' # s2"
  have s0: "insert_text t i body = ''INSERT'' @ CHR '' '' # s1"
    by (simp add: insert_text_def s1_def s2_def s3_def s4_def s5_def)
  note W = scan_word(1) [OF keyword_words(1) s0] scan_word(2) [OF keyword_words(2) s1_def]
    scan_word(2) [OF assms s2_def] scan_word(2) [OF keyword_words(3) s3_def]
  have 4: "scan (CHR '' '' # s4) = (\<lparr>tokType = TokenLParen, tokLiteral = ''(''\<rparr>, dec i @ s5)"
    by (simp add: s4_def scan_blank scan_punct)
  have 5: "scan (dec i @ s5) = (\<lparr>tokType = TokenNumber, tokLiteral = dec i\<rparr>, s5)"
    by (rule scan_number) (simp_all add: list_all_iff dec_digits s5_def)
  show "tokType (token_at (insert_text t i body) 0) = TokenInsert"
    and "tokType (token_at (insert_text t i body) 1) = TokenInto"
    and "tokType (token_at (insert_text t i body) 3) = TokenValues"
    and "tokLiteral (token_at (insert_text t i body) 5) = dec i"
    and "tokLiteral (token_at (insert_text t i body) 7) = takeWhile string_char (body @ CHR 0x27 # '')'')"
    by (simp_all add: numeral_eq_Suc W 4 [unfolded s5_def] 5 [unfolded s5_def] keyword_types s5_def scan_punct scan_blank scan_string)
qed

lemma ParseUQL_insert_text:
  assumes "ident_word t" and "i < 2 ^ 64"
  shows "ParseUQL (insert_text t i body) =
    Inr (InsertStatement i (takeWhile string_char (body @ CHR 0x27 # '')'')) False)"
proof -
  note T = insert_tokens [OF assms(1), of i body]
  have "parseInsert (NewParserUQL (insert_text t i body)) =
      Inr (InsertStatement i (tokLiteral (tok (NewParserUQL (insert_text t i body)) 7)) False)"
    by (rule parseInsert_tok) (simp_all add: NewParserUQL_ok T [simplified] ParseUint_dec [OF assms(2)])
  then show ?thesis by (simp add: ParseUQL_tok NewParserUQL_ok T [simplified])
qed

lemma ParseUQL_delete_text:
  assumes "ident_word t" and "tokType (fst (scan cond)) \<noteq> TokenWhere"
  shows "ParseUQL (delete_text t cond) = Inl ErrExpectedWhere"
proof -
  let ?s = "delete_text t cond"
  define s3 where "s3 = ''WHERE'' @ CHR '' '' # cond"
  define s2 where "s2 = t @ CHR '' '' # s3"
  define s1 where "s1 = ''FROM'' @ CHR '' '' # s2"
  have s0: "?s = ''DELETE'' @ CHR '' '' # s1"
    by (simp add: delete_text_def s1_def s2_def s3_def)
  note W = scan_word(1) [OF keyword_words(4) s0] scan_word(2) [OF keyword_words(5) s1_def]
    scan_word(2) [OF assms(1) s2_def] scan_word(2) [OF keyword_words(6) s3_def]
  have "tokType (token_at ?s 0) = TokenDelete" and "tokType (token_at ?s 4) \<noteq> TokenWhere"
    using assms(2) by (simp_all add: numeral_eq_Suc W keyword_types scan_blank)
  then show ?thesis
    using parseDelete_tok [OF NewParserUQL_ok(1) [of ?s]] by (simp add: ParseUQL_tok NewParserUQL_ok)
qed

lemma ParseUQL_update_text:
  assumes "ident_word t" and "ident_word f" and "list_all string_char body"
    and "tokType (fst (scan cond)) \<noteq> TokenWhere"
  shows "ParseUQL (update_text t f body cond) = Inl ErrExpectedWhere"
proof -
  let ?s = "update_text t f body cond"
  define s5 where "s5 = ''WHERE'' @ CHR '' '' # cond"
  define s4 where "s4 = CHR ''='' # CHR '' '' # CHR 0x27 # body @ CHR 0x27 # CHR '' '' # s5"
  define s3 where "s3 = f @ CHR '' '' # s4"
  define s2 where "s2 = ''SET'' @ CHR '' '' # s3"
  define s1 where "s1 = t @ CHR '' '' # s2"
  have s0: "?s = ''UPDATE'' @ CHR '' '' # s1"
    by (simp add: update_text_def s1_def s2_def s3_def s4_def s5_def)
  note W = scan_word(1) [OF keyword_words(7) s0] scan_word(2) [OF assms(1) s1_def]
    scan_word(2) [OF keyword_words(8) s2_def] scan_word(2) [OF assms(2) s3_def]
    scan_word(2) [OF keyword_words(6) s5_def]
  have "tokType (token_at ?s 0) = TokenUpdate" and "tokType (token_at ?s 7) \<noteq> TokenWhere"
    using assms(4)
    by (simp_all add: numeral_eq_Suc W s4_def keyword_types scan_blank scan_punct scan_string takeWhile_string [OF assms(3)])
  then show ?thesis
    using parseUpdate_tok [OF NewParserUQL_ok(1) [of ?s]] by (simp add: ParseUQL_tok NewParserUQL_ok)
qed

section \<open>Properties\<close>

lemma parseFilter_term: "parseFilter r = Inr q \<Longrightarrow> \<exists>t. q = TermQuery t"
  unfolding parseFilter_def by (rule ParseQuery_lower)

text \<open>C40: The documented forms of UPDATE and DELETE are not accepted: for a table \<open>t\<close> and a field \<open>f\<close> that
  are one identifier each, a value \<open>v\<close> without quotes and a condition whose first word is not
  WHERE, the text \<open>DELETE FROM t WHERE cond\<close> and the text \<open>UPDATE t SET f = 'v' WHERE cond\<close> are
  answered by the error about a missing WHERE, because the parse methods step over the keyword
  before they test for it.\<close>

theorem update_delete_rejected:
  assumes "ident_word t" and "ident_word f" and "list_all string_char v"
    and "tokType (fst (scan cond)) \<noteq> TokenWhere"
  shows "ParseUQL (delete_text t cond) = Inl ErrExpectedWhere
    \<and> ParseUQL (update_text t f v cond) = Inl ErrExpectedWhere"
  by (intro conjI ParseUQL_delete_text ParseUQL_update_text assms)

theorem update_delete_rejected_witness:
  "ParseUQL ''DELETE FROM users WHERE alice'' = Inl ErrExpectedWhere
   \<and> ParseUQL ''UPDATE users SET name = 'bob' WHERE alice'' = Inl ErrExpectedWhere"
proof -
  have "ident_word ''users''" "ident_word ''name''" "list_all string_char ''bob''"
      "tokType (fst (scan ''alice'')) \<noteq> TokenWhere"
    by code_simp+
  from update_delete_rejected [OF this] show ?thesis
    by (simp add: delete_text_def update_text_def)
qed

text \<open>Whatever condition stands after WHERE, the filter of an accepted SELECT, UPDATE or DELETE
  statement is a single search term: the condition is lower-cased before it is parsed, so its
  operators AND, OR and NOT are not recognised and all words after the first are
  dropped.\<close>

theorem where_single_term:
  assumes "ParseUQL s = Inr stmt"
  shows "(\<forall>sel. stmt = SelectStatement sel \<longrightarrow> (\<exists>t. selFilter sel = TermQuery t))
    \<and> (\<forall>q v. stmt = UpdateStatement q v \<longrightarrow> (\<exists>t. q = TermQuery t))
    \<and> (\<forall>q. stmt = DeleteStatement q \<longrightarrow> (\<exists>t. q = TermQuery t))"
proof -
  let ?p = "NewParserUQL s"
  have sel: "parseSelect ?p = Inr stmt \<Longrightarrow> \<exists>x t. stmt = SelectStatement x \<and> selFilter x = TermQuery t"
    by (auto simp: parseSelect_def Let_def split: if_splits sum.splits prod.splits dest!: parseFilter_term)
  have upd: "parseUpdate ?p = Inr stmt \<Longrightarrow> \<exists>t v. stmt = UpdateStatement (TermQuery t) v"
    by (auto simp: parseUpdate_def Let_def split: if_splits sum.splits dest!: parseFilter_term)
  have del: "parseDelete ?p = Inr stmt \<Longrightarrow> \<exists>t. stmt = DeleteStatement (TermQuery t)"
    by (auto simp: parseDelete_def Let_def split: if_splits sum.splits dest!: parseFilter_term)
  have ins: "parseInsert ?p = Inr stmt \<Longrightarrow> \<exists>i v b. stmt = InsertStatement i v b"
    by (auto simp: parseInsert_def Let_def split: if_splits sum.splits)
  have hset: "parseHSet ?p = Inr stmt \<Longrightarrow> \<exists>h f v. stmt = HSetStatement h f v"
    by (auto simp: parseHSet_def Let_def)
  consider "parseSelect ?p = Inr stmt" | "parseUpdate ?p = Inr stmt" | "parseDelete ?p = Inr stmt"
    | "parseInsert ?p = Inr stmt" | "parseHSet ?p = Inr stmt"
    | "stmt \<in> {RecoverStatement, CheckpointStatement, MetricsStatement}"
    using assms by (cases "tokType (token_at s 0)") (simp_all add: ParseUQL_tok split: if_splits)
  then show ?thesis
  proof cases
    case 1
    from sel [OF this] show ?thesis by auto
  next
    case 2
    from upd [OF this] show ?thesis by auto
  next
    case 3
    from del [OF this] show ?thesis by auto
  next
    case 4
    from ins [OF this] show ?thesis by auto
  next
    case 5
    from hset [OF this] show ?thesis by auto
  next
    case 6
    then show ?thesis by auto
  qed
qed

theorem where_single_term_witness:
  "\<exists>sel. ParseUQL ''SELECT * FROM docs WHERE go AND NOT db'' = Inr (SelectStatement sel)
     \<and> (\<exists>t. selFilter sel = TermQuery t) \<and> selFilter sel = TermQuery ''go''"
proof -
  let ?s = "''SELECT * FROM docs WHERE go AND NOT db''"
  have "case ParseUQL ?s of Inr (SelectStatement x) \<Rightarrow> selFilter x = TermQuery ''go'' | _ \<Rightarrow> False"
    by code_simp
  then obtain sel where "ParseUQL ?s = Inr (SelectStatement sel)" "selFilter sel = TermQuery ''go''"
    by (auto split: sum.splits statement.splits)
  with where_single_term [OF this(1)] show ?thesis by blast
qed

end
