(* ===== verification/MVCC.thy ===== *)
theory MVCC
  imports Prelude
begin

text \<open>
  The versioned cache in front of the relational engine (\<open>query.go\<close>): chains of versions per
  key, optimistic transactions with a read timestamp, and validation at commit. The clock is
  an argument of the operations that call \<open>time.Now\<close>, in nanoseconds.

  The map \<open>recs\<close> is a function: a missing key is the empty chain, which the code treats
  alike. A nil value is \<open>None\<close>; a zero \<open>time.Time\<close> is \<open>None\<close>. A write set is an association
  list in the order its map is ranged over. The two readings of the clock in a commit, for the
  version and for its expiry, are one argument.
\<close>

record mvcc_record =
  mVersion :: "64 word"
  mTxn :: "64 word"
  mValue :: "bytes option"
  mDeleted :: bool
  mExpiredAt :: "int option"

record mvcc_store =
  versions :: "bytes \<Rightarrow> mvcc_record list"
  txIdGen :: "64 word"
  activeTx :: "64 word \<rightharpoonup> 64 word"

definition NewMVCCCacheStore :: mvcc_store where
  "NewMVCCCacheStore = \<lparr>versions = (\<lambda>_. []), txIdGen = 0, activeTx = Map.empty\<rparr>"

definition BeginOCC :: "int \<Rightarrow> mvcc_store \<Rightarrow> 64 word \<times> mvcc_store" where
  "BeginOCC t c =
     (let txID = txIdGen c + 1
      in (txID, c\<lparr>txIdGen := txID, activeTx := (activeTx c)(txID \<mapsto> word_of_int t)\<rparr>))"

text \<open>The scan of \<open>Read\<close> from the newest version backwards; the list is reversed.\<close>

definition version_visible :: "64 word \<Rightarrow> 64 word \<Rightarrow> mvcc_record \<Rightarrow> bool" where
  "version_visible txID readTs v \<longleftrightarrow> mTxn v \<le> txID \<or> mVersion v \<le> readTs"

definition gone :: "int \<Rightarrow> mvcc_record \<Rightarrow> bool" where
  "gone t v \<longleftrightarrow> mDeleted v \<or> (case mExpiredAt v of None \<Rightarrow> False | Some e \<Rightarrow> e < t)"

fun version_scan :: "int \<Rightarrow> 64 word \<Rightarrow> 64 word \<Rightarrow> mvcc_record list \<Rightarrow> bytes option result" where
  "version_scan t txID readTs [] = Inl ErrNoVersion"
| "version_scan t txID readTs (v # vs) =
     (if version_visible txID readTs v then (if gone t v then Inl ErrTombstoned else Inr (mValue v))
      else version_scan t txID readTs vs)"

definition Cache_Read :: "int \<Rightarrow> 64 word \<Rightarrow> bytes \<Rightarrow> mvcc_store \<Rightarrow> bytes option result" where
  "Cache_Read t txID key c =
     (case activeTx c txID of
        None \<Rightarrow> Inl ErrTxnWindow
      | Some readTs \<Rightarrow>
          if versions c key = [] then Inl ErrKeyNotFound
          else version_scan t txID readTs (rev (versions c key)))"

definition write_conflict :: "64 word \<Rightarrow> 64 word \<Rightarrow> mvcc_record list \<Rightarrow> bool" where
  "write_conflict txID readTs vs \<longleftrightarrow> vs \<noteq> [] \<and> readTs < mVersion (last vs) \<and> mTxn (last vs) \<noteq> txID"

definition new_version :: "int \<Rightarrow> 64 word \<Rightarrow> int \<Rightarrow> bytes option \<Rightarrow> mvcc_record" where
  "new_version t txID ttl val =
     \<lparr>mVersion = word_of_int t, mTxn = txID, mValue = val, mDeleted = (val = None),
      mExpiredAt = (if 0 < ttl then Some (t + ttl) else None)\<rparr>"

fun append_versions :: "int \<Rightarrow> 64 word \<Rightarrow> int \<Rightarrow> (bytes \<times> bytes option) list \<Rightarrow>
    (bytes \<Rightarrow> mvcc_record list) \<Rightarrow> bytes \<Rightarrow> mvcc_record list" where
  "append_versions t txID ttl [] rs = rs"
| "append_versions t txID ttl ((k, v) # ws) rs =
     append_versions t txID ttl ws (rs(k := rs k @ [new_version t txID ttl v]))"

definition ValidateAndCommit ::
  "int \<Rightarrow> 64 word \<Rightarrow> (bytes \<times> bytes option) list \<Rightarrow> int \<Rightarrow> mvcc_store \<Rightarrow> error option \<times> mvcc_store" where
  "ValidateAndCommit t txID writeSet ttl c =
     (let readTs = (case activeTx c txID of None \<Rightarrow> 0 | Some r \<Rightarrow> r);
          c' = c\<lparr>activeTx := (activeTx c)(txID := None)\<rparr>
      in if \<exists>key \<in> set (map fst writeSet). write_conflict txID readTs (versions c key)
         then (Some ErrWriteConflict, c')
         else (None, c'\<lparr>versions := append_versions t txID ttl writeSet (versions c)\<rparr>))"

section \<open>Behaviour of the operations\<close>

lemma append_versions_other: "k \<notin> fst ` set ws \<Longrightarrow> append_versions t txID ttl ws rs k = rs k"
  by (induction ws arbitrary: rs) auto

lemma append_versions_at:
  assumes "distinct (map fst ws)" and "(k, v) \<in> set ws"
  shows "append_versions t txID ttl ws rs k = rs k @ [new_version t txID ttl v]"
  using assms by (induction ws arbitrary: rs) (auto simp: append_versions_other rev_image_eqI)

text \<open>\<open>Read\<close> returns the newest visible version.\<close>

lemma version_scan_newest:
  assumes "vs = us @ v # ws" and "version_visible txID readTs v" and "\<forall>w \<in> set ws. \<not> version_visible txID readTs w"
  shows "version_scan t txID readTs (rev vs) = (if gone t v then Inl ErrTombstoned else Inr (mValue v))"
proof -
  have "version_scan t txID readTs (rev ws @ v # rev us)
      = (if gone t v then Inl ErrTombstoned else Inr (mValue v))"
    using assms(2,3) by (induction ws rule: rev_induct) simp_all
  then show ?thesis by (simp add: assms(1))
qed

section \<open>Interleaved transactions\<close>

text \<open>
  A run of the cache: transactions begin and commit in any order. The stamp of an operation is
  whatever the wall clock shows, so stamps may repeat or step back; \<open>UnixNano\<close> is positive and
  below \<open>2 ^ 63\<close> until the year 2262. A commit may be attempted with any identifier that
  \<open>BeginOCC\<close> has handed out, also one whose window is closed, as the statements of the engine do.
  The second part of a state is the history, latest first: the begins and the successful commits.
\<close>

datatype occ_entry = Began "64 word" int | Committed "bytes set" int

inductive occ_run :: "mvcc_store \<Rightarrow> occ_entry list \<Rightarrow> bool" where
  init: "occ_run NewMVCCCacheStore []"
| begin_step: "\<lbrakk>occ_run c h; 0 \<le> t; t < 2 ^ 63; txIdGen c < - 1; BeginOCC t c = (i, c')\<rbrakk>
    \<Longrightarrow> occ_run c' (Began i t # h)"
| commit_step: "\<lbrakk>occ_run c h; 0 \<le> t; t < 2 ^ 63; txID \<le> txIdGen c; distinct (map fst ws);
      ValidateAndCommit t txID ws ttl c = (e, c')\<rbrakk>
    \<Longrightarrow> occ_run c' (if e = None then Committed (fst ` set ws) t # h else h)"

text \<open>What a history says: the stamp a transaction began at, the stamp of the last commit of a key,
  and whether a key was committed after a transaction began.\<close>

fun begin_time :: "occ_entry list \<Rightarrow> 64 word \<Rightarrow> int option" where
  "begin_time [] i = None"
| "begin_time (Began j t # h) i = (if j = i then Some t else begin_time h i)"
| "begin_time (Committed K t # h) i = begin_time h i"

fun last_commit :: "occ_entry list \<Rightarrow> bytes \<Rightarrow> int option" where
  "last_commit [] k = None"
| "last_commit (Began j t # h) k = last_commit h k"
| "last_commit (Committed K t # h) k = (if k \<in> K then Some t else last_commit h k)"

fun committed_since :: "occ_entry list \<Rightarrow> 64 word \<Rightarrow> bytes \<Rightarrow> bool" where
  "committed_since [] i k \<longleftrightarrow> False"
| "committed_since (Began j t # h) i k \<longleftrightarrow> j \<noteq> i \<and> committed_since h i k"
| "committed_since (Committed K t # h) i k \<longleftrightarrow> k \<in> K \<or> committed_since h i k"

fun stamp :: "occ_entry \<Rightarrow> int" where
  "stamp (Began i t) = t"
| "stamp (Committed K t) = t"

text \<open>A key of the write set was last committed at a stamp above the one the transaction began at.\<close>

definition newer_commit :: "occ_entry list \<Rightarrow> 64 word \<Rightarrow> bytes \<Rightarrow> bool" where
  "newer_commit h i k \<longleftrightarrow> (case (begin_time h i, last_commit h k) of (Some s, Some t) \<Rightarrow> s < t | _ \<Rightarrow> False)"

text \<open>
  The invariant of a run: the last version of a key has the stamp of its last commit, versions
  come from transactions that have begun and are no longer active, and active transactions
  have the stamp they began at.
\<close>

definition occ_inv :: "mvcc_store \<Rightarrow> occ_entry list \<Rightarrow> bool" where
  "occ_inv c h \<longleftrightarrow>
     (\<forall>i r. activeTx c i = Some r \<longrightarrow> i \<le> txIdGen c \<and> begin_time h i = Some (uint r))
     \<and> (\<forall>k. last_commit h k = (if versions c k = [] then None else Some (uint (mVersion (last (versions c k))))))
     \<and> (\<forall>k. \<forall>v \<in> set (versions c k). mTxn v \<le> txIdGen c \<and> activeTx c (mTxn v) = None)"

lemma uint_stamp: "0 \<le> t \<Longrightarrow> t < 2 ^ 63 \<Longrightarrow> uint (word_of_int t :: 64 word) = t"
  by (simp add: uint_word_of_int_eq take_bit_int_eq_self)

lemma next_txn_id:
  assumes "c < (- 1 :: 64 word)"
  shows "c < c + 1"
proof -
  have "1 + c \<noteq> 0" using assms by (metis add_eq_0_iff order_less_irrefl)
  then have "unat (1 + c) = Suc (unat c)" by (rule unatSuc)
  then show ?thesis by (simp add: word_less_nat_alt add.commute)
qed

lemma occ_invD:
  assumes "occ_inv c h"
  shows "activeTx c i = Some r \<Longrightarrow> i \<le> txIdGen c" and "activeTx c i = Some r \<Longrightarrow> begin_time h i = Some (uint r)"
    and "last_commit h k = (if versions c k = [] then None else Some (uint (mVersion (last (versions c k)))))"
    and "v \<in> set (versions c k) \<Longrightarrow> mTxn v \<le> txIdGen c"
    and "v \<in> set (versions c k) \<Longrightarrow> activeTx c (mTxn v) = None"
  using assms unfolding occ_inv_def by blast+

lemma BeginOCC_inv:
  assumes inv: "occ_inv c h" and t: "0 \<le> t" "t < 2 ^ 63" and room: "txIdGen c < - 1"
    and started: "BeginOCC t c = (i, c')"
  shows "occ_inv c' (Began i t # h)"
proof -
  note D = occ_invD [OF inv]
  have c': "i = txIdGen c + 1" "txIdGen c' = txIdGen c + 1" "versions c' = versions c"
      "activeTx c' = (activeTx c)(txIdGen c + 1 \<mapsto> word_of_int t)"
    using started by (auto simp: BeginOCC_def Let_def)
  have lt: "txIdGen c < txIdGen c + 1" using room by (rule next_txn_id)
  have old: "j < txIdGen c + 1 \<and> begin_time h j = Some (uint r)" if "activeTx c j = Some r" for j r
    using D(1,2) [OF that] lt by auto
  have ver: "mTxn v < txIdGen c + 1 \<and> activeTx c (mTxn v) = None" if "v \<in> set (versions c k)" for v k
    using D(4,5) [OF that] lt by auto
  show ?thesis unfolding occ_inv_def c'
    using D(3) old by (auto simp: uint_stamp [OF t] less_imp_le dest!: ver)
qed

lemma ValidateAndCommit_cases:
  assumes "ValidateAndCommit t txID ws ttl c = (e, c')"
  shows "e = None \<and> c' = c\<lparr>activeTx := (activeTx c)(txID := None), versions := append_versions t txID ttl ws (versions c)\<rparr>
    \<or> e = Some ErrWriteConflict \<and> c' = c\<lparr>activeTx := (activeTx c)(txID := None)\<rparr>"
  using assms by (auto simp: ValidateAndCommit_def Let_def split: if_splits)

lemma append_versions_cases:
  assumes "distinct (map fst ws)"
  obtains "k \<notin> fst ` set ws" "append_versions t txID ttl ws rs k = rs k"
  | v where "(k, v) \<in> set ws" "k \<in> fst ` set ws" "append_versions t txID ttl ws rs k = rs k @ [new_version t txID ttl v]"
  using append_versions_other [of k ws t txID ttl rs] append_versions_at [OF assms, of k _ t txID ttl rs] by force

lemma ValidateAndCommit_inv:
  assumes inv: "occ_inv c h" and t: "0 \<le> t" "t < 2 ^ 63" and id: "txID \<le> txIdGen c"
    and ws: "distinct (map fst ws)" and commit: "ValidateAndCommit t txID ws ttl c = (e, c')"
  shows "occ_inv c' (if e = None then Committed (fst ` set ws) t # h else h)"
proof (cases "e = None")
  case False
  then have "c' = c\<lparr>activeTx := (activeTx c)(txID := None)\<rparr>" using ValidateAndCommit_cases [OF commit] by auto
  then show ?thesis using inv False by (auto simp: occ_inv_def)
next
  case True
  note D = occ_invD [OF inv]
  have c': "activeTx c' = (activeTx c)(txID := None)" "txIdGen c' = txIdGen c" "versions c' = append_versions t txID ttl ws (versions c)"
    using ValidateAndCommit_cases [OF commit] True by auto
  have "last_commit (Committed (fst ` set ws) t # h) k = (if versions c' k = [] then None else Some (uint (mVersion (last (versions c' k)))))
    \<and> (\<forall>v \<in> set (versions c' k). mTxn v \<le> txIdGen c \<and> activeTx c' (mTxn v) = None)" for k
  proof (rule append_versions_cases [OF ws, of k t txID ttl "versions c"])
    assume "k \<notin> fst ` set ws" "append_versions t txID ttl ws (versions c) k = versions c k"
    then show ?thesis using D(3,4,5) [where k = k] by (simp add: c')
  next
    fix v assume "k \<in> fst ` set ws" "append_versions t txID ttl ws (versions c) k = versions c k @ [new_version t txID ttl v]"
    then show ?thesis using D(4,5) [where k = k] id by (auto simp: c' new_version_def uint_stamp [OF t])
  qed
  then show ?thesis unfolding occ_inv_def c' using D(1,2) True by auto
qed

lemma occ_run_inv: "occ_run c h \<Longrightarrow> occ_inv c h"
proof (induction rule: occ_run.induct)
  case init
  then show ?case by (simp add: occ_inv_def NewMVCCCacheStore_def)
qed (blast intro: BeginOCC_inv ValidateAndCommit_inv)+

text \<open>The test of the code in terms of the history.\<close>

lemma active_conflict:
  assumes inv: "occ_inv c h" and act: "activeTx c txID = Some readTs"
  shows "write_conflict txID readTs (versions c k) \<longleftrightarrow> newer_commit h txID k"
proof (cases "versions c k = []")
  case True
  then show ?thesis using occ_invD(3) [OF inv, of k] by (simp add: write_conflict_def newer_commit_def split: option.split)
next
  case False
  have "mTxn (last (versions c k)) \<noteq> txID"
    using occ_invD(5) [OF inv last_in_set [OF False]] act by auto
  then show ?thesis
    using False occ_invD(3) [OF inv, of k] occ_invD(2) [OF inv act] by (simp add: write_conflict_def newer_commit_def word_less_def)
qed

text \<open>With a clock that advances between any two operations the stamps decide the order.\<close>

lemma begin_time_stamp: "begin_time h i = Some s \<Longrightarrow> s \<in> stamp ` set h"
  by (induction h i rule: begin_time.induct) (auto split: if_splits)

lemma last_commit_stamp: "last_commit h k = Some t \<Longrightarrow> t \<in> stamp ` set h"
  by (induction h k rule: last_commit.induct) (auto split: if_splits)

lemma newer_commit_since:
  assumes "sorted_wrt (>) (map stamp h)" and "begin_time h i \<noteq> None"
  shows "newer_commit h i k \<longleftrightarrow> committed_since h i k"
  using assms
proof (induction h)
  case (Cons x h)
  have above: "\<forall>s\<in>stamp ` set h. s < stamp x" and so: "sorted_wrt (>) (map stamp h)" using Cons.prems(1) by auto
  show ?case
  proof (cases x)
    case (Began j t)
    then show ?thesis using Cons.IH [OF so] Cons.prems(2) above
      by (cases "j = i") (force simp: newer_commit_def dest: last_commit_stamp split: option.splits)+
  next
    case (Committed K t)
    then show ?thesis using Cons.IH [OF so] Cons.prems(2) above
      by (cases "k \<in> K") (force simp: newer_commit_def dest: begin_time_stamp split: option.splits)+
  qed
qed simp

text \<open>A transaction that is not older than the committer sees the version, whatever the clock shows.\<close>

lemma commit_readable:
  assumes "versions c2 k = vs @ [new_version t txID ttl v]" and "activeTx c2 j = Some readTs" and "txID \<le> j"
  shows "Cache_Read t2 j k c2 = (if v = None \<or> 0 < ttl \<and> t + ttl < t2 then Inl ErrTombstoned else Inr v)"
proof -
  have "version_visible j readTs (new_version t txID ttl v)"
    using assms(3) by (simp add: version_visible_def new_version_def)
  then show ?thesis
    using assms(1,2) by (auto simp: Cache_Read_def gone_def new_version_def)
qed

lemma commit_seen_by_open:
  assumes act: "activeTx c txID = Some readTs" and ne: "txID' \<noteq> txID" and ws: "distinct (map fst ws)" "(k, v) \<in> set ws"
    and commit: "ValidateAndCommit t txID' ws ttl c = (None, c')"
  shows "Cache_Read t1 txID k c' =
    (if txID' < txID \<or> word_of_int t \<le> readTs then (if gone t1 (new_version t txID' ttl v) then Inl ErrTombstoned else Inr v)
     else if versions c k = [] then Inl ErrNoVersion else Cache_Read t1 txID k c)"
proof -
  have c': "activeTx c' txID = Some readTs" "versions c' k = versions c k @ [new_version t txID' ttl v]"
    using ValidateAndCommit_cases [OF commit] append_versions_at [OF ws] act ne by auto
  have "version_visible txID readTs (new_version t txID' ttl v) \<longleftrightarrow> txID' < txID \<or> word_of_int t \<le> readTs"
    using ne by (auto simp: version_visible_def new_version_def)
  then show ?thesis
    using act by (auto simp: Cache_Read_def c') (simp_all add: new_version_def)
qed

section \<open>Properties\<close>

text \<open>C15: In every run of interleaved transactions on the cache, whatever the wall clock shows, the
  commit of an open transaction fails exactly when one of the keys of its write set was last
  committed at a stamp above the stamp the transaction began at. When the clock has advanced
  between any two operations of the run, that is: exactly when one of the keys was committed
  after the transaction began, so that no update is lost; on a tie or a step back of the clock
  the test can miss such a commit. A failed commit leaves all versions alone. The version of a
  successful one is what every transaction with a larger identifier reads until the next
  commit of the key, a nil value as a tombstone, up to the expiry of its time to live.\<close>

theorem occ_commit_exact:
  assumes "occ_run c h" and "activeTx c txID = Some readTs" and "distinct (map fst ws)"
    and "ValidateAndCommit t txID ws ttl c = (e, c')"
  shows "e = (if \<exists>k \<in> fst ` set ws. newer_commit h txID k then Some ErrWriteConflict else None)
    \<and> (sorted_wrt (>) (map stamp h) \<longrightarrow> (\<forall>k. newer_commit h txID k \<longleftrightarrow> committed_since h txID k))
    \<and> activeTx c' = (activeTx c)(txID := None)
    \<and> (e \<noteq> None \<longrightarrow> versions c' = versions c)
    \<and> (e = None \<longrightarrow> (\<forall>k. k \<notin> fst ` set ws \<longrightarrow> versions c' k = versions c k)
         \<and> (\<forall>(k, v) \<in> set ws. \<forall>c2 j t2. versions c2 k = versions c' k \<and> activeTx c2 j \<noteq> None \<and> txID \<le> j \<longrightarrow>
              Cache_Read t2 j k c2 = (if v = None \<or> 0 < ttl \<and> t + ttl < t2 then Inl ErrTombstoned else Inr v)))"
proof -
  have inv: "occ_inv c h" using assms(1) by (rule occ_run_inv)
  have e: "e = (if \<exists>k \<in> fst ` set ws. newer_commit h txID k then Some ErrWriteConflict else None)"
    using assms(4) active_conflict [OF inv assms(2)]
    by (auto simp: ValidateAndCommit_def Let_def assms(2) split: if_splits)
  have order: "sorted_wrt (>) (map stamp h) \<longrightarrow> (\<forall>k. newer_commit h txID k \<longleftrightarrow> committed_since h txID k)"
    using newer_commit_since [of h txID] occ_invD(2) [OF inv assms(2)] by simp
  have chain: "versions c' k = versions c k @ [new_version t txID ttl v]" if "e = None" and "(k, v) \<in> set ws" for k v
    using ValidateAndCommit_cases [OF assms(4)] append_versions_at [OF assms(3) that(2)] that(1) by auto
  have act: "activeTx c' = (activeTx c)(txID := None)"
    and same: "e \<noteq> None \<longrightarrow> versions c' = versions c"
    and other: "e = None \<longrightarrow> (\<forall>k. k \<notin> fst ` set ws \<longrightarrow> versions c' k = versions c k)"
    using ValidateAndCommit_cases [OF assms(4)] by (auto simp: append_versions_other)
  have reads: "\<forall>(k, v) \<in> set ws. \<forall>c2 j t2. versions c2 k = versions c' k \<and> activeTx c2 j \<noteq> None \<and> txID \<le> j \<longrightarrow>
      Cache_Read t2 j k c2 = (if v = None \<or> 0 < ttl \<and> t + ttl < t2 then Inl ErrTombstoned else Inr v)" if "e = None"
    using commit_readable chain [OF that] by fastforce
  show ?thesis by (intro conjI e order act same impI reads) (use other in auto)
qed

definition occ_demo :: mvcc_store where
  "occ_demo = snd (BeginOCC 20 (snd (BeginOCC 10 NewMVCCCacheStore)))"

lemma one_below_max: "1 < (- 1 :: 64 word)"
  by code_simp

lemma occ_demo_run: "occ_run occ_demo [Began 2 20, Began 1 10]"
proof -
  have "occ_run (snd (BeginOCC 10 NewMVCCCacheStore)) [Began 1 10]"
    by (rule occ_run.begin_step [OF occ_run.init]) (simp_all add: NewMVCCCacheStore_def BeginOCC_def Let_def word_gt_0)
  then show ?thesis unfolding occ_demo_def
    by (rule occ_run.begin_step) (simp_all add: NewMVCCCacheStore_def BeginOCC_def Let_def one_below_max)
qed

text \<open>Two transactions write one key: the first commit succeeds at 30 and the second fails.\<close>

theorem occ_commit_exact_witness:
  "\<exists>c1 c2. ValidateAndCommit 30 2 [([107], Some [1])] 0 occ_demo = (None, c1)
     \<and> ValidateAndCommit 40 1 [([107], Some [2])] 0 c1 = (Some ErrWriteConflict, c2) \<and> versions c2 = versions c1"
proof -
  have act: "activeTx occ_demo 2 = Some 20" "activeTx occ_demo 1 = Some 10" "txIdGen occ_demo = 2" "versions occ_demo = (\<lambda>_. [])"
    by (simp_all add: occ_demo_def BeginOCC_def NewMVCCCacheStore_def Let_def)
  obtain c1 where c1: "ValidateAndCommit 30 2 [([107], Some [1])] 0 occ_demo = (None, c1)"
    by (simp add: ValidateAndCommit_def Let_def write_conflict_def act)
  obtain e c2 where c2: "ValidateAndCommit 40 1 [([107], Some [2])] 0 c1 = (e, c2)"
    by (cases "ValidateAndCommit 40 1 [([107], Some [2])] 0 c1") auto
  have run: "occ_run c1 [Committed {[107]} 30, Began 2 20, Began 1 10]"
    using occ_run.commit_step [OF occ_demo_run _ _ _ _ c1] by (simp add: act)
  have "activeTx c1 1 = Some 10" using ValidateAndCommit_cases [OF c1] act by auto
  from occ_commit_exact [OF run this _ c2] have "e = Some ErrWriteConflict" "versions c2 = versions c1"
    by (auto simp: newer_commit_def)
  then show ?thesis using c1 c2 by blast
qed

text \<open>Reads of an open transaction are not repeatable. When another transaction commits a
  key, the value an open transaction reads for the key changes to the new one exactly when the
  committer is the older of the two or the clock has not advanced past the read timestamp:
  the visibility test is a disjunction. Any other commit is not seen.\<close>

theorem occ_open_read:
  assumes "activeTx c txID = Some readTs" and "txID' \<noteq> txID" and "distinct (map fst ws)" and "(k, v) \<in> set ws"
    and "ValidateAndCommit t txID' ws ttl c = (None, c')"
  shows "Cache_Read t1 txID k c' =
    (if txID' < txID \<or> word_of_int t \<le> readTs then (if gone t1 (new_version t txID' ttl v) then Inl ErrTombstoned else Inr v)
     else if versions c k = [] then Inl ErrNoVersion else Cache_Read t1 txID k c)"
  by (rule commit_seen_by_open [OF assms])

text \<open>On a tie of the clock a conflict is missed: both transactions begin at 20, and the second commit
  succeeds although the first has replaced the version it started from.\<close>

theorem occ_tie_misses_conflict:
  "\<exists>c0 c1 c2. occ_run c0 [Began 2 20, Began 1 20] \<and> ValidateAndCommit 20 2 [([107], Some [1])] 0 c0 = (None, c1)
     \<and> ValidateAndCommit 40 1 [([107], Some [2])] 0 c1 = (None, c2)"
proof -
  let ?c0 = "snd (BeginOCC 20 (snd (BeginOCC 20 NewMVCCCacheStore)))"
  have "occ_run (snd (BeginOCC 20 NewMVCCCacheStore)) [Began 1 20]"
    by (rule occ_run.begin_step [OF occ_run.init]) (simp_all add: NewMVCCCacheStore_def BeginOCC_def Let_def word_gt_0)
  then have "occ_run ?c0 [Began 2 20, Began 1 20]"
    by (rule occ_run.begin_step) (simp_all add: NewMVCCCacheStore_def BeginOCC_def Let_def one_below_max)
  moreover have "\<exists>c1 c2. ValidateAndCommit 20 2 [([107], Some [1])] 0 ?c0 = (None, c1) \<and> ValidateAndCommit 40 1 [([107], Some [2])] 0 c1 = (None, c2)"
    by (simp add: ValidateAndCommit_def Let_def write_conflict_def BeginOCC_def NewMVCCCacheStore_def new_version_def)
  ultimately show ?thesis by blast
qed

end
