(* ===== verification/Wal.thy ===== *)
theory Wal
  imports GoStd
begin

text \<open>
  The write-ahead log of \<open>wal.go\<close>: the frame of a log record, the assignment of sequence
  numbers in \<open>Append\<close>, the queue and the group commit of the flusher, \<open>Checkpoint\<close>, and the
  frame reader and analysis pass of \<open>recovery.go\<close>.

  The log file is its bytes. A call of \<open>Append\<close> has two parts that other goroutines can come
  between: the critical section that assigns the sequence number, and the send to the queue.
  The flusher's work on one message from the queue is one step. Errors of the operating
  system when it writes the file are not modelled.
\<close>

section \<open>Records\<close>

definition LogTypeBegin :: byte where "LogTypeBegin = 0"
definition LogTypeUpdate :: byte where "LogTypeUpdate = 1"
definition LogTypeCommit :: byte where "LogTypeCommit = 2"
definition LogTypeAbort :: byte where "LogTypeAbort = 3"
definition LogTypeCLR :: byte where "LogTypeCLR = 4"
definition LogTypeCheckpoint :: byte where "LogTypeCheckpoint = 5"

lemmas log_type_defs =
  LogTypeBegin_def LogTypeUpdate_def LogTypeCommit_def LogTypeAbort_def LogTypeCLR_def LogTypeCheckpoint_def

record wal_entry =
  weLsn :: LSN
  weTxn :: TxnID
  wePrev :: LSN
  weType :: byte
  wePage :: PageID
  weKey :: bytes
  weOld :: bytes
  weNew :: bytes

text \<open>The header behind the checksum, bytes 4 to 49, and the frame.\<close>

definition frame_header :: "wal_entry \<Rightarrow> bytes" where
  "frame_header e =
     put_le 8 (unat (weLsn e)) @ put_le 8 (unat (weTxn e)) @ put_le 8 (unat (wePrev e)) @ [weType e] @
     put_le 8 (unat (wePage e)) @ put_le 4 (length (weKey e)) @ put_le 4 (length (weOld e)) @ put_le 4 (length (weNew e))"

definition frame_payload :: "wal_entry \<Rightarrow> bytes" where
  "frame_payload e = weKey e @ weOld e @ weNew e"

definition writeEntry :: "wal_entry \<Rightarrow> bytes" where
  "writeEntry e = put_le 4 (ChecksumIEEE (frame_header e @ frame_payload e)) @ frame_header e @ frame_payload e"

section \<open>Appending\<close>

datatype wal_msg = EntryMsg wal_entry | TruncateMsg

record wal =
  wFile :: bytes
  wQueue :: "wal_msg list"
  currentLSN :: "64 word"
  txnPrevLSN :: "TxnID \<rightharpoonup> LSN"

definition NewBatchingWAL :: "bytes \<Rightarrow> wal" where
  "NewBatchingWAL f = \<lparr>wFile = f, wQueue = [], currentLSN = word_of_nat (length f), txnPrevLSN = Map.empty\<rparr>"

definition record_length :: "bytes \<Rightarrow> bytes \<Rightarrow> bytes \<Rightarrow> nat" where
  "record_length key old new = 49 + length key + length old + length new"

text \<open>The critical section of \<open>Append\<close>.\<close>

definition Append_assign ::
  "TxnID \<Rightarrow> byte \<Rightarrow> PageID \<Rightarrow> bytes \<Rightarrow> bytes \<Rightarrow> bytes \<Rightarrow> wal \<Rightarrow> wal_entry \<times> wal" where
  "Append_assign t logType i key old new w =
     (let pLSN = (case txnPrevLSN w t of None \<Rightarrow> 0 | Some l \<Rightarrow> l);
          assignedLSN = currentLSN w;
          entry = \<lparr>weLsn = assignedLSN, weTxn = t, wePrev = pLSN, weType = logType, wePage = i, weKey = key, weOld = old, weNew = new\<rparr>;
          w1 = w\<lparr>currentLSN := currentLSN w + word_of_nat (record_length key old new)\<rparr>
      in (entry, if logType = LogTypeCommit \<or> logType = LogTypeAbort
                 then w1\<lparr>txnPrevLSN := (txnPrevLSN w)(t := None)\<rparr>
                 else w1\<lparr>txnPrevLSN := (txnPrevLSN w)(t \<mapsto> assignedLSN)\<rparr>))"

definition send :: "wal_msg \<Rightarrow> wal \<Rightarrow> wal" where
  "send msg w = w\<lparr>wQueue := wQueue w @ [msg]\<rparr>"

text \<open>The drain loop: up to 1000 records in all; a truncate request goes back to the end of the queue.\<close>

fun drain :: "nat \<Rightarrow> wal_msg list \<Rightarrow> wal_entry list \<times> wal_msg list" where
  "drain 0 q = ([], q)"
| "drain (Suc n) [] = ([], [])"
| "drain (Suc n) (EntryMsg e # q) = (case drain n q of (pending, q') \<Rightarrow> (e # pending, q'))"
| "drain (Suc n) (TruncateMsg # q) = ([], q @ [TruncateMsg])"

definition flusher :: "wal \<Rightarrow> wal" where
  "flusher w =
     (case wQueue w of
        [] \<Rightarrow> w
      | EntryMsg e # q \<Rightarrow>
          (case drain 999 q of (pending, q') \<Rightarrow>
             w\<lparr>wFile := wFile w @ concat (map writeEntry (e # pending)), wQueue := q'\<rparr>)
      | TruncateMsg # q \<Rightarrow> w\<lparr>wFile := [], wQueue := q, currentLSN := 0\<rparr>)"

text \<open>A call of \<open>Append\<close> and of \<open>Checkpoint\<close> that nothing comes between.\<close>

definition Append ::
  "TxnID \<Rightarrow> byte \<Rightarrow> PageID \<Rightarrow> bytes \<Rightarrow> bytes \<Rightarrow> bytes \<Rightarrow> wal \<Rightarrow> LSN \<times> wal" where
  "Append t logType i key old new w =
     (case Append_assign t logType i key old new w of (e, w1) \<Rightarrow> (weLsn e, flusher (send (EntryMsg e) w1)))"

definition Checkpoint :: "wal \<Rightarrow> wal" where
  "Checkpoint w = flusher (send TruncateMsg w)"

section \<open>Reading frames\<close>

text \<open>
  \<open>io.ReadFull\<close> of a header and of its payload: \<open>None\<close> at the end of the log. The length of
  the payload is a sum of \<open>uint32\<close>.
\<close>

definition payload_length :: "bytes \<Rightarrow> nat" where
  "payload_length h = u32 (rd_le 4 h 37 + rd_le 4 h 41 + rd_le 4 h 45)"

definition read_frame :: "bytes \<Rightarrow> (bytes \<times> bytes \<times> bytes) option result" where
  "read_frame bs =
     (if bs = [] then Inr None
      else if length bs < 49 then Inl ErrUnexpectedEOF
      else let h = take 49 bs; n = payload_length h
           in if length (drop 49 bs) < n then Inl (if drop 49 bs = [] then ErrEOF else ErrUnexpectedEOF)
              else Inr (Some (h, take n (drop 49 bs), drop (49 + n) bs)))"

definition crc_ok :: "bytes \<Rightarrow> bytes \<Rightarrow> bool" where
  "crc_ok h payload \<longleftrightarrow> ChecksumIEEE (drop 4 h @ payload) = rd_le 4 h 0"

definition frame_lsn :: "bytes \<Rightarrow> LSN" where "frame_lsn h = word_of_nat (rd_le 8 h 4)"
definition frame_txn :: "bytes \<Rightarrow> TxnID" where "frame_txn h = word_of_nat (rd_le 8 h 12)"
definition frame_prev :: "bytes \<Rightarrow> LSN" where "frame_prev h = word_of_nat (rd_le 8 h 20)"
definition frame_type :: "bytes \<Rightarrow> byte" where "frame_type h = h ! 28"
definition frame_page :: "bytes \<Rightarrow> PageID" where "frame_page h = word_of_nat (rd_le 8 h 29)"

text \<open>The slices of the payload that redo and undo take; their bounds are \<open>uint32\<close> and a slice
  out of range is a panic.\<close>

definition redo_slices :: "bytes \<Rightarrow> bytes \<Rightarrow> (bytes \<times> bytes) result" where
  "redo_slices h payload =
     (let kLen = rd_le 4 h 37; oldEnd = u32 (kLen + rd_le 4 h 41)
      in if length payload < kLen \<or> length payload < oldEnd then Inl GoPanic
         else Inr (take kLen payload, drop oldEnd payload))"

definition undo_slices :: "bytes \<Rightarrow> bytes \<Rightarrow> (bytes \<times> bytes) result" where
  "undo_slices h payload =
     (let kLen = rd_le 4 h 37; oldEnd = u32 (kLen + rd_le 4 h 41)
      in if length payload < kLen \<or> oldEnd < kLen \<or> length payload < oldEnd then Inl GoPanic
         else Inr (take kLen payload, slice payload kLen oldEnd))"

section \<open>The analysis pass\<close>

definition analysis_step :: "bytes \<Rightarrow> (TxnID \<times> LSN) list \<Rightarrow> (TxnID \<times> LSN) list" where
  "analysis_step h active =
     (if frame_type h = LogTypeBegin \<or> frame_type h = LogTypeUpdate \<or> frame_type h = LogTypeCLR
      then AList.update (frame_txn h) (frame_lsn h) active
      else if frame_type h = LogTypeCommit \<or> frame_type h = LogTypeAbort
      then AList.delete (frame_txn h) active
      else active)"

lemma read_frame_rest: "read_frame bs = Inr (Some (h, p, rest)) \<Longrightarrow> length rest < length bs"
  by (auto simp: read_frame_def Let_def split: if_splits)

function analysis_loop :: "bytes \<Rightarrow> (TxnID \<times> LSN) list \<Rightarrow> (TxnID \<times> LSN) list result" where
  "analysis_loop bs active =
     (case read_frame bs of
        Inl e \<Rightarrow> if length bs < 49 then Inl e else Inl ErrWalPayload
      | Inr None \<Rightarrow> Inr active
      | Inr (Some (h, payload, rest)) \<Rightarrow>
          if \<not> crc_ok h payload then Inl ErrWalCrc else analysis_loop rest (analysis_step h active))"
  by pat_completeness auto
termination analysis_loop
  by (relation "measure (\<lambda>(bs, _). length bs)") (auto dest: read_frame_rest)

definition runAnalysisPass :: "bytes \<Rightarrow> (TxnID \<times> LSN) list result" where
  "runAnalysisPass file = analysis_loop file []"

declare analysis_loop.simps [simp del]

section \<open>Frames read back\<close>

text \<open>A record whose parts can be described by the header.\<close>

definition entry_fits :: "wal_entry \<Rightarrow> bool" where
  "entry_fits e \<longleftrightarrow> length (weKey e) + length (weOld e) + length (weNew e) < 2 ^ 32"

lemma length_frame_header [simp]: "length (frame_header e) = 45"
  by (simp add: frame_header_def)

lemma length_writeEntry: "length (writeEntry e) = record_length (weKey e) (weOld e) (weNew e)"
  by (simp add: writeEntry_def frame_payload_def record_length_def)

definition header_of :: "wal_entry \<Rightarrow> bytes" where
  "header_of e = put_le 4 (ChecksumIEEE (frame_header e @ frame_payload e)) @ frame_header e"

lemma writeEntry_eq: "writeEntry e = header_of e @ frame_payload e"
  by (simp add: writeEntry_def header_of_def)

lemma length_header_of [simp]: "length (header_of e) = 49"
  by (simp add: header_of_def)

lemma header_fields [simp]:
  "rd_le 4 (header_of e) 0 = ChecksumIEEE (frame_header e @ frame_payload e)" "frame_lsn (header_of e) = weLsn e"
  "frame_txn (header_of e) = weTxn e" "frame_prev (header_of e) = wePrev e" "frame_type (header_of e) = weType e"
  "frame_page (header_of e) = wePage e" "rd_le 4 (header_of e) 37 = length (weKey e) mod 2 ^ 32"
  "rd_le 4 (header_of e) 41 = length (weOld e) mod 2 ^ 32" "rd_le 4 (header_of e) 45 = length (weNew e) mod 2 ^ 32"
proof -
  define c where "c = put_le 4 (ChecksumIEEE (frame_header e @ frame_payload e))"
  define l where "l = put_le 8 (unat (weLsn e))"
  define t where "t = put_le 8 (unat (weTxn e))"
  define p where "p = put_le 8 (unat (wePrev e))"
  define g where "g = put_le 8 (unat (wePage e))"
  define k where "k = put_le 4 (length (weKey e))"
  define o' where "o' = put_le 4 (length (weOld e))"
  define n where "n = put_le 4 (length (weNew e))"
  note d = c_def l_def t_def p_def g_def k_def o'_def n_def
  have h: "header_of e = c @ l @ t @ p @ [weType e] @ g @ k @ o' @ n"
    by (simp add: header_of_def frame_header_def d)
  have len [simp]: "length c = 4" "length l = 8" "length t = 8" "length p = 8" "length g = 8" "length k = 4" "length o' = 4" "length n = 4"
    by (simp_all add: d)
  have rt [simp]: "word_of_nat (unat (x :: 64 word) mod 18446744073709551616) = x" for x
    using word64_of_unat_mod [of x] by simp
  have crc: "ChecksumIEEE (frame_header e @ frame_payload e) < 256 ^ 4" using ChecksumIEEE_bound by simp
  show "rd_le 4 (header_of e) 0 = ChecksumIEEE (frame_header e @ frame_payload e)"
    unfolding h using rd_le_append [of "[]" 0 c 4] crc by (simp add: c_def)
  show "frame_lsn (header_of e) = weLsn e"
    unfolding frame_lsn_def h using rd_le_append [of c 4 l 8] by (simp add: l_def)
  show "frame_txn (header_of e) = weTxn e"
    unfolding frame_txn_def h using rd_le_append [of "c @ l" 12 t 8] by (simp add: t_def)
  show "frame_prev (header_of e) = wePrev e"
    unfolding frame_prev_def h using rd_le_append [of "c @ l @ t" 20 p 8] by (simp add: p_def)
  show "frame_type (header_of e) = weType e"
    unfolding frame_type_def h using nth_append_length [of "c @ l @ t @ p" "weType e"] by simp
  show "frame_page (header_of e) = wePage e"
    unfolding frame_page_def h using rd_le_append [of "c @ l @ t @ p @ [weType e]" 29 g 8] by (simp add: g_def)
  show "rd_le 4 (header_of e) 37 = length (weKey e) mod 2 ^ 32"
    unfolding h using rd_le_append [of "c @ l @ t @ p @ [weType e] @ g" 37 k 4] by (simp add: k_def)
  show "rd_le 4 (header_of e) 41 = length (weOld e) mod 2 ^ 32"
    unfolding h using rd_le_append [of "c @ l @ t @ p @ [weType e] @ g @ k" 41 o' 4] by (simp add: o'_def)
  show "rd_le 4 (header_of e) 45 = length (weNew e) mod 2 ^ 32"
    unfolding h using rd_le_append [of "c @ l @ t @ p @ [weType e] @ g @ k @ o'" 45 n 4 "[]"] by (simp add: n_def)
qed

lemma payload_length_header:
  assumes "entry_fits e"
  shows "payload_length (header_of e) = length (frame_payload e)"
    "rd_le 4 (header_of e) 37 = length (weKey e)" "rd_le 4 (header_of e) 41 = length (weOld e)"
  using assms by (simp_all add: payload_length_def entry_fits_def frame_payload_def)

lemma read_frame_writeEntry:
  assumes "entry_fits e"
  shows "read_frame (writeEntry e @ rest) = Inr (Some (header_of e, frame_payload e, rest))"
proof -
  have "writeEntry e @ rest = header_of e @ frame_payload e @ rest" by (simp add: writeEntry_eq)
  moreover have "header_of e \<noteq> []" by (metis length_header_of list.size(3) zero_neq_numeral)
  ultimately show ?thesis
    by (simp add: read_frame_def payload_length_header [OF assms] Let_def)
qed

lemma crc_ok_header: "crc_ok (header_of e) (frame_payload e)"
  unfolding crc_ok_def header_fields(1) by (simp add: header_of_def)

lemma frame_slices_header:
  assumes "entry_fits e"
  shows "redo_slices (header_of e) (frame_payload e) = Inr (weKey e, weNew e)"
    "undo_slices (header_of e) (frame_payload e) = Inr (weKey e, weOld e)"
proof -
  have "u32 (length (weKey e) + length (weOld e)) = length (weKey e) + length (weOld e)"
    using assms by (intro u32_id) (simp add: entry_fits_def)
  then show "redo_slices (header_of e) (frame_payload e) = Inr (weKey e, weNew e)"
    "undo_slices (header_of e) (frame_payload e) = Inr (weKey e, weOld e)"
    using payload_length_header(2,3) [OF assms]
    by (simp_all add: redo_slices_def undo_slices_def frame_payload_def slice_def Let_def)
qed

text \<open>The analysis pass over a well-formed log is a fold over its records.\<close>

lemma analysis_loop_log:
  "\<forall>e\<in>set es. entry_fits e \<Longrightarrow>
   analysis_loop (concat (map writeEntry es) @ suf) active = analysis_loop suf (fold (\<lambda>e. analysis_step (header_of e)) es active)"
proof (induction es arbitrary: active)
  case (Cons e es)
  have "read_frame (writeEntry e @ concat (map writeEntry es) @ suf) =
      Inr (Some (header_of e, frame_payload e, concat (map writeEntry es) @ suf))"
    using Cons.prems by (intro read_frame_writeEntry) simp
  then have "analysis_loop (concat (map writeEntry (e # es)) @ suf) active =
      analysis_loop (concat (map writeEntry es) @ suf) (analysis_step (header_of e) active)"
    by (subst analysis_loop.simps) (simp add: crc_ok_header)
  with Cons show ?case by simp
qed simp

section \<open>Properties of the log\<close>

definition ends_txn :: "wal_entry \<Rightarrow> bool" where
  "ends_txn e \<longleftrightarrow> weType e = LogTypeCommit \<or> weType e = LogTypeAbort"

definition tracked_entry :: "wal_entry \<Rightarrow> bool" where
  "tracked_entry e \<longleftrightarrow> weType e = LogTypeBegin \<or> weType e = LogTypeUpdate \<or> weType e = LogTypeCLR \<or> ends_txn e"

text \<open>The last record of a transaction, unless it ends the transaction.\<close>

definition open_lsn :: "(wal_entry \<Rightarrow> bool) \<Rightarrow> wal_entry list \<Rightarrow> TxnID \<Rightarrow> LSN option" where
  "open_lsn P es t =
     (let rs = filter (\<lambda>e. weTxn e = t \<and> P e) es
      in if rs = [] \<or> ends_txn (last rs) then None else Some (weLsn (last rs)))"

lemma open_lsn_snoc:
  "open_lsn P (es @ [e]) t =
     (if weTxn e = t \<and> P e then if ends_txn e then None else Some (weLsn e) else open_lsn P es t)"
  by (simp add: open_lsn_def)

lemma analysis_step_header:
  "distinct (map fst l) \<Longrightarrow> distinct (map fst (analysis_step (header_of e) l))"
  "map_of (analysis_step (header_of e) l) t =
     (if weTxn e = t \<and> tracked_entry e then if ends_txn e then None else Some (weLsn e) else map_of l t)"
proof -
  show "distinct (map fst l) \<Longrightarrow> distinct (map fst (analysis_step (header_of e) l))"
    by (simp add: analysis_step_def AList.distinct_update AList.distinct_delete)
  have "LogTypeCommit \<noteq> LogTypeBegin" "LogTypeCommit \<noteq> LogTypeUpdate" "LogTypeCommit \<noteq> LogTypeCLR"
    "LogTypeAbort \<noteq> LogTypeBegin" "LogTypeAbort \<noteq> LogTypeUpdate" "LogTypeAbort \<noteq> LogTypeCLR"
    by (simp_all add: log_type_defs)
  then show "map_of (analysis_step (header_of e) l) t =
     (if weTxn e = t \<and> tracked_entry e then if ends_txn e then None else Some (weLsn e) else map_of l t)"
    by (auto simp: analysis_step_def tracked_entry_def ends_txn_def AList.update_conv' AList.delete_conv')
qed

lemma analysis_fold:
  "distinct (map fst (fold (\<lambda>e. analysis_step (header_of e)) es [])) \<and>
   map_of (fold (\<lambda>e. analysis_step (header_of e)) es []) t = open_lsn tracked_entry es t"
proof (induction es rule: rev_induct)
  case (snoc e es)
  then show ?case by (simp add: analysis_step_header open_lsn_snoc)
qed (simp add: open_lsn_def)

text \<open>C20: the analysis pass reads back what the log writer wrote: every frame passes its checksum,
  and the transactions it reports are exactly those whose last tracked record (a begin, an update,
  a compensation record or an end) does not end them, each with the sequence number of that record.\<close>

theorem analysis_exact:
  assumes "\<forall>e\<in>set es. entry_fits e"
  shows "\<exists>active. runAnalysisPass (concat (map writeEntry es)) = Inr active \<and> distinct (map fst active) \<and>
    (\<forall>t. map_of active t = open_lsn tracked_entry es t)"
proof -
  have "analysis_loop [] a = Inr a" for a by (simp add: analysis_loop.simps read_frame_def)
  then have "runAnalysisPass (concat (map writeEntry es)) = Inr (fold (\<lambda>e. analysis_step (header_of e)) es [])"
    using analysis_loop_log [OF assms, of "[]" "[]"] by (simp add: runAnalysisPass_def)
  with analysis_fold [of es] show ?thesis by blast
qed

definition example_entry :: "TxnID \<Rightarrow> byte \<Rightarrow> LSN \<Rightarrow> wal_entry" where
  "example_entry t ty l = \<lparr>weLsn = l, weTxn = t, wePrev = 0, weType = ty, wePage = 5, weKey = [1], weOld = [], weNew = [2]\<rparr>"

theorem analysis_exact_witness:
  "\<exists>active. runAnalysisPass (concat (map writeEntry [example_entry 1 1 0, example_entry 2 1 51, example_entry 2 2 102])) = Inr active \<and>
     map_of active 1 = Some 0 \<and> map_of active 2 = None"
  using analysis_exact [of "[example_entry 1 1 0, example_entry 2 1 51, example_entry 2 2 102]"]
  by (auto simp: example_entry_def entry_fits_def open_lsn_def tracked_entry_def ends_txn_def log_type_defs)

text \<open>C36: a torn tail stops recovery: when a crash leaves only the first part of the last frame in
  the log, the analysis pass does not stop at the last whole record but fails, whatever
  precedes it.\<close>

theorem analysis_torn_tail:
  assumes "\<forall>e\<in>set es. entry_fits e" and "entry_fits e" and "0 < n" and "n < length (writeEntry e)"
  shows "runAnalysisPass (concat (map writeEntry es) @ take n (writeEntry e)) =
    Inl (if n < 49 then ErrUnexpectedEOF else ErrWalPayload)"
proof -
  have ne: "take n (writeEntry e) \<noteq> []" using assms(3,4) by auto
  have len: "length (take n (writeEntry e)) = n" using assms(4) by simp
  have "analysis_loop (take n (writeEntry e)) a = Inl (if n < 49 then ErrUnexpectedEOF else ErrWalPayload)" for a
  proof (cases "n < 49")
    case True
    with ne len show ?thesis by (subst analysis_loop.simps) (simp add: read_frame_def)
  next
    case False
    then have t: "take n (writeEntry e) = header_of e @ take (n - 49) (frame_payload e)" by (simp add: writeEntry_eq)
    have "n - 49 < length (frame_payload e)" using assms(4) False by (simp add: writeEntry_eq)
    then have "\<exists>x. read_frame (take n (writeEntry e)) = Inl x"
      using ne len False unfolding t by (simp add: read_frame_def Let_def payload_length_header [OF assms(2)])
    with False len show ?thesis by (subst analysis_loop.simps) auto
  qed
  then show ?thesis by (simp add: runAnalysisPass_def analysis_loop_log [OF assms(1)])
qed

theorem analysis_torn_tail_witness:
  "runAnalysisPass (concat (map writeEntry [example_entry 1 1 0]) @ take 10 (writeEntry (example_entry 1 2 51))) = Inl ErrUnexpectedEOF"
  using analysis_torn_tail [of "[example_entry 1 1 0]" "example_entry 1 2 51" 10]
  by (simp add: example_entry_def entry_fits_def length_writeEntry record_length_def)

subsection \<open>Sequence numbers\<close>

abbreviation log_bytes :: "wal_entry list \<Rightarrow> bytes" where
  "log_bytes es \<equiv> concat (map writeEntry es)"

text \<open>
  The log a sequence of appends leaves: each record sits at the byte offset that is its
  sequence number and points back to the previous record of its transaction.
\<close>

definition chained :: "wal_entry list \<Rightarrow> bool" where
  "chained es \<longleftrightarrow> (\<forall>xs e ys. es = xs @ e # ys \<longrightarrow> weLsn e = word_of_nat (length (log_bytes xs)) \<and>
     wePrev e = (case open_lsn (\<lambda>_. True) xs (weTxn e) of None \<Rightarrow> 0 | Some l \<Rightarrow> l))"

definition wal_log :: "wal \<Rightarrow> wal_entry list \<Rightarrow> bool" where
  "wal_log w es \<longleftrightarrow> wFile w = log_bytes es \<and> wQueue w = [] \<and> currentLSN w = word_of_nat (length (log_bytes es)) \<and>
     txnPrevLSN w = open_lsn (\<lambda>_. True) es \<and> chained es"

lemma chained_snoc:
  assumes "chained es" "weLsn e = word_of_nat (length (log_bytes es))"
    "wePrev e = (case open_lsn (\<lambda>_. True) es (weTxn e) of None \<Rightarrow> 0 | Some l \<Rightarrow> l)"
  shows "chained (es @ [e])"
proof -
  have "weLsn f = word_of_nat (length (log_bytes xs)) \<and> wePrev f = (case open_lsn (\<lambda>_. True) xs (weTxn f) of None \<Rightarrow> 0 | Some l \<Rightarrow> l)"
    if "es @ [e] = xs @ f # ys" for xs f ys
  proof (cases ys rule: rev_cases)
    case Nil
    with that assms(2,3) show ?thesis by simp
  next
    case (snoc zs z)
    with that have "es = xs @ f # zs" by simp
    with assms(1) show ?thesis by (simp add: chained_def)
  qed
  then show ?thesis by (simp add: chained_def)
qed

lemma drain_Nil [simp]: "drain n [] = ([], [])"
  by (cases n) simp_all

lemma drain_one [simp]: "0 < n \<Longrightarrow> drain n [EntryMsg e] = ([e], [])"
  by (cases n) simp_all

lemma Append_log:
  assumes w: "wal_log w es" and run: "Append t ty i key old new w = (l, w')"
  obtains e where "wal_log w' (es @ [e])" "weLsn e = l" "weTxn e = t" "weType e = ty" "wePage e = i"
    "weKey e = key" "weOld e = old" "weNew e = new"
proof -
  define e where "e = \<lparr>weLsn = currentLSN w, weTxn = t, wePrev = (case txnPrevLSN w t of None \<Rightarrow> 0 | Some l \<Rightarrow> l),
    weType = ty, wePage = i, weKey = key, weOld = old, weNew = new\<rparr>"
  have l: "l = weLsn e" and f: "wFile w' = wFile w @ writeEntry e" and q: "wQueue w' = []"
    and c: "currentLSN w' = currentLSN w + word_of_nat (length (writeEntry e))"
    and x: "txnPrevLSN w' = (txnPrevLSN w)(t := (if ends_txn e then None else Some (currentLSN w)))"
    using run w by (auto simp: Append_def Append_assign_def Let_def send_def flusher_def wal_log_def e_def
      length_writeEntry ends_txn_def split: if_splits)
  have "open_lsn (\<lambda>_. True) (es @ [e]) = txnPrevLSN w'"
    using w by (auto simp: fun_eq_iff open_lsn_snoc x wal_log_def e_def)
  moreover have "chained (es @ [e])"
    using w by (intro chained_snoc) (simp_all add: wal_log_def e_def)
  ultimately have "wal_log w' (es @ [e])" using w f q c by (simp add: wal_log_def)
  then show thesis using l by (intro that [of e]) (simp_all add: e_def)
qed

text \<open>A sequence of calls.\<close>

record append_call =
  acTxn :: TxnID
  acType :: byte
  acPage :: PageID
  acKey :: bytes
  acOld :: bytes
  acNew :: bytes

definition call_append :: "append_call \<Rightarrow> wal \<Rightarrow> wal" where
  "call_append c w = snd (Append (acTxn c) (acType c) (acPage c) (acKey c) (acOld c) (acNew c) w)"

definition call_of :: "wal_entry \<Rightarrow> append_call" where
  "call_of e = \<lparr>acTxn = weTxn e, acType = weType e, acPage = wePage e, acKey = weKey e, acOld = weOld e, acNew = weNew e\<rparr>"

lemma calls_log: "wal_log w es \<Longrightarrow> \<exists>fs. wal_log (fold call_append cs w) (es @ fs) \<and> map call_of fs = cs"
proof (induction cs arbitrary: w es)
  case (Cons c cs)
  obtain l w' where a: "Append (acTxn c) (acType c) (acPage c) (acKey c) (acOld c) (acNew c) w = (l, w')" by fastforce
  obtain e where e: "wal_log w' (es @ [e])" "call_of e = c"
    by (rule Append_log [OF Cons.prems a]) (auto simp: call_of_def)
  from Cons.IH [OF e(1)] obtain fs where "wal_log (fold call_append cs w') ((es @ [e]) @ fs)" "map call_of fs = cs" by blast
  moreover have "call_append c w = w'" using a by (simp add: call_append_def)
  ultimately show ?case using e by (intro exI [of _ "e # fs"]) simp
qed auto

text \<open>C22: calls of \<open>Append\<close> one after the other on an empty log, without write errors of the operating
  system, build a log in which the sequence number of every
  record is the byte offset of its frame and its back pointer leads to the previous record of
  its transaction (0 when there is none or it was ended), so that the undo pass, which seeks to
  sequence numbers, finds the records.\<close>

theorem append_addressable:
  assumes "length (wFile (fold call_append cs (NewBatchingWAL []))) < 2 ^ 64"
    and "\<forall>c\<in>set cs. length (acKey c) + length (acOld c) + length (acNew c) < 2 ^ 32"
  shows "\<exists>es. wFile (fold call_append cs (NewBatchingWAL [])) = log_bytes es \<and> map call_of es = cs \<and>
    (\<forall>xs e ys. es = xs @ e # ys \<longrightarrow>
       read_frame (drop (unat (weLsn e)) (log_bytes es)) = Inr (Some (header_of e, frame_payload e, log_bytes ys)) \<and>
       wePrev e = (case open_lsn (\<lambda>_. True) xs (weTxn e) of None \<Rightarrow> 0 | Some l \<Rightarrow> l))"
proof -
  have "wal_log (NewBatchingWAL []) []"
    by (simp add: wal_log_def NewBatchingWAL_def chained_def open_lsn_def fun_eq_iff)
  from calls_log [OF this, of cs] obtain es where es: "wal_log (fold call_append cs (NewBatchingWAL [])) es" "map call_of es = cs" by auto
  have f: "wFile (fold call_append cs (NewBatchingWAL [])) = log_bytes es" and ch: "chained es"
    using es(1) by (simp_all add: wal_log_def)
  have fits: "entry_fits e" if "e \<in> set es" for e
    using assms(2) es(2) that by (force simp: entry_fits_def call_of_def)
  have "read_frame (drop (unat (weLsn e)) (log_bytes es)) = Inr (Some (header_of e, frame_payload e, log_bytes ys))"
    if "es = xs @ e # ys" for xs e ys
  proof -
    have "length (log_bytes xs) < 2 ^ 64" using assms(1) f that by simp
    then have "unat (word_of_nat (length (log_bytes xs)) :: 64 word) = length (log_bytes xs)"
      by (simp add: unat_of_nat)
    moreover have "weLsn e = word_of_nat (length (log_bytes xs))" using ch that unfolding chained_def by blast
    ultimately have "unat (weLsn e) = length (log_bytes xs)" by simp
    then show ?thesis using that fits [of e] by (simp add: read_frame_writeEntry)
  qed
  moreover have "wePrev e = (case open_lsn (\<lambda>_. True) xs (weTxn e) of None \<Rightarrow> 0 | Some l \<Rightarrow> l)" if "es = xs @ e # ys" for xs e ys
    using ch that unfolding chained_def by blast
  ultimately show ?thesis using f es(2) by blast
qed

theorem append_addressable_witness:
  "\<exists>es. wFile (fold call_append [call_of (example_entry 1 1 0)] (NewBatchingWAL [])) = log_bytes es \<and> length es = 1"
proof -
  have "length (wFile (fold call_append [call_of (example_entry 1 1 0)] (NewBatchingWAL []))) < 2 ^ 64"
    by (simp add: call_append_def call_of_def Append_def Append_assign_def send_def flusher_def NewBatchingWAL_def Let_def
        length_writeEntry record_length_def example_entry_def)
  from append_addressable [OF this] show ?thesis
    by (auto simp: call_of_def example_entry_def dest: arg_cong [of _ _ length])
qed

text \<open>Without that order the sequence numbers lie. When two goroutines are in \<open>Append\<close> at once,
  the second to be numbered can reach the queue first, and then the frame at the offset the
  first was given is the other one's. And a checkpoint restarts the numbering without
  forgetting the back pointers, so that the next record of a running transaction points to an
  offset of the log that was thrown away.\<close>

theorem append_anomalies:
  "(let (e1, w1) = Append_assign 1 LogTypeUpdate 5 [1] [] [2] (NewBatchingWAL []);
        (e2, w2) = Append_assign 2 LogTypeUpdate 5 [3] [] [4] w1;
        w3 = flusher (send (EntryMsg e1) (send (EntryMsg e2) w2))
    in read_frame (drop (unat (weLsn e1)) (wFile w3)) = Inr (Some (header_of e2, frame_payload e2, writeEntry e1))) \<and>
   (let w1 = Checkpoint (snd (Append 1 LogTypeUpdate 5 [1] [] [2] (snd (Append 2 LogTypeUpdate 5 [3] [] [4] (NewBatchingWAL [])))));
        (e, w2) = Append_assign 1 LogTypeUpdate 5 [1] [2] [7] w1
    in wFile w1 = [] \<and> weLsn e = 0 \<and> wePrev e = 51)"
proof
  let ?e1 = "\<lparr>weLsn = 0, weTxn = 1, wePrev = 0, weType = LogTypeUpdate, wePage = 5, weKey = [1], weOld = [], weNew = [2]\<rparr>"
  let ?e2 = "\<lparr>weLsn = 51, weTxn = 2, wePrev = 0, weType = LogTypeUpdate, wePage = 5, weKey = [3], weOld = [], weNew = [4]\<rparr>"
  have "entry_fits ?e2" by (simp add: entry_fits_def)
  note r = read_frame_writeEntry [OF this, of "writeEntry ?e1"]
  show "let (e1, w1) = Append_assign 1 LogTypeUpdate 5 [1] [] [2] (NewBatchingWAL []);
        (e2, w2) = Append_assign 2 LogTypeUpdate 5 [3] [] [4] w1;
        w3 = flusher (send (EntryMsg e1) (send (EntryMsg e2) w2))
    in read_frame (drop (unat (weLsn e1)) (wFile w3)) = Inr (Some (header_of e2, frame_payload e2, writeEntry e1))"
    using r by (simp add: Append_assign_def Let_def NewBatchingWAL_def send_def flusher_def record_length_def
        LogTypeUpdate_def LogTypeCommit_def LogTypeAbort_def)
next
  show "let w1 = Checkpoint (snd (Append 1 LogTypeUpdate 5 [1] [] [2] (snd (Append 2 LogTypeUpdate 5 [3] [] [4] (NewBatchingWAL [])))));
        (e, w2) = Append_assign 1 LogTypeUpdate 5 [1] [2] [7] w1
    in wFile w1 = [] \<and> weLsn e = 0 \<and> wePrev e = 51"
    by (simp add: Append_assign_def Append_def Checkpoint_def Let_def NewBatchingWAL_def send_def flusher_def record_length_def
        LogTypeUpdate_def LogTypeCommit_def LogTypeAbort_def)
qed

end
