(* ===== verification/Page.thy ===== *)
theory Page
  imports GoStd
begin

text \<open>
  \<open>common.go\<close> and the page part of \<open>storage.go\<close>: the constants of the layout, the page
  frame and the slotted page with its header fields, slot directory and free-space test.

  The latch and the atomicity of the pin counter are not part of the record: operations
  are modelled one at a time.
\<close>

section \<open>Constants\<close>

definition PageSize :: nat where "PageSize = 32768"
definition PageHeaderSize :: nat where "PageHeaderSize = 32"
definition RecordHeaderSize :: nat where "RecordHeaderSize = 24"
definition BTreeHeaderSize :: nat where "BTreeHeaderSize = 24"
definition PageTypeInternal :: nat where "PageTypeInternal = 1"
definition PageTypeLeaf :: nat where "PageTypeLeaf = 2"

lemmas layout_defs =
  PageSize_def PageHeaderSize_def RecordHeaderSize_def BTreeHeaderSize_def
  PageTypeInternal_def PageTypeLeaf_def

section \<open>Page frames\<close>

record page =
  pgID :: PageID
  pgData :: bytes
  pgPin :: int
  pgDirty :: bool
  pgVersion :: "64 word"

definition zero_page :: bytes where
  "zero_page = replicate PageSize 0"

lemma length_zero_page [simp]: "length zero_page = PageSize"
  by (simp add: zero_page_def)

section \<open>Slotted page header\<close>

definition GetChecksum :: "bytes \<Rightarrow> nat" where "GetChecksum d = rd_le 4 d 0"
definition SetChecksum :: "nat \<Rightarrow> bytes \<Rightarrow> bytes" where "SetChecksum v d = wr_le 4 d 0 v"
definition GetPageType :: "bytes \<Rightarrow> nat" where "GetPageType d = rd_le 4 d 4"
definition SetPageType32 :: "nat \<Rightarrow> bytes \<Rightarrow> bytes" where "SetPageType32 t d = wr_le 4 d 4 t"
definition GetSlotCount :: "bytes \<Rightarrow> nat" where "GetSlotCount d = rd_le 4 d 8"
definition SetSlotCount :: "nat \<Rightarrow> bytes \<Rightarrow> bytes" where "SetSlotCount c d = wr_le 4 d 8 c"
definition GetLowerBoundary :: "bytes \<Rightarrow> nat" where "GetLowerBoundary d = rd_le 4 d 12"
definition SetLowerBoundary :: "nat \<Rightarrow> bytes \<Rightarrow> bytes" where "SetLowerBoundary x d = wr_le 4 d 12 x"
definition GetUpperBoundary :: "bytes \<Rightarrow> nat" where "GetUpperBoundary d = rd_le 4 d 16"
definition SetUpperBoundary :: "nat \<Rightarrow> bytes \<Rightarrow> bytes" where "SetUpperBoundary x d = wr_le 4 d 16 x"
definition GetNextPageID :: "bytes \<Rightarrow> PageID" where "GetNextPageID d = word_of_nat (rd_le 8 d 24)"
definition SetNextPageID :: "PageID \<Rightarrow> bytes \<Rightarrow> bytes" where "SetNextPageID i d = wr_le 8 d 24 (unat i)"

lemmas slotted_header_defs =
  GetChecksum_def SetChecksum_def GetPageType_def SetPageType32_def GetSlotCount_def SetSlotCount_def
  GetLowerBoundary_def SetLowerBoundary_def GetUpperBoundary_def SetUpperBoundary_def
  GetNextPageID_def SetNextPageID_def

definition Init :: "bytes \<Rightarrow> bytes" where
  "Init d0 =
     (let d1 = SetChecksum 0 d0;
          d2 = SetPageType32 0 d1;
          d3 = SetSlotCount 0 d2;
          d4 = SetLowerBoundary PageHeaderSize d3;
          d5 = SetUpperBoundary PageSize d4;
          d6 = SetNextPageID 0 d5
      in zero_range d6 PageHeaderSize PageSize)"

definition ComputeChecksum :: "bytes \<Rightarrow> nat" where
  "ComputeChecksum d = ChecksumIEEE (drop 4 d)"

section \<open>Slots\<close>

record slot =
  slOffset :: nat
  slLength :: nat

text \<open>The offset of a slot is a \<open>uint32\<close>; a slot beyond the array is a panic.\<close>

definition GetSlot :: "nat \<Rightarrow> bytes \<Rightarrow> slot result" where
  "GetSlot idx d =
     (if GetSlotCount d \<le> idx then Inl ErrSlotRange
      else let slotOffset = u32 (PageHeaderSize + idx * 4)
           in if length d < slotOffset + 4 then Inl GoPanic
              else Inr \<lparr>slOffset = rd_le 2 d slotOffset, slLength = rd_le 2 d (slotOffset + 2)\<rparr>)"

definition WriteSlot :: "nat \<Rightarrow> slot \<Rightarrow> bytes \<Rightarrow> bytes result" where
  "WriteSlot idx s d =
     (let slotOffset = u32 (PageHeaderSize + idx * 4)
      in if length d < slotOffset + 4 then Inl GoPanic
         else Inr (wr_le 2 (wr_le 2 d slotOffset (slOffset s)) (slotOffset + 2) (slLength s)))"

definition IsSafeForInsert :: "nat \<Rightarrow> bytes \<Rightarrow> bool" where
  "IsSafeForInsert requiredBytes d \<longleftrightarrow>
     u32 (GetLowerBoundary d + 4 + requiredBytes) \<le> GetUpperBoundary d"

section \<open>Facts about the header\<close>

text \<open>Every header field reads back what was stored and is left alone by the others.\<close>

lemma header_get_set [simp]:
  assumes "length d = PageSize"
  shows "length (SetChecksum x d) = PageSize" "length (SetSlotCount x d) = PageSize"
    "length (SetLowerBoundary x d) = PageSize" "length (SetUpperBoundary x d) = PageSize"
    "GetSlotCount (SetSlotCount x d) = u32 x" "GetLowerBoundary (SetLowerBoundary x d) = u32 x"
    "GetUpperBoundary (SetUpperBoundary x d) = u32 x"
    "GetSlotCount (SetLowerBoundary x d) = GetSlotCount d" "GetSlotCount (SetUpperBoundary x d) = GetSlotCount d"
    "GetLowerBoundary (SetSlotCount x d) = GetLowerBoundary d"
    "GetLowerBoundary (SetUpperBoundary x d) = GetLowerBoundary d"
    "GetUpperBoundary (SetSlotCount x d) = GetUpperBoundary d"
    "GetUpperBoundary (SetLowerBoundary x d) = GetUpperBoundary d"
    "GetSlotCount (SetChecksum x d) = GetSlotCount d" "GetLowerBoundary (SetChecksum x d) = GetLowerBoundary d"
    "GetUpperBoundary (SetChecksum x d) = GetUpperBoundary d"
  using assms
  by (simp_all add: slotted_header_defs rd_wr_le_before rd_wr_le_after PageSize_def u32_def)

end
