(* ===== verification/Slotted.thy ===== *)
theory Slotted
  imports Page
begin

text \<open>
  The record layer of \<open>db.go\<close> on one slotted page: decoding a slot, compaction, the
  versioned write, the recovery write, and the visibility rules of \<open>Read\<close> and
  \<open>Scan\<close>. The operations of \<open>DB\<close> that fetch the page first are in the theory of the
  database.

  The clock is an argument \<open>now\<close> (\<open>UnixNano\<close> as an integer), read once per call. A Go map
  that is ranged over gets its order from an argument \<open>perm\<close>; statements hold for
  every permutation. A record of 4 GiB or more, whose size wraps in \<open>uint32\<close>, is reported
  as a panic and not followed further.
\<close>

section \<open>Records\<close>

record srec =
  rTxn :: TxnID
  rExp :: "64 word"
  rKey :: bytes
  rVal :: bytes

definition record_bytes :: "srec \<Rightarrow> bytes" where
  "record_bytes r = put_le 8 (unat (rTxn r)) @ put_le 8 (unat (rExp r)) @
     put_le 4 (length (rKey r)) @ put_le 4 (length (rVal r)) @ rKey r @ rVal r"

definition record_size :: "srec \<Rightarrow> nat" where
  "record_size r = u32 (RecordHeaderSize + length (rKey r) + length (rVal r))"

text \<open>
  Decoding the record of a slot. The end of the slice is computed in \<open>uint16\<close>, the bounds
  of key and value in \<open>uint32\<close>; the header and the payload are sliced up to the capacity of
  the record slice, that is the end of the page.
\<close>

definition decode_record :: "bytes \<Rightarrow> slot \<Rightarrow> srec result" where
  "decode_record d s =
     (let off = slOffset s; e = u16 (off + slLength s); cap = PageSize - off
      in if e < off \<or> PageSize < e \<or> cap < RecordHeaderSize then Inl GoPanic
         else let keyLen = rd_le 4 d (off + 16); valLen = rd_le 4 d (off + 20);
                  kend = u32 (24 + keyLen); vend = u32 (24 + keyLen + valLen)
              in if kend < 24 \<or> cap < kend \<or> vend < kend \<or> cap < vend then Inl GoPanic
                 else Inr \<lparr>rTxn = word_of_nat (rd_le 8 d off), rExp = word_of_nat (rd_le 8 d (off + 8)),
                           rKey = slice d (off + 24) (off + kend), rVal = slice d (off + kend) (off + vend)\<rparr>)"

text \<open>The loop over the slots: a slot out of range or of length 0 is skipped.\<close>

definition slot_record :: "bytes \<Rightarrow> nat \<Rightarrow> srec option result" where
  "slot_record d i =
     (case GetSlot i d of
        Inl GoPanic \<Rightarrow> Inl GoPanic
      | Inl _ \<Rightarrow> Inr None
      | Inr s \<Rightarrow> if slLength s = 0 then Inr None
                 else (case decode_record d s of Inl e \<Rightarrow> Inl e | Inr r \<Rightarrow> Inr (Some r)))"

fun slot_loop :: "(nat \<Rightarrow> srec \<Rightarrow> 's \<Rightarrow> 's) \<Rightarrow> nat \<Rightarrow> nat \<Rightarrow> bytes \<Rightarrow> 's \<Rightarrow> 's result" where
  "slot_loop body 0 i d st = Inr st"
| "slot_loop body (Suc n) i d st =
     (case slot_record d i of
        Inl e \<Rightarrow> Inl e
      | Inr None \<Rightarrow> slot_loop body n (Suc i) d st
      | Inr (Some r) \<Rightarrow> slot_loop body n (Suc i) d (body i r st))"

section \<open>Compaction\<close>

text \<open>Keep the record with the highest transaction id per key, the first one on ties;
  expired records are passed over.\<close>

definition compact_body :: "int \<Rightarrow> nat \<Rightarrow> srec \<Rightarrow> (bytes \<times> srec) list \<Rightarrow> (bytes \<times> srec) list" where
  "compact_body now i r latest =
     (if (case map_of latest (rKey r) of None \<Rightarrow> True | Some existing \<Rightarrow> rTxn existing < rTxn r)
      then if now < sint (rExp r) then AList.update (rKey r) r latest else latest
      else latest)"

text \<open>Storing one record below the upper boundary: the new offset and the page.\<close>

definition store_record :: "srec \<Rightarrow> bytes \<Rightarrow> (nat \<times> bytes) result" where
  "store_record r d =
     (let upper = GetUpperBoundary d; newOffset = u32 (upper + 2 ^ 32 - record_size r)
      in if upper < newOffset \<or> PageSize < upper \<or> 2 ^ 32 \<le> length (record_bytes r) then Inl GoPanic
         else Inr (newOffset, blit d newOffset (record_bytes r)))"

text \<open>Registering its slot and moving the boundaries inward.\<close>

definition register_slot :: "nat \<Rightarrow> nat \<Rightarrow> nat \<Rightarrow> bytes \<Rightarrow> bytes result" where
  "register_slot slotIdx newOffset recordSize d =
     (case WriteSlot slotIdx \<lparr>slOffset = u16 newOffset, slLength = u16 recordSize\<rparr> d of
        Inl e \<Rightarrow> Inl e
      | Inr d1 \<Rightarrow> Inr (SetUpperBoundary newOffset (SetLowerBoundary (PageHeaderSize + (slotIdx + 1) * 4) d1)))"

fun repack :: "nat \<Rightarrow> srec list \<Rightarrow> bytes \<Rightarrow> (nat \<times> bytes) result" where
  "repack slotIdx [] d = Inr (slotIdx, d)"
| "repack slotIdx (r # rs) d =
     (case store_record r d of
        Inl e \<Rightarrow> Inl e
      | Inr (newOffset, d1) \<Rightarrow>
          (case register_slot slotIdx newOffset (record_size r) d1 of
             Inl e \<Rightarrow> Inl e
           | Inr d2 \<Rightarrow> repack (slotIdx + 1) rs d2))"

definition compactPage :: "((bytes \<times> srec) list \<Rightarrow> (bytes \<times> srec) list) \<Rightarrow> int \<Rightarrow> bytes \<Rightarrow> bytes result" where
  "compactPage perm now d =
     (case slot_loop (compact_body now) (GetSlotCount d) 0 d [] of
        Inl e \<Rightarrow> Inl e
      | Inr latestRecords \<Rightarrow>
          (case repack 0 (map snd (perm latestRecords)) (Init d) of
             Inl e \<Rightarrow> Inl e
           | Inr (slotIdx, d') \<Rightarrow> Inr (SetSlotCount slotIdx d')))"

section \<open>Writing\<close>

datatype mix_param = DurationParam int | Int64Param int | IntParam int | OtherParam

definition far_future :: int where
  "far_future = 100 * 365 * 24 * 3600 * 1000000000"

definition expiry :: "int \<Rightarrow> mix_param \<Rightarrow> 64 word" where
  "expiry now p =
     (let default = word_of_int (now + far_future)
      in case p of
           DurationParam v \<Rightarrow> if 0 < v then word_of_int (now + v) else default
         | Int64Param v \<Rightarrow> if 0 < v then word_of_int (now + v) else default
         | IntParam v \<Rightarrow> if 0 < v then word_of_int (now + v) else default
         | OtherParam \<Rightarrow> default)"

text \<open>The end of \<open>Write\<close> and of \<open>restoreWrite\<close>: store the record below the upper
  boundary, add the slot, move both boundaries and count the slot.\<close>

definition append_record :: "srec \<Rightarrow> bytes \<Rightarrow> bytes result" where
  "append_record r d =
     (case store_record r d of
        Inl e \<Rightarrow> Inl e
      | Inr (newOffset, d1) \<Rightarrow>
          let currentSlots = GetSlotCount d1
          in case register_slot currentSlots newOffset (record_size r) d1 of
               Inl e \<Rightarrow> Inl e
             | Inr d2 \<Rightarrow> Inr (SetSlotCount (u32 (currentSlots + 1)) d2))"

definition page_Write ::
  "((bytes \<times> srec) list \<Rightarrow> (bytes \<times> srec) list) \<Rightarrow> int \<Rightarrow> srec \<Rightarrow> bytes \<Rightarrow> error option \<times> bytes" where
  "page_Write perm now r d0 =
     (let d = (if GetUpperBoundary d0 = 0 \<or> 32768 < GetUpperBoundary d0 then Init d0 else d0);
          recordSize = record_size r
      in case (if IsSafeForInsert recordSize d then Inr d else compactPage perm now d) of
           Inl e \<Rightarrow> (Some e, d)
         | Inr d1 \<Rightarrow>
             if \<not> IsSafeForInsert recordSize d1 then (Some ErrOverflow, d1)
             else let newOffset = u32 (GetUpperBoundary d1 + 2 ^ 32 - recordSize)
                  in if newOffset < GetLowerBoundary d1 \<or> 32768 < newOffset then (Some ErrOffsetAnomaly, d1)
                     else case append_record r d1 of
                            Inl e \<Rightarrow> (Some e, d1)
                          | Inr d2 \<Rightarrow> (None, d2))"

definition page_restoreWrite ::
  "((bytes \<times> srec) list \<Rightarrow> (bytes \<times> srec) list) \<Rightarrow> int \<Rightarrow> srec \<Rightarrow> bytes \<Rightarrow> error option \<times> bytes" where
  "page_restoreWrite perm now r d =
     (let recordSize = record_size r
      in case (if IsSafeForInsert recordSize d then Inr d else compactPage perm now d) of
           Inl e \<Rightarrow> (Some e, d)
         | Inr d1 \<Rightarrow>
             if \<not> IsSafeForInsert recordSize d1 then (Some ErrOverflow, d1)
             else case append_record r d1 of
                    Inl e \<Rightarrow> (Some e, d1)
                  | Inr d2 \<Rightarrow> (None, d2))"

section \<open>Reading\<close>

definition isRecordVisible :: "TxnID \<Rightarrow> TxnID \<Rightarrow> bool \<Rightarrow> bool" where
  "isRecordVisible recordTxnID readTxnID isActive =
     (if isActive then recordTxnID \<le> readTxnID else True)"

definition visible :: "TxnID set \<Rightarrow> TxnID \<Rightarrow> srec \<Rightarrow> bool" where
  "visible active readTxnID r =
     (let isActive = rTxn r \<in> active
      in isRecordVisible (rTxn r) readTxnID isActive \<and> (\<not> isActive \<or> rTxn r = readTxnID))"

text \<open>The state of the loop of \<open>Read\<close>: latest value, highest slot, its transaction.\<close>

definition read_body ::
  "TxnID set \<Rightarrow> TxnID \<Rightarrow> bytes \<Rightarrow> int \<Rightarrow> nat \<Rightarrow> srec \<Rightarrow> bytes option \<times> int \<times> TxnID \<Rightarrow> bytes option \<times> int \<times> TxnID" where
  "read_body active readTxnID key now i r st =
     (case st of (latestValue, highestSlot, highestTxnID) \<Rightarrow>
        if rKey r = key \<and> visible active readTxnID r
        then if highestSlot < int i \<or> (int i = highestSlot \<and> highestTxnID \<le> rTxn r)
             then (if now < sint (rExp r) then Some (rVal r) else None, int i, rTxn r)
             else st
        else st)"

definition page_Read :: "TxnID set \<Rightarrow> TxnID \<Rightarrow> bytes \<Rightarrow> int \<Rightarrow> bytes \<Rightarrow> bytes result" where
  "page_Read active readTxnID key now d =
     (case slot_loop (read_body active readTxnID key now) (GetSlotCount d) 0 d (None, -1, 0) of
        Inl e \<Rightarrow> Inl e
      | Inr (Some v, _) \<Rightarrow> Inr v
      | Inr (None, _) \<Rightarrow> Inl ErrKeyNotFound)"

record scan_record =
  scTxn :: TxnID
  scSlot :: int
  scVal :: bytes

definition scan_body ::
  "TxnID set \<Rightarrow> TxnID \<Rightarrow> bytes \<Rightarrow> int \<Rightarrow> nat \<Rightarrow> srec \<Rightarrow> (bytes \<times> scan_record) list \<Rightarrow> (bytes \<times> scan_record) list" where
  "scan_body active readTxnID prefix now i r latest =
     (if has_prefix (rKey r) prefix \<and> visible active readTxnID r
      then if (case map_of latest (rKey r) of
                 None \<Rightarrow> True
               | Some existing \<Rightarrow> scSlot existing < int i \<or> (int i = scSlot existing \<and> scTxn existing \<le> rTxn r))
           then if now < sint (rExp r)
                then AList.update (rKey r) \<lparr>scTxn = rTxn r, scSlot = int i, scVal = rVal r\<rparr> latest
                else AList.delete (rKey r) latest
           else latest
      else latest)"

definition scan_latest :: "TxnID set \<Rightarrow> TxnID \<Rightarrow> bytes \<Rightarrow> int \<Rightarrow> bytes \<Rightarrow> (bytes \<times> scan_record) list result" where
  "scan_latest active readTxnID prefix now d =
     slot_loop (scan_body active readTxnID prefix now) (GetSlotCount d) 0 d []"

text \<open>The callback loop at the end of \<open>Scan\<close>: the callback threads a state and stops the
  loop by returning false.\<close>

fun iter_loop :: "('s \<Rightarrow> bytes \<Rightarrow> bytes \<Rightarrow> bool \<times> 's) \<Rightarrow> (bytes \<times> scan_record) list \<Rightarrow> 's \<Rightarrow> 's" where
  "iter_loop iter [] st = st"
| "iter_loop iter ((k, rec) # rest) st =
     (let (more, st') = iter st k (scVal rec) in if more then iter_loop iter rest st' else st')"

definition page_Scan ::
  "((bytes \<times> scan_record) list \<Rightarrow> (bytes \<times> scan_record) list) \<Rightarrow> TxnID set \<Rightarrow> TxnID \<Rightarrow> bytes \<Rightarrow> int \<Rightarrow>
   ('s \<Rightarrow> bytes \<Rightarrow> bytes \<Rightarrow> bool \<times> 's) \<Rightarrow> 's \<Rightarrow> bytes \<Rightarrow> 's result" where
  "page_Scan perm active readTxnID prefix now iter st d =
     (case scan_latest active readTxnID prefix now d of
        Inl e \<Rightarrow> Inl e
      | Inr latest \<Rightarrow> Inr (iter_loop iter (perm latest) st))"

section \<open>Slotted pages as lists of records\<close>

text \<open>
  A well-formed page holds its records in slot order: the directory grows from the header,
  the payloads grow down from the end of the page.
\<close>

abbreviation rsize :: "srec \<Rightarrow> nat" where
  "rsize r \<equiv> length (record_bytes r)"

fun dir :: "nat \<Rightarrow> srec list \<Rightarrow> bytes" where
  "dir u [] = []"
| "dir u (r # rs) = put_le 2 (u - rsize r) @ put_le 2 (rsize r) @ dir (u - rsize r) rs"

fun recs :: "srec list \<Rightarrow> bytes" where
  "recs [] = []"
| "recs (r # rs) = recs rs @ record_bytes r"

definition slotted_rep :: "srec list \<Rightarrow> bytes \<Rightarrow> bool" where
  "slotted_rep rs d \<longleftrightarrow> length d = PageSize \<and> GetSlotCount d = length rs \<and>
     GetLowerBoundary d = PageHeaderSize + 4 * length rs \<and> GetUpperBoundary d = PageSize - length (recs rs) \<and>
     PageHeaderSize + 4 * length rs + length (recs rs) \<le> PageSize \<and>
     has_prefix (drop PageHeaderSize d) (dir PageSize rs) \<and> drop (PageSize - length (recs rs)) d = recs rs"

lemma length_record_bytes: "rsize r = 24 + length (rKey r) + length (rVal r)"
  by (simp add: record_bytes_def)

lemma length_dir [simp]: "length (dir u rs) = 4 * length rs"
  by (induction rs arbitrary: u) simp_all

lemma recs_append [simp]: "recs (xs @ ys) = recs ys @ recs xs"
  by (induction xs) simp_all

lemma dir_append: "dir u (xs @ ys) = dir u xs @ dir (u - length (recs xs)) ys"
  by (induction xs arbitrary: u) (simp_all add: diff_diff_add add.commute)

lemma record_size_eq: "rsize r < 2 ^ 32 \<Longrightarrow> record_size r = rsize r"
  by (simp add: record_size_def length_record_bytes RecordHeaderSize_def)

lemma slot_header_append [simp]:
  assumes "length h = PageHeaderSize"
  shows "GetSlotCount (h @ r) = GetSlotCount h" "GetLowerBoundary (h @ r) = GetLowerBoundary h"
    "GetUpperBoundary (h @ r) = GetUpperBoundary h"
    "SetSlotCount c (h @ r) = SetSlotCount c h @ r" "SetLowerBoundary c (h @ r) = SetLowerBoundary c h @ r"
    "SetUpperBoundary c (h @ r) = SetUpperBoundary c h @ r"
  using assms by (simp_all add: slotted_header_defs PageHeaderSize_def rd_le_prefix wr_le_prefix)

lemma slot_header_set [simp]:
  assumes "length h = PageHeaderSize"
  shows "length (SetSlotCount c h) = PageHeaderSize" "length (SetLowerBoundary c h) = PageHeaderSize"
    "length (SetUpperBoundary c h) = PageHeaderSize"
    "GetSlotCount (SetSlotCount c h) = u32 c" "GetSlotCount (SetLowerBoundary c h) = GetSlotCount h"
    "GetSlotCount (SetUpperBoundary c h) = GetSlotCount h"
    "GetLowerBoundary (SetLowerBoundary c h) = u32 c" "GetLowerBoundary (SetSlotCount c h) = GetLowerBoundary h"
    "GetLowerBoundary (SetUpperBoundary c h) = GetLowerBoundary h"
    "GetUpperBoundary (SetUpperBoundary c h) = u32 c" "GetUpperBoundary (SetSlotCount c h) = GetUpperBoundary h"
    "GetUpperBoundary (SetLowerBoundary c h) = GetUpperBoundary h"
  using assms
  by (simp_all add: slotted_header_defs PageHeaderSize_def rd_wr_le_before rd_wr_le_after u32_def)

lemma slotted_repI:
  assumes "d = h @ dir PageSize rs @ f @ recs rs" "length h = PageHeaderSize" "length d = PageSize"
    "GetSlotCount h = length rs" "GetLowerBoundary h = PageHeaderSize + 4 * length rs"
    "GetUpperBoundary h = PageSize - length (recs rs)"
  shows "slotted_rep rs d"
proof -
  have l: "length (h @ dir PageSize rs @ f) = PageSize - length (recs rs)" using assms(1,3) by simp
  have "drop (PageSize - length (recs rs)) ((h @ dir PageSize rs @ f) @ recs rs) = recs rs"
    unfolding l [symmetric] by simp
  with assms show ?thesis by (simp add: slotted_rep_def)
qed

lemma slotted_repE:
  assumes *: "slotted_rep rs d"
  obtains h f where "d = h @ dir PageSize rs @ f @ recs rs" "length h = PageHeaderSize" "length d = PageSize"
    "GetSlotCount h = length rs" "GetLowerBoundary h = PageHeaderSize + 4 * length rs"
    "GetUpperBoundary h = PageSize - length (recs rs)"
    "PageHeaderSize + 4 * length rs + length f + length (recs rs) = PageSize"
proof -
  let ?u = "PageSize - length (recs rs)" let ?l = "PageHeaderSize + 4 * length rs"
  define h f where "h = take PageHeaderSize d" and "f = slice d ?l ?u"
  have len: "length d = PageSize" and b: "?l + length (recs rs) \<le> PageSize" using * by (simp_all add: slotted_rep_def)
  have hl: "length h = PageHeaderSize" using len by (simp add: h_def layout_defs)
  have dir: "slice d PageHeaderSize ?l = dir PageSize rs"
    using * by (simp add: slotted_rep_def has_prefix_def slice_def)
  have "d = h @ drop PageHeaderSize d" by (simp add: h_def)
  also have "drop PageHeaderSize d = slice d PageHeaderSize ?l @ drop ?l d"
    by (simp add: slice_def) (metis add.commute append_take_drop_id drop_drop)
  also have "drop ?l d = f @ drop ?u d"
  proof -
    have "?l \<le> ?u" using b by simp
    then show ?thesis unfolding f_def slice_def by (metis append_take_drop_id drop_drop le_add_diff_inverse2)
  qed
  also have "drop ?u d = recs rs" using * by (simp add: slotted_rep_def)
  finally have d: "d = h @ dir PageSize rs @ f @ recs rs" by (simp add: dir)
  have fl: "?l + length f + length (recs rs) = PageSize"
    using d len hl by (metis length_append length_dir add.assoc)
  have "GetSlotCount h = length rs" "GetLowerBoundary h = ?l" "GetUpperBoundary h = ?u"
    using * slot_header_append(1-3) [OF hl, of "dir PageSize rs @ f @ recs rs"] d by (simp_all add: slotted_rep_def)
  then show thesis using that d hl len fl by blast
qed

subsection \<open>Decoding\<close>

lemma decode_record_append:
  assumes d: "d = p @ record_bytes r @ q" and off: "length p = off" and len: "length d = PageSize"
  shows "decode_record d \<lparr>slOffset = off, slLength = rsize r\<rparr> = Inr r"
proof -
  let ?T = "put_le 8 (unat (rTxn r))" and ?E = "put_le 8 (unat (rExp r))"
    and ?K = "put_le 4 (length (rKey r))" and ?V = "put_le 4 (length (rVal r))"
  have dd: "d = p @ ?T @ ?E @ ?K @ ?V @ rKey r @ rVal r @ q" by (simp add: d record_bytes_def)
  have b: "off + 24 + length (rKey r) + length (rVal r) \<le> PageSize" using dd off len by simp
  have T: "(word_of_nat (rd_le 8 d off) :: TxnID) = rTxn r"
    using rd_le_append [of p off ?T 8 "?E @ ?K @ ?V @ rKey r @ rVal r @ q"] off dd
    by (simp only: dd append_assoc length_put_le get_put_le word64_of_unat_mod)
  have E: "(word_of_nat (rd_le 8 d (off + 8)) :: 64 word) = rExp r"
    using rd_le_append [of "p @ ?T" "off + 8" ?E 8 "?K @ ?V @ rKey r @ rVal r @ q"] off
    by (simp only: dd append_assoc length_append length_put_le get_put_le word64_of_unat_mod)
  have K: "rd_le 4 d (off + 16) = length (rKey r)"
    using rd_le_append [of "p @ ?T @ ?E" "off + 16" ?K 4 "?V @ rKey r @ rVal r @ q"] off b by (simp add: dd PageSize_def)
  have V: "rd_le 4 d (off + 20) = length (rVal r)"
    using rd_le_append [of "p @ ?T @ ?E @ ?K" "off + 20" ?V 4 "rKey r @ rVal r @ q"] off b by (simp add: dd PageSize_def)
  have k: "slice d (off + 24) (off + (24 + length (rKey r))) = rKey r"
    using slice_append [of "p @ ?T @ ?E @ ?K @ ?V" "off + 24" "off + (24 + length (rKey r))" "rKey r" "rVal r @ q"] off by (simp add: dd)
  have v: "slice d (off + (24 + length (rKey r))) (off + (24 + length (rKey r) + length (rVal r))) = rVal r"
    using slice_append [of "p @ ?T @ ?E @ ?K @ ?V @ rKey r" "off + (24 + length (rKey r))"
        "off + (24 + length (rKey r) + length (rVal r))" "rVal r" q] off by (simp add: dd)
  have u: "u16 (off + rsize r) = off + rsize r" "u32 (24 + length (rKey r)) = 24 + length (rKey r)"
    "u32 (24 + length (rKey r) + length (rVal r)) = 24 + length (rKey r) + length (rVal r)"
    using b by (simp_all add: PageSize_def length_record_bytes)
  show ?thesis
    using b by (simp add: decode_record_def Let_def u T E K V k v RecordHeaderSize_def)
      (simp add: length_record_bytes, linarith)
qed

lemma slot_record_rep:
  assumes "slotted_rep (xs @ r # ys) d"
  shows "slot_record d (length xs) = Inr (Some r)"
proof -
  let ?rs = "xs @ r # ys" let ?off = "PageSize - length (recs xs) - rsize r"
  from assms obtain h f where d: "d = h @ dir PageSize ?rs @ f @ recs ?rs" and h: "length h = PageHeaderSize"
    and len: "length d = PageSize" and n: "GetSlotCount h = length ?rs"
    and b: "PageHeaderSize + 4 * length ?rs + length f + length (recs ?rs) = PageSize"
    by (rule slotted_repE)
  have small: "length xs < 8192" "rsize r < 65536" "?off < 65536" using b by (simp_all add: layout_defs)
  let ?so = "PageHeaderSize + length xs * 4"
  let ?rest = "dir ?off ys @ f @ recs ?rs"
  have dd: "d = (h @ dir PageSize xs) @ put_le 2 ?off @ put_le 2 (rsize r) @ ?rest"
    by (simp add: d dir_append)
  have off: "rd_le 2 d ?so = ?off"
    using rd_le_append [of "h @ dir PageSize xs" ?so "put_le 2 ?off" 2 "put_le 2 (rsize r) @ ?rest"] h small
    unfolding dd [symmetric] by simp
  have lenr: "rd_le 2 d (?so + 2) = rsize r"
    using rd_le_append [of "h @ dir PageSize xs @ put_le 2 ?off" "?so + 2" "put_le 2 (rsize r)" 2 ?rest] h small
      dd by simp
  have u: "u32 ?so = ?so" using small by (simp add: PageHeaderSize_def)
  have slot: "GetSlot (length xs) d = Inr \<lparr>slOffset = ?off, slLength = rsize r\<rparr>"
    using n h small len unfolding GetSlot_def Let_def u off lenr by (simp add: d layout_defs)
  have dr: "d = (h @ dir PageSize ?rs @ f @ recs ys) @ record_bytes r @ recs xs" by (simp add: d)
  have "length (h @ dir PageSize ?rs @ f @ recs ys) = ?off" using b h by simp
  from decode_record_append [OF dr this len] slot show ?thesis
    by (simp add: slot_record_def length_record_bytes)
qed

lemma slot_loop_rep:
  "slotted_rep (xs @ ys) d \<Longrightarrow>
   slot_loop body (length ys) (length xs) d st = Inr (foldl (\<lambda>st (i, r). body i r st) st (enumerate (length xs) ys))"
proof (induction ys arbitrary: xs st)
  case (Cons y ys)
  have "slot_record d (length xs) = Inr (Some y)" using Cons.prems by (rule slot_record_rep)
  moreover have "slotted_rep ((xs @ [y]) @ ys) d" using Cons.prems by simp
  note Cons.IH [OF this, of "body (length xs) y st"]
  ultimately show ?case by simp
qed simp

lemma slot_loop_all:
  "slotted_rep rs d \<Longrightarrow>
   slot_loop body (GetSlotCount d) 0 d st = Inr (foldl (\<lambda>st (i, r). body i r st) st (enumerate 0 rs))"
  using slot_loop_rep [of "[]" rs d body st] by (simp add: slotted_rep_def)

subsection \<open>Adding a record\<close>

lemma u32_sub: "b \<le> a \<Longrightarrow> a < 2 ^ 32 \<Longrightarrow> u32 (a + 2 ^ 32 - b) = a - b"
proof -
  assume "b \<le> a" "a < 2 ^ 32"
  then have "a + 2 ^ 32 - b = (a - b) + 2 ^ 32" by simp
  then show ?thesis using \<open>a < 2 ^ 32\<close> by (simp only: u32_def mod_add_self2) (simp add: less_imp_diff_less)
qed

text \<open>The layout without the slot count, which \<open>repack\<close> sets only at the end.\<close>

definition packed_rep :: "srec list \<Rightarrow> bytes \<Rightarrow> bytes \<Rightarrow> bytes \<Rightarrow> bool" where
  "packed_rep rs h f d \<longleftrightarrow> d = h @ dir PageSize rs @ f @ recs rs \<and> length h = PageHeaderSize \<and> length d = PageSize \<and>
     GetLowerBoundary h = PageHeaderSize + 4 * length rs \<and> GetUpperBoundary h = PageSize - length (recs rs)"

lemma store_and_register:
  assumes rep: "packed_rep rs h f d" and room: "4 + rsize r \<le> length f"
  shows "\<exists>d1 d2 h' f'. store_record r d = Inr (PageSize - length (recs rs) - rsize r, d1) \<and>
     GetSlotCount d1 = GetSlotCount h \<and>
     register_slot (length rs) (PageSize - length (recs rs) - rsize r) (record_size r) d1 = Inr d2 \<and>
     packed_rep (rs @ [r]) h' f' d2 \<and> GetSlotCount h' = GetSlotCount h \<and> length f' + 4 + rsize r = length f"
proof -
  from rep have d: "d = h @ dir PageSize rs @ f @ recs rs" and h: "length h = PageHeaderSize"
    and len: "length d = PageSize" and up: "GetUpperBoundary h = PageSize - length (recs rs)"
    unfolding packed_rep_def by blast+
  let ?u = "PageSize - length (recs rs)" let ?no = "?u - rsize r"
  have b: "PageHeaderSize + 4 * length rs + length f + length (recs rs) = PageSize" using d h len by simp
  define f0 f1 f2 where "f0 = take 4 f" and "f1 = take (length f - rsize r - 4) (drop 4 f)" and "f2 = drop (length f - rsize r) f"
  have f: "f = f0 @ f1 @ f2" "length f0 = 4" "length f2 = rsize r" "length f1 + 4 + rsize r = length f"
  proof -
    have "drop 4 f = f1 @ drop (length f - rsize r - 4) (drop 4 f)"
      unfolding f1_def by (simp only: append_take_drop_id)
    also have "drop (length f - rsize r - 4) (drop 4 f) = f2" using room by (simp add: f2_def)
    finally show "f = f0 @ f1 @ f2" by (metis append_take_drop_id f0_def)
  qed (use room in \<open>simp_all add: f0_def f1_def f2_def\<close>)
  have rs: "record_size r = rsize r" using b room by (intro record_size_eq) (simp add: PageSize_def)
  have no: "u32 (?u + 2 ^ 32 - rsize r) = ?no" using b room by (intro u32_sub) (simp_all add: PageSize_def)
  have bl: "blit d ?no (record_bytes r) = (h @ dir PageSize rs) @ f0 @ f1 @ record_bytes r @ recs rs"
  proof -
    have "length (h @ dir PageSize rs @ f0 @ f1) = ?no"
      unfolding length_append length_dir h f(2) using b f(4) by linarith
    from blit_append [OF this f(3) [symmetric]] show ?thesis
      unfolding d f(1) by (simp only: append_assoc)
  qed
  have store: "store_record r d = Inr (?no, (h @ dir PageSize rs) @ f0 @ f1 @ record_bytes r @ recs rs)"
  proof -
    have "GetUpperBoundary d = ?u" using up h by (simp add: d)
    moreover have "\<not> ?u < ?no" "\<not> PageSize < ?u" "\<not> 2 ^ 32 \<le> rsize r" using b room by (simp_all add: PageSize_def)
    ultimately show ?thesis by (simp only: store_record_def Let_def rs no bl if_False HOL.simp_thms)
  qed
  let ?so = "PageHeaderSize + length rs * 4" let ?slot = "put_le 2 ?no @ put_le 2 (rsize r)"
  have small: "length rs < 8192" "rsize r < 65536" "?no < 65536" using b room by (simp_all add: layout_defs)
  define g0 g1 where "g0 = take 2 f0" and "g1 = drop 2 f0"
  have g: "f0 = g0 @ g1" "length g0 = 2" "length g1 = 2" using f(2) by (simp_all add: g0_def g1_def)
  have w1: "wr_le 2 ((h @ dir PageSize rs) @ f0 @ f1 @ record_bytes r @ recs rs) ?so ?no =
      (h @ dir PageSize rs @ put_le 2 ?no) @ g1 @ f1 @ record_bytes r @ recs rs"
    using blit_append [of "h @ dir PageSize rs" ?so "put_le 2 ?no" g0 "g1 @ f1 @ record_bytes r @ recs rs"] h g
    by (simp add: wr_le_def)
  have w2: "wr_le 2 ((h @ dir PageSize rs @ put_le 2 ?no) @ g1 @ f1 @ record_bytes r @ recs rs) (?so + 2) (rsize r) =
      h @ (dir PageSize rs @ ?slot) @ f1 @ record_bytes r @ recs rs"
    using blit_append [of "h @ dir PageSize rs @ put_le 2 ?no" "?so + 2" "put_le 2 (rsize r)" g1 "f1 @ record_bytes r @ recs rs"] h g
    by (simp add: wr_le_def)
  have u: "u32 ?so = ?so" "u16 ?no = ?no" "u16 (rsize r) = rsize r" using small by (simp_all add: PageHeaderSize_def)
  have "length ((h @ dir PageSize rs) @ f0 @ f1 @ record_bytes r @ recs rs) = PageSize"
    unfolding length_append length_dir h f(2) using b f(4) by linarith
  then have ws: "WriteSlot (length rs) \<lparr>slOffset = u16 ?no, slLength = u16 (rsize r)\<rparr>
      ((h @ dir PageSize rs) @ f0 @ f1 @ record_bytes r @ recs rs) = Inr (h @ (dir PageSize rs @ ?slot) @ f1 @ record_bytes r @ recs rs)"
    unfolding WriteSlot_def Let_def u slot.select_convs w1 w2 using small h f(2) by (simp add: layout_defs)
  have dir': "dir PageSize rs @ ?slot = dir PageSize (rs @ [r])" by (simp add: dir_append)
  let ?h' = "SetUpperBoundary ?no (SetLowerBoundary (PageHeaderSize + (length rs + 1) * 4) h)"
  have reg: "register_slot (length rs) ?no (record_size r) ((h @ dir PageSize rs) @ f0 @ f1 @ record_bytes r @ recs rs) =
      Inr (?h' @ dir PageSize (rs @ [r]) @ f1 @ record_bytes r @ recs rs)"
    unfolding register_slot_def rs ws dir' using h by simp
  have "packed_rep (rs @ [r]) ?h' f1 (?h' @ dir PageSize (rs @ [r]) @ f1 @ record_bytes r @ recs rs)"
  proof -
    have "length (?h' @ dir PageSize (rs @ [r]) @ f1 @ record_bytes r @ recs rs) = PageSize"
      using h b f(4) by simp
    moreover have "u32 ?no = ?no" "u32 (PageHeaderSize + (length rs + 1) * 4) = PageHeaderSize + (length rs + 1) * 4"
      using small by (simp_all add: layout_defs)
    ultimately show ?thesis using h by (simp add: packed_rep_def)
  qed
  moreover have "GetSlotCount ((h @ dir PageSize rs) @ f0 @ f1 @ record_bytes r @ recs rs) = GetSlotCount h"
    "GetSlotCount ?h' = GetSlotCount h"
    using h by simp_all
  ultimately show ?thesis using store reg f(4) by blast
qed

lemma slotted_packed:
  "slotted_rep rs d \<longleftrightarrow> (\<exists>h f. packed_rep rs h f d \<and> GetSlotCount h = length rs)"
proof
  assume "slotted_rep rs d"
  then show "\<exists>h f. packed_rep rs h f d \<and> GetSlotCount h = length rs"
    by (rule slotted_repE) (auto simp: packed_rep_def)
next
  assume "\<exists>h f. packed_rep rs h f d \<and> GetSlotCount h = length rs"
  then show "slotted_rep rs d"
    unfolding packed_rep_def by (elim exE conjE) (rule slotted_repI)
qed

lemma packed_free: "packed_rep rs h f d \<Longrightarrow> PageHeaderSize + 4 * length rs + length f + length (recs rs) = PageSize"
  by (auto simp: packed_rep_def)

lemma append_record_rep:
  assumes "slotted_rep rs d" "PageHeaderSize + 4 * length rs + 4 + length (recs rs) + rsize r \<le> PageSize"
  shows "\<exists>d'. append_record r d = Inr d' \<and> slotted_rep (rs @ [r]) d'"
proof -
  from assms(1) obtain h f where rep: "packed_rep rs h f d" and n: "GetSlotCount h = length rs"
    unfolding slotted_packed by blast
  have "4 + rsize r \<le> length f" using packed_free [OF rep] assms(2) by simp
  from store_and_register [OF rep this] obtain d1 d2 h' f' where
    1: "store_record r d = Inr (PageSize - length (recs rs) - rsize r, d1)" "GetSlotCount d1 = GetSlotCount h"
      "register_slot (length rs) (PageSize - length (recs rs) - rsize r) (record_size r) d1 = Inr d2"
    and 2: "packed_rep (rs @ [r]) h' f' d2"
    by blast
  have small: "length rs < 8192" using assms(2) by (simp add: layout_defs)
  have "append_record r d = Inr (SetSlotCount (u32 (length rs + 1)) d2)"
    using 1 n by (simp add: append_record_def Let_def)
  moreover have "packed_rep (rs @ [r]) (SetSlotCount (u32 (length rs + 1)) h') f' (SetSlotCount (u32 (length rs + 1)) d2)"
    using 2 by (auto simp: packed_rep_def)
  moreover have "GetSlotCount (SetSlotCount (u32 (length rs + 1)) h') = length (rs @ [r])"
    using 2 small by (simp add: packed_rep_def)
  ultimately show ?thesis unfolding slotted_packed by blast
qed

lemma Init_rep:
  assumes len: "length d = PageSize"
  shows "slotted_rep [] (Init d)" and "\<exists>h f. packed_rep [] h f (Init d)"
proof -
  define h b where "h = take 32 d" and "b = drop 32 d"
  have d: "d = h @ b" and h: "length h = 32" and b: "length b = PageSize - 32"
    using len by (simp_all add: h_def b_def PageSize_def)
  let ?h = "SetNextPageID 0 (SetUpperBoundary PageSize (SetLowerBoundary PageHeaderSize
      (SetSlotCount 0 (SetPageType32 0 (SetChecksum 0 h)))))"
  have l: "length ?h = 32" using h by (simp add: slotted_header_defs)
  have "SetNextPageID 0 (SetUpperBoundary PageSize (SetLowerBoundary PageHeaderSize
      (SetSlotCount 0 (SetPageType32 0 (SetChecksum 0 (h @ b)))))) = ?h @ b"
    using h by (simp add: slotted_header_defs wr_le_prefix)
  then have "Init d = zero_range (?h @ b) 32 PageSize"
    by (simp add: Init_def Let_def d PageHeaderSize_def)
  also have "\<dots> = ?h @ replicate (PageSize - 32) 0"
    using l b by (simp add: zero_range_def blit_def PageSize_def)
  finally have i: "Init d = ?h @ replicate (PageSize - 32) 0" .
  have g: "GetSlotCount ?h = 0" "GetLowerBoundary ?h = 32" "GetUpperBoundary ?h = PageSize"
    using h by (simp_all add: slotted_header_defs rd_wr_le_before rd_wr_le_after layout_defs)
  have "packed_rep [] ?h (replicate (PageSize - 32) 0) (Init d)"
    unfolding i packed_rep_def using l g by (simp add: layout_defs)
  then show "\<exists>h f. packed_rep [] h f (Init d)" "slotted_rep [] (Init d)"
    using g(1) unfolding slotted_packed by auto
qed

lemma length_recs: "length (recs rs) = sum_list (map rsize rs)"
  by (induction rs) simp_all

text \<open>Repacking lays the records out in the given order.\<close>

lemma repack_rep:
  "packed_rep rs h f d \<Longrightarrow> 4 * length xs + length (recs xs) \<le> length f \<Longrightarrow>
   \<exists>d' h' f'. repack (length rs) xs d = Inr (length (rs @ xs), d') \<and> packed_rep (rs @ xs) h' f' d'"
proof (induction xs arbitrary: rs h f d)
  case (Cons x xs)
  have "4 + rsize x \<le> length f" using Cons.prems(2) by simp
  from store_and_register [OF Cons.prems(1) this] obtain d1 d2 h' f' where
    1: "store_record x d = Inr (PageSize - length (recs rs) - rsize x, d1)"
      "register_slot (length rs) (PageSize - length (recs rs) - rsize x) (record_size x) d1 = Inr d2"
    and 2: "packed_rep (rs @ [x]) h' f' d2" "length f' + 4 + rsize x = length f"
    by blast
  have "4 * length xs + length (recs xs) \<le> length f'" using 2(2) Cons.prems(2) by simp
  from Cons.IH [OF 2(1) this] 1 show ?case by auto
qed auto

section \<open>Compaction\<close>

text \<open>What compaction keeps, as an association list by key.\<close>

definition survivors :: "int \<Rightarrow> srec list \<Rightarrow> (bytes \<times> srec) list" where
  "survivors now rs = foldl (\<lambda>l r. compact_body now 0 r l) [] rs"

lemma foldl_enumerate:
  assumes "\<And>i j r st. body i r st = body j r st"
  shows "foldl (\<lambda>st (i, r). body i r st) st (enumerate n rs) = foldl (\<lambda>st r. body (0::nat) r st) st rs"
  using assms by (induction rs arbitrary: st n) (simp_all, metis)

text \<open>Every survivor is a record of the page, stored under its own key, and no two share a
  slot of the page, so the survivors need no more space than the page had.\<close>

lemma sum_map_update:
  "distinct (map fst l) \<Longrightarrow>
   sum_list (map (\<lambda>(k, r). c r) (AList.update k x l)) \<le> sum_list (map (\<lambda>(k, r). c r) l) + (c x :: nat)"
  by (induction l) auto

lemma length_update_le: "length (AList.update k x l) \<le> Suc (length l)"
  by (induction l) auto

lemma survivors_gen:
  "distinct (map fst l) \<Longrightarrow> (\<forall>(k, r)\<in>set l. rKey r = k) \<Longrightarrow>
   (let l' = foldl (\<lambda>l r. compact_body now 0 r l) l rs
    in distinct (map fst l') \<and> (\<forall>(k, r)\<in>set l'. rKey r = k) \<and> length l' \<le> length l + length rs \<and>
       sum_list (map (\<lambda>(k, r). rsize r) l') \<le> sum_list (map (\<lambda>(k, r). rsize r) l) + length (recs rs))"
proof (induction rs arbitrary: l)
  case (Cons r rs)
  let ?l = "compact_body now 0 r l"
  have 1: "distinct (map fst ?l)" using Cons.prems(1) by (simp add: compact_body_def AList.distinct_update)
  have "set (AList.update (rKey r) r l) \<subseteq> insert (rKey r, r) (set l)" by (induction l) auto
  then have 2: "\<forall>(k, r)\<in>set ?l. rKey r = k" using Cons.prems(2) by (auto simp: compact_body_def)
  have 3: "length ?l \<le> Suc (length l)"
    by (simp add: compact_body_def length_update_le le_SucI)
  have 4: "sum_list (map (\<lambda>(k, r). rsize r) ?l) \<le> sum_list (map (\<lambda>(k, r). rsize r) l) + rsize r"
    using sum_map_update [OF Cons.prems(1), of rsize "rKey r" r] by (simp add: compact_body_def)
  show ?case using Cons.IH [OF 1 2] 3 4 by (auto simp: Let_def)
qed simp

lemma survivors_props:
  shows "distinct (map fst (survivors now rs))" "\<forall>(k, r)\<in>set (survivors now rs). rKey r = k"
    "length (survivors now rs) \<le> length rs"
    "length (recs (map snd (survivors now rs))) \<le> length (recs rs)"
  using survivors_gen [of "[]" now rs]
  by (auto simp: Let_def survivors_def length_recs comp_def case_prod_unfold)

lemma compactPage_rep:
  assumes rep: "slotted_rep rs d" and perm: "mset (perm (survivors now rs)) = mset (survivors now rs)"
  shows "\<exists>d'. compactPage perm now d = Inr d' \<and> slotted_rep (map snd (perm (survivors now rs))) d'"
proof -
  let ?ss = "map snd (perm (survivors now rs))"
  have len: "length d = PageSize" and b: "PageHeaderSize + 4 * length rs + length (recs rs) \<le> PageSize"
    using rep by (simp_all add: slotted_rep_def)
  have loop: "slot_loop (compact_body now) (GetSlotCount d) 0 d [] = Inr (survivors now rs)"
    unfolding survivors_def slot_loop_all [OF rep]
    by (subst foldl_enumerate) (simp_all add: compact_body_def)
  have ms: "mset ?ss = mset (map snd (survivors now rs))" using perm by simp
  then have "length ?ss = length (survivors now rs)" by (metis length_map mset_eq_length)
  moreover have "length (recs ?ss) = length (recs (map snd (survivors now rs)))"
    unfolding length_recs sum_mset_sum_list [symmetric] mset_map perm ..
  ultimately have room: "PageHeaderSize + 4 * length ?ss + length (recs ?ss) \<le> PageSize"
    using survivors_props(3,4) [of now rs] b by simp
  obtain h f where i: "packed_rep [] h f (Init d)" using Init_rep(2) [OF len] by blast
  have "4 * length ?ss + length (recs ?ss) \<le> length f"
    using packed_free [OF i] room by simp
  from repack_rep [OF i this] obtain d' h' f' where
    1: "repack 0 ?ss (Init d) = Inr (length ?ss, d')" and 2: "packed_rep ?ss h' f' d'"
    by auto
  have "compactPage perm now d = Inr (SetSlotCount (length ?ss) d')"
    by (simp add: compactPage_def loop 1)
  moreover have "packed_rep ?ss (SetSlotCount (length ?ss) h') f' (SetSlotCount (length ?ss) d')"
    using 2 by (auto simp: packed_rep_def)
  moreover have "GetSlotCount (SetSlotCount (length ?ss) h') = length ?ss"
    using 2 room by (simp add: packed_rep_def PageSize_def)
  ultimately show ?thesis unfolding slotted_packed by blast
qed

section \<open>Reads and writes on the record list\<close>

definition read_spec :: "TxnID set \<Rightarrow> TxnID \<Rightarrow> bytes \<Rightarrow> int \<Rightarrow> srec list \<Rightarrow> bytes option" where
  "read_spec active t key now rs =
     (let vs = filter (\<lambda>r. rKey r = key \<and> visible active t r) rs
      in if vs = [] then None else if now < sint (rExp (last vs)) then Some (rVal (last vs)) else None)"

lemma read_spec_snoc:
  "read_spec active t key now (rs @ [r]) =
     (if rKey r = key \<and> visible active t r then if now < sint (rExp r) then Some (rVal r) else None
      else read_spec active t key now rs)"
  by (simp add: read_spec_def)

lemma read_fold:
  "\<exists>hs ht. foldl (\<lambda>st (i, r). read_body active t key now i r st) (None, -1, 0) (enumerate 0 rs) =
     (read_spec active t key now rs, hs, ht) \<and> hs < int (length rs)"
proof (induction rs rule: rev_induct)
  case (snoc r rs)
  then obtain hs ht where "foldl (\<lambda>st (i, r). read_body active t key now i r st) (None, -1, 0) (enumerate 0 rs) =
     (read_spec active t key now rs, hs, ht)" "hs < int (length rs)" by blast
  then show ?case
    by (auto simp: enumerate_append_eq read_spec_snoc read_body_def)
qed (simp add: read_spec_def)

lemma page_Read_rep:
  assumes "slotted_rep rs d"
  shows "page_Read active t key now d =
    (case read_spec active t key now rs of Some v \<Rightarrow> Inr v | None \<Rightarrow> Inl ErrKeyNotFound)"
  using read_fold [of active t key now rs]
  by (auto simp: page_Read_def slot_loop_all [OF assms] split: option.splits)

abbreviation fits :: "srec list \<Rightarrow> srec \<Rightarrow> bool" where
  "fits rs r \<equiv> PageHeaderSize + 4 * length rs + 4 + length (recs rs) + rsize r \<le> PageSize"

lemma safe_slotted:
  assumes "slotted_rep rs d" "rsize r < 2 ^ 31"
  shows "IsSafeForInsert (record_size r) d \<longleftrightarrow> fits rs r"
proof -
  have b: "PageHeaderSize + 4 * length rs + length (recs rs) \<le> PageSize" using assms(1) by (simp add: slotted_rep_def)
  have "record_size r = rsize r" using assms(2) by (intro record_size_eq) simp
  moreover have "u32 (PageHeaderSize + 4 * length rs + 4 + rsize r) = PageHeaderSize + 4 * length rs + 4 + rsize r"
    using b assms(2) by (intro u32_id) (simp add: PageSize_def)
  ultimately show ?thesis
    using assms(1) b by (auto simp: IsSafeForInsert_def slotted_rep_def)
qed

text \<open>The end of both writes, behind the compaction.\<close>

lemma write_tail:
  assumes rep: "slotted_rep rs d" and small: "rsize r < 2 ^ 31" and fit: "fits rs r"
  shows "\<exists>d'. append_record r d = Inr d' \<and> slotted_rep (rs @ [r]) d' \<and>
    \<not> (u32 (GetUpperBoundary d + 2 ^ 32 - record_size r) < GetLowerBoundary d \<or>
       32768 < u32 (GetUpperBoundary d + 2 ^ 32 - record_size r))"
proof -
  have s: "record_size r = rsize r" using small by (intro record_size_eq) simp
  have g: "GetUpperBoundary d = PageSize - length (recs rs)" "GetLowerBoundary d = PageHeaderSize + 4 * length rs"
    using rep by (simp_all add: slotted_rep_def)
  have "u32 (PageSize - length (recs rs) + 2 ^ 32 - rsize r) = PageSize - length (recs rs) - rsize r"
    using fit by (intro u32_sub) (simp_all add: PageSize_def)
  then have "\<not> (u32 (GetUpperBoundary d + 2 ^ 32 - record_size r) < GetLowerBoundary d \<or>
       32768 < u32 (GetUpperBoundary d + 2 ^ 32 - record_size r))"
    unfolding s g using fit by (simp add: PageSize_def) linarith
  with append_record_rep [OF rep, of r] fit show ?thesis by auto
qed

definition after_compaction :: "((bytes \<times> srec) list \<Rightarrow> (bytes \<times> srec) list) \<Rightarrow> int \<Rightarrow> srec list \<Rightarrow> srec \<Rightarrow> srec list" where
  "after_compaction perm now rs r = (if fits rs r then rs else map snd (perm (survivors now rs)))"

lemma write_rep:
  assumes rep: "slotted_rep rs d" and small: "rsize r < 2 ^ 31"
    and perm: "mset (perm (survivors now rs)) = mset (survivors now rs)"
  shows "\<exists>d1. (if IsSafeForInsert (record_size r) d then Inr d else compactPage perm now d) = Inr d1 \<and>
    slotted_rep (after_compaction perm now rs r) d1"
  using safe_slotted [OF rep small] compactPage_rep [where perm = perm and now = now, OF rep perm] rep by (simp add: after_compaction_def)

lemma page_Write_rep:
  assumes rep: "slotted_rep rs d" and small: "rsize r < 2 ^ 31"
    and perm: "mset (perm (survivors now rs)) = mset (survivors now rs)"
  defines "rs' \<equiv> after_compaction perm now rs r"
  shows "\<exists>d'. (page_Write perm now r d = (if fits rs' r then None else Some ErrOverflow, d') \<and>
              page_restoreWrite perm now r d = (if fits rs' r then None else Some ErrOverflow, d')) \<and>
            slotted_rep (if fits rs' r then rs' @ [r] else rs') d'"
proof -
  have up: "\<not> (GetUpperBoundary d = 0 \<or> 32768 < GetUpperBoundary d)"
    using rep by (auto simp: slotted_rep_def layout_defs)
  from write_rep [where perm = perm and now = now, OF rep small perm] obtain d1 where
    1: "(if IsSafeForInsert (record_size r) d then Inr d else compactPage perm now d) = Inr d1"
    and 2: "slotted_rep rs' d1"
    unfolding rs'_def by blast
  show ?thesis
  proof (cases "fits rs' r")
    case True
    from write_tail [OF 2 small True] obtain d' where
      3: "append_record r d1 = Inr d'" "slotted_rep (rs' @ [r]) d'"
      and 4: "\<not> (u32 (GetUpperBoundary d1 + 2 ^ 32 - record_size r) < GetLowerBoundary d1 \<or>
       32768 < u32 (GetUpperBoundary d1 + 2 ^ 32 - record_size r))"
      by blast
    have s: "IsSafeForInsert (record_size r) d1" using safe_slotted [OF 2 small] True by simp
    have "page_Write perm now r d = (None, d')" "page_restoreWrite perm now r d = (None, d')"
      unfolding page_Write_def page_restoreWrite_def Let_def if_not_P [OF up] 1 sum.case if_not_P [OF 4] 3(1) using s by simp_all
    with 3(2) True show ?thesis by simp
  next
    case False
    then have s: "\<not> IsSafeForInsert (record_size r) d1" using safe_slotted [OF 2 small] by simp
    have "page_Write perm now r d = (Some ErrOverflow, d1)" "page_restoreWrite perm now r d = (Some ErrOverflow, d1)"
      unfolding page_Write_def page_restoreWrite_def Let_def if_not_P [OF up] 1 sum.case using s by simp_all
    with 2 False show ?thesis by simp
  qed
qed

subsection \<open>When compaction is invisible\<close>

text \<open>Versions of a key in slot order carry growing transaction ids and none is expired.\<close>

definition versions_ordered :: "int \<Rightarrow> srec list \<Rightarrow> bool" where
  "versions_ordered now rs \<longleftrightarrow>
     sorted_wrt (\<lambda>a b. rKey a = rKey b \<longrightarrow> rTxn a < rTxn b) rs \<and> (\<forall>r\<in>set rs. now < sint (rExp r))"

definition last_version :: "bytes \<Rightarrow> srec list \<Rightarrow> srec option" where
  "last_version k rs = (let vs = filter (\<lambda>r. rKey r = k) rs in if vs = [] then None else Some (last vs))"

lemma last_version_snoc: "last_version k (rs @ [r]) = (if rKey r = k then Some r else last_version k rs)"
  by (simp add: last_version_def)

lemma last_version_mem: "last_version k rs = Some r \<Longrightarrow> r \<in> set rs \<and> rKey r = k"
  using last_in_set [of "filter (\<lambda>r. rKey r = k) rs"] by (auto simp: last_version_def Let_def split: if_splits)

lemma survivors_last:
  "versions_ordered now rs \<Longrightarrow> map_of (survivors now rs) k = last_version k rs"
proof (induction rs arbitrary: k rule: rev_induct)
  case (snoc r rs)
  have ord: "versions_ordered now rs" and now: "now < sint (rExp r)"
    using snoc.prems by (auto simp: versions_ordered_def sorted_wrt_append)
  have "rTxn x < rTxn r" if "last_version (rKey r) rs = Some x" for x
    using last_version_mem [OF that] snoc.prems by (simp add: versions_ordered_def sorted_wrt_append)
  then have "compact_body now 0 r (survivors now rs) = AList.update (rKey r) r (survivors now rs)"
    using now snoc.IH [OF ord] by (auto simp: compact_body_def split: option.splits)
  then show ?case using snoc.IH [OF ord] by (simp add: survivors_def last_version_snoc)
qed (simp add: survivors_def last_version_def)

lemma filter_key_alist:
  "distinct (map fst l) \<Longrightarrow> (\<forall>(k, r)\<in>set l. rKey r = k) \<Longrightarrow>
   filter (\<lambda>r. rKey r = k) (map snd l) = (case map_of l k of None \<Rightarrow> [] | Some r \<Rightarrow> [r])"
proof (induction l)
  case (Cons p l)
  obtain a r where p: "p = (a, r)" by (cases p)
  have IH: "filter (\<lambda>r. rKey r = k) (map snd l) = (case map_of l k of None \<Rightarrow> [] | Some r \<Rightarrow> [r])"
    using Cons by simp
  show ?case
  proof (cases "a = k")
    case True
    then have "map_of l k = None" using Cons.prems(1) p by (simp add: map_of_eq_None_iff)
    with IH True Cons.prems(2) p show ?thesis by simp
  next
    case False
    with IH Cons.prems(2) p show ?thesis by simp
  qed
qed simp

lemma read_spec_committed:
  "read_spec {} t k now rs =
     (case last_version k rs of None \<Rightarrow> None | Some r \<Rightarrow> if now < sint (rExp r) then Some (rVal r) else None)"
  by (simp add: read_spec_def last_version_def visible_def isRecordVisible_def Let_def)

lemma read_after_compaction:
  assumes ord: "versions_ordered now rs" and perm: "mset ss = mset (survivors now rs)"
  shows "read_spec {} t k now (map snd ss) = read_spec {} t k now rs"
proof -
  have d: "distinct (map fst ss)" using survivors_props(1) [of now rs] perm
    by (metis mset_eq_imp_distinct_iff mset_map)
  have s: "set ss = set (survivors now rs)" using perm by (metis set_mset_mset)
  have "map_of ss = map_of (survivors now rs)"
    using map_of_inject_set [OF d survivors_props(1)] s by blast
  then have m: "map_of ss k = last_version k rs" using survivors_last [OF ord] by simp
  have "filter (\<lambda>r. rKey r = k) (map snd ss) = (case last_version k rs of None \<Rightarrow> [] | Some r \<Rightarrow> [r])"
    using filter_key_alist [OF d] survivors_props(2) [of now rs] s m by simp
  then have "last_version k (map snd ss) = last_version k rs"
    by (simp add: last_version_def [of k "map snd ss"] split: option.splits)
  then show ?thesis by (simp add: read_spec_committed)
qed

section \<open>Properties\<close>

definition mk_rec :: "TxnID \<Rightarrow> 64 word \<Rightarrow> bytes \<Rightarrow> bytes \<Rightarrow> srec" where
  "mk_rec t e k v = \<lparr>rTxn = t, rExp = e, rKey = k, rVal = v\<rparr>"

lemma rsize_mk_rec [simp]: "rsize (mk_rec t e k v) = 24 + length k + length v"
  by (simp add: mk_rec_def length_record_bytes)

lemma ex_slotted:
  assumes "PageHeaderSize + 4 * length rs + length (recs rs) \<le> PageSize"
  shows "\<exists>d. slotted_rep rs d"
  using assms
proof (induction rs rule: rev_induct)
  case Nil
  show ?case using Init_rep(1) [OF length_zero_page] by blast
next
  case (snoc r rs)
  then obtain d where "slotted_rep rs d" by auto
  from append_record_rep [OF this, of r] snoc.prems show ?case by auto
qed

text \<open>\<open>Write\<close> on a well-formed slotted page appends the record as the newest slot,
  after a compaction when the free space is short; when it does not fit even then, the
  overflow is reported and the compacted page stays well formed. \<open>restoreWrite\<close> does the
  same.\<close>

theorem page_Write_correct:
  assumes "slotted_rep rs d" "rsize r < 2 ^ 31"
    and "mset (perm (survivors now rs)) = mset (survivors now rs)"
  shows "\<exists>d'. (page_Write perm now r d = (if fits (after_compaction perm now rs r) r then None else Some ErrOverflow, d') \<and>
      page_restoreWrite perm now r d = (if fits (after_compaction perm now rs r) r then None else Some ErrOverflow, d')) \<and>
    slotted_rep (if fits (after_compaction perm now rs r) r then after_compaction perm now rs r @ [r]
                 else after_compaction perm now rs r) d'"
  using assms by (rule page_Write_rep)

theorem page_Write_correct_witness:
  "\<exists>d'. page_Write (\<lambda>l. l) 0 (mk_rec 1 9 [1] [2]) (Init zero_page) = (None, d') \<and> slotted_rep [mk_rec 1 9 [1] [2]] d'"
proof -
  have "slotted_rep [] (Init zero_page)" by (rule Init_rep) simp
  from page_Write_correct [OF this, of "mk_rec 1 9 [1] [2]" "\<lambda>l. l" 0] show ?thesis
    by (auto simp: after_compaction_def layout_defs)
qed

text \<open>A value written successfully is what a later \<open>Read\<close> of the key returns, to the
  writing transaction while it is active and to everyone once it is not, until it expires.\<close>

theorem write_then_read:
  assumes "slotted_rep rs d" "rsize r < 2 ^ 31"
    and "mset (perm (survivors now rs)) = mset (survivors now rs)"
    and "page_Write perm now r d = (None, d')"
    and "rTxn r \<notin> active \<or> t = rTxn r" and "now' < sint (rExp r)"
  shows "page_Read active t (rKey r) now' d' = Inr (rVal r)"
proof -
  obtain rs' where "slotted_rep (rs' @ [r]) d'"
    using page_Write_rep [where perm = perm and now = now, OF assms(1-3)] assms(4) by (auto split: if_splits)
  then show ?thesis
    using assms(5,6) by (auto simp: page_Read_rep read_spec_snoc visible_def isRecordVisible_def)
qed

theorem write_then_read_witness:
  "\<exists>d'. page_Write (\<lambda>l. l) 0 (mk_rec 1 9 [1] [2]) (Init zero_page) = (None, d') \<and> page_Read {1} 1 [1] 5 d' = Inr [2]"
proof -
  have i: "slotted_rep [] (Init zero_page)" by (rule Init_rep) simp
  obtain d' where "page_Write (\<lambda>l. l) 0 (mk_rec 1 9 [1] [2]) (Init zero_page) = (None, d')"
    using page_Write_rep [OF i, of "mk_rec 1 9 [1] [2]" "\<lambda>l. l" 0] by (auto simp: after_compaction_def layout_defs)
  with write_then_read [OF i _ _ this, of "{1}" 1 5] show ?thesis by (simp add: mk_rec_def length_record_bytes)
qed

text \<open>C25: \<open>Read\<close> is read-committed with last-writer-wins: the value returned belongs to a
  live record of the key whose transaction has ended or is the reader's own, and no later
  slot holds another such record.\<close>

theorem page_Read_committed:
  assumes rep: "slotted_rep rs d" and read: "page_Read active t key now d = Inr v"
  shows "\<exists>xs r ys. rs = xs @ r # ys \<and> rKey r = key \<and> rVal r = v \<and> now < sint (rExp r) \<and>
    (rTxn r \<notin> active \<or> rTxn r = t) \<and> (\<forall>r'\<in>set ys. rKey r' = key \<longrightarrow> rTxn r' \<in> active \<and> rTxn r' \<noteq> t)"
proof -
  let ?P = "\<lambda>r. rKey r = key \<and> visible active t r"
  have vis: "visible active t r \<longleftrightarrow> rTxn r \<notin> active \<or> rTxn r = t" for r
    by (auto simp: visible_def isRecordVisible_def)
  have spec: "read_spec active t key now rs = Some v"
    using read page_Read_rep [OF rep] by (auto split: option.splits)
  then have ne: "filter ?P rs \<noteq> []" and e: "now < sint (rExp (last (filter ?P rs)))" and v: "rVal (last (filter ?P rs)) = v"
    by (auto simp: read_spec_def Let_def split: if_splits)
  define r where "r = last (filter ?P rs)"
  have "r \<in> set rs" "?P r" using last_in_set [OF ne] by (auto simp: r_def)
  then obtain x where x: "x \<in> set rs" "?P x" by blast
  from split_list_last_prop [of rs ?P] x obtain ys r' zs where
    sp: "rs = ys @ r' # zs" "?P r'" "\<forall>z\<in>set zs. \<not> ?P z" by blast
  then have "filter ?P zs = []" by (simp add: filter_empty_conv)
  then have "r' = r" using sp by (simp add: r_def)
  with sp e v show ?thesis
    by (intro exI [of _ ys] exI [of _ r'] exI [of _ zs]) (auto simp: vis r_def)
qed

theorem page_Read_committed_witness:
  "\<exists>d xs r ys. slotted_rep [mk_rec 1 9 [1] [2], mk_rec 2 9 [1] [3]] d \<and> page_Read {2} 1 [1] 5 d = Inr [2] \<and>
     [mk_rec 1 9 [1] [2], mk_rec 2 9 [1] [3]] = xs @ r # ys \<and> rVal r = [2]"
proof -
  obtain d where d: "slotted_rep [mk_rec 1 9 [1] [2], mk_rec 2 9 [1] [3]] d"
    using ex_slotted [of "[mk_rec 1 9 [1] [2], mk_rec 2 9 [1] [3]]"] by (auto simp: layout_defs)
  have "page_Read {2} 1 [1] 5 d = Inr [2]"
    by (simp add: page_Read_rep [OF d] read_spec_def visible_def isRecordVisible_def mk_rec_def)
  with page_Read_committed [OF d this] d show ?thesis by blast
qed

text \<open>C28: compaction does not change what committed reads return, for any order of the
  rebuilt page, provided the versions of each key carry growing transaction ids and none is
  expired.\<close>

theorem compaction_preserves_reads:
  assumes "slotted_rep rs d" "versions_ordered now rs"
    and "mset (perm (survivors now rs)) = mset (survivors now rs)"
  shows "\<exists>d'. compactPage perm now d = Inr d' \<and> page_Read {} t k now d' = page_Read {} t k now d"
proof -
  from compactPage_rep [where perm = perm and now = now, OF assms(1,3)] obtain d' where
    c: "compactPage perm now d = Inr d'" and r: "slotted_rep (map snd (perm (survivors now rs))) d'" by blast
  show ?thesis
    using c by (simp add: page_Read_rep [OF r] page_Read_rep [OF assms(1)] read_after_compaction [OF assms(2,3)])
qed

theorem compaction_preserves_reads_witness:
  "\<exists>d d'. slotted_rep [mk_rec 1 9 [1] [2]] d \<and> compactPage rev 5 d = Inr d' \<and>
     page_Read {} 3 [1] 5 d' = page_Read {} 3 [1] 5 d"
proof -
  obtain d where d: "slotted_rep [mk_rec 1 9 [1] [2]] d"
    using ex_slotted [of "[mk_rec 1 9 [1] [2]]"] by (auto simp: layout_defs)
  have "versions_ordered 5 [mk_rec 1 9 [1] [2]]" by (simp add: versions_ordered_def mk_rec_def)
  with compaction_preserves_reads [where perm = rev, OF d this] d show ?thesis by auto
qed

lemma compaction_example:
  assumes s: "survivors 5 [mk_rec a 9 [1] [2], mk_rec b e [1] [7]] = [([1], r)]"
  shows "\<exists>d d'. slotted_rep [mk_rec a 9 [1] [2], mk_rec b e [1] [7]] d \<and> compactPage (\<lambda>l. l) 5 d = Inr d' \<and> slotted_rep [r] d'"
proof -
  let ?rs = "[mk_rec a 9 [1] [2], mk_rec b e [1] [7]]"
  obtain d where d: "slotted_rep ?rs d" using ex_slotted [of ?rs] by (auto simp: layout_defs)
  from compactPage_rep [where perm = "\<lambda>l. l" and now = 5, OF d] d show ?thesis by (auto simp: s)
qed

text \<open>Without that proviso compaction changes what readers see. When the newest version of a key
  has expired, reads report it missing, and after compaction they return the version before
  it. Of two versions by one transaction the older one is kept, so that a committed update is
  lost. And the version of the highest transaction is kept even while that is still active,
  so that the committed value disappears for every other reader.\<close>

theorem compaction_loses_versions:
  "(\<exists>d d'. slotted_rep [mk_rec 1 9 [1] [2], mk_rec 2 3 [1] [7]] d \<and> compactPage (\<lambda>l. l) 5 d = Inr d' \<and>
      page_Read {} 3 [1] 5 d = Inl ErrKeyNotFound \<and> page_Read {} 3 [1] 5 d' = Inr [2]) \<and>
   (\<exists>d d'. slotted_rep [mk_rec 1 9 [1] [2], mk_rec 1 9 [1] [7]] d \<and> compactPage (\<lambda>l. l) 5 d = Inr d' \<and>
      page_Read {} 3 [1] 5 d = Inr [7] \<and> page_Read {} 3 [1] 5 d' = Inr [2]) \<and>
   (\<exists>d d'. slotted_rep [mk_rec 1 9 [1] [2], mk_rec 2 9 [1] [7]] d \<and> compactPage (\<lambda>l. l) 5 d = Inr d' \<and>
      page_Read {2} 3 [1] 5 d = Inr [2] \<and> page_Read {2} 3 [1] 5 d' = Inl ErrKeyNotFound)"
proof -
  note defs = survivors_def compact_body_def mk_rec_def
  note reads = page_Read_rep read_spec_def visible_def isRecordVisible_def mk_rec_def
  have "survivors 5 [mk_rec 1 9 [1] [2], mk_rec 2 3 [1] [7]] = [([1], mk_rec 1 9 [1] [2])]" by (simp add: defs)
  from compaction_example [OF this] obtain d1 e1 where 1: "slotted_rep [mk_rec 1 9 [1] [2], mk_rec 2 3 [1] [7]] d1"
    "compactPage (\<lambda>l. l) 5 d1 = Inr e1" "slotted_rep [mk_rec 1 9 [1] [2]] e1" by blast
  have "survivors 5 [mk_rec 1 9 [1] [2], mk_rec 1 9 [1] [7]] = [([1], mk_rec 1 9 [1] [2])]" by (simp add: defs)
  from compaction_example [OF this] obtain d2 e2 where 2: "slotted_rep [mk_rec 1 9 [1] [2], mk_rec 1 9 [1] [7]] d2"
    "compactPage (\<lambda>l. l) 5 d2 = Inr e2" "slotted_rep [mk_rec 1 9 [1] [2]] e2" by blast
  have "survivors 5 [mk_rec 1 9 [1] [2], mk_rec 2 9 [1] [7]] = [([1], mk_rec 2 9 [1] [7])]" by (simp add: defs)
  from compaction_example [OF this] obtain d3 e3 where 3: "slotted_rep [mk_rec 1 9 [1] [2], mk_rec 2 9 [1] [7]] d3"
    "compactPage (\<lambda>l. l) 5 d3 = Inr e3" "slotted_rep [mk_rec 2 9 [1] [7]] e3" by blast
  have "page_Read {} 3 [1] 5 d1 = Inl ErrKeyNotFound" "page_Read {} 3 [1] 5 e1 = Inr [2]"
    using 1 by (simp_all add: reads)
  moreover have "page_Read {} 3 [1] 5 d2 = Inr [7]" "page_Read {} 3 [1] 5 e2 = Inr [2]"
    using 2 by (simp_all add: reads)
  moreover have "page_Read {2} 3 [1] 5 d3 = Inr [2]" "page_Read {2} 3 [1] 5 e3 = Inl ErrKeyNotFound"
    using 3 by (simp_all add: reads)
  ultimately show ?thesis using 1 2 3 by blast
qed

subsection \<open>Scanning\<close>

lemma scan_fold:
  fixes active :: "TxnID set" and t :: TxnID and prefix :: bytes and now :: int
  defines "S \<equiv> \<lambda>rs. foldl (\<lambda>st (i, r). scan_body active t prefix now i r st) [] (enumerate 0 rs)"
  shows "distinct (map fst (S rs)) \<and> (\<forall>k. \<forall>x. map_of (S rs) k = Some x \<longrightarrow> scSlot x < int (length rs)) \<and>
    (\<forall>k. map_option scVal (map_of (S rs) k) = (if has_prefix k prefix then read_spec active t k now rs else None))"
proof (induction rs rule: rev_induct)
  case Nil
  show ?case by (simp add: S_def read_spec_def)
next
  case (snoc r rs)
  have step: "S (rs @ [r]) = scan_body active t prefix now (length rs) r (S rs)"
    by (simp add: S_def enumerate_append_eq)
  have better: "(case map_of (S rs) (rKey r) of None \<Rightarrow> True
      | Some x \<Rightarrow> scSlot x < int (length rs) \<or> (int (length rs) = scSlot x \<and> scTxn x \<le> rTxn r))"
    using snoc.IH by (auto split: option.splits)
  have upd: "S (rs @ [r]) = (if has_prefix (rKey r) prefix \<and> visible active t r
      then if now < sint (rExp r) then AList.update (rKey r) \<lparr>scTxn = rTxn r, scSlot = int (length rs), scVal = rVal r\<rparr> (S rs)
           else AList.delete (rKey r) (S rs) else S rs)"
    unfolding step scan_body_def using better by simp
  have 1: "distinct (map fst (S (rs @ [r])))"
    unfolding upd using snoc.IH by (simp add: AList.distinct_update AList.distinct_delete)
  have 2: "scSlot x < int (length (rs @ [r]))" if "map_of (S (rs @ [r])) k = Some x" for k x
    using that snoc.IH unfolding upd
    by (fastforce simp: AList.delete_conv' split: if_splits)
  have 3: "map_option scVal (map_of (S (rs @ [r])) k) =
      (if has_prefix k prefix then read_spec active t k now (rs @ [r]) else None)" for k
  proof -
    have IH: "map_option scVal (map_of (S rs) k) = (if has_prefix k prefix then read_spec active t k now rs else None)"
      using snoc.IH by blast
    show ?thesis
      unfolding upd read_spec_snoc using IH
      by (cases "rKey r = k"; cases "has_prefix k prefix") (simp_all add: AList.delete_conv')
  qed
  show ?case using 1 2 3 by blast
qed

definition collect_iter :: "(bytes \<times> bytes) list \<Rightarrow> bytes \<Rightarrow> bytes \<Rightarrow> bool \<times> (bytes \<times> bytes) list" where
  "collect_iter acc k v = (True, acc @ [(k, v)])"

lemma iter_collect: "iter_loop collect_iter l acc = acc @ map (\<lambda>(k, x). (k, scVal x)) l"
  by (induction collect_iter l acc rule: iter_loop.induct) (auto simp: collect_iter_def)

lemma map_of_map_snd: "map_of (map (\<lambda>(k, x). (k, f x)) l) k = map_option f (map_of l k)"
  by (induction l) auto

text \<open>C27: \<open>Scan\<close> with a callback that collects everything returns each key with the
  prefix at most once, in whatever order, and with exactly the value \<open>Read\<close> returns for
  it; keys \<open>Read\<close> misses are not reported.\<close>

theorem Scan_agrees_with_Read:
  assumes rep: "slotted_rep rs d" and perm: "\<And>l. mset (perm l) = mset l"
  shows "\<exists>xs. page_Scan perm active t prefix now collect_iter [] d = Inr xs \<and> distinct (map fst xs) \<and>
    (\<forall>k. map_of xs k = (if has_prefix k prefix
                        then (case page_Read active t k now d of Inr v \<Rightarrow> Some v | Inl _ \<Rightarrow> None) else None))"
proof -
  define S where "S = foldl (\<lambda>st (i, r). scan_body active t prefix now i r st) [] (enumerate 0 rs)"
  note S = scan_fold [of active t prefix now rs, folded S_def]
  have latest: "scan_latest active t prefix now d = Inr S"
    by (simp add: scan_latest_def slot_loop_all [OF rep] S_def)
  let ?xs = "map (\<lambda>(k, x). (k, scVal x)) (perm S)"
  have d: "distinct (map fst (perm S))" using S perm [of S] by (metis mset_eq_imp_distinct_iff mset_map)
  have "set (perm S) = set S" using perm by (metis set_mset_mset)
  then have m: "map_of (perm S) = map_of S" using map_of_inject_set [OF d, of S] S by blast
  have "distinct (map fst ?xs)" using d by (simp add: comp_def case_prod_unfold)
  moreover have "map_of ?xs k = (if has_prefix k prefix
      then (case page_Read active t k now d of Inr v \<Rightarrow> Some v | Inl _ \<Rightarrow> None) else None)" for k
    using S by (auto simp: map_of_map_snd m page_Read_rep [OF rep] split: option.splits)
  ultimately show ?thesis by (simp add: page_Scan_def latest iter_collect)
qed

theorem Scan_agrees_with_Read_witness:
  "\<exists>d xs. slotted_rep [mk_rec 1 9 [1] [2]] d \<and> page_Scan (\<lambda>l. l) {} 3 [] 5 collect_iter [] d = Inr xs \<and> map_of xs [1] = Some [2]"
proof -
  obtain d where d: "slotted_rep [mk_rec 1 9 [1] [2]] d"
    using ex_slotted [of "[mk_rec 1 9 [1] [2]]"] by (auto simp: layout_defs)
  have "page_Read {} 3 [1] 5 d = Inr [2]"
    by (simp add: page_Read_rep [OF d] read_spec_def visible_def isRecordVisible_def mk_rec_def)
  with Scan_agrees_with_Read [OF d, of "\<lambda>l. l" "{}" 3 "[]" 5] d show ?thesis by (auto simp: has_prefix_def)
qed

end
