(* ===== verification/Device.thy ===== *)
theory Device
  imports Page
begin

text \<open>
  Storage devices: the interface \<open>BlockDevice\<close> of \<open>interfaces.go\<close> as a record of
  operations, its laws as a locale, \<open>MemDevice\<close> of \<open>vfs.go\<close> as an instance, and
  \<open>DiskManager\<close> of \<open>storage.go\<close> on top of the interface.

  \<open>OSFileDevice\<close> only forwards to the operating system; it is an instance of the record
  whose laws are those of a file.
\<close>

section \<open>The interface\<close>

text \<open>\<open>ReadAt\<close> returns the bytes it copied to the front of the buffer, \<open>WriteAt\<close> and
  \<open>Sync\<close> the error and the new device, \<open>Stat\<close> the size.\<close>

record 'd device_ops =
  ReadAt :: "'d \<Rightarrow> nat \<Rightarrow> int \<Rightarrow> bytes \<times> error option"
  WriteAt :: "'d \<Rightarrow> bytes \<Rightarrow> int \<Rightarrow> error option \<times> 'd"
  Sync :: "'d \<Rightarrow> error option \<times> 'd"
  Stat :: "'d \<Rightarrow> nat result"
  Close :: "'d \<Rightarrow> error option \<times> 'd"

text \<open>
  The laws the engine relies on, for offsets that are not negative: a read that succeeds or
  ends at the end of the file returns the stored bytes, a write touches no other byte and,
  when it succeeds, stores its bytes and grows the file as needed, \<open>Sync\<close> and
  \<open>Stat\<close> change nothing and nothing is stored beyond the size.
\<close>

locale block_device =
  fixes dops :: "'d device_ops" and stored :: "'d \<Rightarrow> nat \<Rightarrow> byte" and dsize :: "'d \<Rightarrow> nat"
  assumes read_len: "ReadAt dops d n x = (bs, e) \<Longrightarrow> length bs \<le> n"
    and read: "ReadAt dops d n (int off) = (bs, e) \<Longrightarrow> e = None \<or> e = Some ErrEOF \<Longrightarrow>
      length bs \<le> n \<and> bs @ replicate (n - length bs) 0 = map (stored d) [off..<off + n]"
    and write_frame: "WriteAt dops d p (int off) = (e, d') \<Longrightarrow> i < off \<or> off + length p \<le> i \<Longrightarrow> stored d' i = stored d i"
    and write_ok: "WriteAt dops d p (int off) = (None, d') \<Longrightarrow>
      map (stored d') [off..<off + length p] = p \<and> dsize d' = max (dsize d) (off + length p)"
    and sync: "Sync dops d = (e, d') \<Longrightarrow> stored d' = stored d \<and> dsize d' = dsize d"
    and stat: "Stat dops d = Inr n \<Longrightarrow> n = dsize d"
    and beyond: "dsize d \<le> i \<Longrightarrow> stored d i = 0"

section \<open>The in-memory device\<close>

text \<open>The state is the byte slice. A negative offset is a panic of the slice expression.\<close>

definition NewMemDevice :: bytes where
  "NewMemDevice = []"

definition Mem_ReadAt :: "bytes \<Rightarrow> nat \<Rightarrow> int \<Rightarrow> bytes \<times> error option" where
  "Mem_ReadAt m n off =
     (if int (length m) \<le> off then ([], Some ErrEOF)
      else if off < 0 then ([], Some GoPanic)
      else let bs = take n (drop (nat off) m)
           in if length bs < n then (bs, Some ErrEOF) else (bs, None))"

definition Mem_WriteAt :: "bytes \<Rightarrow> bytes \<Rightarrow> int \<Rightarrow> error option \<times> bytes" where
  "Mem_WriteAt m p off =
     (let endOffset = off + int (length p);
          m1 = (if int (length m) < endOffset then m @ replicate (nat endOffset - length m) 0 else m)
      in if off < 0 then (Some GoPanic, m1) else (None, blit m1 (nat off) p))"

definition Mem_Sync :: "bytes \<Rightarrow> error option \<times> bytes" where
  "Mem_Sync m = (None, m)"

definition Mem_Stat :: "bytes \<Rightarrow> nat result" where
  "Mem_Stat m = Inr (length m)"

definition Mem_Close :: "bytes \<Rightarrow> error option \<times> bytes" where
  "Mem_Close m = (None, [])"

definition mem_device :: "bytes device_ops" where
  "mem_device = \<lparr>ReadAt = Mem_ReadAt, WriteAt = Mem_WriteAt, Sync = Mem_Sync, Stat = Mem_Stat, Close = Mem_Close\<rparr>"

definition mem_stored :: "bytes \<Rightarrow> nat \<Rightarrow> byte" where
  "mem_stored m i = (if i < length m then m ! i else 0)"

lemma mem_stored_range:
  "map (mem_stored m) [off..<off + n] = take n (drop off m) @ replicate (n - length (take n (drop off m))) 0"
proof (rule nth_equalityI)
  show "length (map (mem_stored m) [off..<off + n]) =
      length (take n (drop off m) @ replicate (n - length (take n (drop off m))) 0)" by simp
next
  fix i assume "i < length (map (mem_stored m) [off..<off + n])"
  then show "map (mem_stored m) [off..<off + n] ! i =
      (take n (drop off m) @ replicate (n - length (take n (drop off m))) 0) ! i"
    by (auto simp: mem_stored_def nth_append)
qed

lemma Mem_ReadAt_stored:
  "Mem_ReadAt m n (int off) = (bs, e) \<Longrightarrow>
   length bs \<le> n \<and> bs @ replicate (n - length bs) 0 = map (mem_stored m) [off..<off + n]"
  unfolding mem_stored_range by (auto simp: Mem_ReadAt_def Let_def split: if_splits)

lemma Mem_WriteAt_eq:
  "Mem_WriteAt m p (int off) =
     (None, blit (m @ replicate (off + length p - length m) 0) off p)"
  by (auto simp: Mem_WriteAt_def Let_def nat_int_add)

lemma Mem_WriteAt_stored:
  assumes "Mem_WriteAt m p (int off) = (e, m')"
  shows "mem_stored m' i = (if off \<le> i \<and> i < off + length p then p ! (i - off) else mem_stored m i)"
    and "length m' = max (length m) (off + length p)"
proof -
  let ?m = "m @ replicate (off + length p - length m) 0"
  have m': "m' = blit ?m off p" using assms by (simp add: Mem_WriteAt_eq)
  have l: "off + length p \<le> length ?m" by simp
  show len: "length m' = max (length m) (off + length p)" unfolding m' using l by simp
  show "mem_stored m' i = (if off \<le> i \<and> i < off + length p then p ! (i - off) else mem_stored m i)"
    using len nth_blit [OF l, of i] by (auto simp: m' mem_stored_def nth_append)
qed

interpretation mem: block_device mem_device mem_stored length
proof
  fix d :: bytes and n :: nat and o' :: int and bs :: bytes and e :: "error option"
  assume "ReadAt mem_device d n o' = (bs, e)"
  then show "length bs \<le> n"
    by (auto simp: mem_device_def Mem_ReadAt_def Let_def split: if_splits)
next
  fix d :: bytes and n off :: nat and bs :: bytes and e :: "error option"
  assume "ReadAt mem_device d n (int off) = (bs, e)"
  then show "length bs \<le> n \<and> bs @ replicate (n - length bs) 0 = map (mem_stored d) [off..<off + n]"
    by (simp add: mem_device_def Mem_ReadAt_stored)
next
  fix d d' p :: bytes and off i :: nat and e :: "error option"
  assume "WriteAt mem_device d p (int off) = (e, d')" "i < off \<or> off + length p \<le> i"
  then show "mem_stored d' i = mem_stored d i"
    using Mem_WriteAt_stored(1) [of d p off e d' i] by (auto simp: mem_device_def)
next
  fix d d' p :: bytes and off :: nat
  assume "WriteAt mem_device d p (int off) = (None, d')"
  then have w: "Mem_WriteAt d p (int off) = (None, d')" by (simp add: mem_device_def)
  have "map (mem_stored d') [off..<off + length p] = p"
    by (rule nth_equalityI) (simp_all add: Mem_WriteAt_stored(1) [OF w])
  then show "map (mem_stored d') [off..<off + length p] = p \<and> length d' = max (length d) (off + length p)"
    using Mem_WriteAt_stored(2) [OF w] by simp
qed (simp_all add: mem_device_def Mem_Sync_def Mem_Stat_def mem_stored_def)

section \<open>The disk manager\<close>

text \<open>\<open>int64(id) * PageSize\<close> wraps; the page is read over the given buffer.\<close>

definition page_offset :: "PageID \<Rightarrow> int" where
  "page_offset i = sint (i * word_of_nat PageSize)"

definition ReadPage :: "'d device_ops \<Rightarrow> PageID \<Rightarrow> bytes \<Rightarrow> 'd \<Rightarrow> bytes \<times> error option" where
  "ReadPage dops i data d =
     (let (bs, e) = ReadAt dops d PageSize (page_offset i) in (blit data 0 bs, e))"

definition WritePage :: "'d device_ops \<Rightarrow> PageID \<Rightarrow> bytes \<Rightarrow> 'd \<Rightarrow> error option \<times> 'd" where
  "WritePage dops i data d = WriteAt dops d data (page_offset i)"

text \<open>Identifiers below \<open>2 ^ 48\<close> address distinct, non-negative ranges.\<close>

lemma page_offset_small:
  assumes "unat i < 2 ^ 48"
  shows "page_offset i = int (unat i * PageSize)"
proof -
  have w: "word_of_nat PageSize = (32768 :: 64 word)" by (simp add: PageSize_def)
  have lt: "unat i * 32768 < 2 ^ 63" using assms by simp
  have "unat (i * 32768) = unat i * 32768"
    using lt by (simp add: unat_word_ariths)
  then have u: "uint (i * 32768) = int (unat i * 32768)" by (metis uint_nat)
  have "uint (i * 32768) < 2 ^ 63"
    unfolding u using lt by (metis of_nat_less_iff of_nat_numeral of_nat_power)
  moreover have "- (2 ^ 63) \<le> uint (i * 32768)" by (rule order_trans [OF _ uint_ge_0]) simp
  ultimately have "sint (i * 32768) = uint (i * 32768)"
    by (simp add: sint_uint signed_take_bit_int_eq_self)
  with u show ?thesis by (simp add: page_offset_def w PageSize_def)
qed

text \<open>The page image a device stores under an identifier.\<close>

definition page_at :: "('d \<Rightarrow> nat \<Rightarrow> byte) \<Rightarrow> 'd \<Rightarrow> PageID \<Rightarrow> bytes" where
  "page_at st d i = map (st d) [unat i * PageSize..<unat i * PageSize + PageSize]"

lemma length_page_at [simp]: "length (page_at st d i) = PageSize"
  by (simp add: page_at_def)

context block_device
begin

lemma ReadPage_view:
  assumes "unat i < 2 ^ 48" "ReadPage dops i (replicate PageSize 0) d = (data, e)" "e = None \<or> e = Some ErrEOF"
  shows "data = page_at stored d i"
proof -
  obtain bs where r: "ReadAt dops d PageSize (int (unat i * PageSize)) = (bs, e)"
    and data: "data = blit (replicate PageSize 0) 0 bs"
    using assms(1,2) by (auto simp: ReadPage_def page_offset_small split: prod.splits)
  from read [OF r assms(3)] show ?thesis by (simp add: data blit_def page_at_def)
qed

lemma WritePage_view:
  assumes "unat i < 2 ^ 48" "WritePage dops i data d = (e, d')" "length data = PageSize"
  shows "e = None \<Longrightarrow> page_at stored d' i = data"
    and "e = None \<Longrightarrow> dsize d' = max (dsize d) (unat i * PageSize + PageSize)"
    and "j \<noteq> i \<Longrightarrow> page_at stored d' j = page_at stored d j"
proof -
  have w: "WriteAt dops d data (int (unat i * PageSize)) = (e, d')"
    using assms(1,2) by (simp add: WritePage_def page_offset_small)
  show "page_at stored d' i = data" "dsize d' = max (dsize d) (unat i * PageSize + PageSize)" if "e = None"
    using write_ok [OF w [unfolded that]] assms(3) by (simp_all add: page_at_def)
  show "page_at stored d' j = page_at stored d j" if "j \<noteq> i"
  proof -
    have "unat j < unat i \<or> unat i < unat j" using that by (metis nat_neq_iff word_unat_eq_iff)
    then have "unat j * PageSize + PageSize \<le> unat i * PageSize \<or> unat i * PageSize + PageSize \<le> unat j * PageSize"
      by (metis Suc_leI add.commute mult_Suc mult_le_mono1)
    then have "stored d' n = stored d n" if "n \<in> {unat j * PageSize..<unat j * PageSize + PageSize}" for n
      using that assms(3) by (intro write_frame [OF w]) auto
    then show ?thesis by (simp add: page_at_def)
  qed
qed

lemma page_at_sync: "Sync dops d = (e, d') \<Longrightarrow> page_at stored d' = page_at stored d"
  using sync [of d e d'] by (auto simp: page_at_def)

end

end
