(* ===== verification/Lru.thy ===== *)
theory Lru
  imports Prelude
begin

text \<open>
  Cache replacement: the interface \<open>EvictionPolicy\<close> of \<open>interfaces.go\<close> as a record of
  operations, its laws as a locale, and \<open>LRUEvictionPolicy\<close> of \<open>lru_policy.go\<close> as the
  instance. The linked list is a list of identifiers, most recent first; the map from
  identifiers to list elements is its key set.
\<close>

section \<open>The interface\<close>

record 'e evict_ops =
  RecordAccess :: "PageID \<Rightarrow> 'e \<Rightarrow> 'e"
  Evict :: "'e \<Rightarrow> PageID option \<times> 'e"
  Remove :: "PageID \<Rightarrow> 'e \<Rightarrow> 'e"

text \<open>What the pool relies on: accesses track a page, eviction hands out a tracked page and
  forgets it, and reports failure exactly when nothing is tracked.\<close>

locale eviction_policy =
  fixes eops :: "'e evict_ops" and einv :: "'e \<Rightarrow> bool" and tracked :: "'e \<Rightarrow> PageID set"
  assumes access: "einv e \<Longrightarrow> einv (RecordAccess eops i e) \<and> tracked (RecordAccess eops i e) = insert i (tracked e)"
    and evict_some: "einv e \<Longrightarrow> Evict eops e = (Some i, e') \<Longrightarrow> einv e' \<and> i \<in> tracked e \<and> tracked e' = tracked e - {i}"
    and evict_none: "einv e \<Longrightarrow> Evict eops e = (None, e') \<Longrightarrow> e' = e \<and> tracked e = {}"
    and remove: "einv e \<Longrightarrow> einv (Remove eops i e) \<and> tracked (Remove eops i e) = tracked e - {i}"

section \<open>Least recently used\<close>

record lru =
  lruList :: "PageID list"
  pageMap :: "PageID set"

definition NewLRUEvictionPolicy :: lru where
  "NewLRUEvictionPolicy = \<lparr>lruList = [], pageMap = {}\<rparr>"

definition LRU_RecordAccess :: "PageID \<Rightarrow> lru \<Rightarrow> lru" where
  "LRU_RecordAccess i p =
     (if i \<in> pageMap p then p\<lparr>lruList := i # remove1 i (lruList p)\<rparr>
      else p\<lparr>lruList := i # lruList p, pageMap := insert i (pageMap p)\<rparr>)"

definition LRU_Evict :: "lru \<Rightarrow> PageID option \<times> lru" where
  "LRU_Evict p =
     (if lruList p = [] then (None, p)
      else let i = last (lruList p)
           in (Some i, p\<lparr>lruList := butlast (lruList p), pageMap := pageMap p - {i}\<rparr>))"

definition LRU_Remove :: "PageID \<Rightarrow> lru \<Rightarrow> lru" where
  "LRU_Remove i p =
     (if i \<in> pageMap p then p\<lparr>lruList := remove1 i (lruList p), pageMap := pageMap p - {i}\<rparr> else p)"

definition lru_ops :: "lru evict_ops" where
  "lru_ops = \<lparr>RecordAccess = LRU_RecordAccess, Evict = LRU_Evict, Remove = LRU_Remove\<rparr>"

definition lru_inv :: "lru \<Rightarrow> bool" where
  "lru_inv p \<longleftrightarrow> distinct (lruList p) \<and> set (lruList p) = pageMap p"

lemma lru_ops_simps [simp]:
  "RecordAccess lru_ops = LRU_RecordAccess" "Evict lru_ops = LRU_Evict" "Remove lru_ops = LRU_Remove"
  by (simp_all add: lru_ops_def)

lemma LRU_Evict_inv:
  assumes "lru_inv p" "LRU_Evict p = (Some i, p')"
  shows "lru_inv p' \<and> i \<in> pageMap p \<and> pageMap p' = pageMap p - {i}"
proof -
  have ne: "lruList p \<noteq> []" and i: "i = last (lruList p)"
    and p': "p' = p\<lparr>lruList := butlast (lruList p), pageMap := pageMap p - {i}\<rparr>"
    using assms(2) by (auto simp: LRU_Evict_def Let_def split: if_splits)
  have "lruList p = butlast (lruList p) @ [i]" using ne i by simp
  then have "distinct (butlast (lruList p) @ [i])" "set (butlast (lruList p) @ [i]) = pageMap p"
    using assms(1) by (metis lru_inv_def)+
  then show ?thesis by (auto simp: lru_inv_def p')
qed

lemma LRU_RecordAccess_inv:
  "lru_inv p \<Longrightarrow> lru_inv (LRU_RecordAccess i p) \<and> pageMap (LRU_RecordAccess i p) = insert i (pageMap p)"
  by (auto simp: lru_inv_def LRU_RecordAccess_def)

lemma LRU_Remove_inv:
  "lru_inv p \<Longrightarrow> lru_inv (LRU_Remove i p) \<and> pageMap (LRU_Remove i p) = pageMap p - {i}"
  by (auto simp: lru_inv_def LRU_Remove_def)

lemma LRU_Evict_none: "lru_inv p \<Longrightarrow> LRU_Evict p = (None, p') \<Longrightarrow> p' = p \<and> pageMap p = {}"
  by (auto simp: lru_inv_def LRU_Evict_def Let_def split: if_splits)

interpretation lru: eviction_policy lru_ops lru_inv pageMap
  by unfold_locales
    (use LRU_RecordAccess_inv LRU_Remove_inv LRU_Evict_inv LRU_Evict_none in \<open>unfold lru_ops_simps, blast+\<close>)

text \<open>The order of eviction: pages accessed once each leave in the order of their accesses,
  and an access moves a page behind all others.\<close>

lemma LRU_access_list:
  "lru_inv p \<Longrightarrow> lruList (LRU_RecordAccess i p) = i # removeAll i (lruList p)"
proof (cases "i \<in> pageMap p")
  case True
  assume "lru_inv p"
  with True show ?thesis by (simp add: LRU_RecordAccess_def lru_inv_def distinct_remove1_removeAll)
next
  case False
  assume "lru_inv p"
  with False have "removeAll i (lruList p) = lruList p" by (simp add: lru_inv_def removeAll_id)
  with False show ?thesis by (simp add: LRU_RecordAccess_def)
qed

end
