(* ===== verification/Telemetry.thy ===== *)
theory Telemetry
  imports Prelude
begin

text \<open>
  \<open>telemetry.go\<close>: the counters of \<open>AtomicMetrics\<close>. Durations are integers of
  nanoseconds. The hit ratio of \<open>Capture\<close> is a floating-point quotient and is kept as the
  pair of counters it is computed from.
\<close>

record atomic_metrics =
  bufferPoolHits :: "64 word"
  bufferPoolMisses :: "64 word"
  walFlushLatencies :: "64 word"
  walFlushCount :: "64 word"
  compactionTime :: "64 word"
  compactionCount :: "64 word"
  activeTxnsCount :: "64 word"

definition NewAtomicMetrics :: atomic_metrics where
  "NewAtomicMetrics = \<lparr>bufferPoolHits = 0, bufferPoolMisses = 0, walFlushLatencies = 0, walFlushCount = 0,
     compactionTime = 0, compactionCount = 0, activeTxnsCount = 0\<rparr>"

definition IncrBufferPoolHit :: "atomic_metrics \<Rightarrow> atomic_metrics" where
  "IncrBufferPoolHit m = m\<lparr>bufferPoolHits := bufferPoolHits m + 1\<rparr>"

definition IncrBufferPoolMiss :: "atomic_metrics \<Rightarrow> atomic_metrics" where
  "IncrBufferPoolMiss m = m\<lparr>bufferPoolMisses := bufferPoolMisses m + 1\<rparr>"

definition RecordWalFlushLatency :: "int \<Rightarrow> atomic_metrics \<Rightarrow> atomic_metrics" where
  "RecordWalFlushLatency d m =
     m\<lparr>walFlushLatencies := walFlushLatencies m + word_of_int d, walFlushCount := walFlushCount m + 1\<rparr>"

definition RecordPageCompactionTime :: "int \<Rightarrow> atomic_metrics \<Rightarrow> atomic_metrics" where
  "RecordPageCompactionTime d m =
     m\<lparr>compactionTime := compactionTime m + word_of_int d, compactionCount := compactionCount m + 1\<rparr>"

definition SetActiveTransactions :: "nat \<Rightarrow> atomic_metrics \<Rightarrow> atomic_metrics" where
  "SetActiveTransactions n m = m\<lparr>activeTxnsCount := word_of_nat n\<rparr>"

record metrics_snapshot =
  snHits :: "64 word"
  snMisses :: "64 word"
  snAvgWalFlushLatency :: "64 word"
  snAvgCompactionLatency :: "64 word"
  snActiveTransactions :: int

definition Capture :: "atomic_metrics \<Rightarrow> metrics_snapshot" where
  "Capture m = \<lparr>snHits = bufferPoolHits m, snMisses = bufferPoolMisses m,
     snAvgWalFlushLatency = (if 0 < walFlushCount m then walFlushLatencies m div walFlushCount m else 0),
     snAvgCompactionLatency = (if 0 < compactionCount m then compactionTime m div compactionCount m else 0),
     snActiveTransactions = sint (activeTxnsCount m)\<rparr>"

end
