(* ===== verification/BufferPool.thy ===== *)
theory BufferPool
  imports Device Lru Telemetry
begin

text \<open>
  The buffer pool of \<open>storage.go\<close>: \<open>FetchPage\<close>, \<open>UnpinPage\<close>, \<open>NewPage\<close>,
  \<open>getAvailableFrame\<close> with its eviction loop, and \<open>FlushAll\<close>.

  A pool runs in an environment: the device and the eviction policy (Go interfaces), the
  order in which \<open>range\<close> visits a map, and the number of rounds the eviction loop is
  followed. The loop has no bound of its own: with every tracked page pinned it runs
  forever, which shows as \<open>OutOfFuel\<close> for every bound. Calls are atomic, so that no other
  goroutine holds the pool mutex or a latch; but the caller itself may hold page latches, and
  \<open>FlushAll\<close> takes the latch of every dirty page. The environment therefore names the pages
  whose latch the caller holds: a flush that reaches one of them waits for ever, with the
  result \<open>Blocked\<close>. \<open>float64(dirty)/float64(n) >= 0.8\<close> is
  \<open>4 * n \<le> 5 * dirty\<close>, exact for every pool that fits in memory.
\<close>

section \<open>State\<close>

record ('d, 'e) env =
  dev :: "'d device_ops"
  pol :: "'e evict_ops"
  rng :: "(PageID \<times> nat) list \<Rightarrow> (PageID \<times> nat) list"
  evict_fuel :: nat
  latches :: "PageID list"

text \<open>A call made while the latches of the pages \<open>hs\<close> are held, for reading or writing.\<close>

definition holding :: "('d, 'e) env \<Rightarrow> PageID list \<Rightarrow> ('d, 'e) env" where
  "holding E hs = E\<lparr>latches := hs\<rparr>"

record ('d, 'e) pool =
  disk :: 'd
  frames :: "page list"
  pageTable :: "(PageID \<times> nat) list"
  evictor :: 'e
  freeList :: "nat list"
  metrics :: "atomic_metrics option"

definition NewBufferPool :: "'d \<Rightarrow> nat \<Rightarrow> 'e \<Rightarrow> atomic_metrics option \<Rightarrow> ('d, 'e) pool" where
  "NewBufferPool dsk poolSize ev m =
     \<lparr>disk = dsk,
      frames = replicate poolSize \<lparr>pgID = 0, pgData = zero_page, pgPin = 0, pgDirty = False, pgVersion = 0\<rparr>,
      pageTable = [], evictor = ev, freeList = [0..<poolSize], metrics = m\<rparr>"

definition BTreeRootPageID :: PageID where
  "BTreeRootPageID = 1002"

definition isBTreeKVPage :: "PageID \<Rightarrow> bool" where
  "isBTreeKVPage i \<longleftrightarrow> BTreeRootPageID - 2 \<le> i"

definition upd_frame :: "nat \<Rightarrow> (page \<Rightarrow> page) \<Rightarrow> ('d, 'e) pool \<Rightarrow> ('d, 'e) pool" where
  "upd_frame idx f p = p\<lparr>frames := (frames p)[idx := f (frames p ! idx)]\<rparr>"

text \<open>The page as it is handed to the device: slotted pages get their checksum first.\<close>

definition seal :: "page \<Rightarrow> page" where
  "seal pg = (if isBTreeKVPage (pgID pg) then pg
              else pg\<lparr>pgData := SetChecksum (ComputeChecksum (pgData pg)) (pgData pg)\<rparr>)"

section \<open>Flushing\<close>

text \<open>What follows the \<open>page.Latch.Lock()\<close> of \<open>FlushAll\<close> for one page.\<close>

definition flush_page :: "('d, 'e) env \<Rightarrow> nat \<Rightarrow> error option \<times> ('d, 'e) pool \<Rightarrow> error option \<times> ('d, 'e) pool" where
  "flush_page E idx st =
     (case st of (firstErr, p) \<Rightarrow>
        let pg = seal (frames p ! idx);
            (e, dsk) = WritePage (dev E) (pgID pg) (pgData pg) (disk p);
            pg' = pg\<lparr>pgDirty := (if e = None then False else pgDirty pg), pgPin := pgPin pg - 1\<rparr>
        in (if firstErr = None then e else firstErr, p\<lparr>frames := (frames p)[idx := pg'], disk := dsk\<rparr>))"

definition dirty_frames :: "('d, 'e) env \<Rightarrow> ('d, 'e) pool \<Rightarrow> nat list" where
  "dirty_frames E p = filter (\<lambda>idx. pgDirty (frames p ! idx)) (map snd (rng E (pageTable p)))"

definition pin_frame :: "nat \<Rightarrow> ('d, 'e) pool \<Rightarrow> ('d, 'e) pool" where
  "pin_frame idx = upd_frame idx (\<lambda>pg. pg\<lparr>pgPin := pgPin pg + 1\<rparr>)"

text \<open>Some dirty page is latched by the caller.\<close>

definition flush_waits :: "('d, 'e) env \<Rightarrow> ('d, 'e) pool \<Rightarrow> bool" where
  "flush_waits E p \<longleftrightarrow> (\<exists>idx\<in>set (dirty_frames E p). pgID (frames p ! idx) \<in> set (latches E))"

definition FlushAll :: "('d, 'e) env \<Rightarrow> ('d, 'e) pool \<Rightarrow> error option \<times> ('d, 'e) pool" where
  "FlushAll E p =
     (let dirtyPages = dirty_frames E p;
          p1 = fold pin_frame dirtyPages p;
          reached = takeWhile (\<lambda>idx. pgID (frames p ! idx) \<notin> set (latches E)) dirtyPages;
          (firstErr, p2) = fold (flush_page E) reached (None, p1)
      in if flush_waits E p then (Some Blocked, p2)
         else let (syncErr, dsk) = Sync (dev E) (disk p2)
              in (if firstErr = None then syncErr else firstErr, p2\<lparr>disk := dsk\<rparr>))"

section \<open>Finding a frame\<close>

fun evict_loop :: "('d, 'e) env \<Rightarrow> nat \<Rightarrow> ('d, 'e) pool \<Rightarrow> nat result \<times> ('d, 'e) pool" where
  "evict_loop E 0 p = (Inl OutOfFuel, p)"
| "evict_loop E (Suc n) p =
     (case Evict (pol E) (evictor p) of
        (None, ev) \<Rightarrow> (Inl ErrPoolExhausted, p\<lparr>evictor := ev\<rparr>)
      | (Some victimID, ev) \<Rightarrow>
          (case map_of (pageTable p) victimID of
             None \<Rightarrow> evict_loop E n (p\<lparr>evictor := ev\<rparr>)
           | Some frameIdx \<Rightarrow>
               let victim = frames p ! frameIdx
               in if 0 < pgPin victim
                  then evict_loop E n (p\<lparr>evictor := RecordAccess (pol E) victimID ev\<rparr>)
                  else if pgDirty victim
                  then let pg = seal victim;
                           (e, dsk) = WritePage (dev E) (pgID pg) (pgData pg) (disk p);
                           p1 = p\<lparr>frames := (frames p)[frameIdx := pg], disk := dsk\<rparr>
                       in (case e of
                             Some err \<Rightarrow> (Inl err, p1\<lparr>evictor := RecordAccess (pol E) victimID ev\<rparr>)
                           | None \<Rightarrow> (Inr frameIdx, p1\<lparr>evictor := ev, pageTable := AList.delete victimID (pageTable p)\<rparr>))
                  else (Inr frameIdx, p\<lparr>evictor := ev, pageTable := AList.delete victimID (pageTable p)\<rparr>)))"

text \<open>Back-pressure: at least 80 per cent of the frames hold a dirty page.\<close>

definition pressed :: "('d, 'e) pool \<Rightarrow> bool" where
  "pressed p \<longleftrightarrow>
     (let dirtyCount = length (filter (\<lambda>idx. pgDirty (frames p ! idx)) (map snd (pageTable p)))
      in 0 < length (frames p) \<and> 4 * length (frames p) \<le> 5 * dirtyCount)"

definition getAvailableFrame :: "('d, 'e) env \<Rightarrow> ('d, 'e) pool \<Rightarrow> nat result \<times> ('d, 'e) pool" where
  "getAvailableFrame E p =
     (let p1 = (if pressed p then snd (FlushAll E p) else p)
      in if pressed p \<and> flush_waits E p then (Inl Blocked, p1)
         else case freeList p1 of
                idx # rest \<Rightarrow> (Inr idx, p1\<lparr>freeList := rest\<rparr>)
              | [] \<Rightarrow> evict_loop E (evict_fuel E) p1)"

section \<open>Fetching, unpinning and allocating\<close>

definition FetchPage :: "('d, 'e) env \<Rightarrow> PageID \<Rightarrow> ('d, 'e) pool \<Rightarrow> nat result \<times> ('d, 'e) pool" where
  "FetchPage E i p =
     (case map_of (pageTable p) i of
        Some frameIdx \<Rightarrow>
          (Inr frameIdx,
           pin_frame frameIdx (p\<lparr>metrics := map_option IncrBufferPoolHit (metrics p),
                                 evictor := RecordAccess (pol E) i (evictor p)\<rparr>))
      | None \<Rightarrow>
          (case getAvailableFrame E (p\<lparr>metrics := map_option IncrBufferPoolMiss (metrics p)\<rparr>) of
             (Inl e, p1) \<Rightarrow> (Inl e, p1)
           | (Inr frameIdx, p1) \<Rightarrow>
               let (data, e) = ReadPage (dev E) i zero_page (disk p1);
                   p2 = upd_frame frameIdx (\<lambda>pg. pg\<lparr>pgID := i, pgPin := 1, pgDirty := False, pgData := data\<rparr>) p1;
                   failed = p2\<lparr>freeList := freeList p2 @ [frameIdx]\<rparr>
               in if e \<noteq> None \<and> e \<noteq> Some ErrEOF then (Inl (the e), failed)
                  else if \<not> (\<forall>b\<in>set data. b = 0) \<and> \<not> isBTreeKVPage i \<and>
                          GetChecksum data \<noteq> ComputeChecksum data \<and> GetChecksum data \<noteq> 0
                  then (Inl ErrChecksum, failed)
                  else (Inr frameIdx, p2\<lparr>pageTable := AList.update i frameIdx (pageTable p2),
                                        evictor := RecordAccess (pol E) i (evictor p2)\<rparr>)))"

definition UnpinPage :: "PageID \<Rightarrow> bool \<Rightarrow> ('d, 'e) pool \<Rightarrow> ('d, 'e) pool" where
  "UnpinPage i isDirty p =
     (case map_of (pageTable p) i of
        None \<Rightarrow> p
      | Some frameIdx \<Rightarrow>
          upd_frame frameIdx (\<lambda>pg. pg\<lparr>pgPin := pgPin pg - 1, pgDirty := (isDirty \<or> pgDirty pg)\<rparr>) p)"

definition NewPage :: "('d, 'e) env \<Rightarrow> ('d, 'e) pool \<Rightarrow> nat result \<times> ('d, 'e) pool" where
  "NewPage E p =
     (case Stat (dev E) (disk p) of
        Inl e \<Rightarrow> (Inl e, p)
      | Inr n \<Rightarrow>
          let newID = word_of_nat (n div PageSize);
              (e, dsk) = WritePage (dev E) newID zero_page (disk p)
          in (case e of
                Some err \<Rightarrow> (Inl err, p\<lparr>disk := dsk\<rparr>)
              | None \<Rightarrow>
                  (case FetchPage E newID (p\<lparr>disk := dsk\<rparr>) of
                     (Inl err, p1) \<Rightarrow> (Inl err, p1)
                   | (Inr idx, p1) \<Rightarrow> (Inr idx, upd_frame idx (\<lambda>pg. pg\<lparr>pgData := Init (pgData pg)\<rparr>) p1))))"

section \<open>Well-formed pools\<close>

text \<open>The page table is a partial injection into the frames, disjoint from the free list, and
  every cached frame carries its identifier.\<close>

definition pool_wf :: "('d, 'e) pool \<Rightarrow> bool" where
  "pool_wf p \<longleftrightarrow> distinct (map fst (pageTable p)) \<and> distinct (map snd (pageTable p) @ freeList p) \<and>
     (\<forall>idx\<in>set (freeList p). idx < length (frames p)) \<and>
     (\<forall>(i, idx)\<in>set (pageTable p). idx < length (frames p) \<and> pgID (frames p ! idx) = i \<and> unat i < 2 ^ 48) \<and>
     (\<forall>pg\<in>set (frames p). length (pgData pg) = PageSize)"

text \<open>A frame that is not flagged dirty holds what the device holds, except for the pages in
  \<open>M\<close>: pages that are being modified, which are pinned.\<close>

definition coherent :: "('d \<Rightarrow> nat \<Rightarrow> byte) \<Rightarrow> PageID set \<Rightarrow> ('d, 'e) pool \<Rightarrow> bool" where
  "coherent st M p \<longleftrightarrow> (\<forall>(i, idx)\<in>set (pageTable p).
     (i \<in> M \<and> 0 < pgPin (frames p ! idx)) \<or> pgDirty (frames p ! idx) \<or> pgData (frames p ! idx) = page_at st (disk p) i)"

definition pool_inv ::
  "('d \<Rightarrow> nat \<Rightarrow> byte) \<Rightarrow> ('e \<Rightarrow> bool) \<Rightarrow> ('e \<Rightarrow> PageID set) \<Rightarrow> PageID set \<Rightarrow> ('d, 'e) pool \<Rightarrow> bool" where
  "pool_inv st einv tracked M p \<longleftrightarrow>
     pool_wf p \<and> coherent st M p \<and> einv (evictor p) \<and> fst ` set (pageTable p) \<subseteq> tracked (evictor p)"

text \<open>What a page contains as seen through the pool.\<close>

definition pool_view :: "('d \<Rightarrow> nat \<Rightarrow> byte) \<Rightarrow> ('d, 'e) pool \<Rightarrow> PageID \<Rightarrow> bytes" where
  "pool_view st p i =
     (case map_of (pageTable p) i of
        Some idx \<Rightarrow> pgData (frames p ! idx)
      | None \<Rightarrow> page_at st (disk p) i)"

text \<open>Writing a slotted page back changes its checksum field; B-tree pages are written as
  they are.\<close>

definition same_page :: "PageID \<Rightarrow> bytes \<Rightarrow> bytes \<Rightarrow> bool" where
  "same_page i a b \<longleftrightarrow> (if isBTreeKVPage i then a = b else drop 4 a = drop 4 b)"

lemma same_page_refl [simp]: "same_page i a a"
  by (simp add: same_page_def)

lemma same_page_trans: "same_page i a b \<Longrightarrow> same_page i b c \<Longrightarrow> same_page i a c"
  by (simp add: same_page_def split: if_splits)

lemma seal_simps [simp]:
  "pgID (seal pg) = pgID pg" "pgPin (seal pg) = pgPin pg" "pgDirty (seal pg) = pgDirty pg"
  "pgVersion (seal pg) = pgVersion pg"
  by (simp_all add: seal_def)

lemma length_seal [simp]: "length (pgData pg) = PageSize \<Longrightarrow> length (pgData (seal pg)) = PageSize"
  by (simp add: seal_def)

lemma seal_same: "length (pgData pg) = PageSize \<Longrightarrow> same_page (pgID pg) (pgData (seal pg)) (pgData pg)"
  by (simp add: seal_def same_page_def SetChecksum_def wr_le_def blit_def)

lemma pool_wfD:
  assumes "pool_wf p" "map_of (pageTable p) i = Some idx"
  shows "idx < length (frames p)" "pgID (frames p ! idx) = i" "unat i < 2 ^ 48"
    "length (pgData (frames p ! idx)) = PageSize" "idx \<notin> set (freeList p)"
proof -
  have m: "(i, idx) \<in> set (pageTable p)" using assms(2) by (rule map_of_SomeD)
  then show 1: "idx < length (frames p)" "pgID (frames p ! idx) = i" "unat i < 2 ^ 48"
    using assms(1) by (auto simp: pool_wf_def)
  then show "length (pgData (frames p ! idx)) = PageSize" using assms(1) by (simp add: pool_wf_def)
  show "idx \<notin> set (freeList p)" using assms(1) m by (auto simp: pool_wf_def image_iff)
qed

lemma pool_wf_inj:
  assumes "pool_wf p" "map_of (pageTable p) i = Some idx" "map_of (pageTable p) j = Some idx"
  shows "i = j"
  using pool_wfD(2) [OF assms(1,2)] pool_wfD(2) [OF assms(1,3)] by simp

lemma coherentI:
  assumes "pool_wf p"
    and "\<And>i idx. map_of (pageTable p) i = Some idx \<Longrightarrow>
      (i \<in> M \<and> 0 < pgPin (frames p ! idx)) \<or> pgDirty (frames p ! idx) \<or> pgData (frames p ! idx) = page_at st (disk p) i"
  shows "coherent st M p"
  using assms by (auto simp: coherent_def pool_wf_def map_of_eq_Some_iff)

lemma coherentD:
  "coherent st M p \<Longrightarrow> map_of (pageTable p) i = Some idx \<Longrightarrow>
   (i \<in> M \<and> 0 < pgPin (frames p ! idx)) \<or> pgDirty (frames p ! idx) \<or> pgData (frames p ! idx) = page_at st (disk p) i"
  using map_of_SomeD [of "pageTable p" i idx] by (auto simp: coherent_def)

text \<open>Replacing the frame of a cached page by one with the same identifier.\<close>

lemma pool_wf_upd:
  assumes "pool_wf p" "pgID pg = pgID (frames p ! idx)" "length (pgData pg) = PageSize"
  shows "pool_wf (p\<lparr>frames := (frames p)[idx := pg]\<rparr>)"
proof -
  have i: "pgID ((frames p)[idx := pg] ! j) = pgID (frames p ! j)" for j
    using assms(2) by (cases "idx < length (frames p)") (simp_all add: nth_list_update list_update_beyond)
  have "\<forall>q\<in>set ((frames p)[idx := pg]). length (pgData q) = PageSize"
    using assms(1,3) set_update_subset_insert [of "frames p" idx pg] unfolding pool_wf_def by blast
  with assms(1) show ?thesis by (simp add: pool_wf_def i)
qed

lemma pool_wf_cong:
  "pool_wf p \<Longrightarrow> pageTable p' = pageTable p \<Longrightarrow> freeList p' = freeList p \<Longrightarrow> frames p' = frames p \<Longrightarrow> pool_wf p'"
  by (simp add: pool_wf_def)

section \<open>Transparency of the pool\<close>

locale buffer_pool =
  block_device "dev E" stored dsize + eviction_policy "pol E" einv tracked
  for E :: "('d, 'e) env" and stored :: "'d \<Rightarrow> nat \<Rightarrow> byte" and dsize :: "'d \<Rightarrow> nat"
    and einv :: "'e \<Rightarrow> bool" and tracked :: "'e \<Rightarrow> PageID set" +
  assumes rng_perm: "mset (rng E l) = mset l"
    and no_latch: "latches E = []"
begin

lemma waits_free [simp]: "\<not> flush_waits E p"
  by (simp add: flush_waits_def no_latch)

text \<open>The two operations that can wait, for a caller that holds no latch.\<close>

lemma FlushAll_free:
  "FlushAll E p =
     (let (firstErr, p2) = fold (flush_page E) (dirty_frames E p) (None, fold pin_frame (dirty_frames E p) p);
          (syncErr, dsk) = Sync (dev E) (disk p2)
      in (if firstErr = None then syncErr else firstErr, p2\<lparr>disk := dsk\<rparr>))"
proof -
  have "takeWhile (\<lambda>idx. pgID (frames p ! idx) \<notin> set (latches E)) l = l" for l by (induction l) (simp_all add: no_latch)
  then show ?thesis by (simp add: FlushAll_def Let_def del: takeWhile_eq_all_conv)
qed

lemma getAvailableFrame_free:
  "getAvailableFrame E p =
     (let p1 = (if pressed p then snd (FlushAll E p) else p)
      in case freeList p1 of
           idx # rest \<Rightarrow> (Inr idx, p1\<lparr>freeList := rest\<rparr>)
         | [] \<Rightarrow> evict_loop E (evict_fuel E) p1)"
  by (simp add: getAvailableFrame_def Let_def)


abbreviation inv where "inv \<equiv> pool_inv stored einv tracked"
abbreviation view where "view \<equiv> pool_view stored"

text \<open>Every page reads the same through both pools.\<close>

definition transparent :: "('d, 'e) pool \<Rightarrow> ('d, 'e) pool \<Rightarrow> bool" where
  "transparent p p' \<longleftrightarrow> (\<forall>i. unat i < 2 ^ 48 \<longrightarrow> same_page i (view p' i) (view p i))"

lemma transparent_refl [simp]: "transparent p p"
  by (simp add: transparent_def)

lemma transparent_trans: "transparent p q \<Longrightarrow> transparent q r \<Longrightarrow> transparent p r"
  unfolding transparent_def by (blast intro: same_page_trans)

lemma inv_pin_frame:
  assumes "inv M p"
  shows "inv M (pin_frame idx p) \<and> view (pin_frame idx p) = view p \<and> pageTable (pin_frame idx p) = pageTable p"
proof (cases "idx < length (frames p)")
  case True
  let ?p = "pin_frame idx p"
  have f: "pgData (frames ?p ! j) = pgData (frames p ! j)" "pgDirty (frames ?p ! j) = pgDirty (frames p ! j)"
    "pgPin (frames p ! j) \<le> pgPin (frames ?p ! j)" for j
    using True by (auto simp: pin_frame_def upd_frame_def nth_list_update)
  have wf: "pool_wf ?p"
    unfolding pin_frame_def upd_frame_def using assms True
    by (intro pool_wf_upd) (simp_all add: pool_inv_def pool_wf_def)
  have t: "pageTable ?p = pageTable p" "disk ?p = disk p" "evictor ?p = evictor p"
    by (simp_all add: pin_frame_def upd_frame_def)
  have "coherent stored M ?p"
    using assms coherentD [of stored M p] f order.strict_trans2
    by (intro coherentI [OF wf]) (fastforce simp: t pool_inv_def)
  with assms wf t f show ?thesis by (auto simp: pool_inv_def pool_view_def fun_eq_iff split: option.splits)
next
  case False
  then have "pin_frame idx p = p" by (simp add: pin_frame_def upd_frame_def list_update_beyond)
  with assms show ?thesis by simp
qed

lemma inv_pin_frames:
  "inv M p \<Longrightarrow> inv M (fold pin_frame l p) \<and> view (fold pin_frame l p) = view p \<and>
     pageTable (fold pin_frame l p) = pageTable p \<and> freeList (fold pin_frame l p) = freeList p \<and>
     length (frames (fold pin_frame l p)) = length (frames p) \<and>
     (\<forall>j. pgDirty (frames (fold pin_frame l p) ! j) = pgDirty (frames p ! j))"
proof (induction l arbitrary: p)
  case (Cons a l)
  have d: "pgDirty (frames (pin_frame a p) ! j) = pgDirty (frames p ! j)" for j
    by (cases "a < length (frames p)") (simp_all add: pin_frame_def upd_frame_def nth_list_update list_update_beyond)
  have "freeList (pin_frame a p) = freeList p" "length (frames (pin_frame a p)) = length (frames p)"
    by (simp_all add: pin_frame_def upd_frame_def)
  with Cons.IH [of "pin_frame a p"] inv_pin_frame [OF Cons.prems, of a] d show ?case by simp
qed simp

text \<open>Storing the sealed image of one cached page.\<close>

lemma store_frame:
  assumes i: "inv M p" and m: "map_of (pageTable p) i = Some idx"
    and w: "WritePage (dev E) i (pgData (seal (frames p ! idx))) (disk p) = (e, dsk)"
    and pg: "pgID pg = i" "pgData pg = pgData (seal (frames p ! idx))" "e = None \<or> pgDirty pg"
  defines "p' \<equiv> p\<lparr>frames := (frames p)[idx := pg], disk := dsk\<rparr>"
  shows "inv M p' \<and> transparent p p' \<and> (e = None \<longrightarrow> page_at stored dsk i = pgData pg)"
proof -
  have wf: "pool_wf p" and co: "coherent stored M p" using i by (simp_all add: pool_inv_def)
  note idx = pool_wfD [OF wf m]
  let ?d = "pgData (seal (frames p ! idx))"
  have len: "length ?d = PageSize" using idx by simp
  have "pool_wf (p\<lparr>frames := (frames p)[idx := pg]\<rparr>)"
    using wf pg idx len by (intro pool_wf_upd) simp_all
  then have wf': "pool_wf p'" by (rule pool_wf_cong) (simp_all add: p'_def)
  note W = WritePage_view [OF idx(3) w len]
  have other: "frames p' ! j = frames p ! j" if "j \<noteq> idx" for j using that by (simp add: p'_def)
  have this': "frames p' ! idx = pg" using idx(1) by (simp add: p'_def)
  have t: "pageTable p' = pageTable p" "disk p' = dsk" "evictor p' = evictor p" by (simp_all add: p'_def)
  have "coherent stored M p'"
  proof (rule coherentI [OF wf'])
    fix j jdx assume j: "map_of (pageTable p') j = Some jdx"
    show "(j \<in> M \<and> 0 < pgPin (frames p' ! jdx)) \<or> pgDirty (frames p' ! jdx) \<or> pgData (frames p' ! jdx) = page_at stored (disk p') j"
    proof (cases "j = i")
      case True
      then show ?thesis using j m t this' pg W(1) by auto
    next
      case False
      then have "jdx \<noteq> idx" using pool_wf_inj [OF wf, of j jdx i] j m t by auto
      then show ?thesis using coherentD [OF co, of j jdx] j t other W(3) [OF False] by simp
    qed
  qed
  moreover have "same_page j (view p' j) (view p j)" for j
  proof (cases "j = i")
    case True
    then show ?thesis using m t this' pg seal_same [of "frames p ! idx"] idx by (simp add: pool_view_def)
  next
    case False
    show ?thesis
    proof (cases "map_of (pageTable p) j")
      case None
      then show ?thesis using t W(3) [OF False] by (simp add: pool_view_def)
    next
      case (Some jdx)
      then have "jdx \<noteq> idx" using pool_wf_inj [OF wf, of j jdx i] m False by auto
      then show ?thesis using t other Some by (simp add: pool_view_def)
    qed
  qed
  ultimately show ?thesis
    using i wf' t W(1) pg by (simp add: pool_inv_def transparent_def)
qed

end

context buffer_pool
begin

lemma flush_page_inv:
  assumes i: "inv M p" and m: "map_of (pageTable p) i = Some idx" and d: "pgDirty (frames p ! idx)"
    and run: "flush_page E idx (err, p) = (err', p')"
  shows "inv M p' \<and> transparent p p' \<and> pageTable p' = pageTable p \<and> freeList p' = freeList p \<and>
    length (frames p') = length (frames p) \<and> (\<forall>j. j \<noteq> idx \<longrightarrow> frames p' ! j = frames p ! j) \<and>
    (err' = None \<longrightarrow> err = None \<and> page_at stored (disk p') i = pgData (frames p' ! idx) \<and> \<not> pgDirty (frames p' ! idx)) \<and>
    (\<forall>j. j \<noteq> i \<longrightarrow> page_at stored (disk p') j = page_at stored (disk p) j)"
proof -
  have wf: "pool_wf p" using i by (simp add: pool_inv_def)
  note idx = pool_wfD [OF wf m]
  obtain e dsk where w: "WritePage (dev E) i (pgData (seal (frames p ! idx))) (disk p) = (e, dsk)" by fastforce
  let ?pg = "seal (frames p ! idx)\<lparr>pgDirty := (if e = None then False else pgDirty (seal (frames p ! idx))),
      pgPin := pgPin (seal (frames p ! idx)) - 1\<rparr>"
  have p': "p' = p\<lparr>frames := (frames p)[idx := ?pg], disk := dsk\<rparr>" and err: "err' = (if err = None then e else err)"
    using run w idx(2) by (auto simp: flush_page_def Let_def split: prod.splits)
  have "inv M p' \<and> transparent p p' \<and> (e = None \<longrightarrow> page_at stored dsk i = pgData ?pg)"
    unfolding p' using idx(2) d by (intro store_frame [OF i m w]) simp_all
  moreover have "page_at stored (disk p') j = page_at stored (disk p) j" if "j \<noteq> i" for j
    unfolding p' using WritePage_view(3) [OF idx(3) w _ that] idx(4) by simp
  ultimately show ?thesis using idx(1) by (auto simp: p' err)
qed

text \<open>A run of the write loop of \<open>FlushAll\<close> over distinct dirty frames.\<close>

lemma flush_fold_inv:
  "inv M p \<Longrightarrow> distinct l \<Longrightarrow> (\<forall>idx\<in>set l. idx \<in> snd ` set (pageTable p) \<and> pgDirty (frames p ! idx)) \<Longrightarrow>
   fold (flush_page E) l (err, p) = (err', p') \<Longrightarrow>
   inv M p' \<and> transparent p p' \<and> pageTable p' = pageTable p \<and> freeList p' = freeList p \<and>
   length (frames p') = length (frames p) \<and> (\<forall>j. j \<notin> set l \<longrightarrow> frames p' ! j = frames p ! j) \<and>
   (err' = None \<longrightarrow> err = None \<and> (\<forall>idx\<in>set l. \<not> pgDirty (frames p' ! idx) \<and>
       page_at stored (disk p') (pgID (frames p' ! idx)) = pgData (frames p' ! idx))) \<and>
   (\<forall>j. j \<notin> (\<lambda>idx. pgID (frames p ! idx)) ` set l \<longrightarrow> page_at stored (disk p') j = page_at stored (disk p) j)"
proof (induction l arbitrary: p err)
  case (Cons idx l)
  have wf: "pool_wf p" using Cons.prems(1) by (simp add: pool_inv_def)
  from Cons.prems(3) obtain i where mem: "(i, idx) \<in> set (pageTable p)" by force
  then have m: "map_of (pageTable p) i = Some idx" using wf by (simp add: pool_wf_def map_of_eq_Some_iff)
  obtain err1 p1 where 1: "flush_page E idx (err, p) = (err1, p1)" by fastforce
  have rest: "fold (flush_page E) l (err1, p1) = (err', p')" using Cons.prems(4) 1 by simp
  note F = flush_page_inv [OF Cons.prems(1) m _ 1]
  have d: "pgDirty (frames p ! idx)" using Cons.prems(3) by simp
  have fr: "frames p1 ! j = frames p ! j" if "j \<noteq> idx" for j using F d that by blast
  have l: "\<forall>j\<in>set l. j \<in> snd ` set (pageTable p1) \<and> pgDirty (frames p1 ! j)"
    using Cons.prems(2,3) F d fr by (metis distinct.simps(2) list.set_intros(2))
  have "inv M p1" "distinct l" using F d Cons.prems(2) by auto
  note IH = Cons.IH [OF this l rest]
  have id1: "pgID (frames p1 ! idx) = i"
    using pool_wfD(2) [of p1 i idx] F d m by (simp add: pool_inv_def)
  have ni: "idx \<notin> set l" using Cons.prems(2) by simp
  have ids: "(\<lambda>j. pgID (frames p1 ! j)) ` set l = (\<lambda>j. pgID (frames p ! j)) ` set l"
    by (rule image_cong) (use fr ni in \<open>metis+\<close>)
  have "i \<notin> (\<lambda>j. pgID (frames p1 ! j)) ` set l"
  proof
    assume "i \<in> (\<lambda>j. pgID (frames p1 ! j)) ` set l"
    then obtain j where j: "j \<in> set l" "pgID (frames p1 ! j) = i" by blast
    then obtain k where "(k, j) \<in> set (pageTable p1)" using l by force
    then have "map_of (pageTable p1) k = Some j" "k = i"
      using \<open>inv M p1\<close> j by (auto simp: pool_inv_def pool_wf_def map_of_eq_Some_iff)
    then show False using m F d j ni by simp
  qed
  moreover have "\<not> pgDirty (frames p' ! idx) \<and> page_at stored (disk p') (pgID (frames p' ! idx)) = pgData (frames p' ! idx)" if "err' = None"
  proof -
    have "err1 = None" "frames p' ! idx = frames p1 ! idx" using IH that ni by blast+
    moreover have "page_at stored (disk p') i = page_at stored (disk p1) i" using IH calculation \<open>i \<notin> _\<close> by blast
    ultimately show ?thesis using F d id1 by simp
  qed
  moreover have "pgID (frames p ! idx) = i" using pool_wfD(2) [OF wf m] .
  moreover have "transparent p p'" using IH F d transparent_trans by blast
  ultimately show ?case
    using IH F d fr ids by (simp add: ids)
qed simp

lemma dirty_frames_props:
  assumes "pool_wf p"
  shows "distinct (dirty_frames E p)"
    "idx \<in> set (dirty_frames E p) \<longleftrightarrow> idx \<in> snd ` set (pageTable p) \<and> pgDirty (frames p ! idx)"
proof -
  have s: "set (rng E (pageTable p)) = set (pageTable p)" using rng_perm by (metis set_mset_mset)
  have "distinct (map snd (rng E (pageTable p)))"
  proof -
    have "mset (map snd (rng E (pageTable p))) = mset (map snd (pageTable p))" using rng_perm by simp
    moreover have "distinct (map snd (pageTable p))" using assms by (simp add: pool_wf_def)
    ultimately show ?thesis using mset_eq_imp_distinct_iff by blast
  qed
  then show "distinct (dirty_frames E p)" by (simp add: dirty_frames_def)
  show "idx \<in> set (dirty_frames E p) \<longleftrightarrow> idx \<in> snd ` set (pageTable p) \<and> pgDirty (frames p ! idx)"
    using s by (auto simp: dirty_frames_def)
qed

lemma FlushAll_inv:
  assumes i: "inv M p" and run: "FlushAll E p = (e, p')"
  shows "inv M p' \<and> transparent p p' \<and> pageTable p' = pageTable p \<and> freeList p' = freeList p \<and>
    length (frames p') = length (frames p) \<and>
    (e = None \<longrightarrow> (\<forall>idx\<in>snd ` set (pageTable p'). \<not> pgDirty (frames p' ! idx) \<and>
      (pgDirty (frames p ! idx) \<longrightarrow> page_at stored (disk p') (pgID (frames p' ! idx)) = pgData (frames p' ! idx))))"
proof -
  let ?l = "dirty_frames E p" let ?p1 = "fold pin_frame ?l p"
  obtain err p2 where f: "fold (flush_page E) ?l (None, ?p1) = (err, p2)" by fastforce
  obtain es dsk where s: "Sync (dev E) (disk p2) = (es, dsk)" by fastforce
  have p': "p' = p2\<lparr>disk := dsk\<rparr>" and e: "e = (if err = None then es else err)"
    using run f s by (auto simp: FlushAll_free Let_def)
  note P = inv_pin_frames [OF i, of ?l]
  note D = dirty_frames_props [OF pool_inv_def [THEN iffD1, THEN conjunct1, OF i]]
  have l: "\<forall>idx\<in>set ?l. idx \<in> snd ` set (pageTable ?p1) \<and> pgDirty (frames ?p1 ! idx)" using D(2) P by simp
  have "inv M ?p1" using P by blast
  note F = flush_fold_inv [OF this D(1) l f]
  have pa: "page_at stored dsk = page_at stored (disk p2)" using page_at_sync [OF s] .
  have wf2: "pool_wf p'" using F unfolding pool_inv_def p' by (auto elim: pool_wf_cong)
  have "inv M p2" using F by blast
  then have inv': "inv M p'" using wf2 pa by (simp add: pool_inv_def p' coherent_def)
  have v: "view p' = view p2" using pa by (simp add: pool_view_def p' fun_eq_iff split: option.split)
  have v1: "view ?p1 = view p" using P by blast
  have "transparent ?p1 p2" using F by blast
  then have "transparent p p'" unfolding transparent_def v v1 .
  moreover have "\<not> pgDirty (frames p' ! idx) \<and>
      (pgDirty (frames p ! idx) \<longrightarrow> page_at stored (disk p') (pgID (frames p' ! idx)) = pgData (frames p' ! idx))"
    if "e = None" "idx \<in> snd ` set (pageTable p')" for idx
  proof (cases "idx \<in> set ?l")
    case True
    with that F pa show ?thesis by (auto simp: p' e split: if_splits)
  next
    case False
    moreover have "\<not> pgDirty (frames p ! idx)" using False D(2) that(2) F P by (auto simp: p')
    ultimately show ?thesis using F P by (simp add: p')
  qed
  ultimately show ?thesis using inv' F P by (simp add: p')
qed

end

lemma pool_view_cong:
  "pageTable p' = pageTable p \<Longrightarrow> frames p' = frames p \<Longrightarrow> disk p' = disk p \<Longrightarrow> pool_view st p' = pool_view st p"
  by (simp add: pool_view_def fun_eq_iff split: option.split)

lemma delete_table:
  assumes "pool_wf p" "map_of (pageTable p) v = Some idx"
  shows "pool_wf (p\<lparr>evictor := ev, pageTable := AList.delete v (pageTable p)\<rparr>)"
    and "idx \<notin> snd ` set (AList.delete v (pageTable p))"
proof -
  have sub: "set (AList.delete v (pageTable p)) \<subseteq> set (pageTable p)" by (auto simp: AList.delete_eq)
  have d: "distinct (map snd (pageTable p))" "distinct (map fst (pageTable p))" using assms(1) by (simp_all add: pool_wf_def)
  have "distinct (map snd (AList.delete v (pageTable p)))"
    using d(1) by (simp add: AList.delete_eq distinct_map_filter)
  then show "pool_wf (p\<lparr>evictor := ev, pageTable := AList.delete v (pageTable p)\<rparr>)"
    using assms(1) sub d(2) by (auto simp: pool_wf_def AList.distinct_delete image_iff)
  show "idx \<notin> snd ` set (AList.delete v (pageTable p))"
  proof
    assume "idx \<in> snd ` set (AList.delete v (pageTable p))"
    then obtain w where w: "(w, idx) \<in> set (pageTable p)" "w \<noteq> v" by (auto simp: AList.delete_eq)
    then have "map_of (pageTable p) w = Some idx" using d(2) by (simp add: map_of_eq_Some_iff)
    with pool_wf_inj [OF assms(1) this assms(2)] w show False by simp
  qed
qed

context buffer_pool
begin

text \<open>Dropping an unpinned page whose image is on the device.\<close>

lemma drop_frame:
  assumes i: "inv M p" and m: "map_of (pageTable p) v = Some idx"
    and clean: "pgData (frames p ! idx) = page_at stored (disk p) v"
    and ev: "einv ev" "tracked ev = tracked (evictor p) - {v}"
  defines "p' \<equiv> p\<lparr>evictor := ev, pageTable := AList.delete v (pageTable p)\<rparr>"
  shows "inv M p' \<and> transparent p p' \<and> idx \<notin> snd ` set (pageTable p')"
proof -
  have wf: "pool_wf p" using i by (simp add: pool_inv_def)
  have v: "view p' = view p"
    using m clean by (auto simp: p'_def pool_view_def fun_eq_iff AList.delete_conv' split: option.split)
  have "fst ` set (AList.delete v (pageTable p)) \<subseteq> tracked ev"
    using i ev by (auto simp: pool_inv_def AList.delete_eq)
  moreover have "coherent stored M p'"
    using i by (auto simp: pool_inv_def coherent_def p'_def AList.delete_eq)
  moreover have "pool_wf p'" unfolding p'_def by (rule delete_table(1) [OF wf m])
  moreover have "idx \<notin> snd ` set (pageTable p')" using delete_table(2) [OF wf m] by (simp add: p'_def)
  ultimately show ?thesis using ev by (simp add: pool_inv_def p'_def [symmetric] transparent_def v) (simp add: p'_def)
qed

lemma inv_evictor:
  "inv M p \<Longrightarrow> einv ev \<Longrightarrow> fst ` set (pageTable p) \<subseteq> tracked ev \<Longrightarrow>
   inv M (p\<lparr>evictor := ev\<rparr>) \<and> transparent p (p\<lparr>evictor := ev\<rparr>)"
  using pool_view_cong [of "p\<lparr>evictor := ev\<rparr>" p stored]
  by (simp add: pool_inv_def pool_wf_def coherent_def transparent_def)

lemma evict_loop_inv:
  "inv M p \<Longrightarrow> evict_loop E n p = (r, p') \<Longrightarrow>
   inv M p' \<and> transparent p p' \<and> freeList p' = freeList p \<and> length (frames p') = length (frames p) \<and>
   (\<forall>idx. r = Inr idx \<longrightarrow> idx < length (frames p) \<and> idx \<notin> snd ` set (pageTable p') \<and> idx \<notin> set (freeList p')) \<and>
   fst ` set (pageTable p') \<subseteq> fst ` set (pageTable p)"
proof (induction n arbitrary: p)
  case (Suc n)
  obtain vo ev where evict: "Evict (pol E) (evictor p) = (vo, ev)" by fastforce
  have ei: "einv (evictor p)" and tr: "fst ` set (pageTable p) \<subseteq> tracked (evictor p)" and wf: "pool_wf p"
    using Suc.prems(1) by (simp_all add: pool_inv_def)
  show ?case
  proof (cases vo)
    case None
    then have "ev = evictor p" using evict_none [OF ei] evict by simp
    then show ?thesis using Suc.prems evict None by auto
  next
    case (Some v)
    have V: "einv ev" "tracked ev = tracked (evictor p) - {v}" "v \<in> tracked (evictor p)"
      using evict_some [OF ei] evict Some by auto
    show ?thesis
    proof (cases "map_of (pageTable p) v")
      case None
      then have "fst ` set (pageTable p) \<subseteq> tracked ev" using tr V by (auto simp: map_of_eq_None_iff)
      note q = inv_evictor [OF Suc.prems(1) V(1) this]
      have "evict_loop E n (p\<lparr>evictor := ev\<rparr>) = (r, p')" using Suc.prems(2) evict Some None by simp
      from Suc.IH [OF conjunct1 [OF q] this] q show ?thesis by (auto intro: transparent_trans)
    next
      case (Some idx)
      note idx = pool_wfD [OF wf Some]
      have re: "einv (RecordAccess (pol E) v ev)" "fst ` set (pageTable p) \<subseteq> tracked (RecordAccess (pol E) v ev)"
        using access [OF V(1), of v] V tr by auto
      show ?thesis
      proof (cases "0 < pgPin (frames p ! idx)")
        case True
        note q = inv_evictor [OF Suc.prems(1) re]
        have "evict_loop E n (p\<lparr>evictor := RecordAccess (pol E) v ev\<rparr>) = (r, p')"
          using Suc.prems(2) evict \<open>vo = Some v\<close> Some True by simp
        from Suc.IH [OF conjunct1 [OF q] this] q show ?thesis by (auto intro: transparent_trans)
      next
        case unpinned: False
        show ?thesis
        proof (cases "pgDirty (frames p ! idx)")
          case False
          then have "pgData (frames p ! idx) = page_at stored (disk p) v"
            using coherentD [of stored M p v idx] Suc.prems(1) Some unpinned by (auto simp: pool_inv_def)
          note q = drop_frame [OF Suc.prems(1) Some this V(1,2)]
          have "r = Inr idx" "p' = p\<lparr>evictor := ev, pageTable := AList.delete v (pageTable p)\<rparr>"
            using Suc.prems(2) evict \<open>vo = Some v\<close> Some unpinned False by (simp_all add: Let_def)
          with q idx show ?thesis by (auto simp: AList.delete_eq)
        next
          case True
          obtain e dsk where w: "WritePage (dev E) v (pgData (seal (frames p ! idx))) (disk p) = (e, dsk)" by fastforce
          let ?p1 = "p\<lparr>frames := (frames p)[idx := seal (frames p ! idx)], disk := dsk\<rparr>"
          have s: "inv M ?p1 \<and> transparent p ?p1 \<and> (e = None \<longrightarrow> page_at stored dsk v = pgData (seal (frames p ! idx)))"
            using idx True by (intro store_frame [OF Suc.prems(1) Some w]) simp_all
          have res: "(r, p') = (case e of
              Some err \<Rightarrow> (Inl err, ?p1\<lparr>evictor := RecordAccess (pol E) v ev\<rparr>)
            | None \<Rightarrow> (Inr idx, ?p1\<lparr>evictor := ev, pageTable := AList.delete v (pageTable p)\<rparr>))"
            using Suc.prems(2) evict \<open>vo = Some v\<close> Some unpinned True w idx(2) by (simp add: Let_def)
          show ?thesis
          proof (cases e)
            case None
            have m1: "map_of (pageTable ?p1) v = Some idx" using Some by simp
            have "pgData (frames ?p1 ! idx) = page_at stored (disk ?p1) v" using s None idx(1) by simp
            note q = drop_frame [OF conjunct1 [OF s] m1 this V(1)]
            have "r = Inr idx" "p' = ?p1\<lparr>evictor := ev, pageTable := AList.delete v (pageTable ?p1)\<rparr>"
              using res None by simp_all
            with q s V(2) idx show ?thesis by (auto simp: AList.delete_eq intro: transparent_trans)
          next
            case (Some err)
            have "inv M (?p1\<lparr>evictor := RecordAccess (pol E) v ev\<rparr>) \<and> transparent ?p1 (?p1\<lparr>evictor := RecordAccess (pol E) v ev\<rparr>)"
              using s re by (intro inv_evictor) simp_all
            with s res Some show ?thesis by (auto intro: transparent_trans)
          qed
        qed
      qed
    qed
  qed
qed auto

lemma getAvailableFrame_inv:
  assumes i: "inv M p" and run: "getAvailableFrame E p = (r, p')"
  shows "inv M p' \<and> transparent p p' \<and> length (frames p') = length (frames p) \<and>
    (\<forall>idx. r = Inr idx \<longrightarrow> idx < length (frames p) \<and> idx \<notin> snd ` set (pageTable p') \<and> idx \<notin> set (freeList p')) \<and>
    fst ` set (pageTable p') \<subseteq> fst ` set (pageTable p)"
proof -
  define p1 where "p1 = (if pressed p then snd (FlushAll E p) else p)"
  obtain e q where f: "FlushAll E p = (e, q)" by fastforce
  have p1: "inv M p1" "transparent p p1" "length (frames p1) = length (frames p)" "pageTable p1 = pageTable p"
    using FlushAll_inv [OF i f] i f by (simp_all add: p1_def)
  have run1: "(case freeList p1 of idx # rest \<Rightarrow> (Inr idx, p1\<lparr>freeList := rest\<rparr>) | [] \<Rightarrow> evict_loop E (evict_fuel E) p1) = (r, p')"
    using run unfolding getAvailableFrame_free Let_def p1_def [symmetric] .
  show ?thesis
  proof (cases "freeList p1")
    case Nil
    with run1 have "evict_loop E (evict_fuel E) p1 = (r, p')" by simp
    from evict_loop_inv [OF p1(1) this] p1 show ?thesis by (auto intro: transparent_trans)
  next
    case (Cons idx rest)
    with run1 have r: "r = Inr idx" "p' = p1\<lparr>freeList := rest\<rparr>" by simp_all
    have wf: "pool_wf p1" using p1(1) by (simp add: pool_inv_def)
    have "idx < length (frames p1)" "idx \<notin> snd ` set (pageTable p1)" "idx \<notin> set rest" "pool_wf p'"
      using wf Cons by (auto simp: pool_wf_def r)
    moreover have "coherent stored M p'" using p1(1) by (simp add: pool_inv_def coherent_def r)
    moreover have "view p' = view p1" by (simp add: pool_view_def fun_eq_iff r split: option.split)
    ultimately show ?thesis using p1 r by (auto simp: pool_inv_def transparent_def)
  qed
qed

end

context buffer_pool
begin

text \<open>
  \<open>FetchPage\<close>: the pool stays well formed and transparent whatever happens; a success
  hands out the frame that holds the page, pinned.
\<close>

lemma load_frame:
  assumes i: "inv M p" and idx: "idx < length (frames p)" "idx \<notin> snd ` set (pageTable p)" "idx \<notin> set (freeList p)"
    and new: "map_of (pageTable p) j = None" "unat j < 2 ^ 48" and data: "length data = PageSize"
  defines "p2 \<equiv> upd_frame idx (\<lambda>pg. pg\<lparr>pgID := j, pgPin := 1, pgDirty := False, pgData := data\<rparr>) p"
  shows "inv M (p2\<lparr>freeList := freeList p2 @ [idx]\<rparr>) \<and> transparent p (p2\<lparr>freeList := freeList p2 @ [idx]\<rparr>)"
    and "data = page_at stored (disk p) j \<Longrightarrow>
      inv M (p2\<lparr>pageTable := AList.update j idx (pageTable p2), evictor := RecordAccess (pol E) j (evictor p2)\<rparr>) \<and>
      view (p2\<lparr>pageTable := AList.update j idx (pageTable p2), evictor := RecordAccess (pol E) j (evictor p2)\<rparr>) = view p"
proof -
  let ?pg = "(frames p ! idx)\<lparr>pgID := j, pgPin := 1, pgDirty := False, pgData := data\<rparr>"
  have p2: "p2 = p\<lparr>frames := (frames p)[idx := ?pg]\<rparr>" by (simp add: p2_def upd_frame_def)
  have wf: "pool_wf p" using i by (simp add: pool_inv_def)
  have other: "frames p2 ! k = frames p ! k" if "k \<in> snd ` set (pageTable p)" for k
  proof -
    have "k \<noteq> idx" using that idx(2) by blast
    then show ?thesis by (simp add: p2)
  qed
  have this': "frames p2 ! idx = ?pg" using idx by (simp add: p2)
  have lens: "\<forall>pg\<in>set (frames p2). length (pgData pg) = PageSize"
    using wf data set_update_subset_insert [of "frames p" idx ?pg] by (auto simp: p2 pool_wf_def)
  have table: "\<forall>(i, k)\<in>set (pageTable p). k < length (frames p2) \<and> pgID (frames p2 ! k) = i \<and> unat i < 2 ^ 48"
    using wf other by (fastforce simp: pool_wf_def p2)
  let ?f = "p2\<lparr>freeList := freeList p2 @ [idx]\<rparr>"
  let ?n = "p2\<lparr>pageTable := AList.update j idx (pageTable p2), evictor := RecordAccess (pol E) j (evictor p2)\<rparr>"
  have fr: "frames ?f = frames p2" "pageTable ?f = pageTable p" "disk ?f = disk p" "evictor ?f = evictor p" by (simp_all add: p2)
  have wff: "pool_wf ?f" using wf idx lens table by (auto simp: pool_wf_def p2)
  have "coherent stored M ?f"
    using i other by (fastforce simp: pool_inv_def coherent_def fr)
  moreover have "view ?f = view p"
  proof
    fix k show "view ?f k = view p k"
    proof (cases "map_of (pageTable p) k")
      case (Some kdx)
      then have "kdx \<in> snd ` set (pageTable p)" using map_of_SomeD by force
      with Some other fr show ?thesis by (simp add: pool_view_def)
    qed (simp add: pool_view_def fr)
  qed
  ultimately show "inv M ?f \<and> transparent p ?f"
    using i wff fr by (simp add: pool_inv_def transparent_def)
  assume ok: "data = page_at stored (disk p) j"
  have fresh: "j \<notin> fst ` set (pageTable p)" using new by (simp add: map_of_eq_None_iff)
  then have upd: "AList.update j idx (pageTable p2) = pageTable p @ [(j, idx)]"
    by (simp add: AList_update_fresh p2)
  have fn: "frames ?n = frames p2" "pageTable ?n = pageTable p @ [(j, idx)]" "disk ?n = disk p" "freeList ?n = freeList p"
    by (simp_all add: upd) (simp_all add: p2)
  have wfn: "pool_wf ?n"
  proof -
    have "distinct (map fst (pageTable p @ [(j, idx)]))" using wf fresh by (simp add: pool_wf_def)
    moreover have "distinct (map snd (pageTable p @ [(j, idx)]) @ freeList p)"
      using wf idx(2,3) by (auto simp: pool_wf_def)
    moreover have "\<forall>k\<in>set (freeList p). k < length (frames p2)" using wf by (simp add: pool_wf_def p2)
    moreover have "idx < length (frames p2) \<and> pgID (frames p2 ! idx) = j" using idx(1) this' by (simp add: p2)
    ultimately show ?thesis unfolding pool_wf_def fn using lens table new(2) by simp
  qed
  moreover have "coherent stored M ?n"
  proof -
    have "(l \<in> M \<and> 0 < pgPin (frames p2 ! k)) \<or> pgDirty (frames p2 ! k) \<or> pgData (frames p2 ! k) = page_at stored (disk p) l"
      if "(l, k) \<in> set (pageTable p)" for l k
    proof -
      have "frames p2 ! k = frames p ! k" using that by (intro other) force
      with i that show ?thesis by (auto simp: pool_inv_def coherent_def)
    qed
    then show ?thesis using this' ok unfolding coherent_def fn by auto
  qed
  moreover have "view ?n = view p"
  proof
    fix k show "view ?n k = view p k"
    proof (cases "map_of (pageTable p) k")
      case (Some kdx)
      then have "kdx \<in> snd ` set (pageTable p)" using map_of_SomeD by force
      with Some other show ?thesis unfolding pool_view_def fn by (simp add: map_add_def)
    next
      case None
      then show ?thesis using this' ok unfolding pool_view_def fn by (simp add: map_add_def)
    qed
  qed
  moreover have "einv (evictor ?n) \<and> fst ` set (pageTable ?n) \<subseteq> tracked (evictor ?n)"
  proof -
    have ev: "evictor ?n = RecordAccess (pol E) j (evictor p)" by (simp add: p2)
    have "einv (evictor p)" "fst ` set (pageTable p) \<subseteq> tracked (evictor p)" using i by (simp_all add: pool_inv_def)
    with access [of "evictor p" j] show ?thesis unfolding ev fn(2) by auto
  qed
  ultimately show "inv M ?n \<and> view ?n = view p" by (simp add: pool_inv_def)
qed

lemma inv_metrics: "inv M (p\<lparr>metrics := m\<rparr>) = inv M p" "view (p\<lparr>metrics := m\<rparr>) = view p"
  by (simp add: pool_inv_def pool_wf_def coherent_def) (rule pool_view_cong, simp_all)

end

text \<open>
  Between two pools: pages may leave the table, pin counts stay, no page becomes dirty, and a
  pinned page keeps its frame, so that a pointer to it stays valid.
\<close>

definition keeps :: "('d, 'e) pool \<Rightarrow> ('d, 'e) pool \<Rightarrow> bool" where
  "keeps p p' \<longleftrightarrow>
     (\<forall>j k. map_of (pageTable p') j = Some k \<longrightarrow>
        map_of (pageTable p) j = Some k \<and> pgPin (frames p' ! k) = pgPin (frames p ! k) \<and>
        (pgDirty (frames p' ! k) \<longrightarrow> pgDirty (frames p ! k))) \<and>
     (\<forall>j k. map_of (pageTable p) j = Some k \<longrightarrow> 0 < pgPin (frames p ! k) \<longrightarrow> map_of (pageTable p') j = Some k)"

lemma keeps_refl [simp]: "keeps p p"
  by (simp add: keeps_def)

lemma keeps_trans: "keeps p q \<Longrightarrow> keeps q r \<Longrightarrow> keeps p r"
  unfolding keeps_def by metis

lemma keepsI:
  "pageTable p' = pageTable p \<Longrightarrow>
   (\<And>j k. map_of (pageTable p) j = Some k \<Longrightarrow>
      pgPin (frames p' ! k) = pgPin (frames p ! k) \<and> (pgDirty (frames p' ! k) \<longrightarrow> pgDirty (frames p ! k))) \<Longrightarrow>
   keeps p p'"
  by (simp add: keeps_def)

lemma pins_pin_frames:
  "k < length (frames p) \<Longrightarrow> pgPin (frames (fold pin_frame l p) ! k) = pgPin (frames p ! k) + int (count_list l k)"
proof (induction l arbitrary: p)
  case (Cons a l)
  have "k < length (frames (pin_frame a p))" using Cons.prems by (simp add: pin_frame_def upd_frame_def)
  from Cons.IH [OF this] Cons.prems show ?case by (auto simp: pin_frame_def upd_frame_def nth_list_update)
qed simp

lemma pins_flush_fold:
  "k < length (frames p) \<Longrightarrow> fold (flush_page E) l (e, p) = (e', p') \<Longrightarrow>
   pgPin (frames p' ! k) = pgPin (frames p ! k) - int (count_list l k)"
proof (induction l arbitrary: p e)
  case (Cons a l)
  obtain e1 p1 where 1: "flush_page E a (e, p) = (e1, p1)" by fastforce
  then have p1: "k < length (frames p1)" "pgPin (frames p1 ! k) = pgPin (frames p ! k) - (if a = k then 1 else 0)"
    using Cons.prems(1) by (auto simp: flush_page_def Let_def nth_list_update split: prod.splits)
  have "fold (flush_page E) l (e1, p1) = (e', p')" using Cons.prems(2) 1 by simp
  from Cons.IH [OF p1(1) this] p1(2) show ?case by simp
qed simp

lemma dirty_pin_frames: "pgDirty (frames (fold pin_frame l p) ! k) = pgDirty (frames p ! k)"
proof (induction l arbitrary: p)
  case (Cons a l)
  have "pgDirty (frames (pin_frame a p) ! k) = pgDirty (frames p ! k)"
    by (cases "a < length (frames p)") (simp_all add: pin_frame_def upd_frame_def nth_list_update list_update_beyond)
  with Cons.IH [of "pin_frame a p"] show ?case by simp
qed simp

lemma dirty_flush_fold:
  "fold (flush_page E) l (e, p) = (e', p') \<Longrightarrow> pgDirty (frames p' ! k) \<Longrightarrow> pgDirty (frames p ! k)"
proof (induction l arbitrary: p e)
  case (Cons a l)
  obtain e1 p1 where 1: "flush_page E a (e, p) = (e1, p1)" by fastforce
  have "pgDirty (frames p1 ! k) \<Longrightarrow> pgDirty (frames p ! k)"
    using 1 by (cases "a < length (frames p)")
      (auto simp: flush_page_def Let_def nth_list_update list_update_beyond split: prod.splits if_splits)
  moreover have "fold (flush_page E) l (e1, p1) = (e', p')" using Cons.prems(1) 1 by simp
  ultimately show ?case using Cons.IH [of e1 p1] Cons.prems(2) by blast
qed simp

lemma length_pin_frames [simp]: "length (frames (fold pin_frame l p)) = length (frames p)"
  by (induction l arbitrary: p) (simp_all add: pin_frame_def upd_frame_def)

lemma evict_loop_keeps:
  "pool_wf p \<Longrightarrow> evict_loop E n p = (r, p') \<Longrightarrow> keeps p p'"
proof (induction n arbitrary: p)
  case (Suc n)
  have same: "keeps p (p\<lparr>evictor := ev\<rparr>)" "pool_wf (p\<lparr>evictor := ev\<rparr>)" for ev
    using Suc.prems(1) by (simp_all add: keeps_def pool_wf_def)
  have drop: "keeps p p''" if "map_of (pageTable p) v = Some idx" "\<not> 0 < pgPin (frames p ! idx)"
    "pageTable p'' = pageTable p \<or> pageTable p'' = AList.delete v (pageTable p)"
    "frames p'' = frames p \<or> frames p'' = (frames p)[idx := seal (frames p ! idx)]" for v idx p''
  proof -
    have "pgPin (frames p'' ! k) = pgPin (frames p ! k) \<and> pgDirty (frames p'' ! k) = pgDirty (frames p ! k)" for k
      using that(4) by (cases "idx < length (frames p)"; cases "idx = k") (auto simp: list_update_beyond)
    with that show ?thesis by (auto simp: keeps_def AList.delete_conv' split: if_splits)
  qed
  obtain vo ev where evict: "Evict (pol E) (evictor p) = (vo, ev)" by fastforce
  show ?case
  proof (cases vo)
    case None
    then show ?thesis using Suc.prems evict same by auto
  next
    case (Some v)
    show ?thesis
    proof (cases "map_of (pageTable p) v")
      case None
      then have "evict_loop E n (p\<lparr>evictor := ev\<rparr>) = (r, p')" using Suc.prems(2) evict Some by simp
      from Suc.IH [OF same(2) this] same show ?thesis by (blast intro: keeps_trans)
    next
      case idx: (Some idx)
      show ?thesis
      proof (cases "0 < pgPin (frames p ! idx)")
        case True
        then have "evict_loop E n (p\<lparr>evictor := RecordAccess (pol E) v ev\<rparr>) = (r, p')"
          using Suc.prems(2) evict Some idx by simp
        from Suc.IH [OF same(2) this] same show ?thesis by (blast intro: keeps_trans)
      next
        case False
        obtain e dsk where w: "WritePage (dev E) (pgID (seal (frames p ! idx))) (pgData (seal (frames p ! idx))) (disk p) = (e, dsk)"
          by fastforce
        have "(pageTable p' = pageTable p \<or> pageTable p' = AList.delete v (pageTable p)) \<and>
          (frames p' = frames p \<or> frames p' = (frames p)[idx := seal (frames p ! idx)])"
          using Suc.prems(2) evict Some idx False w by (auto simp: Let_def split: if_splits option.splits)
        with drop [OF idx False] show ?thesis by blast
      qed
    qed
  qed
qed simp

context buffer_pool
begin

lemma FlushAll_keeps:
  assumes i: "inv M p" and run: "FlushAll E p = (e, p')"
  shows "keeps p p'"
proof (rule keepsI)
  show "pageTable p' = pageTable p" using FlushAll_inv [OF i run] by simp
  fix j k assume "map_of (pageTable p) j = Some k"
  then have k: "k < length (frames p)" using i pool_wfD [of p] by (auto simp: pool_inv_def)
  let ?l = "dirty_frames E p" let ?p1 = "fold pin_frame ?l p"
  obtain err p2 where f: "fold (flush_page E) ?l (None, ?p1) = (err, p2)" by fastforce
  then have "frames p' = frames p2" using run by (auto simp: FlushAll_free Let_def split: prod.splits)
  with pins_flush_fold [OF _ f] pins_pin_frames [OF k] k dirty_flush_fold [OF f, of k] dirty_pin_frames [of ?l p k]
  show "pgPin (frames p' ! k) = pgPin (frames p ! k) \<and> (pgDirty (frames p' ! k) \<longrightarrow> pgDirty (frames p ! k))" by simp
qed

lemma getAvailableFrame_keeps:
  assumes i: "inv M p" and run: "getAvailableFrame E p = (r, p')"
  shows "keeps p p'"
proof -
  define p1 where "p1 = (if pressed p then snd (FlushAll E p) else p)"
  obtain e q where f: "FlushAll E p = (e, q)" by fastforce
  have "keeps p q" by (rule FlushAll_keeps [OF i f])
  then have 1: "keeps p p1" by (simp add: p1_def f)
  have wf1: "pool_wf p1" using FlushAll_inv [OF i f] i f by (simp add: p1_def pool_inv_def)
  have run1: "(case freeList p1 of idx # rest \<Rightarrow> (Inr idx, p1\<lparr>freeList := rest\<rparr>) | [] \<Rightarrow> evict_loop E (evict_fuel E) p1) = (r, p')"
    using run unfolding getAvailableFrame_free Let_def p1_def [symmetric] .
  have "keeps p1 p'"
  proof (cases "freeList p1")
    case Nil
    with run1 have "evict_loop E (evict_fuel E) p1 = (r, p')" by simp
    then show ?thesis by (rule evict_loop_keeps [OF wf1])
  next
    case (Cons idx rest)
    with run1 have "p' = p1\<lparr>freeList := rest\<rparr>" by simp
    then show ?thesis by (simp add: keeps_def)
  qed
  with 1 show ?thesis by (rule keeps_trans)
qed

end

section \<open>Callers that hold latches\<close>

lemma holding_simps [simp]:
  "dev (holding E hs) = dev E" "pol (holding E hs) = pol E" "rng (holding E hs) = rng E"
  "evict_fuel (holding E hs) = evict_fuel E" "latches (holding E hs) = hs"
  by (simp_all add: holding_def)

lemma holding_same:
  "flush_page (holding E hs) = flush_page E" "dirty_frames (holding E hs) = dirty_frames E"
  "evict_loop (holding E hs) n p = evict_loop E n p"
proof -
  show "flush_page (holding E hs) = flush_page E" by (simp add: flush_page_def fun_eq_iff)
  show "dirty_frames (holding E hs) = dirty_frames E" by (simp add: dirty_frames_def fun_eq_iff)
  show "evict_loop (holding E hs) n p = evict_loop E n p"
    by (induction n arbitrary: p) (simp_all add: Let_def split: prod.split option.split)
qed

text \<open>The dirty pages of a pool; a flush waits exactly when the caller holds one of them.\<close>

definition is_dirty :: "('d, 'e) pool \<Rightarrow> PageID \<Rightarrow> bool" where
  "is_dirty p i \<longleftrightarrow> (\<exists>idx. map_of (pageTable p) i = Some idx \<and> pgDirty (frames p ! idx))"

lemma keeps_dirty: "keeps p p' \<Longrightarrow> is_dirty p' i \<Longrightarrow> is_dirty p i"
  unfolding is_dirty_def keeps_def by metis

context buffer_pool
begin

lemma flush_waits_iff:
  assumes wf: "pool_wf p"
  shows "flush_waits (holding E hs) p \<longleftrightarrow> (\<exists>h\<in>set hs. is_dirty p h)"
proof
  assume "flush_waits (holding E hs) p"
  then obtain idx i where m: "(i, idx) \<in> set (pageTable p)" "pgDirty (frames p ! idx)" "pgID (frames p ! idx) \<in> set hs"
    using dirty_frames_props(2) [OF wf] by (force simp: flush_waits_def holding_same)
  then have "map_of (pageTable p) i = Some idx" using wf by (simp add: pool_wf_def map_of_eq_Some_iff)
  with pool_wfD(2) [OF wf this] m show "\<exists>h\<in>set hs. is_dirty p h" by (auto simp: is_dirty_def)
next
  assume "\<exists>h\<in>set hs. is_dirty p h"
  then obtain h idx where h: "h \<in> set hs" "map_of (pageTable p) h = Some idx" "pgDirty (frames p ! idx)" by (auto simp: is_dirty_def)
  then have "idx \<in> set (dirty_frames E p)" using dirty_frames_props(2) [OF wf] map_of_SomeD [OF h(2)] by force
  with h pool_wfD(2) [OF wf h(2)] show "flush_waits (holding E hs) p" by (auto simp: flush_waits_def holding_same)
qed

lemma FlushAll_held:
  "FlushAll (holding E hs) p = FlushAll E p \<or> fst (FlushAll (holding E hs) p) = Some Blocked \<and> flush_waits (holding E hs) p"
proof (cases "flush_waits (holding E hs) p")
  case True
  then show ?thesis by (simp add: FlushAll_def Let_def split: prod.split)
next
  case False
  then have "takeWhile (\<lambda>idx. pgID (frames p ! idx) \<notin> set hs) (dirty_frames E p) = dirty_frames E p"
    by (simp add: takeWhile_eq_all_conv flush_waits_def holding_same)
  then have "FlushAll (holding E hs) p = FlushAll E p"
    using False unfolding FlushAll_free by (simp add: FlushAll_def holding_same Let_def del: takeWhile_eq_all_conv)
  then show ?thesis ..
qed

text \<open>A call under latches either is the call without them, or waits for ever; it waits
  exactly when it needs a frame, the pool is under pressure and a latched page is dirty.\<close>

lemma getAvailableFrame_held:
  "getAvailableFrame (holding E hs) p =
     (if pressed p \<and> flush_waits (holding E hs) p then (Inl Blocked, snd (FlushAll (holding E hs) p)) else getAvailableFrame E p)"
  using FlushAll_held [of hs p] by (auto simp: getAvailableFrame_def Let_def holding_same split: list.split)

definition stuck :: "PageID list \<Rightarrow> PageID \<Rightarrow> ('d, 'e) pool \<Rightarrow> bool" where
  "stuck hs i p \<longleftrightarrow> map_of (pageTable p) i = None \<and> pressed p \<and> flush_waits (holding E hs) p"

lemma FetchPage_held:
  "\<not> stuck hs i p \<Longrightarrow> FetchPage (holding E hs) i p = FetchPage E i p"
  "stuck hs i p \<Longrightarrow> fst (FetchPage (holding E hs) i p) = Inl Blocked"
proof -
  let ?q = "p\<lparr>metrics := map_option IncrBufferPoolMiss (metrics p)\<rparr>"
  have "pressed ?q = pressed p" "flush_waits (holding E hs) ?q = flush_waits (holding E hs) p"
    by (simp_all add: pressed_def flush_waits_def dirty_frames_def)
  then have g: "getAvailableFrame (holding E hs) ?q =
      (if pressed p \<and> flush_waits (holding E hs) p then (Inl Blocked, snd (FlushAll (holding E hs) ?q)) else getAvailableFrame E ?q)"
    by (simp add: getAvailableFrame_held)
  show "\<not> stuck hs i p \<Longrightarrow> FetchPage (holding E hs) i p = FetchPage E i p"
    unfolding FetchPage_def holding_simps g stuck_def by (auto split: option.split)
  show "stuck hs i p \<Longrightarrow> fst (FetchPage (holding E hs) i p) = Inl Blocked"
    unfolding FetchPage_def holding_simps g stuck_def by simp
qed

lemma FetchPage_returned:
  "FetchPage (holding E hs) i p = (r, p') \<Longrightarrow> r \<noteq> Inl Blocked \<Longrightarrow> FetchPage E i p = (r, p')"
  using FetchPage_held [of hs i p] by (cases "stuck hs i p") auto

lemma FlushAll_returned:
  "FlushAll (holding E hs) p = (e, p') \<Longrightarrow> e \<noteq> Some Blocked \<Longrightarrow> FlushAll E p = (e, p')"
  using FlushAll_held [of hs p] by auto

lemma not_stuck:
  "pool_wf p \<Longrightarrow> (\<And>h. h \<in> set hs \<Longrightarrow> \<not> is_dirty p h) \<Longrightarrow> \<not> stuck hs i p"
  by (auto simp: stuck_def flush_waits_iff)

lemma NewPage_returned:
  assumes run: "NewPage (holding E hs) p = (r, p')" and r: "r \<noteq> Inl Blocked"
  shows "NewPage E p = (r, p')"
proof (cases "Stat (dev E) (disk p)")
  case (Inl e)
  then have "NewPage E p = (Inl e, p)" "NewPage (holding E hs) p = (Inl e, p)" by (simp_all add: NewPage_def)
  with run show ?thesis by simp
next
  case (Inr n)
  let ?i = "word_of_nat (n div PageSize) :: PageID"
  obtain e dsk where w: "WritePage (dev E) ?i zero_page (disk p) = (e, dsk)" by fastforce
  show ?thesis
  proof (cases e)
    case None
    obtain x q where f: "FetchPage (holding E hs) ?i (p\<lparr>disk := dsk\<rparr>) = (x, q)" by fastforce
    then have "x \<noteq> Inl Blocked" using run r Inr w None by (auto simp: NewPage_def Let_def split: sum.splits)
    from FetchPage_returned [OF f this] show ?thesis using run Inr w None f by (simp add: NewPage_def)
  qed (use run Inr w in \<open>simp add: NewPage_def Let_def\<close>)
qed

end

end
