(* ===== verification/PoolClient.thy ===== *)
theory PoolClient
  imports BufferPool
begin

text \<open>
  What a client of the buffer pool may rely on: contracts of \<open>FetchPage\<close>, \<open>UnpinPage\<close> and
  \<open>NewPage\<close> and of the pattern fetch, modify, unpin, proved once in the locale
  \<open>buffer_pool\<close> and instantiated for the in-memory device with the LRU policy. The
  eviction loop: when it ends, and when it does not.
\<close>

section \<open>Pins\<close>

definition pins :: "('d, 'e) pool \<Rightarrow> PageID \<Rightarrow> int" where
  "pins p i = (case map_of (pageTable p) i of None \<Rightarrow> 0 | Some idx \<Rightarrow> pgPin (frames p ! idx))"

text \<open>Pinned pages keep their frames.\<close>

definition stable :: "('d, 'e) pool \<Rightarrow> ('d, 'e) pool \<Rightarrow> bool" where
  "stable p p' \<longleftrightarrow> (\<forall>j k. map_of (pageTable p) j = Some k \<longrightarrow> 0 < pins p j \<longrightarrow> map_of (pageTable p') j = Some k)"

lemma stable_refl [simp]: "stable p p"
  by (simp add: stable_def)

lemma stable_trans:
  "stable p q \<Longrightarrow> stable q r \<Longrightarrow> (\<And>j. 0 < pins p j \<Longrightarrow> 0 < pins q j) \<Longrightarrow> stable p r"
  unfolding stable_def by blast

lemma keepsD:
  assumes "keeps p p'"
  shows "map_of (pageTable p') j = Some k \<Longrightarrow> map_of (pageTable p) j = Some k \<and> pgPin (frames p' ! k) = pgPin (frames p ! k)"
    and "map_of (pageTable p) j = Some k \<Longrightarrow> 0 < pgPin (frames p ! k) \<Longrightarrow> map_of (pageTable p') j = Some k"
  using assms unfolding keeps_def by blast+

lemma keeps_pins:
  assumes "keeps p p'" "\<And>j. 0 \<le> pins p j"
  shows "pins p' = pins p" "stable p p'"
proof -
  show "stable p p'" unfolding stable_def using keepsD(2) [OF assms(1)] by (simp add: pins_def)
  show "pins p' = pins p"
  proof
    fix j
    show "pins p' j = pins p j"
    proof (cases "map_of (pageTable p') j")
      case None
      have "\<not> 0 < pins p j"
      proof
        assume "0 < pins p j"
        then obtain k where "map_of (pageTable p) j = Some k" "0 < pgPin (frames p ! k)"
          by (cases "map_of (pageTable p) j") (simp_all add: pins_def)
        from keepsD(2) [OF assms(1) this] None show False by simp
      qed
      with assms(2) [of j] have "pins p j = 0" by simp
      with None show ?thesis by (simp add: pins_def)
    next
      case (Some k)
      from keepsD(1) [OF assms(1) Some] Some show ?thesis by (simp add: pins_def)
    qed
  qed
qed

lemma pins_upd_frame:
  assumes "pool_wf p" "map_of (pageTable p) i = Some idx"
  shows "pins (upd_frame idx f p) = (pins p)(i := pgPin (f (frames p ! idx)))"
proof
  fix j
  have "k \<noteq> idx" if "map_of (pageTable p) j = Some k" "j \<noteq> i" for k
    using pool_wf_inj [OF assms(1) _ assms(2), of j] that by auto
  then show "pins (upd_frame idx f p) j = ((pins p)(i := pgPin (f (frames p ! idx)))) j"
    using assms(2) pool_wfD(1) [OF assms] by (auto simp: pins_def upd_frame_def split: option.split)
qed

lemma stable_table: "pageTable p' = pageTable p \<Longrightarrow> stable p p'"
  by (simp add: stable_def)

section \<open>Contracts\<close>

context buffer_pool
begin

lemma FetchPage_hit:
  assumes i: "inv M p" and m: "map_of (pageTable p) i = Some idx" and run: "FetchPage E i p = (r, p')"
  shows "r = Inr idx \<and> inv M p' \<and> view p' = view p \<and> pageTable p' = pageTable p \<and> pins p' = (pins p)(i := pins p i + 1)"
proof -
  let ?q = "p\<lparr>metrics := map_option IncrBufferPoolHit (metrics p), evictor := RecordAccess (pol E) i (evictor p)\<rparr>"
  have r: "r = Inr idx" "p' = pin_frame idx ?q" using run m by (simp_all add: FetchPage_def)
  have ev: "einv (RecordAccess (pol E) i (evictor p))" "fst ` set (pageTable p) \<subseteq> tracked (RecordAccess (pol E) i (evictor p))"
    using access [of "evictor p" i] i by (auto simp: pool_inv_def)
  have "inv M (p\<lparr>metrics := map_option IncrBufferPoolHit (metrics p)\<rparr>)" using i by (simp add: inv_metrics)
  from inv_evictor [OF this] ev have q: "inv M ?q" by simp
  have vq: "view ?q = view p" by (rule pool_view_cong) simp_all
  have "pool_wf ?q" using q by (simp add: pool_inv_def)
  then have "pins p' = (pins ?q)(i := pgPin (frames p ! idx) + 1)"
    using m pins_upd_frame [of ?q i idx] by (simp add: r pin_frame_def)
  moreover have "pins ?q = pins p" by (simp add: pins_def fun_eq_iff split: option.split)
  ultimately show ?thesis using inv_pin_frame [OF q, of idx] vq m by (simp add: r pins_def)
qed

lemma FetchPage_miss:
  assumes i: "inv M p" and b: "unat i < 2 ^ 48" and m: "map_of (pageTable p) i = None" and nn: "\<And>j. 0 \<le> pins p j"
    and run: "FetchPage E i p = (r, p')"
  shows "inv M p' \<and> transparent p p' \<and> stable p p' \<and>
    (case r of Inl _ \<Rightarrow> pins p' = pins p
     | Inr idx \<Rightarrow> map_of (pageTable p') i = Some idx \<and> pins p' = (pins p)(i := pins p i + 1))"
proof -
  let ?q = "p\<lparr>metrics := map_option IncrBufferPoolMiss (metrics p)\<rparr>"
  obtain g p1 where g: "getAvailableFrame E ?q = (g, p1)" by fastforce
  have q: "inv M ?q" "view ?q = view p" using i by (simp_all add: inv_metrics)
  have pq: "pins ?q = pins p" by (simp add: pins_def fun_eq_iff split: option.split)
  note G = getAvailableFrame_inv [OF q(1) g]
  have K: "pins p1 = pins p" "stable p p1"
    using keeps_pins [OF getAvailableFrame_keeps [OF q(1) g]] nn by (simp_all add: pq stable_def)
  have t1: "transparent p p1" using G q(2) by (simp add: transparent_def)
  have m1: "map_of (pageTable p1) i = None" using G m by (auto simp: map_of_eq_None_iff)
  show ?thesis
  proof (cases g)
    case (Inl e)
    then have "r = Inl e" "p' = p1" using run g m by (simp_all add: FetchPage_def)
    with G K t1 show ?thesis by simp
  next
    case (Inr idx)
    obtain data e where rd: "ReadPage (dev E) i zero_page (disk p1) = (data, e)" by fastforce
    define p2 where "p2 = upd_frame idx (\<lambda>pg. pg\<lparr>pgID := i, pgPin := 1, pgDirty := False, pgData := data\<rparr>) p1"
    define f where "f = p2\<lparr>freeList := freeList p2 @ [idx]\<rparr>"
    define n where "n = p2\<lparr>pageTable := AList.update i idx (pageTable p2), evictor := RecordAccess (pol E) i (evictor p2)\<rparr>"
    have idx: "inv M p1" "idx < length (frames p1)" "idx \<notin> snd ` set (pageTable p1)" "idx \<notin> set (freeList p1)"
      using G Inr by auto
    have len: "length data = PageSize"
      using rd read_len by (auto simp: ReadPage_def length_blit split: prod.splits)
    note L = load_frame [OF idx m1 b len, folded p2_def, folded f_def n_def]
    have tab: "pageTable p2 = pageTable p1" by (simp add: p2_def upd_frame_def)
    have other: "frames p2 ! k = frames p1 ! k" if "map_of (pageTable p1) j = Some k" for j k
    proof -
      have "k \<noteq> idx" using idx(3) map_of_SomeD [OF that] by force
      then show ?thesis by (simp add: p2_def upd_frame_def)
    qed
    have pf: "pins f = pins p1" using other by (simp add: pins_def f_def tab fun_eq_iff split: option.split)
    have pn: "pins n = (pins p1)(i := 1)"
    proof
      fix j
      show "pins n j = ((pins p1)(i := 1)) j"
        using other [of j] idx(2) by (simp add: pins_def n_def tab AList.update_conv' split: option.split)
          (simp add: p2_def upd_frame_def)
    qed
    have sf: "stable p1 f" by (simp add: stable_def f_def tab)
    have sn: "stable p1 n" using m1 by (auto simp: stable_def n_def tab AList.update_conv')
    have pos: "0 < pins p j \<Longrightarrow> 0 < pins p1 j" for j by (simp add: K)
    have res: "(r = Inr idx \<and> p' = n \<and> (e = None \<or> e = Some ErrEOF)) \<or> (\<exists>x. r = Inl x) \<and> p' = f"
      using run g m Inr rd by (auto simp: FetchPage_def Let_def p2_def [symmetric] n_def f_def split: if_splits)
    then show ?thesis
    proof
      assume ok: "r = Inr idx \<and> p' = n \<and> (e = None \<or> e = Some ErrEOF)"
      have "data = page_at stored (disk p1) i"
        using ReadPage_view [OF b, of "disk p1" data e] rd ok by (simp add: zero_page_def)
      with L(2) have n: "inv M n" "view n = view p1" by simp_all
      have "map_of (pageTable n) i = Some idx" by (simp add: n_def AList.update_conv')
      moreover have "pins p i = 0" using m by (simp add: pins_def)
      ultimately show ?thesis
        using ok n t1 pn K stable_trans [OF K(2) sn pos] by (simp add: transparent_def)
    next
      assume bad: "(\<exists>x. r = Inl x) \<and> p' = f"
      with L(1) have "inv M p' \<and> transparent p1 p'" by simp
      with bad t1 pf K stable_trans [OF K(2) sf pos] show ?thesis by (auto intro: transparent_trans)
    qed
  qed
qed

end

section \<open>Modifying a pinned page\<close>

definition set_data :: "nat \<Rightarrow> bytes \<Rightarrow> ('d, 'e) pool \<Rightarrow> ('d, 'e) pool" where
  "set_data idx d = upd_frame idx (\<lambda>pg. pg\<lparr>pgData := d\<rparr>)"

lemma upd_frame_simps [simp]:
  "pageTable (upd_frame idx f p) = pageTable p" "disk (upd_frame idx f p) = disk p" "evictor (upd_frame idx f p) = evictor p"
  "freeList (upd_frame idx f p) = freeList p" "length (frames (upd_frame idx f p)) = length (frames p)"
  by (simp_all add: upd_frame_def)

lemma frames_upd:
  "idx < length (frames p) \<Longrightarrow> frames (upd_frame idx f p) ! k = (if k = idx then f (frames p ! idx) else frames p ! k)"
  by (simp add: upd_frame_def)

lemma pool_wf_upd_frame:
  "pool_wf p \<Longrightarrow> pgID (f (frames p ! idx)) = pgID (frames p ! idx) \<Longrightarrow> length (pgData (f (frames p ! idx))) = PageSize \<Longrightarrow>
   pool_wf (upd_frame idx f p)"
  unfolding upd_frame_def by (rule pool_wf_upd)

lemma view_upd_frame:
  assumes "pool_wf p" "map_of (pageTable p) i = Some idx"
  shows "pool_view st (upd_frame idx f p) = (pool_view st p)(i := pgData (f (frames p ! idx)))"
proof
  fix j
  show "pool_view st (upd_frame idx f p) j = ((pool_view st p)(i := pgData (f (frames p ! idx)))) j"
  proof (cases "map_of (pageTable p) j")
    case None
    with assms(2) show ?thesis by (auto simp: pool_view_def)
  next
    case (Some k)
    then have "k = idx \<longleftrightarrow> j = i" using pool_wf_inj [OF assms(1) _ assms(2), of j] assms(2) by (metis option.inject)
    with Some assms pool_wfD(1) [OF assms] show ?thesis by (simp add: pool_view_def frames_upd)
  qed
qed

text \<open>A change to the frame of a cached page, in general.\<close>

lemma inv_upd_frame:
  assumes i: "pool_inv st einv tracked M p" and m: "map_of (pageTable p) i = Some idx"
    and pg: "pgID (f (frames p ! idx)) = i" "length (pgData (f (frames p ! idx))) = PageSize"
    and M: "M - {i} \<subseteq> M'"
    and co: "(i \<in> M' \<and> 0 < pgPin (f (frames p ! idx))) \<or> pgDirty (f (frames p ! idx)) \<or>
      pgData (f (frames p ! idx)) = page_at st (disk p) i"
  shows "pool_inv st einv tracked M' (upd_frame idx f p)"
proof -
  have wf: "pool_wf p" and c: "coherent st M p" using i by (simp_all add: pool_inv_def)
  note idx = pool_wfD [OF wf m]
  have wf': "pool_wf (upd_frame idx f p)" using pg idx by (intro pool_wf_upd_frame [OF wf]) simp_all
  have "coherent st M' (upd_frame idx f p)"
  proof (rule coherentI [OF wf'])
    fix j k assume j: "map_of (pageTable (upd_frame idx f p)) j = Some k"
    let ?pg = "frames (upd_frame idx f p) ! k"
    show "(j \<in> M' \<and> 0 < pgPin ?pg) \<or> pgDirty ?pg \<or> pgData ?pg = page_at st (disk (upd_frame idx f p)) j"
    proof (cases "j = i")
      case True
      with j m co idx(1) show ?thesis by (simp add: frames_upd)
    next
      case False
      then have "k \<noteq> idx" using pool_wf_inj [OF wf _ m] j by auto
      with coherentD [OF c, of j k] j False M idx(1) show ?thesis by (auto simp: frames_upd)
    qed
  qed
  with i wf' show ?thesis by (simp add: pool_inv_def)
qed

context buffer_pool
begin

lemma set_data_inv:
  assumes i: "inv M p" and m: "map_of (pageTable p) i = Some idx" and pin: "0 < pins p i" and len: "length d = PageSize"
  shows "inv (insert i M) (set_data idx d p) \<and> view (set_data idx d p) = (view p)(i := d) \<and>
    pins (set_data idx d p) = pins p \<and> pageTable (set_data idx d p) = pageTable p"
proof -
  have wf: "pool_wf p" using i by (simp add: pool_inv_def)
  have "inv (insert i M) (set_data idx d p)"
    unfolding set_data_def using pin m len pool_wfD [OF wf m]
    by (intro inv_upd_frame [OF i m]) (auto simp: pins_def)
  then show ?thesis
    using m by (simp add: set_data_def view_upd_frame [OF wf m] pins_upd_frame [OF wf m]) (auto simp: pins_def)
qed

lemma UnpinPage_inv:
  assumes i: "inv M p" and m: "map_of (pageTable p) i = Some idx" and d: "isDirty \<or> i \<notin> M"
  shows "inv (M - {i}) (UnpinPage i isDirty p) \<and> view (UnpinPage i isDirty p) = view p \<and>
    pins (UnpinPage i isDirty p) = (pins p)(i := pins p i - 1) \<and> pageTable (UnpinPage i isDirty p) = pageTable p"
proof -
  have wf: "pool_wf p" and c: "coherent stored M p" using i by (simp_all add: pool_inv_def)
  let ?f = "\<lambda>pg. pg\<lparr>pgPin := pgPin pg - 1, pgDirty := (isDirty \<or> pgDirty pg)\<rparr>"
  have u: "UnpinPage i isDirty p = upd_frame idx ?f p" using m by (simp add: UnpinPage_def)
  have "inv (M - {i}) (upd_frame idx ?f p)"
    using pool_wfD [OF wf m] coherentD [OF c m] d by (intro inv_upd_frame [OF i m]) auto
  then show ?thesis
    using m by (simp add: u view_upd_frame [OF wf m] pins_upd_frame [OF wf m]) (auto simp: pins_def pool_view_def)
qed

lemma FetchPage_inv:
  assumes i: "inv M p" and b: "unat i < 2 ^ 48" and nn: "\<And>j. 0 \<le> pins p j" and run: "FetchPage E i p = (r, p')"
  shows "inv M p' \<and> transparent p p' \<and> stable p p' \<and>
    (case r of Inl _ \<Rightarrow> pins p' = pins p
     | Inr idx \<Rightarrow> map_of (pageTable p') i = Some idx \<and> pins p' = (pins p)(i := pins p i + 1))"
proof (cases "map_of (pageTable p) i")
  case None
  from FetchPage_miss [OF i b None nn run] show ?thesis .
next
  case (Some idx)
  from FetchPage_hit [OF i Some run] show ?thesis using Some by (simp add: stable_table transparent_def)
qed

text \<open>Fetch, replace the contents, unpin: the footprint of every operation on one page.\<close>

lemma page_update:
  assumes i: "inv M p" "i \<notin> M" and b: "unat i < 2 ^ 48" and nn: "\<And>j. 0 \<le> pins p j"
    and run: "FetchPage E i p = (Inr idx, p1)"
    and d: "length d = PageSize" "isDirty \<or> d = pgData (frames p1 ! idx)"
  defines "p2 \<equiv> UnpinPage i isDirty (set_data idx d p1)"
  shows "inv M p2 \<and> pins p2 = pins p \<and> stable p p2 \<and> view p2 i = d \<and>
    (\<forall>j. unat j < 2 ^ 48 \<longrightarrow> j \<noteq> i \<longrightarrow> same_page j (view p2 j) (view p j)) \<and>
    same_page i (pgData (frames p1 ! idx)) (view p i) \<and> length (pgData (frames p1 ! idx)) = PageSize"
proof -
  have F: "inv M p1" "transparent p p1" "stable p p1" "map_of (pageTable p1) i = Some idx" "pins p1 = (pins p)(i := pins p i + 1)"
    using FetchPage_inv [OF i(1) b nn run] by simp_all
  have pin: "0 < pins p1 i" using F(5) nn [of i] by simp
  have wf: "pool_wf p1" using F(1) by (simp add: pool_inv_def)
  note S = set_data_inv [OF F(1,4) pin d(1)]
  have m: "map_of (pageTable (set_data idx d p1)) i = Some idx" using S F(4) by simp
  have "inv M p2 \<and> view p2 = (view p1)(i := d) \<and> pins p2 = pins p \<and> pageTable p2 = pageTable p1"
  proof (cases isDirty)
    case True
    have "insert i M - {i} = M" using i(2) by auto
    with UnpinPage_inv [OF conjunct1 [OF S] m] S True F(5) show ?thesis unfolding p2_def by auto
  next
    case False
    then have "d = pgData (frames p1 ! idx)" using d(2) by simp
    then have same: "set_data idx d p1 = p1" by (simp add: set_data_def upd_frame_def)
    have "view p1 i = d" using F(4) \<open>d = _\<close> by (simp add: pool_view_def)
    with UnpinPage_inv [OF F(1,4)] i(2) F(5) show ?thesis unfolding p2_def same by auto
  qed
  moreover have "view p1 i = pgData (frames p1 ! idx)" using F(4) by (simp add: pool_view_def)
  ultimately show ?thesis
    using F(2,3) b pool_wfD(4) [OF wf F(4)] by (auto simp: transparent_def stable_def)
qed

end

section \<open>New pages\<close>

lemma Init_cong:
  assumes "drop 4 a = drop 4 b" "length a = PageSize" "length b = PageSize"
  shows "Init a = Init b"
proof -
  have "SetChecksum 0 a = SetChecksum 0 b"
    using assms by (simp add: SetChecksum_def wr_le_def blit_def)
  then show ?thesis by (simp add: Init_def)
qed

lemma Init_same_page: "same_page i a b \<Longrightarrow> length a = PageSize \<Longrightarrow> length b = PageSize \<Longrightarrow> Init a = Init b"
  unfolding same_page_def by (metis Init_cong)

lemma length_Init [simp]:
  assumes "length d = PageSize"
  shows "length (Init d) = PageSize"
proof -
  have t: "length (SetPageType32 0 x) = PageSize" "length (SetNextPageID 0 x) = PageSize" if "length x = PageSize" for x
    using that by (simp_all add: SetPageType32_def SetNextPageID_def PageSize_def)
  have z: "length (zero_range x PageHeaderSize PageSize) = PageSize" if "length x = PageSize" for x
    using that by (simp add: zero_range_def layout_defs)
  show ?thesis unfolding Init_def Let_def using assms by (intro z t header_get_set)
qed

definition fresh_id :: "nat \<Rightarrow> PageID" where
  "fresh_id n = word_of_nat (n div PageSize)"

lemma unat_fresh_id: "n div PageSize < 2 ^ 48 \<Longrightarrow> unat (fresh_id n) = n div PageSize"
  by (simp add: fresh_id_def unat_of_nat)

context buffer_pool
begin

text \<open>The page after the end of the file reads as zeros, and writing zeros there changes no page.\<close>

lemma extend_view:
  assumes i: "inv M p" and al: "PageSize dvd dsize (disk p)" and b: "dsize (disk p) div PageSize < 2 ^ 48"
    and w: "WritePage (dev E) (fresh_id (dsize (disk p))) zero_page (disk p) = (e, dsk)" "e = None"
  shows "inv M (p\<lparr>disk := dsk\<rparr>) \<and> view (p\<lparr>disk := dsk\<rparr>) = view p \<and> page_at stored (disk p) (fresh_id (dsize (disk p))) = zero_page"
proof -
  let ?n = "fresh_id (dsize (disk p))"
  have n: "unat ?n * PageSize = dsize (disk p)" using al b by (simp add: unat_fresh_id)
  then have "map (stored (disk p)) [unat ?n * PageSize..<unat ?n * PageSize + PageSize] =
      map (\<lambda>_. 0) [unat ?n * PageSize..<unat ?n * PageSize + PageSize]"
    by (intro map_cong) (simp_all add: beyond)
  then have z: "page_at stored (disk p) ?n = zero_page"
    by (simp add: page_at_def zero_page_def map_replicate_const)
  have u: "unat ?n < 2 ^ 48" using b by (simp add: unat_fresh_id)
  have "page_at stored dsk j = page_at stored (disk p) j" for j
    using WritePage_view [OF u w(1) length_zero_page] w(2) z by (cases "j = ?n") auto
  then have pa: "page_at stored dsk = page_at stored (disk p)" by blast
  have "inv M (p\<lparr>disk := dsk\<rparr>)" using i pa by (simp add: pool_inv_def pool_wf_def coherent_def)
  moreover have "view (p\<lparr>disk := dsk\<rparr>) = view p" using pa by (simp add: pool_view_def fun_eq_iff split: option.split)
  ultimately show ?thesis using z by simp
qed

lemma NewPage_inv:
  assumes i: "inv M p" and nn: "\<And>j. 0 \<le> pins p j"
    and al: "PageSize dvd dsize (disk p)" and b: "dsize (disk p) div PageSize < 2 ^ 48"
    and run: "NewPage E p = (Inr idx, p')"
  defines "n \<equiv> fresh_id (dsize (disk p))"
  shows "inv (insert n M) p' \<and> map_of (pageTable p') n = Some idx \<and> pins p' = (pins p)(n := pins p n + 1) \<and>
    stable p p' \<and> view p' n = Init (view p n) \<and> (\<forall>j. unat j < 2 ^ 48 \<longrightarrow> j \<noteq> n \<longrightarrow> same_page j (view p' j) (view p j)) \<and>
    (map_of (pageTable p) n = None \<longrightarrow> view p' n = Init zero_page)"
proof -
  have u: "unat n < 2 ^ 48" using b by (simp add: n_def unat_fresh_id)
  obtain s where st: "Stat (dev E) (disk p) = Inr s" using run by (auto simp: NewPage_def split: sum.splits)
  then have s: "word_of_nat (s div PageSize) = n" using stat by (simp add: n_def fresh_id_def)
  obtain e dsk where w: "WritePage (dev E) n zero_page (disk p) = (e, dsk)" by fastforce
  obtain g p1 where f: "FetchPage E n (p\<lparr>disk := dsk\<rparr>) = (g, p1)" by fastforce
  have r: "e = None" "g = Inr idx" "p' = set_data idx (Init (pgData (frames p1 ! idx))) p1"
    using run st w f by (auto simp: NewPage_def Let_def s set_data_def upd_frame_def split: option.splits sum.splits)
  let ?q = "p\<lparr>disk := dsk\<rparr>"
  have X: "inv M ?q" "view ?q = view p" "page_at stored (disk p) n = zero_page"
    using extend_view [OF i al b] w r(1) by (simp_all add: n_def)
  have pq: "pins ?q = pins p" by (simp add: pins_def fun_eq_iff split: option.split)
  have F: "inv M p1" "transparent ?q p1" "stable ?q p1" "map_of (pageTable p1) n = Some idx" "pins p1 = (pins p)(n := pins p n + 1)"
    using FetchPage_inv [OF X(1) u _ f] nn by (simp_all add: pq r)
  have wf: "pool_wf p1" "pool_wf p" using F(1) i by (simp_all add: pool_inv_def)
  have d: "view p1 n = pgData (frames p1 ! idx)" using F(4) by (simp add: pool_view_def)
  have len: "length (view p1 n) = PageSize" using pool_wfD(4) [OF wf(1) F(4)] d by simp
  have len0: "length (view p n) = PageSize" using pool_wfD(4) [OF wf(2)] by (cases "map_of (pageTable p) n") (simp_all add: pool_view_def)
  have "0 < pins p1 n" using F(5) nn [of n] by simp
  moreover have "length (Init (pgData (frames p1 ! idx))) = PageSize" using len d by simp
  ultimately have S: "inv (insert n M) p' \<and> view p' = (view p1)(n := Init (view p1 n)) \<and> pins p' = pins p1 \<and> pageTable p' = pageTable p1"
    using set_data_inv [OF F(1,4)] unfolding r(3) d by blast
  have same: "same_page n (view p1 n) (view p n)" using F(2) u X(2) by (simp add: transparent_def)
  have "Init (view p1 n) = Init (view p n)" using Init_same_page [OF same len len0] .
  moreover have "stable p p'" using F(3) S by (simp add: stable_def pq)
  moreover have "view p n = zero_page" if "map_of (pageTable p) n = None" using that X(3) by (simp add: pool_view_def)
  ultimately show ?thesis using S F(2,4,5) X(2) by (simp add: transparent_def)
qed

end

section \<open>The in-memory engine\<close>

definition mem_env :: "nat \<Rightarrow> (bytes, lru) env" where
  "mem_env fuel = \<lparr>dev = mem_device, pol = lru_ops, rng = (\<lambda>l. l), evict_fuel = fuel, latches = []\<rparr>"

lemma mem_env_simps [simp]:
  "dev (mem_env fuel) = mem_device" "pol (mem_env fuel) = lru_ops" "rng (mem_env fuel) = (\<lambda>l. l)" "evict_fuel (mem_env fuel) = fuel"
  "latches (mem_env fuel) = []"
  by (simp_all add: mem_env_def)

interpretation mp: buffer_pool "mem_env fuel" mem_stored length lru_inv pageMap for fuel
  by (simp add: buffer_pool_def buffer_pool_axioms_def mem.block_device_axioms lru.eviction_policy_axioms)

lemma NewBufferPool_inv:
  "einv ev \<Longrightarrow> pool_inv st einv tracked M (NewBufferPool dsk n ev m)"
  "pins (NewBufferPool dsk n ev m) j = 0" "pool_view st (NewBufferPool dsk n ev m) j = page_at st dsk j"
  by (simp_all add: NewBufferPool_def pool_inv_def pool_wf_def coherent_def pins_def pool_view_def)

section \<open>When the eviction loop ends\<close>

text \<open>A tracked page the LRU loop passes over: no longer cached, or pinned.\<close>

definition passed_over :: "('d, 'e) pool \<Rightarrow> PageID \<Rightarrow> bool" where
  "passed_over p i \<longleftrightarrow> (case map_of (pageTable p) i of None \<Rightarrow> True | Some idx \<Rightarrow> 0 < pgPin (frames p ! idx))"

lemma passed_over_evictor [simp]: "passed_over (p\<lparr>evictor := ev\<rparr>) i = passed_over p i"
  by (simp add: passed_over_def split: option.split)

lemma Mem_WritePage_ok: "unat i < 2 ^ 48 \<Longrightarrow> fst (WritePage mem_device i d m) = None"
  by (simp add: WritePage_def mem_device_def page_offset_small Mem_WriteAt_eq del: of_nat_mult)

lemma evict_step_skip:
  assumes "pol E = lru_ops" "lru_inv (evictor p)" "lruList (evictor p) = l @ [i]" "passed_over p i"
  obtains ev where "evict_loop E (Suc n) p = evict_loop E n (p\<lparr>evictor := ev\<rparr>)" "lru_inv ev"
    "lruList ev = l \<or> lruList ev = i # l" "map_of (pageTable p) i \<noteq> None \<longrightarrow> lruList ev = i # l"
proof -
  obtain ev where e: "LRU_Evict (evictor p) = (Some i, ev)" "lruList ev = l" using assms(3) by (simp add: LRU_Evict_def Let_def)
  have inv: "lru_inv ev" "pageMap ev = pageMap (evictor p) - {i}" using LRU_Evict_inv [OF assms(2) e(1)] by simp_all
  show thesis
  proof (cases "map_of (pageTable p) i")
    case None
    then show thesis using that [of ev] e inv assms(1) by simp
  next
    case (Some idx)
    then have "0 < pgPin (frames p ! idx)" using assms(4) by (simp add: passed_over_def)
    moreover have "lruList (LRU_RecordAccess i ev) = i # l" using e inv(2) by (simp add: LRU_RecordAccess_def)
    ultimately show thesis
      using that [of "LRU_RecordAccess i ev"] e Some assms(1) LRU_RecordAccess_inv [OF inv(1)] by simp
  qed
qed

lemma evict_loop_enough:
  assumes "pool_wf p" "lru_inv (evictor p)" "lruList (evictor p) = xs @ i # ys" "\<forall>y\<in>set ys. passed_over p y"
    and "map_of (pageTable p) i = Some idx" "\<not> 0 < pgPin (frames p ! idx)" "length ys < n"
  shows "\<exists>p'. evict_loop (mem_env fuel) n p = (Inr idx, p')"
  using assms
proof (induction ys arbitrary: n xs p rule: rev_induct)
  case Nil
  then obtain k where n: "n = Suc k" by (cases n) auto
  obtain ev where e: "LRU_Evict (evictor p) = (Some i, ev)" using Nil.prems(3) by (simp add: LRU_Evict_def Let_def)
  have "fst (WritePage mem_device (pgID (frames p ! idx)) (pgData (seal (frames p ! idx))) (disk p)) = None"
    using pool_wfD [OF Nil.prems(1,5)] by (intro Mem_WritePage_ok) simp
  then obtain dsk where "WritePage mem_device (pgID (frames p ! idx)) (pgData (seal (frames p ! idx))) (disk p) = (None, dsk)"
    by (metis prod.collapse)
  with Nil.prems(5,6) n e show ?case by (simp add: Let_def)
next
  case (snoc y ys)
  then obtain k where n: "n = Suc k" by (cases n) auto
  have "lruList (evictor p) = (xs @ i # ys) @ [y]" "passed_over p y" using snoc.prems(3,4) by simp_all
  from evict_step_skip [OF _ snoc.prems(2) this, of "mem_env fuel" k] obtain ev where
    ev: "evict_loop (mem_env fuel) (Suc k) p = evict_loop (mem_env fuel) k (p\<lparr>evictor := ev\<rparr>)" "lru_inv ev"
    "lruList ev = xs @ i # ys \<or> lruList ev = (y # xs) @ i # ys" by auto
  have wf: "pool_wf (p\<lparr>evictor := ev\<rparr>)" using snoc.prems(1) by (simp add: pool_wf_def)
  have "\<exists>zs. lruList (evictor (p\<lparr>evictor := ev\<rparr>)) = zs @ i # ys" using ev(3) by auto
  then obtain zs where "lruList (evictor (p\<lparr>evictor := ev\<rparr>)) = zs @ i # ys" by blast
  from snoc.IH [OF wf _ this, of k] snoc.prems ev(2) n show ?case unfolding n ev(1) by simp
qed

lemma evict_loop_diverges:
  assumes "pol E = lru_ops" "lru_inv (evictor p)" "lruList (evictor p) \<noteq> []"
    and "\<forall>i\<in>set (lruList (evictor p)). \<exists>idx. map_of (pageTable p) i = Some idx \<and> 0 < pgPin (frames p ! idx)"
  shows "fst (evict_loop E n p) = Inl OutOfFuel"
  using assms(2-4)
proof (induction n arbitrary: p)
  case (Suc n)
  obtain l i where l: "lruList (evictor p) = l @ [i]" using Suc.prems(2) by (metis append_butlast_last_id)
  then obtain idx where "map_of (pageTable p) i = Some idx" "0 < pgPin (frames p ! idx)" using Suc.prems(3) by auto
  then have i: "passed_over p i" "map_of (pageTable p) i \<noteq> None" by (simp_all add: passed_over_def)
  from evict_step_skip [OF assms(1) Suc.prems(1) l i(1), of n] i(2) obtain ev where
    ev: "evict_loop E (Suc n) p = evict_loop E n (p\<lparr>evictor := ev\<rparr>)" "lru_inv ev" "lruList ev = i # l" by blast
  have "\<forall>j\<in>set (lruList (evictor (p\<lparr>evictor := ev\<rparr>))).
      \<exists>idx. map_of (pageTable (p\<lparr>evictor := ev\<rparr>)) j = Some idx \<and> 0 < pgPin (frames (p\<lparr>evictor := ev\<rparr>) ! idx)"
    using Suc.prems(3) l ev(3) by auto
  from Suc.IH [OF _ _ this] ev show ?case by simp
qed simp

section \<open>Checksums across a flush\<close>

definition sealed :: "page \<Rightarrow> bool" where
  "sealed pg \<longleftrightarrow> isBTreeKVPage (pgID pg) \<or> GetChecksum (pgData pg) = ComputeChecksum (pgData pg)"

lemma ComputeChecksum_lt: "ComputeChecksum d < 2 ^ 32"
  unfolding ComputeChecksum_def by (rule ChecksumIEEE_bound)

lemma checksum_set:
  "length d = PageSize \<Longrightarrow> GetChecksum (SetChecksum c d) = c mod 2 ^ 32"
  "length d = PageSize \<Longrightarrow> ComputeChecksum (SetChecksum c d) = ComputeChecksum d"
  by (simp_all add: GetChecksum_def SetChecksum_def PageSize_def ComputeChecksum_def)
    (simp add: wr_le_def blit_def)

lemma sealed_seal: "length (pgData pg) = PageSize \<Longrightarrow> sealed (seal pg)"
  using ComputeChecksum_lt [of "pgData pg"] by (simp add: sealed_def seal_def checksum_set)

lemma flush_page_simps:
  assumes "flush_page E idx (e, p) = (e', p')"
  shows "evictor p' = evictor p" "length (frames p') = length (frames p)"
    "\<And>k. length (pgData (frames p ! k)) = PageSize \<Longrightarrow> length (pgData (frames p' ! k)) = PageSize"
    "\<And>k. length (pgData (frames p ! k)) = PageSize \<Longrightarrow> sealed (frames p ! k) \<or> k = idx \<Longrightarrow> k < length (frames p) \<Longrightarrow> sealed (frames p' ! k)"
proof -
  let ?s = "seal (frames p ! idx)"
  obtain er dsk pg where p': "p' = p\<lparr>frames := (frames p)[idx := pg], disk := dsk\<rparr>"
    and pg: "pgData pg = pgData ?s" "pgID pg = pgID ?s"
    using assms by (auto simp: flush_page_def Let_def split: prod.splits)
  show "evictor p' = evictor p" "length (frames p') = length (frames p)" by (simp_all add: p')
  fix k assume l: "length (pgData (frames p ! k)) = PageSize"
  show "length (pgData (frames p' ! k)) = PageSize"
    using l pg by (cases "k = idx \<and> idx < length (frames p)") (auto simp: p' nth_list_update list_update_beyond)
  assume "sealed (frames p ! k) \<or> k = idx" "k < length (frames p)"
  then show "sealed (frames p' ! k)"
    using l pg sealed_seal [OF l] by (cases "k = idx") (simp_all add: p' sealed_def)
qed

lemma flush_fold_simps:
  "fold (flush_page E) l (e, p) = (e', p') \<Longrightarrow> evictor p' = evictor p \<and>
   (k < length (frames p) \<longrightarrow> length (pgData (frames p ! k)) = PageSize \<longrightarrow> sealed (frames p ! k) \<or> k \<in> set l \<longrightarrow> sealed (frames p' ! k))"
proof (induction l arbitrary: e p)
  case (Cons a l)
  obtain e1 p1 where 1: "flush_page E a (e, p) = (e1, p1)" by fastforce
  have "fold (flush_page E) l (e1, p1) = (e', p')" using Cons.prems 1 by simp
  from Cons.IH [OF this] flush_page_simps [OF 1] show ?case by auto
qed simp

lemma pin_frames_simps:
  "evictor (fold pin_frame l p) = evictor p" "pgData (frames (fold pin_frame l p) ! k) = pgData (frames p ! k)"
proof (induction l arbitrary: p)
  case (Cons a l)
  case 1 from Cons.IH(1) [of "pin_frame a p"] show ?case by (simp add: pin_frame_def)
  case 2 from Cons.IH(2) [of "pin_frame a p"] show ?case
    by (cases "a < length (frames p)") (auto simp: pin_frame_def upd_frame_def nth_list_update list_update_beyond)
qed simp_all

context buffer_pool
begin

lemma FlushAll_evictor: "FlushAll E p = (e, p') \<Longrightarrow> evictor p' = evictor p"
  using flush_fold_simps [of E "dirty_frames E p" None "fold pin_frame (dirty_frames E p) p"] pin_frames_simps(1)
  by (auto simp: FlushAll_free Let_def split: prod.splits)

lemma FlushAll_sealed:
  assumes "pool_wf p" "FlushAll E p = (e, p')" "map_of (pageTable p) i = Some idx" "pgDirty (frames p ! idx)"
  shows "sealed (frames p' ! idx)"
proof -
  let ?l = "dirty_frames E p" let ?p1 = "fold pin_frame ?l p"
  obtain err p2 where f: "fold (flush_page E) ?l (None, ?p1) = (err, p2)" by fastforce
  have "frames p' = frames p2" using assms(2) f by (auto simp: FlushAll_free Let_def split: prod.splits)
  moreover have "idx \<in> set ?l"
    using dirty_frames_props(2) [OF assms(1)] map_of_SomeD [OF assms(3)] assms(4) by force
  ultimately show ?thesis
    using flush_fold_simps [OF f, of idx] pool_wfD [OF assms(1,3)] by (simp add: pin_frames_simps)
qed

end

section \<open>Properties of the pool\<close>

text \<open>C9: \<open>FetchPage\<close> is transparent: whatever it flushes or evicts and whether it succeeds or
  fails, the pool stays well formed and coherent with the device and every page reads as
  before (up to the checksum field of slotted pages). A success pins exactly the requested
  page and hands out a frame that holds its contents; a failure pins nothing. This holds for
  every device and eviction policy that meet their contracts, and for every call that returns
  whatever latches \<open>hs\<close> its caller holds.\<close>

theorem FetchPage_transparent:
  assumes "buffer_pool E stored dsize einv tracked"
    and "pool_inv stored einv tracked M p" and "unat i < 2 ^ 48" and "\<forall>j. 0 \<le> pins p j"
    and "FetchPage (holding E hs) i p = (r, p')" and "r \<noteq> Inl Blocked"
  shows "pool_inv stored einv tracked M p' \<and> stable p p' \<and>
    (\<forall>j. unat j < 2 ^ 48 \<longrightarrow> same_page j (pool_view stored p' j) (pool_view stored p j)) \<and>
    (case r of Inl _ \<Rightarrow> pins p' = pins p
     | Inr idx \<Rightarrow> map_of (pageTable p') i = Some idx \<and> pins p' = (pins p)(i := pins p i + 1) \<and>
         pgData (frames p' ! idx) = pool_view stored p' i)"
proof -
  note run = buffer_pool.FetchPage_returned [OF assms(1,5,6)]
  have "buffer_pool.transparent stored p p'"
    using buffer_pool.FetchPage_inv [OF assms(1-3) _ run] assms(4) by simp
  with buffer_pool.FetchPage_inv [OF assms(1-3) _ run] assms(4) show ?thesis
    unfolding buffer_pool.transparent_def [OF assms(1)] by (auto simp: pool_view_def split: sum.splits)
qed

lemma page_at_empty: "page_at mem_stored [] i = zero_page"
proof -
  have "mem_stored [] = (\<lambda>_. 0)" by (simp add: fun_eq_iff mem_stored_def)
  then show ?thesis by (simp add: page_at_def zero_page_def map_replicate_const)
qed

lemma empty_engine:
  "pool_inv mem_stored lru_inv pageMap {} (NewBufferPool [] n NewLRUEvictionPolicy m)"
  by (rule NewBufferPool_inv) (simp add: lru_inv_def NewLRUEvictionPolicy_def)

text \<open>The first fetch of a pool that was just created.\<close>

lemma FetchPage_new:
  assumes rd: "ReadPage (dev E) i zero_page dsk = (data, e)" "e = None \<or> e = Some ErrEOF"
    and ok: "(\<forall>b\<in>set data. b = 0) \<or> isBTreeKVPage i \<or> GetChecksum data = ComputeChecksum data"
  shows "\<exists>p'. FetchPage E i (NewBufferPool dsk (Suc n) ev m) = (Inr 0, p') \<and> pgData (frames p' ! 0) = data"
proof -
  let ?p = "NewBufferPool dsk (Suc n) ev (map_option IncrBufferPoolMiss m)"
  have l: "[0..<Suc n] = 0 # [1..<Suc n]" by (simp add: upt_conv_Cons)
  have g: "getAvailableFrame E ?p = (Inr 0, ?p\<lparr>freeList := [1..<Suc n]\<rparr>)"
    unfolding getAvailableFrame_def NewBufferPool_def l by (simp add: pressed_def)
  have m: "(NewBufferPool dsk (Suc n) ev m)\<lparr>metrics := map_option IncrBufferPoolMiss m\<rparr> = ?p"
    "pageTable (NewBufferPool dsk (Suc n) ev m) = []" "metrics (NewBufferPool dsk (Suc n) ev m) = m"
    by (simp_all add: NewBufferPool_def)
  have d: "disk (?p\<lparr>freeList := [1..<Suc n]\<rparr>) = dsk" "0 < length (frames (?p\<lparr>freeList := [1..<Suc n]\<rparr>))"
    by (simp_all add: NewBufferPool_def)
  show ?thesis
    unfolding FetchPage_def using rd ok d by (auto simp add: m g Let_def frames_upd)
qed

lemma fetch_empty_engine:
  assumes "unat i < 2 ^ 48"
  shows "\<exists>p'. FetchPage (mem_env fuel) i (NewBufferPool [] (Suc n) NewLRUEvictionPolicy m) = (Inr 0, p') \<and>
    pgData (frames p' ! 0) = zero_page"
proof -
  have "ReadPage mem_device i zero_page [] = (zero_page, Some ErrEOF)"
    using assms by (simp add: ReadPage_def mem_device_def Mem_ReadAt_def page_offset_small blit_def)
  then show ?thesis by (intro FetchPage_new [where e = "Some ErrEOF"]) (simp_all add: zero_page_def)
qed

theorem FetchPage_transparent_witness:
  "\<exists>p'. FetchPage (holding (mem_env 1) [7]) 1002 (NewBufferPool [] 2 NewLRUEvictionPolicy None) = (Inr 0, p') \<and>
     pgData (frames p' ! 0) = zero_page \<and> pins p' 1002 = 1"
proof -
  let ?p = "NewBufferPool [] 2 NewLRUEvictionPolicy None :: (bytes, lru) pool"
  obtain p' where run: "FetchPage (mem_env 1) 1002 ?p = (Inr 0, p')"
    using fetch_empty_engine [of 1002 1 1 None, unfolded Suc_1] by auto
  have "\<not> mp.stuck 1 [7] 1002 ?p" by (rule mp.not_stuck) (simp_all add: NewBufferPool_def pool_wf_def is_dirty_def)
  with run have run': "FetchPage (holding (mem_env 1) [7]) 1002 ?p = (Inr 0, p')" by (simp add: mp.FetchPage_held)
  have b: "unat (1002 :: PageID) < 2 ^ 48" "isBTreeKVPage 1002" by (simp_all add: isBTreeKVPage_def BTreeRootPageID_def)
  with FetchPage_transparent [OF mp.buffer_pool_axioms empty_engine b(1) _ run'] run'
  show ?thesis by (simp add: NewBufferPool_inv same_page_def page_at_empty)
qed

text \<open>C10: durability: when \<open>FlushAll\<close> returns no error, the device holds every page as the pool
  shows it, so that a pool opened on the device after a restart shows the pages of the old
  one; and a page that was flushed passes the checksum test of \<open>FetchPage\<close> there. This holds
  whatever latches \<open>hs\<close> the caller holds.\<close>

theorem FlushAll_durable:
  assumes "buffer_pool E stored dsize einv tracked" and "pool_inv stored einv tracked {} p"
    and "FlushAll (holding E hs) p = (None, p')" and "unat i < 2 ^ 48"
  shows "page_at stored (disk p') i = pool_view stored p' i \<and>
    same_page i (pool_view stored (NewBufferPool (disk p') n ev m) i) (pool_view stored p i) \<and>
    (map_of (pageTable p) i = Some idx \<longrightarrow> pgDirty (frames p ! idx) \<longrightarrow>
      (\<forall>data e. ReadPage (dev E) i zero_page (disk p') = (data, e) \<longrightarrow> e = None \<or> e = Some ErrEOF \<longrightarrow>
       (\<exists>q. FetchPage E i (NewBufferPool (disk p') (Suc n) ev m) = (Inr 0, q) \<and> pgData (frames q ! 0) = pool_view stored p' i)))"
proof -
  have run: "FlushAll E p = (None, p')" using buffer_pool.FlushAll_returned [OF assms(1,3)] by simp
  note F = buffer_pool.FlushAll_inv [OF assms(1,2) run]
  have t: "same_page i (pool_view stored p' i) (pool_view stored p i)"
    using F assms(4) unfolding buffer_pool.transparent_def [OF assms(1)] by blast
  have "pool_inv stored einv tracked {} p'" and tab: "pageTable p' = pageTable p" using F by blast+
  then have wf: "pool_wf p'" and co: "coherent stored {} p'" by (simp_all add: pool_inv_def)
  have d: "page_at stored (disk p') i = pool_view stored p' i"
  proof (cases "map_of (pageTable p') i")
    case (Some k)
    then have "k \<in> snd ` set (pageTable p')" using map_of_SomeD by force
    then have "\<not> pgDirty (frames p' ! k)" using F by blast
    with coherentD [OF co Some] Some show ?thesis by (simp add: pool_view_def)
  qed (simp add: pool_view_def)
  have "\<exists>q. FetchPage E i (NewBufferPool (disk p') (Suc n) ev m) = (Inr 0, q) \<and> pgData (frames q ! 0) = pool_view stored p' i"
    if "map_of (pageTable p) i = Some idx" "pgDirty (frames p ! idx)"
      "ReadPage (dev E) i zero_page (disk p') = (data, e)" "e = None \<or> e = Some ErrEOF" for data e
  proof -
    have data: "data = page_at stored (disk p') i"
      using block_device.ReadPage_view [OF buffer_pool.axioms(1) [OF assms(1)] assms(4) that(3) [unfolded zero_page_def] that(4)] .
    have wf0: "pool_wf p" using assms(2) by (simp add: pool_inv_def)
    note s = buffer_pool.FlushAll_sealed [OF assms(1) wf0 run that(1,2)]
    have m: "map_of (pageTable p') i = Some idx" using that(1) tab by simp
    have "pool_view stored p' i = pgData (frames p' ! idx)" "pgID (frames p' ! idx) = i"
      using m pool_wfD [OF wf m] by (simp_all add: pool_view_def)
    with s FetchPage_new [OF that(3,4)] d data show ?thesis by (simp add: sealed_def)
  qed
  with t d show ?thesis by (simp add: NewBufferPool_inv(3))
qed

text \<open>A pool with one dirty page, for examples.\<close>

definition dirty_pool :: "PageID \<Rightarrow> bytes \<Rightarrow> (bytes, lru) pool" where
  "dirty_pool i d = \<lparr>disk = [], frames = [\<lparr>pgID = i, pgData = d, pgPin = 0, pgDirty = True, pgVersion = 0\<rparr>],
     pageTable = [(i, 0)], evictor = \<lparr>lruList = [i], pageMap = {i}\<rparr>, freeList = [], metrics = None\<rparr>"

lemma dirty_pool_inv:
  "unat i < 2 ^ 48 \<Longrightarrow> length d = PageSize \<Longrightarrow> pool_inv mem_stored lru_inv pageMap {} (dirty_pool i d)"
  by (simp add: dirty_pool_def pool_inv_def pool_wf_def coherent_def lru_inv_def)

theorem FlushAll_durable_witness:
  "\<exists>p'. FlushAll (holding (mem_env 1) [7]) (dirty_pool 1002 (replicate PageSize 7)) = (None, p') \<and>
     page_at mem_stored (disk p') 1002 = pool_view mem_stored p' 1002"
proof -
  let ?p = "dirty_pool 1002 (replicate PageSize 7)"
  have b: "unat (1002 :: PageID) < 2 ^ 48" by simp
  obtain e p' where run: "FlushAll (mem_env 1) ?p = (e, p')" by fastforce
  have ok: "WritePage mem_device 1002 d [] = (x, m) \<Longrightarrow> x = None" for d x m using Mem_WritePage_ok [OF b, of d "[]"] by simp
  have "Sync mem_device m = (None, m)" for m by (simp add: mem_device_def Mem_Sync_def)
  then have "e = None"
    using run by (auto simp: mp.FlushAll_free dirty_frames_def dirty_pool_def pin_frame_def upd_frame_def flush_page_def
      Let_def split: prod.splits dest: ok)
  moreover have "\<not> flush_waits (holding (mem_env 1) [7]) ?p" by (simp add: flush_waits_def dirty_frames_def dirty_pool_def)
  ultimately have run': "FlushAll (holding (mem_env 1) [7]) ?p = (None, p')" using mp.FlushAll_held [of 1 "[7]" ?p] run by simp
  have "pool_inv mem_stored lru_inv pageMap {} ?p" by (rule dirty_pool_inv [OF b]) simp
  from FlushAll_durable [OF mp.buffer_pool_axioms this run' b] run' show ?thesis by blast
qed

text \<open>\<open>FetchPage\<close> never hands out a slotted page read from the device that fails its
  checksum, unless the page is blank or its checksum field is 0; when it reports an error the
  page is not in the table.\<close>

theorem FetchPage_validates:
  assumes "buffer_pool E stored dsize einv tracked" and "pool_inv stored einv tracked M p"
    and "map_of (pageTable p) i = None" and "FetchPage E i p = (r, p')"
  shows "case r of
      Inr idx \<Rightarrow> (let d = pgData (frames p' ! idx) in (\<forall>b\<in>set d. b = 0) \<or> isBTreeKVPage i \<or>
        GetChecksum d = ComputeChecksum d \<or> GetChecksum d = 0)
    | Inl e \<Rightarrow> map_of (pageTable p') i = None"
proof -
  let ?q = "p\<lparr>metrics := map_option IncrBufferPoolMiss (metrics p)\<rparr>"
  have q: "pool_inv stored einv tracked M ?q" using assms(2) by (simp add: buffer_pool.inv_metrics [OF assms(1)])
  obtain g p1 where g: "getAvailableFrame E ?q = (g, p1)" by fastforce
  note G = buffer_pool.getAvailableFrame_inv [OF assms(1) q g]
  have m1: "map_of (pageTable p1) i = None" using G assms(3) by (auto simp: map_of_eq_None_iff)
  show ?thesis
  proof (cases g)
    case (Inl e)
    then have "r = Inl e" "p' = p1" using assms(3,4) g by (simp_all add: FetchPage_def)
    then show ?thesis using m1 by simp
  next
    case (Inr idx)
    then have "idx < length (frames p1)" using G by simp
    with assms(3,4) g m1 Inr show ?thesis
      by (auto simp: FetchPage_def Let_def frames_upd split: prod.splits if_splits)
  qed
qed

theorem FetchPage_validates_witness:
  "\<exists>p'. FetchPage (mem_env 1) 5 (NewBufferPool [] 2 NewLRUEvictionPolicy None) = (Inr 0, p') \<and>
     (let d = pgData (frames p' ! 0) in (\<forall>b\<in>set d. b = 0) \<or> isBTreeKVPage 5 \<or>
        GetChecksum d = ComputeChecksum d \<or> GetChecksum d = 0)"
proof -
  obtain p' where run: "FetchPage (mem_env 1) 5 (NewBufferPool [] 2 NewLRUEvictionPolicy None) = (Inr 0, p')"
    using fetch_empty_engine [of 5 1 1 None, unfolded Suc_1] by auto
  have "map_of (pageTable (NewBufferPool [] 2 NewLRUEvictionPolicy None :: (bytes, lru) pool)) 5 = None" by (simp add: NewBufferPool_def)
  from FetchPage_validates [OF mp.buffer_pool_axioms empty_engine this run] run show ?thesis by simp
qed

text \<open>\<open>NewPage\<close> on a file of whole pages: the page after the end of the file is returned
  pinned and formatted, and no other page changes. When a frame of that number is already
  cached, because it was fetched before the file grew that far, the frame returned is that
  frame and its contents are formatted away.\<close>

theorem NewPage_result:
  assumes "buffer_pool E stored dsize einv tracked" and "pool_inv stored einv tracked M p" and "\<forall>j. 0 \<le> pins p j"
    and "PageSize dvd dsize (disk p)" and "dsize (disk p) div PageSize < 2 ^ 48"
    and "NewPage E p = (Inr idx, p')" and n: "n = fresh_id (dsize (disk p))"
  shows "pool_inv stored einv tracked (insert n M) p' \<and> map_of (pageTable p') n = Some idx \<and>
    pins p' = (pins p)(n := pins p n + 1) \<and>
    (\<forall>j. unat j < 2 ^ 48 \<longrightarrow> j \<noteq> n \<longrightarrow> same_page j (pool_view stored p' j) (pool_view stored p j)) \<and>
    pgData (frames p' ! idx) =
      Init (case map_of (pageTable p) n of None \<Rightarrow> zero_page | Some k \<Rightarrow> pgData (frames p ! k))"
proof -
  have nn: "\<And>j. 0 \<le> pins p j" using assms(3) by blast
  note N = buffer_pool.NewPage_inv [OF assms(1,2) nn assms(4-6), folded n]
  have v: "pool_view stored p' n = pgData (frames p' ! idx)" using N by (simp add: pool_view_def)
  have "pool_view stored p' n = Init (case map_of (pageTable p) n of None \<Rightarrow> zero_page | Some k \<Rightarrow> pgData (frames p ! k))"
  proof (cases "map_of (pageTable p) n")
    case (Some k)
    then have "pool_view stored p n = pgData (frames p ! k)" by (simp add: pool_view_def)
    with N Some show ?thesis by simp
  next
    case None
    with N have "pool_view stored p' n = Init zero_page" by blast
    with None show ?thesis by simp
  qed
  with v N show ?thesis by simp
qed

theorem NewPage_result_witness:
  "\<exists>p'. NewPage (mem_env 1) (dirty_pool 0 (replicate PageSize 7)) = (Inr 0, p') \<and> pgData (frames p' ! 0) = Init (replicate PageSize 7)"
proof -
  let ?p = "dirty_pool 0 (replicate PageSize 7)"
  have b: "unat (0 :: PageID) < 2 ^ 48" by simp
  have inv: "pool_inv mem_stored lru_inv pageMap {} ?p" by (rule dirty_pool_inv) simp_all
  obtain x dsk where w: "WritePage mem_device 0 zero_page [] = (x, dsk)" by fastforce
  then have "x = None" using Mem_WritePage_ok [OF b, of zero_page "[]"] by simp
  moreover have "Stat mem_device [] = Inr 0" by (simp add: mem_device_def Mem_Stat_def)
  ultimately obtain p' where run: "NewPage (mem_env 1) ?p = (Inr 0, p')"
    using w by (auto simp: NewPage_def dirty_pool_def FetchPage_def Let_def)
  have nn: "\<forall>j. 0 \<le> pins ?p j" by (simp add: pins_def dirty_pool_def)
  have "disk ?p = []" "map_of (pageTable ?p) 0 = Some 0" "pgData (frames ?p ! 0) = replicate PageSize 7"
    by (simp_all add: dirty_pool_def)
  with NewPage_result [OF mp.buffer_pool_axioms inv nn _ _ run] run show ?thesis by (simp add: fresh_id_def)
qed

lemma getAvailableFrame_start:
  fixes p :: "(bytes, lru) pool"
  assumes "pool_inv mem_stored lru_inv pageMap M p"
  obtains p1 where "pool_inv mem_stored lru_inv pageMap M p1" "keeps p p1" "pageTable p1 = pageTable p" "freeList p1 = freeList p"
    "evictor p1 = evictor p"
    "getAvailableFrame (mem_env fuel) p =
      (case freeList p1 of idx # rest \<Rightarrow> (Inr idx, p1\<lparr>freeList := rest\<rparr>) | [] \<Rightarrow> evict_loop (mem_env fuel) fuel p1)"
proof -
  define p1 where "p1 = (if pressed p then snd (FlushAll (mem_env fuel) p) else p)"
  obtain e q where f: "FlushAll (mem_env fuel) p = (e, q)" by fastforce
  note F = mp.FlushAll_inv [OF assms f]
  have k: "keeps p q" by (rule mp.FlushAll_keeps [OF assms f])
  have q: "pool_inv mem_stored lru_inv pageMap M q" "pageTable q = pageTable p" "freeList q = freeList p" using F by blast+
  have g: "getAvailableFrame (mem_env fuel) p =
      (case freeList p1 of idx # rest \<Rightarrow> (Inr idx, p1\<lparr>freeList := rest\<rparr>) | [] \<Rightarrow> evict_loop (mem_env fuel) (evict_fuel (mem_env fuel)) p1)"
    unfolding mp.getAvailableFrame_free Let_def p1_def [symmetric] ..
  show thesis
  proof (rule that [of p1])
    show "pool_inv mem_stored lru_inv pageMap M p1" "keeps p p1" "pageTable p1 = pageTable p" "freeList p1 = freeList p"
      "evictor p1 = evictor p"
      using assms q k mp.FlushAll_evictor [OF f] by (simp_all add: p1_def f)
  qed (use g in \<open>simp only: mem_env_simps\<close>)
qed

lemma frame_found:
  assumes inv: "pool_inv mem_stored lru_inv pageMap M p"
    and free: "freeList p \<noteq> [] \<or> (\<exists>i idx. map_of (pageTable p) i = Some idx \<and> pgPin (frames p ! idx) \<le> 0)"
    and fuel: "length (lruList (evictor p)) \<le> fuel"
  shows "\<exists>idx p'. getAvailableFrame (mem_env fuel) p = (Inr idx, p')"
proof -
  obtain p1 where p1: "pool_inv mem_stored lru_inv pageMap M p1" "keeps p p1" "pageTable p1 = pageTable p"
      "freeList p1 = freeList p" "evictor p1 = evictor p"
    and g: "getAvailableFrame (mem_env fuel) p =
      (case freeList p1 of idx # rest \<Rightarrow> (Inr idx, p1\<lparr>freeList := rest\<rparr>) | [] \<Rightarrow> evict_loop (mem_env fuel) fuel p1)"
    by (rule getAvailableFrame_start [OF inv, of fuel])
  show ?thesis
  proof (cases "freeList p1")
    case (Cons a l)
    then show ?thesis using g by simp
  next
    case Nil
    then obtain i idx where i: "map_of (pageTable p) i = Some idx" "pgPin (frames p ! idx) \<le> 0" using free p1(4) by auto
    then have i1: "map_of (pageTable p1) i = Some idx" "\<not> passed_over p1 i"
      using keepsD(1) [OF p1(2), of i idx] p1(3) by (simp_all add: passed_over_def)
    have lru: "lru_inv (evictor p1)" "i \<in> set (lruList (evictor p1))" "pool_wf p1"
      using p1(1) map_of_SomeD [OF i1(1)] by (force simp: pool_inv_def lru_inv_def)+
    from split_list_last_prop [of "lruList (evictor p1)" "\<lambda>j. \<not> passed_over p1 j"] lru(2) i1(2)
    obtain xs j ys where l: "lruList (evictor p1) = xs @ j # ys" "\<not> passed_over p1 j" "\<forall>y\<in>set ys. passed_over p1 y" by blast
    then obtain k where k: "map_of (pageTable p1) j = Some k" "\<not> 0 < pgPin (frames p1 ! k)"
      by (auto simp: passed_over_def split: option.splits)
    have "length ys < fuel" using fuel p1(5) l(1) by simp
    from evict_loop_enough [OF lru(3,1) l(1,3) k this, of fuel] g Nil show ?thesis by auto
  qed
qed

text \<open>C29: when a frame is found: on the in-memory device, whose writes do not fail, with the LRU
  policy, if the free list is not empty or some cached page is not pinned,
  \<open>getAvailableFrame\<close> returns a frame after at most as many rounds as there are tracked
  pages, unless its caller holds the latch of a dirty page while at least 80 per cent of the
  frames are dirty; in that case the flush it starts waits for that latch and the call never
  returns.\<close>

theorem getAvailableFrame_returns:
  assumes inv: "pool_inv mem_stored lru_inv pageMap M p"
    and free: "freeList p \<noteq> [] \<or> (\<exists>i idx. map_of (pageTable p) i = Some idx \<and> pgPin (frames p ! idx) \<le> 0)"
    and fuel: "length (lruList (evictor p)) \<le> fuel"
  shows "if pressed p \<and> (\<exists>h\<in>set hs. is_dirty p h)
    then fst (getAvailableFrame (holding (mem_env fuel) hs) p) = Inl Blocked
    else \<exists>idx p'. getAvailableFrame (holding (mem_env fuel) hs) p = (Inr idx, p')"
proof -
  have wf: "pool_wf p" using inv by (simp add: pool_inv_def)
  show ?thesis using frame_found [OF assms] by (simp add: mp.getAvailableFrame_held mp.flush_waits_iff [OF wf])
qed

theorem getAvailableFrame_returns_witness:
  "(\<exists>idx p'. getAvailableFrame (holding (mem_env 1) [7]) (dirty_pool 1002 (replicate PageSize 7)) = (Inr idx, p')) \<and>
   fst (getAvailableFrame (holding (mem_env 1) [1002]) (dirty_pool 1002 (replicate PageSize 7))) = Inl Blocked"
proof -
  let ?p = "dirty_pool 1002 (replicate PageSize 7)"
  have "pool_inv mem_stored lru_inv pageMap {} ?p" by (rule dirty_pool_inv) simp_all
  note R = getAvailableFrame_returns [OF this, of 1]
  have d: "is_dirty ?p i \<longleftrightarrow> i = 1002" "pressed ?p" for i by (simp_all add: is_dirty_def pressed_def dirty_pool_def)
  show ?thesis using R [of "[7]"] R [of "[1002]"] by (simp add: d) (simp add: dirty_pool_def)
qed

text \<open>C30: and when there is none it never returns: with an empty free list and every tracked
  page pinned, the loop of \<open>getAvailableFrame\<close> goes round for ever (for every number of
  rounds it is still running), holding the pool mutex; the error it was written to return,
  \<open>all tracking frames are pinned\<close>, is never reached.\<close>

theorem getAvailableFrame_diverges:
  assumes inv: "pool_inv mem_stored lru_inv pageMap M p" and "freeList p = []" and "pageTable p \<noteq> []"
    and tr: "pageMap (evictor p) = fst ` set (pageTable p)"
    and pinned: "\<forall>(i, idx)\<in>set (pageTable p). 0 < pgPin (frames p ! idx)"
  shows "fst (getAvailableFrame (mem_env fuel) p) = Inl OutOfFuel"
proof -
  obtain p1 where p1: "pool_inv mem_stored lru_inv pageMap M p1" "keeps p p1" "pageTable p1 = pageTable p"
      "freeList p1 = freeList p" "evictor p1 = evictor p"
    and g: "getAvailableFrame (mem_env fuel) p =
      (case freeList p1 of idx # rest \<Rightarrow> (Inr idx, p1\<lparr>freeList := rest\<rparr>) | [] \<Rightarrow> evict_loop (mem_env fuel) fuel p1)"
    by (rule getAvailableFrame_start [OF inv, of fuel])
  have lru: "lru_inv (evictor p1)" "set (lruList (evictor p1)) = fst ` set (pageTable p)"
    using p1(1,5) tr by (simp_all add: pool_inv_def lru_inv_def)
  have "\<exists>idx. map_of (pageTable p1) i = Some idx \<and> 0 < pgPin (frames p1 ! idx)" if i: "i \<in> set (lruList (evictor p1))" for i
  proof -
    obtain idx where m: "map_of (pageTable p) i = Some idx"
      using i lru(2) map_of_eq_None_iff [of "pageTable p" i] by (cases "map_of (pageTable p) i") simp_all
    have "0 < pgPin (frames p ! idx)" using bspec [OF pinned map_of_SomeD [OF m]] by simp
    with m keepsD(1) [OF p1(2), of i idx] p1(3) show ?thesis by simp
  qed
  moreover have "lruList (evictor p1) \<noteq> []" using lru(2) assms(3) by auto
  ultimately show ?thesis
    using evict_loop_diverges [of "mem_env fuel" p1 fuel] lru(1) g assms(2) p1(4) by simp
qed

theorem getAvailableFrame_diverges_witness:
  "fst (getAvailableFrame (mem_env 10) (pin_frame 0 (dirty_pool 1002 (replicate PageSize 7)))) = Inl OutOfFuel"
proof -
  have "pool_inv mem_stored lru_inv pageMap {} (dirty_pool 1002 (replicate PageSize 7))" by (rule dirty_pool_inv) simp_all
  then have "pool_inv mem_stored lru_inv pageMap {} (pin_frame 0 (dirty_pool 1002 (replicate PageSize 7)))"
    using mp.inv_pin_frame by blast
  from getAvailableFrame_diverges [OF this, of 10] show ?thesis
    by (simp add: pin_frame_def upd_frame_def dirty_pool_def)
qed

end
