(* ===== verification/DB.thy ===== *)
theory DB
  imports Slotted PoolClient
begin

text \<open>
  The database of \<open>db.go\<close> over the buffer pool, and the cursor of \<open>range.go\<close>: transaction
  ids, the page operations with their fetch and unpin, compressed values, hash fields and
  \<open>Close\<close>.

  The clock, the order in which \<open>range\<close> visits maps and the codec are arguments. The log is
  kept as a value of any type with the error its \<open>Close\<close> returns; only \<open>Close\<close> and the
  checkpointer use it. The checkpointer's body is \<open>checkpoint\<close>; the goroutine and its ticker
  are not modelled.
\<close>

section \<open>State\<close>

record ('d, 'e) db =
  bp :: "('d, 'e) pool"
  nextTxnID :: TxnID
  activeTxns :: "TxnID set"
  dbMetrics :: "atomic_metrics option"
  dbClosed :: bool

definition NewDB :: "('d, 'e) pool \<Rightarrow> atomic_metrics option \<Rightarrow> ('d, 'e) db" where
  "NewDB p m = \<lparr>bp = p, nextTxnID = 0, activeTxns = {}, dbMetrics = m, dbClosed = False\<rparr>"

record codec_ops =
  codecID :: byte
  Encode :: "bytes \<Rightarrow> bytes result"
  Decode :: "bytes \<Rightarrow> bytes result"

section \<open>Transactions\<close>

definition countActiveTransactions :: "('d, 'e) db \<Rightarrow> nat" where
  "countActiveTransactions db = card (activeTxns db)"

definition note_active :: "('d, 'e) db \<Rightarrow> ('d, 'e) db" where
  "note_active db = db\<lparr>dbMetrics := map_option (SetActiveTransactions (countActiveTransactions db)) (dbMetrics db)\<rparr>"

definition BeginTxn :: "('d, 'e) db \<Rightarrow> TxnID \<times> ('d, 'e) db" where
  "BeginTxn db =
     (let i = nextTxnID db + 1
      in (i, note_active (db\<lparr>nextTxnID := i, activeTxns := insert i (activeTxns db)\<rparr>)))"

definition CommitTxn :: "TxnID \<Rightarrow> ('d, 'e) db \<Rightarrow> ('d, 'e) db" where
  "CommitTxn txnID db = note_active (db\<lparr>activeTxns := activeTxns db - {txnID}\<rparr>)"

section \<open>Operations on one page\<close>

text \<open>Fetch the page, run the work on its bytes, store the bytes, unpin.\<close>

definition on_page ::
  "('d, 'e) env \<Rightarrow> PageID \<Rightarrow> bool \<Rightarrow> (bytes \<Rightarrow> 'a \<times> bytes) \<Rightarrow> ('d, 'e) db \<Rightarrow> 'a result \<times> ('d, 'e) db" where
  "on_page E i isDirty work db =
     (case FetchPage E i (bp db) of
        (Inl e, p) \<Rightarrow> (Inl e, db\<lparr>bp := p\<rparr>)
      | (Inr idx, p) \<Rightarrow>
          let (a, d) = work (pgData (frames p ! idx))
          in (Inr a, db\<lparr>bp := UnpinPage i isDirty (set_data idx d p)\<rparr>))"

definition SlottedPageSlotCount :: "('d, 'e) env \<Rightarrow> PageID \<Rightarrow> ('d, 'e) db \<Rightarrow> nat result \<times> ('d, 'e) db" where
  "SlottedPageSlotCount E i = on_page E i False (\<lambda>d. (GetSlotCount d, d))"

definition ResetSlottedPage :: "('d, 'e) env \<Rightarrow> PageID \<Rightarrow> ('d, 'e) db \<Rightarrow> error option \<times> ('d, 'e) db" where
  "ResetSlottedPage E i db =
     (case on_page E i True (\<lambda>d. ((), Init d)) db of
        (Inl e, db1) \<Rightarrow> (Some e, db1)
      | (Inr _, db1) \<Rightarrow> (case FlushAll E (bp db1) of (e, p) \<Rightarrow> (e, db1\<lparr>bp := p\<rparr>)))"

text \<open>The orders of the two maps that are ranged over, and the clock.\<close>

record run_env =
  cperm :: "(bytes \<times> srec) list \<Rightarrow> (bytes \<times> srec) list"
  sperm :: "(bytes \<times> scan_record) list \<Rightarrow> (bytes \<times> scan_record) list"
  clock :: int
  elapsed :: int

text \<open>\<open>compactPage\<close> reports its duration to the metrics.\<close>

definition compaction_metric :: "run_env \<Rightarrow> bool \<Rightarrow> ('d, 'e) db \<Rightarrow> ('d, 'e) db" where
  "compaction_metric R occurred db =
     (if occurred then db\<lparr>dbMetrics := map_option (RecordPageCompactionTime (elapsed R)) (dbMetrics db)\<rparr> else db)"

definition CompactSlottedPage :: "('d, 'e) env \<Rightarrow> run_env \<Rightarrow> PageID \<Rightarrow> ('d, 'e) db \<Rightarrow> error option \<times> ('d, 'e) db" where
  "CompactSlottedPage E R i db =
     (case on_page E i True (\<lambda>d. case compactPage (cperm R) (clock R) d of Inl e \<Rightarrow> (Some e, d) | Inr d' \<Rightarrow> (None, d')) db of
        (Inl e, db1) \<Rightarrow> (Some e, db1)
      | (Inr r, db1) \<Rightarrow> (r, compaction_metric R (r = None) db1))"

text \<open>A compaction happens when the record does not fit at first.\<close>

definition compacts :: "run_env \<Rightarrow> srec \<Rightarrow> bool \<Rightarrow> bytes \<Rightarrow> bool" where
  "compacts R r heal d0 =
     (let d = (if heal \<and> (GetUpperBoundary d0 = 0 \<or> 32768 < GetUpperBoundary d0) then Init d0 else d0)
      in \<not> IsSafeForInsert (record_size r) d \<and> (case compactPage (cperm R) (clock R) d of Inl _ \<Rightarrow> False | Inr _ \<Rightarrow> True))"

definition Write ::
  "('d, 'e) env \<Rightarrow> run_env \<Rightarrow> PageID \<Rightarrow> TxnID \<Rightarrow> bytes \<Rightarrow> bytes \<Rightarrow> mix_param \<Rightarrow> ('d, 'e) db \<Rightarrow> error option \<times> ('d, 'e) db" where
  "Write E R i txnID key val mixParam db =
     (let r = \<lparr>rTxn = txnID, rExp = expiry (clock R) mixParam, rKey = key, rVal = val\<rparr>
      in case on_page E i True (\<lambda>d. case page_Write (cperm R) (clock R) r d of (e, d') \<Rightarrow> ((e, compacts R r True d), d')) db of
           (Inl e, db1) \<Rightarrow> (Some e, db1)
         | (Inr (e, c), db1) \<Rightarrow> (e, compaction_metric R c db1))"

definition Read :: "('d, 'e) env \<Rightarrow> run_env \<Rightarrow> PageID \<Rightarrow> TxnID \<Rightarrow> bytes \<Rightarrow> ('d, 'e) db \<Rightarrow> bytes result \<times> ('d, 'e) db" where
  "Read E R i readTxnID key db =
     (case on_page E i False (\<lambda>d. (page_Read (activeTxns db) readTxnID key (clock R) d, d)) db of
        (Inl e, db1) \<Rightarrow> (Inl e, db1)
      | (Inr r, db1) \<Rightarrow> (r, db1))"

definition Scan ::
  "('d, 'e) env \<Rightarrow> run_env \<Rightarrow> PageID \<Rightarrow> TxnID \<Rightarrow> bytes \<Rightarrow> ('s \<Rightarrow> bytes \<Rightarrow> bytes \<Rightarrow> bool \<times> 's) \<Rightarrow> 's \<Rightarrow> ('d, 'e) db \<Rightarrow>
   's result \<times> ('d, 'e) db" where
  "Scan E R i readTxnID prefix iter st db =
     (case on_page E i False (\<lambda>d. (page_Scan (sperm R) (activeTxns db) readTxnID prefix (clock R) iter st d, d)) db of
        (Inl e, db1) \<Rightarrow> (Inl e, db1)
      | (Inr r, db1) \<Rightarrow> (r, db1))"

text \<open>\<open>math.MaxInt64\<close> and the like arrive as the expiry itself.\<close>

definition restoreWrite ::
  "('d, 'e) env \<Rightarrow> run_env \<Rightarrow> TxnID \<Rightarrow> int \<Rightarrow> PageID \<Rightarrow> bytes \<Rightarrow> bytes \<Rightarrow> ('d, 'e) db \<Rightarrow> error option \<times> ('d, 'e) db" where
  "restoreWrite E R txnID expiresAt i key val db =
     (let r = \<lparr>rTxn = txnID, rExp = word_of_int expiresAt, rKey = key, rVal = val\<rparr>
      in case on_page E i True (\<lambda>d. case page_restoreWrite (cperm R) (clock R) r d of (e, d') \<Rightarrow> ((e, compacts R r False d), d')) db of
           (Inl e, db1) \<Rightarrow> (Some e, db1)
         | (Inr (e, c), db1) \<Rightarrow> (e, compaction_metric R c db1))"

section \<open>Compressed values and hash fields\<close>

definition WriteCompressed ::
  "('d, 'e) env \<Rightarrow> run_env \<Rightarrow> codec_ops \<Rightarrow> PageID \<Rightarrow> TxnID \<Rightarrow> bytes \<Rightarrow> bytes \<Rightarrow> int \<Rightarrow> ('d, 'e) db \<Rightarrow> error option \<times> ('d, 'e) db" where
  "WriteCompressed E R c i txnID key val ttl db =
     (case Encode c val of
        Inl e \<Rightarrow> (Some e, db)
      | Inr compressed \<Rightarrow> Write E R i txnID key (codecID c # compressed) (DurationParam ttl) db)"

definition open_envelope :: "codec_ops \<Rightarrow> bytes \<Rightarrow> bytes result" where
  "open_envelope c payload =
     (if length payload < 2 then Inl ErrEnvelope
      else if hd payload \<noteq> codecID c then Inl ErrCodecMismatch
      else Decode c (tl payload))"

definition ReadCompressed ::
  "('d, 'e) env \<Rightarrow> run_env \<Rightarrow> codec_ops \<Rightarrow> PageID \<Rightarrow> TxnID \<Rightarrow> bytes \<Rightarrow> ('d, 'e) db \<Rightarrow> bytes result \<times> ('d, 'e) db" where
  "ReadCompressed E R c i readTxnID key db =
     (case Read E R i readTxnID key db of
        (Inl e, db1) \<Rightarrow> (Inl e, db1)
      | (Inr payload, db1) \<Rightarrow> (open_envelope c payload, db1))"

definition decompressing :: "codec_ops \<Rightarrow> ('s \<Rightarrow> bytes \<Rightarrow> bytes \<Rightarrow> bool \<times> 's) \<Rightarrow> 's \<Rightarrow> bytes \<Rightarrow> bytes \<Rightarrow> bool \<times> 's" where
  "decompressing c iter st key payload =
     (if length payload < 2 \<or> hd payload \<noteq> codecID c then iter st key payload
      else case Decode c (tl payload) of
             Inl _ \<Rightarrow> (False, st)
           | Inr decompressed \<Rightarrow> iter st key decompressed)"

definition ScanCompressed ::
  "('d, 'e) env \<Rightarrow> run_env \<Rightarrow> codec_ops \<Rightarrow> PageID \<Rightarrow> TxnID \<Rightarrow> bytes \<Rightarrow> ('s \<Rightarrow> bytes \<Rightarrow> bytes \<Rightarrow> bool \<times> 's) \<Rightarrow> 's \<Rightarrow> ('d, 'e) db \<Rightarrow>
   's result \<times> ('d, 'e) db" where
  "ScanCompressed E R c i readTxnID prefix iter st db = Scan E R i readTxnID prefix (decompressing c iter) st db"

definition PrefixHash :: bytes where
  "PrefixHash = [0x48, 0x3A]"

definition HSet ::
  "('d, 'e) env \<Rightarrow> run_env \<Rightarrow> PageID \<Rightarrow> TxnID \<Rightarrow> bytes \<Rightarrow> bytes \<Rightarrow> bytes \<Rightarrow> int \<Rightarrow> ('d, 'e) db \<Rightarrow> error option \<times> ('d, 'e) db" where
  "HSet E R i txnID hashKey field val ttl db =
     Write E R i txnID (PrefixHash @ hashKey @ [0x3A] @ field) val (DurationParam ttl) db"

section \<open>Checkpoint and close\<close>

definition checkpoint :: "('d, 'e) env \<Rightarrow> ('w \<Rightarrow> 'w) \<Rightarrow> ('d, 'e) db \<Rightarrow> 'w \<Rightarrow> ('d, 'e) db \<times> 'w" where
  "checkpoint E walCheckpoint db w = (db\<lparr>bp := snd (FlushAll E (bp db))\<rparr>, walCheckpoint w)"

definition DB_Close :: "('d, 'e) env \<Rightarrow> error option \<Rightarrow> ('d, 'e) db \<Rightarrow> error option \<times> ('d, 'e) db" where
  "DB_Close E walClose db =
     (if dbClosed db then (None, db)
      else case FlushAll E (bp db) of
        (Some e, p) \<Rightarrow> (Some e, db\<lparr>bp := p, dbClosed := True\<rparr>)
      | (None, p) \<Rightarrow>
          (case walClose of
             Some e \<Rightarrow> (Some e, db\<lparr>bp := p, dbClosed := True\<rparr>)
           | None \<Rightarrow> (case Close (dev E) (disk p) of (e, dsk) \<Rightarrow> (e, db\<lparr>bp := p\<lparr>disk := dsk\<rparr>, dbClosed := True\<rparr>))))"

section \<open>The range cursor\<close>

text \<open>A nil slice is the empty list for \<open>currentKey\<close> and the key found: copying an empty key
  with \<open>append\<close> gives nil.\<close>

record range_cursor =
  rcTxn :: TxnID
  rcPage :: PageID
  rcStart :: bytes
  rcEnd :: "bytes option"
  rcCurrent :: bytes
  rcExhausted :: bool

definition NewRangeCursor :: "PageID \<Rightarrow> TxnID \<Rightarrow> bytes \<Rightarrow> bytes option \<Rightarrow> range_cursor" where
  "NewRangeCursor i t startKey endKey =
     \<lparr>rcTxn = t, rcPage = i, rcStart = startKey, rcEnd = endKey, rcCurrent = [], rcExhausted = False\<rparr>"

definition range_iter ::
  "range_cursor \<Rightarrow> bool \<times> bytes \<times> bytes \<Rightarrow> bytes \<Rightarrow> bytes \<Rightarrow> bool \<times> (bool \<times> bytes \<times> bytes)" where
  "range_iter rc st key val =
     (if rcCurrent rc \<noteq> [] \<and> key \<le> rcCurrent rc then (True, st)
      else if (case rcEnd rc of None \<Rightarrow> False | Some e \<Rightarrow> e < key) then (False, (True, snd st))
      else (False, (fst st, key, val)))"

definition Range_Next ::
  "('d, 'e) env \<Rightarrow> run_env \<Rightarrow> range_cursor \<Rightarrow> ('d, 'e) db \<Rightarrow> (bytes \<times> bytes) option result \<times> range_cursor \<times> ('d, 'e) db" where
  "Range_Next E R rc db =
     (if rcExhausted rc then (Inr None, rc, db)
      else case Scan E R (rcPage rc) (rcTxn rc) (rcStart rc) (range_iter rc) (False, [], []) db of
             (Inl e, db1) \<Rightarrow> (Inl e, rc, db1)
           | (Inr (exhausted, foundKey, foundValue), db1) \<Rightarrow>
               let rc1 = rc\<lparr>rcExhausted := exhausted\<rparr>
               in if foundKey = [] then (Inr None, rc1\<lparr>rcExhausted := True\<rparr>, db1)
                  else (Inr (Some (foundKey, foundValue)), rc1\<lparr>rcCurrent := foundKey, rcStart := foundKey\<rparr>, db1))"

section \<open>Pages of the database\<close>

lemma rd_le_behind: "drop 4 a = drop 4 b \<Longrightarrow> 4 \<le> off \<Longrightarrow> rd_le n a off = rd_le n b off"
proof -
  assume d: "drop 4 a = drop 4 b" and o: "4 \<le> off"
  have "drop off a = drop off b"
    using arg_cong [OF d, of "drop (off - 4)"] o by simp
  then show ?thesis by (simp add: rd_le_def slice_def)
qed

lemma slotted_rep_same:
  assumes "same_page i a b" "length a = PageSize"
  shows "slotted_rep rs b \<Longrightarrow> slotted_rep rs a"
proof -
  assume rep: "slotted_rep rs b"
  have d: "drop 4 a = drop 4 b" using assms(1) by (simp add: same_page_def split: if_splits)
  have dd: "drop k a = drop k b" if "4 \<le> k" for k
    using arg_cong [OF d, of "drop (k - 4)"] that by simp
  have "PageHeaderSize + length (recs rs) \<le> PageSize" using rep by (simp add: slotted_rep_def)
  then have "4 \<le> PageSize - length (recs rs)" by (simp add: PageHeaderSize_def)
  with rep dd show ?thesis
    using assms(2) rd_le_behind [OF d]
    by (simp add: slotted_rep_def GetSlotCount_def GetLowerBoundary_def GetUpperBoundary_def PageHeaderSize_def)
qed

text \<open>A page that was never written is blank; it holds no records.\<close>

definition blank :: "bytes \<Rightarrow> bool" where
  "blank d \<longleftrightarrow> length d = PageSize \<and> drop 4 d = drop 4 zero_page"

definition holds :: "srec list \<Rightarrow> bytes \<Rightarrow> bool" where
  "holds rs d \<longleftrightarrow> slotted_rep rs d \<or> (rs = [] \<and> blank d)"

lemma blank_fields:
  assumes "blank d"
  shows "GetSlotCount d = 0" "GetUpperBoundary d = 0" "GetLowerBoundary d = 0"
proof -
  have z: "rd_le 4 d off = rd_le 4 zero_page off" if "4 \<le> off" for off
    using assms that by (intro rd_le_behind) (simp_all add: blank_def)
  have four: "replicate 4 0 = [0, 0, 0, 0 :: byte]" by (simp add: numeral_eq_Suc)
  have "slice zero_page off (off + 4) = [0, 0, 0, 0]" if "off \<le> 16" for off
    using that by (simp add: slice_def zero_page_def PageSize_def min_def four)
  then have "rd_le 4 d off = 0" if "4 \<le> off" "off \<le> 16" for off
    using that by (simp add: z) (simp add: rd_le_def)
  then show "GetSlotCount d = 0" "GetUpperBoundary d = 0" "GetLowerBoundary d = 0"
    by (simp_all add: GetSlotCount_def GetUpperBoundary_def GetLowerBoundary_def)
qed

lemma holds_same: "same_page i a b \<Longrightarrow> length a = PageSize \<Longrightarrow> holds rs b \<Longrightarrow> holds rs a"
  using slotted_rep_same [of i a b rs] by (auto simp: holds_def blank_def same_page_def split: if_splits)

lemma holds_length: "holds rs d \<Longrightarrow> length d = PageSize"
  by (auto simp: holds_def slotted_rep_def blank_def)

lemma page_Read_holds:
  "holds rs d \<Longrightarrow> page_Read active t key now d =
     (case read_spec active t key now rs of Some v \<Rightarrow> Inr v | None \<Rightarrow> Inl ErrKeyNotFound)"
  using page_Read_rep [of rs d] by (auto simp: holds_def page_Read_def blank_fields read_spec_def)

lemma page_Write_holds:
  assumes "holds rs d" "rsize r < 2 ^ 31" "mset (perm (survivors now rs)) = mset (survivors now rs)"
  defines "rs' \<equiv> after_compaction perm now rs r"
  shows "\<exists>d'. page_Write perm now r d = (if fits rs' r then None else Some ErrOverflow, d') \<and>
    slotted_rep (if fits rs' r then rs' @ [r] else rs') d'"
proof (cases "slotted_rep rs d")
  case True
  from page_Write_rep [where perm = perm and now = now, OF this assms(2,3)] show ?thesis unfolding rs'_def by blast
next
  case False
  then have rs: "rs = []" "blank d" using assms(1) by (simp_all add: holds_def)
  then have i: "slotted_rep rs (Init d)" using Init_rep(1) [of d] by (simp add: blank_def)
  then have u: "GetUpperBoundary (Init d) = PageSize" using rs(1) by (simp add: slotted_rep_def)
  have "page_Write perm now r d = page_Write perm now r (Init d)"
    using blank_fields(2) [OF rs(2)] u by (simp add: page_Write_def PageSize_def)
  with page_Write_rep [where perm = perm and now = now, OF i assms(2,3)] show ?thesis unfolding rs'_def by auto
qed

text \<open>Between operations the pool is coherent and no page is pinned.\<close>

definition db_inv :: "('d \<Rightarrow> nat \<Rightarrow> byte) \<Rightarrow> ('e \<Rightarrow> bool) \<Rightarrow> ('e \<Rightarrow> PageID set) \<Rightarrow> ('d, 'e) db \<Rightarrow> bool" where
  "db_inv st einv tracked db \<longleftrightarrow> pool_inv st einv tracked {} (bp db) \<and> (\<forall>j. pins (bp db) j = 0)"

text \<open>The records of a page as seen through the pool.\<close>

definition page_records :: "('d \<Rightarrow> nat \<Rightarrow> byte) \<Rightarrow> ('d, 'e) db \<Rightarrow> PageID \<Rightarrow> srec list \<Rightarrow> bool" where
  "page_records st db i rs \<longleftrightarrow> holds rs (pool_view st (bp db) i)"

text \<open>An operation touches only page \<open>i\<close>.\<close>

definition frame_but :: "('d \<Rightarrow> nat \<Rightarrow> byte) \<Rightarrow> PageID set \<Rightarrow> ('d, 'e) db \<Rightarrow> ('d, 'e) db \<Rightarrow> bool" where
  "frame_but st X db db' \<longleftrightarrow> (\<forall>j. unat j < 2 ^ 48 \<longrightarrow> j \<notin> X \<longrightarrow>
     same_page j (pool_view st (bp db') j) (pool_view st (bp db) j)) \<and>
     activeTxns db' = activeTxns db \<and> nextTxnID db' = nextTxnID db"

lemma frame_but_trans:
  "frame_but st X db db1 \<Longrightarrow> frame_but st X db1 db2 \<Longrightarrow> frame_but st X db db2"
  unfolding frame_but_def by (metis same_page_trans)

lemma frame_but_mono: "frame_but st X db db' \<Longrightarrow> X \<subseteq> Y \<Longrightarrow> frame_but st Y db db'"
  by (auto simp: frame_but_def)

lemma length_view:
  "pool_inv st einv tracked M p \<Longrightarrow> length (pool_view st p i) = PageSize"
  using pool_wfD(4) [of p i] by (cases "map_of (pageTable p) i") (auto simp: pool_view_def pool_inv_def)

lemma page_records_frame:
  assumes "frame_but st X db db'" "i \<notin> X" "unat i < 2 ^ 48" "pool_inv st einv tracked M (bp db')" "page_records st db i rs"
  shows "page_records st db' i rs"
  using assms holds_same [of i "pool_view st (bp db') i" "pool_view st (bp db) i" rs] length_view [OF assms(4)]
  by (simp add: page_records_def frame_but_def)

context buffer_pool
begin

lemma on_page_contract:
  assumes db: "db_inv stored einv tracked db" and b: "unat i < 2 ^ 48"
    and len: "\<And>d. length d = PageSize \<Longrightarrow> same_page i d (view (bp db) i) \<Longrightarrow> length (snd (work d)) = PageSize"
    and dirty: "isDirty \<or> (\<forall>d. snd (work d) = d)"
    and run: "on_page E i isDirty work db = (r, db')"
  shows "db_inv stored einv tracked db' \<and> dbMetrics db' = dbMetrics db \<and> dbClosed db' = dbClosed db \<and>
    (case r of Inl _ \<Rightarrow> frame_but stored {} db db'
     | Inr a \<Rightarrow> frame_but stored {i} db db' \<and> (\<exists>d. length d = PageSize \<and> same_page i d (view (bp db) i) \<and> work d = (a, view (bp db') i)))"
proof -
  obtain f p where F: "FetchPage E i (bp db) = (f, p)" by fastforce
  have inv: "inv {} (bp db)" and nn: "\<And>j. 0 \<le> pins (bp db) j" and z: "\<And>j. pins (bp db) j = 0"
    using db by (simp_all add: db_inv_def)
  show ?thesis
  proof (cases f)
    case (Inl e)
    then have "r = Inl e" "db' = db\<lparr>bp := p\<rparr>" using run F by (simp_all add: on_page_def)
    with FetchPage_inv [OF inv b nn F] Inl z show ?thesis
      by (simp add: db_inv_def frame_but_def transparent_def)
  next
    case (Inr idx)
    obtain a d where w: "work (pgData (frames p ! idx)) = (a, d)" by fastforce
    have r: "r = Inr a" "db' = db\<lparr>bp := UnpinPage i isDirty (set_data idx d p)\<rparr>"
      using run F Inr w by (simp_all add: on_page_def Let_def)
    have F': "FetchPage E i (bp db) = (Inr idx, p)" using F Inr by simp
    have m: "map_of (pageTable p) i = Some idx" "pool_wf p" and t: "transparent (bp db) p"
      using FetchPage_inv [OF inv b nn F'] by (simp_all add: pool_inv_def)
    have l: "length (pgData (frames p ! idx)) = PageSize" using pool_wfD m by blast
    have sm: "same_page i (pgData (frames p ! idx)) (view (bp db) i)"
      using t b m(1) by (auto simp: transparent_def pool_view_def)
    have d: "length d = PageSize" "isDirty \<or> d = pgData (frames p ! idx)"
      using len [OF l sm] w dirty by (auto simp: prod_eq_iff)
    note P = page_update [OF inv _ b nn F' d]
    have pz: "\<forall>j. pins (bp db') j = 0" and pv: "view (bp db') i = d" using P z r(2) by simp_all
    have db': "db_inv stored einv tracked db'" using P pz r(2) by (simp add: db_inv_def)
    have fr: "frame_but stored {i} db db'" using P r(2) by (simp add: frame_but_def)
    have "work (pgData (frames p ! idx)) = (a, view (bp db') i)" using w pv by simp
    then show ?thesis using db' fr l sm by (auto simp: r)
  qed
qed

text \<open>The work of the page operations on a well-formed page.\<close>

lemma on_page_rep:
  assumes db: "db_inv stored einv tracked db" and b: "unat i < 2 ^ 48" and rep: "page_records stored db i rs"
    and len: "\<And>d. holds rs d \<Longrightarrow> length (snd (work d)) = PageSize" and dirty: "isDirty \<or> (\<forall>d. snd (work d) = d)"
    and run: "on_page E i isDirty work db = (r, db')"
  shows "db_inv stored einv tracked db' \<and>
    (case r of Inl _ \<Rightarrow> frame_but stored {} db db'
     | Inr a \<Rightarrow> frame_but stored {i} db db' \<and> (\<exists>d. holds rs d \<and> work d = (a, view (bp db') i)))"
proof -
  have sr: "holds rs d" if "length d = PageSize" "same_page i d (view (bp db) i)" for d
    using rep holds_same [OF that(2,1)] by (simp add: page_records_def)
  have "db_inv stored einv tracked db' \<and> dbMetrics db' = dbMetrics db \<and> dbClosed db' = dbClosed db \<and>
    (case r of Inl _ \<Rightarrow> frame_but stored {} db db'
     | Inr a \<Rightarrow> frame_but stored {i} db db' \<and> (\<exists>d. length d = PageSize \<and> same_page i d (view (bp db) i) \<and> work d = (a, view (bp db') i)))"
    by (rule on_page_contract [OF db b _ dirty run]) (rule len, rule sr)
  then show ?thesis using sr by (auto split: sum.splits)
qed

end

section \<open>Contracts of the operations\<close>

definition new_record :: "run_env \<Rightarrow> TxnID \<Rightarrow> bytes \<Rightarrow> bytes \<Rightarrow> mix_param \<Rightarrow> srec" where
  "new_record R t key val mp = \<lparr>rTxn = t, rExp = expiry (clock R) mp, rKey = key, rVal = val\<rparr>"

lemma compaction_metric_simps [simp]:
  "bp (compaction_metric R c db) = bp db" "activeTxns (compaction_metric R c db) = activeTxns db"
  "nextTxnID (compaction_metric R c db) = nextTxnID db"
  by (simp_all add: compaction_metric_def)

context buffer_pool
begin

text \<open>The common shape of \<open>Write\<close> and \<open>restoreWrite\<close>.\<close>

lemma write_like:
  assumes db: "db_inv stored einv tracked db" and b: "unat i < 2 ^ 48" and rep: "page_records stored db i rs"
    and W: "\<And>d. holds rs d \<Longrightarrow> \<exists>d'. f d = (if ok then None else Some ErrOverflow, d') \<and> slotted_rep rs' d'"
    and run: "(case on_page E i True (\<lambda>d. case f d of (e, d') \<Rightarrow> ((e, c d), d')) db of
        (Inl e, db1) \<Rightarrow> (Some e, db1) | (Inr (e, c), db1) \<Rightarrow> (e, compaction_metric R c db1)) = (e, db')"
  shows "db_inv stored einv tracked db' \<and> frame_but stored {i} db db' \<and>
    (if e = None then ok \<and> page_records stored db' i rs'
     else page_records stored db' i rs \<or> (\<not> ok \<and> page_records stored db' i rs'))"
proof -
  let ?work = "\<lambda>d. case f d of (e, d') \<Rightarrow> ((e, c d), d')"
  obtain o' db1 where o: "on_page E i True ?work db = (o', db1)" by fastforce
  have len: "length (snd (?work d)) = PageSize" if "holds rs d" for d
    using W [OF that] by (auto simp: slotted_rep_def)
  have "True \<or> (\<forall>d. snd (?work d) = d)" by simp
  note P = on_page_rep [OF db b rep len this o]
  show ?thesis
  proof (cases o')
    case (Inl x)
    then have res: "e = Some x" "db' = db1" using run o by simp_all
    have "frame_but stored {} db db'" "db_inv stored einv tracked db'" using P Inl res by simp_all
    then show ?thesis
      using page_records_frame [of stored "{}" db db' i einv tracked "{}" rs] b rep frame_but_mono [of stored "{}" db db' "{i}"] res
      by (simp add: db_inv_def)
  next
    case (Inr ec)
    obtain e' c' where ec: "ec = (e', c')" by fastforce
    have res: "e = e'" "db' = compaction_metric R c' db1" using run o Inr ec by simp_all
    from P Inr ec obtain d where d: "holds rs d" "?work d = ((e', c'), view (bp db1) i)"
      and f: "frame_but stored {i} db db1" "db_inv stored einv tracked db1" by auto
    have inv': "db_inv stored einv tracked db'" "frame_but stored {i} db db'"
      using f by (simp_all add: res db_inv_def frame_but_def)
    from W [OF d(1)] d(2) have "e' = (if ok then None else Some ErrOverflow)" "slotted_rep rs' (view (bp db1) i)" by auto
    with inv' show ?thesis by (auto simp: page_records_def holds_def res split: if_splits)
  qed
qed

lemma Write_contract:
  assumes db: "db_inv stored einv tracked db" and b: "unat i < 2 ^ 48" and rep: "page_records stored db i rs"
    and small: "24 + length key + length val < 2 ^ 31"
    and perm: "mset (cperm R (survivors (clock R) rs)) = mset (survivors (clock R) rs)"
    and run: "Write E R i t key val mp db = (e, db')"
  defines "r \<equiv> new_record R t key val mp" and "rs' \<equiv> after_compaction (cperm R) (clock R) rs (new_record R t key val mp)"
  shows "db_inv stored einv tracked db' \<and> frame_but stored {i} db db' \<and>
    (if e = None then page_records stored db' i (rs' @ [r]) else page_records stored db' i rs \<or> page_records stored db' i rs')"
proof -
  have r: "rsize r < 2 ^ 31" using small by (simp add: r_def new_record_def length_record_bytes)
  have W: "\<exists>d'. page_Write (cperm R) (clock R) r d = (if fits rs' r then None else Some ErrOverflow, d') \<and>
    slotted_rep (if fits rs' r then rs' @ [r] else rs') d'" if "holds rs d" for d
    unfolding rs'_def r_def [symmetric] by (rule page_Write_holds [where perm = "cperm R" and now = "clock R", OF that r perm])
  have run': "(case on_page E i True (\<lambda>d. case page_Write (cperm R) (clock R) r d of (e, d') \<Rightarrow> ((e, compacts R r True d), d')) db of
      (Inl e, db1) \<Rightarrow> (Some e, db1) | (Inr (e, c), db1) \<Rightarrow> (e, compaction_metric R c db1)) = (e, db')"
    using run unfolding Write_def Let_def r_def new_record_def .
  from write_like [OF db b rep W run'] show ?thesis by (auto split: if_splits)
qed

lemma Read_contract:
  assumes db: "db_inv stored einv tracked db" and b: "unat i < 2 ^ 48" and rep: "page_records stored db i rs"
    and run: "Read E R i t key db = (res, db')"
  shows "db_inv stored einv tracked db' \<and> frame_but stored {} db db' \<and> page_records stored db' i rs \<and>
    (case fst (FetchPage E i (bp db)) of
       Inl e \<Rightarrow> res = Inl e
     | Inr _ \<Rightarrow> res = (case read_spec (activeTxns db) t key (clock R) rs of Some v \<Rightarrow> Inr v | None \<Rightarrow> Inl ErrKeyNotFound))"
proof -
  define work where "work = (\<lambda>d. (page_Read (activeTxns db) t key (clock R) d, d))"
  obtain o' db1 where o: "on_page E i False work db = (o', db1)" by fastforce
  have len: "length (snd (work d)) = PageSize" if "holds rs d" for d using holds_length [OF that] by (simp add: work_def)
  have idw: "False \<or> (\<forall>d. snd (work d) = d)" by (simp add: work_def)
  note P = on_page_rep [OF db b rep len idw o]
  have run': "(case on_page E i False work db of (Inl e, db1) \<Rightarrow> (Inl e, db1) | (Inr r, db1) \<Rightarrow> (r, db1)) = (res, db')"
    using run unfolding Read_def work_def .
  have fe: "(case fst (FetchPage E i (bp db)) of Inl e \<Rightarrow> o' = Inl e | Inr _ \<Rightarrow> \<exists>a. o' = Inr a)"
    using o by (auto simp: on_page_def Let_def split: prod.splits sum.splits)
  show ?thesis
  proof (cases o')
    case (Inl x)
    then have r: "res = Inl x" "db' = db1" using run' o by simp_all
    have f: "frame_but stored {} db db'" "db_inv stored einv tracked db'" using P Inl r by simp_all
    then have "page_records stored db' i rs"
      using page_records_frame [of stored "{}" db db' i einv tracked "{}" rs] b rep by (simp add: db_inv_def)
    with f r fe Inl show ?thesis by (auto split: sum.splits)
  next
    case (Inr a)
    then have r: "res = a" "db' = db1" using run' o by simp_all
    from P Inr obtain d where d: "holds rs d" "work d = (a, view (bp db') i)"
      and f: "frame_but stored {i} db db'" "db_inv stored einv tracked db'" by (auto simp: r)
    have v: "view (bp db') i = d" using d(2) by (simp add: work_def)
    have a: "a = (case read_spec (activeTxns db) t key (clock R) rs of Some v \<Rightarrow> Inr v | None \<Rightarrow> Inl ErrKeyNotFound)"
      using d page_Read_holds [OF d(1)] by (simp add: work_def)
    have c: "db_inv stored einv tracked db' \<and> dbMetrics db' = dbMetrics db \<and> dbClosed db' = dbClosed db \<and>
      (case o' of Inl _ \<Rightarrow> frame_but stored {} db db'
       | Inr a \<Rightarrow> frame_but stored {i} db db' \<and> (\<exists>d. length d = PageSize \<and> same_page i d (view (bp db) i) \<and> work d = (a, view (bp db') i)))"
      using o unfolding r by (rule on_page_contract [OF db b _ idw, rotated]) (simp add: work_def)
    then have "same_page i (view (bp db') i) (view (bp db) i)" using Inr by (auto simp: work_def)
    then have "frame_but stored {} db db'" using f(1) by (auto simp: frame_but_def)
    moreover have "page_records stored db' i rs" using d(1) v by (simp add: page_records_def)
    ultimately show ?thesis using f fe Inr r a by (auto split: sum.splits)
  qed
qed

end

section \<open>Work between a write and a read\<close>

text \<open>What may happen to a database without writing to it: transactions begin and end, the pool is
  flushed, and reads of any pages move pages in and out of the frames.\<close>

datatype db_work = DoBegin | DoCommit TxnID | DoFlush | DoRead run_env PageID TxnID bytes

primrec db_do :: "('d, 'e) env \<Rightarrow> db_work \<Rightarrow> ('d, 'e) db \<Rightarrow> ('d, 'e) db" where
  "db_do E DoBegin db = snd (BeginTxn db)"
| "db_do E (DoCommit t) db = CommitTxn t db"
| "db_do E DoFlush db = db\<lparr>bp := snd (FlushAll E (bp db))\<rparr>"
| "db_do E (DoRead R j t k) db = snd (Read E R j t k db)"

primrec in_bounds :: "db_work \<Rightarrow> bool" where
  "in_bounds DoBegin = True"
| "in_bounds (DoCommit t) = True"
| "in_bounds DoFlush = True"
| "in_bounds (DoRead R j t k) \<longleftrightarrow> unat j < 2 ^ 48"

context buffer_pool
begin

lemma Read_transparent:
  assumes db: "db_inv stored einv tracked db" and j: "unat j < 2 ^ 48" and run: "Read E R j t k db = (r, db')"
  shows "db_inv stored einv tracked db' \<and> transparent (bp db) (bp db')"
proof -
  define work where "work = (\<lambda>d. (page_Read (activeTxns db) t k (clock R) d, d))"
  obtain o' db1 where o: "on_page E j False work db = (o', db1)" by fastforce
  have db': "db' = db1" using run o by (auto simp: Read_def work_def split: sum.splits)
  have idw: "False \<or> (\<forall>d. snd (work d) = d)" by (simp add: work_def)
  have len: "length (snd (work d)) = PageSize" if "length d = PageSize" for d using that by (simp add: work_def)
  have "db_inv stored einv tracked db1 \<and> (case o' of Inl _ \<Rightarrow> frame_but stored {} db db1
     | Inr a \<Rightarrow> frame_but stored {j} db db1 \<and> (\<exists>d. length d = PageSize \<and> same_page j d (view (bp db) j) \<and> work d = (a, view (bp db1) j)))"
    using on_page_contract [OF db j len idw o] by blast
  then show ?thesis unfolding db' transparent_def by (auto simp: frame_but_def work_def split: sum.splits)
qed

lemma db_do_transparent:
  assumes db: "db_inv stored einv tracked db" and w: "in_bounds w"
  shows "db_inv stored einv tracked (db_do E w db) \<and> transparent (bp db) (bp (db_do E w db))"
proof (cases w)
  case DoFlush
  obtain e p where f: "FlushAll E (bp db) = (e, p)" by fastforce
  have i: "inv {} (bp db)" using db by (simp add: db_inv_def)
  have F: "inv {} p" "transparent (bp db) p" "pageTable p = pageTable (bp db)" using FlushAll_inv [OF i f] by simp_all
  have "pins p j = 0" for j
    using FlushAll_keeps [OF i f] F(3) db by (simp add: db_inv_def pins_def keeps_def split: option.splits)
  with F f DoFlush show ?thesis by (simp add: db_inv_def)
next
  case (DoRead R j t k)
  then show ?thesis using Read_transparent [OF db, of j R t k] w by (cases "Read E R j t k db") simp
qed (use db in \<open>simp_all add: db_inv_def BeginTxn_def CommitTxn_def note_active_def Let_def\<close>)

lemma db_work_transparent:
  "db_inv stored einv tracked db \<Longrightarrow> \<forall>w\<in>set ws. in_bounds w \<Longrightarrow>
     db_inv stored einv tracked (fold (db_do E) ws db) \<and> transparent (bp db) (bp (fold (db_do E) ws db))"
proof (induction ws arbitrary: db)
  case (Cons w ws)
  then have 1: "db_inv stored einv tracked (db_do E w db)" "transparent (bp db) (bp (db_do E w db))"
    using db_do_transparent by simp_all
  with Cons.IH [OF 1(1)] Cons.prems(2) show ?case unfolding transparent_def by (auto intro: same_page_trans)
qed simp

lemma page_records_transparent:
  assumes "transparent (bp db) (bp db')" "db_inv stored einv tracked db'" "unat i < 2 ^ 48" "page_records stored db i rs"
  shows "page_records stored db' i rs"
  using assms holds_same [of i "view (bp db') i" "view (bp db) i" rs] length_view [of stored einv tracked "{}" "bp db'" i]
  by (simp add: page_records_def transparent_def db_inv_def)

end

section \<open>Properties of the database\<close>

text \<open>C4: \<open>Write\<close> through the buffer pool: whatever is evicted or flushed on the way, no page stays
  pinned, the pool stays coherent and every other page keeps its contents. On success the page
  holds the old records (compacted when space was short) followed by the new one; on failure
  it holds the old records or their compaction.\<close>

theorem Write_correct:
  assumes "buffer_pool E stored dsize einv tracked" and "db_inv stored einv tracked db" and "unat i < 2 ^ 48"
    and "page_records stored db i rs" and "24 + length key + length val < 2 ^ 31"
    and "mset (cperm R (survivors (clock R) rs)) = mset (survivors (clock R) rs)"
    and "Write E R i t key val mp db = (e, db')"
    and r: "r = new_record R t key val mp" and rs': "rs' = after_compaction (cperm R) (clock R) rs r"
  shows "db_inv stored einv tracked db' \<and> frame_but stored {i} db db' \<and>
    (if e = None then page_records stored db' i (rs' @ [r])
     else page_records stored db' i rs \<or> page_records stored db' i rs')"
  using buffer_pool.Write_contract [OF assms(1-7)] unfolding rs' r .

text \<open>A database on an empty in-memory device.\<close>

definition mem_db :: "(bytes, lru) db" where
  "mem_db = NewDB (NewBufferPool [] 2 NewLRUEvictionPolicy None) None"

definition run0 :: run_env where
  "run0 = \<lparr>cperm = (\<lambda>l. l), sperm = (\<lambda>l. l), clock = 0, elapsed = 0\<rparr>"

lemma mem_db_inv: "db_inv mem_stored lru_inv pageMap mem_db"
  by (simp add: db_inv_def mem_db_def NewDB_def empty_engine NewBufferPool_inv(2))

lemma mem_db_blank: "page_records mem_stored mem_db i []"
  by (simp add: page_records_def holds_def blank_def mem_db_def NewDB_def NewBufferPool_inv(3) page_at_empty)

lemma mem_db_fetch: "unat i < 2 ^ 48 \<Longrightarrow> \<exists>p. FetchPage (mem_env 8) i (bp mem_db) = (Inr 0, p) \<and> pgData (frames p ! 0) = zero_page"
  using fetch_empty_engine [of i 8 1 None, unfolded Suc_1] by (simp add: mem_db_def NewDB_def)

text \<open>The first write to it succeeds.\<close>

lemma mem_db_write:
  assumes "unat i < 2 ^ 48" "24 + length key + length val < 1000"
  shows "\<exists>db'. Write (mem_env 8) run0 i t key val mp mem_db = (None, db')"
proof -
  obtain p where p: "FetchPage (mem_env 8) i (bp mem_db) = (Inr 0, p)" "pgData (frames p ! 0) = zero_page"
    using mem_db_fetch [OF assms(1)] by blast
  let ?r = "\<lparr>rTxn = t, rExp = expiry 0 mp, rKey = key, rVal = val\<rparr>"
  have h: "holds [] zero_page" by (simp add: holds_def blank_def)
  have s: "survivors 0 [] = []" by (simp add: survivors_def)
  have "rsize ?r < 2 ^ 31" "fits [] ?r" using assms(2) by (simp_all add: length_record_bytes layout_defs)
  with page_Write_holds [where perm = "\<lambda>l. l" and now = 0 and r = ?r, OF h] obtain d where
    "page_Write (\<lambda>l. l) 0 ?r zero_page = (None, d)" by (auto simp: after_compaction_def s)
  then show ?thesis by (simp add: Write_def on_page_def p run0_def Let_def)
qed

theorem Write_correct_witness:
  "\<exists>db'. Write (mem_env 8) run0 7 1 [1] [2] OtherParam mem_db = (None, db') \<and>
     page_records mem_stored db' 7 [new_record run0 1 [1] [2] OtherParam]"
proof -
  obtain db' where w: "Write (mem_env 8) run0 7 1 [1] [2] OtherParam mem_db = (None, db')"
    using mem_db_write [of 7 "[1]" "[2]" 1 OtherParam] by auto
  have "after_compaction (cperm run0) (clock run0) [] r = []" "cperm run0 (survivors (clock run0) []) = survivors (clock run0) []" for r
    by (simp_all add: survivors_def run0_def after_compaction_def)
  with Write_correct [OF mp.buffer_pool_axioms mem_db_inv _ mem_db_blank _ _ w refl refl] w show ?thesis by simp
qed

text \<open>C5: read your writes across the pool: after \<open>Write\<close> has stored a value, transactions may begin and
  commit, the pool may be flushed, with or without errors, and any pages may be read, which
  evicts others. A \<open>Read\<close> of the key then returns the value, to the writing transaction and, when
  that is no longer active, to every reader, until it expires, whenever the page can be fetched
  at all. This holds for an empty value too: it is not a deletion. No other page has changed.\<close>

theorem db_write_read:
  assumes pool: "buffer_pool E stored dsize einv tracked" and db: "db_inv stored einv tracked db" and b: "unat i < 2 ^ 48"
    and rep: "page_records stored db i rs" and small: "24 + length key + length val < 2 ^ 31"
    and perm: "mset (cperm R (survivors (clock R) rs)) = mset (survivors (clock R) rs)"
    and w: "Write E R i t key val mp db = (None, db1)"
    and work: "\<forall>a\<in>set ws. in_bounds a"
  defines "dbw \<equiv> fold (db_do E) ws db1"
  assumes vis: "t \<notin> activeTxns dbw \<or> t' = t" and alive: "clock R' < sint (expiry (clock R) mp)"
    and fetch: "FetchPage E i (bp dbw) = (Inr idx, p)"
    and rd: "Read E R' i t' key dbw = (res, db2)"
  shows "res = Inr val \<and> db_inv stored einv tracked db2 \<and>
    (\<forall>j. unat j < 2 ^ 48 \<longrightarrow> j \<noteq> i \<longrightarrow> same_page j (pool_view stored (bp db2) j) (pool_view stored (bp db) j))"
proof -
  let ?r = "new_record R t key val mp"
  note W = buffer_pool.Write_contract [OF pool db b rep small perm w]
  obtain rs1 where rs1: "page_records stored db1 i (rs1 @ [?r])" using W by auto
  have db1: "db_inv stored einv tracked db1" using W by blast
  note K = buffer_pool.db_work_transparent [OF pool db1 work, folded dbw_def]
  have rs2: "page_records stored dbw i (rs1 @ [?r])"
    using K by (intro buffer_pool.page_records_transparent [OF pool _ _ b rs1]) simp_all
  have dbw: "db_inv stored einv tracked dbw" using K by simp
  note Rd = buffer_pool.Read_contract [OF pool dbw b rs2 rd]
  have "read_spec (activeTxns dbw) t' key (clock R') (rs1 @ [?r]) = Some val"
    using vis alive by (auto simp: read_spec_snoc visible_def isRecordVisible_def new_record_def)
  then have "res = Inr val" using Rd fetch by simp
  moreover have "same_page j (pool_view stored (bp db2) j) (pool_view stored (bp db) j)" if "unat j < 2 ^ 48" "j \<noteq> i" for j
  proof -
    have "same_page j (pool_view stored (bp db1) j) (pool_view stored (bp db) j)" "same_page j (pool_view stored (bp db2) j) (pool_view stored (bp dbw) j)"
      using W Rd that by (simp_all add: frame_but_def)
    moreover have "same_page j (pool_view stored (bp dbw) j) (pool_view stored (bp db1) j)"
      using K that(1) by (simp add: buffer_pool.transparent_def [OF pool])
    ultimately show ?thesis by (blast intro: same_page_trans)
  qed
  ultimately show ?thesis using Rd by blast
qed

text \<open>After the write the page is still cached.\<close>

lemma write_cached:
  assumes "unat i < 2 ^ 48" "24 + length key + length val < 1000"
  shows "\<exists>db' p. Write (mem_env 8) run0 i t key val mp mem_db = (None, db') \<and> FetchPage (mem_env 8) i (bp db') = (Inr 0, p)"
proof -
  obtain db' where w: "Write (mem_env 8) run0 i t key val mp mem_db = (None, db')" using mem_db_write [OF assms] by blast
  obtain p where p: "FetchPage (mem_env 8) i (bp mem_db) = (Inr 0, p)" using mem_db_fetch [OF assms(1)] by blast
  have "map_of (pageTable p) i = Some 0"
    using mp.FetchPage_inv [OF _ assms(1) _ p, of "{}"] mem_db_inv by (simp add: db_inv_def)
  moreover have "pageTable (bp db') = pageTable p"
    using w by (auto simp: Write_def on_page_def p Let_def UnpinPage_def set_data_def split: prod.splits option.splits)
  ultimately show ?thesis using w by (simp add: FetchPage_def)
qed

theorem db_write_read_witness:
  "\<exists>db1 db2. Write (mem_env 8) run0 7 1 [1] [2] OtherParam mem_db = (None, db1) \<and> Read (mem_env 8) run0 7 3 [1] (CommitTxn 1 db1) = (Inr [2], db2)"
proof -
  obtain db1 p where w: "Write (mem_env 8) run0 7 1 [1] [2] OtherParam mem_db = (None, db1)"
    and f: "FetchPage (mem_env 8) 7 (bp db1) = (Inr 0, p)"
    using write_cached [of 7 "[1]" "[2]" 1 OtherParam] by auto
  let ?db = "fold (db_do (mem_env 8)) [DoCommit 1] db1"
  have d: "?db = CommitTxn 1 db1" "bp (CommitTxn 1 db1) = bp db1" "activeTxns (CommitTxn 1 db1) = activeTxns db1 - {1}"
    by (simp_all add: CommitTxn_def note_active_def)
  obtain res db2 where rd: "Read (mem_env 8) run0 7 3 [1] ?db = (res, db2)" by fastforce
  have "clock run0 < sint (expiry (clock run0) OtherParam)" by (simp add: run0_def expiry_def far_future_def)
  then have "res = Inr [2]"
    using db_write_read [OF mp.buffer_pool_axioms mem_db_inv _ mem_db_blank _ _ w _ _ _ _ rd] f
    by (simp add: d(2,3) survivors_def) (simp add: run0_def)
  then show ?thesis using rd w by (simp add: d(1))
qed

text \<open>C26: an uncommitted write is not seen by others: while its transaction is active, every other
  reader gets for every key what it got before the write, as long as the write did not have
  to compact the page.\<close>

theorem write_isolated:
  assumes pool: "buffer_pool E stored dsize einv tracked" and db: "db_inv stored einv tracked db" and b: "unat i < 2 ^ 48"
    and rep: "page_records stored db i rs" and small: "24 + length key + length val < 2 ^ 31"
    and room: "fits rs (new_record R t key val mp)"
    and perm: "mset (cperm R (survivors (clock R) rs)) = mset (survivors (clock R) rs)"
    and w: "Write E R i t key val mp db = (None, db1)"
    and active: "t \<in> activeTxns db" "t' \<noteq> t"
    and before: "Read E R' i t' k db = (res0, db0)" "FetchPage E i (bp db) = (Inr x, p)"
    and after: "Read E R' i t' k db1 = (res, db2)" "FetchPage E i (bp db1) = (Inr y, q)"
  shows "res = res0"
proof -
  let ?r = "new_record R t key val mp"
  note W = buffer_pool.Write_contract [OF pool db b rep small perm w]
  have rs1: "page_records stored db1 i (rs @ [?r])" using W room by (simp add: after_compaction_def)
  have act: "activeTxns db1 = activeTxns db" using W by (simp add: frame_but_def)
  have db1: "db_inv stored einv tracked db1" using W by blast
  have "\<not> visible (activeTxns db) t' ?r" using active by (auto simp: visible_def new_record_def)
  then have "read_spec (activeTxns db1) t' k (clock R') (rs @ [?r]) = read_spec (activeTxns db) t' k (clock R') rs"
    by (simp add: read_spec_snoc act)
  then show ?thesis
    using buffer_pool.Read_contract [OF pool db1 b rs1 after(1)] buffer_pool.Read_contract [OF pool db b rep before(1)] before(2) after(2)
    by simp
qed

text \<open>The outcome of \<open>Write\<close> depends on the pool only.\<close>

lemma on_page_bp:
  assumes "bp db' = bp db"
  shows "fst (on_page E i d work db') = fst (on_page E i d work db) \<and> bp (snd (on_page E i d work db')) = bp (snd (on_page E i d work db))"
proof -
  obtain f p where "FetchPage E i (bp db) = (f, p)" by fastforce
  then show ?thesis using assms by (cases f) (simp_all add: on_page_def case_prod_unfold Let_def)
qed

lemma Write_bp:
  assumes "bp db' = bp db"
  shows "fst (Write E R i t key val mp db') = fst (Write E R i t key val mp db) \<and>
    bp (snd (Write E R i t key val mp db')) = bp (snd (Write E R i t key val mp db))"
proof -
  let ?r = "\<lparr>rTxn = t, rExp = expiry (clock R) mp, rKey = key, rVal = val\<rparr>"
  let ?w = "\<lambda>d. case page_Write (cperm R) (clock R) ?r d of (e, d') \<Rightarrow> ((e, compacts R ?r True d), d')"
  obtain o1 d1 where 1: "on_page E i True ?w db = (o1, d1)" by fastforce
  obtain o2 d2 where 2: "on_page E i True ?w db' = (o2, d2)" by fastforce
  have "o2 = o1" "bp d2 = bp d1" using on_page_bp [OF assms, of E i True ?w] 1 2 by simp_all
  then show ?thesis unfolding Write_def Let_def 1 2 by (cases o1) (simp_all add: case_prod_unfold)
qed

theorem write_isolated_witness:
  "\<exists>db0 db1 db2. BeginTxn mem_db = (1, db0) \<and> Write (mem_env 8) run0 7 1 [1] [2] OtherParam db0 = (None, db1) \<and>
     fst (Read (mem_env 8) run0 7 3 [1] db1) = fst (Read (mem_env 8) run0 7 3 [1] db0)"
proof -
  obtain db0 where db0: "BeginTxn mem_db = (1, db0)" "bp db0 = bp mem_db" "activeTxns db0 = {1}"
    by (simp add: BeginTxn_def note_active_def mem_db_def NewDB_def)
  have inv: "db_inv mem_stored lru_inv pageMap db0" "page_records mem_stored db0 7 []"
    using mem_db_inv mem_db_blank by (simp_all add: db_inv_def page_records_def db0(2))
  obtain p where p: "FetchPage (mem_env 8) 7 (bp db0) = (Inr 0, p)" using mem_db_fetch [of 7] db0(2) by auto
  obtain dbw q where w0: "Write (mem_env 8) run0 7 1 [1] [2] OtherParam mem_db = (None, dbw)"
    and q: "FetchPage (mem_env 8) 7 (bp dbw) = (Inr 0, q)"
    using write_cached [of 7 "[1]" "[2]" 1 OtherParam] by auto
  obtain e db1 where w1: "Write (mem_env 8) run0 7 1 [1] [2] OtherParam db0 = (e, db1)" by fastforce
  have "e = None \<and> bp db1 = bp dbw"
    using Write_bp [OF db0(2), of "mem_env 8" run0 7 1 "[1]" "[2]" OtherParam] w0 w1 by simp
  then have w: "Write (mem_env 8) run0 7 1 [1] [2] OtherParam db0 = (None, db1)" and q1: "FetchPage (mem_env 8) 7 (bp db1) = (Inr 0, q)"
    using w1 q by simp_all
  obtain res0 dba where r0: "Read (mem_env 8) run0 7 3 [1] db0 = (res0, dba)" by fastforce
  obtain res dbb where r1: "Read (mem_env 8) run0 7 3 [1] db1 = (res, dbb)" by fastforce
  have room: "fits [] (new_record run0 1 [1] [2] OtherParam)"
    by (simp add: length_record_bytes new_record_def layout_defs)
  have perm: "mset (cperm run0 (survivors (clock run0) [])) = mset (survivors (clock run0) [])" by (simp add: run0_def)
  have "res = res0"
    using write_isolated [OF mp.buffer_pool_axioms inv(1) _ inv(2) _ room perm w _ _ r0 p r1 q1] db0(3) by simp
  then show ?thesis using db0(1) w r0 r1 by auto
qed

text \<open>C35: a compressed value comes back: when the codec encodes the value to a non-empty string, which
  it decodes to the value, \<open>ReadCompressed\<close> directly after a successful \<open>WriteCompressed\<close> returns
  the value, as long as it has not expired, the page can be fetched and the reader may see it,
  that is, the writing transaction is not active or reads itself. An empty encoding would not
  come back: \<open>ReadCompressed\<close> refuses payloads of fewer than two bytes.\<close>

theorem compressed_roundtrip:
  assumes "buffer_pool E stored dsize einv tracked" and "db_inv stored einv tracked db" and "unat i < 2 ^ 48"
    and "page_records stored db i rs" and "24 + length key + Suc (length z) < 2 ^ 31"
    and "mset (cperm R (survivors (clock R) rs)) = mset (survivors (clock R) rs)"
    and codec: "Encode c val = Inr z" "z \<noteq> []" "Decode c z = Inr val"
    and w: "WriteCompressed E R c i t key val ttl db = (None, db1)"
    and "t \<notin> activeTxns db \<or> t' = t" and "clock R' < sint (expiry (clock R) (DurationParam ttl))"
    and "FetchPage E i (bp db1) = (Inr idx, p)"
  shows "fst (ReadCompressed E R' c i t' key db1) = Inr val"
proof -
  have w': "Write E R i t key (codecID c # z) (DurationParam ttl) db = (None, db1)"
    using w codec by (simp add: WriteCompressed_def)
  obtain res db2 where rd: "Read E R' i t' key db1 = (res, db2)" by fastforce
  let ?r = "new_record R t key (codecID c # z) (DurationParam ttl)"
  have small: "24 + length key + length (codecID c # z) < 2 ^ 31" using assms(5) by simp
  note W = buffer_pool.Write_contract [OF assms(1-4) small assms(6) w']
  obtain rs1 where rs1: "page_records stored db1 i (rs1 @ [?r])" using W by auto
  have db1: "db_inv stored einv tracked db1" "activeTxns db1 = activeTxns db" using W by (simp_all add: frame_but_def)
  have "read_spec (activeTxns db1) t' key (clock R') (rs1 @ [?r]) = Some (codecID c # z)"
    using assms(11,12) by (auto simp: read_spec_snoc db1 visible_def isRecordVisible_def new_record_def)
  then have "res = Inr (codecID c # z)"
    using buffer_pool.Read_contract [OF assms(1) db1(1) assms(3) rs1 rd] assms(13) by simp
  then show ?thesis using rd codec by (simp add: ReadCompressed_def open_envelope_def neq_Nil_conv)
qed

theorem compressed_roundtrip_witness:
  "\<exists>c db1. WriteCompressed (mem_env 8) run0 c 7 1 [1] [2] 1000 mem_db = (None, db1) \<and>
     fst (ReadCompressed (mem_env 8) run0 c 7 1 [1] db1) = Inr [2]"
proof -
  let ?c = "\<lparr>codecID = 9, Encode = (\<lambda>v. Inr (rev v)), Decode = (\<lambda>v. Inr (rev v))\<rparr>"
  obtain db1 p where w: "Write (mem_env 8) run0 7 1 [1] [9, 2] (DurationParam 1000) mem_db = (None, db1)"
    and f: "FetchPage (mem_env 8) 7 (bp db1) = (Inr 0, p)"
    using write_cached [of 7 "[1]" "[9, 2]" 1 "DurationParam 1000"] by auto
  have wc: "WriteCompressed (mem_env 8) run0 ?c 7 1 [1] [2] 1000 mem_db = (None, db1)" using w by (simp add: WriteCompressed_def)
  have perm: "mset (cperm run0 (survivors (clock run0) [])) = mset (survivors (clock run0) [])" by (simp add: run0_def)
  have "clock run0 < sint (expiry (clock run0) (DurationParam 1000))" by (simp add: run0_def expiry_def)
  with compressed_roundtrip [OF mp.buffer_pool_axioms mem_db_inv _ mem_db_blank _ perm _ _ _ wc _ _ f, of "[2]" 1 run0] wc
  show ?thesis by auto
qed

subsection \<open>The range cursor\<close>

lemma slot_loop_inv:
  "(\<And>i r s. P s \<Longrightarrow> P (body i r s)) \<Longrightarrow> P st \<Longrightarrow> slot_loop body n i d st = Inr st' \<Longrightarrow> P st'"
  by (induction body n i d st rule: slot_loop.induct) (auto split: sum.splits option.splits)

lemma scan_latest_prefix:
  assumes "scan_latest active t prefix now d = Inr l" "k \<in> fst ` set l"
  shows "has_prefix k prefix"
proof -
  let ?P = "\<lambda>l :: (bytes \<times> scan_record) list. \<forall>k\<in>fst ` set l. has_prefix k prefix"
  have upd: "?P (AList.update k x l)" if "?P l" "has_prefix k prefix" for k x l
    using that by (simp only: AList.dom_update) blast
  have del: "?P (AList.delete k l)" if "?P l" for k l using that by (auto simp: AList.delete_eq)
  have "?P (scan_body active t prefix now i r l)" if "?P l" for i r l
    using that upd del unfolding scan_body_def by presburger
  from slot_loop_inv [where P = ?P, OF this _ assms(1) [unfolded scan_latest_def]] assms(2) show ?thesis by auto
qed

lemma range_iter_loop:
  "iter_loop (range_iter rc) l (False, [], []) = (x, k, v) \<Longrightarrow> k \<noteq> [] \<Longrightarrow> k \<in> fst ` set l \<and> (rcCurrent rc \<noteq> [] \<longrightarrow> rcCurrent rc < k)"
proof (induction l)
  case (Cons a l)
  obtain ka r where a: "a = (ka, r)" by fastforce
  show ?case
  proof (cases "rcCurrent rc \<noteq> [] \<and> ka \<le> rcCurrent rc")
    case True
    with Cons a show ?thesis by (auto simp: range_iter_def)
  next
    case False
    with Cons.prems a show ?thesis by (auto simp: range_iter_def split: if_splits option.splits)
  qed
qed simp

text \<open>A step that finds a key found it in a scan for the cursor's start key as a prefix.\<close>

lemma Range_Next_step:
  assumes perm: "\<And>l. mset (sperm R l) = mset l" and run: "Range_Next E R rc db = (Inr (Some (k, v)), rc', db')"
  shows "has_prefix k (rcStart rc) \<and> k \<noteq> [] \<and> rcStart rc' = k \<and> rcCurrent rc' = k \<and> (rcCurrent rc \<noteq> [] \<longrightarrow> rcCurrent rc < k)"
proof -
  have ne: "\<not> rcExhausted rc" using run by (auto simp: Range_Next_def)
  obtain s db1 where s: "Scan E R (rcPage rc) (rcTxn rc) (rcStart rc) (range_iter rc) (False, [], []) db = (s, db1)" by fastforce
  obtain x where s': "s = Inr (x, k, v)" and k: "k \<noteq> []" and rc': "rcStart rc' = k" "rcCurrent rc' = k"
    using run ne s by (cases s) (auto simp: Range_Next_def Let_def split: prod.splits if_splits)
  obtain d where d: "page_Scan (sperm R) (activeTxns db) (rcTxn rc) (rcStart rc) (clock R) (range_iter rc) (False, [], []) d = Inr (x, k, v)"
    using s s' by (auto simp: Scan_def on_page_def Let_def split: prod.splits sum.splits)
  then obtain l where l: "scan_latest (activeTxns db) (rcTxn rc) (rcStart rc) (clock R) d = Inr l"
    "iter_loop (range_iter rc) (sperm R l) (False, [], []) = (x, k, v)"
    by (auto simp: page_Scan_def split: sum.splits)
  have "set (sperm R l) = set l" using perm by (metis set_mset_mset)
  with range_iter_loop [OF l(2) k] scan_latest_prefix [OF l(1)] k rc' show ?thesis by auto
qed

text \<open>What the range cursor really walks: after it has returned a key, every key it returns is
  a proper extension of that key, because the key becomes the prefix of the next scan. Keys of
  the range that do not extend it are never returned.\<close>

theorem Range_Next_extends:
  assumes "\<And>l. mset (sperm R l) = mset l" and "\<And>l. mset (sperm R' l) = mset l"
    and "Range_Next E R rc db = (Inr (Some (k, v)), rc1, db1)"
  shows "case Range_Next E R' rc1 db2 of (Inr (Some (k2, _)), _) \<Rightarrow> has_prefix k2 k \<and> k < k2 | _ \<Rightarrow> True"
proof -
  obtain o2 rc2 db3 where 2: "Range_Next E R' rc1 db2 = (o2, rc2, db3)" by (metis prod_cases3)
  note s1 = Range_Next_step [OF assms(1,3)]
  show ?thesis
  proof (cases "\<exists>k2 v2. o2 = Inr (Some (k2, v2))")
    case True
    then obtain k2 v2 where "o2 = Inr (Some (k2, v2))" by blast
    with Range_Next_step [OF assms(2) 2 [unfolded this]] s1 2 show ?thesis by simp
  next
    case False
    with 2 show ?thesis by (auto split: sum.splits option.splits)
  qed
qed

text \<open>A database with one cached page.\<close>

definition page_db :: "PageID \<Rightarrow> bytes \<Rightarrow> (bytes, lru) db" where
  "page_db i d = NewDB (dirty_pool i d) None"

lemma on_page_db:
  "on_page (mem_env 8) i False (\<lambda>d. (f d, d)) (page_db i d) =
     (Inr (f d), (page_db i d)\<lparr>bp := UnpinPage i False (snd (FetchPage (mem_env 8) i (dirty_pool i d)))\<rparr>)"
  by (simp add: on_page_def page_db_def NewDB_def dirty_pool_def FetchPage_def pin_frame_def upd_frame_def set_data_def)

theorem Range_Next_extends_witness:
  "\<exists>d rc1 db1. slotted_rep [mk_rec 1 9 [1] [2], mk_rec 1 9 [5] [3]] d \<and>
     Range_Next (mem_env 8) run0 (NewRangeCursor 7 3 [] None) (page_db 7 d) = (Inr (Some ([1], [2])), rc1, db1) \<and>
     (case Range_Next (mem_env 8) run0 rc1 db1 of (Inr (Some (k2, _)), _) \<Rightarrow> has_prefix k2 [1] \<and> [1] < k2 | _ \<Rightarrow> True)"
proof -
  let ?rs = "[mk_rec 1 9 [1] [2], mk_rec 1 9 [5] [3]]"
  obtain d where d: "slotted_rep ?rs d" using ex_slotted [of ?rs] by (auto simp: layout_defs)
  let ?rc = "NewRangeCursor 7 3 [] None"
  have "page_Scan (\<lambda>l. l) {} 3 [] 0 (range_iter ?rc) (False, [], []) d = Inr (False, [1], [2])"
    by (simp add: page_Scan_def scan_latest_def slot_loop_all [OF d] scan_body_def mk_rec_def visible_def isRecordVisible_def
        range_iter_def NewRangeCursor_def has_prefix_def)
  moreover have "activeTxns (page_db 7 d) = {}" by (simp add: page_db_def NewDB_def)
  ultimately obtain db1 where s: "Scan (mem_env 8) run0 7 3 [] (range_iter ?rc) (False, [], []) (page_db 7 d) = (Inr (False, [1], [2]), db1)"
    by (simp add: Scan_def on_page_db run0_def)
  obtain rc1 where n: "Range_Next (mem_env 8) run0 ?rc (page_db 7 d) = (Inr (Some ([1], [2])), rc1, db1)"
    using s by (simp add: Range_Next_def NewRangeCursor_def Let_def)
  have p: "mset (sperm run0 l) = mset l" for l by (simp add: run0_def)
  show ?thesis using d n Range_Next_extends [OF p p n, of db1] by (intro exI conjI)
qed

end
