(* ===== verification/Recovery.thy ===== *)
theory Recovery
  imports Wal DB
begin

text \<open>
  Crash recovery of \<open>recovery.go\<close>: the redo and undo passes over the log file and the
  database, the search for the highest transaction id on the pages, and
  \<open>PerformRecovery\<close>. The analysis pass is in the theory of the log.

  The log file is its bytes, or \<open>None\<close> when it does not exist. The undo loop has no bound of its
  own (a cycle of back pointers would keep it going), so it is followed for a number of
  rounds.
\<close>

section \<open>The passes\<close>

definition MaxInt64 :: int where
  "MaxInt64 = 9223372036854775807"

function redo_loop :: "('d, 'e) env \<Rightarrow> run_env \<Rightarrow> bytes \<Rightarrow> ('d, 'e) db \<Rightarrow> error option \<times> ('d, 'e) db" where
  "redo_loop E R bs db =
     (case read_frame bs of
        Inl e \<Rightarrow> (Some e, db)
      | Inr None \<Rightarrow> (None, db)
      | Inr (Some (h, payload, rest)) \<Rightarrow>
          if frame_type h = LogTypeUpdate \<or> frame_type h = LogTypeCLR
          then case redo_slices h payload of
                 Inl e \<Rightarrow> (Some e, db)
               | Inr (key, newValue) \<Rightarrow>
                   (case restoreWrite E R 0 MaxInt64 (frame_page h) key newValue db of
                      (Some e, db1) \<Rightarrow> (Some e, db1)
                    | (None, db1) \<Rightarrow> redo_loop E R rest db1)
          else redo_loop E R rest db)"
  by pat_completeness auto
termination redo_loop
  by (relation "measure (\<lambda>(E, R, bs, _). length bs)") (auto dest: read_frame_rest)

declare redo_loop.simps [simp del]

definition runRedoPass :: "('d, 'e) env \<Rightarrow> run_env \<Rightarrow> bytes \<Rightarrow> ('d, 'e) db \<Rightarrow> error option \<times> ('d, 'e) db" where
  "runRedoPass E R file db = redo_loop E R file db"

text \<open>The loser with the highest sequence number.\<close>

definition undo_pick :: "(TxnID \<times> LSN) list \<Rightarrow> LSN \<times> TxnID" where
  "undo_pick active = fold (\<lambda>(t, l) (maxLSN, target). if maxLSN \<le> l then (l, t) else (maxLSN, target)) active (0, 0)"

text \<open>One round: the record at that offset is undone; the result is its back pointer.\<close>

definition undo_record ::
  "('d, 'e) env \<Rightarrow> run_env \<Rightarrow> bytes \<Rightarrow> LSN \<Rightarrow> TxnID \<Rightarrow> ('d, 'e) db \<Rightarrow> LSN result \<times> ('d, 'e) db" where
  "undo_record E R file maxLSN target db =
     (if sint maxLSN < 0 then (Inl ErrDevice, db)
      else case read_frame (drop (unat maxLSN) file) of
        Inl e \<Rightarrow> (Inl e, db)
      | Inr None \<Rightarrow> (Inl ErrEOF, db)
      | Inr (Some (h, payload, _)) \<Rightarrow>
          if frame_type h = LogTypeUpdate
          then case undo_slices h payload of
                 Inl e \<Rightarrow> (Inl e, db)
               | Inr (key, oldValue) \<Rightarrow>
                   (case restoreWrite E R target MaxInt64 (frame_page h) key oldValue db of
                      (Some e, db1) \<Rightarrow> (Inl e, db1)
                    | (None, db1) \<Rightarrow> (Inr (frame_prev h), db1))
          else (Inr (frame_prev h), db))"

fun undo_loop ::
  "('d, 'e) env \<Rightarrow> run_env \<Rightarrow> ((TxnID \<times> LSN) list \<Rightarrow> (TxnID \<times> LSN) list) \<Rightarrow> nat \<Rightarrow> bytes \<Rightarrow> (TxnID \<times> LSN) list \<Rightarrow> ('d, 'e) db \<Rightarrow>
   error option \<times> (TxnID \<times> LSN) list \<times> ('d, 'e) db" where
  "undo_loop E R order 0 file active db = (Some OutOfFuel, active, db)"
| "undo_loop E R order (Suc n) file active db =
     (if active = [] then (None, active, db)
      else case undo_pick (order active) of
        (maxLSN, target) \<Rightarrow>
          if maxLSN = 0 then (None, active, db)
          else case undo_record E R file maxLSN target db of
                 (Inl e, db1) \<Rightarrow> (Some e, active, db1)
               | (Inr prevLSN, db1) \<Rightarrow>
                   undo_loop E R order n file
                     (if prevLSN = 0 then AList.delete target active else AList.update target prevLSN active) db1)"

section \<open>The highest transaction id on the pages\<close>

text \<open>The loop over the slots of one page; the bounds of the slice are \<open>uint16\<close>.\<close>

fun max_slot_loop :: "nat \<Rightarrow> nat \<Rightarrow> bytes \<Rightarrow> TxnID \<Rightarrow> TxnID result" where
  "max_slot_loop 0 i d m = Inr m"
| "max_slot_loop (Suc n) i d m =
     (case GetSlot i d of
        Inl GoPanic \<Rightarrow> Inl GoPanic
      | Inl _ \<Rightarrow> max_slot_loop n (Suc i) d m
      | Inr s \<Rightarrow>
          if slLength s < 8 then max_slot_loop n (Suc i) d m
          else let e = u16 (slOffset s + 8)
               in if e < slOffset s \<or> PageSize < e then Inl GoPanic
                  else max_slot_loop n (Suc i) d (max m (word_of_nat (rd_le 8 d (slOffset s)))))"

fun max_page_loop :: "('d, 'e) env \<Rightarrow> PageID list \<Rightarrow> ('d, 'e) db \<Rightarrow> TxnID \<Rightarrow> TxnID result \<times> ('d, 'e) db" where
  "max_page_loop E [] db m = (Inr m, db)"
| "max_page_loop E (i # is) db m =
     (case on_page E i False (\<lambda>d. (max_slot_loop (GetSlotCount d) 0 d m, d)) db of
        (Inl _, db1) \<Rightarrow> max_page_loop E is db1 m
      | (Inr (Inl e), db1) \<Rightarrow> (Inl e, db1)
      | (Inr (Inr m'), db1) \<Rightarrow> max_page_loop E is db1 m')"

definition maxTxnIDOnPages :: "('d, 'e) env \<Rightarrow> ('d, 'e) db \<Rightarrow> TxnID result \<times> ('d, 'e) db" where
  "maxTxnIDOnPages E db = max_page_loop E (map word_of_nat [1..<33]) db 0"

section \<open>Recovery\<close>

definition PerformRecovery ::
  "('d, 'e) env \<Rightarrow> run_env \<Rightarrow> ((TxnID \<times> LSN) list \<Rightarrow> (TxnID \<times> LSN) list) \<Rightarrow> nat \<Rightarrow> bytes option \<Rightarrow> ('d, 'e) db \<Rightarrow>
   error option \<times> ('d, 'e) db" where
  "PerformRecovery E R order fuel walFile db =
     (case walFile of
        None \<Rightarrow> (None, db)
      | Some file \<Rightarrow>
          (case runAnalysisPass file of
             Inl e \<Rightarrow> (Some e, db)
           | Inr active \<Rightarrow>
               (case runRedoPass E R file db of
                  (Some e, db1) \<Rightarrow> (Some e, db1)
                | (None, db1) \<Rightarrow>
                    (case undo_loop E R order fuel file active db1 of
                       (Some e, _, db2) \<Rightarrow> (Some e, db2)
                     | (None, active2, db2) \<Rightarrow>
                         let db3 = db2\<lparr>activeTxns := activeTxns db2 \<union> fst ` set active2\<rparr>;
                             maxTxnID = fold (\<lambda>(t, _) m. max m t) active2 0
                         in case maxTxnIDOnPages E db3 of
                              (Inl e, db4) \<Rightarrow> (Some e, db4)
                            | (Inr pageMax, db4) \<Rightarrow> (None, db4\<lparr>nextTxnID := max maxTxnID pageMax\<rparr>)))))"

section \<open>Restoring records\<close>

lemma page_restoreWrite_holds:
  assumes "holds rs d" "rsize r < 2 ^ 31" "mset (perm (survivors now rs)) = mset (survivors now rs)"
  defines "rs' \<equiv> after_compaction perm now rs r"
  shows "\<exists>d'. page_restoreWrite perm now r d = (if fits rs' r then None else Some ErrOverflow, d') \<and>
    slotted_rep (if fits rs' r then rs' @ [r] else rs') d'"
proof (cases "slotted_rep rs d")
  case True
  from page_Write_rep [where perm = perm and now = now, OF this assms(2,3)] show ?thesis unfolding rs'_def by blast
next
  case False
  then have rs: "rs = []" "blank d" using assms(1) by (simp_all add: holds_def)
  have z: "survivors now [] = []" by (simp add: survivors_def)
  then have p: "perm [] = []" using assms(3) rs(1) by simp
  have len: "length d = PageSize" using rs(2) by (simp add: blank_def)
  let ?d = "SetSlotCount 0 (Init d)"
  have i: "slotted_rep [] (Init d)" by (rule Init_rep(1) [OF len])
  then have i': "slotted_rep [] ?d" by (simp add: slotted_rep_def has_prefix_def)
  have sz: "record_size r = rsize r" using assms(2) by (intro record_size_eq) simp
  have "\<not> IsSafeForInsert (record_size r) d"
    using assms(2) blank_fields [OF rs(2)] by (simp add: IsSafeForInsert_def sz)
  moreover have c: "compactPage perm now d = Inr ?d" by (simp add: compactPage_def blank_fields [OF rs(2)] p)
  ultimately have eq: "page_restoreWrite perm now r d =
      (if \<not> IsSafeForInsert (record_size r) ?d then (Some ErrOverflow, ?d)
       else case append_record r ?d of Inl e \<Rightarrow> (Some e, ?d) | Inr d2 \<Rightarrow> (None, d2))"
    by (simp add: page_restoreWrite_def)
  have rs'e: "rs' = []" using p z by (simp add: rs'_def rs(1) after_compaction_def)
  show ?thesis
  proof (cases "fits [] r")
    case True
    from write_tail [OF i' assms(2) True] obtain d' where "append_record r ?d = Inr d'" "slotted_rep ([] @ [r]) d'" by blast
    with True eq safe_slotted [OF i' assms(2)] rs'e show ?thesis by simp
  next
    case False
    with eq safe_slotted [OF i' assms(2)] rs'e i' show ?thesis by simp
  qed
qed

definition restored :: "TxnID \<Rightarrow> bytes \<Rightarrow> bytes \<Rightarrow> srec" where
  "restored t key val = \<lparr>rTxn = t, rExp = word_of_int MaxInt64, rKey = key, rVal = val\<rparr>"

context buffer_pool
begin

lemma restoreWrite_contract:
  assumes db: "db_inv stored einv tracked db" and b: "unat i < 2 ^ 48" and rep: "page_records stored db i rs"
    and small: "24 + length key + length val < 2 ^ 31"
    and perm: "mset (cperm R (survivors (clock R) rs)) = mset (survivors (clock R) rs)"
    and run: "restoreWrite E R t MaxInt64 i key val db = (e, db')"
  defines "rs' \<equiv> after_compaction (cperm R) (clock R) rs (restored t key val)"
  shows "db_inv stored einv tracked db' \<and> frame_but stored {i} db db' \<and>
    (if e = None then page_records stored db' i (rs' @ [restored t key val])
     else page_records stored db' i rs \<or> page_records stored db' i rs')"
proof -
  let ?r = "restored t key val"
  have r: "rsize ?r < 2 ^ 31" using small by (simp add: restored_def length_record_bytes)
  have W: "\<exists>d'. page_restoreWrite (cperm R) (clock R) ?r d = (if fits rs' ?r then None else Some ErrOverflow, d') \<and>
    slotted_rep (if fits rs' ?r then rs' @ [?r] else rs') d'" if "holds rs d" for d
    unfolding rs'_def by (rule page_restoreWrite_holds [where perm = "cperm R" and now = "clock R", OF that r perm])
  have run': "(case on_page E i True (\<lambda>d. case page_restoreWrite (cperm R) (clock R) ?r d of (e, d') \<Rightarrow> ((e, compacts R ?r False d), d')) db of
      (Inl e, db1) \<Rightarrow> (Some e, db1) | (Inr (e, c), db1) \<Rightarrow> (e, compaction_metric R c db1)) = (e, db')"
    using run unfolding restoreWrite_def Let_def restored_def .
  from write_like [OF db b rep W run'] show ?thesis by (auto split: if_splits)
qed

end

section \<open>Redo\<close>

definition redoes :: "wal_entry \<Rightarrow> bool" where
  "redoes e \<longleftrightarrow> weType e = LogTypeUpdate \<or> weType e = LogTypeCLR"

definition redo_step :: "wal_entry \<Rightarrow> (PageID \<Rightarrow> srec list) \<Rightarrow> PageID \<Rightarrow> srec list" where
  "redo_step e pages = (if redoes e then pages(wePage e := pages (wePage e) @ [restored 0 (weKey e) (weNew e)]) else pages)"

text \<open>No page overflows on the way.\<close>

fun redo_fits :: "wal_entry list \<Rightarrow> (PageID \<Rightarrow> srec list) \<Rightarrow> bool" where
  "redo_fits [] pages \<longleftrightarrow> True"
| "redo_fits (e # es) pages \<longleftrightarrow>
     (redoes e \<longrightarrow> unat (wePage e) < 2 ^ 48 \<and> fits (pages (wePage e)) (restored 0 (weKey e) (weNew e))) \<and>
     redo_fits es (redo_step e pages)"

lemma redo_steps: "fold redo_step es pages i = pages i @ map (\<lambda>e. restored 0 (weKey e) (weNew e)) (filter (\<lambda>e. redoes e \<and> wePage e = i) es)"
  by (induction es arbitrary: pages) (auto simp: redo_step_def)

lemma redo_loop_entry:
  assumes "entry_fits e"
  shows "redo_loop E R (writeEntry e @ rest) db =
    (if redoes e then case restoreWrite E R 0 MaxInt64 (wePage e) (weKey e) (weNew e) db of
        (Some x, db1) \<Rightarrow> (Some x, db1) | (None, db1) \<Rightarrow> redo_loop E R rest db1
     else redo_loop E R rest db)"
  by (subst redo_loop.simps)
    (simp add: read_frame_writeEntry [OF assms] frame_slices_header [OF assms] redoes_def)

context buffer_pool
begin

definition has_records :: "('d, 'e) db \<Rightarrow> (PageID \<Rightarrow> srec list) \<Rightarrow> bool" where
  "has_records db pages \<longleftrightarrow> (\<forall>i. unat i < 2 ^ 48 \<longrightarrow> page_records stored db i (pages i))"

lemma redo_log:
  assumes perm: "\<And>l. mset (cperm R l) = mset l"
  shows "db_inv stored einv tracked db \<Longrightarrow> has_records db pages \<Longrightarrow> \<forall>e\<in>set es. entry_fits e \<Longrightarrow> redo_fits es pages \<Longrightarrow>
    redo_loop E R (log_bytes es) db = (None, db') \<Longrightarrow>
    db_inv stored einv tracked db' \<and> has_records db' (fold redo_step es pages) \<and> activeTxns db' = activeTxns db"
proof (induction es arbitrary: db pages)
  case Nil
  then show ?case by (subst (asm) redo_loop.simps) (simp add: read_frame_def)
next
  case (Cons e es)
  have run: "redo_loop E R (writeEntry e @ log_bytes es) db = (None, db')" using Cons.prems(5) by simp
  have ef: "entry_fits e" using Cons.prems(3) by simp
  show ?case
  proof (cases "redoes e")
    case False
    then have "redo_loop E R (log_bytes es) db = (None, db')" using run by (simp add: redo_loop_entry [OF ef])
    from Cons.IH [OF Cons.prems(1,2) _ _ this] Cons.prems(3,4) False show ?thesis by (simp add: redo_step_def)
  next
    case True
    let ?i = "wePage e" let ?r = "restored 0 (weKey e) (weNew e)"
    obtain x db1 where w: "restoreWrite E R 0 MaxInt64 ?i (weKey e) (weNew e) db = (x, db1)" by fastforce
    have x: "x = None" and rest: "redo_loop E R (log_bytes es) db1 = (None, db')"
      using run True w by (auto simp: redo_loop_entry [OF ef] split: option.splits)
    have b: "unat ?i < 2 ^ 48" and fit: "fits (pages ?i) ?r" using Cons.prems(4) True by simp_all
    have rep: "page_records stored db ?i (pages ?i)" using Cons.prems(2) b by (simp add: has_records_def)
    have small: "24 + length (weKey e) + length (weNew e) < 2 ^ 31"
      using fit by (simp add: restored_def length_record_bytes layout_defs)
    have C: "db_inv stored einv tracked db1" "frame_but stored {?i} db db1" "page_records stored db1 ?i (pages ?i @ [?r])"
      using restoreWrite_contract [OF Cons.prems(1) b rep small perm w] x fit by (simp_all add: after_compaction_def)
    have "has_records db1 (redo_step e pages)"
      unfolding has_records_def
    proof (intro allI impI)
      fix j assume j: "unat (j :: PageID) < 2 ^ 48"
      show "page_records stored db1 j (redo_step e pages j)"
      proof (cases "j = ?i")
        case True
        with C(3) \<open>redoes e\<close> show ?thesis by (simp add: redo_step_def)
      next
        case False
        have "page_records stored db1 j (pages j)"
          using page_records_frame [OF C(2) _ j, of einv tracked "{}" "pages j"] C(1) False Cons.prems(2) j
          by (simp add: has_records_def db_inv_def)
        with False show ?thesis by (simp add: redo_step_def)
      qed
    qed
    from Cons.IH [OF C(1) this _ _ rest] Cons.prems(3,4) C(2) show ?thesis by (simp add: frame_but_def)
  qed
qed

end

section \<open>Properties of recovery\<close>

text \<open>C19: redo repeats history: when the redo pass succeeds over a log as the log writer wrote it and
  the records of the log fit behind those of the pages, so that no page is compacted, a read of a key whose last update in the log is some record
  returns that record's new value, to every reader, whether or not the updating transaction
  committed; the pool stays coherent.\<close>

theorem redo_repeats_history:
  assumes pool: "buffer_pool E stored dsize einv tracked" and db: "db_inv stored einv tracked db"
    and pages: "\<forall>i. unat i < 2 ^ 48 \<longrightarrow> page_records stored db i (pages i)"
    and fit: "\<forall>e\<in>set es. entry_fits e" "redo_fits es pages" and perm: "\<And>l. mset (cperm R l) = mset l"
    and run: "runRedoPass E R (log_bytes es) db = (None, db1)"
    and es: "es = xs @ e # ys" "redoes e" "\<forall>f\<in>set ys. redoes f \<longrightarrow> wePage f = wePage e \<longrightarrow> weKey f \<noteq> weKey e"
    and page: "unat (wePage e) < 2 ^ 48" and zero: "0 \<notin> activeTxns db" and clock: "clock R' < MaxInt64"
    and fetch: "FetchPage E (wePage e) (bp db1) = (Inr idx, p)"
    and rd: "Read E R' (wePage e) t (weKey e) db1 = (res, db2)"
  shows "res = Inr (weNew e) \<and> db_inv stored einv tracked db2"
proof -
  let ?i = "wePage e" and ?P = "\<lambda>f. redoes f \<and> wePage f = wePage e" and ?g = "\<lambda>f. restored 0 (weKey f) (weNew f)"
  have hr: "buffer_pool.has_records stored db pages" using pages by (simp add: buffer_pool.has_records_def [OF pool])
  have run': "redo_loop E R (log_bytes es) db = (None, db1)" using run by (simp add: runRedoPass_def)
  have L: "db_inv stored einv tracked db1" "buffer_pool.has_records stored db1 (fold redo_step es pages)" "activeTxns db1 = activeTxns db"
    using buffer_pool.redo_log [where R = R, OF pool perm db hr fit run'] by simp_all
  have rep: "page_records stored db1 ?i (pages ?i @ map ?g (filter ?P es))"
    using L(2) page by (simp add: buffer_pool.has_records_def [OF pool] redo_steps)
  have last: "read_spec (activeTxns db1) t (weKey e) (clock R') (pages ?i @ map ?g (filter ?P es)) = Some (weNew e)"
  proof -
    let ?V = "\<lambda>r. rKey r = weKey e \<and> visible (activeTxns db1) t r"
    have v: "?V (?g e)" using zero L(3) by (simp add: restored_def visible_def isRecordVisible_def)
    have "filter ?V (map ?g (filter ?P ys)) = []" using es(3) by (auto simp: filter_empty_conv restored_def)
    then have "filter ?V (pages ?i @ map ?g (filter ?P es)) = filter ?V (pages ?i @ map ?g (filter ?P xs)) @ [?g e]"
      using es(1,2) v by simp
    then show ?thesis using clock by (simp add: read_spec_def Let_def) (simp add: restored_def MaxInt64_def)
  qed
  from buffer_pool.Read_contract [OF pool L(1) page rep rd] fetch last show ?thesis by simp
qed

text \<open>One uncommitted update in the log.\<close>

definition loser_log :: "wal_entry list" where
  "loser_log = [example_entry 1 LogTypeUpdate 0]"

lemma loser_log_redo:
  "\<exists>db1 p. runRedoPass (mem_env 8) run0 (log_bytes loser_log) mem_db = (None, db1) \<and>
     FetchPage (mem_env 8) 5 (bp db1) = (Inr 0, p)"
proof -
  let ?e = "example_entry 1 LogTypeUpdate 0"
  have fit: "entry_fits ?e" by (simp add: entry_fits_def example_entry_def)
  obtain p where p: "FetchPage (mem_env 8) 5 (bp mem_db) = (Inr 0, p)" "pgData (frames p ! 0) = zero_page"
    using mem_db_fetch [of 5] by auto
  let ?r = "restored 0 [1] [2]"
  have h: "holds [] zero_page" by (simp add: holds_def blank_def)
  have s: "survivors 0 [] = []" by (simp add: survivors_def)
  have "rsize ?r < 2 ^ 31" "fits [] ?r" by (simp_all add: restored_def length_record_bytes layout_defs)
  with page_restoreWrite_holds [where perm = "\<lambda>l. l" and now = 0 and r = ?r, OF h] obtain d where
    d: "page_restoreWrite (\<lambda>l. l) 0 ?r zero_page = (None, d)" by (auto simp: after_compaction_def s)
  obtain db1 where w: "restoreWrite (mem_env 8) run0 0 MaxInt64 5 [1] [2] mem_db = (None, db1)"
    and t: "pageTable (bp db1) = pageTable p"
    using d by (simp add: restoreWrite_def on_page_def p run0_def Let_def restored_def UnpinPage_def set_data_def split: option.splits)
  have "map_of (pageTable p) 5 = Some 0"
    using mp.FetchPage_inv [OF _ _ _ p(1), of "{}"] mem_db_inv by (simp add: db_inv_def)
  then have "\<exists>q. FetchPage (mem_env 8) 5 (bp db1) = (Inr 0, q)" using t by (simp add: FetchPage_def)
  moreover have "runRedoPass (mem_env 8) run0 (log_bytes loser_log) mem_db = (None, db1)"
    using redo_loop_entry [OF fit, of "mem_env 8" run0 "[]" mem_db] w redo_loop.simps [of "mem_env 8" run0 "[]" db1]
    by (simp add: runRedoPass_def loser_log_def redoes_def read_frame_def) (simp add: example_entry_def)
  ultimately show ?thesis by blast
qed

theorem redo_repeats_history_witness:
  "\<exists>db1 db2. runRedoPass (mem_env 8) run0 (log_bytes loser_log) mem_db = (None, db1) \<and>
     Read (mem_env 8) run0 5 9 [1] db1 = (Inr [2], db2)"
proof -
  let ?e = "example_entry 1 LogTypeUpdate 0"
  obtain db1 p where r: "runRedoPass (mem_env 8) run0 (log_bytes loser_log) mem_db = (None, db1)"
    and f: "FetchPage (mem_env 8) 5 (bp db1) = (Inr 0, p)"
    using loser_log_redo by blast
  obtain res db2 where rd: "Read (mem_env 8) run0 5 9 [1] db1 = (res, db2)" by fastforce
  have e: "wePage ?e = 5" "weKey ?e = [1]" "weNew ?e = [2]" "entry_fits ?e" "redoes ?e"
    by (simp_all add: example_entry_def entry_fits_def redoes_def)
  have fits: "redo_fits loser_log (\<lambda>_. [])" "\<forall>e\<in>set loser_log. entry_fits e"
    using e by (simp_all add: loser_log_def restored_def length_record_bytes layout_defs)
  have "clock run0 < MaxInt64" "0 \<notin> activeTxns mem_db" "mset (cperm run0 l) = mset l" for l
    by (simp_all add: run0_def MaxInt64_def mem_db_def NewDB_def)
  with redo_repeats_history [OF mp.buffer_pool_axioms mem_db_inv _ fits(2,1) _ r, of "[]" ?e "[]" run0 0 p 9 res db2] r rd f e mem_db_blank
  show ?thesis by (simp add: loser_log_def)
qed

text \<open>The undo pass passes over the first record of the log: a transaction whose last record
  is at offset 0 is not undone, because 0 also means the end of a chain; when all open
  transactions are of this kind, the pass ends at once.\<close>

theorem undo_skips_first:
  assumes "0 < fuel" and "mset (order active) = mset active" and "\<forall>(t, l)\<in>set active. l = 0"
  shows "undo_loop E R order fuel file active db = (None, active, db)"
proof -
  have "set (order active) = set active" using assms(2) by (metis set_mset_mset)
  then have "\<forall>(t, l)\<in>set (order active). l = 0" using assms(3) by simp
  moreover have "fst (fold (\<lambda>(t, l) (maxLSN, target). if maxLSN \<le> l then (l, t) else (maxLSN, target)) as (0, x)) = 0"
    if "\<forall>(t, l)\<in>set as. l = 0" for as and x :: TxnID
    using that by (induction as arbitrary: x) auto
  ultimately have "fst (undo_pick (order active)) = 0" by (simp add: undo_pick_def)
  then show ?thesis using assms(1) by (cases fuel) (auto split: prod.splits)
qed

theorem undo_skips_first_witness:
  "runAnalysisPass (log_bytes loser_log) = Inr [(1, 0)] \<and>
   undo_loop (mem_env 8) run0 (\<lambda>l. l) 1 (log_bytes loser_log) [(1, 0)] mem_db = (None, [(1, 0)], mem_db)"
proof
  have "entry_fits (example_entry 1 LogTypeUpdate 0)" by (simp add: entry_fits_def example_entry_def)
  then have "analysis_loop (log_bytes loser_log @ []) [] = analysis_loop [] [(1, 0)]"
    by (subst analysis_loop_log) (simp_all add: loser_log_def analysis_step_def example_entry_def)
  then show "runAnalysisPass (log_bytes loser_log) = Inr [(1, 0)]"
    by (simp add: runAnalysisPass_def analysis_loop.simps [of "[]"] read_frame_def)
  show "undo_loop (mem_env 8) run0 (\<lambda>l. l) 1 (log_bytes loser_log) [(1, 0)] mem_db = (None, [(1, 0)], mem_db)"
    by (rule undo_skips_first) simp_all
qed

end
