(* ===== verification/LockManager.thy ===== *)
theory LockManager
  imports Prelude
begin

text \<open>
  The two-phase lock manager of \<open>lock_manager.go\<close> as a state machine. Every method runs under
  the mutex of the manager, so a step of the machine is one critical section: a call of
  \<open>Acquire\<close> up to its return or its wait on a channel, the continuation of a goroutine
  whose channel was signalled, \<open>Release\<close>, or \<open>ReleaseAll\<close>.

  A goroutine blocked in \<open>Acquire\<close> is its request; its channel is its place in the list of
  waiters, and after the signal it is in the list \<open>woken\<close> until it runs. Go maps from
  transactions or keys to \<open>bool\<close> that only ever hold \<open>true\<close> are sets; the order in which
  \<open>ReleaseAll\<close> visits the keys is an argument.
\<close>

section \<open>State\<close>

datatype lock_mode = LockShared | LockExclusive

record request =
  rqTxn :: TxnID
  rqKey :: string
  rqMode :: lock_mode

record lock_key =
  lkMode :: lock_mode
  holders :: "TxnID set"
  waiters :: "request list"

record lock_mgr =
  locks :: "string \<rightharpoonup> lock_key"
  txns :: "TxnID \<rightharpoonup> string set"
  woken :: "request list"

definition New2PLLockManager :: lock_mgr where
  "New2PLLockManager = \<lparr>locks = Map.empty, txns = Map.empty, woken = []\<rparr>"

datatype outcome = Granted | Blocked

section \<open>Operations\<close>

definition addTxnLock :: "TxnID \<Rightarrow> string \<Rightarrow> lock_mgr \<Rightarrow> lock_mgr" where
  "addTxnLock t k m =
     m\<lparr>txns := (txns m)(t \<mapsto> insert k (case txns m t of None \<Rightarrow> {} | Some ks \<Rightarrow> ks))\<rparr>"

definition new_lock :: "TxnID \<Rightarrow> string \<Rightarrow> lock_mode \<Rightarrow> lock_mgr \<Rightarrow> lock_mgr" where
  "new_lock t k md m =
     addTxnLock t k (m\<lparr>locks := (locks m)(k \<mapsto> \<lparr>lkMode = md, holders = {t}, waiters = []\<rparr>)\<rparr>)"

text \<open>One round of the loop of \<open>Acquire\<close>.\<close>

definition acquire_round :: "TxnID \<Rightarrow> string \<Rightarrow> lock_mode \<Rightarrow> lock_key \<Rightarrow> lock_mgr \<Rightarrow> outcome \<times> lock_mgr" where
  "acquire_round t k md lk m =
     (if lkMode lk = LockExclusive \<or> md = LockExclusive
      then (Blocked, m\<lparr>locks := (locks m)(k \<mapsto> lk\<lparr>waiters := waiters lk @ [\<lparr>rqTxn = t, rqKey = k, rqMode = md\<rparr>]\<rparr>)\<rparr>)
      else (Granted, addTxnLock t k (m\<lparr>locks := (locks m)(k \<mapsto> lk\<lparr>holders := insert t (holders lk)\<rparr>)\<rparr>)))"

definition Acquire :: "TxnID \<Rightarrow> string \<Rightarrow> lock_mode \<Rightarrow> lock_mgr \<Rightarrow> outcome \<times> lock_mgr" where
  "Acquire t k md m =
     (case locks m k of
        None \<Rightarrow> (Granted, new_lock t k md m)
      | Some lk \<Rightarrow>
          if t \<in> holders lk \<and> (lkMode lk = LockExclusive \<or> md = LockShared) then (Granted, m)
          else if t \<in> holders lk \<and> card (holders lk) = 1
          then (Granted, m\<lparr>locks := (locks m)(k \<mapsto> lk\<lparr>lkMode := LockExclusive\<rparr>)\<rparr>)
          else acquire_round t k md lk m)"

text \<open>The goroutine after its channel was signalled.\<close>

definition resume :: "request \<Rightarrow> lock_mgr \<Rightarrow> outcome \<times> lock_mgr" where
  "resume r m =
     (case locks m (rqKey r) of
        None \<Rightarrow> (Granted, new_lock (rqTxn r) (rqKey r) (rqMode r) m)
      | Some lk \<Rightarrow> acquire_round (rqTxn r) (rqKey r) (rqMode r) lk m)"

definition drop_holder :: "TxnID \<Rightarrow> string \<Rightarrow> lock_mgr \<Rightarrow> lock_mgr" where
  "drop_holder t k m =
     (case locks m k of
        None \<Rightarrow> m
      | Some lk \<Rightarrow>
          if holders lk - {t} = {} then m\<lparr>locks := (locks m)(k := None), woken := woken m @ waiters lk\<rparr>
          else m\<lparr>locks := (locks m)(k \<mapsto> lk\<lparr>holders := holders lk - {t}\<rparr>)\<rparr>)"

definition Release :: "TxnID \<Rightarrow> string \<Rightarrow> lock_mgr \<Rightarrow> lock_mgr" where
  "Release t k m =
     (case locks m k of
        None \<Rightarrow> m
      | Some _ \<Rightarrow>
          drop_holder t k (m\<lparr>txns := (case txns m t of None \<Rightarrow> txns m | Some ks \<Rightarrow> (txns m)(t \<mapsto> ks - {k}))\<rparr>))"

definition ReleaseAll :: "string list \<Rightarrow> TxnID \<Rightarrow> lock_mgr \<Rightarrow> lock_mgr" where
  "ReleaseAll order t m =
     (case txns m t of
        None \<Rightarrow> m
      | Some ks \<Rightarrow> (fold (drop_holder t) order m)\<lparr>txns := (txns m)(t := None)\<rparr>)"

section \<open>The machine\<close>

datatype action = ActAcquire TxnID string lock_mode | ActResume request | ActRelease TxnID string | ActReleaseAll TxnID

inductive lstep :: "lock_mgr \<Rightarrow> action \<Rightarrow> lock_mgr \<Rightarrow> bool" where
  acquire: "Acquire t k md m = (oc, m') \<Longrightarrow> lstep m (ActAcquire t k md) m'"
| resume: "r \<in> set (woken m) \<Longrightarrow> resume r (m\<lparr>woken := remove1 r (woken m)\<rparr>) = (oc, m') \<Longrightarrow> lstep m (ActResume r) m'"
| release: "lstep m (ActRelease t k) (Release t k m)"
| release_all: "(\<forall>ks. txns m t = Some ks \<longrightarrow> set order = ks \<and> distinct order) \<Longrightarrow> lstep m (ActReleaseAll t) (ReleaseAll order t m)"

inductive_cases lstepE: "lstep m a m'"

inductive reachable :: "lock_mgr \<Rightarrow> bool" where
  init: "reachable New2PLLockManager"
| step: "reachable m \<Longrightarrow> lstep m a m' \<Longrightarrow> reachable m'"

text \<open>
  The invariant: a lock exists only while somebody holds it, an exclusive lock has exactly one
  holder, the per-transaction index is exact, and requests wait at their own key.
\<close>

definition holds_lock :: "lock_mgr \<Rightarrow> TxnID \<Rightarrow> string \<Rightarrow> bool" where
  "holds_lock m t k \<longleftrightarrow> (case locks m k of None \<Rightarrow> False | Some lk \<Rightarrow> t \<in> holders lk)"

definition indexed :: "lock_mgr \<Rightarrow> TxnID \<Rightarrow> string \<Rightarrow> bool" where
  "indexed m t k \<longleftrightarrow> (case txns m t of None \<Rightarrow> False | Some ks \<Rightarrow> k \<in> ks)"

definition lock_ok :: "string \<Rightarrow> lock_key \<Rightarrow> bool" where
  "lock_ok k lk \<longleftrightarrow> holders lk \<noteq> {} \<and> (lkMode lk = LockExclusive \<longrightarrow> (\<exists>t. holders lk = {t})) \<and>
     (\<forall>r\<in>set (waiters lk). rqKey r = k)"

definition locks_ok :: "lock_mgr \<Rightarrow> bool" where
  "locks_ok m \<longleftrightarrow> (\<forall>k lk. locks m k = Some lk \<longrightarrow> lock_ok k lk)"

definition lm_inv :: "lock_mgr \<Rightarrow> bool" where
  "lm_inv m \<longleftrightarrow> locks_ok m \<and> (\<forall>t k. holds_lock m t k \<longleftrightarrow> indexed m t k)"

lemma locks_ok_upd: "locks_ok m \<Longrightarrow> lock_ok k lk \<Longrightarrow> locks_ok (m\<lparr>locks := (locks m)(k \<mapsto> lk)\<rparr>)"
  by (simp add: locks_ok_def)

lemma locks_ok_simps [simp]:
  "locks_ok (addTxnLock t k m) = locks_ok m" "locks_ok (m\<lparr>txns := x\<rparr>) = locks_ok m" "locks_ok (m\<lparr>woken := w\<rparr>) = locks_ok m"
  by (simp_all add: locks_ok_def addTxnLock_def)

lemma addTxnLock_simps [simp]:
  "locks (addTxnLock t k m) = locks m" "woken (addTxnLock t k m) = woken m"
  "holds_lock (addTxnLock t k m) = holds_lock m"
  by (simp_all add: addTxnLock_def holds_lock_def fun_eq_iff)

lemma indexed_add [simp]: "indexed (addTxnLock t k m) t' k' \<longleftrightarrow> (t' = t \<and> k' = k) \<or> indexed m t' k'"
  by (auto simp: indexed_def addTxnLock_def split: option.splits)

lemma indexed_locks [simp]:
  "indexed (m\<lparr>locks := l\<rparr>) = indexed m" "indexed (m\<lparr>woken := w\<rparr>) = indexed m" "indexed (m\<lparr>locks := l, woken := w\<rparr>) = indexed m"
  by (simp_all add: indexed_def fun_eq_iff)

lemma holds_lock_upd [simp]:
  "holds_lock (m\<lparr>locks := (locks m)(k \<mapsto> lk)\<rparr>) t' k' \<longleftrightarrow> (if k' = k then t' \<in> holders lk else holds_lock m t' k')"
  "holds_lock (m\<lparr>locks := (locks m)(k := None), woken := w\<rparr>) t' k' \<longleftrightarrow> k' \<noteq> k \<and> holds_lock m t' k'"
  "holds_lock (m\<lparr>txns := x\<rparr>) = holds_lock m" "holds_lock (m\<lparr>woken := w\<rparr>) = holds_lock m"
  by (simp_all add: holds_lock_def fun_eq_iff)

lemma inv_new_lock:
  assumes "lm_inv m" "locks m k = None"
  shows "lm_inv (new_lock t k md m)"
proof -
  have "lock_ok k \<lparr>lkMode = md, holders = {t}, waiters = []\<rparr>" by (simp add: lock_ok_def)
  moreover have "\<not> holds_lock m t' k" for t' using assms(2) by (simp add: holds_lock_def)
  ultimately show ?thesis using assms(1) by (auto simp: lm_inv_def new_lock_def locks_ok_upd)
qed

lemma inv_acquire_round:
  assumes i: "lm_inv m" and m: "locks m k = Some lk" and run: "acquire_round t k md lk m = (oc, m')"
  shows "lm_inv m'"
proof (cases "lkMode lk = LockExclusive \<or> md = LockExclusive")
  case True
  let ?lk = "lk\<lparr>waiters := waiters lk @ [\<lparr>rqTxn = t, rqKey = k, rqMode = md\<rparr>]\<rparr>"
  have "lock_ok k ?lk" using i m by (auto simp: lm_inv_def locks_ok_def lock_ok_def)
  moreover have "m' = m\<lparr>locks := (locks m)(k \<mapsto> ?lk)\<rparr>" using run True by (auto simp: acquire_round_def)
  moreover have "holds_lock m t' k \<longleftrightarrow> t' \<in> holders lk" for t' using m by (simp add: holds_lock_def)
  ultimately show ?thesis using i by (auto simp: lm_inv_def locks_ok_upd)
next
  case False
  let ?lk = "lk\<lparr>holders := insert t (holders lk)\<rparr>"
  have "lock_ok k ?lk" using i m False by (auto simp: lm_inv_def locks_ok_def lock_ok_def)
  moreover have "m' = addTxnLock t k (m\<lparr>locks := (locks m)(k \<mapsto> ?lk)\<rparr>)" using run False by (auto simp: acquire_round_def)
  moreover have "holds_lock m t' k \<longleftrightarrow> t' \<in> holders lk" for t' using m by (simp add: holds_lock_def)
  ultimately show ?thesis using i by (auto simp: lm_inv_def locks_ok_upd)
qed

lemma inv_Acquire:
  assumes i: "lm_inv m" and run: "Acquire t k md m = (oc, m')"
  shows "lm_inv m'"
proof (cases "locks m k")
  case None
  with run inv_new_lock [OF i None] show ?thesis by (auto simp: Acquire_def)
next
  case (Some lk)
  have ok: "lock_ok k lk" using i Some by (simp add: lm_inv_def locks_ok_def)
  show ?thesis
  proof (cases "t \<in> holders lk \<and> (lkMode lk = LockExclusive \<or> md = LockShared)")
    case True
    with run Some i show ?thesis by (simp add: Acquire_def)
  next
    case no: False
    show ?thesis
    proof (cases "t \<in> holders lk \<and> card (holders lk) = 1")
      case True
      have "lock_ok k (lk\<lparr>lkMode := LockExclusive\<rparr>)" using ok True by (auto simp: lock_ok_def card_1_singleton_iff)
      moreover have "m' = m\<lparr>locks := (locks m)(k \<mapsto> lk\<lparr>lkMode := LockExclusive\<rparr>)\<rparr>"
        using run Some no True by (auto simp: Acquire_def)
      moreover have "holds_lock m t' k \<longleftrightarrow> t' \<in> holders lk" for t' using Some by (simp add: holds_lock_def)
      ultimately show ?thesis using i by (auto simp: lm_inv_def locks_ok_upd)
    next
      case False
      have "acquire_round t k md lk m = (oc, m')" using run Some no False by (auto simp: Acquire_def split: if_splits)
      then show ?thesis by (rule inv_acquire_round [OF i Some])
    qed
  qed
qed

text \<open>Dropping a holder, as a function of the lock alone.\<close>

definition dropped :: "TxnID \<Rightarrow> lock_key option \<Rightarrow> lock_key option" where
  "dropped t x = (case x of None \<Rightarrow> None
     | Some lk \<Rightarrow> if holders lk - {t} = {} then None else Some (lk\<lparr>holders := holders lk - {t}\<rparr>))"

lemma dropped_idem [simp]: "dropped t (dropped t x) = dropped t x"
  by (auto simp: dropped_def split: option.split)

lemma drop_holder_simps [simp]:
  "locks (drop_holder t k m) = (locks m)(k := dropped t (locks m k))" "txns (drop_holder t k m) = txns m"
  by (auto simp: drop_holder_def dropped_def fun_eq_iff split: option.split)

lemma fold_drop:
  "locks (fold (drop_holder t) order m) = (\<lambda>k. if k \<in> set order then dropped t (locks m k) else locks m k)"
  "txns (fold (drop_holder t) order m) = txns m"
  by (induction order arbitrary: m) (auto simp: fun_eq_iff)

lemma dropped_ok:
  assumes "\<And>lk. x = Some lk \<Longrightarrow> lock_ok k lk" "dropped t x = Some lk'"
  shows "lock_ok k lk'"
proof -
  obtain lk where lk: "x = Some lk" "holders lk - {t} \<noteq> {}" "lk' = lk\<lparr>holders := holders lk - {t}\<rparr>"
    using assms(2) by (auto simp: dropped_def split: option.splits if_splits)
  with assms(1) [OF lk(1)] show ?thesis by (auto simp: lock_ok_def)
qed

lemma release_inv:
  assumes i: "lm_inv m" and l: "locks m' = (\<lambda>k. if k \<in> S then dropped t (locks m k) else locks m k)"
    and x: "\<And>t' k. indexed m' t' k \<longleftrightarrow> indexed m t' k \<and> \<not> (t' = t \<and> k \<in> S)"
  shows "lm_inv m'" and "holds_lock m' t' k \<longleftrightarrow> holds_lock m t' k \<and> \<not> (t' = t \<and> k \<in> S)"
proof -
  have h: "holds_lock m' t' k \<longleftrightarrow> holds_lock m t' k \<and> \<not> (t' = t \<and> k \<in> S)" for t' k
  proof (cases "locks m k")
    case (Some lk)
    then show ?thesis by (cases "k \<in> S") (auto simp: holds_lock_def l dropped_def)
  qed (simp add: holds_lock_def l dropped_def)
  then show "holds_lock m' t' k \<longleftrightarrow> holds_lock m t' k \<and> \<not> (t' = t \<and> k \<in> S)" .
  have "lock_ok k lk" if "locks m' k = Some lk" for k lk
  proof (cases "k \<in> S")
    case True
    then show ?thesis using dropped_ok [of "locks m k" k t lk] that i by (simp add: l lm_inv_def locks_ok_def)
  next
    case False
    then show ?thesis using that i by (simp add: l lm_inv_def locks_ok_def)
  qed
  then show "lm_inv m'" using i h x by (simp add: lm_inv_def locks_ok_def)
qed

lemma Release_inv:
  assumes i: "lm_inv m"
  shows "lm_inv (Release t k m)" "holds_lock (Release t k m) t' k' \<longleftrightarrow> holds_lock m t' k' \<and> \<not> (t' = t \<and> k' = k)"
proof -
  have "(lm_inv (Release t k m)) \<and> (\<forall>t' k'. holds_lock (Release t k m) t' k' \<longleftrightarrow> holds_lock m t' k' \<and> \<not> (t' = t \<and> k' = k))"
  proof (cases "locks m k")
    case None
    then have "Release t k m = m" "\<not> holds_lock m t k" by (simp_all add: Release_def holds_lock_def)
    then show ?thesis using i by auto
  next
    case (Some lk)
    let ?m = "Release t k m"
    have l: "locks ?m = (\<lambda>k'. if k' \<in> {k} then dropped t (locks m k') else locks m k')"
      using Some by (auto simp: Release_def fun_eq_iff)
    have x: "indexed ?m t' k' \<longleftrightarrow> indexed m t' k' \<and> \<not> (t' = t \<and> k' \<in> {k})" for t' k'
      using Some by (auto simp: Release_def indexed_def split: option.splits)
    show ?thesis using release_inv [OF i l x] by simp
  qed
  then show "lm_inv (Release t k m)" "holds_lock (Release t k m) t' k' \<longleftrightarrow> holds_lock m t' k' \<and> \<not> (t' = t \<and> k' = k)" by simp_all
qed

lemma ReleaseAll_inv:
  assumes i: "lm_inv m" and o: "\<forall>ks. txns m t = Some ks \<longrightarrow> set order = ks"
  shows "lm_inv (ReleaseAll order t m)" "holds_lock (ReleaseAll order t m) t' k \<longleftrightarrow> holds_lock m t' k \<and> t' \<noteq> t"
proof -
  have "lm_inv (ReleaseAll order t m) \<and> (\<forall>t' k. holds_lock (ReleaseAll order t m) t' k \<longleftrightarrow> holds_lock m t' k \<and> t' \<noteq> t)"
  proof (cases "txns m t")
    case None
    then have "\<not> holds_lock m t k" for k using i by (simp add: lm_inv_def indexed_def)
    then show ?thesis using None i by (auto simp: ReleaseAll_def)
  next
    case (Some ks)
    let ?m = "ReleaseAll order t m"
    have own: "holds_lock m t k \<longleftrightarrow> k \<in> ks" for k using i Some by (simp add: lm_inv_def indexed_def)
    have l: "locks ?m = (\<lambda>k. if k \<in> ks then dropped t (locks m k) else locks m k)"
      using Some o by (simp add: ReleaseAll_def fold_drop)
    have x: "indexed ?m t' k \<longleftrightarrow> indexed m t' k \<and> \<not> (t' = t \<and> k \<in> ks)" for t' k
      using Some by (auto simp: ReleaseAll_def indexed_def fold_drop)
    show ?thesis using release_inv [OF i l x] own by auto
  qed
  then show "lm_inv (ReleaseAll order t m)" "holds_lock (ReleaseAll order t m) t' k \<longleftrightarrow> holds_lock m t' k \<and> t' \<noteq> t" by blast+
qed

lemma lm_inv_woken [simp]: "lm_inv (m\<lparr>woken := w\<rparr>) = lm_inv m"
  by (simp add: lm_inv_def)

lemma lstep_inv: "lstep m a m' \<Longrightarrow> lm_inv m \<Longrightarrow> lm_inv m'"
proof (induction rule: lstep.induct)
  case (acquire t k md m oc m')
  then show ?case using inv_Acquire by blast
next
  case (resume r m oc m')
  let ?m = "m\<lparr>woken := remove1 r (woken m)\<rparr>"
  have i: "lm_inv ?m" using resume.prems by simp
  show ?case
  proof (cases "locks ?m (rqKey r)")
    case None
    then show ?thesis using inv_new_lock [OF i None] resume.hyps(2) by (auto simp: resume_def)
  next
    case (Some lk)
    then have "acquire_round (rqTxn r) (rqKey r) (rqMode r) lk ?m = (oc, m')" using resume.hyps(2) by (simp add: resume_def)
    then show ?thesis by (rule inv_acquire_round [OF i Some])
  qed
next
  case (release m t k)
  then show ?case by (rule Release_inv(1))
next
  case (release_all m t order)
  then show ?case by (intro ReleaseAll_inv(1)) auto
qed

section \<open>Properties of the lock manager\<close>

text \<open>C14: in every state that interleavings of the critical sections can reach, a key locked
  exclusively has one holder; and \<open>ReleaseAll\<close> takes from its transaction every lock it
  holds and no lock of any other, which is what strict two-phase locking needs at commit.\<close>

theorem two_phase_locking:
  assumes "reachable m" and "\<forall>ks. txns m t = Some ks \<longrightarrow> set order = ks"
  shows "(\<forall>k lk. locks m k = Some lk \<longrightarrow> holders lk \<noteq> {} \<and> (lkMode lk = LockExclusive \<longrightarrow> (\<exists>u. holders lk = {u}))) \<and>
    (\<forall>u k. holds_lock (ReleaseAll order t m) u k \<longleftrightarrow> holds_lock m u k \<and> u \<noteq> t)"
proof -
  have "lm_inv m" using assms(1)
  proof induction
    case init
    show ?case by (simp add: lm_inv_def locks_ok_def New2PLLockManager_def holds_lock_def indexed_def)
  qed (rule lstep_inv)
  then show ?thesis
    using ReleaseAll_inv(2) [OF _ assms(2)] by (auto simp: lm_inv_def locks_ok_def lock_ok_def)
qed

definition two_shared :: lock_mgr where
  "two_shared = snd (Acquire 2 ''k'' LockShared (snd (Acquire 1 ''k'' LockShared New2PLLockManager)))"

lemma two_shared_simps [simp]:
  "locks two_shared ''k'' = Some \<lparr>lkMode = LockShared, holders = {1, 2}, waiters = []\<rparr>" "txns two_shared 1 = Some {''k''}"
  by (auto simp: two_shared_def Acquire_def New2PLLockManager_def new_lock_def addTxnLock_def acquire_round_def)

lemma two_shared_reachable: "reachable two_shared"
proof -
  let ?m = "snd (Acquire 1 ''k'' LockShared New2PLLockManager)"
  have "reachable ?m" by (rule reachable.step [OF reachable.init lstep.acquire [OF prod.collapse [symmetric]]])
  then show ?thesis unfolding two_shared_def by (rule reachable.step [OF _ lstep.acquire [OF prod.collapse [symmetric]]])
qed

theorem two_phase_locking_witness:
  "holds_lock two_shared 1 ''k'' \<and> \<not> holds_lock (ReleaseAll [''k''] 1 two_shared) 1 ''k'' \<and>
     holds_lock (ReleaseAll [''k''] 1 two_shared) 2 ''k''"
  using two_phase_locking [OF two_shared_reachable, of 1 "[''k'']"] by (simp add: holds_lock_def)

subsection \<open>Waiting\<close>

definition waiting :: "lock_mgr \<Rightarrow> request \<Rightarrow> bool" where
  "waiting m r \<longleftrightarrow> (case locks m (rqKey r) of None \<Rightarrow> False | Some lk \<Rightarrow> r \<in> set (waiters lk))"

lemma woken_fold_mono: "set (woken m) \<subseteq> set (woken (fold (drop_holder t) order m))"
proof (induction order arbitrary: m)
  case (Cons a order)
  have "set (woken m) \<subseteq> set (woken (drop_holder t a m))" by (auto simp: drop_holder_def split: option.split)
  with Cons.IH [of "drop_holder t a m"] show ?case by auto
qed simp

lemma waiting_drop: "waiting m r \<Longrightarrow> waiting (drop_holder t k m) r \<or> r \<in> set (woken (drop_holder t k m))"
  by (cases "locks m k") (auto simp: waiting_def drop_holder_def split: option.splits)

lemma waiting_fold_drop:
  "waiting m r \<Longrightarrow> waiting (fold (drop_holder t) order m) r \<or> r \<in> set (woken (fold (drop_holder t) order m))"
proof (induction order arbitrary: m)
  case (Cons a order)
  then show ?case
    using waiting_drop [OF Cons.prems, of t a] woken_fold_mono [of "drop_holder t a m" t order] by auto
qed simp

lemma waiting_locks: "locks m' = locks m \<Longrightarrow> waiting m' r = waiting m r"
  by (simp add: waiting_def)

lemma waiting_round:
  assumes "locks m k = Some lk" "acquire_round t k md lk m = (oc, m')"
  shows "waiting m r \<Longrightarrow> waiting m' r" "woken m' = woken m"
    "oc = Blocked \<Longrightarrow> waiting m' \<lparr>rqTxn = t, rqKey = k, rqMode = md\<rparr>"
  using assms by (auto simp: acquire_round_def waiting_def split: if_splits option.splits)

lemma waiting_new_lock: "locks m k = None \<Longrightarrow> waiting m r \<Longrightarrow> waiting (new_lock t k md m) r" "woken (new_lock t k md m) = woken m"
  by (auto simp: new_lock_def waiting_def)

lemma waiting_Acquire:
  assumes "Acquire t k md m = (oc, m')"
  shows "waiting m r \<Longrightarrow> waiting m' r" "woken m' = woken m" "oc = Blocked \<Longrightarrow> waiting m' \<lparr>rqTxn = t, rqKey = k, rqMode = md\<rparr>"
proof -
  have "(waiting m r \<longrightarrow> waiting m' r) \<and> woken m' = woken m \<and> (oc = Blocked \<longrightarrow> waiting m' \<lparr>rqTxn = t, rqKey = k, rqMode = md\<rparr>)"
  proof (cases "locks m k")
    case None
    then show ?thesis using assms waiting_new_lock(1) [OF None] waiting_new_lock(2) by (auto simp: Acquire_def)
  next
    case (Some lk)
    show ?thesis
    proof (cases "acquire_round t k md lk m = (oc, m')")
      case True
      then show ?thesis using waiting_round [OF Some True] by blast
    next
      case False
      then show ?thesis
        using assms Some by (auto simp: Acquire_def waiting_def split: if_splits option.splits)
    qed
  qed
  then show "waiting m r \<Longrightarrow> waiting m' r" "woken m' = woken m" "oc = Blocked \<Longrightarrow> waiting m' \<lparr>rqTxn = t, rqKey = k, rqMode = md\<rparr>" by blast+
qed

lemma waiting_resume:
  assumes "resume q m = (oc, m')"
  shows "waiting m r \<Longrightarrow> waiting m' r" "woken m' = woken m" "oc = Blocked \<Longrightarrow> waiting m' q"
proof -
  have "(waiting m r \<longrightarrow> waiting m' r) \<and> woken m' = woken m \<and> (oc = Blocked \<longrightarrow> waiting m' q)"
  proof (cases "locks m (rqKey q)")
    case None
    then show ?thesis using assms waiting_new_lock(1) [OF None] waiting_new_lock(2) by (auto simp: resume_def)
  next
    case (Some lk)
    then have "acquire_round (rqTxn q) (rqKey q) (rqMode q) lk m = (oc, m')" using assms by (simp add: resume_def)
    moreover have "\<lparr>rqTxn = rqTxn q, rqKey = rqKey q, rqMode = rqMode q\<rparr> = q" by (cases q) simp
    ultimately show ?thesis using waiting_round [OF Some] by metis
  qed
  then show "waiting m r \<Longrightarrow> waiting m' r" "woken m' = woken m" "oc = Blocked \<Longrightarrow> waiting m' q" by blast+
qed

text \<open>C31: no wake-up is lost: a goroutine blocked in \<open>Acquire\<close> stays queued at a lock that
  somebody holds until it is signalled, and once signalled it stays runnable until it runs;
  when it runs it has the lock or is queued again.\<close>

theorem no_lost_wakeup:
  assumes "lstep m a m'"
  shows "(waiting m r \<longrightarrow> waiting m' r \<or> r \<in> set (woken m')) \<and>
    (r \<in> set (woken m) \<longrightarrow> r \<in> set (woken m') \<or>
      (a = ActResume r \<and> (waiting m' r \<or> holds_lock m' (rqTxn r) (rqKey r))))"
  using assms
proof (induction rule: lstep.induct)
  case (acquire t k md m oc m')
  then show ?case using waiting_Acquire [OF acquire] by auto
next
  case (resume q m oc m')
  let ?m = "m\<lparr>woken := remove1 q (woken m)\<rparr>"
  note R = waiting_resume [OF resume.hyps(2)]
  have w: "waiting ?m r = waiting m r" by (simp add: waiting_def)
  have wk: "woken m' = remove1 q (woken m)" using R(2) by simp
  have "oc = Granted \<Longrightarrow> holds_lock m' (rqTxn q) (rqKey q)"
    using resume.hyps(2) by (auto simp: resume_def new_lock_def acquire_round_def holds_lock_def split: option.splits if_splits)
  then have "waiting m' q \<or> holds_lock m' (rqTxn q) (rqKey q)" using R(3) by (cases oc) auto
  then show ?case using R(1) w wk by (cases "r = q") auto
next
  case (release m t k)
  let ?m = "m\<lparr>txns := (case txns m t of None \<Rightarrow> txns m | Some ks \<Rightarrow> (txns m)(t \<mapsto> ks - {k}))\<rparr>"
  have d: "waiting ?m r \<Longrightarrow> waiting (drop_holder t k ?m) r \<or> r \<in> set (woken (drop_holder t k ?m))" by (rule waiting_drop)
  have "set (woken ?m) \<subseteq> set (woken (drop_holder t k ?m))" using woken_fold_mono [of ?m t "[k]"] by simp
  with d show ?case by (cases "locks m k") (auto simp: Release_def waiting_def)
next
  case (release_all m t order)
  show ?case
  proof (cases "txns m t")
    case (Some ks)
    let ?f = "fold (drop_holder t) order m"
    have "waiting (ReleaseAll order t m) r = waiting ?f r" "woken (ReleaseAll order t m) = woken ?f"
      using Some by (simp_all add: ReleaseAll_def waiting_def)
    then show ?thesis using waiting_fold_drop [of m r t order] woken_fold_mono [of m t order] by auto
  qed (simp add: ReleaseAll_def)
qed

theorem no_lost_wakeup_witness:
  "\<exists>m m'. Acquire 1 ''k'' LockExclusive two_shared = (Blocked, m) \<and> lstep m (ActReleaseAll 2) m' \<and>
     (waiting m' \<lparr>rqTxn = 1, rqKey = ''k'', rqMode = LockExclusive\<rparr> \<or>
      \<lparr>rqTxn = 1, rqKey = ''k'', rqMode = LockExclusive\<rparr> \<in> set (woken m'))"
proof -
  let ?r = "\<lparr>rqTxn = 1, rqKey = ''k'', rqMode = LockExclusive\<rparr>"
  obtain oc m where a: "Acquire 1 ''k'' LockExclusive two_shared = (oc, m)" by fastforce
  have "card {1 :: TxnID, 2} = 2" by simp
  then have oc: "oc = Blocked" using a by (auto simp: Acquire_def acquire_round_def)
  have "txns m = txns two_shared" using a by (auto simp: Acquire_def acquire_round_def split: if_splits)
  moreover have "txns two_shared 2 = Some {''k''}"
    by (auto simp: two_shared_def Acquire_def New2PLLockManager_def new_lock_def addTxnLock_def acquire_round_def)
  ultimately have s: "lstep m (ActReleaseAll 2) (ReleaseAll [''k''] 2 m)" by (intro lstep.release_all) simp
  show ?thesis
    using no_lost_wakeup [OF s, of ?r] waiting_Acquire(3) [OF a oc] a oc s by blast
qed

subsection \<open>Upgrading\<close>

definition releases :: "TxnID \<Rightarrow> string \<Rightarrow> action \<Rightarrow> bool" where
  "releases t k a \<longleftrightarrow> a = ActRelease t k \<or> a = ActReleaseAll t"

text \<open>A holder that waits at its own lock.\<close>

definition self_blocked :: "TxnID \<Rightarrow> string \<Rightarrow> lock_mode \<Rightarrow> lock_mgr \<Rightarrow> bool" where
  "self_blocked t k md m \<longleftrightarrow> holds_lock m t k \<and> waiting m \<lparr>rqTxn = t, rqKey = k, rqMode = md\<rparr>"

lemma holds_round: "locks m k' = Some lk \<Longrightarrow> acquire_round u k' md lk m = (oc, m') \<Longrightarrow> holds_lock m t k \<Longrightarrow> holds_lock m' t k"
  by (auto simp: acquire_round_def holds_lock_def split: if_splits)

lemma holds_new_lock: "locks m k' = None \<Longrightarrow> holds_lock m t k \<Longrightarrow> holds_lock (new_lock u k' md m) t k"
  by (auto simp: new_lock_def holds_lock_def)

lemma holds_Acquire: "Acquire u k' md m = (oc, m') \<Longrightarrow> holds_lock m t k \<Longrightarrow> holds_lock m' t k"
proof (cases "locks m k'")
  case None
  assume "Acquire u k' md m = (oc, m')" "holds_lock m t k"
  with holds_new_lock [OF None] None show ?thesis by (auto simp: Acquire_def)
next
  case (Some lk)
  assume a: "Acquire u k' md m = (oc, m')" "holds_lock m t k"
  show ?thesis
  proof (cases "acquire_round u k' md lk m = (oc, m')")
    case True
    then show ?thesis using holds_round [OF Some True a(2)] by blast
  next
    case False
    then show ?thesis using a Some by (auto simp: Acquire_def holds_lock_def split: if_splits)
  qed
qed

lemma self_blocked_drop:
  assumes "self_blocked t k md m" "u \<noteq> t \<or> k' \<noteq> k"
  shows "self_blocked t k md (drop_holder u k' m)"
  using assms by (auto simp: self_blocked_def holds_lock_def waiting_def dropped_def split: option.splits if_splits)

lemma self_blocked_fold:
  "self_blocked t k md m \<Longrightarrow> u \<noteq> t \<Longrightarrow> self_blocked t k md (fold (drop_holder u) order m)"
  by (induction order arbitrary: m) (auto intro: self_blocked_drop)

lemma self_blocked_txns [simp]: "self_blocked t k md (m\<lparr>txns := x\<rparr>) = self_blocked t k md m"
  by (simp add: self_blocked_def waiting_def)

lemma self_blocked_step:
  "lstep m a m' \<Longrightarrow> \<not> releases t k a \<Longrightarrow> self_blocked t k md m \<Longrightarrow> self_blocked t k md m'"
proof (induction rule: lstep.induct)
  case (acquire u k' md' m oc m')
  then show ?case using waiting_Acquire(1) [OF acquire(1)] holds_Acquire [OF acquire(1)] by (simp add: self_blocked_def)
next
  case (resume q m oc m')
  let ?m = "m\<lparr>woken := remove1 q (woken m)\<rparr>"
  have "holds_lock ?m t k" "waiting ?m \<lparr>rqTxn = t, rqKey = k, rqMode = md\<rparr>"
    using resume.prems(2) by (simp_all add: self_blocked_def waiting_def)
  moreover have "holds_lock m' t k"
  proof (cases "locks ?m (rqKey q)")
    case None
    then show ?thesis using resume.hyps(2) holds_new_lock [OF None calculation(1)] by (auto simp: resume_def)
  next
    case (Some lk)
    then have "acquire_round (rqTxn q) (rqKey q) (rqMode q) lk ?m = (oc, m')" using resume.hyps(2) by (simp add: resume_def)
    from holds_round [OF Some this calculation(1)] show ?thesis .
  qed
  ultimately show ?case using waiting_resume(1) [OF resume.hyps(2)] by (simp add: self_blocked_def)
next
  case (release m u k')
  then have "u \<noteq> t \<or> k' \<noteq> k" by (auto simp: releases_def)
  with release.prems(2) show ?case by (simp add: Release_def self_blocked_drop split: option.split)
next
  case (release_all m u order)
  then have "u \<noteq> t" by (auto simp: releases_def)
  with release_all.prems(2) show ?case by (simp add: ReleaseAll_def self_blocked_fold split: option.split)
qed

text \<open>C32: upgrading a shared lock that others share blocks for ever: the request queues behind the
  holders, of whom the requester is one, and whatever the other transactions do, even when
  all of them release, it is never signalled; only a release by the blocked transaction
  itself could end the wait. No deadlock timeout fires.\<close>

theorem upgrade_blocks_forever:
  assumes "locks m k = Some lk" and "lkMode lk = LockShared" and "t \<in> holders lk" and "card (holders lk) \<noteq> 1"
    and "Acquire t k LockExclusive m = (oc, m1)"
    and "(\<lambda>x y. \<exists>a. lstep x a y \<and> \<not> releases t k a)\<^sup>*\<^sup>* m1 m2"
  shows "oc = Blocked \<and> self_blocked t k LockExclusive m2"
proof -
  have b: "oc = Blocked" and h: "holds_lock m1 t k"
    using assms(1-5) by (auto simp: Acquire_def acquire_round_def holds_lock_def)
  then have "self_blocked t k LockExclusive m1" using waiting_Acquire(3) [OF assms(5)] by (simp add: self_blocked_def)
  with assms(6) have "self_blocked t k LockExclusive m2"
    by (induction rule: rtranclp_induct) (auto intro: self_blocked_step)
  with b show ?thesis by simp
qed

theorem upgrade_blocks_forever_witness:
  "\<exists>m1. Acquire 1 ''k'' LockExclusive two_shared = (Blocked, m1) \<and> self_blocked 1 ''k'' LockExclusive (Release 2 ''k'' m1)"
proof -
  obtain oc m1 where a: "Acquire 1 ''k'' LockExclusive two_shared = (oc, m1)" by fastforce
  have "(\<lambda>x y. \<exists>a. lstep x a y \<and> \<not> releases 1 ''k'' a)\<^sup>*\<^sup>* m1 (Release 2 ''k'' m1)"
    by (rule r_into_rtranclp) (auto simp: releases_def intro: lstep.release)
  from upgrade_blocks_forever [OF two_shared_simps(1) _ _ _ a this] a show ?thesis by auto
qed

end
