(* ===== verification/UQLExec.thy ===== *)
theory UQLExec
  imports UQL MVCC Recovery LockManager
begin

text \<open>
  The \<open>Execute\<close> methods of the statements of \<open>query.go\<close>: every statement works on the
  versioned cache, on page 0 of the slotted store, on the lock manager and on the
  memory index, in the order of the source. Statements and rows are the values of \<open>UQL.thy\<close>.

  The state holds what the methods share; the read-only arguments are a record of their own.
  The clock is read at three places: when a cache transaction begins, when it reads
  or commits, and in the page store. A lock request that has to wait ends the model of the
  call with \<open>Blocked\<close>; the lock manager's own theory follows it from there. The text of the
  metrics report, which prints a floating point ratio, is a parameter.
\<close>

section \<open>State\<close>

record ('d, 'e) uql =
  uCache :: mvcc_store
  uDB :: "('d, 'e) db"
  uIndex :: "mem_index option"
  uLocks :: "lock_mgr option"
  uWal :: wal

record ('d, 'e) uql_env =
  uEnv :: "('d, 'e) env"
  uRun :: run_env
  uBegin :: int
  uCommit :: int
  uSearcher :: searcher
  uCodec :: "codec_ops option"
  uLockOrder :: "TxnID \<Rightarrow> lock_mgr \<Rightarrow> string list"
  uReport :: "metrics_snapshot \<Rightarrow> bytes"
  uWalFile :: "bytes option"
  uUndoOrder :: "(TxnID \<times> LSN) list \<Rightarrow> (TxnID \<times> LSN) list"
  uFuel :: nat

type_synonym rows = "bytes list"

section \<open>Shared steps\<close>

definition cache_begin :: "('d, 'e) uql_env \<Rightarrow> ('d, 'e) uql \<Rightarrow> 64 word \<times> ('d, 'e) uql" where
  "cache_begin X u = (case BeginOCC (uBegin X) (uCache u) of (i, c) \<Rightarrow> (i, u\<lparr>uCache := c\<rparr>))"

definition cache_commit ::
  "('d, 'e) uql_env \<Rightarrow> 64 word \<Rightarrow> (bytes \<times> bytes option) list \<Rightarrow> ('d, 'e) uql \<Rightarrow> error option \<times> ('d, 'e) uql" where
  "cache_commit X txID ws u =
     (case ValidateAndCommit (uCommit X) txID ws 0 (uCache u) of (e, c) \<Rightarrow> (e, u\<lparr>uCache := c\<rparr>))"

definition txn_begin :: "('d, 'e) uql \<Rightarrow> TxnID \<times> ('d, 'e) uql" where
  "txn_begin u = (case BeginTxn (uDB u) of (t, db) \<Rightarrow> (t, u\<lparr>uDB := db\<rparr>))"

definition txn_commit :: "TxnID \<Rightarrow> ('d, 'e) uql \<Rightarrow> ('d, 'e) uql" where
  "txn_commit t u = u\<lparr>uDB := CommitTxn t (uDB u)\<rparr>"

definition lock_key_for :: "TxnID \<Rightarrow> string \<Rightarrow> lock_mode \<Rightarrow> ('d, 'e) uql \<Rightarrow> bool \<times> ('d, 'e) uql" where
  "lock_key_for t key md u =
     (case uLocks u of
        None \<Rightarrow> (True, u)
      | Some m \<Rightarrow> (case Acquire t key md m of (oc, m') \<Rightarrow> (oc = Granted, u\<lparr>uLocks := Some m'\<rparr>)))"

definition unlock_all :: "('d, 'e) uql_env \<Rightarrow> TxnID \<Rightarrow> ('d, 'e) uql \<Rightarrow> ('d, 'e) uql" where
  "unlock_all X t u =
     (case uLocks u of None \<Rightarrow> u | Some m \<Rightarrow> u\<lparr>uLocks := Some (ReleaseAll (uLockOrder X t m) t m)\<rparr>)"

definition page0_write ::
  "('d, 'e) uql_env \<Rightarrow> TxnID \<Rightarrow> bytes \<Rightarrow> bytes \<Rightarrow> mix_param \<Rightarrow> ('d, 'e) uql \<Rightarrow> error option \<times> ('d, 'e) uql" where
  "page0_write X t key val mp u =
     (case Write (uEnv X) (uRun X) 0 t key val mp (uDB u) of (e, db) \<Rightarrow> (e, u\<lparr>uDB := db\<rparr>))"

definition index_add :: "64 word \<Rightarrow> string \<Rightarrow> ('d, 'e) uql \<Rightarrow> ('d, 'e) uql" where
  "index_add i text u = u\<lparr>uIndex := map_option (MemIndex_Add i text) (uIndex u)\<rparr>"

definition doc_key :: "64 word \<Rightarrow> string" where
  "doc_key i = dec (unat i)"

section \<open>HSET and INSERT\<close>

definition HSet_Execute ::
  "('d, 'e) uql_env \<Rightarrow> string \<Rightarrow> string \<Rightarrow> string \<Rightarrow> ('d, 'e) uql \<Rightarrow> rows result \<times> ('d, 'e) uql" where
  "HSet_Execute X hashKey field val u0 =
     (let compositeKey = ''H:'' @ hashKey @ '':'' @ field
      in case cache_begin X u0 of (txID, u1) \<Rightarrow>
         (case cache_commit X txID [(bytes_of compositeKey, Some (bytes_of val))] u1 of
            (Some e, u2) \<Rightarrow> (Inl e, u2)
          | (None, u2) \<Rightarrow>
              (case txn_begin u2 of (txn, u3) \<Rightarrow>
               (case lock_key_for txn compositeKey LockExclusive u3 of
                  (False, u4) \<Rightarrow> (Inl error.Blocked, u4)
                | (True, u4) \<Rightarrow>
                    (case HSet (uEnv X) (uRun X) 0 txn (bytes_of hashKey) (bytes_of field) (bytes_of val) 0 (uDB u4) of
                       (e, db) \<Rightarrow>
                         let u5 = unlock_all X txn (txn_commit txn (u4\<lparr>uDB := db\<rparr>))
                         in (case e of
                               Some err \<Rightarrow> (Inl err, u5)
                             | None \<Rightarrow> (Inr [bytes_of ''SUCCESS: Transaction complete. MVCC record appended and slotted data synchronized.''], u5)))))))"

definition insert_write ::
  "('d, 'e) uql_env \<Rightarrow> TxnID \<Rightarrow> bytes \<Rightarrow> bytes \<Rightarrow> bool \<Rightarrow> ('d, 'e) uql \<Rightarrow> error option \<times> ('d, 'e) uql" where
  "insert_write X txn key val isComp u =
     (case (if isComp then uCodec X else None) of
        Some c \<Rightarrow>
          (case WriteCompressed (uEnv X) (uRun X) c 0 txn key val 0 (uDB u) of (e, db) \<Rightarrow> (e, u\<lparr>uDB := db\<rparr>))
      | None \<Rightarrow> page0_write X txn key val (IntParam 0) u)"

definition Insert_Execute ::
  "('d, 'e) uql_env \<Rightarrow> nat \<Rightarrow> string \<Rightarrow> bool \<Rightarrow> ('d, 'e) uql \<Rightarrow> rows result \<times> ('d, 'e) uql" where
  "Insert_Execute X docID val isComp u0 =
     (let keyStr = dec docID
      in case cache_begin X u0 of (txID, u1) \<Rightarrow>
         (case cache_commit X txID [(bytes_of keyStr, Some (bytes_of val))] u1 of
            (Some e, u2) \<Rightarrow> (Inl e, u2)
          | (None, u2) \<Rightarrow>
              (case txn_begin u2 of (txn, u3) \<Rightarrow>
               (case lock_key_for txn keyStr LockExclusive u3 of
                  (False, u4) \<Rightarrow> (Inl error.Blocked, u4)
                | (True, u4) \<Rightarrow>
                    (case insert_write X txn (bytes_of keyStr) (bytes_of val) isComp u4 of
                       (e, u5) \<Rightarrow>
                         let u6 = unlock_all X txn (txn_commit txn u5)
                         in (case e of
                               Some err \<Rightarrow> (Inl err, u6)
                             | None \<Rightarrow>
                                 (Inr [bytes_of ''SUCCESS: Insert executed on storage block and tracking version appended to cache chains''],
                                  index_add (of_nat docID) val u6)))))))"

section \<open>SELECT\<close>

definition joined :: "select_stmt \<Rightarrow> bytes \<Rightarrow> bytes" where
  "joined sel val =
     (if selJoinTable sel = [] then val
      else val @ bytes_of ('' linked to '' @ selJoinTable sel @ '' relational row matrix''))"

definition select_disk :: "('d, 'e) uql_env \<Rightarrow> select_stmt \<Rightarrow> TxnID \<Rightarrow> bytes \<Rightarrow> ('d, 'e) uql \<Rightarrow> bytes result \<times> ('d, 'e) uql" where
  "select_disk X sel txn key u =
     (case (case (if selCompressed sel then uCodec X else None) of
              Some c \<Rightarrow> ReadCompressed (uEnv X) (uRun X) c 0 txn key (uDB u)
            | None \<Rightarrow> Read (uEnv X) (uRun X) 0 txn key (uDB u)) of
        (r, db) \<Rightarrow> (r, u\<lparr>uDB := db\<rparr>))"

text \<open>The loop over the document numbers; \<open>break\<close> ends it with the rows collected so far.\<close>

fun select_loop ::
  "('d, 'e) uql_env \<Rightarrow> select_stmt \<Rightarrow> 64 word \<Rightarrow> TxnID \<Rightarrow> 64 word list \<Rightarrow> rows \<Rightarrow> ('d, 'e) uql \<Rightarrow> rows result \<times> ('d, 'e) uql" where
  "select_loop X sel txID txn [] results u = (Inr results, u)"
| "select_loop X sel txID txn (i # ids) results u =
     (case Cache_Read (uCommit X) txID (bytes_of (doc_key i)) (uCache u) of
        Inr v \<Rightarrow>
          let results' = results @ [joined sel (case v of None \<Rightarrow> [] | Some b \<Rightarrow> b)]
          in if selLimit sel \<le> int (length results') then (Inr results', u)
             else select_loop X sel txID txn ids results' u
      | Inl _ \<Rightarrow>
          (case lock_key_for txn (doc_key i) LockShared u of
             (False, u1) \<Rightarrow> (Inl error.Blocked, u1)
           | (True, u1) \<Rightarrow>
               (case select_disk X sel txn (bytes_of (doc_key i)) u1 of
                  (Inl _, u2) \<Rightarrow>
                    if selLimit sel \<le> int (length results) then (Inr results, u2)
                    else select_loop X sel txID txn ids results u2
                | (Inr val, u2) \<Rightarrow>
                    let u3 = snd (cache_commit X txID [(bytes_of (doc_key i), Some val)] u2);
                        results' = results @ [joined sel val]
                    in if selLimit sel \<le> int (length results') then (Inr results', u3)
                       else select_loop X sel txID txn ids results' u3)))"

definition Select_Execute :: "('d, 'e) uql_env \<Rightarrow> select_stmt \<Rightarrow> ('d, 'e) uql \<Rightarrow> rows result \<times> ('d, 'e) uql" where
  "Select_Execute X sel u0 =
     (case Execute (uSearcher X) (selFilter sel) of
        Inl e \<Rightarrow> (Inl e, u0)
      | Inr bm \<Rightarrow>
          (case cache_begin X u0 of (txID, u1) \<Rightarrow>
           (case txn_begin u1 of (txn, u2) \<Rightarrow>
            (case select_loop X sel txID txn (Roaring_ToArray bm) [] u2 of
               (Inl e, u3) \<Rightarrow> (Inl e, u3)
             | (Inr results, u3) \<Rightarrow> (Inr results, txn_commit txn (unlock_all X txn u3))))))"

section \<open>UPDATE and DELETE\<close>

text \<open>The loops ignore the errors of the lock request and of the write.\<close>

fun update_loop ::
  "('d, 'e) uql_env \<Rightarrow> string \<Rightarrow> TxnID \<Rightarrow> 64 word list \<Rightarrow> ('d, 'e) uql \<Rightarrow> bool \<times> ('d, 'e) uql" where
  "update_loop X newVal txn [] u = (True, u)"
| "update_loop X newVal txn (i # ids) u =
     (case lock_key_for txn (doc_key i) LockExclusive u of
        (False, u1) \<Rightarrow> (False, u1)
      | (True, u1) \<Rightarrow>
          update_loop X newVal txn ids
            (index_add i newVal (snd (page0_write X txn (bytes_of (doc_key i)) (bytes_of newVal) (IntParam 0) u1))))"

fun delete_loop :: "('d, 'e) uql_env \<Rightarrow> TxnID \<Rightarrow> 64 word list \<Rightarrow> ('d, 'e) uql \<Rightarrow> bool \<times> ('d, 'e) uql" where
  "delete_loop X txn [] u = (True, u)"
| "delete_loop X txn (i # ids) u =
     (case lock_key_for txn (doc_key i) LockExclusive u of
        (False, u1) \<Rightarrow> (False, u1)
      | (True, u1) \<Rightarrow>
          delete_loop X txn ids (snd (page0_write X txn (bytes_of (doc_key i)) [] (DurationParam 1) u1)))"

definition write_set :: "64 word list \<Rightarrow> bytes option \<Rightarrow> (bytes \<times> bytes option) list" where
  "write_set ids v = map (\<lambda>i. (bytes_of (doc_key i), v)) ids"

definition finish_mutation ::
  "('d, 'e) uql_env \<Rightarrow> 64 word \<Rightarrow> TxnID \<Rightarrow> (bytes \<times> bytes option) list \<Rightarrow> string \<Rightarrow> ('d, 'e) uql \<Rightarrow> rows result \<times> ('d, 'e) uql" where
  "finish_mutation X txID txn ws msg u =
     (case cache_commit X txID ws u of
        (e, u1) \<Rightarrow>
          let u2 = unlock_all X txn (txn_commit txn u1)
          in (case e of Some err \<Rightarrow> (Inl err, u2) | None \<Rightarrow> (Inr [bytes_of msg], u2)))"

definition Update_Execute :: "('d, 'e) uql_env \<Rightarrow> query \<Rightarrow> string \<Rightarrow> ('d, 'e) uql \<Rightarrow> rows result \<times> ('d, 'e) uql" where
  "Update_Execute X flt newVal u0 =
     (case Execute (uSearcher X) flt of
        Inl e \<Rightarrow> (Inl e, u0)
      | Inr bm \<Rightarrow>
          let docIDs = Roaring_ToArray bm
          in case cache_begin X u0 of (txID, u1) \<Rightarrow>
             (case txn_begin u1 of (txn, u2) \<Rightarrow>
              (case update_loop X newVal txn docIDs u2 of
                 (False, u3) \<Rightarrow> (Inl error.Blocked, u3)
               | (True, u3) \<Rightarrow>
                   finish_mutation X txID txn (write_set docIDs (Some (bytes_of newVal)))
                     ''SUCCESS: MVCC chains updated and physical blocks synchronized'' u3)))"

definition Delete_Execute :: "('d, 'e) uql_env \<Rightarrow> query \<Rightarrow> ('d, 'e) uql \<Rightarrow> rows result \<times> ('d, 'e) uql" where
  "Delete_Execute X flt u0 =
     (case Execute (uSearcher X) flt of
        Inl e \<Rightarrow> (Inl e, u0)
      | Inr bm \<Rightarrow>
          let docIDs = Roaring_ToArray bm
          in case cache_begin X u0 of (txID, u1) \<Rightarrow>
             (case txn_begin u1 of (txn, u2) \<Rightarrow>
              (case delete_loop X txn docIDs u2 of
                 (False, u3) \<Rightarrow> (Inl error.Blocked, u3)
               | (True, u3) \<Rightarrow>
                   finish_mutation X txID txn (write_set docIDs None)
                     ''SUCCESS: Transaction complete. MVCC tombstone markers assigned.'' u3)))"

section \<open>Maintenance statements and the dispatch\<close>

definition Recover_Execute :: "('d, 'e) uql_env \<Rightarrow> ('d, 'e) uql \<Rightarrow> rows result \<times> ('d, 'e) uql" where
  "Recover_Execute X u =
     (case PerformRecovery (uEnv X) (uRun X) (uUndoOrder X) (uFuel X) (uWalFile X) (uDB u) of
        (Some e, db) \<Rightarrow> (Inl e, u\<lparr>uDB := db\<rparr>)
      | (None, db) \<Rightarrow>
          (Inr [bytes_of ''SUCCESS: System historical record replay complete. Engine stable.''], u\<lparr>uDB := db\<rparr>))"

definition Checkpoint_Execute :: "('d, 'e) uql_env \<Rightarrow> ('d, 'e) uql \<Rightarrow> rows result \<times> ('d, 'e) uql" where
  "Checkpoint_Execute X u =
     (Inr [bytes_of ''SUCCESS: Dirty frames synced to storage disk. Checkpoint sealed.''],
      u\<lparr>uDB := (uDB u)\<lparr>bp := snd (FlushAll (uEnv X) (bp (uDB u)))\<rparr>, uWal := Checkpoint (uWal u)\<rparr>)"

definition Metrics_Execute :: "('d, 'e) uql_env \<Rightarrow> ('d, 'e) uql \<Rightarrow> rows result \<times> ('d, 'e) uql" where
  "Metrics_Execute X u =
     (case dbMetrics (uDB u) of
        None \<Rightarrow> (Inl ErrNoMetrics, u)
      | Some m \<Rightarrow> (Inr [uReport X (Capture m)], u))"

fun Statement_Execute :: "('d, 'e) uql_env \<Rightarrow> statement \<Rightarrow> ('d, 'e) uql \<Rightarrow> rows result \<times> ('d, 'e) uql" where
  "Statement_Execute X (HSetStatement h f v) u = HSet_Execute X h f v u"
| "Statement_Execute X (SelectStatement sel) u = Select_Execute X sel u"
| "Statement_Execute X RecoverStatement u = Recover_Execute X u"
| "Statement_Execute X CheckpointStatement u = Checkpoint_Execute X u"
| "Statement_Execute X MetricsStatement u = Metrics_Execute X u"
| "Statement_Execute X (InsertStatement i v c) u = Insert_Execute X i v c u"
| "Statement_Execute X (UpdateStatement q v) u = Update_Execute X q v u"
| "Statement_Execute X (DeleteStatement q) u = Delete_Execute X q u"

section \<open>Transactions opened by a statement\<close>

lemma on_page_txns: "activeTxns (snd (on_page E i d work db)) = activeTxns db"
  by (auto simp: on_page_def Let_def split: prod.splits sum.splits)

lemma on_page_txnsD: "on_page E i d work db = (r, db') \<Longrightarrow> activeTxns db' = activeTxns db"
  using on_page_txns [of E i d work db] by simp

lemma page_ops_txns:
  "Write E R i t key val mp db = (e, db') \<Longrightarrow> activeTxns db' = activeTxns db"
  "Read E R i t key db = (r, db') \<Longrightarrow> activeTxns db' = activeTxns db"
  by (auto simp: Write_def Read_def Let_def dest: on_page_txnsD split: prod.splits sum.splits)

lemma compressed_ops_txns:
  "WriteCompressed E R c i t key val ttl db = (e, db') \<Longrightarrow> activeTxns db' = activeTxns db"
  "ReadCompressed E R c i t key db = (r, db') \<Longrightarrow> activeTxns db' = activeTxns db"
  "HSet E R i t h f val ttl db = (e, db') \<Longrightarrow> activeTxns db' = activeTxns db"
  by (auto simp: WriteCompressed_def ReadCompressed_def HSet_def dest: page_ops_txns split: prod.splits sum.splits)

lemmas ops_txns = page_ops_txns compressed_ops_txns

text \<open>Each step of a statement leaves the parts of the state that are not its own.\<close>

definition same_txns :: "('d, 'e) uql \<Rightarrow> ('d, 'e) uql \<Rightarrow> bool" where
  "same_txns u u' \<longleftrightarrow> activeTxns (uDB u') = activeTxns (uDB u) \<and> uCache u' = uCache u"

lemma same_txns_trans: "same_txns u u1 \<Longrightarrow> same_txns u1 u2 \<Longrightarrow> same_txns u u2"
  by (simp add: same_txns_def)

lemma step_same_txns:
  "lock_key_for t k md u = (b, u') \<Longrightarrow> same_txns u u'"
  "page0_write X t key val mp u = (e, u') \<Longrightarrow> same_txns u u'"
  "insert_write X t key val c u = (e, u') \<Longrightarrow> same_txns u u'"
  "select_disk X sel t key u = (r, u') \<Longrightarrow> same_txns u u'"
  "same_txns u (unlock_all X t u)" "same_txns u (index_add i text u)"
proof -
  show "lock_key_for t k md u = (b, u') \<Longrightarrow> same_txns u u'"
    by (auto simp: same_txns_def lock_key_for_def split: option.splits prod.splits)
  show wr: "page0_write X t key val mp u = (e, u') \<Longrightarrow> same_txns u u'" for mp
    by (auto simp: same_txns_def page0_write_def dest: ops_txns split: prod.splits)
  then show "insert_write X t key val c u = (e, u') \<Longrightarrow> same_txns u u'"
    by (auto simp: same_txns_def insert_write_def dest: ops_txns split: option.splits prod.splits)
  show "select_disk X sel t key u = (r, u') \<Longrightarrow> same_txns u u'"
    by (auto simp: same_txns_def select_disk_def dest: ops_txns split: option.splits prod.splits)
  show "same_txns u (unlock_all X t u)" "same_txns u (index_add i text u)"
    by (simp_all add: same_txns_def unlock_all_def index_add_def split: option.splits)
qed

lemma cache_commit_txns:
  "activeTxns (uDB (snd (cache_commit X txID ws u))) = activeTxns (uDB u)"
  "activeTx (uCache (snd (cache_commit X txID ws u))) = (activeTx (uCache u))(txID := None)"
  by (auto simp: cache_commit_def ValidateAndCommit_def Let_def split: prod.splits if_splits)

lemma update_loop_txns: "update_loop X v t ids u = (b, u') \<Longrightarrow> same_txns u u'"
proof (induction ids arbitrary: u)
  case (Cons i ids)
  obtain g u1 where l: "lock_key_for t (doc_key i) LockExclusive u = (g, u1)" by fastforce
  obtain e u2 where w: "page0_write X t (bytes_of (doc_key i)) (bytes_of v) (IntParam 0) u1 = (e, u2)" by fastforce
  have "same_txns u u1" "same_txns u (index_add i v u2)"
    using step_same_txns(1) [OF l] step_same_txns(2) [OF w] step_same_txns(6) same_txns_trans by blast+
  with Cons l w show ?case by (cases g) (auto intro: same_txns_trans)
qed (simp add: same_txns_def)

lemma delete_loop_txns: "delete_loop X t ids u = (b, u') \<Longrightarrow> same_txns u u'"
proof (induction ids arbitrary: u)
  case (Cons i ids)
  obtain g u1 where l: "lock_key_for t (doc_key i) LockExclusive u = (g, u1)" by fastforce
  obtain e u2 where w: "page0_write X t (bytes_of (doc_key i)) [] (DurationParam 1) u1 = (e, u2)" by fastforce
  have "same_txns u u1" "same_txns u u2"
    using step_same_txns(1) [OF l] step_same_txns(2) [OF w] same_txns_trans by blast+
  with Cons l w show ?case by (cases g) (auto intro: same_txns_trans)
qed (simp add: same_txns_def)

lemma select_loop_txns:
  "select_loop X sel txID t ids res u = (r, u') \<Longrightarrow>
     activeTxns (uDB u') = activeTxns (uDB u) \<and> (\<forall>j. j \<noteq> txID \<longrightarrow> activeTx (uCache u') j = activeTx (uCache u) j)"
proof (induction ids arbitrary: res u)
  case (Cons i ids)
  show ?case
  proof (cases "Cache_Read (uCommit X) txID (bytes_of (doc_key i)) (uCache u)")
    case (Inr v)
    with Cons show ?thesis by (auto simp: Let_def split: if_splits)
  next
    case (Inl e)
    obtain g u1 where l: "lock_key_for t (doc_key i) LockShared u = (g, u1)" by fastforce
    obtain d u2 where d: "select_disk X sel t (bytes_of (doc_key i)) u1 = (d, u2)" by fastforce
    have s1: "same_txns u u1" and s2: "same_txns u u2"
      using step_same_txns(1) [OF l] step_same_txns(4) [OF d] same_txns_trans by blast+
    show ?thesis
    proof (cases "g \<and> (\<exists>val. d = Inr val)")
      case True
      then obtain val where val: "d = Inr val" by blast
      let ?u3 = "snd (cache_commit X txID [(bytes_of (doc_key i), Some val)] u2)"
      have "activeTxns (uDB ?u3) = activeTxns (uDB u)" "\<And>j. j \<noteq> txID \<Longrightarrow> activeTx (uCache ?u3) j = activeTx (uCache u) j"
        using s2 by (simp_all add: cache_commit_txns same_txns_def)
      with Cons.IH [of _ ?u3] Cons.prems Inl l d True val show ?thesis
        by (auto simp: Let_def split: if_splits)
    next
      case False
      with Cons.IH [of _ u2] Cons.prems Inl l d s1 s2 show ?thesis
        by (cases g; cases d) (auto simp: same_txns_def split: if_splits)
    qed
  qed
qed simp

lemma txn_steps:
  assumes "txn_begin u = (t, u1)"
  shows "bp (uDB u1) = bp (uDB u)" and "uCache u1 = uCache u" and "uLocks u1 = uLocks u" and "uIndex u1 = uIndex u"
    and "t = nextTxnID (uDB u) + 1" and "nextTxnID (uDB u1) = t" and "activeTxns (uDB u1) = insert t (activeTxns (uDB u))"
  using assms by (auto simp: txn_begin_def BeginTxn_def note_active_def Let_def split: prod.splits)

lemma txn_commit_steps [simp]:
  "bp (uDB (txn_commit t u)) = bp (uDB u)" "nextTxnID (uDB (txn_commit t u)) = nextTxnID (uDB u)"
  "activeTxns (uDB (txn_commit t u)) = activeTxns (uDB u) - {t}" "uCache (txn_commit t u) = uCache u"
  by (simp_all add: txn_commit_def CommitTxn_def note_active_def)

lemma cache_begin_steps:
  assumes "cache_begin X u = (txID, u1)"
  shows "uDB u1 = uDB u" and "txID = txIdGen (uCache u) + 1"
    and "activeTx (uCache u1) = (activeTx (uCache u))(txID \<mapsto> word_of_int (uBegin X))"
  using assms by (auto simp: cache_begin_def BeginOCC_def Let_def split: prod.splits)

text \<open>
  The bracket of a statement: a cache transaction and a page transaction are opened, the body
  keeps the other transactions, both are closed.
\<close>

definition closed :: "('d, 'e) uql \<Rightarrow> ('d, 'e) uql \<Rightarrow> bool" where
  "closed u u' \<longleftrightarrow> activeTxns (uDB u') = activeTxns (uDB u) \<and> activeTx (uCache u') = activeTx (uCache u)"

lemma write_bracket:
  assumes "cache_begin X u = (txID, u1)" and "cache_commit X txID ws u1 = (e, u2)"
    and "activeTx (uCache u) (txIdGen (uCache u) + 1) = None"
  shows "closed u u2"
    and "nextTxnID (uDB u) + 1 \<notin> activeTxns (uDB u) \<Longrightarrow> txn_begin u2 = (t, u3) \<Longrightarrow> same_txns u3 u4 \<Longrightarrow>
      closed u (unlock_all X t (txn_commit t u4))"
proof -
  have db: "uDB u2 = uDB u" using assms(1,2) cache_begin_steps(1) by (fastforce simp: cache_commit_def split: prod.splits)
  show c2: "closed u u2"
    using cache_begin_steps [OF assms(1)] cache_commit_txns [of X txID ws u1] assms(2,3)
    by (auto simp: closed_def)
  show "closed u (unlock_all X t (txn_commit t u4))"
    if "nextTxnID (uDB u) + 1 \<notin> activeTxns (uDB u)" "txn_begin u2 = (t, u3)" "same_txns u3 u4"
    using step_same_txns(5) [of "txn_commit t u4" X t] txn_steps [OF that(2)] that db c2
    by (simp add: closed_def same_txns_def)
qed

lemma HSet_Execute_closed:
  assumes "HSet_Execute X h f v u = (r, u')" and "r \<noteq> Inl error.Blocked"
    and fresh: "nextTxnID (uDB u) + 1 \<notin> activeTxns (uDB u)" "activeTx (uCache u) (txIdGen (uCache u) + 1) = None"
  shows "closed u u'"
proof -
  let ?k = "''H:'' @ h @ '':'' @ f"
  obtain txID u1 where 1: "cache_begin X u = (txID, u1)" by fastforce
  obtain e u2 where 2: "cache_commit X txID [(bytes_of ?k, Some (bytes_of v))] u1 = (e, u2)" by fastforce
  obtain t u3 where 3: "txn_begin u2 = (t, u3)" by fastforce
  obtain g u4 where 4: "lock_key_for t ?k LockExclusive u3 = (g, u4)" by fastforce
  obtain e5 db where 5: "HSet (uEnv X) (uRun X) 0 t (bytes_of h) (bytes_of f) (bytes_of v) 0 (uDB u4) = (e5, db)" by fastforce
  note B = write_bracket [OF 1 2 fresh(2)]
  have "same_txns u3 (u4\<lparr>uDB := db\<rparr>)"
    using step_same_txns(1) [OF 4] ops_txns(5) [OF 5] by (simp add: same_txns_def)
  with B(2) [OF fresh(1) 3] B(1) assms(1,2) 1 2 3 4 5 show ?thesis
    by (auto simp: HSet_Execute_def Let_def split: option.splits bool.splits)
qed

lemma Insert_Execute_closed:
  assumes "Insert_Execute X d v c u = (r, u')" and "r \<noteq> Inl error.Blocked"
    and fresh: "nextTxnID (uDB u) + 1 \<notin> activeTxns (uDB u)" "activeTx (uCache u) (txIdGen (uCache u) + 1) = None"
  shows "closed u u'"
proof -
  obtain txID u1 where 1: "cache_begin X u = (txID, u1)" by fastforce
  obtain e u2 where 2: "cache_commit X txID [(bytes_of (dec d), Some (bytes_of v))] u1 = (e, u2)" by fastforce
  obtain t u3 where 3: "txn_begin u2 = (t, u3)" by fastforce
  obtain g u4 where 4: "lock_key_for t (dec d) LockExclusive u3 = (g, u4)" by fastforce
  obtain e5 u5 where 5: "insert_write X t (bytes_of (dec d)) (bytes_of v) c u4 = (e5, u5)" by fastforce
  note B = write_bracket [OF 1 2 fresh(2)]
  have "same_txns u3 u5" using step_same_txns(1) [OF 4] step_same_txns(3) [OF 5] by (rule same_txns_trans)
  then have c: "closed u (unlock_all X t (txn_commit t u5))" by (rule B(2) [OF fresh(1) 3])
  have "closed u (index_add i w (unlock_all X t (txn_commit t u5)))" for i w
    using c step_same_txns(6) [of "unlock_all X t (txn_commit t u5)" i w] by (simp add: closed_def same_txns_def)
  with c B(1) assms(1,2) 1 2 3 4 5 show ?thesis
    by (auto simp: Insert_Execute_def Let_def split: option.splits bool.splits)
qed

lemma finish_mutation_closed:
  assumes "cache_begin X u = (txID, u1)" and "txn_begin u1 = (t, u2)" and "same_txns u2 u3"
    and "finish_mutation X txID t ws msg u3 = (r, u')"
    and fresh: "nextTxnID (uDB u) + 1 \<notin> activeTxns (uDB u)" "activeTx (uCache u) (txIdGen (uCache u) + 1) = None"
  shows "closed u u'"
proof -
  note C = cache_begin_steps [OF assms(1)]
  note T = txn_steps [OF assms(2)]
  obtain e u4 where 4: "cache_commit X txID ws u3 = (e, u4)" by fastforce
  have u': "u' = unlock_all X t (txn_commit t u4)"
    using assms(4) 4 by (auto simp: finish_mutation_def Let_def split: option.splits)
  have "activeTxns (uDB u4) = insert t (activeTxns (uDB u))" "activeTx (uCache u4) = activeTx (uCache u)"
    using cache_commit_txns [of X txID ws u3] 4 assms(3) C T(2,7) fresh(2) by (auto simp: same_txns_def)
  then show ?thesis
    using step_same_txns(5) [of "txn_commit t u4" X t] fresh(1) T(5) C(1) by (simp add: closed_def same_txns_def u')
qed

lemma mutation_closed:
  assumes fresh: "nextTxnID (uDB u) + 1 \<notin> activeTxns (uDB u)" "activeTx (uCache u) (txIdGen (uCache u) + 1) = None"
  shows "Update_Execute X q v u = (r, u') \<Longrightarrow> r \<noteq> Inl error.Blocked \<Longrightarrow> closed u u'"
    and "Delete_Execute X q u = (r, u') \<Longrightarrow> r \<noteq> Inl error.Blocked \<Longrightarrow> closed u u'"
proof -
  obtain txID u1 where 1: "cache_begin X u = (txID, u1)" by fastforce
  obtain t u2 where 2: "txn_begin u1 = (t, u2)" by fastforce
  note F = finish_mutation_closed [OF 1 2 _ _ fresh]
  have refl: "closed u u" by (simp add: closed_def)
  show "closed u u'" if "Update_Execute X q v u = (r, u')" "r \<noteq> Inl error.Blocked"
    using that 1 2 F update_loop_txns refl
    by (fastforce simp: Update_Execute_def Let_def split: sum.splits prod.splits bool.splits)
  show "closed u u'" if "Delete_Execute X q u = (r, u')" "r \<noteq> Inl error.Blocked"
    using that 1 2 F delete_loop_txns refl
    by (fastforce simp: Delete_Execute_def Let_def split: sum.splits prod.splits bool.splits)
qed

lemma select_loop_grows: "select_loop X sel txID t ids res u = (Inr rs, u') \<Longrightarrow> length res \<le> length rs"
proof (induction ids arbitrary: res u)
  case (Cons i ids)
  then show ?case
    by (auto simp: Let_def split: sum.splits prod.splits bool.splits if_splits) (force dest: Cons.IH)+
qed simp

lemma select_loop_none:
  "select_loop X sel txID t ids [] u = (Inr [], u') \<Longrightarrow> uCache u' = uCache u"
proof (induction ids arbitrary: u)
  case (Cons i ids)
  show ?case
  proof (cases "Cache_Read (uCommit X) txID (bytes_of (doc_key i)) (uCache u)")
    case (Inr v)
    with Cons.prems select_loop_grows [of X sel txID t ids] show ?thesis
      by (fastforce simp: Let_def split: if_splits)
  next
    case (Inl e)
    obtain g u1 where l: "lock_key_for t (doc_key i) LockShared u = (g, u1)" by fastforce
    obtain d u2 where d: "select_disk X sel t (bytes_of (doc_key i)) u1 = (d, u2)" by fastforce
    have s: "same_txns u u2" using step_same_txns(1) [OF l] step_same_txns(4) [OF d] by (rule same_txns_trans)
    show ?thesis
    proof (cases d)
      case (Inr val)
      with Cons.prems Inl l d select_loop_grows [of X sel txID t ids] show ?thesis
        by (fastforce simp: Let_def split: if_splits bool.splits)
    next
      case (Inl e')
      with Cons.prems \<open>Cache_Read _ _ _ _ = Inl e\<close> l d s Cons.IH [of u2] show ?thesis
        by (auto simp: same_txns_def split: if_splits bool.splits)
    qed
  qed
qed simp

text \<open>The documents of a SELECT that its window finds in the cache.\<close>

definition cached :: "('d, 'e) uql_env \<Rightarrow> 64 word \<Rightarrow> mvcc_store \<Rightarrow> 64 word \<Rightarrow> bool" where
  "cached X txID c i \<longleftrightarrow> (\<exists>v. Cache_Read (uCommit X) txID (bytes_of (doc_key i)) c = Inr v)"

text \<open>What a SELECT over the documents \<open>ids\<close> that returns \<open>rs\<close> does with its own window.\<close>

definition select_window :: "('d, 'e) uql_env \<Rightarrow> 64 word list \<Rightarrow> rows \<Rightarrow> mvcc_store \<Rightarrow> mvcc_store \<Rightarrow> bool" where
  "select_window X ids rs c c' \<longleftrightarrow>
     (let txID = txIdGen c + 1; hits = filter (cached X txID (snd (BeginOCC (uBegin X) c))) ids
      in (rs = [] \<or> set ids \<subseteq> set hits \<longrightarrow> activeTx c' txID = Some (word_of_int (uBegin X)))
         \<and> (length hits < length rs \<longrightarrow> activeTx c' txID = None))"

lemma select_loop_all_cached:
  "\<forall>i\<in>set ids. cached X txID (uCache u) i \<Longrightarrow> select_loop X sel txID t ids res u = (r, u') \<Longrightarrow> uCache u' = uCache u"
  by (induction ids arbitrary: res) (auto simp: cached_def Let_def split: if_splits)

lemma select_loop_closed:
  "activeTx (uCache u) txID = None \<Longrightarrow> select_loop X sel txID t ids res u = (r, u') \<Longrightarrow> activeTx (uCache u') txID = None"
proof (induction ids arbitrary: res u)
  case (Cons i ids)
  obtain g u1 where l: "lock_key_for t (doc_key i) LockShared u = (g, u1)" by fastforce
  obtain d u2 where d: "select_disk X sel t (bytes_of (doc_key i)) u1 = (d, u2)" by fastforce
  have "uCache u1 = uCache u" "uCache u2 = uCache u" using step_same_txns(1) [OF l] step_same_txns(4) [OF d] by (simp_all add: same_txns_def)
  moreover have "Cache_Read (uCommit X) txID (bytes_of (doc_key i)) (uCache u) = Inl ErrTxnWindow"
    using Cons.prems(1) by (simp add: Cache_Read_def)
  ultimately show ?case using Cons.prems l d Cons.IH [of u2] Cons.IH [of "snd (cache_commit X txID ws u2)" for ws]
    by (auto simp: Let_def cache_commit_txns split: if_splits bool.splits sum.splits)
qed simp

lemma select_loop_window:
  "select_loop X sel txID t ids res u = (Inr rs, u') \<Longrightarrow>
     length rs \<le> length res + length (filter (cached X txID (uCache u)) ids) \<or> activeTx (uCache u') txID = None"
proof (induction ids arbitrary: res u)
  case (Cons i ids)
  show ?case
  proof (cases "Cache_Read (uCommit X) txID (bytes_of (doc_key i)) (uCache u)")
    case (Inr v)
    let ?res = "res @ [joined sel (case v of None \<Rightarrow> [] | Some b \<Rightarrow> b)]"
    have "cached X txID (uCache u) i" using Inr by (simp add: cached_def)
    then show ?thesis using Cons.prems Cons.IH [of ?res u] Inr by (auto simp: Let_def split: if_splits)
  next
    case (Inl e)
    obtain g u1 where l: "lock_key_for t (doc_key i) LockShared u = (g, u1)" by fastforce
    obtain d u2 where d: "select_disk X sel t (bytes_of (doc_key i)) u1 = (d, u2)" by fastforce
    have same: "uCache u2 = uCache u" using step_same_txns(1) [OF l] step_same_txns(4) [OF d] by (simp add: same_txns_def)
    have shut: "activeTx (uCache (snd (cache_commit X txID ws u2))) txID = None" for ws by (simp add: cache_commit_txns)
    show ?thesis
    proof (cases d)
      case (Inr val)
      with Cons.prems Inl l d shut select_loop_closed [OF shut, of X sel t ids] show ?thesis
        by (auto simp: Let_def split: if_splits bool.splits)
    next
      case (Inl e')
      with Cons.prems \<open>Cache_Read _ _ _ _ = Inl e\<close> l d Cons.IH [of res u2] show ?thesis
        by (auto simp: cached_def same split: if_splits bool.splits)
    qed
  qed
qed simp

lemma Select_Execute_txns:
  assumes "Select_Execute X sel u = (r, u')" and "r \<noteq> Inl error.Blocked"
    and fresh: "nextTxnID (uDB u) + 1 \<notin> activeTxns (uDB u)"
  shows "activeTxns (uDB u') = activeTxns (uDB u)
    \<and> (\<forall>j. j \<noteq> txIdGen (uCache u) + 1 \<longrightarrow> activeTx (uCache u') j = activeTx (uCache u) j)
    \<and> (\<forall>bm rs. Execute (uSearcher X) (selFilter sel) = Inr bm \<and> r = Inr rs \<longrightarrow>
         select_window X (Roaring_ToArray bm) rs (uCache u) (uCache u'))"
proof (cases "Execute (uSearcher X) (selFilter sel)")
  case (Inl e)
  with assms(1) show ?thesis by (auto simp: Select_Execute_def)
next
  case (Inr bm)
  obtain txID u1 where 1: "cache_begin X u = (txID, u1)" by fastforce
  obtain t u2 where 2: "txn_begin u1 = (t, u2)" by fastforce
  obtain r3 u3 where 3: "select_loop X sel txID t (Roaring_ToArray bm) [] u2 = (r3, u3)" by fastforce
  note C = cache_begin_steps [OF 1]
  note T = txn_steps [OF 2]
  note L = select_loop_txns [OF 3]
  show ?thesis
  proof (cases r3)
    case (Inl e)
    then have "r = Inl e" using assms(1) Inr 1 2 3 by (simp add: Select_Execute_def)
    moreover have "select_loop X sel txID t ids res w = (Inl e, w') \<Longrightarrow> e = error.Blocked" for ids res w w'
      by (induction ids arbitrary: res w) (auto simp: Let_def split: sum.splits prod.splits bool.splits if_splits)
    ultimately show ?thesis using assms(2) 3 Inl by blast
  next
    case (Inr rs)
    then have r: "r = Inr rs" and u': "u' = txn_commit t (unlock_all X t u3)"
      using assms(1) \<open>Execute (uSearcher X) (selFilter sel) = Inr bm\<close> 1 2 3 by (simp_all add: Select_Execute_def)
    have same: "same_txns u3 (unlock_all X t u3)" by (rule step_same_txns(5))
    let ?ids = "Roaring_ToArray bm"
    have c1: "uCache u2 = snd (BeginOCC (uBegin X) (uCache u))" using 1 T(2) by (auto simp: cache_begin_def split: prod.splits)
    have "uCache u3 = uCache u2" if "rs = []" using 3 Inr select_loop_none that by blast
    moreover have "uCache u3 = uCache u2" if "set ?ids \<subseteq> set (filter (cached X txID (uCache u2)) ?ids)"
      by (rule select_loop_all_cached [OF _ 3]) (use that in auto)
    ultimately have keeps: "rs = [] \<or> set ?ids \<subseteq> set (filter (cached X txID (uCache u2)) ?ids) \<Longrightarrow> uCache u3 = uCache u2" by blast
    have open2: "activeTx (uCache u2) txID = Some (word_of_int (uBegin X))" by (simp add: T(2) C(3))
    have "select_window X ?ids rs (uCache u) (uCache u3)"
      unfolding select_window_def Let_def c1 [symmetric] C(2) [symmetric]
      by (intro conjI impI) (simp only: keeps open2, use select_loop_window [OF 3 [unfolded Inr]] in simp)
    then have "select_window X ?ids rs (uCache u) (uCache u')" using same by (simp add: u' same_txns_def)
    moreover from same L C T fresh have "activeTxns (uDB u') = activeTxns (uDB u)
        \<and> (\<forall>j. j \<noteq> txIdGen (uCache u) + 1 \<longrightarrow> activeTx (uCache u') j = activeTx (uCache u) j)"
      by (auto simp: u' same_txns_def)
    ultimately show ?thesis using r \<open>Execute (uSearcher X) (selFilter sel) = Inr bm\<close> by auto
  qed
qed

section \<open>Properties\<close>

text \<open>C17: Which transactions a statement other than RECOVER leaves open, when it was not left waiting for
  a lock. On success and on every error path the page store has the same active transactions
  as before; after an HSET, INSERT, UPDATE or DELETE, and after CHECKPOINT and METRICS, the cache
  has the same open windows too. A SELECT leaves all other windows alone. Its own window is closed
  when it returns more rows than its documents have in the cache, so that a row was read from a
  page, and it stays open for good when the SELECT returns no rows and when all its documents
  are in the cache.\<close>

theorem statement_closes_transactions:
  assumes "Statement_Execute X stmt u = (r, u')" and "r \<noteq> Inl error.Blocked" and "stmt \<noteq> RecoverStatement"
    and "nextTxnID (uDB u) + 1 \<notin> activeTxns (uDB u)" and "activeTx (uCache u) (txIdGen (uCache u) + 1) = None"
  shows "activeTxns (uDB u') = activeTxns (uDB u)
    \<and> (case stmt of
         SelectStatement sel \<Rightarrow>
           (\<forall>j. j \<noteq> txIdGen (uCache u) + 1 \<longrightarrow> activeTx (uCache u') j = activeTx (uCache u) j)
           \<and> (\<forall>bm rs. Execute (uSearcher X) (selFilter sel) = Inr bm \<and> r = Inr rs \<longrightarrow>
                select_window X (Roaring_ToArray bm) rs (uCache u) (uCache u'))
       | _ \<Rightarrow> activeTx (uCache u') = activeTx (uCache u))"
proof (cases stmt)
  case (SelectStatement sel)
  then have "Select_Execute X sel u = (r, u')" using assms(1) by simp
  from Select_Execute_txns [OF this assms(2,4)] SelectStatement show ?thesis by simp
next
  case CheckpointStatement
  with assms(1) show ?thesis by (auto simp: Checkpoint_Execute_def)
next
  case MetricsStatement
  with assms(1) show ?thesis by (auto simp: Metrics_Execute_def split: option.splits)
next
  case (HSetStatement h f v)
  with HSet_Execute_closed [OF _ assms(2,4,5), of X h f v u'] assms(1) show ?thesis by (simp add: closed_def)
next
  case (InsertStatement i v c)
  with Insert_Execute_closed [OF _ assms(2,4,5), of X i v c u'] assms(1) show ?thesis by (simp add: closed_def)
next
  case (UpdateStatement q v)
  with mutation_closed(1) [OF assms(4,5), of X q v r u'] assms(1,2) show ?thesis by (simp add: closed_def)
next
  case (DeleteStatement q)
  with mutation_closed(2) [OF assms(4,5), of X q r u'] assms(1,2) show ?thesis by (simp add: closed_def)
qed (use assms(3) in simp)

text \<open>An engine without data, over an empty index segment.\<close>

definition demo_env :: "(bytes, lru) uql_env" where
  "demo_env = \<lparr>uEnv = mem_env 8, uRun = run0, uBegin = 10, uCommit = 20, uSearcher = \<lparr>Data = fst (MemIndex_WriteSegment NewMemIndex)\<rparr>, uCodec = None,
     uLockOrder = (\<lambda>_ _. []), uReport = (\<lambda>_. []), uWalFile = None, uUndoOrder = (\<lambda>l. l), uFuel = 0\<rparr>"

definition demo_state :: "(bytes, lru) uql" where
  "demo_state = \<lparr>uCache = NewMVCCCacheStore, uDB = mem_db, uIndex = None, uLocks = None, uWal = NewBatchingWAL []\<rparr>"

definition demo_select :: select_stmt where
  "demo_select = \<lparr>selFilter = TermQuery ''go'', selLimit = 100, selCompressed = False,
     selJoinTable = [], selJoinLeft = [], selJoinRight = []\<rparr>"

theorem statement_closes_transactions_witness:
  "\<exists>u'. Statement_Execute demo_env (SelectStatement demo_select) demo_state = (Inr [], u')
     \<and> activeTxns (uDB u') = {} \<and> activeTx (uCache u') 1 = Some 10"
proof -
  have "length (fst (MemIndex_WriteSegment NewMemIndex)) < 100" by code_simp
  then have "FetchPostings (uSearcher demo_env) ''go'' = Inr []"
    using FetchPostings_WriteSegment [of NewMemIndex "''go''"]
    by (simp add: demo_env_def index_fits_def NewMemIndex_def postings_at_def)
  then have "Execute (uSearcher demo_env) (selFilter demo_select) = Inr NewRoaringBitmap"
    by (simp add: demo_select_def Term_Execute_def)
  moreover have "Roaring_ToArray NewRoaringBitmap = []" by code_simp
  moreover note ex = calculation
  ultimately obtain u' where u': "Statement_Execute demo_env (SelectStatement demo_select) demo_state = (Inr [], u')"
    by (cases "cache_begin demo_env demo_state"; cases "txn_begin (snd (cache_begin demo_env demo_state))")
      (simp add: Select_Execute_def)
  have "nextTxnID (uDB demo_state) + 1 \<notin> activeTxns (uDB demo_state)" "activeTxns (uDB demo_state) = {}"
      "txIdGen (uCache demo_state) = 0" "activeTx (uCache demo_state) = Map.empty" "uBegin demo_env = 10"
    by (simp_all add: demo_state_def demo_env_def mem_db_def NewDB_def NewMVCCCacheStore_def)
  with statement_closes_transactions [OF u'] u' ex show ?thesis by (auto simp: select_window_def Let_def)
qed

end
