(* ===== verification/Orm.thy ===== *)
theory Orm
  imports UQLExec
begin

text \<open>
  The object mapper of \<open>orm.go\<close>. What reflection and \<open>encoding/json\<close> report about a model
  value is an argument: whether it is a struct, the name of its type, its field \<open>ID\<close> and its
  JSON text. \<open>Insert\<close> prints a statement, parses it again and executes it without lock
  manager and codec; the other operations call the page store directly.
\<close>

text \<open>\<open>mdID\<close> is \<open>None\<close> without a field \<open>ID\<close> and \<open>Some None\<close> when the field is no \<open>uint64\<close>.\<close>

record model_value =
  mdStruct :: bool
  mdTypeName :: string
  mdID :: "64 word option option"
  mdJSON :: "string result"

definition parseModel :: "model_value \<Rightarrow> (64 word \<times> string \<times> string) result" where
  "parseModel m =
     (if \<not> mdStruct m then Inl ErrModel
      else case mdID m of
             None \<Rightarrow> Inl ErrModel
           | Some None \<Rightarrow> Inl ErrModel
           | Some (Some i) \<Rightarrow>
               (case mdJSON m of
                  Inl e \<Rightarrow> Inl e
                | Inr payload \<Rightarrow> Inr (i, ToLower (mdTypeName m) @ ''s'', payload)))"

definition escape_quotes :: "string \<Rightarrow> string" where
  "escape_quotes s = ReplaceAll (CHR 0x27) [CHR 0x27, CHR 0x27] s"

definition orm_execute :: "('d, 'e) uql_env \<Rightarrow> statement \<Rightarrow> ('d, 'e) uql \<Rightarrow> rows result \<times> ('d, 'e) uql" where
  "orm_execute X stmt u =
     (case Statement_Execute (X\<lparr>uCodec := None\<rparr>) stmt (u\<lparr>uLocks := None\<rparr>) of
        (r, u') \<Rightarrow> (r, u'\<lparr>uLocks := uLocks u\<rparr>))"

definition ORM_Insert :: "('d, 'e) uql_env \<Rightarrow> model_value \<Rightarrow> ('d, 'e) uql \<Rightarrow> error option \<times> ('d, 'e) uql" where
  "ORM_Insert X m u =
     (case parseModel m of
        Inl e \<Rightarrow> (Some e, u)
      | Inr (i, tableName, payload) \<Rightarrow>
          (case ParseUQL (insert_text tableName (unat i) (escape_quotes payload)) of
             Inl e \<Rightarrow> (Some e, u)
           | Inr stmt \<Rightarrow>
               (case orm_execute X stmt u of
                  (Inl e, u') \<Rightarrow> (Some e, u')
                | (Inr _, u') \<Rightarrow> (None, u'))))"

text \<open>\<open>json.Unmarshal\<close> into the destination is the parameter \<open>unmarshal\<close>.\<close>

definition ORM_Find ::
  "('d, 'e) uql_env \<Rightarrow> (bytes \<Rightarrow> 'a result) \<Rightarrow> bool \<Rightarrow> 64 word \<Rightarrow> ('d, 'e) uql \<Rightarrow> 'a result \<times> ('d, 'e) uql" where
  "ORM_Find X unmarshal isStructPtr i u =
     (if \<not> isStructPtr then (Inl ErrModel, u)
      else case txn_begin u of (txn, u1) \<Rightarrow>
           (case Read (uEnv X) (uRun X) 0 txn (bytes_of (doc_key i)) (uDB u1) of
              (r, db) \<Rightarrow>
                (case r of Inl e \<Rightarrow> Inl e | Inr rawBytes \<Rightarrow> unmarshal rawBytes,
                 txn_commit txn (u1\<lparr>uDB := db\<rparr>))))"

definition ORM_Update :: "('d, 'e) uql_env \<Rightarrow> model_value \<Rightarrow> ('d, 'e) uql \<Rightarrow> error option \<times> ('d, 'e) uql" where
  "ORM_Update X m u =
     (case parseModel m of
        Inl e \<Rightarrow> (Some e, u)
      | Inr (i, _, payload) \<Rightarrow>
          (case txn_begin u of (txn, u1) \<Rightarrow>
           (case page0_write X txn (bytes_of (doc_key i)) (bytes_of payload) (IntParam 0) u1 of
              (e, u2) \<Rightarrow>
                let u3 = txn_commit txn u2
                in (e, if e = None then index_add i payload u3 else u3))))"

definition ORM_Delete :: "('d, 'e) uql_env \<Rightarrow> model_value \<Rightarrow> ('d, 'e) uql \<Rightarrow> error option \<times> ('d, 'e) uql" where
  "ORM_Delete X m u =
     (case parseModel m of
        Inl e \<Rightarrow> (Some e, u)
      | Inr (i, _, _) \<Rightarrow>
          (case txn_begin u of (txn, u1) \<Rightarrow>
           (case page0_write X txn (bytes_of (doc_key i)) [] (DurationParam 1) u1 of
              (e, u2) \<Rightarrow> (e, txn_commit txn u2))))"

section \<open>Quoting\<close>

lemma escaped_literal:
  assumes "NUL \<notin> set s"
  shows "takeWhile string_char (escape_quotes s @ CHR 0x27 # r) = takeWhile (\<lambda>c. c \<noteq> CHR 0x27) s"
  using assms by (induction s) (auto simp: escape_quotes_def ReplaceAll_def string_char_def)

section \<open>A committed write is found by later readers\<close>

lemma page_bp: "bp db = bp db' \<Longrightarrow> db_inv st ei tr db = db_inv st ei tr db' \<and> page_records st db i rs = page_records st db' i rs"
  by (simp add: db_inv_def page_records_def)

text \<open>
  The state after a transaction wrote a record of page 0 and committed: the record is the last of
  the page and its writer is no longer active.
\<close>

definition wrote :: "('d \<Rightarrow> nat \<Rightarrow> byte) \<Rightarrow> ('e \<Rightarrow> bool) \<Rightarrow> ('e \<Rightarrow> PageID set) \<Rightarrow> ('d, 'e) uql_env \<Rightarrow> bytes \<Rightarrow> bytes \<Rightarrow> mix_param \<Rightarrow> ('d, 'e) uql \<Rightarrow> bool" where
  "wrote st einv tracked X key val mp u \<longleftrightarrow>
     (\<exists>rs t. db_inv st einv tracked (uDB u) \<and> page_records st (uDB u) 0 (rs @ [new_record (uRun X) t key val mp])
        \<and> t = nextTxnID (uDB u) \<and> t \<notin> activeTxns (uDB u))"

lemma committed_write:
  assumes pool: "buffer_pool (uEnv X) st dsize einv tracked" and db: "db_inv st einv tracked (uDB u)"
    and rep: "page_records st (uDB u) 0 rs" and small: "24 + length key + length val < 2 ^ 31"
    and perm: "mset (cperm (uRun X) (survivors (clock (uRun X)) rs)) = mset (survivors (clock (uRun X)) rs)"
    and begun: "txn_begin u = (t, u1)" and w: "page0_write X t key val mp u1 = (None, u2)"
  shows "wrote st einv tracked X key val mp (txn_commit t u2)"
proof -
  note B = txn_steps [OF begun]
  have db1: "db_inv st einv tracked (uDB u1)" "page_records st (uDB u1) 0 rs"
    using page_bp [OF B(1)] db rep by blast+
  have w': "Write (uEnv X) (uRun X) 0 t key val mp (uDB u1) = (None, uDB u2)"
    using w by (auto simp: page0_write_def split: prod.splits)
  have b: "unat (0 :: PageID) < 2 ^ 48" by simp
  note W = buffer_pool.Write_contract [OF pool db1(1) b db1(2) small perm w']
  obtain rs' where rs': "page_records st (uDB u2) 0 (rs' @ [new_record (uRun X) t key val mp])" using W by auto
  have "db_inv st einv tracked (uDB u2)" "nextTxnID (uDB u2) = t"
    using W B(6) by (simp_all add: frame_but_def)
  with rs' show ?thesis
    unfolding wrote_def by (auto simp: db_inv_def page_records_def)
qed

lemma find_written:
  assumes pool: "buffer_pool (uEnv X') st dsize einv tracked"
    and wr: "wrote st einv tracked X (bytes_of (doc_key i)) val mp u"
    and alive: "clock (uRun X') < sint (expiry (clock (uRun X)) mp)"
    and fetch: "FetchPage (uEnv X') 0 (bp (uDB u)) = (Inr idx, p)"
  shows "fst (ORM_Find X' unmarshal True i u) = unmarshal val"
proof -
  obtain rs t where W: "db_inv st einv tracked (uDB u)" "page_records st (uDB u) 0 (rs @ [new_record (uRun X) t (bytes_of (doc_key i)) val mp])"
      "t = nextTxnID (uDB u)" "t \<notin> activeTxns (uDB u)"
    using wr unfolding wrote_def by blast
  obtain t' u1 where begun: "txn_begin u = (t', u1)" by (cases "txn_begin u")
  note B = txn_steps [OF begun]
  have db1: "db_inv st einv tracked (uDB u1)" "page_records st (uDB u1) 0 (rs @ [new_record (uRun X) t (bytes_of (doc_key i)) val mp])"
    using page_bp [OF B(1)] W(1,2) by blast+
  obtain res db where rd: "Read (uEnv X') (uRun X') 0 t' (bytes_of (doc_key i)) (uDB u1) = (res, db)" by fastforce
  have "t \<notin> activeTxns (uDB u1)" using B(5,7) W(3,4) by simp
  then have "read_spec (activeTxns (uDB u1)) t' (bytes_of (doc_key i)) (clock (uRun X'))
      (rs @ [new_record (uRun X) t (bytes_of (doc_key i)) val mp]) = Some val"
    using alive by (simp add: read_spec_snoc visible_def isRecordVisible_def new_record_def)
  then have "res = Inr val"
    using buffer_pool.Read_contract [OF pool db1(1) _ db1(2) rd] fetch B(1) by simp
  then show ?thesis using rd begun by (simp add: ORM_Find_def)
qed

text \<open>What an accepted \<open>INSERT\<close> did to the page store.\<close>

lemma Insert_Execute_write:
  assumes "uLocks u = None" and "uCodec X = None" and "Insert_Execute X d val c u = (Inr rows, u')"
  shows "\<exists>u2 t u3 u4. uDB u2 = uDB u \<and> txn_begin u2 = (t, u3)
    \<and> page0_write X t (bytes_of (dec d)) (bytes_of val) (IntParam 0) u3 = (None, u4) \<and> uDB u' = uDB (txn_commit t u4)"
proof -
  obtain txID u1 where 1: "cache_begin X u = (txID, u1)" by (cases "cache_begin X u")
  obtain e u2 where 2: "cache_commit X txID [(bytes_of (dec d), Some (bytes_of val))] u1 = (e, u2)" by fastforce
  obtain t u3 where 3: "txn_begin u2 = (t, u3)" by (cases "txn_begin u2")
  obtain e4 u4 where 4: "page0_write X t (bytes_of (dec d)) (bytes_of val) (IntParam 0) u3 = (e4, u4)" by fastforce
  have same: "uDB u1 = uDB u" "uLocks u1 = None" "uDB u2 = uDB u1" "uLocks u2 = None"
    using 1 2 assms(1) by (auto simp: cache_begin_def cache_commit_def split: prod.splits)
  have locks: "uLocks u3 = None" "uLocks u4 = None"
    using txn_steps(3) [OF 3] same 4 by (auto simp: page0_write_def split: prod.splits)
  have nl: "uLocks (txn_commit t u4) = None" using locks by (simp add: txn_commit_def)
  have iw: "insert_write X t (bytes_of (dec d)) (bytes_of val) c u3 = (e4, u4)"
    using 4 assms(2) by (simp add: insert_write_def)
  have "e = None \<and> e4 = None \<and> uDB u' = uDB (txn_commit t u4)"
    using assms(3) 1 2 3 iw locks(1) nl
    by (auto simp: Insert_Execute_def Let_def lock_key_for_def unlock_all_def index_add_def split: option.splits)
  with 3 4 same show ?thesis by auto
qed

lemma length_dec: "n < 10 ^ Suc k \<Longrightarrow> length (dec n) \<le> Suc k"
proof (induction k arbitrary: n)
  case 0
  then show ?case by (simp add: dec.simps [of n])
next
  case (Suc k)
  then have "n div 10 < 10 ^ Suc k" by (simp add: less_mult_imp_div_less mult.commute)
  with Suc.IH show ?case by (simp add: dec.simps [of n])
qed

lemma length_doc_key: "length (bytes_of (doc_key i)) \<le> 20"
proof -
  have "unat i < 10 ^ Suc 19" using unsigned_less [of i, where ?'a = nat] by simp
  then show ?thesis using length_dec [of "unat i" 19] by (simp add: bytes_of_def doc_key_def)
qed

lemma table_word: "ident_word (ToLower n) \<Longrightarrow> ident_word (ToLower n @ ''s'')"
proof -
  have "ident_char (CHR ''s'')" by code_simp
  then show "ident_word (ToLower n) \<Longrightarrow> ident_word (ToLower n @ ''s'')" by (auto simp: ident_word_def)
qed

section \<open>Properties\<close>

text \<open>C18: An object that \<open>Insert\<close> accepted is found again by \<open>Find\<close> in a later transaction,
  through the printed statement, its parser, the page store and the buffer pool, but
  cut at the first quote of its JSON text: what is unmarshalled is the text before the
  first quote, because the doubled quotes of the printed statement end the literal for the
  lexer. The object comes back whole exactly when its text has no quote.\<close>

theorem orm_insert_find:
  assumes "buffer_pool (uEnv X) stored dsize einv tracked" and "buffer_pool (uEnv X') stored dsize einv tracked"
    and "db_inv stored einv tracked (uDB u)" and "page_records stored (uDB u) 0 rs"
    and "mset (cperm (uRun X) (survivors (clock (uRun X)) rs)) = mset (survivors (clock (uRun X)) rs)"
    and "mdStruct m" and "mdID m = Some (Some i)" and "mdJSON m = Inr payload" and "NUL \<notin> set payload"
    and "ident_word (ToLower (mdTypeName m))" and "length payload < 2 ^ 30"
    and "ORM_Insert X m u = (None, u1)"
    and "clock (uRun X') < sint (expiry (clock (uRun X)) (IntParam 0))"
    and "FetchPage (uEnv X') 0 (bp (uDB u1)) = (Inr idx, p)"
  shows "fst (ORM_Find X' unmarshal True i u1) = unmarshal (bytes_of (takeWhile (\<lambda>c. c \<noteq> CHR 0x27) payload))"
proof -
  let ?v = "takeWhile (\<lambda>c. c \<noteq> CHR 0x27) payload"
  let ?t = "ToLower (mdTypeName m) @ ''s''"
  let ?X = "X\<lparr>uCodec := None\<rparr>"
  have i: "unat i < 2 ^ 64" using unsigned_less [of i, where ?'a = nat] by simp
  have parse: "ParseUQL (insert_text ?t (unat i) (escape_quotes payload)) = Inr (InsertStatement (unat i) ?v False)"
    using ParseUQL_insert_text [OF table_word [OF assms(10)] i] escaped_literal [OF assms(9)] by simp
  have "parseModel m = Inr (i, ?t, payload)" using assms(6-8) by (simp add: parseModel_def)
  with assms(12) parse obtain rows u' where ex: "Insert_Execute ?X (unat i) ?v False (u\<lparr>uLocks := None\<rparr>) = (Inr rows, u')"
    and u1: "uDB u1 = uDB u'"
    by (auto simp: ORM_Insert_def orm_execute_def split: prod.splits sum.splits)
  obtain u2 t u3 u4 where steps: "uDB u2 = uDB u" "txn_begin u2 = (t, u3)"
      "page0_write ?X t (bytes_of (doc_key i)) (bytes_of ?v) (IntParam 0) u3 = (None, u4)" "uDB u' = uDB (txn_commit t u4)"
    using Insert_Execute_write [OF _ _ ex] by (auto simp: doc_key_def)
  have small: "24 + length (bytes_of (doc_key i)) + length (bytes_of ?v) < 2 ^ 31"
    using length_doc_key [of i] assms(11) length_takeWhile_le [of "\<lambda>c. c \<noteq> CHR 0x27" payload] by (simp add: bytes_of_def)
  have "wrote stored einv tracked ?X (bytes_of (doc_key i)) (bytes_of ?v) (IntParam 0) (txn_commit t u4)"
    by (rule committed_write [OF _ _ _ small _ steps(2,3)]) (use assms(1,3-5) steps(1) in simp_all)
  then have "wrote stored einv tracked X (bytes_of (doc_key i)) (bytes_of ?v) (IntParam 0) u1"
    using steps(4) u1 by (simp add: wrote_def)
  from find_written [OF assms(2) this assms(13,14)] show ?thesis .
qed

text \<open>An object whose text has a quote.\<close>

definition demo_model :: model_value where
  "demo_model = \<lparr>mdStruct = True, mdTypeName = ''User'', mdID = Some (Some 7), mdJSON = Inr (''it'' @ [CHR 0x27] @ ''s'')\<rparr>"

lemma demo_table: "ident_word (ToLower (mdTypeName demo_model))"
  by code_simp

lemma demo_insert:
  "\<exists>u1 p. ORM_Insert demo_env demo_model demo_state = (None, u1) \<and> FetchPage (mem_env 8) 0 (bp (uDB u1)) = (Inr 0, p)"
proof -
  let ?v = "bytes_of ''it''"
  let ?k = "bytes_of (dec 7)"
  have parse: "ParseUQL (insert_text (ToLower (mdTypeName demo_model) @ ''s'') 7 (escape_quotes (''it'' @ [CHR 0x27] @ ''s'')))
      = Inr (InsertStatement 7 ''it'' False)"
    using ParseUQL_insert_text [OF table_word [OF demo_table], of 7 "escape_quotes (''it'' @ [CHR 0x27] @ ''s'')"]
    by (simp add: escaped_literal)
  obtain txn db0 where b: "BeginTxn mem_db = (txn, db0)" "bp db0 = bp mem_db"
    by (simp add: BeginTxn_def note_active_def Let_def)
  have k: "24 + length ?k + length ?v < 1000"
    using length_doc_key [of 7] by (simp add: doc_key_def bytes_of_def)
  obtain dbw q where w0: "Write (mem_env 8) run0 0 txn ?k ?v (IntParam 0) mem_db = (None, dbw)"
    and q: "FetchPage (mem_env 8) 0 (bp dbw) = (Inr 0, q)"
    using write_cached [OF _ k, of 0 txn "IntParam 0"] by auto
  obtain e db1 where w1: "Write (mem_env 8) run0 0 txn ?k ?v (IntParam 0) db0 = (e, db1)" by fastforce
  have e: "e = None" "bp db1 = bp dbw"
    using Write_bp [OF b(2), of "mem_env 8" run0 0 txn ?k ?v "IntParam 0"] w0 w1 by simp_all
  have "\<exists>rows u'. Insert_Execute demo_env 7 ''it'' False demo_state = (Inr rows, u') \<and> bp (uDB u') = bp db1"
    using b(1) w1 e(1)
    by (simp add: Insert_Execute_def cache_begin_def cache_commit_def BeginOCC_def ValidateAndCommit_def write_conflict_def
        NewMVCCCacheStore_def demo_state_def demo_env_def txn_begin_def lock_key_for_def insert_write_def page0_write_def
        unlock_all_def txn_commit_def CommitTxn_def note_active_def index_add_def Let_def)
  moreover have "demo_env\<lparr>uCodec := None\<rparr> = demo_env" "demo_state\<lparr>uLocks := None\<rparr> = demo_state"
    by (simp_all add: demo_env_def demo_state_def)
  ultimately have "\<exists>u1. ORM_Insert demo_env demo_model demo_state = (None, u1) \<and> bp (uDB u1) = bp db1"
    using parse by (auto simp: ORM_Insert_def parseModel_def demo_model_def orm_execute_def)
  with q e(2) show ?thesis by auto
qed

theorem orm_insert_find_witness:
  "\<exists>u1. ORM_Insert demo_env demo_model demo_state = (None, u1)
     \<and> fst (ORM_Find demo_env Inr True 7 u1) = Inr (bytes_of ''it'')"
proof -
  obtain u1 p where ins: "ORM_Insert demo_env demo_model demo_state = (None, u1)"
    and f: "FetchPage (uEnv demo_env) 0 (bp (uDB u1)) = (Inr 0, p)"
    using demo_insert by (auto simp: demo_env_def)
  have X: "buffer_pool (uEnv demo_env) mem_stored length lru_inv pageMap"
    using mp.buffer_pool_axioms by (simp add: demo_env_def)
  have db: "db_inv mem_stored lru_inv pageMap (uDB demo_state)" "page_records mem_stored (uDB demo_state) 0 []"
    using mem_db_inv mem_db_blank by (simp_all add: demo_state_def)
  have "clock (uRun demo_env) < sint (expiry (clock (uRun demo_env)) (IntParam 0))"
    by (simp add: demo_env_def run0_def expiry_def far_future_def)
  from orm_insert_find [OF X X db _ _ _ _ _ demo_table _ ins this f, of 7 "''it'' @ [CHR 0x27] @ ''s''" Inr] ins
  show ?thesis by (auto simp: demo_model_def demo_env_def run0_def survivors_def)
qed

end
