(* ===== verification/Huffman.thy ===== *)
theory Huffman
  imports Prelude
begin

text \<open>
  The block compressor of \<open>compression.go\<close>: packed table entries, the canonical code tables
  with the look-ahead table and the overflow tree, the run-length pass, the bit packer and the
  decoder. An access out of range is \<open>GoPanic\<close>. Bit counters are bytes in the source; they are
  natural numbers here with the reduction modulo 256 written out, also where a subtraction
  wraps. A shift by 64 or more yields zero, in Go as for \<open>drop_bit\<close> on a \<open>64 word\<close>.
\<close>

section \<open>Table entries\<close>

definition NewHuffmanEntry :: "64 word \<Rightarrow> byte \<Rightarrow> 64 word" where
  "NewHuffmanEntry code len = push_bit 56 (ucast len) OR (code AND 0x00FFFFFFFFFFFFFF)"

definition Entry_Length :: "64 word \<Rightarrow> byte" where
  "Entry_Length e = ucast (drop_bit 56 e)"

definition Entry_Code :: "64 word \<Rightarrow> 64 word" where
  "Entry_Code e = e AND 0x00FFFFFFFFFFFFFF"

definition NewForestEntry :: "byte \<Rightarrow> byte \<Rightarrow> 16 word" where
  "NewForestEntry literal consumedBits = push_bit 8 (ucast literal) OR ucast consumedBits"

definition Forest_Literal :: "16 word \<Rightarrow> byte" where
  "Forest_Literal f = ucast (drop_bit 8 f)"

definition Forest_Consumed :: "16 word \<Rightarrow> byte" where
  "Forest_Consumed f = ucast (f AND 0xFF)"

section \<open>Building the tables\<close>

definition MaxBlockSize :: nat where
  "MaxBlockSize = 32700"

definition LookaheadBits :: nat where
  "LookaheadBits = 8"

definition LookaheadSize :: nat where
  "LookaheadSize = 256"

record huff_tables =
  encoderTable :: "64 word list"
  forestTable :: "16 word list"
  overflowTree :: "int list"

definition zero_tables :: huff_tables where
  "zero_tables = \<lparr>encoderTable = replicate 256 0, forestTable = replicate LookaheadSize 0, overflowTree = replicate 1024 0\<rparr>"

definition len_counts :: "bytes \<Rightarrow> nat list" where
  "len_counts lengths =
     foldl (\<lambda>c l. if 0 < l \<and> l \<le> 16 then c[unat l := c ! unat l + 1] else c) (replicate 17 0) lengths"

text \<open>The value of \<open>code\<close> after round \<open>i\<close> of the loop that fills \<open>nextCode\<close>.\<close>

primrec next_code :: "nat list \<Rightarrow> nat \<Rightarrow> 64 word" where
  "next_code counts 0 = 0"
| "next_code counts (Suc i) = push_bit 1 (next_code counts i + of_nat (counts ! i))"

definition fill_range :: "nat \<Rightarrow> nat \<Rightarrow> 16 word \<Rightarrow> 16 word list \<Rightarrow> 16 word list" where
  "fill_range startIdx endIdx e forest =
     foldl (\<lambda>f i. if i < LookaheadSize then f[i := e] else f) forest [startIdx..<endIdx]"

text \<open>
  The walk of a long code through the overflow tree: \<open>n\<close> bits are left, the bit tested is
  \<open>(huffCode >> (n - 1)) & 1\<close>. The cell of the last bit gets the complement of the symbol.
\<close>

primrec overflow_walk :: "nat \<Rightarrow> 64 word \<Rightarrow> nat \<Rightarrow> int \<Rightarrow> int list \<Rightarrow> int \<Rightarrow> (int list \<times> int) result" where
  "overflow_walk 0 huffCode symb currNode tree nextNode = Inr (tree, nextNode)"
| "overflow_walk (Suc n) huffCode symb currNode tree nextNode =
     (let treeIdx = currNode + (if bit huffCode n then 1 else 0)
      in if 1024 \<le> treeIdx then Inr (tree, nextNode)
         else if treeIdx < 0 then Inl GoPanic
         else if n = 0 then Inr (tree[nat treeIdx := - int symb - 1], nextNode)
         else if tree ! nat treeIdx = - 1
              then overflow_walk n huffCode symb nextNode (tree[nat treeIdx := nextNode]) (nextNode + 2)
              else overflow_walk n huffCode symb (tree ! nat treeIdx) tree nextNode)"

fun build_loop :: "nat \<Rightarrow> bytes \<Rightarrow> 64 word list \<Rightarrow> int \<Rightarrow> huff_tables \<Rightarrow> huff_tables result" where
  "build_loop symb [] nextCode nextNode T = Inr T"
| "build_loop symb (l # lengths) nextCode nextNode T =
     (if l = 0 then build_loop (Suc symb) lengths nextCode nextNode T
      else if 16 < unat l \<or> length (encoderTable T) \<le> symb then Inl GoPanic
      else
        let huffCode = nextCode ! unat l;
            nextCode' = nextCode[unat l := huffCode + 1];
            T1 = T\<lparr>encoderTable := (encoderTable T)[symb := NewHuffmanEntry huffCode l]\<rparr>
        in if unat l \<le> LookaheadBits then
             let shift = LookaheadBits - unat l;
                 startIdx = unat (push_bit shift huffCode);
                 endIdx = startIdx + 2 ^ shift
             in build_loop (Suc symb) lengths nextCode' nextNode
                  (T1\<lparr>forestTable := fill_range startIdx endIdx (NewForestEntry (of_nat symb) l) (forestTable T1)\<rparr>)
           else case overflow_walk (unat l) huffCode symb 0 (overflowTree T1) nextNode of
                  Inl e \<Rightarrow> Inl e
                | Inr (tree, nextNode') \<Rightarrow>
                    build_loop (Suc symb) lengths nextCode' nextNode' (T1\<lparr>overflowTree := tree\<rparr>))"

definition BuildDynamicForest :: "bytes \<Rightarrow> huff_tables \<Rightarrow> huff_tables result" where
  "BuildDynamicForest lengths T =
     build_loop 0 lengths (map (next_code (len_counts lengths)) [0..<17]) 2
       (T\<lparr>overflowTree := replicate 1024 (- 1), forestTable := replicate LookaheadSize 0\<rparr>)"

text \<open>The code lengths that \<open>init\<close> assigns to the bytes.\<close>

definition canonical_length :: "nat \<Rightarrow> byte" where
  "canonical_length ch =
     (if 97 \<le> ch \<and> ch \<le> 122 \<or> 48 \<le> ch \<and> ch \<le> 57 \<or> ch = 32 then 7
      else if 65 \<le> ch \<and> ch \<le> 90 \<or> ch = 34 \<or> ch = 95 \<or> ch = 58 then 8
      else 9)"

definition canonicalLengths :: bytes where
  "canonicalLengths = map canonical_length [0..<256]"

section \<open>Compression\<close>

text \<open>The run-length pass; a run of at least four equal bytes becomes a mark, its length and the byte.\<close>

definition run4 :: "bytes \<Rightarrow> bool" where
  "run4 s \<longleftrightarrow> 4 \<le> length s \<and> s ! 0 = s ! 1 \<and> s ! 0 = s ! 2 \<and> s ! 0 = s ! 3"

definition run_len :: "bytes \<Rightarrow> nat" where
  "run_len s = min 255 (length (takeWhile (\<lambda>x. x = hd s) s))"

function lre :: "bytes \<Rightarrow> bytes" where
  "lre s =
     (if s = [] then []
      else if run4 s then [0xFE, of_nat (run_len s), hd s] @ lre (drop (run_len s) s)
      else hd s # lre (tl s))"
  by pat_completeness auto
termination
proof (relation "measure length")
  fix s :: bytes
  assume "s \<noteq> []" "run4 s"
  then have "0 < run_len s" by (cases s) (simp_all add: run_len_def)
  then show "(drop (run_len s) s, s) \<in> measure length" using \<open>s \<noteq> []\<close> by simp
qed auto

declare lre.simps [simp del]

function emit :: "64 word \<Rightarrow> nat \<Rightarrow> bytes \<times> nat" where
  "emit bitBuffer bitCount =
     (if 8 \<le> bitCount then
        (case emit bitBuffer (bitCount - 8) of (out, n) \<Rightarrow> (ucast (drop_bit (bitCount - 8) bitBuffer) # out, n))
      else ([], bitCount))"
  by pat_completeness auto
termination
  by (relation "measure snd") auto

declare emit.simps [simp del]

fun pack :: "64 word list \<Rightarrow> bytes \<Rightarrow> 64 word \<Rightarrow> nat \<Rightarrow> bytes" where
  "pack enc [] bitBuffer bitCount =
     (if 0 < bitCount then [ucast (push_bit (8 - bitCount) bitBuffer)] else [])"
| "pack enc (x # xs) bitBuffer bitCount =
     (let entry = enc ! unat x;
          bitBuffer' = push_bit (unat (Entry_Length entry)) bitBuffer OR Entry_Code entry
      in case emit bitBuffer' ((bitCount + unat (Entry_Length entry)) mod 256) of
           (out, n) \<Rightarrow> out @ pack enc xs bitBuffer' n)"

definition be16 :: "nat \<Rightarrow> bytes" where
  "be16 x = [of_nat (x div 256), of_nat x]"

definition Compress :: "huff_tables \<Rightarrow> bytes \<Rightarrow> bytes \<Rightarrow> (nat \<times> bytes) result" where
  "Compress T src dst =
     (if src = [] \<or> MaxBlockSize < length src \<or> length dst < 6 then Inl ErrCompressParams
      else let payload = lre src;
               out = [0x53, 0x48] @ be16 (length src) @ be16 (length payload) @ pack (encoderTable T) payload 0 0
           in if length dst < length out then Inl GoPanic
              else Inr (length out, blit dst 0 out))"

section \<open>Decompression\<close>

fun refill :: "64 word \<Rightarrow> nat \<Rightarrow> bytes \<Rightarrow> 64 word \<times> nat \<times> bytes" where
  "refill bitBuffer bitCount [] = (bitBuffer, bitCount, [])"
| "refill bitBuffer bitCount (c # rest) =
     (if bitCount < LookaheadBits
      then refill (push_bit 8 bitBuffer OR ucast c) ((bitCount + 8) mod 256) rest
      else (bitBuffer, bitCount, c # rest))"

primrec unpack :: "16 word list \<Rightarrow> nat \<Rightarrow> 64 word \<Rightarrow> nat \<Rightarrow> bytes \<Rightarrow> bytes result" where
  "unpack forest 0 bitBuffer bitCount rest = Inr []"
| "unpack forest (Suc k) bitBuffer bitCount rest =
     (case refill bitBuffer bitCount rest of (b, n, rest') \<Rightarrow>
        let lookahead = unat (take_bit 8 (drop_bit ((n + 256 - LookaheadBits) mod 256) b));
            entry = forest ! lookahead
        in if 0 < Forest_Consumed entry then
             (case unpack forest k b ((n + 256 - unat (Forest_Consumed entry)) mod 256) rest' of
                Inl e \<Rightarrow> Inl e
              | Inr xs \<Rightarrow> Inr (Forest_Literal entry # xs))
           else Inl ErrSparsePath)"

fun expand :: "bytes \<Rightarrow> bytes result" where
  "expand [] = Inr []"
| "expand (x # xs) =
     (if x = 0xFE then
        (case xs of
           l # v # ys \<Rightarrow> (case expand ys of Inl e \<Rightarrow> Inl e | Inr out \<Rightarrow> Inr (replicate (unat l) v @ out))
         | _ \<Rightarrow> Inl GoPanic)
      else case expand xs of Inl e \<Rightarrow> Inl e | Inr out \<Rightarrow> Inr (x # out))"

definition Decompress :: "huff_tables \<Rightarrow> bytes \<Rightarrow> bytes \<Rightarrow> (nat \<times> bytes) result" where
  "Decompress T src dst =
     (if length src < 6 then Inl GoPanic
      else let snappyLen = unat (src ! 4) * 256 + unat (src ! 5)
           in case unpack (forestTable T) snappyLen 0 0 (drop 6 src) of
                Inl e \<Rightarrow> Inl e
              | Inr payload \<Rightarrow>
                  (case expand payload of
                     Inl e \<Rightarrow> Inl e
                   | Inr out \<Rightarrow>
                       if length dst < length out then Inl GoPanic
                       else Inr (length out, blit dst 0 out)))"

section \<open>The tables of the program\<close>

text \<open>
  Codes of nine bits go to the overflow tree. The walk never leaves the tree: \<open>d\<close> gives
  every allocated node its depth, a cell of a node above depth 8 is unset or holds a node one
  level deeper, and cells behind the allocated nodes are unset.
\<close>

definition node :: "int \<Rightarrow> int \<Rightarrow> bool" where
  "node nextNode k \<longleftrightarrow> 0 \<le> k \<and> k < nextNode \<and> even k"

definition overflow_inv :: "(int \<Rightarrow> nat) \<Rightarrow> int list \<Rightarrow> int \<Rightarrow> bool" where
  "overflow_inv d tree nextNode \<longleftrightarrow>
     length tree = 1024 \<and> 2 \<le> nextNode \<and> even nextNode \<and> d 0 = 0
     \<and> (\<forall>j. nextNode \<le> j \<longrightarrow> j < 1024 \<longrightarrow> tree ! nat j = - 1)
     \<and> (\<forall>k j. node nextNode k \<longrightarrow> d k < 8 \<longrightarrow> j = k \<or> j = k + 1 \<longrightarrow> j < 1024 \<longrightarrow>
          tree ! nat j = - 1 \<or> node nextNode (tree ! nat j) \<and> d (tree ! nat j) = Suc (d k))"

lemma cell_node: "node n k \<Longrightarrow> node n k' \<Longrightarrow> j = k \<or> j = k + 1 \<Longrightarrow> j = k' \<or> j = k' + 1 \<Longrightarrow> k = k'"
  by (auto simp: node_def)

lemma node_cell_less: "node n k \<Longrightarrow> even n \<Longrightarrow> j = k \<or> j = k + 1 \<Longrightarrow> 0 \<le> j \<and> j < n"
  by (auto simp: node_def) presburger

lemma overflow_invD:
  assumes "overflow_inv d tree nn"
  shows "length tree = 1024" and "2 \<le> nn" and "even nn" and "d 0 = 0"
    and "nn \<le> j \<Longrightarrow> j < 1024 \<Longrightarrow> tree ! nat j = - 1"
    and "node nn k \<Longrightarrow> d k < 8 \<Longrightarrow> j = k \<or> j = k + 1 \<Longrightarrow> j < 1024 \<Longrightarrow>
      tree ! nat j = - 1 \<or> node nn (tree ! nat j) \<and> d (tree ! nat j) = Suc (d k)"
  using assms unfolding overflow_inv_def by blast+

lemma overflow_alloc:
  assumes inv: "overflow_inv d tree nn" and cur: "node nn cur" "d cur < 8" and j: "j = cur \<or> j = cur + 1" "j < 1024"
  shows "overflow_inv (d(nn := Suc (d cur))) (tree[nat j := nn]) (nn + 2)"
proof -
  note I = overflow_invD [OF inv]
  have jn: "0 \<le> j" "j < nn" using node_cell_less [OF cur(1) I(3) j(1)] by auto
  have fresh: "tree[nat j := nn] ! nat i = - 1" if "nn \<le> i" "i < 1024" for i
    using I(5) [OF that] jn that by (simp add: nth_list_update_neq nat_eq_iff)
  have grow: "node nn k \<Longrightarrow> node (nn + 2) k \<and> k \<noteq> nn" for k by (auto simp: node_def)
  have new: "node (nn + 2) nn" using I(2,3) by (simp add: node_def)
  have old: "node nn k" if "node (nn + 2) k" "k \<noteq> nn" for k
    using that I(3) by (auto simp: node_def) presburger
  have cell: "(tree[nat j := nn]) ! nat i = - 1 \<or> node (nn + 2) ((tree[nat j := nn]) ! nat i)
      \<and> (d(nn := Suc (d cur))) ((tree[nat j := nn]) ! nat i) = Suc ((d(nn := Suc (d cur))) k)"
    if k: "node (nn + 2) k" "(d(nn := Suc (d cur))) k < 8" and i: "i = k \<or> i = k + 1" "i < 1024" for k i
  proof (cases "k = nn")
    case True
    then show ?thesis using fresh [of i] i by auto
  next
    case False
    then have kn: "node nn k" "d k < 8" using old k by auto
    have i0: "0 \<le> i" using kn(1) i(1) by (auto simp: node_def)
    show ?thesis
    proof (cases "i = j")
      case True
      then have "k = cur" using cell_node [OF kn(1) cur(1) i(1)] j(1) by blast
      with True False new I(1) i(2) jn(1) show ?thesis by simp
    next
      case neq: False
      then have "tree[nat j := nn] ! nat i = tree ! nat i" using i0 jn by (simp add: nth_list_update_neq nat_eq_iff2)
      with I(6) [OF kn i] grow False show ?thesis by auto
    qed
  qed
  show ?thesis
    unfolding overflow_inv_def
    using I(1-4) fresh cell by (auto simp: node_def)
qed

lemma overflow_leaf:
  assumes inv: "overflow_inv d tree nn" and cur: "node nn cur" "d cur = 8" and j: "j = cur \<or> j = cur + 1"
  shows "overflow_inv d (tree[nat j := v]) nn"
proof -
  note I = overflow_invD [OF inv]
  have jn: "0 \<le> j" "j < nn" using node_cell_less [OF cur(1) I(3) j] by auto
  have other: "tree[nat j := v] ! nat i = tree ! nat i" if "0 \<le> i" "i \<noteq> j" for i
    using that jn(1) by (simp add: nth_list_update_neq nat_eq_iff2)
  have "tree[nat j := v] ! nat i = - 1" if "nn \<le> i" "i < 1024" for i
    using other [of i] I(2) I(5) [OF that] that jn(2) by simp
  moreover have "tree[nat j := v] ! nat i = tree ! nat i" if "node nn k" "d k < 8" "i = k \<or> i = k + 1" for i k
    by (rule other) (use that cell_node [OF that(1) cur(1) that(3)] cur(2) j in \<open>auto simp: node_def\<close>)
  ultimately show ?thesis
    unfolding overflow_inv_def using I(1-4) I(6) by (metis length_list_update)
qed

lemma overflow_walk_ok:
  assumes "overflow_inv d tree nn" and "node nn cur" and "d cur + n = 8"
  shows "\<exists>d' tree' nn'. overflow_walk (Suc n) code symb cur tree nn = Inr (tree', nn') \<and> overflow_inv d' tree' nn'"
  using assms
proof (induction n arbitrary: d tree nn cur)
  case 0
  let ?j = "cur + (if bit code 0 then 1 else 0)"
  have "0 \<le> ?j" using "0.prems"(2) by (simp add: node_def)
  with "0.prems" overflow_leaf [OF "0.prems"(1,2), of ?j] show ?case
    by (cases "1024 \<le> ?j") (auto simp: Let_def, blast+)
next
  case (Suc n)
  let ?j = "cur + (if bit code (Suc n) then 1 else 0)"
  have j: "?j = cur \<or> ?j = cur + 1" "0 \<le> ?j" using Suc.prems(2) by (auto simp: node_def)
  have d: "d cur < 8" using Suc.prems(3) by simp
  consider "1024 \<le> ?j" | "?j < 1024" "tree ! nat ?j = - 1" | "?j < 1024" "tree ! nat ?j \<noteq> - 1" by linarith
  then show ?case
  proof cases
    case 1
    with Suc.prems(1) show ?thesis by (subst overflow_walk.simps) (auto simp: Let_def)
  next
    case 2
    let ?d = "d(nn := Suc (d cur))"
    have inv: "overflow_inv ?d (tree[nat ?j := nn]) (nn + 2)"
      by (rule overflow_alloc [OF Suc.prems(1,2) d j(1) 2(1)])
    have "node (nn + 2) nn" using overflow_invD(2,3) [OF Suc.prems(1)] by (simp add: node_def)
    from Suc.IH [OF inv this] Suc.prems(3) 2 j show ?thesis
      by (subst overflow_walk.simps) (simp only: Let_def not_less if_False if_True nat.simps, simp)
  next
    case 3
    then have "node nn (tree ! nat ?j)" "d (tree ! nat ?j) = Suc (d cur)"
      using overflow_invD(6) [OF Suc.prems(1,2) d j(1)] by auto
    from Suc.IH [OF Suc.prems(1) this(1)] this(2) Suc.prems(3) 3 j show ?thesis
      by (subst overflow_walk.simps) (simp only: Let_def not_less if_False if_True nat.simps, simp)
  qed
qed

text \<open>The encoder and look-ahead tables do not depend on the overflow tree.\<close>

fun short_loop :: "nat \<Rightarrow> bytes \<Rightarrow> 64 word list \<Rightarrow> 64 word list \<times> 16 word list \<Rightarrow> 64 word list \<times> 16 word list" where
  "short_loop symb [] nextCode T = T"
| "short_loop symb (l # lengths) nextCode (enc, forest) =
     (let huffCode = nextCode ! unat l
      in short_loop (Suc symb) lengths (nextCode[unat l := huffCode + 1])
           (enc[symb := NewHuffmanEntry huffCode l],
            if unat l \<le> LookaheadBits
            then let startIdx = unat (push_bit (LookaheadBits - unat l) huffCode)
                 in fill_range startIdx (startIdx + 2 ^ (LookaheadBits - unat l)) (NewForestEntry (of_nat symb) l) forest
            else forest))"

lemma build_loop_short:
  assumes "\<forall>l \<in> set lengths. l \<in> {7, 8, 9}" and "overflow_inv d (overflowTree T) nn"
    and "symb + length lengths \<le> length (encoderTable T)"
  shows "\<exists>tree. build_loop symb lengths nextCode nn T =
    Inr \<lparr>encoderTable = fst (short_loop symb lengths nextCode (encoderTable T, forestTable T)),
         forestTable = snd (short_loop symb lengths nextCode (encoderTable T, forestTable T)), overflowTree = tree\<rparr>"
  using assms
proof (induction lengths arbitrary: symb nextCode d nn T)
  case Nil
  then show ?case by (cases T) simp
next
  case (Cons l lengths)
  let ?code = "nextCode ! unat l"
  let ?T1 = "T\<lparr>encoderTable := (encoderTable T)[symb := NewHuffmanEntry ?code l]\<rparr>"
  have l: "l \<noteq> 0" "unat l \<le> 16" "symb < length (encoderTable T)"
    using Cons.prems(1,3) by auto
  show ?case
  proof (cases "unat l \<le> LookaheadBits")
    case True
    let ?st = "unat (push_bit (LookaheadBits - unat l) ?code)"
    let ?T2 = "?T1\<lparr>forestTable := fill_range ?st (?st + 2 ^ (LookaheadBits - unat l)) (NewForestEntry (of_nat symb) l) (forestTable ?T1)\<rparr>"
    have "\<exists>tree. build_loop (Suc symb) lengths (nextCode[unat l := ?code + 1]) nn ?T2 =
      Inr \<lparr>encoderTable = fst (short_loop (Suc symb) lengths (nextCode[unat l := ?code + 1]) (encoderTable ?T2, forestTable ?T2)),
           forestTable = snd (short_loop (Suc symb) lengths (nextCode[unat l := ?code + 1]) (encoderTable ?T2, forestTable ?T2)),
           overflowTree = tree\<rparr>"
      by (rule Cons.IH [where d = d]) (use Cons.prems in auto)
    with True l show ?thesis by (simp add: Let_def)
  next
    case False
    then have "unat l = Suc 8" using Cons.prems(1) by (auto simp: LookaheadBits_def)
    moreover have "node nn 0" "d 0 + 8 = 8" using overflow_invD(2,4) [OF Cons.prems(2)] by (simp_all add: node_def)
    ultimately obtain d' tree nn' where walk: "overflow_walk (unat l) ?code symb 0 (overflowTree T) nn = Inr (tree, nn')"
      and inv: "overflow_inv d' tree nn'"
      using overflow_walk_ok [OF Cons.prems(2)] by metis
    let ?T2 = "?T1\<lparr>overflowTree := tree\<rparr>"
    have "\<exists>tree. build_loop (Suc symb) lengths (nextCode[unat l := ?code + 1]) nn' ?T2 =
      Inr \<lparr>encoderTable = fst (short_loop (Suc symb) lengths (nextCode[unat l := ?code + 1]) (encoderTable ?T2, forestTable ?T2)),
           forestTable = snd (short_loop (Suc symb) lengths (nextCode[unat l := ?code + 1]) (encoderTable ?T2, forestTable ?T2)),
           overflowTree = tree\<rparr>"
      by (rule Cons.IH [where d = d']) (use Cons.prems inv in auto)
    with False l walk show ?thesis by (simp add: Let_def)
  qed
qed

lemma overflow_init: "overflow_inv (\<lambda>_. 0) (replicate 1024 (- 1)) 2"
  by (auto simp: overflow_inv_def node_def nth_replicate)

text \<open>The global tables after \<open>init\<close>.\<close>

definition global_tables :: huff_tables where
  "global_tables = (case BuildDynamicForest canonicalLengths zero_tables of Inl _ \<Rightarrow> zero_tables | Inr T \<Rightarrow> T)"

definition short_tables :: "64 word list \<times> 16 word list" where
  "short_tables = short_loop 0 canonicalLengths (map (next_code (len_counts canonicalLengths)) [0..<17])
     (replicate 256 0, replicate LookaheadSize 0)"

lemma canonical_cases: "l \<in> set canonicalLengths \<Longrightarrow> l \<in> {7, 8, 9}"
  by (auto simp: canonicalLengths_def canonical_length_def split: if_splits)

lemma global_tables_short:
  "\<exists>tree. BuildDynamicForest canonicalLengths zero_tables
     = Inr \<lparr>encoderTable = fst short_tables, forestTable = snd short_tables, overflowTree = tree\<rparr>"
  using build_loop_short [of canonicalLengths "\<lambda>_. 0" "zero_tables\<lparr>overflowTree := replicate 1024 (- 1), forestTable := replicate LookaheadSize 0\<rparr>" 2 0
      "map (next_code (len_counts canonicalLengths)) [0..<17]"] canonical_cases overflow_init
  by (simp add: BuildDynamicForest_def short_tables_def zero_tables_def canonicalLengths_def)

lemma global_tables_eq:
  "encoderTable global_tables = fst short_tables" "forestTable global_tables = snd short_tables"
  using global_tables_short by (auto simp: global_tables_def)

text \<open>The code of the \<open>k\<close>-th symbol, and the entries of the look-ahead table it fills.\<close>

definition code_of :: "64 word list \<Rightarrow> bytes \<Rightarrow> nat \<Rightarrow> 64 word" where
  "code_of nextCode ls k = nextCode ! unat (ls ! k) + of_nat (count_list (take k ls) (ls ! k))"

definition covers :: "64 word list \<Rightarrow> bytes \<Rightarrow> nat \<Rightarrow> nat \<Rightarrow> bool" where
  "covers nextCode ls k i \<longleftrightarrow> unat (ls ! k) \<le> LookaheadBits
     \<and> unat (push_bit (LookaheadBits - unat (ls ! k)) (code_of nextCode ls k)) \<le> i
     \<and> i < unat (push_bit (LookaheadBits - unat (ls ! k)) (code_of nextCode ls k)) + 2 ^ (LookaheadBits - unat (ls ! k))"

lemma length_fill_range [simp]: "length (fill_range a b e f) = length f"
proof -
  have "length (foldl (\<lambda>f i. if i < LookaheadSize then f[i := e] else f) f xs) = length f" for xs f
    by (induction xs arbitrary: f) auto
  then show ?thesis by (simp add: fill_range_def)
qed

lemma fill_range_nth:
  assumes "i < LookaheadSize" and "length f = LookaheadSize"
  shows "fill_range a b e f ! i = (if a \<le> i \<and> i < b then e else f ! i)"
proof -
  have "foldl (\<lambda>f i. if i < LookaheadSize then f[i := e] else f) f xs ! i = (if i \<in> set xs then e else f ! i)"
    if "length f = LookaheadSize" for xs f
    using that assms(1) by (induction xs arbitrary: f) (auto simp: nth_list_update)
  then show ?thesis using assms(2) by (simp add: fill_range_def)
qed

lemma code_of_Cons:
  assumes "unat l < length nc" and "unat (ls ! k) < length nc"
  shows "code_of nc (l # ls) (Suc k) = code_of (nc[unat l := nc ! unat l + 1]) ls k"
proof (cases "l = ls ! k")
  case False
  then have "unat l \<noteq> unat (ls ! k)" by (simp add: word_unat_eq_iff)
  with False show ?thesis by (simp add: code_of_def)
qed (use assms in \<open>simp add: code_of_def add.assoc\<close>)

lemma covers_Cons:
  assumes "unat l < length nc" and "unat (ls ! k) < length nc"
  shows "covers nc (l # ls) (Suc k) i \<longleftrightarrow> covers (nc[unat l := nc ! unat l + 1]) ls k i"
  using code_of_Cons [OF assms] by (simp add: covers_def)

lemma short_enc:
  assumes "\<forall>l \<in> set ls. unat l < length nc" and "symb + length ls \<le> length enc"
  shows "(\<forall>j < symb. fst (short_loop symb ls nc (enc, f)) ! j = enc ! j)
    \<and> (\<forall>k < length ls. fst (short_loop symb ls nc (enc, f)) ! (symb + k) = NewHuffmanEntry (code_of nc ls k) (ls ! k))"
  using assms
proof (induction ls arbitrary: symb nc enc f)
  case (Cons l ls)
  let ?nc = "nc[unat l := nc ! unat l + 1]"
  let ?enc = "enc[symb := NewHuffmanEntry (nc ! unat l) l]"
  obtain f' where step: "short_loop symb (l # ls) nc (enc, f) = short_loop (Suc symb) ls ?nc (?enc, f')"
    by (simp add: Let_def)
  have IH: "(\<forall>j < Suc symb. fst (short_loop (Suc symb) ls ?nc (?enc, f')) ! j = ?enc ! j)
    \<and> (\<forall>k < length ls. fst (short_loop (Suc symb) ls ?nc (?enc, f')) ! (Suc symb + k) = NewHuffmanEntry (code_of ?nc ls k) (ls ! k))"
    by (rule Cons.IH) (use Cons.prems in auto)
  have "fst (short_loop (Suc symb) ls ?nc (?enc, f')) ! symb = ?enc ! symb" using IH by blast
  then have "fst (short_loop (Suc symb) ls ?nc (?enc, f')) ! symb = NewHuffmanEntry (code_of nc (l # ls) 0) l"
    using Cons.prems(2) by (simp add: code_of_def)
  moreover have "fst (short_loop (Suc symb) ls ?nc (?enc, f')) ! (symb + Suc k) = NewHuffmanEntry (code_of nc (l # ls) (Suc k)) (ls ! k)"
    if "k < length ls" for k
    using IH that code_of_Cons [of l nc ls k] Cons.prems(1) by simp
  moreover have "fst (short_loop (Suc symb) ls ?nc (?enc, f')) ! j = enc ! j" if "j < symb" for j
    using IH that by simp
  ultimately show ?case
    unfolding step by (auto simp: less_Suc_eq_0_disj)
qed simp

text \<open>The look-ahead table after one symbol.\<close>

definition fill_code :: "nat \<Rightarrow> byte \<Rightarrow> 64 word \<Rightarrow> 16 word list \<Rightarrow> 16 word list" where
  "fill_code symb l code f =
     (if unat l \<le> LookaheadBits
      then fill_range (unat (push_bit (LookaheadBits - unat l) code))
             (unat (push_bit (LookaheadBits - unat l) code) + 2 ^ (LookaheadBits - unat l)) (NewForestEntry (of_nat symb) l) f
      else f)"

lemma short_loop_Cons:
  "short_loop symb (l # ls) nc (enc, f) =
     short_loop (Suc symb) ls (nc[unat l := nc ! unat l + 1])
       (enc[symb := NewHuffmanEntry (nc ! unat l) l], fill_code symb l (nc ! unat l) f)"
  by (simp add: Let_def fill_code_def)

lemma length_fill_code [simp]: "length (fill_code symb l code f) = length f"
  by (simp add: fill_code_def)

lemma fill_code_nth:
  assumes "i < LookaheadSize" and "length f = LookaheadSize"
  shows "fill_code symb l (nc ! unat l) f ! i = (if covers nc (l # ls) 0 i then NewForestEntry (of_nat symb) l else f ! i)"
  using assms by (auto simp: fill_code_def covers_def code_of_def fill_range_nth)

declare short_loop.simps(2) [simp del]

lemma short_forest_skip:
  assumes "\<forall>l \<in> set ls. unat l < length nc" and "i < LookaheadSize" and "length f = LookaheadSize"
    and "\<forall>k < length ls. \<not> covers nc ls k i"
  shows "snd (short_loop symb ls nc (enc, f)) ! i = f ! i"
  using assms
proof (induction ls arbitrary: symb nc enc f)
  case (Cons l ls)
  have "\<not> covers (nc[unat l := nc ! unat l + 1]) ls k i" if "k < length ls" for k
    using Cons.prems(1,4) that covers_Cons [of l nc ls k i] by auto
  moreover have "\<not> covers nc (l # ls) 0 i" using Cons.prems(4) by auto
  ultimately show ?case
    using Cons.prems(1-3) by (simp add: short_loop_Cons Cons.IH fill_code_nth [where ls = ls])
qed simp

lemma short_forest_hit:
  assumes "\<forall>l \<in> set ls. unat l < length nc" and "i < LookaheadSize" and "length f = LookaheadSize"
    and "k < length ls" and "covers nc ls k i" and "\<forall>k' < length ls. k < k' \<longrightarrow> \<not> covers nc ls k' i"
  shows "snd (short_loop symb ls nc (enc, f)) ! i = NewForestEntry (of_nat (symb + k)) (ls ! k)"
  using assms
proof (induction ls arbitrary: symb nc enc f k)
  case (Cons l ls)
  let ?nc = "nc[unat l := nc ! unat l + 1]"
  let ?enc = "enc[symb := NewHuffmanEntry (nc ! unat l) l]"
  let ?f = "fill_code symb l (nc ! unat l) f"
  have tail: "covers nc (l # ls) (Suc m) i \<longleftrightarrow> covers ?nc ls m i" if "m < length ls" for m
    using Cons.prems(1) that by (intro covers_Cons) auto
  have rest: "\<forall>l' \<in> set ls. unat l' < length ?nc" "length ?f = LookaheadSize" using Cons.prems(1,3) by simp_all
  show ?case
  proof (cases k)
    case 0
    have "\<forall>m < length ls. \<not> covers ?nc ls m i" using Cons.prems(6) tail 0 by auto
    then have "snd (short_loop (Suc symb) ls ?nc (?enc, ?f)) ! i = ?f ! i"
      by (rule short_forest_skip [OF rest(1) Cons.prems(2) rest(2)])
    with 0 Cons.prems(2,3,5) show ?thesis by (simp add: short_loop_Cons fill_code_nth [where ls = ls])
  next
    case (Suc m)
    have m: "m < length ls" "covers ?nc ls m i" using Cons.prems(4,5) tail Suc by simp_all
    have "\<forall>k' < length ls. m < k' \<longrightarrow> \<not> covers ?nc ls k' i" using Cons.prems(6) tail Suc by auto
    from Cons.IH [OF rest(1) Cons.prems(2) rest(2) m this] Suc show ?thesis by (simp add: short_loop_Cons add.assoc)
  qed
qed simp

text \<open>The canonical code: 37 codes of seven bits, 29 of eight, 190 of nine.\<close>

abbreviation canonical_next :: "64 word list" where
  "canonical_next \<equiv> map (next_code (len_counts canonicalLengths)) [0..<17]"

lemma canonical_counts:
  "count_list canonicalLengths 7 = 37" "count_list canonicalLengths 8 = 29" "count_list canonicalLengths 9 = 190"
  by code_simp+

lemma canonical_next_at:
  "canonical_next ! 7 = 0" "canonical_next ! 8 = 74" "canonical_next ! 9 = 206"
proof -
  have "len_counts canonicalLengths = [0, 0, 0, 0, 0, 0, 0, 37, 29, 190, 0, 0, 0, 0, 0, 0, 0]"
    by code_simp
  then show "canonical_next ! 7 = 0" "canonical_next ! 8 = 74" "canonical_next ! 9 = 206"
    by (simp_all add: eval_nat_numeral push_bit_eq_mult)
qed

definition clen :: "byte \<Rightarrow> nat" where
  "clen x = unat (canonical_length (unat x))"

definition cnum :: "byte \<Rightarrow> nat" where
  "cnum x = count_list (take (unat x) canonicalLengths) (canonical_length (unat x))"

text \<open>The code word of a byte as a number of \<open>clen x\<close> bits.\<close>

definition ccode :: "byte \<Rightarrow> nat" where
  "ccode x = (if clen x = 7 then cnum x else if clen x = 8 then 74 + cnum x else 206 + cnum x)"

lemma clen_cases: "clen x = 7 \<or> clen x = 8 \<or> clen x = 9"
  by (simp add: clen_def canonical_length_def)

lemma length_canonical [simp]: "length canonicalLengths = 256"
  by (simp add: canonicalLengths_def)

lemma byte_less [simp]: "unat (x :: byte) < 256"
  using unsigned_less [of x, where ?'a = nat] by simp

lemma canonical_nth [simp]: "canonicalLengths ! unat (x :: byte) = canonical_length (unat x)"
  by (simp add: canonicalLengths_def)

lemma count_list_take:
  assumes "i < j" and "j \<le> length xs"
  shows "count_list (take i xs) (xs ! i) < count_list (take j xs) (xs ! i)"
proof -
  have "take j xs = take i (take j xs) @ take j xs ! i # drop (Suc i) (take j xs)"
    by (rule id_take_nth_drop) (use assms in simp)
  then have "take j xs = take i xs @ xs ! i # drop (Suc i) (take j xs)"
    using assms(1) by (simp add: min_def)
  then have "count_list (take j xs) (xs ! i) = count_list (take i xs @ xs ! i # drop (Suc i) (take j xs)) (xs ! i)"
    by (rule arg_cong)
  then show ?thesis by simp
qed

lemma canonical_of_clen:
  "clen x = 7 \<Longrightarrow> canonical_length (unat x) = 7" "clen x = 8 \<Longrightarrow> canonical_length (unat x) = 8"
  "clen x = 9 \<Longrightarrow> canonical_length (unat x) = 9"
  by (auto simp: clen_def canonical_length_def split: if_splits)

lemma cnum_bound: "cnum x < (if clen x = 7 then 37 else if clen x = 8 then 29 else 190)"
  using count_list_take [of "unat x" 256 canonicalLengths] clen_cases [of x]
  by (auto simp: cnum_def canonical_of_clen canonical_counts)

lemma cnum_inject: "clen x = clen y \<Longrightarrow> cnum x = cnum y \<Longrightarrow> x = y"
proof (rule ccontr)
  assume l: "clen x = clen y" and c: "cnum x = cnum y" and "x \<noteq> y"
  have same: "canonical_length (unat x) = canonical_length (unat y)"
    using l clen_cases [of x] clen_cases [of y] canonical_of_clen by metis
  have "unat x < unat y \<or> unat y < unat x" using \<open>x \<noteq> y\<close> by (metis linorder_neqE_nat word_unat_eq_iff)
  then show False
    using count_list_take [of "unat x" "unat y" canonicalLengths] count_list_take [of "unat y" "unat x" canonicalLengths] c same
    by (auto simp: cnum_def less_imp_le [OF byte_less])
qed

lemma ccode_bound: "ccode x < 2 ^ clen x"
  using cnum_bound [of x] clen_cases [of x] by (auto simp: ccode_def)

lemma code_of_canonical: "code_of canonical_next canonicalLengths (unat x) = of_nat (ccode x)"
  using clen_cases [of x] canonical_next_at
  by (auto simp: code_of_def ccode_def cnum_def canonical_of_clen)

lemma unat_small: "n < 2 ^ 63 \<Longrightarrow> unat (of_nat n :: 64 word) = n"
  by (simp add: unat_of_nat take_bit_eq_mod)

lemma ccode_small: "ccode x < 512"
  using ccode_bound [of x] clen_cases [of x] by auto

lemma unat_ccode: "unat (of_nat (ccode x) :: 64 word) = ccode x"
  using ccode_small [of x] by (intro unat_small) simp

lemma covers_canonical:
  "covers canonical_next canonicalLengths (unat x) i \<longleftrightarrow>
     clen x = 7 \<and> i div 2 = ccode x \<or> clen x = 8 \<and> i = ccode x"
proof -
  have p: "unat (push_bit (Suc 0) (of_nat (ccode x) :: 64 word)) = 2 * ccode x"
  proof -
    have "push_bit (Suc 0) (of_nat (ccode x) :: 64 word) = of_nat (2 * ccode x)"
      by (simp add: push_bit_eq_mult)
    then show ?thesis using ccode_small [of x] unat_small [of "2 * ccode x"] by (simp add: mult.commute)
  qed
  consider "clen x = 7" | "clen x = 8" | "clen x = 9" using clen_cases by blast
  then show ?thesis
  proof cases
    case 1
    then show ?thesis using p by (auto simp: covers_def code_of_canonical LookaheadBits_def canonical_of_clen)
  next
    case 2
    then show ?thesis by (auto simp: covers_def code_of_canonical LookaheadBits_def canonical_of_clen unat_ccode)
  next
    case 3
    then show ?thesis by (simp add: covers_def LookaheadBits_def canonical_of_clen)
  qed
qed

section \<open>Reading the entries back\<close>

lemma mask56: "(c AND 0x00FFFFFFFFFFFFFF :: 64 word) = take_bit 56 c"
  by (simp add: take_bit_eq_mask mask_eq_exp_minus_1)

lemma mask8: "(f AND 0xFF :: 16 word) = take_bit 8 f"
  by (simp add: take_bit_eq_mask mask_eq_exp_minus_1)

lemma Entry_Length_New: "Entry_Length (NewHuffmanEntry c l) = l"
  by (rule bit_word_eqI) (auto simp: Entry_Length_def NewHuffmanEntry_def mask56 bit_simps)

lemma Entry_Code_New: "Entry_Code (NewHuffmanEntry c l) = take_bit 56 c"
  by (rule bit_word_eqI) (auto simp: Entry_Code_def NewHuffmanEntry_def mask56 bit_simps)

lemma Forest_Literal_New: "Forest_Literal (NewForestEntry x l) = x"
  by (rule bit_word_eqI) (auto simp: Forest_Literal_def NewForestEntry_def bit_simps dest: bit_imp_le_length)

lemma Forest_Consumed_New: "Forest_Consumed (NewForestEntry x l) = l"
  by (rule bit_word_eqI) (auto simp: Forest_Consumed_def NewForestEntry_def mask8 bit_simps)

lemma canonical_small: "\<forall>l \<in> set canonicalLengths. unat l < length canonical_next"
  using canonical_cases by fastforce

lemma encoder_at:
  "Entry_Length (encoderTable global_tables ! unat x) = canonical_length (unat x)"
  "Entry_Code (encoderTable global_tables ! unat x) = of_nat (ccode x)"
proof -
  have "encoderTable global_tables ! unat x = NewHuffmanEntry (of_nat (ccode x)) (canonical_length (unat x))"
    using short_enc [OF canonical_small, of 0 "replicate 256 0" "replicate LookaheadSize 0"] code_of_canonical [of x]
    by (simp add: global_tables_eq short_tables_def)
  moreover have "take_bit 56 (of_nat (ccode x) :: 64 word) = of_nat (ccode x)"
    using ccode_small [of x] by (simp add: take_bit_of_nat take_bit_nat_eq_self)
  ultimately show "Entry_Length (encoderTable global_tables ! unat x) = canonical_length (unat x)"
    and "Entry_Code (encoderTable global_tables ! unat x) = of_nat (ccode x)"
    by (simp_all add: Entry_Length_New Entry_Code_New)
qed

lemma covers_unique:
  assumes "covers canonical_next canonicalLengths (unat (x :: byte)) i"
    and "covers canonical_next canonicalLengths (unat (y :: byte)) i"
  shows "x = y"
  using assms cnum_bound [of x] cnum_bound [of y] cnum_inject [of x y]
  by (auto simp: covers_canonical ccode_def split: if_splits)

lemma byte_index: "k < 256 \<Longrightarrow> \<exists>x :: byte. k = unat x"
  by (metis unat_byte)

lemma forest_hit:
  assumes "i < 256" and "covers canonical_next canonicalLengths (unat (x :: byte)) i"
  shows "Forest_Literal (forestTable global_tables ! i) = x"
    and "Forest_Consumed (forestTable global_tables ! i) = canonical_length (unat x)"
proof -
  have later: "\<forall>k' < length canonicalLengths. unat x < k' \<longrightarrow> \<not> covers canonical_next canonicalLengths k' i"
    using byte_index covers_unique [OF assms(2)] by (metis length_canonical nat_neq_iff)
  have "forestTable global_tables ! i = NewForestEntry x (canonical_length (unat x))"
    using short_forest_hit [OF canonical_small _ _ _ assms(2) later, of "replicate LookaheadSize 0" 0 "replicate 256 0"] assms(1)
    by (simp add: global_tables_eq short_tables_def LookaheadSize_def)
  then show "Forest_Literal (forestTable global_tables ! i) = x"
    and "Forest_Consumed (forestTable global_tables ! i) = canonical_length (unat x)"
    by (simp_all add: Forest_Literal_New Forest_Consumed_New)
qed

lemma forest_miss:
  assumes "103 \<le> i" and "i < 256"
  shows "Forest_Consumed (forestTable global_tables ! i) = 0"
proof -
  have "\<not> covers canonical_next canonicalLengths k i" if k: "k < 256" for k
  proof -
    obtain x :: byte where "k = unat x" using byte_index [OF k] by blast
    with cnum_bound [of x] assms(1) show ?thesis by (auto simp: covers_canonical ccode_def)
  qed
  then have "forestTable global_tables ! i = 0"
    using short_forest_skip [OF canonical_small, of i "replicate LookaheadSize 0" 0 "replicate 256 0"] assms(2)
    by (simp add: global_tables_eq short_tables_def LookaheadSize_def)
  then show ?thesis by (simp add: Forest_Consumed_def)
qed

section \<open>Bit streams\<close>

text \<open>The low \<open>n\<close> bits of a number, the highest first.\<close>

definition msb :: "nat \<Rightarrow> 'a :: semiring_bit_operations \<Rightarrow> bool list" where
  "msb n a = rev (map (bit a) [0..<n])"

abbreviation byte_bits :: "byte \<Rightarrow> bool list" where
  "byte_bits c \<equiv> msb 8 c"

abbreviation code_bits :: "byte \<Rightarrow> bool list" where
  "code_bits x \<equiv> msb (clen x) (ccode x)"

definition stream :: "bytes \<Rightarrow> bool list" where
  "stream xs = concat (map code_bits xs)"

lemma length_msb [simp]: "length (msb n a) = n"
  by (simp add: msb_def)

lemma nth_msb: "i < n \<Longrightarrow> msb n a ! i = bit a (n - 1 - i)"
  by (simp add: msb_def rev_nth)

lemma msb_split: "msb (m + k) a = msb m (drop_bit k a) @ msb k a"
  by (rule nth_equalityI) (auto simp: nth_msb nth_append bit_drop_bit_eq algebra_simps)

lemma msb_split_word: "k \<le> n \<Longrightarrow> msb n (a :: 'a :: len word) = msb (n - k) (drop_bit k a) @ msb k a"
  using msb_split [of "n - k" k a] by simp

lemma msb_push:
  fixes b c :: "64 word"
  assumes "n + m \<le> 64" and "\<forall>i \<ge> m. \<not> bit c i"
  shows "msb (n + m) (push_bit m b OR c) = msb n b @ msb m c"
  using assms by (intro nth_equalityI) (auto simp: nth_msb nth_append bit_simps add.commute [of m n])

lemma msb_ucast: "byte_bits (ucast (w :: 64 word)) = msb 8 w"
  by (rule nth_equalityI) (auto simp: nth_msb bit_simps)

lemma msb_of_nat: "n \<le> 64 \<Longrightarrow> msb n (of_nat a :: 64 word) = msb n a"
  by (rule nth_equalityI) (auto simp: nth_msb bit_simps)

lemma emit_bits:
  "snd (emit b n) = n mod 8 \<and> concat (map byte_bits (fst (emit b n))) @ msb (n mod 8) b = msb n b"
proof (induction b n rule: emit.induct)
  case (1 b n)
  show ?case
  proof (cases "8 \<le> n")
    case True
    obtain out k where e: "emit b (n - 8) = (out, k)" by (cases "emit b (n - 8)")
    have "msb n b = msb 8 (drop_bit (n - 8) b) @ msb (n - 8) b"
      using msb_split [of 8 "n - 8" b] True by simp
    with "1.IH" [OF True] e True show ?thesis
      by (simp add: emit.simps [of b n] msb_ucast le_mod_geq)
  qed (simp add: emit.simps [of b n])
qed

lemma ccode_high: "clen x \<le> i \<Longrightarrow> \<not> bit (ccode x) i"
  using ccode_bound [of x] by (metis bit_take_bit_iff not_less take_bit_nat_eq_self)

lemma clen_le: "clen x \<le> 9" "7 \<le> clen x"
  using clen_cases [of x] by auto

lemma pack_bits:
  assumes "n < 8"
  shows "\<exists>pad < 8. concat (map byte_bits (pack (encoderTable global_tables) xs b n)) = msb n b @ stream xs @ replicate pad False"
  using assms
proof (induction xs arbitrary: b n)
  case Nil
  have "byte_bits (ucast (push_bit (8 - n) b)) = msb n b @ replicate (8 - n) False"
    using Nil by (intro nth_equalityI) (auto simp: nth_msb nth_append bit_simps)
  moreover have "n = 0 \<Longrightarrow> msb n b = []" by (simp add: msb_def)
  ultimately show ?case
    using Nil by (cases "n = 0") (auto simp: stream_def intro: exI [of _ "8 - n"] exI [of _ 0])
next
  case (Cons x xs)
  let ?b = "push_bit (clen x) b OR of_nat (ccode x) :: 64 word"
  let ?n = "n + clen x"
  have "msb ?n ?b = msb n b @ msb (clen x) (of_nat (ccode x) :: 64 word)"
    using Cons.prems clen_le(1) [of x] ccode_high by (intro msb_push) (auto simp: bit_simps)
  then have bits: "msb ?n ?b = msb n b @ code_bits x"
    using clen_le(1) [of x] by (simp add: msb_of_nat)
  obtain out k where e: "emit ?b ?n = (out, k)" by (cases "emit ?b ?n")
  have k: "k = ?n mod 8" "concat (map byte_bits out) @ msb k ?b = msb n b @ code_bits x"
    using emit_bits [of ?b ?n] e bits by auto
  then obtain pad where pad: "pad < 8"
      "concat (map byte_bits (pack (encoderTable global_tables) xs ?b k)) = msb k ?b @ stream xs @ replicate pad False"
    using Cons.IH [of k ?b] by auto
  have "pack (encoderTable global_tables) (x # xs) b n = out @ pack (encoderTable global_tables) xs ?b k"
    using e Cons.prems clen_le(1) [of x] by (simp add: Let_def encoder_at clen_def)
  then have "concat (map byte_bits (pack (encoderTable global_tables) (x # xs) b n))
      = (concat (map byte_bits out) @ msb k ?b) @ stream xs @ replicate pad False"
    using pad(2) by simp
  then show ?case
    using pad(1) by (auto simp: k(2) stream_def)
qed

section \<open>Decoding a bit stream\<close>

lemma refill_bits:
  assumes "n \<le> 8" and "refill b n rest = (b', n', rest')"
  shows "msb n' b' @ concat (map byte_bits rest') = msb n b @ concat (map byte_bits rest)"
    and "n' \<le> 15" and "8 \<le> n' \<or> rest' = []"
proof -
  have "msb (n + 8) (push_bit 8 b OR ucast c) = msb n b @ byte_bits c" if "n < 8" for c :: byte
  proof -
    have "msb (n + 8) (push_bit 8 b OR ucast c) = msb n b @ msb 8 (ucast c :: 64 word)"
      using that by (intro msb_push) (auto simp: bit_simps dest: bit_imp_le_length)
    moreover have "msb 8 (ucast c :: 64 word) = byte_bits c"
      by (rule nth_equalityI) (auto simp: nth_msb bit_simps)
    ultimately show ?thesis by simp
  qed
  moreover have "refill b' (n + 8) r = (b', n + 8, r)" for b' r
    by (cases r) (simp_all add: LookaheadBits_def)
  ultimately show "msb n' b' @ concat (map byte_bits rest') = msb n b @ concat (map byte_bits rest)"
    and "n' \<le> 15" and "8 \<le> n' \<or> rest' = []"
    using assms by (cases rest; auto simp: LookaheadBits_def split: if_splits)+
qed

text \<open>The look-ahead index is the number whose bits come next.\<close>

lemma lookahead_bits:
  assumes "8 \<le> n" and "n \<le> 64"
  shows "unat (take_bit 8 (drop_bit (n - 8) b)) < 256"
    and "j < 8 \<Longrightarrow> bit (unat (take_bit 8 (drop_bit (n - 8) (b :: 64 word)))) j = msb n b ! (7 - j)"
proof -
  have "unat (take_bit 8 w) = take_bit 8 (unat w)" for w :: "64 word"
    by (simp add: unsigned_take_bit_eq)
  then show "unat (take_bit 8 (drop_bit (n - 8) b)) < 256"
    by (simp add: take_bit_eq_mod)
  show "j < 8 \<Longrightarrow> bit (unat (take_bit 8 (drop_bit (n - 8) (b :: 64 word)))) j = msb n b ! (7 - j)"
    using assms by (auto simp: nth_msb bit_simps)
qed

lemma nat_bits_eq:
  assumes "i < 2 ^ n" and "c < 2 ^ n" and "\<And>j. j < n \<Longrightarrow> bit i j = bit c j"
  shows "i = (c :: nat)"
proof (rule bit_eqI)
  fix j
  show "bit i j = bit c j"
  proof (cases "j < n")
    case False
    with assms(1,2) show ?thesis by (metis bit_take_bit_iff take_bit_nat_eq_self)
  qed (use assms(3) in simp)
qed

lemma lookahead_code:
  assumes n: "8 \<le> n" "n \<le> 64" and R: "msb n b @ Q = code_bits x @ R"
    and i: "i = unat (take_bit 8 (drop_bit (n - 8) (b :: 64 word)))"
  shows "clen x = 7 \<Longrightarrow> i div 2 = ccode x" and "clen x = 8 \<Longrightarrow> i = ccode x" and "clen x = 9 \<Longrightarrow> i = ccode x div 2"
proof -
  have bit: "bit i j = (code_bits x @ R) ! (7 - j)" if "j < 8" for j
  proof -
    have "(msb n b @ Q) ! (7 - j) = msb n b ! (7 - j)"
      using n by (intro nth_append_left) simp
    then show ?thesis using lookahead_bits(2) [OF n that, of b] by (simp add: i R)
  qed
  have i256: "i < 2 ^ 8" using lookahead_bits(1) [OF n, of b] i by simp
  show "i div 2 = ccode x" if l: "clen x = 7"
  proof (rule nat_bits_eq [where n = 7])
    show "bit (i div 2) j = bit (ccode x) j" if "j < 7" for j
      using bit [of "Suc j"] that l by (simp add: bit_Suc [symmetric] nth_append nth_msb less_imp_diff_less)
  qed (use i256 ccode_bound [of x] l in auto)
  show "i = ccode x" if l: "clen x = 8"
  proof (rule nat_bits_eq [where n = 8])
    show "bit i j = bit (ccode x) j" if "j < 8" for j
      using bit [of j] that l by (simp add: nth_append nth_msb less_imp_diff_less)
  qed (use i256 ccode_bound [of x] l in auto)
  show "i = ccode x div 2" if l: "clen x = 9"
  proof (rule nat_bits_eq [where n = 8])
    show "bit i j = bit (ccode x div 2) j" if "j < 8" for j
      using bit [of j] that l by (simp add: bit_Suc [symmetric] nth_append nth_msb less_imp_diff_less)
  qed (use i256 ccode_bound [of x] l in auto)
qed

lemma space_code: "clen 0x20 = 7" "ccode 0x20 = 0"
  by code_simp+

lemma consumed_cases: "clen x \<noteq> 9 \<Longrightarrow> 0 < canonical_length (unat x)"
  by (auto simp: clen_def canonical_length_def word_gt_0)

text \<open>One round of the decoder, with at least eight bits ahead.\<close>

lemma unpack_step:
  assumes n: "n \<le> 8" and R: "msb n b @ concat (map byte_bits rest) = code_bits x @ R" and len: "8 \<le> clen x + length R"
  shows "clen x = 9 \<Longrightarrow> unpack (forestTable global_tables) (Suc k) b n rest = Inl ErrSparsePath"
    and "clen x \<noteq> 9 \<Longrightarrow> \<exists>b' n' rest'. n' \<le> 8 \<and> msb n' b' @ concat (map byte_bits rest') = R
      \<and> unpack (forestTable global_tables) (Suc k) b n rest =
        (case unpack (forestTable global_tables) k b' n' rest' of Inl e \<Rightarrow> Inl e | Inr xs \<Rightarrow> Inr (x # xs))"
proof -
  obtain b1 n1 r1 where e: "refill b n rest = (b1, n1, r1)" by (cases "refill b n rest")
  note F = refill_bits [OF n e]
  have R1: "msb n1 b1 @ concat (map byte_bits r1) = code_bits x @ R" using F(1) R by simp
  have "r1 = [] \<Longrightarrow> n1 = clen x + length R" using arg_cong [OF R1, of length] by simp
  then have n8: "8 \<le> n1" using F(3) len by auto
  define i where "i = unat (take_bit 8 (drop_bit (n1 - 8) b1))"
  note C = lookahead_code [OF n8 _ R1 i_def]
  have i256: "i < 256" using lookahead_bits(1) [of n1 b1] n8 F(2) by (simp add: i_def)
  have shift: "(n1 + 256 - LookaheadBits) mod 256 = n1 - 8" using n8 F(2) by (simp add: LookaheadBits_def mod_if)
  show "unpack (forestTable global_tables) (Suc k) b n rest = Inl ErrSparsePath" if l: "clen x = 9"
  proof -
    have "i = ccode x div 2" using C(3) l F(2) by simp
    then have "103 \<le> i" using cnum_bound [of x] l by (simp add: ccode_def)
    then show ?thesis using forest_miss [OF _ i256] e shift by (simp add: Let_def i_def)
  qed
  show "\<exists>b' n' rest'. n' \<le> 8 \<and> msb n' b' @ concat (map byte_bits rest') = R
      \<and> unpack (forestTable global_tables) (Suc k) b n rest =
        (case unpack (forestTable global_tables) k b' n' rest' of Inl e \<Rightarrow> Inl e | Inr xs \<Rightarrow> Inr (x # xs))" if l: "clen x \<noteq> 9"
  proof (intro exI conjI)
    have "covers canonical_next canonicalLengths (unat x) i"
      using l clen_cases [of x] C(1,2) F(2) by (auto simp: covers_canonical)
    note H = forest_hit [OF i256 this]
    have le: "clen x \<le> n1" and eq: "(n1 + 256 - clen x) mod 256 = n1 - clen x"
      using l clen_cases [of x] n8 F(2) by (auto simp: mod_if)
    show "n1 - clen x \<le> 8" using clen_le [of x] F(2) by simp
    have "msb n1 b1 = msb (clen x) (drop_bit (n1 - clen x) b1) @ msb (n1 - clen x) b1"
      using msb_split [of "clen x" "n1 - clen x" b1] le by simp
    with R1 show "msb (n1 - clen x) b1 @ concat (map byte_bits r1) = R" by simp
    show "unpack (forestTable global_tables) (Suc k) b n rest =
        (case unpack (forestTable global_tables) k b1 (n1 - clen x) r1 of Inl e \<Rightarrow> Inl e | Inr xs \<Rightarrow> Inr (x # xs))"
      using consumed_cases [OF l]
      by (simp only: unpack.simps e prod.case shift Let_def i_def [symmetric] H clen_def [symmetric] eq if_True)
  qed
qed

text \<open>The last round with seven bits ahead: the shift count wraps and a space is decoded.\<close>

lemma unpack_tail:
  assumes n: "n \<le> 8" and R: "msb n b @ concat (map byte_bits rest) = code_bits x" and l: "clen x = 7"
  shows "unpack (forestTable global_tables) (Suc 0) b n rest = Inr [0x20]"
proof -
  obtain b1 n1 r1 where e: "refill b n rest = (b1, n1, r1)" by (cases "refill b n rest")
  note F = refill_bits [OF n e]
  have "n1 + 8 * length r1 = 7"
    using arg_cong [OF F(1), of length] arg_cong [OF R, of length] l by (simp add: length_concat o_def sum_list_triv)
  then have "n1 = 7" by presburger
  moreover have "drop_bit 255 b1 = 0" by (rule bit_eqI) (auto simp: bit_simps dest: bit_imp_le_length)
  moreover have "covers canonical_next canonicalLengths (unat (0x20 :: byte)) 0"
    unfolding covers_canonical by (simp add: space_code)
  then have "Forest_Literal (forestTable global_tables ! 0) = 0x20"
      "Forest_Consumed (forestTable global_tables ! 0) = canonical_length (unat (0x20 :: byte))"
    by (rule forest_hit [OF zero_less_numeral])+
  moreover have "0 < canonical_length (unat (0x20 :: byte))"
    using space_code(1) by (intro consumed_cases) simp
  ultimately show ?thesis using e by (simp add: Let_def LookaheadBits_def)
qed

definition tail_lost :: "bytes \<Rightarrow> bool" where
  "tail_lost xs \<longleftrightarrow> xs \<noteq> [] \<and> clen (last xs) = 7 \<and> 8 dvd length (stream xs)"

definition decoded :: "bytes \<Rightarrow> bytes" where
  "decoded xs = (if tail_lost xs then butlast xs @ [0x20] else xs)"

lemma unpack_stream:
  assumes "n \<le> 8" and "pad < 8" and "msb n b @ concat (map byte_bits rest) = stream xs @ replicate pad False"
  shows "unpack (forestTable global_tables) (length xs) b n rest =
    (if \<exists>x \<in> set xs. clen x = 9 then Inl ErrSparsePath
     else Inr (if xs \<noteq> [] \<and> clen (last xs) = 7 \<and> pad = 0 then butlast xs @ [0x20] else xs))"
  using assms
proof (induction xs arbitrary: b n rest)
  case (Cons x xs)
  let ?R = "stream xs @ replicate pad False"
  have R: "msb n b @ concat (map byte_bits rest) = code_bits x @ ?R"
    using Cons.prems(3) by (simp add: stream_def)
  show ?case
  proof (cases "8 \<le> clen x + length ?R")
    case True
    note S = unpack_step [OF Cons.prems(1) R True, of "length xs"]
    show ?thesis
    proof (cases "clen x = 9")
      case False
      then obtain b' n' rest' where *: "n' \<le> 8" "msb n' b' @ concat (map byte_bits rest') = ?R"
        "unpack (forestTable global_tables) (Suc (length xs)) b n rest =
          (case unpack (forestTable global_tables) (length xs) b' n' rest' of Inl e \<Rightarrow> Inl e | Inr ys \<Rightarrow> Inr (x # ys))"
        using S(2) by blast
      have "xs = [] \<Longrightarrow> clen x = 7 \<Longrightarrow> pad \<noteq> 0" using True by (auto simp: stream_def)
      with Cons.IH [OF *(1) assms(2) *(2)] *(3) False show ?thesis by auto
    qed (use S(1) in simp)
  next
    case False
    have "length (stream ys) \<ge> 7" if "ys \<noteq> []" for ys
      using that clen_le(2) [of "hd ys"] by (cases ys) (auto simp: stream_def)
    then have "xs = []" "clen x = 7" "pad = 0"
      using False clen_le(2) [of x] by (fastforce, auto)
    with R unpack_tail [OF Cons.prems(1) _ this(2)] show ?thesis by (simp add: stream_def)
  qed
qed simp

section \<open>Runs\<close>

definition has_run :: "bytes \<Rightarrow> bool" where
  "has_run s \<longleftrightarrow> (\<exists>i < length s. run4 (drop i s))"

lemma has_run_Nil [simp]: "\<not> has_run []"
  by (simp add: has_run_def)

lemma has_run_Cons: "has_run (x # s) \<longleftrightarrow> run4 (x # s) \<or> has_run s"
  by (auto simp: has_run_def less_Suc_eq_0_disj)

lemma lre_id: "\<not> has_run s \<Longrightarrow> lre s = s"
  by (induction s rule: list.induct) (simp_all add: lre.simps has_run_Cons)

lemma lre_marks: "has_run s \<Longrightarrow> 0xFE \<in> set (lre s)"
proof (induction s rule: list.induct)
  case (Cons x s)
  then show ?case by (cases "run4 (x # s)") (simp_all add: lre.simps [of "x # s"] has_run_Cons)
qed (simp add: has_run_def)

lemma run_len_bounds:
  assumes "run4 s"
  shows "4 \<le> run_len s" and "run_len s \<le> length s"
proof -
  from assms have "4 \<le> length s" by (simp add: run4_def)
  then obtain a b c d r where s: "s = a # b # c # d # r"
    by (auto simp: numeral_eq_Suc Suc_le_length_iff)
  with assms have "b = a" "c = a" "d = a" by (auto simp: run4_def eval_nat_numeral)
  then show "4 \<le> run_len s" by (simp add: run_len_def s)
  show "run_len s \<le> length s"
    using length_takeWhile_le [of "\<lambda>x. x = hd s" s] by (simp add: run_len_def)
qed

lemma length_lre: "length (lre s) \<le> length s"
proof (induction s rule: lre.induct)
  case (1 s)
  show ?case
  proof (cases "s \<noteq> [] \<and> run4 s")
    case True
    with "1.IH"(1) run_len_bounds [of s] show ?thesis by (simp add: lre.simps [of s])
  next
    case False
    with "1.IH"(2) show ?thesis
      by (cases s) (simp_all add: lre.simps [of "[]"] lre.simps [of "_ # _"])
  qed
qed

lemma lre_nonempty: "s \<noteq> [] \<Longrightarrow> lre s \<noteq> []"
  by (simp add: lre.simps [of s])

lemma expand_id: "0xFE \<notin> set xs \<Longrightarrow> expand xs = Inr xs"
  by (induction xs) auto

lemma mark_long: "clen 0xFE = 9"
  by code_simp

lemma length_stream: "length (stream xs) = (\<Sum>x \<leftarrow> xs. clen x)"
  by (simp add: stream_def length_concat o_def)

lemma stream_bound: "length (stream xs) \<le> 9 * length xs"
  using clen_le(1) by (induction xs) (auto simp: stream_def intro: add_mono)

section \<open>Blocks\<close>

lemma length_be16 [simp]: "length (be16 x) = 2"
  by (simp add: be16_def)

lemma be16_value: "x < 65536 \<Longrightarrow> unat (be16 x ! 0) * 256 + unat (be16 x ! 1) = x"
  by (simp add: be16_def unat_of_nat take_bit_eq_mod)

lemma pad_div:
  assumes "8 * p = s + pad" and "pad < (8 :: nat)"
  shows "p = (s + 7) div 8"
proof -
  have "s + 7 = 7 - pad + 8 * p" using assms by linarith
  then show ?thesis using assms(2) by simp
qed

lemma pad_dvd:
  assumes "8 * p = s + pad" and "pad < (8 :: nat)"
  shows "pad = 0 \<longleftrightarrow> 8 dvd s"
proof
  assume "8 dvd s"
  moreover have "8 dvd s + pad" using assms(1) by (metis dvd_triv_left)
  ultimately have "8 dvd pad" by (simp add: dvd_add_right_iff)
  with assms(2) show "pad = 0" by (meson dvd_imp_le gr0I not_less)
qed (metis add.right_neutral assms(1) dvd_triv_left)

lemma pack_length:
  "length (pack (encoderTable global_tables) xs 0 0) = (length (stream xs) + 7) div 8"
proof -
  obtain pad where pad: "pad < 8"
    "concat (map byte_bits (pack (encoderTable global_tables) xs 0 0)) = msb 0 (0 :: 64 word) @ stream xs @ replicate pad False"
    using pack_bits [of 0 xs 0] by auto
  have "8 * length (pack (encoderTable global_tables) xs 0 0) = length (stream xs) + pad"
    using arg_cong [OF pad(2), of length] by (simp add: length_concat o_def sum_list_triv mult.commute)
  from pad_div [OF this pad(1)] show ?thesis .
qed

lemma unpack_pack:
  "unpack (forestTable global_tables) (length xs) 0 0 (pack (encoderTable global_tables) xs 0 0) =
     (if \<exists>x \<in> set xs. clen x = 9 then Inl ErrSparsePath else Inr (decoded xs))"
proof -
  obtain pad where pad: "pad < 8"
    "concat (map byte_bits (pack (encoderTable global_tables) xs 0 0)) = msb 0 (0 :: 64 word) @ stream xs @ replicate pad False"
    using pack_bits [of 0 xs 0] by auto
  have "8 * length (pack (encoderTable global_tables) xs 0 0) = length (stream xs) + pad"
    using arg_cong [OF pad(2), of length] by (simp add: length_concat o_def sum_list_triv mult.commute)
  then have "pad = 0 \<longleftrightarrow> 8 dvd length (stream xs)" using pad(1) by (rule pad_dvd)
  then show ?thesis
    using unpack_stream [of 0 pad 0 "pack (encoderTable global_tables) xs 0 0" xs] pad
    by (simp add: decoded_def tail_lost_def msb_def)
qed

definition block :: "bytes \<Rightarrow> bytes" where
  "block src = [0x53, 0x48] @ be16 (length src) @ be16 (length (lre src)) @ pack (encoderTable global_tables) (lre src) 0 0"

lemma length_block: "length (block src) = 6 + (length (stream (lre src)) + 7) div 8"
  by (simp add: block_def pack_length)

lemma block_bound: "length (block src) \<le> 6 + (9 * length src + 7) div 8"
proof -
  have "length (stream (lre src)) \<le> 9 * length src"
    using stream_bound [of "lre src"] length_lre [of src] by simp
  then show ?thesis by (simp add: length_block div_le_mono)
qed

lemma Compress_block:
  assumes "src \<noteq> []" and "length src \<le> MaxBlockSize" and "6 + (9 * length src + 7) div 8 \<le> length dst"
  shows "Compress global_tables src dst = Inr (length (block src), blit dst 0 (block src))"
  using assms block_bound [of src] by (auto simp: Compress_def Let_def block_def)

lemma Decompress_block:
  assumes "length src \<le> MaxBlockSize" and "length src \<le> length dst"
  shows "Decompress global_tables (block src) dst =
    (if has_run src \<or> (\<exists>x \<in> set src. clen x = 9) then Inl ErrSparsePath
     else Inr (length src, blit dst 0 (decoded src)))"
proof -
  let ?p = "pack (encoderTable global_tables) (lre src) 0 0"
  have len: "length (lre src) < 65536" using length_lre [of src] assms(1) by (simp add: MaxBlockSize_def)
  have size: "unat (block src ! 4) * 256 + unat (block src ! 5) = length (lre src)" "drop 6 (block src) = ?p" "6 \<le> length (block src)"
    using be16_value [OF len] by (simp_all add: block_def be16_def)
  have same: "length (decoded src) = length src" by (cases src) (auto simp: decoded_def tail_lost_def)
  show ?thesis
  proof (cases "has_run src \<or> (\<exists>x \<in> set src. clen x = 9)")
    case True
    then have "\<exists>x \<in> set (lre src). clen x = 9"
      using lre_marks [of src] mark_long lre_id [of src] by (cases "has_run src") auto
    with True size show ?thesis by (simp add: Decompress_def unpack_pack)
  next
    case False
    then have id: "lre src = src" by (simp add: lre_id)
    have "0xFE \<notin> set (decoded src)"
      using False mark_long by (auto simp: decoded_def dest: in_set_butlastD)
    with False size same assms(2) show ?thesis
      by (simp add: Decompress_def id unpack_pack expand_id)
  qed
qed

section \<open>Properties\<close>

text \<open>C21: What the block codec does, for every block of admissible size, with the tables the
  program builds at start. Compression succeeds whenever the destination has
  six bytes and nine bits per byte of input, and writes that much at most. Decompression of the
  written block restores the block only when it consists of lower-case and upper-case letters,
  digits, spaces and the characters quote, underscore and colon, without a run of four equal
  bytes; any other block is answered by the error of the missing tree walk. And when the last
  byte has a code of seven bits that ends at a byte boundary, a space is returned in its
  place.\<close>

theorem block_codec_exact:
  assumes "src \<noteq> []" and "length src \<le> MaxBlockSize"
    and "6 + (9 * length src + 7) div 8 \<le> length dst" and "length src \<le> length dst2"
    and "Compress global_tables src dst = r"
  shows "\<exists>n d. r = Inr (n, d) \<and> n \<le> 6 + (9 * length src + 7) div 8 \<and> length d = length dst
    \<and> Decompress global_tables (take n d) dst2 =
       (if has_run src \<or> (\<exists>x \<in> set src. clen x = 9) then Inl ErrSparsePath
        else Inr (length src, blit dst2 0
          (if clen (last src) = 7 \<and> 8 dvd (\<Sum>x \<leftarrow> src. clen x) then butlast src @ [0x20] else src)))"
proof (intro exI conjI)
  have fit: "length (block src) \<le> length dst" using block_bound [of src] assms(3) by simp
  show "r = Inr (length (block src), blit dst 0 (block src))"
    using Compress_block [OF assms(1-3)] assms(5) by simp
  show "length (block src) \<le> 6 + (9 * length src + 7) div 8" by (rule block_bound)
  show "length (blit dst 0 (block src)) = length dst" using fit by simp
  have "take (length (block src)) (blit dst 0 (block src)) = block src" by (simp add: blit_def)
  then show "Decompress global_tables (take (length (block src)) (blit dst 0 (block src))) dst2 =
       (if has_run src \<or> (\<exists>x \<in> set src. clen x = 9) then Inl ErrSparsePath
        else Inr (length src, blit dst2 0
          (if clen (last src) = 7 \<and> 8 dvd (\<Sum>x \<leftarrow> src. clen x) then butlast src @ [0x20] else src)))"
    using Decompress_block [OF assms(2,4)] assms(1) by (simp add: decoded_def tail_lost_def length_stream)
qed

theorem block_codec_exact_witness:
  "\<exists>n d. Compress global_tables [97, 98, 99, 100, 101, 102, 103, 104] (replicate 16 0) = Inr (n, d)
     \<and> Decompress global_tables (take n d) (replicate 8 0) = Inr (8, [97, 98, 99, 100, 101, 102, 103, 0x20])"
proof -
  let ?s = "[97, 98, 99, 100, 101, 102, 103, 104] :: bytes"
  have l: "map clen ?s = [7, 7, 7, 7, 7, 7, 7, 7]" by code_simp
  have "\<not> has_run ?s" by (simp add: has_run_Cons run4_def eval_nat_numeral)
  moreover have "clen 97 = 7" "clen 98 = 7" "clen 99 = 7" "clen 100 = 7" "clen 101 = 7" "clen 102 = 7" "clen 103 = 7" "clen 104 = 7"
    using l by simp_all
  moreover have "length ?s \<le> MaxBlockSize" by (simp add: MaxBlockSize_def)
  ultimately show ?thesis
    using block_codec_exact [of ?s "replicate 16 0" "replicate 8 0", OF _ _ _ _ refl]
    by (auto simp: blit_def)
qed

end
