(* ===== verification/BTreePage.thy ===== *)
theory BTreePage
  imports Page
begin

text \<open>
  The page level of \<open>btree.go\<close> and of the leaf loops of \<open>kv_store.go\<close>: header
  accessors, the free-space scan, lookup, insertion and deletion in a leaf, routing,
  insertion and both splits of nodes.

  The functions walk the raw bytes of a page with the guards of the source. The
  representation predicates \<open>leaf_rep\<close> and \<open>node_rep\<close> say that the bytes behind the
  header hold a given list of cells; the lemmas describe each walk on such a page.
\<close>

section \<open>Header fields\<close>

definition BTreeInit :: "bytes \<Rightarrow> bytes" where "BTreeInit d = zero_range d 0 BTreeHeaderSize"
definition PageType :: "bytes \<Rightarrow> nat" where "PageType d = rd_le 2 d 0"
definition SetPageType :: "nat \<Rightarrow> bytes \<Rightarrow> bytes" where "SetPageType t d = wr_le 2 d 0 t"
definition NumCells :: "bytes \<Rightarrow> nat" where "NumCells d = rd_le 2 d 2"
definition SetNumCells :: "nat \<Rightarrow> bytes \<Rightarrow> bytes" where "SetNumCells n d = wr_le 2 d 2 n"
definition NextLeafID :: "bytes \<Rightarrow> PageID" where "NextLeafID d = word_of_nat (rd_le 8 d 4)"
definition SetNextLeafID :: "PageID \<Rightarrow> bytes \<Rightarrow> bytes" where "SetNextLeafID i d = wr_le 8 d 4 (unat i)"
definition ParentID :: "bytes \<Rightarrow> PageID" where "ParentID d = word_of_nat (rd_le 8 d 12)"
definition SetParentID :: "PageID \<Rightarrow> bytes \<Rightarrow> bytes" where "SetParentID i d = wr_le 8 d 12 (unat i)"

text \<open>The rightmost child is stored in four bytes: \<open>uint32(id)\<close> drops the high half.\<close>

definition RightmostChildID :: "bytes \<Rightarrow> PageID" where
  "RightmostChildID d = word_of_nat (rd_le 4 d 20)"
definition SetRightmostChildID :: "PageID \<Rightarrow> bytes \<Rightarrow> bytes" where
  "SetRightmostChildID i d = wr_le 4 d 20 (unat i)"

lemmas btree_header_defs =
  PageType_def SetPageType_def NumCells_def SetNumCells_def NextLeafID_def SetNextLeafID_def
  ParentID_def SetParentID_def RightmostChildID_def SetRightmostChildID_def

section \<open>Free space\<close>

fun safe_loop :: "nat \<Rightarrow> bytes \<Rightarrow> nat \<Rightarrow> nat option" where
  "safe_loop 0 d off = Some off"
| "safe_loop (Suc n) d off =
     (if PageType d = PageTypeLeaf then
        if PageSize < off + 4 then None
        else let kLen = rd_le 2 d off; vLen = rd_le 2 d (off + 2)
             in if PageSize < off + 4 + kLen + vLen then None
                else safe_loop n d (off + 4 + kLen + vLen)
      else
        if PageSize < off + 10 then None
        else let kLen = rd_le 2 d off
             in if PageSize < off + 10 + kLen then None
                else safe_loop n d (off + 10 + kLen))"

definition BTree_IsSafeForInsert :: "nat \<Rightarrow> bytes \<Rightarrow> bool" where
  "BTree_IsSafeForInsert requiredBytes d =
     (case safe_loop (NumCells d) d BTreeHeaderSize of
        None \<Rightarrow> False
      | Some off \<Rightarrow> u32 (off + requiredBytes) < PageSize)"

section \<open>Leaf cells\<close>

text \<open>The loop of \<open>BTreeKVStore.Get\<close>.\<close>

fun get_loop :: "nat \<Rightarrow> bytes \<Rightarrow> nat \<Rightarrow> bytes \<Rightarrow> bytes option" where
  "get_loop 0 d off key = None"
| "get_loop (Suc n) d off key =
     (if PageSize < off + 4 then None
      else let kLen = rd_le 2 d off; vLen = rd_le 2 d (off + 2)
           in if PageSize < off + 4 + kLen + vLen then None
              else if key = slice d (off + 4) (off + 4 + kLen)
                   then Some (slice d (off + 4 + kLen) (off + 4 + kLen + vLen))
                   else get_loop n d (off + 4 + kLen + vLen) key)"

definition leaf_Get :: "bytes \<Rightarrow> bytes \<Rightarrow> bytes result" where
  "leaf_Get d key =
     (case get_loop (NumCells d) d BTreeHeaderSize key of
        Some v \<Rightarrow> Inr v
      | None \<Rightarrow> Inl ErrKeyNotFound)"

text \<open>The search loop shared by the purge of \<open>insertIntoLeaf\<close> and by \<open>Delete\<close>:
  offset and size of the first cell with the key.\<close>

fun find_cell :: "nat \<Rightarrow> bytes \<Rightarrow> nat \<Rightarrow> bytes \<Rightarrow> (nat \<times> nat) option" where
  "find_cell 0 d off key = None"
| "find_cell (Suc n) d off key =
     (if PageSize < off + 4 then None
      else let kLen = rd_le 2 d off; vLen = rd_le 2 d (off + 2); cellBytes = 4 + kLen + vLen
           in if PageSize < off + cellBytes then None
              else if key = slice d (off + 4) (off + 4 + kLen) then Some (off, cellBytes)
                   else find_cell n d (off + cellBytes) key)"

fun tail_loop :: "nat \<Rightarrow> bytes \<Rightarrow> nat \<Rightarrow> nat" where
  "tail_loop 0 d t = t"
| "tail_loop (Suc n) d t =
     (if PageSize < t + 4 then t
      else tail_loop n d (t + 4 + rd_le 2 d t + rd_le 2 d (t + 2)))"

text \<open>Sliding the cells behind the deleted one over it and clearing the freed tail; both
  \<open>deleteLeafCell\<close> and \<open>Delete\<close> do this.\<close>

definition slide_out :: "nat \<Rightarrow> nat \<Rightarrow> nat \<Rightarrow> bytes \<Rightarrow> bytes" where
  "slide_out off cellBytes tail d =
     zero_range (blit d off (slice d (off + cellBytes) tail)) (tail - cellBytes) tail"

definition deleteLeafCell :: "page \<Rightarrow> nat \<Rightarrow> nat \<Rightarrow> error option \<times> page" where
  "deleteLeafCell node off cellBytes =
     (let d = pgData node; numCells = NumCells d;
          tailOffset = tail_loop numCells d BTreeHeaderSize
      in if tailOffset < off + cellBytes \<or> PageSize < tailOffset then (Some ErrPageFull, node)
         else (None, node\<lparr>pgData := SetNumCells (u16 (numCells + 65535)) (slide_out off cellBytes tailOffset d),
                          pgVersion := pgVersion node + 1\<rparr>))"

text \<open>The outer \<open>for\<close> of the purge. Every round that does not stop removes a cell, so
  \<open>NumCells + 1\<close> rounds are enough (lemma \<open>purge_fuel\<close>).\<close>

fun purge :: "nat \<Rightarrow> page \<Rightarrow> bytes \<Rightarrow> error option \<times> page" where
  "purge 0 node key = (Some OutOfFuel, node)"
| "purge (Suc fuel) node key =
     (case find_cell (NumCells (pgData node)) (pgData node) BTreeHeaderSize key of
        None \<Rightarrow> (None, node)
      | Some (off, cellBytes) \<Rightarrow>
          (case deleteLeafCell node off cellBytes of
             (Some e, node') \<Rightarrow> (Some e, node')
           | (None, node') \<Rightarrow> purge fuel node' key))"

text \<open>The positioning loop: the offset of the first cell with a greater key, if any, and
  the end of the cells.\<close>

fun insert_scan :: "nat \<Rightarrow> bytes \<Rightarrow> nat \<Rightarrow> bytes \<Rightarrow> nat option \<Rightarrow> nat option \<times> nat" where
  "insert_scan 0 d off key ins = (ins, off)"
| "insert_scan (Suc n) d off key ins =
     (if PageSize < off + 4 then (ins, off)
      else let kLen = rd_le 2 d off; vLen = rd_le 2 d (off + 2); cellBytes = 4 + kLen + vLen
           in if PageSize < off + cellBytes then (ins, off)
              else insert_scan n d (off + cellBytes) key
                     (if ins = None \<and> key < slice d (off + 4) (off + 4 + kLen) then Some off else ins))"

text \<open>\<open>copy(d[a:b], src)\<close>: a panic when the bounds are not those of a slice.\<close>

definition go_copy :: "bytes \<Rightarrow> nat \<Rightarrow> nat \<Rightarrow> bytes \<Rightarrow> bytes result" where
  "go_copy d a b src =
     (if b < a \<or> length d < b then Inl GoPanic else Inr (blit d a (take (b - a) src)))"

definition put_leaf_cell :: "nat \<Rightarrow> bytes \<Rightarrow> bytes \<Rightarrow> bytes \<Rightarrow> bytes result" where
  "put_leaf_cell ins newKey newVal d =
     (let d1 = wr_le 2 d ins (length newKey);
          d2 = wr_le 2 d1 (ins + 2) (length newVal);
          keyStart = ins + 4;
          valStart = u32 (keyStart + length newKey)
      in case go_copy d2 keyStart valStart newKey of
           Inl e \<Rightarrow> Inl e
         | Inr d3 \<Rightarrow> go_copy d3 valStart (u32 (valStart + length newVal)) newVal)"

definition insertIntoLeaf :: "page \<Rightarrow> bytes \<Rightarrow> bytes \<Rightarrow> error option \<times> page" where
  "insertIntoLeaf node newKey newVal =
     (let reqBytes = u32 (4 + length newKey + length newVal)
      in case purge (Suc (NumCells (pgData node))) node newKey of
           (Some e, node1) \<Rightarrow> (Some e, node1)
         | (None, node1) \<Rightarrow>
             let d = pgData node1; numCells = NumCells d
             in if \<not> BTree_IsSafeForInsert reqBytes d then (Some ErrPageFull, node1)
                else let (found, off) = insert_scan numCells d BTreeHeaderSize newKey None;
                         insertOffset = (case found of Some i \<Rightarrow> i | None \<Rightarrow> off)
                     in if PageSize < u32 (insertOffset + reqBytes) then (Some ErrPageFull, node1)
                        else case (if insertOffset < off
                                   then go_copy d (u32 (insertOffset + reqBytes)) (u32 (off + reqBytes)) (slice d insertOffset off)
                                   else Inr d) of
                               Inl e \<Rightarrow> (Some e, node1)
                             | Inr d' \<Rightarrow>
                                 case put_leaf_cell insertOffset newKey newVal d' of
                                   Inl e \<Rightarrow> (Some e, node1)
                                 | Inr d'' \<Rightarrow>
                                     (None, node1\<lparr>pgData := SetNumCells (u16 (numCells + 1)) d'',
                                                  pgVersion := pgVersion node1 + 1\<rparr>))"

text \<open>\<open>BTreeKVStore.Delete\<close> on the leaf it found: only the first matching cell goes.\<close>

fun total_loop :: "nat \<Rightarrow> bytes \<Rightarrow> nat \<Rightarrow> nat" where
  "total_loop 0 d t = t"
| "total_loop (Suc n) d t =
     (if PageSize < t + 4 then t
      else let kl = rd_le 2 d t; vl = rd_le 2 d (t + 2)
           in if PageSize < t + 4 + kl + vl then t else total_loop n d (t + 4 + kl + vl))"

definition leaf_Delete :: "page \<Rightarrow> bytes \<Rightarrow> error option \<times> page" where
  "leaf_Delete node key =
     (let d = pgData node; numCells = NumCells d
      in case find_cell numCells d BTreeHeaderSize key of
           None \<Rightarrow> (Some ErrKeyNotFound, node)
         | Some (off, cellBytes) \<Rightarrow>
             let totalSize = total_loop numCells d BTreeHeaderSize
             in if off + cellBytes \<le> totalSize \<and> totalSize \<le> PageSize
                then (None, node\<lparr>pgData := SetNumCells (u16 (numCells + 65535)) (slide_out off cellBytes totalSize d),
                                 pgVersion := pgVersion node + 1, pgDirty := True\<rparr>)
                else (Some ErrCompactionFailed, node))"

section \<open>Splitting a leaf\<close>

text \<open>The loop that looks for the middle cell: its offset and, when it is reached, its key.\<close>

fun split_scan :: "nat \<Rightarrow> nat \<Rightarrow> bytes \<Rightarrow> nat \<Rightarrow> nat \<times> bytes" where
  "split_scan 0 i d off = (off, [])"
| "split_scan (Suc n) i d off =
     (if PageSize < off + 4 then (off, [])
      else let kLen = rd_le 2 d off; vLen = rd_le 2 d (off + 2)
           in if PageSize < off + 4 + kLen + vLen then (off, [])
              else if i = 0 then (off, slice d (off + 4) (off + 4 + kLen))
                   else split_scan n (i - 1) d (off + 4 + kLen + vLen))"

text \<open>The page work of \<open>SplitLeaf\<close>, between the allocation of the new page and the
  promotion: the old node, the new leaf and the promoted key. \<open>i\<close> above counts down to the
  midpoint.\<close>

definition split_leaf :: "page \<Rightarrow> page \<Rightarrow> page \<times> page \<times> bytes" where
  "split_leaf node newLeaf =
     (let n0 = SetNextLeafID (NextLeafID (pgData node)) (SetPageType PageTypeLeaf (BTreeInit (pgData newLeaf)));
          d0 = SetNextLeafID (pgID newLeaf) (pgData node);
          n1 = SetParentID (ParentID d0) n0;
          numCells = NumCells d0;
          midPoint = numCells div 2;
          (off0, midKey) = split_scan numCells midPoint d0 BTreeHeaderSize;
          off = (if PageSize < off0 then PageSize else off0);
          bytesToMove = PageSize - off;
          n2 = (if 0 < bytesToMove
                then blit n1 BTreeHeaderSize (take (PageSize - BTreeHeaderSize) (slice d0 off (off + bytesToMove)))
                else n1);
          n3 = SetNumCells (numCells - midPoint) n2;
          d1 = SetNumCells midPoint d0;
          d2 = zero_range d1 off PageSize
      in (node\<lparr>pgData := d2, pgVersion := pgVersion node + 1\<rparr>,
          newLeaf\<lparr>pgData := n3, pgVersion := pgVersion newLeaf + 1\<rparr>,
          midKey))"

section \<open>Internal nodes\<close>

fun child_loop :: "nat \<Rightarrow> bytes \<Rightarrow> nat \<Rightarrow> bytes \<Rightarrow> PageID" where
  "child_loop 0 d off searchKey = RightmostChildID d"
| "child_loop (Suc n) d off searchKey =
     (if PageSize < off + 10 then RightmostChildID d
      else let kLen = rd_le 2 d off
           in if PageSize < off + 10 + kLen then RightmostChildID d
              else if searchKey < slice d (off + 10) (off + 10 + kLen)
                   then word_of_nat (rd_le 8 d (off + 2))
                   else child_loop n d (off + 10 + kLen) searchKey)"

definition findChildInInternalNode :: "bytes \<Rightarrow> bytes \<Rightarrow> PageID" where
  "findChildInInternalNode d searchKey = child_loop (NumCells d) d BTreeHeaderSize searchKey"

fun node_scan :: "nat \<Rightarrow> bytes \<Rightarrow> nat \<Rightarrow> bytes \<Rightarrow> nat option \<Rightarrow> nat option \<times> nat" where
  "node_scan 0 d off key ins = (ins, off)"
| "node_scan (Suc n) d off key ins =
     (if PageSize < off + 10 then (ins, off)
      else let kLen = rd_le 2 d off
           in if PageSize < off + 10 + kLen then (ins, off)
              else node_scan n d (off + 10 + kLen) key
                     (if ins = None \<and> key < slice d (off + 10) (off + 10 + kLen) then Some off else ins))"

definition insertIntoInternal :: "page \<Rightarrow> bytes \<Rightarrow> PageID \<Rightarrow> PageID \<Rightarrow> error option \<times> page" where
  "insertIntoInternal node pivotKey leftChildID rightChildID =
     (let reqBytes = u32 (10 + length pivotKey); d = pgData node
      in if \<not> BTree_IsSafeForInsert reqBytes d then (Some ErrPageFull, node)
         else
           let numCells = NumCells d;
               (found, off) = node_scan numCells d BTreeHeaderSize pivotKey None;
               insertOffset = (case found of Some i \<Rightarrow> i | None \<Rightarrow> off);
               shifted = (case found of
                       None \<Rightarrow> Inr (SetRightmostChildID rightChildID d)
                     | Some _ \<Rightarrow>
                         if u32 (off + reqBytes) \<le> PageSize
                         then case go_copy d (u32 (insertOffset + reqBytes)) (u32 (off + reqBytes)) (slice d insertOffset off) of
                                Inl e \<Rightarrow> Inl e
                              | Inr x \<Rightarrow> Inr (wr_le 8 x (u32 (insertOffset + reqBytes + 2)) (unat rightChildID))
                         else Inr d)
           in case shifted of
                Inl e \<Rightarrow> (Some e, node)
              | Inr d1 \<Rightarrow>
                  if u32 (insertOffset + reqBytes) \<le> PageSize
                  then let d2 = wr_le 2 d1 insertOffset (length pivotKey);
                           d3 = wr_le 8 d2 (insertOffset + 2) (unat leftChildID)
                       in case go_copy d3 (insertOffset + 10) (u32 (insertOffset + 10 + length pivotKey)) pivotKey of
                            Inl e \<Rightarrow> (Some e, node\<lparr>pgData := d3\<rparr>)
                          | Inr d4 \<Rightarrow> (None, node\<lparr>pgData := SetNumCells (u16 (numCells + 1)) d4,
                                                  pgVersion := pgVersion node + 1\<rparr>)
                  else (None, node\<lparr>pgData := d1\<rparr>))"

text \<open>The loop of \<open>SplitInternalNode\<close>: the offset reached and, when the middle cell is
  found, its left child, its key and its end.\<close>

fun split_node_scan :: "nat \<Rightarrow> nat \<Rightarrow> bytes \<Rightarrow> nat \<Rightarrow> nat \<times> (PageID \<times> bytes \<times> nat) option" where
  "split_node_scan 0 i d off = (off, None)"
| "split_node_scan (Suc n) i d off =
     (if PageSize < off + 10 then (off, None)
      else let kLen = rd_le 2 d off
           in if PageSize < off + 10 + kLen then (off, None)
              else if i = 0
                   then (off, Some (word_of_nat (rd_le 8 d (off + 2)),
                                    slice d (off + 10) (off + 10 + kLen), off + 10 + kLen))
                   else split_node_scan n (i - 1) d (off + 10 + kLen))"

definition split_node :: "page \<Rightarrow> page \<Rightarrow> page \<times> page \<times> bytes" where
  "split_node node newInternal =
     (let d0 = pgData node;
          n0 = SetParentID (ParentID d0) (SetPageType PageTypeInternal (BTreeInit (pgData newInternal)));
          numCells = NumCells d0;
          midPoint = numCells div 2;
          (off, mid) = split_node_scan numCells midPoint d0 BTreeHeaderSize;
          (midCellLeftChild, pivotKey, end0) = (case mid of Some x \<Rightarrow> x | None \<Rightarrow> (0, [], 0));
          end1 = (if end0 = 0 \<or> PageSize < end0 then off else end0);
          midCellEnd = (if PageSize < end1 then PageSize else end1);
          n1 = SetRightmostChildID (RightmostChildID d0) n0;
          d1 = SetRightmostChildID midCellLeftChild d0;
          bytesToMove = PageSize - midCellEnd;
          n2 = (if 0 < bytesToMove
                then blit n1 BTreeHeaderSize (take (PageSize - BTreeHeaderSize) (slice d1 midCellEnd (midCellEnd + bytesToMove)))
                else n1);
          n3 = SetNumCells (u16 (numCells + 65535 - midPoint)) n2;
          d2 = SetNumCells midPoint d1;
          d3 = zero_range d2 midCellEnd PageSize
      in (node\<lparr>pgData := d3, pgVersion := pgVersion node + 1\<rparr>,
          newInternal\<lparr>pgData := n3, pgVersion := pgVersion newInternal + 1\<rparr>,
          pivotKey))"

section \<open>Leaf pages as lists of cells\<close>

definition enc_cell :: "bytes \<times> bytes \<Rightarrow> bytes" where
  "enc_cell c = put_le 2 (length (fst c)) @ put_le 2 (length (snd c)) @ fst c @ snd c"

abbreviation enc_cells :: "(bytes \<times> bytes) list \<Rightarrow> bytes" where
  "enc_cells cs \<equiv> concat (map enc_cell cs)"

definition leaf_rep :: "(bytes \<times> bytes) list \<Rightarrow> bytes \<Rightarrow> bool" where
  "leaf_rep cs d \<longleftrightarrow>
     length d = PageSize \<and> PageType d = PageTypeLeaf \<and> NumCells d = length cs \<and>
     has_prefix (drop BTreeHeaderSize d) (enc_cells cs)"

lemma length_enc_cell [simp]: "length (enc_cell c) = 4 + length (fst c) + length (snd c)"
  by (simp add: enc_cell_def)

lemma length_enc_cells_ge: "length cs \<le> length (enc_cells cs)"
  by (induction cs) auto

text \<open>The header of a page is its first 24 bytes; the accessors read nothing else.\<close>

lemma rd_le_take: "off + w \<le> n \<Longrightarrow> rd_le w (take n d) off = rd_le w d off"
  by (simp add: rd_le_def slice_def drop_take min_def)

lemma header_take [simp]:
  "PageType (take BTreeHeaderSize d) = PageType d" "NumCells (take BTreeHeaderSize d) = NumCells d"
  "NextLeafID (take BTreeHeaderSize d) = NextLeafID d" "ParentID (take BTreeHeaderSize d) = ParentID d"
  "RightmostChildID (take BTreeHeaderSize d) = RightmostChildID d"
  by (simp_all add: btree_header_defs BTreeHeaderSize_def rd_le_take)

lemma header_append [simp]:
  assumes "length h = BTreeHeaderSize"
  shows "PageType (h @ r) = PageType h" "NumCells (h @ r) = NumCells h" "NextLeafID (h @ r) = NextLeafID h"
    "ParentID (h @ r) = ParentID h" "RightmostChildID (h @ r) = RightmostChildID h"
    "SetNumCells n (h @ r) = SetNumCells n h @ r" "SetNextLeafID i (h @ r) = SetNextLeafID i h @ r"
    "SetParentID i (h @ r) = SetParentID i h @ r" "SetPageType t (h @ r) = SetPageType t h @ r"
    "SetRightmostChildID i (h @ r) = SetRightmostChildID i h @ r"
  using assms
  by (simp_all add: btree_header_defs BTreeHeaderSize_def rd_le_prefix wr_le_prefix)

lemma header_set [simp]:
  assumes "length h = BTreeHeaderSize"
  shows "length (SetNumCells n h) = BTreeHeaderSize" "length (SetNextLeafID i h) = BTreeHeaderSize"
    "length (SetParentID i h) = BTreeHeaderSize" "length (SetPageType t h) = BTreeHeaderSize"
    "length (SetRightmostChildID i h) = BTreeHeaderSize"
    "NumCells (SetNumCells n h) = u16 n" "PageType (SetNumCells n h) = PageType h"
    "NextLeafID (SetNumCells n h) = NextLeafID h" "ParentID (SetNumCells n h) = ParentID h"
    "RightmostChildID (SetNumCells n h) = RightmostChildID h"
    "NextLeafID (SetNextLeafID i h) = i" "PageType (SetNextLeafID i h) = PageType h"
    "NumCells (SetNextLeafID i h) = NumCells h" "ParentID (SetNextLeafID i h) = ParentID h"
    "ParentID (SetParentID i h) = i" "PageType (SetParentID i h) = PageType h"
    "NumCells (SetParentID i h) = NumCells h" "NextLeafID (SetParentID i h) = NextLeafID h"
    "PageType (SetPageType t h) = u16 t" "NumCells (SetPageType t h) = NumCells h"
    "NextLeafID (SetPageType t h) = NextLeafID h" "ParentID (SetPageType t h) = ParentID h"
    "RightmostChildID (SetRightmostChildID i h) = word_of_nat (unat i mod 2 ^ 32)"
    "PageType (SetRightmostChildID i h) = PageType h" "NumCells (SetRightmostChildID i h) = NumCells h"
    "ParentID (SetRightmostChildID i h) = ParentID h" "NextLeafID (SetRightmostChildID i h) = NextLeafID h"
  using assms word64_of_unat_mod [of i]
  by (simp_all add: btree_header_defs BTreeHeaderSize_def rd_wr_le_before rd_wr_le_after u16_def
      del: word64_of_unat_mod)

lemma leaf_rep_split:
  "leaf_rep cs d \<longleftrightarrow>
     (\<exists>h r. d = h @ enc_cells cs @ r \<and> length h = BTreeHeaderSize \<and> length d = PageSize \<and>
            PageType h = PageTypeLeaf \<and> NumCells h = length cs)"
proof
  assume *: "leaf_rep cs d"
  let ?h = "take BTreeHeaderSize d" and ?r = "drop (length (enc_cells cs)) (drop BTreeHeaderSize d)"
  have "d = ?h @ enc_cells cs @ ?r"
    using * unfolding leaf_rep_def has_prefix_def
    by (metis append_take_drop_id)
  with * show "\<exists>h r. d = h @ enc_cells cs @ r \<and> length h = BTreeHeaderSize \<and> length d = PageSize \<and>
            PageType h = PageTypeLeaf \<and> NumCells h = length cs"
    by (intro exI [of _ ?h] exI [of _ ?r]) (simp add: leaf_rep_def layout_defs header_take [unfolded BTreeHeaderSize_def])
next
  assume "\<exists>h r. d = h @ enc_cells cs @ r \<and> length h = BTreeHeaderSize \<and> length d = PageSize \<and>
            PageType h = PageTypeLeaf \<and> NumCells h = length cs"
  then show "leaf_rep cs d" by (auto simp: leaf_rep_def)
qed

text \<open>What a loop reads when it stands at a cell.\<close>

lemma cell_read:
  assumes d: "d = p @ enc_cell c @ r" and off: "length p = off" and len: "length d = PageSize"
  shows "off + 4 + length (fst c) + length (snd c) \<le> PageSize"
    and "rd_le 2 d off = length (fst c)"
    and "rd_le 2 d (off + 2) = length (snd c)"
    and "slice d (off + 4) (off + 4 + length (fst c)) = fst c"
    and "slice d (off + 4 + length (fst c)) (off + 4 + length (fst c) + length (snd c)) = snd c"
proof -
  show fits: "off + 4 + length (fst c) + length (snd c) \<le> PageSize"
    using assms by simp
  then have small: "length (fst c) < 65536" "length (snd c) < 65536"
    by (simp_all add: PageSize_def)
  show "rd_le 2 d off = length (fst c)"
    using small off unfolding d enc_cell_def by (simp add: rd_le_append)
  show "rd_le 2 d (off + 2) = length (snd c)"
    using rd_le_append [of "p @ put_le 2 (length (fst c))" "off + 2" "put_le 2 (length (snd c))" 2
        "fst c @ snd c @ r"] small off
    unfolding d enc_cell_def by simp
  show "slice d (off + 4) (off + 4 + length (fst c)) = fst c"
    using slice_append [of "p @ put_le 2 (length (fst c)) @ put_le 2 (length (snd c))" "off + 4"
        "off + 4 + length (fst c)" "fst c" "snd c @ r"] off
    unfolding d enc_cell_def by simp
  show "slice d (off + 4 + length (fst c)) (off + 4 + length (fst c) + length (snd c)) = snd c"
    using slice_append [of "p @ put_le 2 (length (fst c)) @ put_le 2 (length (snd c)) @ fst c" "off + 4 + length (fst c)"
        "off + 4 + length (fst c) + length (snd c)" "snd c" r] off
    unfolding d enc_cell_def by simp
qed

subsection \<open>The loops on a leaf\<close>

lemma get_loop_cells:
  "d = p @ enc_cells cs @ r \<Longrightarrow> length p = off \<Longrightarrow> length d = PageSize \<Longrightarrow>
   get_loop (length cs) d off key = map_of cs key"
proof (induction cs arbitrary: p off)
  case (Cons c cs)
  note read = cell_read [of d p c "enc_cells cs @ r" off]
  have "get_loop (length cs) d (off + 4 + length (fst c) + length (snd c)) key = map_of cs key"
    using Cons.prems by (intro Cons.IH [of "p @ enc_cell c"]) auto
  with Cons.prems read show ?case by (cases "key = fst c") (simp_all add: Let_def)
qed simp

lemma find_cell_none:
  "d = p @ enc_cells cs @ r \<Longrightarrow> length p = off \<Longrightarrow> length d = PageSize \<Longrightarrow> key \<notin> fst ` set cs \<Longrightarrow>
   find_cell (length cs) d off key = None"
proof (induction cs arbitrary: p off)
  case (Cons c cs)
  note read = cell_read [of d p c "enc_cells cs @ r" off]
  have "find_cell (length cs) d (off + (4 + length (fst c) + length (snd c))) key = None"
    using Cons.prems by (intro Cons.IH [of "p @ enc_cell c"]) auto
  with Cons.prems read show ?case by (auto simp: Let_def add.assoc)
qed simp

lemma find_cell_some:
  "d = p @ enc_cells (as @ (key, v) # bs) @ r \<Longrightarrow> length p = off \<Longrightarrow> length d = PageSize \<Longrightarrow>
   key \<notin> fst ` set as \<Longrightarrow>
   find_cell (length as + Suc (length bs)) d off key =
     Some (off + length (enc_cells as), 4 + length key + length v)"
proof (induction as arbitrary: p off)
  case Nil
  with cell_read [of d p "(key, v)" "enc_cells bs @ r" off] show ?case by (simp add: Let_def)
next
  case (Cons c as)
  note read = cell_read [of d p c "enc_cells (as @ (key, v) # bs) @ r" off]
  have "find_cell (length as + Suc (length bs)) d (off + (4 + length (fst c) + length (snd c))) key =
      Some (off + (4 + length (fst c) + length (snd c)) + length (enc_cells as), 4 + length key + length v)"
    using Cons.prems by (intro Cons.IH [of "p @ enc_cell c"]) auto
  with Cons.prems read show ?case by (auto simp: Let_def add.assoc)
qed

lemma tail_loop_cells:
  "d = p @ enc_cells cs @ r \<Longrightarrow> length p = off \<Longrightarrow> length d = PageSize \<Longrightarrow>
   tail_loop (length cs) d off = off + length (enc_cells cs) \<and>
   total_loop (length cs) d off = off + length (enc_cells cs)"
proof (induction cs arbitrary: p off)
  case (Cons c cs)
  note read = cell_read [of d p c "enc_cells cs @ r" off]
  have d: "d = (p @ enc_cell c) @ enc_cells cs @ r"
    and l: "length (p @ enc_cell c) = off + 4 + length (fst c) + length (snd c)"
    using Cons.prems by auto
  from Cons.prems read Cons.IH [OF d l] show ?case by (simp add: Let_def)
qed simp

lemma safe_loop_cells:
  "d = p @ enc_cells cs @ r \<Longrightarrow> length p = off \<Longrightarrow> length d = PageSize \<Longrightarrow> PageType d = PageTypeLeaf \<Longrightarrow>
   safe_loop (length cs) d off = Some (off + length (enc_cells cs))"
proof (induction cs arbitrary: p off)
  case (Cons c cs)
  note read = cell_read [of d p c "enc_cells cs @ r" off]
  have d: "d = (p @ enc_cell c) @ enc_cells cs @ r"
    and l: "length (p @ enc_cell c) = off + 4 + length (fst c) + length (snd c)"
    using Cons.prems by auto
  from Cons.prems read Cons.IH [OF d l] show ?case by (simp add: Let_def)
qed simp

lemma insert_scan_end:
  "d = p @ enc_cells cs @ r \<Longrightarrow> length p = off \<Longrightarrow> length d = PageSize \<Longrightarrow>
   snd (insert_scan (length cs) d off key ins) = off + length (enc_cells cs)"
proof (induction cs arbitrary: p off ins)
  case (Cons c cs)
  note read = cell_read [of d p c "enc_cells cs @ r" off]
  have d: "d = (p @ enc_cell c) @ enc_cells cs @ r"
    and l: "length (p @ enc_cell c) = off + (4 + length (fst c) + length (snd c))"
    using Cons.prems by auto
  from Cons.prems read Cons.IH [OF d l] show ?case by (simp add: Let_def add.assoc)
qed simp

lemma insert_scan_Some [simp]: "fst (insert_scan n d off key (Some i)) = Some i"
  by (induction n d off key "Some i" rule: insert_scan.induct) (simp_all add: Let_def)

text \<open>In a sorted leaf the insertion point lies behind the smaller keys.\<close>

lemma insert_scan_pos:
  "d = p @ enc_cells (as @ bs) @ r \<Longrightarrow> length p = off \<Longrightarrow> length d = PageSize \<Longrightarrow>
   \<forall>c\<in>set as. \<not> key < fst c \<Longrightarrow> (bs = [] \<or> key < fst (hd bs)) \<Longrightarrow>
   fst (insert_scan (length (as @ bs)) d off key None) =
     (if bs = [] then None else Some (off + length (enc_cells as)))"
proof (induction as arbitrary: p off)
  case Nil
  show ?case
  proof (cases bs)
    case (Cons c bs')
    with Nil cell_read [of d p c "enc_cells bs' @ r" off] show ?thesis by (simp add: Let_def)
  qed simp
next
  case (Cons c as)
  note read = cell_read [of d p c "enc_cells (as @ bs) @ r" off]
  have "fst (insert_scan (length (as @ bs)) d (off + (4 + length (fst c) + length (snd c))) key None) =
     (if bs = [] then None else Some (off + (4 + length (fst c) + length (snd c)) + length (enc_cells as)))"
    using Cons.prems by (intro Cons.IH [of "p @ enc_cell c"]) auto
  with Cons.prems read show ?case by (simp add: Let_def add.assoc)
qed

subsection \<open>Deleting cells\<close>

definition same_links :: "bytes \<Rightarrow> bytes \<Rightarrow> bool" where
  "same_links d d' \<longleftrightarrow> NextLeafID d' = NextLeafID d \<and> ParentID d' = ParentID d \<and>
     RightmostChildID d' = RightmostChildID d"

text \<open>An operation that keeps the identity, the pin count and the links of a page.\<close>

definition same_frame :: "page \<Rightarrow> page \<Rightarrow> bool" where
  "same_frame p p' \<longleftrightarrow> pgID p' = pgID p \<and> pgPin p' = pgPin p \<and> same_links (pgData p) (pgData p')"

lemma same_links_trans: "same_links a b \<Longrightarrow> same_links b c \<Longrightarrow> same_links a c"
  by (simp add: same_links_def)

lemma same_frame_refl [simp]: "same_frame p p"
  by (simp add: same_frame_def same_links_def)

lemma same_frame_trans: "same_frame a b \<Longrightarrow> same_frame b c \<Longrightarrow> same_frame a c"
  by (auto simp: same_frame_def intro: same_links_trans)

lemma leaf_repE:
  assumes "leaf_rep cs d"
  obtains h r where "d = h @ enc_cells cs @ r" "length h = BTreeHeaderSize" "length d = PageSize"
    "PageType h = PageTypeLeaf" "NumCells h = length cs" "length cs < PageSize"
proof -
  from assms obtain h r where *: "d = h @ enc_cells cs @ r" "length h = BTreeHeaderSize" "length d = PageSize"
    "PageType h = PageTypeLeaf" "NumCells h = length cs"
    unfolding leaf_rep_split by blast
  have "length cs + BTreeHeaderSize \<le> PageSize"
    using * length_enc_cells_ge [of cs] by simp
  then have "length cs < PageSize" by (simp add: layout_defs)
  with * show thesis by (intro that)
qed

lemma u16_pred: "0 < n \<Longrightarrow> n < 65536 \<Longrightarrow> u16 (n + 65535) = n - 1"
  by (cases n) (simp_all add: u16_def mod_add_self2)

lemma slide_out_append:
  assumes "length p = a" "length c = b"
  shows "slide_out a b (a + b + length q) (p @ c @ q @ r) = p @ q @ replicate b 0 @ r"
proof -
  have "slice (p @ c @ q @ r) (a + b) (a + b + length q) = q"
    using slice_append [of "p @ c" "a + b" "a + b + length q" q r] assms by simp
  moreover have "blit (p @ c @ q @ r) a q = p @ q @ drop (length q) (c @ q) @ r"
    using assms by (simp add: blit_def)
  moreover have "blit ((p @ q) @ drop (length q) (c @ q) @ r) (a + length q) (replicate b 0) =
      (p @ q) @ replicate b 0 @ r"
    using assms by (intro blit_append) simp_all
  ultimately show ?thesis
    using assms by (simp add: slide_out_def zero_range_def)
qed

lemma slide_out_rep:
  assumes "leaf_rep (as @ c # bs) d"
  defines "d' \<equiv> SetNumCells (u16 (NumCells d + 65535))
     (slide_out (BTreeHeaderSize + length (enc_cells as)) (4 + length (fst c) + length (snd c))
        (BTreeHeaderSize + length (enc_cells (as @ c # bs))) d)"
  shows "leaf_rep (as @ bs) d' \<and> same_links d d'"
proof -
  from assms(1) obtain h r where d: "d = h @ enc_cells (as @ c # bs) @ r" and h: "length h = BTreeHeaderSize"
    and len: "length d = PageSize" and t: "PageType h = PageTypeLeaf" and n: "NumCells h = length (as @ c # bs)"
    and small: "length (as @ c # bs) < PageSize"
    by (rule leaf_repE)
  have num: "u16 (NumCells d + 65535) = length (as @ bs)"
    using d h n small by (simp add: u16_def PageSize_def)
  have "slide_out (BTreeHeaderSize + length (enc_cells as)) (4 + length (fst c) + length (snd c))
        (BTreeHeaderSize + length (enc_cells (as @ c # bs))) d =
      h @ enc_cells (as @ bs) @ replicate (4 + length (fst c) + length (snd c)) 0 @ r"
    using slide_out_append [of "h @ enc_cells as" "BTreeHeaderSize + length (enc_cells as)" "enc_cell c"
        "4 + length (fst c) + length (snd c)" "enc_cells bs" r] h
    by (simp add: d algebra_simps)
  then have d': "d' = SetNumCells (length (as @ bs)) h @ enc_cells (as @ bs) @
      replicate (4 + length (fst c) + length (snd c)) 0 @ r"
    using h by (simp add: d'_def num)
  show ?thesis
    unfolding leaf_rep_split
    using h t len small d d'
    by (intro conjI exI [of _ "SetNumCells (length (as @ bs)) h"]
        exI [of _ "replicate (4 + length (fst c) + length (snd c)) 0 @ r"])
      (simp_all add: same_links_def PageSize_def)
qed

lemma deleteLeafCell_rep:
  assumes "leaf_rep (as @ c # bs) (pgData node)"
  shows "\<exists>node'. deleteLeafCell node (BTreeHeaderSize + length (enc_cells as)) (4 + length (fst c) + length (snd c)) = (None, node')
     \<and> leaf_rep (as @ bs) (pgData node') \<and> same_frame node node' \<and> pgDirty node' = pgDirty node"
proof -
  from assms obtain h r where d: "pgData node = h @ enc_cells (as @ c # bs) @ r" and h: "length h = BTreeHeaderSize"
    and len: "length (pgData node) = PageSize" and n: "NumCells h = length (as @ c # bs)"
    by (rule leaf_repE)
  have "tail_loop (NumCells (pgData node)) (pgData node) BTreeHeaderSize = BTreeHeaderSize + length (enc_cells (as @ c # bs))"
    using tail_loop_cells [OF d h len] n h by (simp add: d)
  moreover have "BTreeHeaderSize + length (enc_cells (as @ c # bs)) \<le> PageSize"
    using d h len by simp
  ultimately show ?thesis
    using slide_out_rep [OF assms] by (simp add: deleteLeafCell_def Let_def same_frame_def)
qed

lemma purge_rep:
  "leaf_rep cs (pgData node) \<Longrightarrow> length cs < fuel \<Longrightarrow>
   \<exists>node'. purge fuel node key = (None, node') \<and> leaf_rep (filter (\<lambda>c. fst c \<noteq> key) cs) (pgData node')
     \<and> same_frame node node' \<and> pgDirty node' = pgDirty node"
proof (induction fuel arbitrary: node cs)
  case (Suc fuel)
  from Suc.prems(1) obtain h r where d: "pgData node = h @ enc_cells cs @ r" and h: "length h = BTreeHeaderSize"
    and len: "length (pgData node) = PageSize" and n: "NumCells h = length cs"
    by (rule leaf_repE)
  show ?case
  proof (cases "key \<in> fst ` set cs")
    case False
    then have "filter (\<lambda>c. fst c \<noteq> key) cs = cs" by (auto simp: filter_id_conv)
    moreover have "find_cell (NumCells (pgData node)) (pgData node) BTreeHeaderSize key = None"
      using find_cell_none [OF d h len False] n h d by simp
    ultimately show ?thesis using Suc.prems(1) by simp
  next
    case True
    from split_key_first [OF this] obtain as v bs
      where cs: "cs = as @ (key, v) # bs" and as: "key \<notin> fst ` set as"
      by (elim exE conjE)
    have find: "find_cell (NumCells (pgData node)) (pgData node) BTreeHeaderSize key =
        Some (BTreeHeaderSize + length (enc_cells as), 4 + length key + length v)"
      using find_cell_some [OF d [unfolded cs] h len as] n h by (simp add: d cs)
    from deleteLeafCell_rep [OF Suc.prems(1) [unfolded cs]] obtain node1 where
      1: "deleteLeafCell node (BTreeHeaderSize + length (enc_cells as)) (4 + length key + length v) = (None, node1)"
        "leaf_rep (as @ bs) (pgData node1)" "same_frame node node1" "pgDirty node1 = pgDirty node"
      by auto
    have "length (as @ bs) < fuel" using Suc.prems(2) cs by simp
    from Suc.IH [OF 1(2) this] obtain node' where
      "purge fuel node1 key = (None, node')" "leaf_rep (filter (\<lambda>c. fst c \<noteq> key) (as @ bs)) (pgData node')"
      "same_frame node1 node'" "pgDirty node' = pgDirty node1" by auto
    with 1 find show ?thesis by (auto simp: cs intro: same_frame_trans)
  qed
qed simp

subsection \<open>Inserting a cell\<close>

definition ins_cell :: "bytes \<Rightarrow> bytes \<Rightarrow> (bytes \<times> bytes) list \<Rightarrow> (bytes \<times> bytes) list" where
  "ins_cell k v cs =
     (let cs' = filter (\<lambda>c. fst c \<noteq> k) cs
      in takeWhile (\<lambda>c. \<not> k < fst c) cs' @ (k, v) # dropWhile (\<lambda>c. \<not> k < fst c) cs')"

lemma go_copy_append:
  assumes "length p = a" "length X = length src" "b = a + length src"
  shows "go_copy (p @ X @ r) a b src = Inr (p @ src @ r)"
  using assms by (simp add: go_copy_def blit_def)

lemma put_leaf_cell_append:
  assumes p: "length p = ins" and X: "length X = 4 + length k + length v"
    and len: "length (p @ X @ r) = PageSize"
  shows "put_leaf_cell ins k v (p @ X @ r) = Inr (p @ enc_cell (k, v) @ r)"
proof -
  let ?K = "put_le 2 (length k)" and ?V = "put_le 2 (length v)"
  define X1 X2 X3 X4 where "X1 = take 2 X" and "X2 = take 2 (drop 2 X)"
    and "X3 = take (length k) (drop 4 X)" and "X4 = drop (4 + length k) X"
  have Xs: "X = X1 @ X2 @ X3 @ X4" "length X1 = 2" "length X2 = 2" "length X3 = length k" "length X4 = length v"
    using X by (simp_all add: X1_def X2_def X3_def X4_def)
      (metis add_2_eq_Suc' append_take_drop_id drop_drop numeral_Bit0_eq_double mult_2 add.commute)
  have u: "u32 (ins + 4 + length k) = ins + 4 + length k"
    "u32 (ins + 4 + length k + length v) = ins + 4 + length k + length v"
    using p X len by (simp_all add: PageSize_def)
  have 1: "wr_le 2 (p @ X @ r) ins (length k) = p @ ?K @ X2 @ X3 @ X4 @ r"
    unfolding Xs(1) wr_le_def using blit_append [of p ins ?K X1 "X2 @ X3 @ X4 @ r"] p Xs by simp
  have 2: "wr_le 2 (p @ ?K @ X2 @ X3 @ X4 @ r) (ins + 2) (length v) = p @ ?K @ ?V @ X3 @ X4 @ r"
    unfolding wr_le_def using blit_append [of "p @ ?K" "ins + 2" ?V X2 "X3 @ X4 @ r"] p Xs by simp
  have 3: "go_copy (p @ ?K @ ?V @ X3 @ X4 @ r) (ins + 4) (ins + 4 + length k) k = Inr (p @ ?K @ ?V @ k @ X4 @ r)"
    using go_copy_append [of "p @ ?K @ ?V" "ins + 4" X3 k "ins + 4 + length k" "X4 @ r"] p Xs by simp
  have 4: "go_copy (p @ ?K @ ?V @ k @ X4 @ r) (ins + 4 + length k) (ins + 4 + length k + length v) v =
      Inr (p @ ?K @ ?V @ k @ v @ r)"
    using go_copy_append [of "p @ ?K @ ?V @ k" "ins + 4 + length k" X4 v "ins + 4 + length k + length v" r] p Xs by simp
  show ?thesis
    by (simp only: put_leaf_cell_def Let_def u 1 2 3 4 sum.case enc_cell_def fst_conv snd_conv append_assoc)
qed

text \<open>The part of \<open>insertIntoLeaf\<close> behind the free-space test, on a leaf without the key.\<close>

lemma leaf_insert_data:
  assumes rep: "leaf_rep cs d" and k: "k \<notin> fst ` set cs"
    and room: "BTreeHeaderSize + length (enc_cells cs) + (4 + length k + length v) < PageSize"
  defines "as \<equiv> takeWhile (\<lambda>c. \<not> k < fst c) cs" and "bs \<equiv> dropWhile (\<lambda>c. \<not> k < fst c) cs"
    and "req \<equiv> 4 + length k + length v"
  defines "ins \<equiv> BTreeHeaderSize + length (enc_cells as)" and "off \<equiv> BTreeHeaderSize + length (enc_cells cs)"
  shows "insert_scan (NumCells d) d BTreeHeaderSize k None = (if bs = [] then None else Some ins, off)"
    and "\<exists>d'. (if ins < off then go_copy d (ins + req) (off + req) (slice d ins off) else Inr d) = Inr d' \<and>
           (\<exists>d''. put_leaf_cell ins k v d' = Inr d'' \<and>
             leaf_rep (as @ (k, v) # bs) (SetNumCells (u16 (NumCells d + 1)) d'') \<and>
             same_links d (SetNumCells (u16 (NumCells d + 1)) d''))"
proof -
  have cs: "cs = as @ bs" by (simp add: as_def bs_def)
  from rep obtain h r where d: "d = h @ enc_cells (as @ bs) @ r" and h: "length h = BTreeHeaderSize"
    and len: "length d = PageSize" and t: "PageType h = PageTypeLeaf" and n: "NumCells h = length cs"
    and small: "length cs < PageSize"
    unfolding cs [symmetric] by (rule leaf_repE)
  have "\<forall>c\<in>set as. \<not> k < fst c" using set_takeWhileD by (fastforce simp: as_def)
  moreover have "bs = [] \<or> k < fst (hd bs)" using hd_dropWhile [of "\<lambda>c. \<not> k < fst c" cs] by (auto simp: bs_def)
  ultimately have "fst (insert_scan (NumCells d) d BTreeHeaderSize k None) = (if bs = [] then None else Some ins)"
    using insert_scan_pos [OF d h len] n h by (simp add: d cs ins_def)
  moreover have "snd (insert_scan (NumCells d) d BTreeHeaderSize k None) = off"
    using insert_scan_end [of d h cs r] n h len d by (simp add: cs off_def)
  ultimately show "insert_scan (NumCells d) d BTreeHeaderSize k None = (if bs = [] then None else Some ins, off)"
    by (simp add: prod_eq_iff)
  define r1 r2 where "r1 = take req r" and "r2 = drop req r"
  have r: "r = r1 @ r2" "length r1 = req"
    using room d h len by (simp_all add: r1_def r2_def req_def cs)
  let ?p = "h @ enc_cells as" and ?b = "enc_cells bs"
  have pl: "length ?p = ins" using h by (simp add: ins_def)
  have ol: "off = ins + length ?b" by (simp add: off_def ins_def cs)
  have "\<exists>X. length X = req \<and>
      (if ins < off then go_copy d (ins + req) (off + req) (slice d ins off) else Inr d) = Inr (?p @ X @ ?b @ r2)"
  proof (cases "bs = []")
    case True
    then show ?thesis using r ol d by (intro exI [of _ r1]) simp
  next
    case False
    have "ins < off" using False length_enc_cells_ge [of bs] by (cases bs) (simp_all add: ol)
    have s: "slice d ins off = ?b"
      using slice_append [of ?p ins off ?b r] pl ol d by simp
    define Y where "Y = ?b @ r1"
    have dY: "d = ?p @ (take req Y @ drop req Y) @ r2"
      unfolding append_take_drop_id using d r by (simp add: Y_def)
    have Y: "d = (?p @ take req Y) @ drop req Y @ r2" "length (drop req Y) = length ?b" "length (take req Y) = req"
      using dY r by (simp_all add: Y_def)
    have "go_copy d (ins + req) (off + req) ?b = Inr ((?p @ take req Y) @ ?b @ r2)"
      unfolding Y(1) using Y(2,3) pl ol by (intro go_copy_append) simp_all
    with s Y(3) \<open>ins < off\<close> show ?thesis by (intro exI [of _ "take req Y"]) simp
  qed
  then obtain X where X: "length X = req"
    and shift: "(if ins < off then go_copy d (ins + req) (off + req) (slice d ins off) else Inr d) = Inr (?p @ X @ ?b @ r2)"
    by blast
  have len': "length (?p @ X @ ?b @ r2) = PageSize" using d r X len by simp
  have put: "put_leaf_cell ins k v (?p @ X @ ?b @ r2) = Inr (?p @ enc_cell (k, v) @ ?b @ r2)"
    using put_leaf_cell_append [OF pl _ len'] X by (simp add: req_def)
  have num: "u16 (NumCells d + 1) = length (as @ (k, v) # bs)"
    using n h small by (simp add: d cs u16_def PageSize_def)
  have eq: "SetNumCells (u16 (NumCells d + 1)) (?p @ enc_cell (k, v) @ ?b @ r2) =
      SetNumCells (length (as @ (k, v) # bs)) h @ enc_cells (as @ (k, v) # bs) @ r2"
    using h num by simp
  have "leaf_rep (as @ (k, v) # bs) (SetNumCells (u16 (NumCells d + 1)) (?p @ enc_cell (k, v) @ ?b @ r2))"
    unfolding eq leaf_rep_split using h t small len' X
    by (intro exI [of _ "SetNumCells (length (as @ (k, v) # bs)) h"] exI [of _ r2])
      (simp add: cs req_def PageSize_def)
  moreover have "same_links d (SetNumCells (u16 (NumCells d + 1)) (?p @ enc_cell (k, v) @ ?b @ r2))"
    using h by (simp add: same_links_def d)
  ultimately show "\<exists>d'. (if ins < off then go_copy d (ins + req) (off + req) (slice d ins off) else Inr d) = Inr d' \<and>
           (\<exists>d''. put_leaf_cell ins k v d' = Inr d'' \<and>
             leaf_rep (as @ (k, v) # bs) (SetNumCells (u16 (NumCells d + 1)) d'') \<and>
             same_links d (SetNumCells (u16 (NumCells d + 1)) d''))"
    using shift put by blast
qed

lemma safe_leaf:
  assumes "leaf_rep cs d" and "req < 2 ^ 31"
  shows "BTree_IsSafeForInsert req d \<longleftrightarrow> BTreeHeaderSize + length (enc_cells cs) + req < PageSize"
proof -
  from assms(1) obtain h r where d: "d = h @ enc_cells cs @ r" and h: "length h = BTreeHeaderSize"
    and len: "length d = PageSize" and t: "PageType h = PageTypeLeaf" and n: "NumCells h = length cs"
    by (rule leaf_repE)
  have "safe_loop (NumCells d) d BTreeHeaderSize = Some (BTreeHeaderSize + length (enc_cells cs))"
    using safe_loop_cells [OF d h len] t n h by (simp add: d)
  moreover have "BTreeHeaderSize + length (enc_cells cs) \<le> PageSize"
    using d h len by simp
  ultimately show ?thesis
    using assms(2) by (simp add: BTree_IsSafeForInsert_def PageSize_def)
qed

lemma insertIntoLeaf_ok:
  assumes rep: "leaf_rep cs (pgData node)"
    and room: "BTreeHeaderSize + length (enc_cells (filter (\<lambda>c. fst c \<noteq> k) cs)) + (4 + length k + length v) < PageSize"
  shows "\<exists>node'. insertIntoLeaf node k v = (None, node') \<and> leaf_rep (ins_cell k v cs) (pgData node') \<and>
           same_frame node node' \<and> pgDirty node' = pgDirty node"
proof -
  let ?cs = "filter (\<lambda>c. fst c \<noteq> k) cs" and ?req = "4 + length k + length v"
  have "NumCells (pgData node) = length cs" using rep by (simp add: leaf_rep_def)
  with purge_rep [OF rep, of "Suc (NumCells (pgData node))" k] obtain node1 where
    purge: "purge (Suc (NumCells (pgData node))) node k = (None, node1)"
    and rep1: "leaf_rep ?cs (pgData node1)" and fr: "same_frame node node1" "pgDirty node1 = pgDirty node"
    by auto
  have k: "k \<notin> fst ` set ?cs" by auto
  let ?as = "takeWhile (\<lambda>c. \<not> k < fst c) ?cs" and ?bs = "dropWhile (\<lambda>c. \<not> k < fst c) ?cs"
  let ?ins = "BTreeHeaderSize + length (enc_cells ?as)" and ?off = "BTreeHeaderSize + length (enc_cells ?cs)"
  have u: "u32 ?req = ?req" using room by (simp add: PageSize_def)
  have split: "enc_cells ?cs = enc_cells ?as @ enc_cells ?bs"
    by (metis concat_append map_append takeWhile_dropWhile_id)
  then have le: "?ins \<le> ?off" by simp
  have ins: "(case (if ?bs = [] then None else Some ?ins) of Some i \<Rightarrow> i | None \<Rightarrow> ?off) = ?ins"
    using split by (cases "?bs = []") (simp_all del: dropWhile_eq_Nil_conv)
  have u2: "u32 (?ins + ?req) = ?ins + ?req" "u32 (?off + ?req) = ?off + ?req" "\<not> PageSize < ?ins + ?req"
    using room le by (simp_all add: PageSize_def)
  have safe: "BTree_IsSafeForInsert ?req (pgData node1)"
    using room safe_leaf [OF rep1, of ?req] by (simp add: PageSize_def)
  from leaf_insert_data [OF rep1 k room] obtain d' d'' where
    scan: "insert_scan (NumCells (pgData node1)) (pgData node1) BTreeHeaderSize k None = (if ?bs = [] then None else Some ?ins, ?off)"
    and 1: "(if ?ins < ?off then go_copy (pgData node1) (?ins + ?req) (?off + ?req) (slice (pgData node1) ?ins ?off) else Inr (pgData node1)) = Inr d'"
      "put_leaf_cell ?ins k v d' = Inr d''"
    and 2: "leaf_rep (?as @ (k, v) # ?bs) (SetNumCells (u16 (NumCells (pgData node1) + 1)) d'')"
      "same_links (pgData node1) (SetNumCells (u16 (NumCells (pgData node1) + 1)) d'')"
    by blast
  have "insertIntoLeaf node k v = (None, node1\<lparr>pgData := SetNumCells (u16 (NumCells (pgData node1) + 1)) d'',
      pgVersion := pgVersion node1 + 1\<rparr>)"
    unfolding insertIntoLeaf_def Let_def purge prod.case option.case scan u ins u2 1 sum.case
    using safe u2(3) by simp
  with 2 fr show ?thesis
    by (auto simp: ins_cell_def Let_def same_frame_def intro: same_links_trans)
qed

lemma insertIntoLeaf_full:
  assumes rep: "leaf_rep cs (pgData node)" and big: "4 + length k + length v < 2 ^ 31"
    and full: "PageSize \<le> BTreeHeaderSize + length (enc_cells (filter (\<lambda>c. fst c \<noteq> k) cs)) + (4 + length k + length v)"
  shows "\<exists>node'. insertIntoLeaf node k v = (Some ErrPageFull, node') \<and>
           leaf_rep (filter (\<lambda>c. fst c \<noteq> k) cs) (pgData node') \<and> same_frame node node' \<and> pgDirty node' = pgDirty node"
proof -
  have "NumCells (pgData node) = length cs" using rep by (simp add: leaf_rep_def)
  with purge_rep [OF rep, of "Suc (NumCells (pgData node))" k] obtain node1 where
    purge: "purge (Suc (NumCells (pgData node))) node k = (None, node1)"
    and rep1: "leaf_rep (filter (\<lambda>c. fst c \<noteq> k) cs) (pgData node1)" and fr: "same_frame node node1" "pgDirty node1 = pgDirty node"
    by auto
  have "u32 (4 + length k + length v) = 4 + length k + length v" using big by simp
  moreover have "\<not> BTree_IsSafeForInsert (4 + length k + length v) (pgData node1)"
    using safe_leaf [OF rep1 big] full by simp
  ultimately show ?thesis
    unfolding insertIntoLeaf_def Let_def purge prod.case option.case using rep1 fr by simp
qed

subsection \<open>What the operations do to the contents\<close>

abbreviation sorted_cells :: "(bytes \<times> 'a) list \<Rightarrow> bool" where
  "sorted_cells cs \<equiv> sorted_wrt (<) (map fst cs)"

lemma sorted_cells_filter: "sorted_cells cs \<Longrightarrow> sorted_cells (filter P cs)"
  by (induction cs) auto

lemma map_of_filter_other: "map_of (filter (\<lambda>c. fst c \<noteq> k) cs) = (map_of cs)(k := None)"
  by (induction cs) (auto simp: fun_eq_iff)

lemma map_of_insert_mid:
  "k \<notin> fst ` set as \<Longrightarrow> map_of (as @ (k, v) # bs) = (map_of (as @ bs))(k \<mapsto> v)"
  by (induction as) (auto simp: fun_eq_iff)

lemma map_of_ins_cell: "map_of (ins_cell k v cs) = (map_of cs)(k \<mapsto> v)"
proof -
  let ?cs = "filter (\<lambda>c. fst c \<noteq> k) cs"
  let ?as = "takeWhile (\<lambda>c. \<not> k < fst c) ?cs" and ?bs = "dropWhile (\<lambda>c. \<not> k < fst c) ?cs"
  have "k \<notin> fst ` set ?as"
    using set_takeWhileD by fastforce
  then have "map_of (?as @ (k, v) # ?bs) = (map_of (?as @ ?bs))(k \<mapsto> v)"
    by (rule map_of_insert_mid)
  then show ?thesis
    by (simp add: ins_cell_def Let_def map_of_filter_other)
qed

lemma sorted_ins_cell:
  assumes "sorted_cells cs"
  shows "sorted_cells (ins_cell k v cs)"
proof -
  let ?cs = "filter (\<lambda>c. fst c \<noteq> k) cs"
  let ?as = "takeWhile (\<lambda>c. \<not> k < fst c) ?cs" and ?bs = "dropWhile (\<lambda>c. \<not> k < fst c) ?cs"
  have s: "sorted_cells (?as @ ?bs)"
    using assms sorted_cells_filter by auto
  have a: "\<forall>c\<in>set ?as. fst c < k"
  proof
    fix c assume "c \<in> set ?as"
    then have "\<not> k < fst c" "c \<in> set ?cs" using set_takeWhileD [of c "\<lambda>c. \<not> k < fst c" ?cs] by simp_all
    then show "fst c < k" by auto
  qed
  have b: "\<forall>c\<in>set ?bs. k < fst c"
  proof (cases ?bs)
    case (Cons c bs)
    then have "k < fst c" using hd_dropWhile [of "\<lambda>c. \<not> k < fst c" ?cs] by (metis list.distinct(1) list.sel(1))
    moreover have "\<forall>c'\<in>set bs. fst c < fst c'" using s unfolding Cons by (simp add: sorted_wrt_append)
    ultimately show ?thesis unfolding Cons by auto
  next
    case Nil
    show ?thesis unfolding Nil by simp
  qed
  from s a b show ?thesis
    by (simp only: ins_cell_def Let_def map_append sorted_wrt_append list.map sorted_wrt.simps set_map
        list.set fst_conv ball_simps) (meson order.strict_trans)
qed

lemma leaf_Get_rep:
  assumes "leaf_rep cs d"
  shows "leaf_Get d k = (case map_of cs k of Some v \<Rightarrow> Inr v | None \<Rightarrow> Inl ErrKeyNotFound)"
proof -
  from assms obtain h r where d: "d = h @ enc_cells cs @ r" and h: "length h = BTreeHeaderSize"
    and len: "length d = PageSize" and n: "NumCells h = length cs"
    by (rule leaf_repE)
  have "get_loop (NumCells d) d BTreeHeaderSize k = map_of cs k"
    using get_loop_cells [OF d h len] n h by (simp add: d)
  then show ?thesis by (simp add: leaf_Get_def)
qed

lemma leaf_Delete_missing:
  assumes "leaf_rep cs (pgData node)" "key \<notin> fst ` set cs"
  shows "leaf_Delete node key = (Some ErrKeyNotFound, node)"
proof -
  from assms(1) obtain h r where d: "pgData node = h @ enc_cells cs @ r" and h: "length h = BTreeHeaderSize"
    and len: "length (pgData node) = PageSize" and n: "NumCells h = length cs"
    by (rule leaf_repE)
  have "find_cell (NumCells (pgData node)) (pgData node) BTreeHeaderSize key = None"
    using find_cell_none [OF d h len assms(2)] n h by (simp add: d)
  then show ?thesis by (simp add: leaf_Delete_def Let_def)
qed

lemma leaf_Delete_first:
  assumes rep: "leaf_rep (as @ (key, v) # bs) (pgData node)" and as: "key \<notin> fst ` set as"
  shows "\<exists>node'. leaf_Delete node key = (None, node') \<and> leaf_rep (as @ bs) (pgData node') \<and>
           same_frame node node' \<and> pgDirty node'"
proof -
  from rep obtain h r where d: "pgData node = h @ enc_cells (as @ (key, v) # bs) @ r" and h: "length h = BTreeHeaderSize"
    and len: "length (pgData node) = PageSize" and n: "NumCells h = length (as @ (key, v) # bs)"
    by (rule leaf_repE)
  have "find_cell (NumCells (pgData node)) (pgData node) BTreeHeaderSize key =
      Some (BTreeHeaderSize + length (enc_cells as), 4 + length key + length v)"
    using find_cell_some [OF d h len as] n h by (simp add: d)
  moreover have "total_loop (NumCells (pgData node)) (pgData node) BTreeHeaderSize =
      BTreeHeaderSize + length (enc_cells (as @ (key, v) # bs))"
    using tail_loop_cells [OF d h len] n h by (simp add: d)
  moreover have "BTreeHeaderSize + length (enc_cells (as @ (key, v) # bs)) \<le> PageSize"
    using d h len by simp
  ultimately show ?thesis
    using slide_out_rep [OF rep] by (simp add: leaf_Delete_def Let_def same_frame_def)
qed

lemma filter_key_id: "k \<notin> fst ` set cs \<Longrightarrow> filter (\<lambda>c. fst c \<noteq> k) cs = cs"
  by (induction cs) auto

lemma filter_distinct_key:
  "distinct (map fst (as @ (k, v) # bs)) \<Longrightarrow> filter (\<lambda>c. fst c \<noteq> k) (as @ (k, v) # bs) = as @ bs"
  by (simp add: filter_key_id)

subsection \<open>The purge loop on arbitrary bytes\<close>

lemma find_cell_bounds:
  "find_cell n d off key = Some (o', c) \<Longrightarrow> 0 < n \<and> off \<le> o' \<and> 4 \<le> c"
proof (induction n d off key rule: find_cell.induct)
  case (2 n d off key)
  then show ?case by (fastforce simp: Let_def split: if_splits)
qed simp

lemma deleteLeafCell_NumCells:
  assumes "deleteLeafCell node off c = (None, node')" "length (pgData node) = PageSize" "0 < NumCells (pgData node)"
  shows "length (pgData node') = PageSize \<and> NumCells (pgData node') = NumCells (pgData node) - 1"
proof -
  let ?d = "pgData node" let ?t = "tail_loop (NumCells ?d) ?d BTreeHeaderSize"
  have t: "off + c \<le> ?t" "?t \<le> PageSize"
    and node': "pgData node' = SetNumCells (u16 (NumCells ?d + 65535)) (slide_out off c ?t ?d)"
    using assms(1) by (auto simp: deleteLeafCell_def Let_def split: if_splits)
  have len: "length (slide_out off c ?t ?d) = PageSize"
    using t assms(2) by (simp add: slide_out_def)
  have "NumCells ?d < 65536"
    using rd_le_bound [of 2 ?d 2] by (simp add: NumCells_def)
  then have "u16 (NumCells ?d + 65535) = NumCells ?d - 1"
    using assms(3) by (rule u16_pred [rotated])
  moreover from this \<open>NumCells ?d < 65536\<close> have "u16 (NumCells ?d + 65535) < 65536" by simp
  ultimately show ?thesis
    unfolding node' using len by (simp add: SetNumCells_def NumCells_def PageSize_def)
qed

lemma purge_fuel:
  "length (pgData node) = PageSize \<Longrightarrow> NumCells (pgData node) < fuel \<Longrightarrow>
   purge fuel node key = (e, node') \<Longrightarrow> e \<noteq> Some OutOfFuel \<and> length (pgData node') = PageSize"
proof (induction fuel arbitrary: node)
  case (Suc fuel)
  show ?case
  proof (cases "find_cell (NumCells (pgData node)) (pgData node) BTreeHeaderSize key")
    case None
    with Suc.prems show ?thesis by simp
  next
    case (Some oc)
    obtain off c where oc: "oc = (off, c)" by (cases oc)
    obtain e1 node1 where del: "deleteLeafCell node off c = (e1, node1)" by (cases "deleteLeafCell node off c")
    show ?thesis
    proof (cases e1)
      case None
      note dn = deleteLeafCell_NumCells [OF del [unfolded None] Suc.prems(1)]
        find_cell_bounds [OF Some [unfolded oc]]
      with Suc.prems have "NumCells (pgData node1) < fuel" "length (pgData node1) = PageSize" by auto
      moreover have "purge fuel node1 key = (e, node')"
        using Suc.prems(3) Some oc del None by simp
      ultimately show ?thesis by (intro Suc.IH)
    next
      case (Some x)
      then have "x = ErrPageFull" "node1 = node"
        using del by (auto simp: deleteLeafCell_def Let_def split: if_splits)
      with Suc.prems \<open>find_cell _ _ _ _ = Some oc\<close> oc del Some show ?thesis by auto
    qed
  qed
qed simp

subsection \<open>Splitting\<close>

lemma split_scan_cells:
  "d = p @ enc_cells (as @ c # bs) @ r \<Longrightarrow> length p = off \<Longrightarrow> length d = PageSize \<Longrightarrow>
   split_scan (length (as @ c # bs)) (length as) d off = (off + length (enc_cells as), fst c)"
proof (induction as arbitrary: p off)
  case Nil
  with cell_read [of d p c "enc_cells bs @ r" off] show ?case by (simp add: Let_def)
next
  case (Cons a as)
  note read = cell_read [of d p a "enc_cells (as @ c # bs) @ r" off]
  have "split_scan (length (as @ c # bs)) (length as) d (off + 4 + length (fst a) + length (snd a)) =
      (off + 4 + length (fst a) + length (snd a) + length (enc_cells as), fst c)"
    using Cons.prems by (intro Cons.IH [of "p @ enc_cell a"]) auto
  with Cons.prems read show ?case by (simp add: Let_def)
qed

lemma BTreeInit_split:
  assumes "length d = PageSize"
  obtains q where "BTreeInit d = replicate BTreeHeaderSize 0 @ q" "length q = PageSize - BTreeHeaderSize"
  using assms by (auto simp: BTreeInit_def zero_range_def blit_def layout_defs)

text \<open>Filling the body of a fresh page and clearing the tail of the old one.\<close>

lemma blit_body:
  assumes "length h = BTreeHeaderSize" "length q = PageSize - BTreeHeaderSize" "length x \<le> PageSize - BTreeHeaderSize"
  shows "blit (h @ q) BTreeHeaderSize (take (PageSize - BTreeHeaderSize) x) = h @ x @ drop (length x) q"
  using assms by (simp add: blit_def)

lemma zero_tail:
  assumes "length (p @ x) = PageSize" "length p = off"
  shows "zero_range (p @ x) off PageSize = p @ replicate (length x) 0"
  using assms by (auto simp: zero_range_def blit_def)

lemma slice_tail: "length (p @ x) = PageSize \<Longrightarrow> length p = off \<Longrightarrow> slice (p @ x) off (off + (PageSize - off)) = x"
  by (simp add: slice_def)

lemma split_leaf_rep:
  assumes rep: "leaf_rep (as @ c # bs) (pgData node)" and mid: "length as = length (as @ c # bs) div 2"
    and new: "length (pgData newLeaf) = PageSize"
    and split: "split_leaf node newLeaf = (node', newLeaf', midKey)"
  shows "midKey = fst c" and "leaf_rep as (pgData node')" and "leaf_rep (c # bs) (pgData newLeaf')"
    and "NextLeafID (pgData node') = pgID newLeaf" and "NextLeafID (pgData newLeaf') = NextLeafID (pgData node)"
    and "ParentID (pgData node') = ParentID (pgData node)" and "ParentID (pgData newLeaf') = ParentID (pgData node)"
    and "pgID node' = pgID node" and "pgID newLeaf' = pgID newLeaf"
proof -
  from rep obtain h r where d: "pgData node = h @ enc_cells (as @ c # bs) @ r" and h: "length h = BTreeHeaderSize"
    and len: "length (pgData node) = PageSize" and t: "PageType h = PageTypeLeaf"
    and n: "NumCells h = length (as @ c # bs)" and small: "length (as @ c # bs) < PageSize"
    by (rule leaf_repE)
  obtain q where q: "BTreeInit (pgData newLeaf) = replicate BTreeHeaderSize 0 @ q" "length q = PageSize - BTreeHeaderSize"
    using BTreeInit_split [OF new] .
  let ?h' = "SetNextLeafID (pgID newLeaf) h" let ?off = "BTreeHeaderSize + length (enc_cells as)"
  let ?d0 = "?h' @ enc_cells (as @ c # bs) @ r"
  let ?hn = "SetParentID (ParentID h) (SetNextLeafID (NextLeafID h) (SetPageType PageTypeLeaf (replicate BTreeHeaderSize 0)))"
  let ?x = "enc_cells (c # bs) @ r" let ?m = "length as"
  have d0: "SetNextLeafID (pgID newLeaf) (pgData node) = ?d0" using h by (simp add: d)
  have len0: "length ?d0 = PageSize" using len h by (simp add: d)
  have N: "NumCells ?d0 = length (as @ c # bs)" using h n by simp
  have scan: "split_scan (NumCells ?d0) ?m ?d0 BTreeHeaderSize = (?off, fst c)"
    unfolding N by (rule split_scan_cells [OF refl _ len0]) (simp add: h)
  have off: "\<not> PageSize < ?off" "0 < PageSize - ?off" using len0 h by simp_all
  have x: "slice ?d0 ?off (?off + (PageSize - ?off)) = ?x"
    using slice_tail [of "?h' @ enc_cells as" ?x ?off] len0 h by simp
  have xl: "length ?x \<le> PageSize - BTreeHeaderSize" using len0 h by simp
  have body: "blit (?hn @ q) BTreeHeaderSize (take (PageSize - BTreeHeaderSize) ?x) = ?hn @ ?x @ drop (length ?x) q"
    using xl q(2) by (intro blit_body) simp_all
  have zero: "zero_range (SetNumCells ?m ?h' @ enc_cells (as @ c # bs) @ r) ?off PageSize =
      (SetNumCells ?m ?h' @ enc_cells as) @ replicate (length ?x) 0"
    using zero_tail [of "SetNumCells ?m ?h' @ enc_cells as" ?x ?off] len0 h by simp
  have A: "SetNextLeafID (NextLeafID (pgData node)) (SetPageType PageTypeLeaf (BTreeInit (pgData newLeaf))) =
      SetNextLeafID (NextLeafID h) (SetPageType PageTypeLeaf (replicate BTreeHeaderSize 0)) @ q"
    using h by (simp add: d q)
  have B: "SetParentID (ParentID ?d0)
      (SetNextLeafID (NextLeafID h) (SetPageType PageTypeLeaf (replicate BTreeHeaderSize 0)) @ q) = ?hn @ q"
    using h by simp
  have C: "NumCells ?d0 - ?m = length (c # bs)" "NumCells ?d0 div 2 = ?m"
    unfolding N mid [symmetric] by simp_all
  have D: "SetNumCells (length (c # bs)) (?hn @ ?x @ drop (length ?x) q) =
      SetNumCells (length (c # bs)) ?hn @ enc_cells (c # bs) @ r @ drop (length ?x) q"
    using h by simp
  have E: "SetNumCells ?m ?d0 = SetNumCells ?m ?h' @ enc_cells (as @ c # bs) @ r"
    using h by simp
  have "split_leaf node newLeaf =
      (node\<lparr>pgData := (SetNumCells ?m ?h' @ enc_cells as) @ replicate (length ?x) 0, pgVersion := pgVersion node + 1\<rparr>,
       newLeaf\<lparr>pgData := SetNumCells (length (c # bs)) ?hn @ enc_cells (c # bs) @ r @ drop (length ?x) q,
               pgVersion := pgVersion newLeaf + 1\<rparr>, fst c)"
    by (simp only: split_leaf_def Let_def d0 A B scan prod.case off if_False if_True x body C D E zero)
  then have eqs: "pgData node' = SetNumCells ?m ?h' @ enc_cells as @ replicate (length ?x) 0"
      "pgData newLeaf' = SetNumCells (length (c # bs)) ?hn @ enc_cells (c # bs) @ r @ drop (length ?x) q"
      "midKey = fst c" "pgID node' = pgID node" "pgID newLeaf' = pgID newLeaf"
    using split by auto
  show "midKey = fst c" "pgID node' = pgID node" "pgID newLeaf' = pgID newLeaf" by fact+
  show "leaf_rep as (pgData node')"
    unfolding leaf_rep_split eqs using h t small len0
    by (intro exI [of _ "SetNumCells ?m ?h'"] exI [of _ "replicate (length ?x) 0"]) (simp add: PageSize_def)
  show "leaf_rep (c # bs) (pgData newLeaf')"
    unfolding leaf_rep_split eqs using h small len0 q(2)
    by (intro exI [of _ "SetNumCells (length (c # bs)) ?hn"] exI [of _ "r @ drop (length ?x) q"])
      (simp add: layout_defs u16_def)
  show "NextLeafID (pgData node') = pgID newLeaf" "NextLeafID (pgData newLeaf') = NextLeafID (pgData node)"
    "ParentID (pgData node') = ParentID (pgData node)" "ParentID (pgData newLeaf') = ParentID (pgData node)"
    unfolding eqs d using h by simp_all
qed

section \<open>Internal pages as lists of separators\<close>

definition enc_sep :: "bytes \<times> PageID \<Rightarrow> bytes" where
  "enc_sep c = put_le 2 (length (fst c)) @ put_le 8 (unat (snd c)) @ fst c"

abbreviation enc_seps :: "(bytes \<times> PageID) list \<Rightarrow> bytes" where
  "enc_seps cs \<equiv> concat (map enc_sep cs)"

definition node_rep :: "(bytes \<times> PageID) list \<Rightarrow> PageID \<Rightarrow> bytes \<Rightarrow> bool" where
  "node_rep cs rm d \<longleftrightarrow>
     length d = PageSize \<and> PageType d = PageTypeInternal \<and> NumCells d = length cs \<and>
     RightmostChildID d = rm \<and> has_prefix (drop BTreeHeaderSize d) (enc_seps cs)"

text \<open>The child a key is routed to.\<close>

definition route :: "(bytes \<times> PageID) list \<Rightarrow> PageID \<Rightarrow> bytes \<Rightarrow> PageID" where
  "route cs rm k = (case find (\<lambda>c. k < fst c) cs of Some c \<Rightarrow> snd c | None \<Rightarrow> rm)"

lemma length_enc_sep [simp]: "length (enc_sep c) = 10 + length (fst c)"
  by (simp add: enc_sep_def)

lemma length_enc_seps_ge: "length cs \<le> length (enc_seps cs)"
  by (induction cs) auto

lemma node_repI:
  assumes "d = h @ enc_seps cs @ r" "length h = BTreeHeaderSize" "length d = PageSize"
    "PageType h = PageTypeInternal" "NumCells h = length cs" "RightmostChildID h = rm"
  shows "node_rep cs rm d"
  using assms by (simp add: node_rep_def)

lemma node_repE:
  assumes *: "node_rep cs rm d"
  obtains h r where "d = h @ enc_seps cs @ r" "length h = BTreeHeaderSize" "length d = PageSize"
    "PageType h = PageTypeInternal" "NumCells h = length cs" "RightmostChildID h = rm" "length cs < PageSize"
proof -
  let ?h = "take BTreeHeaderSize d" and ?r = "drop (length (enc_seps cs)) (drop BTreeHeaderSize d)"
  have d: "d = ?h @ enc_seps cs @ ?r"
    using * unfolding node_rep_def has_prefix_def by (metis append_take_drop_id)
  have h: "length ?h = BTreeHeaderSize" using * by (simp add: node_rep_def layout_defs)
  have "length (?h @ enc_seps cs @ ?r) = PageSize" using * d by (simp add: node_rep_def)
  then have "length cs < PageSize"
    using h length_enc_seps_ge [of cs] by (simp add: layout_defs)
  with * d h show thesis by (intro that [of ?h ?r]) (simp_all add: node_rep_def)
qed

lemma sep_read:
  assumes d: "d = p @ enc_sep c @ r" and off: "length p = off" and len: "length d = PageSize"
  shows "off + 10 + length (fst c) \<le> PageSize"
    and "rd_le 2 d off = length (fst c)"
    and "(word_of_nat (rd_le 8 d (off + 2)) :: PageID) = snd c"
    and "slice d (off + 10) (off + 10 + length (fst c)) = fst c"
proof -
  show fits: "off + 10 + length (fst c) \<le> PageSize" using assms by simp
  then have small: "length (fst c) < 65536" by (simp add: PageSize_def)
  show "rd_le 2 d off = length (fst c)"
    using small off unfolding d enc_sep_def by (simp add: rd_le_append)
  show "(word_of_nat (rd_le 8 d (off + 2)) :: PageID) = snd c"
    using rd_le_append [of "p @ put_le 2 (length (fst c))" "off + 2" "put_le 8 (unat (snd c))" 8 "fst c @ r"]
      off word64_of_unat_mod [of "snd c"]
    unfolding d enc_sep_def by (simp del: word64_of_unat_mod)
  show "slice d (off + 10) (off + 10 + length (fst c)) = fst c"
    using slice_append [of "p @ put_le 2 (length (fst c)) @ put_le 8 (unat (snd c))" "off + 10"
        "off + 10 + length (fst c)" "fst c" r] off
    unfolding d enc_sep_def by simp
qed

lemma child_loop_seps:
  "d = p @ enc_seps cs @ r \<Longrightarrow> length p = off \<Longrightarrow> length d = PageSize \<Longrightarrow>
   child_loop (length cs) d off key = route cs (RightmostChildID d) key"
proof (induction cs arbitrary: p off)
  case (Cons c cs)
  note read = sep_read [of d p c "enc_seps cs @ r" off]
  have "child_loop (length cs) d (off + 10 + length (fst c)) key = route cs (RightmostChildID d) key"
    using Cons.prems by (intro Cons.IH [of "p @ enc_sep c"]) auto
  with Cons.prems read show ?case by (simp add: Let_def route_def)
qed (simp add: route_def)

lemma findChild_route: "node_rep cs rm d \<Longrightarrow> findChildInInternalNode d key = route cs rm key"
proof (erule node_repE)
  fix h r assume *: "d = h @ enc_seps cs @ r" "length h = BTreeHeaderSize" "length d = PageSize"
    "NumCells h = length cs" "RightmostChildID h = rm"
  then show "findChildInInternalNode d key = route cs rm key"
    using child_loop_seps [OF *(1-3)] by (simp add: findChildInInternalNode_def)
qed

lemma safe_loop_seps:
  "d = p @ enc_seps cs @ r \<Longrightarrow> length p = off \<Longrightarrow> length d = PageSize \<Longrightarrow> PageType d = PageTypeInternal \<Longrightarrow>
   safe_loop (length cs) d off = Some (off + length (enc_seps cs))"
proof (induction cs arbitrary: p off)
  case (Cons c cs)
  note read = sep_read [of d p c "enc_seps cs @ r" off]
  have d: "d = (p @ enc_sep c) @ enc_seps cs @ r"
    and l: "length (p @ enc_sep c) = off + 10 + length (fst c)"
    using Cons.prems by auto
  from Cons.prems read Cons.IH [OF d l] show ?case
    by (simp add: Let_def PageTypeLeaf_def PageTypeInternal_def)
qed simp

lemma node_scan_end:
  "d = p @ enc_seps cs @ r \<Longrightarrow> length p = off \<Longrightarrow> length d = PageSize \<Longrightarrow>
   snd (node_scan (length cs) d off key ins) = off + length (enc_seps cs)"
proof (induction cs arbitrary: p off ins)
  case (Cons c cs)
  note read = sep_read [of d p c "enc_seps cs @ r" off]
  have d: "d = (p @ enc_sep c) @ enc_seps cs @ r"
    and l: "length (p @ enc_sep c) = off + 10 + length (fst c)"
    using Cons.prems by auto
  from Cons.prems read Cons.IH [OF d l] show ?case by (simp add: Let_def add.assoc)
qed simp

lemma node_scan_Some [simp]: "fst (node_scan n d off key (Some i)) = Some i"
  by (induction n d off key "Some i" rule: node_scan.induct) (simp_all add: Let_def)

lemma node_scan_pos:
  "d = p @ enc_seps (as @ bs) @ r \<Longrightarrow> length p = off \<Longrightarrow> length d = PageSize \<Longrightarrow>
   \<forall>c\<in>set as. \<not> key < fst c \<Longrightarrow> (bs = [] \<or> key < fst (hd bs)) \<Longrightarrow>
   fst (node_scan (length (as @ bs)) d off key None) =
     (if bs = [] then None else Some (off + length (enc_seps as)))"
proof (induction as arbitrary: p off)
  case Nil
  show ?case
  proof (cases bs)
    case (Cons c bs')
    with Nil sep_read [of d p c "enc_seps bs' @ r" off] show ?thesis by (simp add: Let_def)
  qed simp
next
  case (Cons c as)
  note read = sep_read [of d p c "enc_seps (as @ bs) @ r" off]
  have "fst (node_scan (length (as @ bs)) d (off + 10 + length (fst c)) key None) =
     (if bs = [] then None else Some (off + 10 + length (fst c) + length (enc_seps as)))"
    using Cons.prems by (intro Cons.IH [of "p @ enc_sep c"]) auto
  with Cons.prems read show ?case by (simp add: Let_def)
qed

lemma split_node_scan_seps:
  "d = p @ enc_seps (as @ c # bs) @ r \<Longrightarrow> length p = off \<Longrightarrow> length d = PageSize \<Longrightarrow>
   split_node_scan (length (as @ c # bs)) (length as) d off =
     (off + length (enc_seps as), Some (snd c, fst c, off + length (enc_seps as) + 10 + length (fst c)))"
proof (induction as arbitrary: p off)
  case Nil
  with sep_read [of d p c "enc_seps bs @ r" off] show ?case by (simp add: Let_def)
next
  case (Cons a as)
  note read = sep_read [of d p a "enc_seps (as @ c # bs) @ r" off]
  have "split_node_scan (length (as @ c # bs)) (length as) d (off + 10 + length (fst a)) =
      (off + 10 + length (fst a) + length (enc_seps as),
       Some (snd c, fst c, off + 10 + length (fst a) + length (enc_seps as) + 10 + length (fst c)))"
    using Cons.prems by (intro Cons.IH [of "p @ enc_sep a"]) auto
  with Cons.prems read show ?case by (simp add: Let_def)
qed

subsection \<open>Inserting a separator\<close>

text \<open>
  The new separator takes the left child; the cell behind it, or the rightmost pointer,
  takes the right one.
\<close>

definition ins_sep :: "bytes \<Rightarrow> PageID \<Rightarrow> PageID \<Rightarrow> (bytes \<times> PageID) list \<Rightarrow> PageID \<Rightarrow> (bytes \<times> PageID) list \<times> PageID" where
  "ins_sep k l r cs rm =
     (let as = takeWhile (\<lambda>c. \<not> k < fst c) cs
      in case dropWhile (\<lambda>c. \<not> k < fst c) cs of
           [] \<Rightarrow> (as @ [(k, l)], r)
         | c # bs \<Rightarrow> (as @ (k, l) # (fst c, r) # bs, rm))"

lemma wr_child:
  assumes "length p = off"
  shows "wr_le 8 (p @ enc_sep c @ r) (off + 2) (unat i) = p @ enc_sep (fst c, i) @ r"
  unfolding wr_le_def enc_sep_def
  using blit_append [of "p @ put_le 2 (length (fst c))" "off + 2" "put_le 8 (unat i)" "put_le 8 (unat (snd c))" "fst c @ r"] assms
  by simp

lemma put_sep:
  assumes p: "length p = ins" and X: "length X = 10 + length k" and len: "length (p @ X @ r) = PageSize"
  shows "go_copy (wr_le 8 (wr_le 2 (p @ X @ r) ins (length k)) (ins + 2) (unat l)) (ins + 10)
           (u32 (ins + 10 + length k)) k = Inr (p @ enc_sep (k, l) @ r)"
proof -
  let ?K = "put_le 2 (length k)" and ?L = "put_le 8 (unat l)"
  define X1 X2 X3 where "X1 = take 2 X" and "X2 = take 8 (drop 2 X)" and "X3 = drop 8 (drop 2 X)"
  have Xs: "X = X1 @ X2 @ X3" "length X1 = 2" "length X2 = 8" "length X3 = length k"
    unfolding X1_def X2_def X3_def append_take_drop_id using X by simp_all
  have u: "u32 (ins + 10 + length k) = ins + 10 + length k"
    using p X len by (simp add: PageSize_def)
  have 1: "wr_le 2 (p @ X @ r) ins (length k) = p @ ?K @ X2 @ X3 @ r"
    unfolding Xs(1) wr_le_def using blit_append [of p ins ?K X1 "X2 @ X3 @ r"] p Xs by simp
  have 2: "wr_le 8 (p @ ?K @ X2 @ X3 @ r) (ins + 2) (unat l) = p @ ?K @ ?L @ X3 @ r"
    unfolding wr_le_def using blit_append [of "p @ ?K" "ins + 2" ?L X2 "X3 @ r"] p Xs by simp
  have 3: "go_copy (p @ ?K @ ?L @ X3 @ r) (ins + 10) (ins + 10 + length k) k = Inr (p @ ?K @ ?L @ k @ r)"
    using go_copy_append [of "p @ ?K @ ?L" "ins + 10" X3 k "ins + 10 + length k" r] p Xs by simp
  show ?thesis by (simp only: u 1 2 3 enc_sep_def fst_conv snd_conv append_assoc)
qed

lemma shift_up:
  assumes d: "d = p @ b @ r1 @ r2" and p: "length p = ins" and r1: "length r1 = req"
  shows "\<exists>X. length X = req \<and> go_copy d (ins + req) (ins + length b + req) (slice d ins (ins + length b)) = Inr (p @ X @ b @ r2)"
proof -
  have s: "slice d ins (ins + length b) = b"
    using slice_append [of p ins "ins + length b" b "r1 @ r2"] p d by simp
  define Y where "Y = b @ r1"
  have dY: "d = p @ (take req Y @ drop req Y) @ r2"
    unfolding append_take_drop_id using d by (simp add: Y_def)
  have Y: "d = (p @ take req Y) @ drop req Y @ r2" "length (drop req Y) = length b" "length (take req Y) = req"
    using dY r1 by (simp_all add: Y_def)
  have "go_copy d (ins + req) (ins + length b + req) b = Inr ((p @ take req Y) @ b @ r2)"
    unfolding Y(1) using Y(2,3) p by (intro go_copy_append) simp_all
  with s Y(3) show ?thesis by (intro exI [of _ "take req Y"]) simp
qed

lemma insertIntoInternal_rep:
  assumes rep: "node_rep cs rm (pgData node)"
    and room: "BTreeHeaderSize + length (enc_seps cs) + (10 + length k) < PageSize"
    and right: "unat ri < 2 ^ 32"
  shows "\<exists>node'. insertIntoInternal node k l ri = (None, node') \<and>
     node_rep (fst (ins_sep k l ri cs rm)) (snd (ins_sep k l ri cs rm)) (pgData node') \<and>
     pgID node' = pgID node \<and> ParentID (pgData node') = ParentID (pgData node)"
proof -
  let ?as = "takeWhile (\<lambda>c. \<not> k < fst c) cs" and ?bs = "dropWhile (\<lambda>c. \<not> k < fst c) cs"
  let ?d = "pgData node" let ?req = "10 + length k"
  let ?ins = "BTreeHeaderSize + length (enc_seps ?as)" and ?off = "BTreeHeaderSize + length (enc_seps cs)"
  have ecs: "enc_seps cs = enc_seps ?as @ enc_seps ?bs"
    by (metis concat_append map_append takeWhile_dropWhile_id)
  from rep obtain h r where d: "?d = h @ enc_seps cs @ r" and h: "length h = BTreeHeaderSize"
    and len: "length ?d = PageSize" and t: "PageType h = PageTypeInternal" and n: "NumCells h = length cs"
    and rmh: "RightmostChildID h = rm" and small: "length cs < PageSize"
    by (rule node_repE)
  obtain r1 r2 where r: "r = r1 @ r2" "length r1 = ?req"
    using room d h len append_take_drop_id [of ?req r, symmetric] by (intro that [of "take ?req r" "drop ?req r"]) simp_all
  have N: "NumCells ?d = length cs" using h n by (simp add: d)
  have le: "?ins \<le> ?off" by (simp add: ecs)
  have u: "u32 ?req = ?req" "u32 (?off + ?req) = ?off + ?req" "u32 (?ins + ?req) = ?ins + ?req"
    "u32 (?ins + ?req + 2) = ?ins + ?req + 2" "?off + ?req \<le> PageSize" "?ins + ?req \<le> PageSize"
    using room le by (simp_all add: PageSize_def)
  have safe: "BTree_IsSafeForInsert ?req ?d"
    using safe_loop_seps [OF d h len] t h n room u(2) by (simp add: BTree_IsSafeForInsert_def d)
  have "\<forall>c\<in>set ?as. \<not> k < fst c" using set_takeWhileD by fastforce
  moreover have b: "?bs = [] \<or> k < fst (hd ?bs)" using hd_dropWhile [of "\<lambda>c. \<not> k < fst c" cs] by auto
  ultimately have scan: "node_scan (length cs) ?d BTreeHeaderSize k None = (if ?bs = [] then None else Some ?ins, ?off)"
    using node_scan_pos [of ?d h ?as ?bs r BTreeHeaderSize k] node_scan_end [OF d h len, of k None] d h len
    by (simp add: prod_eq_iff del: dropWhile_eq_Nil_conv)
  have num: "u16 (length cs + 1) = Suc (length cs)" using small by (simp add: PageSize_def)
  show ?thesis
  proof (cases ?bs)
    case Nil
    then have as: "?as = cs" by (metis append_Nil2 takeWhile_dropWhile_id)
    let ?h' = "SetRightmostChildID ri h"
    have d1: "SetRightmostChildID ri ?d = (?h' @ enc_seps cs) @ r1 @ r2" using h r by (simp add: d)
    have put: "go_copy (wr_le 8 (wr_le 2 ((?h' @ enc_seps cs) @ r1 @ r2) ?off (length k)) (?off + 2) (unat l)) (?off + 10)
           (u32 (?off + 10 + length k)) k = Inr ((?h' @ enc_seps cs) @ enc_sep (k, l) @ r2)"
      using h r d len by (intro put_sep) simp_all
    let ?D = "SetNumCells (u16 (length cs + 1)) ((?h' @ enc_seps cs) @ enc_sep (k, l) @ r2)"
    have run: "insertIntoInternal node k l ri = (None, node\<lparr>pgData := ?D, pgVersion := pgVersion node + 1\<rparr>)"
      unfolding insertIntoInternal_def Let_def u(1) N scan Nil
      using safe u put by (simp add: as d1 [simplified])
    have "?D = SetNumCells (Suc (length cs)) ?h' @ enc_seps (cs @ [(k, l)]) @ r2"
      unfolding num using h by simp
    moreover have "length ?D = PageSize" unfolding num using h r d len by simp
    ultimately have "node_rep (cs @ [(k, l)]) ri ?D"
      using h t right small by (intro node_repI [where h = "SetNumCells (Suc (length cs)) ?h'" and r = r2])
        (simp_all add: PageSize_def)
    moreover have "ins_sep k l ri cs rm = (cs @ [(k, l)], ri)"
      unfolding ins_sep_def Let_def Nil as by simp
    ultimately show ?thesis using run h by (simp add: d)
  next
    case (Cons c bs)
    let ?p = "h @ enc_seps ?as" let ?b = "enc_seps (c # bs)"
    have pl: "length ?p = ?ins" using h by simp
    have ol: "?off = ?ins + length ?b" using ecs unfolding Cons by simp
    have dd: "?d = ?p @ ?b @ r1 @ r2" using d ecs r unfolding Cons by simp
    from shift_up [OF dd pl r(2)] obtain X where X: "length X = ?req"
      and sh: "go_copy ?d (?ins + ?req) (?off + ?req) (slice ?d ?ins ?off) = Inr (?p @ X @ ?b @ r2)"
      unfolding ol by blast
    let ?D0 = "?p @ X @ enc_seps ((fst c, ri) # bs) @ r2"
    have wr: "wr_le 8 (?p @ X @ ?b @ r2) (?ins + ?req + 2) (unat ri) = ?D0"
      using wr_child [of "?p @ X" "?ins + ?req" c "enc_seps bs @ r2" ri] pl X by simp
    have len0: "length ?D0 = PageSize" using dd len r X by simp
    have put: "go_copy (wr_le 8 (wr_le 2 ?D0 ?ins (length k)) (?ins + 2) (unat l)) (?ins + 10)
           (u32 (?ins + 10 + length k)) k = Inr (?p @ enc_sep (k, l) @ enc_seps ((fst c, ri) # bs) @ r2)"
      using pl X len0 by (intro put_sep) simp_all
    let ?D = "SetNumCells (u16 (length cs + 1)) (?p @ enc_sep (k, l) @ enc_seps ((fst c, ri) # bs) @ r2)"
    have run: "insertIntoInternal node k l ri = (None, node\<lparr>pgData := ?D, pgVersion := pgVersion node + 1\<rparr>)"
      unfolding insertIntoInternal_def Let_def u(1) N scan Cons
      using safe by (simp only: list.distinct if_False if_True prod.case option.case u sh sum.case wr put HOL.simp_thms)
    have "length cs = length ?as + Suc (length bs)"
      by (metis Cons length_append length_Cons takeWhile_dropWhile_id)
    then have num': "u16 (length cs + 1) = length (?as @ (k, l) # (fst c, ri) # bs)" using num by simp
    have "?D = SetNumCells (length (?as @ (k, l) # (fst c, ri) # bs)) h @ enc_seps (?as @ (k, l) # (fst c, ri) # bs) @ r2"
      unfolding num' using h by simp
    moreover have "length ?D = PageSize" unfolding num' using h X len0 by simp
    ultimately have "node_rep (?as @ (k, l) # (fst c, ri) # bs) rm ?D"
      using h t small rmh num'
      by (intro node_repI [where h = "SetNumCells (length (?as @ (k, l) # (fst c, ri) # bs)) h" and r = r2])
        (simp_all add: PageSize_def \<open>length cs = _\<close>)
    moreover have "ins_sep k l ri cs rm = (?as @ (k, l) # (fst c, ri) # bs, rm)"
      unfolding ins_sep_def Let_def Cons by simp
    ultimately show ?thesis using run h by (simp add: d)
  qed
qed

subsection \<open>Splitting an internal node\<close>

lemma split_node_rep:
  assumes rep: "node_rep (as @ c # bs) rm (pgData node)" and mid: "length as = length (as @ c # bs) div 2"
    and new: "length (pgData newNode) = PageSize"
    and ids: "unat (snd c) < 2 ^ 32"
    and split: "split_node node newNode = (node', newNode', pivot)"
  shows "pivot = fst c" and "node_rep as (snd c) (pgData node')" and "node_rep bs rm (pgData newNode')"
    and "ParentID (pgData newNode') = ParentID (pgData node)"
    and "pgID node' = pgID node" and "pgID newNode' = pgID newNode"
proof -
  from rep obtain h r where d: "pgData node = h @ enc_seps (as @ c # bs) @ r" and h: "length h = BTreeHeaderSize"
    and len: "length (pgData node) = PageSize" and t: "PageType h = PageTypeInternal"
    and n: "NumCells h = length (as @ c # bs)" and rmh: "RightmostChildID h = rm" and small: "length (as @ c # bs) < PageSize"
    by (rule node_repE)
  obtain q where q: "BTreeInit (pgData newNode) = replicate BTreeHeaderSize 0 @ q" "length q = PageSize - BTreeHeaderSize"
    using BTreeInit_split [OF new] .
  let ?d0 = "h @ enc_seps (as @ c # bs) @ r"
  let ?off = "BTreeHeaderSize + length (enc_seps as)" let ?mend = "?off + 10 + length (fst c)"
  let ?hn = "SetRightmostChildID rm (SetParentID (ParentID h) (SetPageType PageTypeInternal (replicate BTreeHeaderSize 0)))"
  let ?h1 = "SetRightmostChildID (snd c) h" let ?x = "enc_seps bs @ r" let ?m = "length as"
  have len0: "length ?d0 = PageSize" using len by (simp add: d)
  have N: "NumCells ?d0 = length (as @ c # bs)" using h n by simp
  have scan: "split_node_scan (NumCells ?d0) ?m ?d0 BTreeHeaderSize = (?off, Some (snd c, fst c, ?mend))"
    unfolding N by (rule split_node_scan_seps [OF refl _ len0]) (simp add: h)
  have fin: "(?mend = 0) = False" "(PageSize < ?mend) = False" using len0 h by simp_all
  have A: "SetParentID (ParentID ?d0) (SetPageType PageTypeInternal (BTreeInit (pgData newNode))) =
      SetParentID (ParentID h) (SetPageType PageTypeInternal (replicate BTreeHeaderSize 0)) @ q"
    using h by (simp add: q)
  have B: "SetRightmostChildID (RightmostChildID ?d0)
      (SetParentID (ParentID h) (SetPageType PageTypeInternal (replicate BTreeHeaderSize 0)) @ q) = ?hn @ q"
    using h rmh by simp
  have B': "SetRightmostChildID (snd c) ?d0 = ?h1 @ enc_seps (as @ c # bs) @ r" using h by simp
  have C: "u16 (NumCells ?d0 + 65535 - ?m) = length bs" "NumCells ?d0 div 2 = ?m"
    unfolding N using mid small by (simp_all add: u16_def PageSize_def)
  have x: "slice (?h1 @ enc_seps (as @ c # bs) @ r) ?mend (?mend + (PageSize - ?mend)) = ?x"
    using slice_tail [of "?h1 @ enc_seps as @ enc_sep c" ?x ?mend] len0 h by simp
  have body: "(if 0 < PageSize - ?mend then blit (?hn @ q) BTreeHeaderSize (take (PageSize - BTreeHeaderSize) ?x) else ?hn @ q)
      = ?hn @ ?x @ drop (length ?x) q"
  proof (cases "0 < PageSize - ?mend")
    case True
    have "length ?x \<le> PageSize - BTreeHeaderSize" using len0 h by simp
    then have "blit (?hn @ q) BTreeHeaderSize (take (PageSize - BTreeHeaderSize) ?x) = ?hn @ ?x @ drop (length ?x) q"
      using q(2) by (intro blit_body) simp_all
    with True show ?thesis by (simp only: if_True)
  next
    case False
    moreover have "length ?x = PageSize - ?mend" using len0 h by simp
    ultimately have "length ?x = 0" by linarith
    then have "?x = []" by (simp only: length_0_conv)
    with False show ?thesis by (simp only: if_False list.size drop0 append_Nil)
  qed
  have D: "SetNumCells (length bs) (?hn @ ?x @ drop (length ?x) q) = SetNumCells (length bs) ?hn @ enc_seps bs @ r @ drop (length ?x) q"
    by simp
  have E: "SetNumCells ?m (?h1 @ enc_seps (as @ c # bs) @ r) = SetNumCells ?m ?h1 @ enc_seps (as @ c # bs) @ r"
    using h by simp
  have zero: "zero_range (SetNumCells ?m ?h1 @ enc_seps (as @ c # bs) @ r) ?mend PageSize =
      (SetNumCells ?m ?h1 @ enc_seps as @ enc_sep c) @ replicate (length ?x) 0"
    using zero_tail [of "SetNumCells ?m ?h1 @ enc_seps as @ enc_sep c" ?x ?mend] len0 h by simp
  have "split_node node newNode =
      (node\<lparr>pgData := (SetNumCells ?m ?h1 @ enc_seps as @ enc_sep c) @ replicate (length ?x) 0, pgVersion := pgVersion node + 1\<rparr>,
       newNode\<lparr>pgData := SetNumCells (length bs) ?hn @ enc_seps bs @ r @ drop (length ?x) q,
               pgVersion := pgVersion newNode + 1\<rparr>, fst c)"
    by (simp only: split_node_def Let_def d A B C scan prod.case option.case fin HOL.simp_thms if_False B' x body D E zero)
  then have eqs: "pgData node' = SetNumCells ?m ?h1 @ enc_seps as @ enc_sep c @ replicate (length ?x) 0"
      "pgData newNode' = SetNumCells (length bs) ?hn @ enc_seps bs @ r @ drop (length ?x) q"
      "pivot = fst c" "pgID node' = pgID node" "pgID newNode' = pgID newNode"
    using split by auto
  show "pivot = fst c" "pgID node' = pgID node" "pgID newNode' = pgID newNode" by fact+
  show "node_rep as (snd c) (pgData node')"
    unfolding eqs using h t small len0 ids
    by (intro node_repI [where h = "SetNumCells ?m ?h1" and r = "enc_sep c @ replicate (length ?x) 0"]) (simp_all add: PageSize_def)
  have "unat rm < 2 ^ 32"
    using rd_le_bound [of 4 h 20] by (simp add: RightmostChildID_def flip: rmh) (simp add: unat_of_nat take_bit_eq_mod)
  then show "node_rep bs rm (pgData newNode')"
    unfolding eqs using small len0 q(2) h
    by (intro node_repI [where h = "SetNumCells (length bs) ?hn" and r = "r @ drop (length ?x) q"])
      (simp_all add: layout_defs u16_def)
  show "ParentID (pgData newNode') = ParentID (pgData node)"
    unfolding eqs d using h by simp
qed

subsection \<open>Routing\<close>

lemma route_Cons: "route (c # cs) rm k = (if k < fst c then snd c else route cs rm k)"
  by (simp add: route_def)

lemma route_append_lt: "\<forall>c\<in>set as. \<not> k < fst c \<Longrightarrow> route (as @ bs) rm k = route bs rm k"
  by (induction as) (simp_all add: route_Cons)

lemma route_in: "route cs rm k \<in> insert rm (snd ` set cs)"
  by (induction cs) (auto simp: route_Cons route_def)

text \<open>Splitting a node routes every key as before: below the pivot in the old node, from
  the pivot on in the new one.\<close>

lemma route_split:
  assumes "sorted_cells (as @ c # bs)"
  shows "route (as @ c # bs) rm k = (if k < fst c then route as (snd c) k else route bs rm k)"
  using assms
proof (induction as)
  case Nil
  then show ?case by (simp add: route_Cons) (simp add: route_def)
next
  case (Cons a as)
  then have "fst a < fst c" by auto
  with Cons show ?case by (auto simp: route_Cons)
qed

text \<open>After the pivot of a split child has been inserted, the keys of that child are divided
  at the pivot and all others keep their child.\<close>

lemma route_ins_sep:
  assumes "sorted_cells cs" "distinct (map snd cs @ [rm])" "route cs rm p = l"
  shows "route (fst (ins_sep p l r cs rm)) (snd (ins_sep p l r cs rm)) k =
    (if route cs rm k = l then if k < p then l else r else route cs rm k)"
  using assms
proof (induction cs)
  case Nil
  then show ?case by (simp add: ins_sep_def route_Cons) (simp add: route_def)
next
  case (Cons c cs)
  show ?case
  proof (cases "p < fst c")
    case True
    with Cons.prems have "snd c = l" by (simp add: route_Cons)
    moreover have "route cs rm k \<noteq> l"
      using route_in [of cs rm k] Cons.prems(2) \<open>snd c = l\<close>
      by (simp add: image_iff) metis
    ultimately show ?thesis using True by (auto simp: ins_sep_def route_Cons)
  next
    case False
    then have ins: "ins_sep p l r (c # cs) rm = (c # fst (ins_sep p l r cs rm), snd (ins_sep p l r cs rm))"
      unfolding ins_sep_def Let_def by (cases "dropWhile (\<lambda>c. \<not> p < fst c) cs") (simp_all only: dropWhile.simps takeWhile.simps if_True list.case append_Cons fst_conv snd_conv not_False_eq_True)
    have l: "route cs rm p = l" using False Cons.prems by (simp add: route_Cons)
    then have "snd c \<noteq> l" using route_in [of cs rm p] Cons.prems(2)
      by (simp add: image_iff) metis
    with Cons l show ?thesis by (simp add: ins route_Cons)
  qed
qed

end
