(* ===== verification/KVSpec.thy ===== *)
theory KVSpec
  imports Prelude
begin

text \<open>
  The contract of a key/value store (\<open>KVStore\<close> of \<open>interfaces.go\<close>) as a locale, and
  what follows from it for any sequence of calls. The laws are those the engine's own
  implementation has: a lookup returns the contents, a successful \<open>Put\<close> binds the key, a
  failed \<open>Put\<close> leaves the key unbound (the old cell has already been purged), a successful
  \<open>Delete\<close> removes the key and a failed one changes nothing.
\<close>

datatype kv_op = OpPut bytes bytes | OpDelete bytes

fun op_small :: "kv_op \<Rightarrow> bool" where
  "op_small (OpPut k v) \<longleftrightarrow> 4 + length k + length v < 2 ^ 31"
| "op_small (OpDelete k) \<longleftrightarrow> True"

text \<open>The specification of one call on the abstract contents, given whether it failed.\<close>

fun op_spec :: "kv_op \<Rightarrow> bool \<Rightarrow> (bytes \<rightharpoonup> bytes) \<Rightarrow> (bytes \<rightharpoonup> bytes)" where
  "op_spec (OpPut k v) failed m = (if failed then m(k := None) else m(k \<mapsto> v))"
| "op_spec (OpDelete k) failed m = m(k := None)"

text \<open>Running a sequence of calls, collecting the errors.\<close>

fun exec1 :: "('s \<Rightarrow> bytes \<Rightarrow> bytes \<Rightarrow> error option \<times> 's) \<Rightarrow> ('s \<Rightarrow> bytes \<Rightarrow> error option \<times> 's) \<Rightarrow>
    's \<Rightarrow> kv_op \<Rightarrow> error option \<times> 's" where
  "exec1 put del s (OpPut k v) = put s k v"
| "exec1 put del s (OpDelete k) = del s k"

fun exec :: "('s \<Rightarrow> bytes \<Rightarrow> bytes \<Rightarrow> error option \<times> 's) \<Rightarrow> ('s \<Rightarrow> bytes \<Rightarrow> error option \<times> 's) \<Rightarrow>
    's \<Rightarrow> kv_op list \<Rightarrow> error option list \<times> 's" where
  "exec put del s [] = ([], s)"
| "exec put del s (x # xs) =
     (let (e, s1) = exec1 put del s x; (es, s2) = exec put del s1 xs in (e # es, s2))"

locale kv_store =
  fixes inv :: "'s \<Rightarrow> bool"
    and contents :: "'s \<Rightarrow> bytes \<rightharpoonup> bytes"
    and get :: "'s \<Rightarrow> bytes \<Rightarrow> bytes result"
    and put :: "'s \<Rightarrow> bytes \<Rightarrow> bytes \<Rightarrow> error option \<times> 's"
    and del :: "'s \<Rightarrow> bytes \<Rightarrow> error option \<times> 's"
  assumes get_contents:
      "inv s \<Longrightarrow> get s k = (case contents s k of Some v \<Rightarrow> Inr v | None \<Rightarrow> Inl ErrKeyNotFound)"
    and put_contents:
      "inv s \<Longrightarrow> 4 + length k + length v < 2 ^ 31 \<Longrightarrow> put s k v = (e, s') \<Longrightarrow>
       inv s' \<and> contents s' = (contents s)(k := (if e = None then Some v else None))"
    and del_contents:
      "inv s \<Longrightarrow> del s k = (e, s') \<Longrightarrow>
       inv s' \<and> contents s' = (contents s)(k := None) \<and> (e = None \<longleftrightarrow> contents s k \<noteq> None)"
begin

lemma exec1_spec:
  "inv s \<Longrightarrow> op_small x \<Longrightarrow> exec1 put del s x = (e, s') \<Longrightarrow>
   inv s' \<and> contents s' = op_spec x (e \<noteq> None) (contents s)"
  using put_contents [of s _ _ e s'] del_contents [of s _ e s'] by (cases x) auto

text \<open>Any sequence of calls acts on the contents as the abstract operations do.\<close>

lemma exec_spec:
  "inv s \<Longrightarrow> list_all op_small xs \<Longrightarrow> exec put del s xs = (es, s') \<Longrightarrow>
   inv s' \<and> length es = length xs \<and>
   contents s' = fold (\<lambda>(x, e). op_spec x (e \<noteq> None)) (zip xs es) (contents s)"
proof (induction xs arbitrary: s es)
  case (Cons x xs)
  obtain e s1 where 1: "exec1 put del s x = (e, s1)" by fastforce
  obtain es' s2 where 2: "exec put del s1 xs = (es', s2)" by fastforce
  have "inv s1 \<and> contents s1 = op_spec x (e \<noteq> None) (contents s)"
    using exec1_spec [OF Cons.prems(1) _ 1] Cons.prems(2) by simp
  with Cons.IH [of s1 es'] Cons.prems 1 2 show ?case by auto
qed simp

lemma get_put_same:
  "inv s \<Longrightarrow> 4 + length k + length v < 2 ^ 31 \<Longrightarrow> put s k v = (None, s') \<Longrightarrow> get s' k = Inr v"
  using put_contents [of s k v None s'] get_contents [of s'] by simp

lemma get_put_other:
  "inv s \<Longrightarrow> 4 + length k + length v < 2 ^ 31 \<Longrightarrow> put s k v = (e, s') \<Longrightarrow> k' \<noteq> k \<Longrightarrow> get s' k' = get s k'"
  using put_contents [of s k v e s'] get_contents [of s'] get_contents [of s] by simp

lemma get_del:
  "inv s \<Longrightarrow> del s k = (e, s') \<Longrightarrow> get s' k' = (if k' = k then Inl ErrKeyNotFound else get s k')"
  using del_contents [of s k e s'] get_contents [of s'] get_contents [of s] by simp

end

end
