(* ===== verification/LeafStore.thy ===== *)
theory LeafStore
  imports BTreePage KVSpec
begin

text \<open>
  A leaf page as a key/value store: the cell loop of \<open>BTree.Scan\<close>, the contents of a
  leaf read with it, and the proof that lookup, insertion and deletion on a leaf satisfy the
  laws of \<open>kv_store\<close>; then the properties of leaf and internal pages.
\<close>

section \<open>Scanning a leaf\<close>

fun scan_leaf :: "nat \<Rightarrow> bytes \<Rightarrow> nat \<Rightarrow> bytes \<Rightarrow> (bytes \<times> bytes) list" where
  "scan_leaf 0 d off prefix = []"
| "scan_leaf (Suc n) d off prefix =
     (if PageSize < off + 4 then []
      else let kLen = rd_le 2 d off; vLen = rd_le 2 d (off + 2)
           in if PageSize < off + 4 + kLen + vLen then []
              else let key = slice d (off + 4) (off + 4 + kLen);
                       val = slice d (off + 4 + kLen) (off + 4 + kLen + vLen);
                       rest = scan_leaf n d (off + 4 + kLen + vLen) prefix
                   in if has_prefix key prefix then (key, val) # rest else rest)"

lemma scan_leaf_cells:
  "d = p @ enc_cells cs @ r \<Longrightarrow> length p = off \<Longrightarrow> length d = PageSize \<Longrightarrow>
   scan_leaf (length cs) d off prefix = filter (\<lambda>c. has_prefix (fst c) prefix) cs"
proof (induction cs arbitrary: p off)
  case (Cons c cs)
  note read = cell_read [of d p c "enc_cells cs @ r" off]
  have "scan_leaf (length cs) d (off + 4 + length (fst c) + length (snd c)) prefix =
      filter (\<lambda>c. has_prefix (fst c) prefix) cs"
    using Cons.prems by (intro Cons.IH [of "p @ enc_cell c"]) auto
  with Cons.prems read show ?case by (simp add: Let_def)
qed simp

definition leaf_cells :: "page \<Rightarrow> (bytes \<times> bytes) list" where
  "leaf_cells p = scan_leaf (NumCells (pgData p)) (pgData p) BTreeHeaderSize []"

definition leaf_contents :: "page \<Rightarrow> bytes \<rightharpoonup> bytes" where
  "leaf_contents p = map_of (leaf_cells p)"

definition leaf_inv :: "page \<Rightarrow> bool" where
  "leaf_inv p \<longleftrightarrow> leaf_rep (leaf_cells p) (pgData p) \<and> sorted_cells (leaf_cells p)"

lemma scan_leaf_rep:
  assumes "leaf_rep cs d"
  shows "scan_leaf (NumCells d) d BTreeHeaderSize prefix = filter (\<lambda>c. has_prefix (fst c) prefix) cs"
proof -
  from assms obtain h r where "d = h @ enc_cells cs @ r" "length h = BTreeHeaderSize" "length d = PageSize"
    "NumCells h = length cs"
    by (rule leaf_repE)
  then show ?thesis using scan_leaf_cells [of d h cs r BTreeHeaderSize] by simp
qed

lemma leaf_rep_cells: "leaf_rep cs (pgData p) \<Longrightarrow> leaf_cells p = cs"
  by (simp add: leaf_cells_def scan_leaf_rep has_prefix_def)

lemma leaf_invI: "leaf_rep cs (pgData p) \<Longrightarrow> sorted_cells cs \<Longrightarrow> leaf_inv p \<and> leaf_contents p = map_of cs"
  by (simp add: leaf_inv_def leaf_contents_def leaf_rep_cells)

lemma sorted_cells_distinct: "sorted_cells cs \<Longrightarrow> distinct (map fst cs)"
  by (induction cs) auto

section \<open>A leaf is a key/value store\<close>

lemma leaf_put:
  assumes inv: "leaf_inv p" and small: "4 + length k + length v < 2 ^ 31"
    and run: "insertIntoLeaf p k v = (e, p')"
  shows "leaf_inv p' \<and> leaf_contents p' = (leaf_contents p)(k := (if e = None then Some v else None)) \<and>
    same_frame p p' \<and> (e = None \<or> e = Some ErrPageFull)"
proof -
  let ?cs = "leaf_cells p"
  from inv have rep: "leaf_rep ?cs (pgData p)" and s: "sorted_cells ?cs" by (simp_all add: leaf_inv_def)
  show ?thesis
  proof (cases "BTreeHeaderSize + length (enc_cells (filter (\<lambda>c. fst c \<noteq> k) ?cs)) + (4 + length k + length v) < PageSize")
    case True
    from insertIntoLeaf_ok [OF rep True] run have "e = None" "leaf_rep (ins_cell k v ?cs) (pgData p')" "same_frame p p'"
      by auto
    with leaf_invI sorted_ins_cell [OF s] show ?thesis
      by (simp add: map_of_ins_cell leaf_contents_def)
  next
    case False
    with insertIntoLeaf_full [OF rep small] run have
      "e = Some ErrPageFull" "leaf_rep (filter (\<lambda>c. fst c \<noteq> k) ?cs) (pgData p')" "same_frame p p'"
      by auto
    with leaf_invI sorted_cells_filter [OF s] show ?thesis
      by (simp add: map_of_filter_other leaf_contents_def)
  qed
qed

lemma leaf_del:
  assumes inv: "leaf_inv p" and run: "leaf_Delete p k = (e, p')"
  shows "leaf_inv p' \<and> leaf_contents p' = (leaf_contents p)(k := None) \<and>
    e = (if leaf_contents p k = None then Some ErrKeyNotFound else None) \<and> same_frame p p'"
proof -
  let ?cs = "leaf_cells p"
  from inv have rep: "leaf_rep ?cs (pgData p)" and s: "sorted_cells ?cs" by (simp_all add: leaf_inv_def)
  show ?thesis
  proof (cases "k \<in> fst ` set ?cs")
    case False
    then have "map_of ?cs k = None" by (simp add: map_of_eq_None_iff)
    with leaf_Delete_missing [OF rep False] run inv show ?thesis
      by (auto simp: leaf_contents_def fun_eq_iff)
  next
    case True
    from split_key_first [OF this] obtain as v bs where cs: "?cs = as @ (k, v) # bs" and as: "k \<notin> fst ` set as"
      by (elim exE conjE)
    from leaf_Delete_first [OF rep [unfolded cs] as] run have 1: "e = None" "leaf_rep (as @ bs) (pgData p')" "same_frame p p'"
      by auto
    have f: "as @ bs = filter (\<lambda>c. fst c \<noteq> k) ?cs"
      using filter_distinct_key [of as k v bs] sorted_cells_distinct [OF s] cs by metis
    have "leaf_inv p' \<and> leaf_contents p' = map_of (as @ bs)"
      using leaf_invI [OF 1(2)] sorted_cells_filter [OF s] unfolding f by blast
    moreover have "map_of ?cs k \<noteq> None" using True by (simp add: map_of_eq_None_iff)
    ultimately show ?thesis
      using 1 map_of_filter_other [of k ?cs] by (simp add: leaf_contents_def f)
  qed
qed

interpretation leaf: kv_store leaf_inv leaf_contents "\<lambda>p. leaf_Get (pgData p)" insertIntoLeaf leaf_Delete
proof
  show "leaf_Get (pgData s) k = (case leaf_contents s k of Some v \<Rightarrow> Inr v | None \<Rightarrow> Inl ErrKeyNotFound)"
    if "leaf_inv s" for s k
    using that leaf_Get_rep by (simp add: leaf_inv_def leaf_contents_def)
  show "leaf_inv s' \<and> leaf_contents s' = (leaf_contents s)(k := (if e = None then Some v else None))"
    if "leaf_inv s" "4 + length k + length v < 2 ^ 31" "insertIntoLeaf s k v = (e, s')" for s k v e s'
    using leaf_put [OF that] by simp
  show "leaf_inv s' \<and> leaf_contents s' = (leaf_contents s)(k := None) \<and> (e = None \<longleftrightarrow> leaf_contents s k \<noteq> None)"
    if "leaf_inv s" "leaf_Delete s k = (e, s')" for s k e s'
    using leaf_del [OF that] by simp
qed

section \<open>Concrete pages\<close>

definition mk_leaf :: "PageID \<Rightarrow> (bytes \<times> bytes) list \<Rightarrow> page" where
  "mk_leaf i cs = \<lparr>pgID = i,
     pgData = SetNumCells (length cs) (SetPageType PageTypeLeaf (replicate BTreeHeaderSize 0)) @ enc_cells cs @
       replicate (PageSize - BTreeHeaderSize - length (enc_cells cs)) 0,
     pgPin = 0, pgDirty = False, pgVersion = 0\<rparr>"

definition mk_node :: "PageID \<Rightarrow> (bytes \<times> PageID) list \<Rightarrow> PageID \<Rightarrow> page" where
  "mk_node i cs rm = \<lparr>pgID = i,
     pgData = SetNumCells (length cs) (SetRightmostChildID rm (SetPageType PageTypeInternal (replicate BTreeHeaderSize 0))) @
       enc_seps cs @ replicate (PageSize - BTreeHeaderSize - length (enc_seps cs)) 0,
     pgPin = 0, pgDirty = False, pgVersion = 0\<rparr>"

lemma mk_leaf_rep:
  assumes "BTreeHeaderSize + length (enc_cells cs) \<le> PageSize"
  shows "leaf_rep cs (pgData (mk_leaf i cs))"
proof -
  have "length cs < 65536" using assms length_enc_cells_ge [of cs] by (simp add: layout_defs)
  with assms show ?thesis
    unfolding leaf_rep_split mk_leaf_def by (auto simp: layout_defs)
qed

lemma mk_node_rep:
  assumes "BTreeHeaderSize + length (enc_seps cs) \<le> PageSize" "unat rm < 2 ^ 32"
  shows "node_rep cs rm (pgData (mk_node i cs rm))"
proof -
  have "length cs < 65536" using assms length_enc_seps_ge [of cs] by (simp add: layout_defs)
  with assms show ?thesis
    by (intro node_repI [where h = "SetNumCells (length cs) (SetRightmostChildID rm (SetPageType PageTypeInternal (replicate BTreeHeaderSize 0)))"
          and r = "replicate (PageSize - BTreeHeaderSize - length (enc_seps cs)) 0"])
      (simp_all add: mk_node_def layout_defs)
qed

lemma mk_leaf_inv:
  assumes "BTreeHeaderSize + length (enc_cells cs) \<le> PageSize" "sorted_cells cs"
  shows "leaf_inv (mk_leaf i cs)" "leaf_contents (mk_leaf i cs) = map_of cs" "leaf_cells (mk_leaf i cs) = cs"
  using leaf_invI [OF mk_leaf_rep [OF assms(1)] assms(2)] leaf_rep_cells [OF mk_leaf_rep [OF assms(1)]] by simp_all

section \<open>Properties\<close>

text \<open>C11: \<open>insertIntoLeaf\<close> on a well-formed leaf either fits and binds the key to the value,
  keeping the order, the other keys and the links, or reports \<open>ErrPageFull\<close>. In the second
  case the previous cell of the key is already gone.\<close>

theorem insertIntoLeaf_correct:
  assumes "leaf_inv p" "4 + length k + length v < 2 ^ 31" "insertIntoLeaf p k v = (e, p')"
  shows "e = (if BTreeHeaderSize + length (enc_cells (filter (\<lambda>c. fst c \<noteq> k) (leaf_cells p))) + (4 + length k + length v) < PageSize
              then None else Some ErrPageFull)
    \<and> leaf_inv p' \<and> same_frame p p'
    \<and> leaf_contents p' = (leaf_contents p)(k := (if e = None then Some v else None))"
proof -
  from assms(1) have rep: "leaf_rep (leaf_cells p) (pgData p)" by (simp add: leaf_inv_def)
  have "e = (if BTreeHeaderSize + length (enc_cells (filter (\<lambda>c. fst c \<noteq> k) (leaf_cells p))) + (4 + length k + length v) < PageSize
              then None else Some ErrPageFull)"
    using insertIntoLeaf_ok [OF rep, of k v] insertIntoLeaf_full [OF rep assms(2)] assms(3) by auto
  with leaf_put [OF assms] show ?thesis by blast
qed

theorem insertIntoLeaf_correct_witness:
  "\<exists>p'. insertIntoLeaf (mk_leaf 1003 [([1], [2])]) [1] [3] = (None, p') \<and> leaf_contents p' = [[1] \<mapsto> [3]]"
proof -
  let ?p = "mk_leaf 1003 [([1], [2])]"
  obtain e p' where run: "insertIntoLeaf ?p [1] [3] = (e, p')" by fastforce
  have "leaf_inv ?p" "leaf_contents ?p = [[1] \<mapsto> [2]]" "leaf_cells ?p = [([1], [2])]"
    using mk_leaf_inv [of "[([1], [2])]" 1003] by (simp_all add: layout_defs)
  with insertIntoLeaf_correct [OF _ _ run] run show ?thesis by (simp add: layout_defs)
qed

text \<open>C12: any sequence of insertions and deletions on a leaf acts on its contents as the
  corresponding updates of a finite map, with the reported errors.\<close>

theorem leaf_sequence_correct:
  assumes "leaf_inv p" "list_all op_small xs" "exec insertIntoLeaf leaf_Delete p xs = (es, p')"
  shows "leaf_inv p' \<and> length es = length xs \<and>
    leaf_contents p' = fold (\<lambda>(x, e). op_spec x (e \<noteq> None)) (zip xs es) (leaf_contents p)"
  using assms by (rule leaf.exec_spec)

theorem leaf_sequence_correct_witness:
  "\<exists>es p'. exec insertIntoLeaf leaf_Delete (mk_leaf 1003 []) [OpPut [1] [2], OpDelete [1]] = (es, p') \<and>
     leaf_inv p' \<and> length es = 2"
proof -
  obtain es p' where run: "exec insertIntoLeaf leaf_Delete (mk_leaf 1003 []) [OpPut [1] [2], OpDelete [1]] = (es, p')"
    by fastforce
  have "leaf_inv (mk_leaf 1003 [])" using mk_leaf_inv [of "[]"] by (simp add: layout_defs)
  with leaf_sequence_correct [OF _ _ run] run show ?thesis by simp
qed

lemma split_leaf_halves:
  assumes inv: "leaf_inv p" and ne: "leaf_cells p \<noteq> []" and new: "length (pgData q) = PageSize"
    and run: "split_leaf p q = (p', q', k)"
  shows "leaf_inv p' \<and> leaf_inv q' \<and> leaf_cells p' @ leaf_cells q' = leaf_cells p \<and>
    length (leaf_cells p') = length (leaf_cells p) div 2 \<and>
    (\<forall>x\<in>fst ` set (leaf_cells p'). x < k) \<and> (\<forall>x\<in>fst ` set (leaf_cells q'). k \<le> x) \<and>
    NextLeafID (pgData p') = pgID q \<and> NextLeafID (pgData q') = NextLeafID (pgData p) \<and>
    ParentID (pgData q') = ParentID (pgData p) \<and> k \<in> fst ` set (leaf_cells p)"
proof -
  let ?cs = "leaf_cells p" let ?m = "length ?cs div 2"
  have m: "?m < length ?cs" using ne by (cases ?cs) auto
  define as c bs where "as = take ?m ?cs" and "c = ?cs ! ?m" and "bs = drop (Suc ?m) ?cs"
  have cs: "?cs = as @ c # bs" using id_take_nth_drop [OF m] by (simp add: as_def c_def bs_def)
  have mid: "length as = length (as @ c # bs) div 2" unfolding cs [symmetric] using m by (simp add: as_def)
  from inv have rep: "leaf_rep (as @ c # bs) (pgData p)" and s: "sorted_cells (as @ c # bs)"
    by (simp_all add: leaf_inv_def flip: cs)
  note sp = split_leaf_rep [OF rep mid new run]
  have s': "sorted_cells as" "sorted_cells (c # bs)" using s by (simp_all add: sorted_wrt_append)
  have b: "\<forall>x\<in>fst ` set as. x < fst c" "\<forall>x\<in>fst ` set (c # bs). fst c \<le> x"
    using s by (auto simp: sorted_wrt_append less_imp_le)
  have 1: "leaf_inv p'" "leaf_inv q'" "leaf_cells p' = as" "leaf_cells q' = c # bs"
    using leaf_invI [OF sp(2) s'(1)] leaf_invI [OF sp(3) s'(2)] leaf_rep_cells [OF sp(2)] leaf_rep_cells [OF sp(3)]
    by blast+
  have 2: "length as = length ?cs div 2" using m by (simp add: as_def)
  show ?thesis
    unfolding 1(3,4) sp(1) using 1(1,2) 2 sp(4,5,7) b cs by (intro conjI) simp_all
qed

text \<open>The page work of \<open>SplitLeaf\<close> divides the cells at the midpoint, in order and
  without loss: the old page keeps the lower half, the new one takes the rest and the old
  successor, every key below the promoted key is on the left and every other on the right.\<close>

theorem split_leaf_correct:
  assumes inv: "leaf_inv p" and ne: "leaf_cells p \<noteq> []" and new: "length (pgData q) = PageSize"
    and run: "split_leaf p q = (p', q', k)"
  shows "leaf_inv p' \<and> leaf_inv q' \<and> leaf_cells p' @ leaf_cells q' = leaf_cells p \<and>
    length (leaf_cells p') = length (leaf_cells p) div 2 \<and>
    (\<forall>x\<in>fst ` set (leaf_cells p'). x < k) \<and> (\<forall>x\<in>fst ` set (leaf_cells q'). k \<le> x) \<and>
    NextLeafID (pgData p') = pgID q \<and> NextLeafID (pgData q') = NextLeafID (pgData p) \<and>
    ParentID (pgData q') = ParentID (pgData p)"
  using split_leaf_halves [OF assms] by simp

theorem split_leaf_correct_witness:
  "\<exists>p' q' k. split_leaf (mk_leaf 1003 [([1], []), ([2], [])]) (mk_leaf 1004 []) = (p', q', k) \<and>
     leaf_cells p' @ leaf_cells q' = [([1], []), ([2], [])] \<and> length (leaf_cells p') = 1"
proof -
  let ?cs = "[([1], []), ([2], [])] :: (bytes \<times> bytes) list"
  obtain p' q' k where run: "split_leaf (mk_leaf 1003 ?cs) (mk_leaf 1004 []) = (p', q', k)"
    using prod_cases3 by blast
  have "leaf_inv (mk_leaf 1003 ?cs)" "leaf_cells (mk_leaf 1003 ?cs) = ?cs"
    using mk_leaf_inv [of ?cs 1003] by (simp_all add: layout_defs)
  moreover have "length (pgData (mk_leaf 1004 [])) = PageSize" by (simp add: mk_leaf_def layout_defs)
  ultimately show ?thesis using split_leaf_correct [OF _ _ _ run] run by simp
qed

text \<open>The loop of \<open>insertIntoLeaf\<close> that purges old cells ends on every page image,
  well formed or not, within one round more than the page's cell count.\<close>

theorem purge_terminates:
  assumes "length (pgData p) = PageSize"
  shows "fst (purge (Suc (NumCells (pgData p))) p k) \<noteq> Some OutOfFuel \<and> fst (insertIntoLeaf p k v) \<noteq> Some OutOfFuel"
proof -
  obtain e p1 where run: "purge (Suc (NumCells (pgData p))) p k = (e, p1)" by fastforce
  have e: "e \<noteq> Some OutOfFuel" using purge_fuel [OF assms _ run] by simp
  have "go_copy d a b x \<noteq> Inl OutOfFuel" for d a b x by (simp add: go_copy_def)
  moreover have "put_leaf_cell a k v d \<noteq> Inl OutOfFuel" for a d
    by (simp add: put_leaf_cell_def Let_def go_copy_def)
  ultimately show ?thesis
    using e unfolding insertIntoLeaf_def Let_def run
    by (auto split: option.splits prod.splits sum.splits if_splits)
qed

theorem purge_terminates_witness:
  "fst (insertIntoLeaf (mk_leaf 1003 [([1], [2])]) [1] [3]) \<noteq> Some OutOfFuel"
  using purge_terminates [of "mk_leaf 1003 [([1], [2])]" "[1]" "[3]"] by (simp add: mk_leaf_def layout_defs)

text \<open>Inserting the pivot of a split child into an internal node divides the keys of that
  child at the pivot between the left and the right page; every other key is routed as
  before.\<close>

theorem insertIntoInternal_routes:
  assumes rep: "node_rep cs rm (pgData p)" and s: "sorted_cells cs" and d: "distinct (map snd cs @ [rm])"
    and room: "BTreeHeaderSize + length (enc_seps cs) + (10 + length pivot) < PageSize"
    and ids: "unat right < 2 ^ 32" and left: "findChildInInternalNode (pgData p) pivot = left"
  shows "\<exists>p'. insertIntoInternal p pivot left right = (None, p') \<and>
    (\<forall>k. findChildInInternalNode (pgData p') k =
       (if findChildInInternalNode (pgData p) k = left then if k < pivot then left else right
        else findChildInInternalNode (pgData p) k))"
proof -
  from insertIntoInternal_rep [OF rep room ids, of left] obtain p' where
    run: "insertIntoInternal p pivot left right = (None, p')"
    and rep': "node_rep (fst (ins_sep pivot left right cs rm)) (snd (ins_sep pivot left right cs rm)) (pgData p')"
    by blast
  have "route cs rm pivot = left" using left findChild_route [OF rep] by simp
  then show ?thesis
    using run findChild_route [OF rep] findChild_route [OF rep'] route_ins_sep [OF s d] by auto
qed

theorem insertIntoInternal_routes_witness:
  "\<exists>p'. insertIntoInternal (mk_node 1003 [([5], 7)] 8) [3] 7 9 = (None, p') \<and>
     findChildInInternalNode (pgData p') [4] = 9 \<and> findChildInInternalNode (pgData p') [6] = 8"
proof -
  let ?p = "mk_node 1003 [([5], 7)] 8"
  have rep: "node_rep [([5], 7)] 8 (pgData ?p)" by (rule mk_node_rep) (simp_all add: layout_defs)
  note f = findChild_route [OF rep]
  show ?thesis
    using insertIntoInternal_routes [OF rep, of "[3]" 9 7] f [of "[3]"] f [of "[4]"] f [of "[6]"]
    by (auto simp: layout_defs route_def)
qed

text \<open>The page work of \<open>SplitInternalNode\<close> routes every key as before: the old node
  answers below the promoted key, the new one from it on.\<close>

theorem split_node_correct:
  assumes rep: "node_rep cs rm (pgData p)" and s: "sorted_cells cs" and ne: "cs \<noteq> []"
    and ids: "\<forall>c\<in>set cs. unat (snd c) < 2 ^ 32" and new: "length (pgData q) = PageSize"
    and run: "split_node p q = (p', q', pivot)"
  shows "findChildInInternalNode (pgData p) k =
    (if k < pivot then findChildInInternalNode (pgData p') k else findChildInInternalNode (pgData q') k)"
proof -
  let ?m = "length cs div 2"
  have m: "?m < length cs" using ne by (cases cs) auto
  define as c bs where "as = take ?m cs" and "c = cs ! ?m" and "bs = drop (Suc ?m) cs"
  have cs: "cs = as @ c # bs" using id_take_nth_drop [OF m] by (simp add: as_def c_def bs_def)
  have mid: "length as = length (as @ c # bs) div 2" unfolding cs [symmetric] using m by (simp add: as_def)
  have c: "unat (snd c) < 2 ^ 32" using ids cs by simp
  note sp = split_node_rep [OF rep [unfolded cs] mid new c run]
  show ?thesis
    unfolding findChild_route [OF rep] findChild_route [OF sp(2)] findChild_route [OF sp(3)] sp(1)
    unfolding cs using s unfolding cs by (rule route_split)
qed

theorem split_node_correct_witness:
  "\<exists>p' q' pivot. split_node (mk_node 1003 [([5], 7)] 8) (mk_node 1004 [] 0) = (p', q', pivot) \<and>
     (if [6] < pivot then findChildInInternalNode (pgData p') [6] else findChildInInternalNode (pgData q') [6]) = 8"
proof -
  obtain p' q' pivot where run: "split_node (mk_node 1003 [([5], 7)] 8) (mk_node 1004 [] 0) = (p', q', pivot)"
    using prod_cases3 by blast
  have rep: "node_rep [([5], 7)] 8 (pgData (mk_node 1003 [([5], 7)] 8))" by (rule mk_node_rep) (simp_all add: layout_defs)
  have "length (pgData (mk_node 1004 [] 0)) = PageSize" by (simp add: mk_node_def layout_defs)
  with split_node_correct [OF rep _ _ _ _ run, of "[6]"] findChild_route [OF rep, of "[6]"] run
  show ?thesis by (simp add: route_def)
qed

end
