(* ===== verification/BTree.thy ===== *)
theory BTree
  imports LeafStore PoolClient
begin

text \<open>
  The tree of \<open>btree.go\<close> over the buffer pool: the descent to a leaf, optimistic and
  pessimistic insertion, splits and their promotion, cursors, the merge join and the scan.

  A page a routine holds is its frame number; the tree is its root identifier, the pool is
  passed along. Each call into the pool is made \<open>holding\<close> the latches that the code holds at
  that point: the parent's during a descent, those of all ancestors and new pages during a
  split, the other cursor's during a join. Where the code takes a latch it already holds,
  itself or through the flush a full pool starts, the result is \<open>Blocked\<close>; where it releases
  one it no longer holds, \<open>GoPanic\<close>. Between giving up the read latch and taking the write latch other goroutines
  may run: \<open>Insert\<close> gets what they do as an argument. A descent is followed for a given
  number of levels, a walk along the leaves for a given number of leaves: in a damaged file
  both can go round for ever.
\<close>

section \<open>Finding a leaf\<close>

record btree =
  rootID :: PageID

definition NewBTree :: "PageID \<Rightarrow> btree" where
  "NewBTree i = \<lparr>rootID = i\<rparr>"

definition set_page :: "nat \<Rightarrow> page \<Rightarrow> ('d, 'e) pool \<Rightarrow> ('d, 'e) pool" where
  "set_page idx pg = upd_frame idx (\<lambda>_. pg)"

text \<open>A call that waits or loops for ever: what follows it is not executed.\<close>

definition stops :: "error option \<Rightarrow> bool" where
  "stops e \<longleftrightarrow> e = Some Blocked \<or> e = Some OutOfFuel"

definition returns :: "'a result \<Rightarrow> bool" where
  "returns r \<longleftrightarrow> (case r of Inl e \<Rightarrow> \<not> stops (Some e) | Inr _ \<Rightarrow> True)"

lemma returns_simps [simp]: "returns (Inr x)" "returns (Inl e) \<longleftrightarrow> e \<noteq> Blocked \<and> e \<noteq> OutOfFuel"
  by (simp_all add: returns_def stops_def)

text \<open>The pages in the frames a routine holds.\<close>

definition frame_ids :: "('d, 'e) pool \<Rightarrow> nat list \<Rightarrow> PageID list" where
  "frame_ids p = map (\<lambda>idx. pgID (frames p ! idx))"

abbreviation frame_data :: "('d, 'e) pool \<Rightarrow> nat \<Rightarrow> bytes" where
  "frame_data p idx \<equiv> pgData (frames p ! idx)"

fun find_leaf_loop ::
  "('d, 'e) env \<Rightarrow> nat \<Rightarrow> bytes \<Rightarrow> PageID \<Rightarrow> nat \<Rightarrow> ('d, 'e) pool \<Rightarrow> (PageID \<times> nat) result \<times> ('d, 'e) pool" where
  "find_leaf_loop E n key currID idx p =
     (if PageType (frame_data p idx) \<noteq> PageTypeInternal then (Inr (currID, idx), p)
      else case n of
             0 \<Rightarrow> (Inl OutOfFuel, p)
           | Suc m \<Rightarrow>
               let childID = findChildInInternalNode (frame_data p idx) key
               in case FetchPage (holding E [currID]) childID p of
                    (Inl e, p1) \<Rightarrow> (Inl e, if stops (Some e) then p1 else UnpinPage currID False p1)
                  | (Inr cidx, p1) \<Rightarrow> find_leaf_loop E m key childID cidx (UnpinPage currID False p1))"

declare find_leaf_loop.simps [simp del]

definition FindLeaf ::
  "('d, 'e) env \<Rightarrow> nat \<Rightarrow> btree \<Rightarrow> bytes \<Rightarrow> ('d, 'e) pool \<Rightarrow> (PageID \<times> nat) result \<times> ('d, 'e) pool" where
  "FindLeaf E n t key p =
     (case FetchPage E (rootID t) p of
        (Inl e, p1) \<Rightarrow> (Inl e, p1)
      | (Inr idx, p1) \<Rightarrow> find_leaf_loop E n key (rootID t) idx p1)"

section \<open>Splitting\<close>

text \<open>The ancestors are released from the leaf upwards.\<close>

definition releaseAncestors :: "nat list \<Rightarrow> ('d, 'e) pool \<Rightarrow> ('d, 'e) pool" where
  "releaseAncestors anc = fold (\<lambda>idx p. UnpinPage (pgID (frames p ! idx)) True p) (rev anc)"

text \<open>The page image of a new root with one separator.\<close>

definition root_image :: "PageID \<Rightarrow> PageID \<Rightarrow> bytes \<Rightarrow> bytes \<Rightarrow> bytes" where
  "root_image leftChildID rightChildID pivotKey d0 =
     (let d1 = SetNumCells 1 (SetPageType PageTypeInternal (BTreeInit d0));
          d2 = wr_le 2 d1 BTreeHeaderSize (length pivotKey);
          d3 = wr_le 8 d2 (BTreeHeaderSize + 2) (unat leftChildID);
          d4 = blit d3 (BTreeHeaderSize + 10) (take (PageSize - (BTreeHeaderSize + 10)) pivotKey)
      in SetRightmostChildID rightChildID d4)"

text \<open>\<open>held\<close> are the frames whose latch the caller holds: allocating one of them, or flushing
  one of them to find a frame, would wait for itself. \<open>anc\<close> are the locked ancestors, the split node last.\<close>

function promoteToParent ::
    "('d, 'e) env \<Rightarrow> nat list \<Rightarrow> PageID \<Rightarrow> PageID \<Rightarrow> bytes \<Rightarrow> nat list \<Rightarrow> btree \<times> ('d, 'e) pool \<Rightarrow>
     error option \<times> btree \<times> ('d, 'e) pool"
  and SplitInternalNode ::
    "('d, 'e) env \<Rightarrow> nat list \<Rightarrow> nat \<Rightarrow> nat list \<Rightarrow> btree \<times> ('d, 'e) pool \<Rightarrow> error option \<times> btree \<times> ('d, 'e) pool" where
  "promoteToParent E held leftChildID rightChildID pivotKey anc (t, p) =
     (if leftChildID = rootID t
      then case NewPage (holding E (frame_ids p held)) p of
             (Inl e, p1) \<Rightarrow> (Some e, t, p1)
           | (Inr ridx, p1) \<Rightarrow>
               if ridx \<in> set held then (Some Blocked, t, p1)
               else let pg = frames p1 ! ridx;
                        pg' = pg\<lparr>pgData := root_image leftChildID rightChildID pivotKey (pgData pg), pgVersion := pgVersion pg + 1\<rparr>
                    in (None, t\<lparr>rootID := pgID pg\<rparr>, UnpinPage (pgID pg) True (set_page ridx pg' p1))
      else if length anc < 2 then (Some GoPanic, t, p)
      else let pidx = anc ! (length anc - 2);
               (e, pg) = insertIntoInternal (frames p ! pidx) pivotKey leftChildID rightChildID;
               p1 = set_page pidx pg p
           in if e = Some ErrPageFull then SplitInternalNode E held pidx (butlast anc) (t, p1)
              else (e, t, p1))"
| "SplitInternalNode E held idx anc (t, p) =
     (case NewPage (holding E (frame_ids p held)) p of
        (Inl e, p1) \<Rightarrow> (Some e, t, p1)
      | (Inr nidx, p1) \<Rightarrow>
          if nidx \<in> set held then (Some Blocked, t, p1)
          else let newID = pgID (frames p1 ! nidx);
                   (node, newInternal, pivotKey) = split_node (frames p1 ! idx) (frames p1 ! nidx);
                   p2 = set_page nidx newInternal (set_page idx node p1);
                   (e, t', p3) = promoteToParent E (nidx # held) (pgID node) newID pivotKey anc (t, p2)
               in (e, t', if stops e then p3 else UnpinPage newID True p3))"
  by pat_completeness auto
termination
  by (relation "measure (\<lambda>x. case x of Inl (_, _, _, _, _, anc, _) \<Rightarrow> 2 * length anc | Inr (_, _, _, anc, _) \<Rightarrow> 2 * length anc + 1)")
    auto

declare promoteToParent.simps [simp del] SplitInternalNode.simps [simp del]

definition SplitLeaf ::
  "('d, 'e) env \<Rightarrow> nat list \<Rightarrow> nat \<Rightarrow> nat list \<Rightarrow> btree \<times> ('d, 'e) pool \<Rightarrow> error option \<times> btree \<times> ('d, 'e) pool" where
  "SplitLeaf E held idx anc = (\<lambda>(t, p).
     (case NewPage (holding E (frame_ids p held)) p of
        (Inl e, p1) \<Rightarrow> (Some e, t, p1)
      | (Inr nidx, p1) \<Rightarrow>
          if nidx \<in> set held then (Some Blocked, t, p1)
          else let newID = pgID (frames p1 ! nidx);
                   (node, newLeaf, midKey) = split_leaf (frames p1 ! idx) (frames p1 ! nidx);
                   p2 = set_page nidx newLeaf (set_page idx node p1);
                   (e, t', p3) = promoteToParent E (nidx # held) (pgID node) newID midKey anc (t, p2)
               in (e, t', if stops e then p3 else UnpinPage newID True p3)))"

section \<open>Inserting\<close>

fun lock_path ::
  "('d, 'e) env \<Rightarrow> nat \<Rightarrow> bytes \<Rightarrow> nat \<Rightarrow> nat \<Rightarrow> nat list \<Rightarrow> ('d, 'e) pool \<Rightarrow> (nat \<times> nat list) result \<times> ('d, 'e) pool" where
  "lock_path E n key reqBytes idx anc p =
     (if PageType (frame_data p idx) \<noteq> PageTypeInternal then (Inr (idx, anc), p)
      else case n of
             0 \<Rightarrow> (Inl OutOfFuel, p)
           | Suc m \<Rightarrow>
               (case FetchPage (holding E (frame_ids p anc)) (findChildInInternalNode (frame_data p idx) key) p of
                  (Inl e, p1) \<Rightarrow> (Inl e, if stops (Some e) then p1 else releaseAncestors anc p1)
                | (Inr cidx, p1) \<Rightarrow>
                    if cidx \<in> set anc then (Inl Blocked, p1)
                    else if BTree_IsSafeForInsert reqBytes (frame_data p1 cidx)
                    then lock_path E m key reqBytes cidx [cidx] (releaseAncestors anc p1)
                    else lock_path E m key reqBytes cidx (anc @ [cidx]) p1))"

declare lock_path.simps [simp del]

definition pessimisticInsert ::
  "('d, 'e) env \<Rightarrow> nat \<Rightarrow> bytes \<Rightarrow> bytes \<Rightarrow> btree \<times> ('d, 'e) pool \<Rightarrow> error option \<times> btree \<times> ('d, 'e) pool" where
  "pessimisticInsert E n key value = (\<lambda>(t, p).
     (case FetchPage E (rootID t) p of
        (Inl e, p1) \<Rightarrow> (Some e, t, p1)
      | (Inr ridx, p1) \<Rightarrow>
          (case lock_path E n key (u32 (4 + length key + length value)) ridx [ridx] p1 of
             (Inl e, p2) \<Rightarrow> (Some e, t, p2)
           | (Inr (idx, anc), p2) \<Rightarrow>
               let (e1, pg) = insertIntoLeaf (frames p2 ! idx) key value;
                   p3 = set_page idx pg p2;
                   (e2, t', p4) = (if e1 = Some ErrPageFull then SplitLeaf E anc idx anc (t, p3) else (e1, t, p3))
               in if e2 = Some GoPanic \<or> stops e2 then (e2, t', p4)
                  else (e2, t', releaseAncestors anc p4))))"

text \<open>The optimistic path: descend with read latches, upgrade on the leaf, and insert there
  when nothing has changed and the cell fits.\<close>

definition Insert ::
  "('d, 'e) env \<Rightarrow> nat \<Rightarrow> (btree \<times> ('d, 'e) pool \<Rightarrow> btree \<times> ('d, 'e) pool) \<Rightarrow> bytes \<Rightarrow> bytes \<Rightarrow> btree \<times> ('d, 'e) pool \<Rightarrow>
   error option \<times> btree \<times> ('d, 'e) pool" where
  "Insert E n others key value = (\<lambda>(t, p).
     (let reqBytes = u32 (4 + length key + length value)
      in case FindLeaf E n t key p of
           (Inl e, p1) \<Rightarrow> (Some e, t, p1)
         | (Inr (currID, idx), p1) \<Rightarrow>
             if \<not> BTree_IsSafeForInsert reqBytes (frame_data p1 idx)
             then pessimisticInsert E n key value (t, UnpinPage currID False p1)
             else let version = pgVersion (frames p1 ! idx);
                      (t2, p2) = others (t, p1)
                  in if pgVersion (frames p2 ! idx) \<noteq> version \<or> \<not> BTree_IsSafeForInsert reqBytes (frame_data p2 idx)
                     then pessimisticInsert E n key value (t2, UnpinPage currID False p2)
                     else let (e, pg) = insertIntoLeaf (frames p2 ! idx) key value
                          in (e, t2, UnpinPage currID True (set_page idx pg p2))))"

section \<open>Cursors\<close>

text \<open>\<open>curLatched\<close> records whether the cursor holds the latch of its page, which it does not
  after a failed move to the next leaf.\<close>

record cursor =
  curNode :: "nat option"
  curLatched :: bool
  cellIdx :: nat
  curOffset :: nat
  isEOF :: bool

fun NewBTreeCursor :: "('d, 'e) env \<Rightarrow> nat \<Rightarrow> PageID \<Rightarrow> ('d, 'e) pool \<Rightarrow> cursor result \<times> ('d, 'e) pool" where
  "NewBTreeCursor E 0 currID p = (Inl OutOfFuel, p)"
| "NewBTreeCursor E (Suc n) currID p =
     (case FetchPage E currID p of
        (Inl e, p1) \<Rightarrow> (Inl e, p1)
      | (Inr idx, p1) \<Rightarrow>
          let d = frame_data p1 idx
          in if PageType d = PageTypeLeaf
             then (Inr \<lparr>curNode = Some idx, curLatched = True, cellIdx = 0, curOffset = BTreeHeaderSize, isEOF = (NumCells d = 0)\<rparr>, p1)
             else if NumCells d = 0 \<or> PageSize < BTreeHeaderSize + 10
             then (Inl ErrCorruptNode, UnpinPage currID False p1)
             else NewBTreeCursor E n (word_of_nat (rd_le 8 d (BTreeHeaderSize + 2))) (UnpinPage currID False p1))"

definition Cursor_Next ::
  "('d, 'e) env \<Rightarrow> cursor \<Rightarrow> ('d, 'e) pool \<Rightarrow> (bytes \<times> bytes) result \<times> cursor \<times> ('d, 'e) pool" where
  "Cursor_Next E c p =
     (if isEOF c then (Inl ErrEOF, c, p)
      else if PageSize < curOffset c + 4 then (Inl ErrCursorBounds, c, p)
      else case curNode c of
        None \<Rightarrow> (Inl GoPanic, c, p)
      | Some idx \<Rightarrow>
          let d = frame_data p idx; off = curOffset c;
              kLen = rd_le 2 d off; vLen = rd_le 2 d (off + 2)
          in if PageSize < off + 4 + kLen + vLen then (Inl ErrCellSize, c, p)
             else let key = slice d (off + 4) (off + 4 + kLen);
                      val = slice d (off + 4 + kLen) (off + 4 + kLen + vLen);
                      c1 = c\<lparr>cellIdx := u16 (cellIdx c + 1), curOffset := off + 4 + kLen + vLen\<rparr>
                  in if cellIdx c1 < NumCells d then (Inr (key, val), c1, p)
                     else let nextLeafID = NextLeafID d;
                              p1 = UnpinPage (pgID (frames p ! idx)) False p
                          in if nextLeafID = 0 then (Inr (key, val), c1\<lparr>isEOF := True, curNode := None, curLatched := False\<rparr>, p1)
                             else (case FetchPage E nextLeafID p1 of
                                     (Inl e, p2) \<Rightarrow> (Inl e, c1\<lparr>curLatched := False\<rparr>, p2)
                                   | (Inr nidx, p2) \<Rightarrow>
                                       (Inr (key, val), c1\<lparr>curNode := Some nidx, cellIdx := 0, curOffset := BTreeHeaderSize\<rparr>, p2)))"

definition Cursor_Close :: "cursor \<Rightarrow> ('d, 'e) pool \<Rightarrow> error option \<times> cursor \<times> ('d, 'e) pool" where
  "Cursor_Close c p =
     (case curNode c of
        None \<Rightarrow> (None, c, p)
      | Some idx \<Rightarrow>
          if \<not> curLatched c then (Some GoPanic, c, p)
          else (None, c\<lparr>curNode := None, curLatched := False, isEOF := True\<rparr>, UnpinPage (pgID (frames p ! idx)) False p))"

section \<open>Joining two trees\<close>

text \<open>The latch one cursor holds while the other moves.\<close>

definition cursor_latch :: "cursor \<Rightarrow> ('d, 'e) pool \<Rightarrow> PageID list" where
  "cursor_latch c p = (case curNode c of Some idx \<Rightarrow> if curLatched c then [pgID (frames p ! idx)] else [] | None \<Rightarrow> [])"

record join_result =
  joinKey :: bytes
  leftValue :: bytes
  rightValue :: bytes

fun join_loop ::
  "('d, 'e) env \<Rightarrow> nat \<Rightarrow> (bytes \<times> bytes) result \<Rightarrow> (bytes \<times> bytes) result \<Rightarrow> cursor \<Rightarrow> cursor \<Rightarrow> join_result list \<Rightarrow> ('d, 'e) pool \<Rightarrow>
   join_result list result \<times> cursor \<times> cursor \<times> ('d, 'e) pool" where
  "join_loop E n (Inr (lKey, lVal)) (Inr (rKey, rVal)) lc rc results p =
     (case n of
        0 \<Rightarrow> (Inl OutOfFuel, lc, rc, p)
      | Suc m \<Rightarrow>
          if lKey = rKey
          then let (l, lc1, p1) = Cursor_Next (holding E (cursor_latch rc p)) lc p;
                   (r, rc1, p2) = Cursor_Next (holding E (cursor_latch lc1 p1)) rc p1
               in join_loop E m l r lc1 rc1 (results @ [\<lparr>joinKey = lKey, leftValue = lVal, rightValue = rVal\<rparr>]) p2
          else if lKey < rKey
          then let (l, lc1, p1) = Cursor_Next (holding E (cursor_latch rc p)) lc p in join_loop E m l (Inr (rKey, rVal)) lc1 rc results p1
          else let (r, rc1, p1) = Cursor_Next (holding E (cursor_latch lc p)) rc p in join_loop E m (Inr (lKey, lVal)) r lc rc1 results p1)"
| "join_loop E n l r lc rc results p =
     (case l of
        Inl e \<Rightarrow>
          if returns l \<and> \<not> returns r then (Inl (projl r), lc, rc, p)
          else if e \<noteq> ErrEOF then (Inl e, lc, rc, p)
          else (case r of Inl e' \<Rightarrow> if e' \<noteq> ErrEOF then (Inl e', lc, rc, p) else (Inr results, lc, rc, p)
                | Inr _ \<Rightarrow> (Inr results, lc, rc, p))
      | Inr _ \<Rightarrow>
          (case r of Inl e' \<Rightarrow> if e' \<noteq> ErrEOF then (Inl e', lc, rc, p) else (Inr results, lc, rc, p)
           | Inr _ \<Rightarrow> (Inr results, lc, rc, p)))"

definition SortMergeJoin ::
  "('d, 'e) env \<Rightarrow> nat \<Rightarrow> nat \<Rightarrow> btree \<Rightarrow> btree \<Rightarrow> ('d, 'e) pool \<Rightarrow> join_result list result \<times> ('d, 'e) pool" where
  "SortMergeJoin E levels n leftTree rightTree p =
     (case NewBTreeCursor E levels (rootID leftTree) p of
        (Inl e, p1) \<Rightarrow> (Inl e, p1)
      | (Inr lc, p1) \<Rightarrow>
          (case NewBTreeCursor (holding E (cursor_latch lc p1)) levels (rootID rightTree) p1 of
             (Inl e, p2) \<Rightarrow> (Inl e, if stops (Some e) then p2 else snd (snd (Cursor_Close lc p2)))
           | (Inr rc, p2) \<Rightarrow>
               let (l, lc1, p3) = Cursor_Next (holding E (cursor_latch rc p2)) lc p2;
                   (r, rc1, p4) = Cursor_Next (holding E (cursor_latch lc1 p3)) rc p3;
                   (res, lc2, rc2, p5) = join_loop E n l r lc1 rc1 [] p4;
                   (e1, _, p6) = Cursor_Close rc2 p5;
                   (e2, _, p7) = Cursor_Close lc2 p6
               in if \<not> returns res then (res, p5)
                  else (if e1 \<noteq> None \<or> e2 \<noteq> None then Inl GoPanic else res, p7)))"

section \<open>Scanning a prefix\<close>

fun scan_loop ::
  "('d, 'e) env \<Rightarrow> nat \<Rightarrow> bytes \<Rightarrow> nat \<Rightarrow> (bytes \<times> bytes) list \<Rightarrow> ('d, 'e) pool \<Rightarrow> (bytes \<times> bytes) list result \<times> ('d, 'e) pool" where
  "scan_loop E n prefix idx acc p =
     (let d = frame_data p idx;
          acc1 = acc @ scan_leaf (NumCells d) d BTreeHeaderSize prefix;
          nextID = NextLeafID d;
          p1 = UnpinPage (pgID (frames p ! idx)) False p
      in if nextID = 0 then (Inr acc1, p1)
         else case n of
                0 \<Rightarrow> (Inl OutOfFuel, p1)
              | Suc m \<Rightarrow>
                  (case FetchPage E nextID p1 of
                     (Inl e, p2) \<Rightarrow> (Inl (if stops (Some e) then e else GoPanic), p2)
                   | (Inr nidx, p2) \<Rightarrow> scan_loop E m prefix nidx acc1 p2))"

declare scan_loop.simps [simp del]

definition BTree_Scan ::
  "('d, 'e) env \<Rightarrow> nat \<Rightarrow> nat \<Rightarrow> btree \<Rightarrow> bytes \<Rightarrow> ('d, 'e) pool \<Rightarrow> (bytes \<times> bytes) list result \<times> ('d, 'e) pool" where
  "BTree_Scan E levels n t prefix p =
     (case FindLeaf E levels t prefix p of
        (Inl e, p1) \<Rightarrow> (Inl e, p1)
      | (Inr (_, idx), p1) \<Rightarrow> scan_loop E n prefix idx [] p1)"

end
