(* ===== verification/MemEngine.thy ===== *)
theory MemEngine
  imports PoolClient
begin

text \<open>
  The engine with the in-memory device and the LRU policy never fails for lack of a frame as
  long as one is unpinned: no frame is lost between the free list and the page table, the
  policy tracks exactly the cached pages, and the device does not fail. With these facts the
  operations above the pool are total on this engine.
\<close>

section \<open>No frame is lost\<close>

definition tight :: "('e \<Rightarrow> PageID set) \<Rightarrow> ('d, 'e) pool \<Rightarrow> bool" where
  "tight tracked p \<longleftrightarrow> set (freeList p) \<union> snd ` set (pageTable p) = {..<length (frames p)} \<and>
     tracked (evictor p) = fst ` set (pageTable p)"

lemma tight_cong:
  "freeList p' = freeList p \<Longrightarrow> pageTable p' = pageTable p \<Longrightarrow> length (frames p') = length (frames p) \<Longrightarrow>
   tracked (evictor p') = tracked (evictor p) \<Longrightarrow> tight tracked p' = tight tracked p"
  by (simp add: tight_def)

lemma delete_image:
  assumes "pool_wf p" "map_of (pageTable p) v = Some idx"
  shows "insert idx (snd ` set (AList.delete v (pageTable p))) = snd ` set (pageTable p)"
    "fst ` set (AList.delete v (pageTable p)) = fst ` set (pageTable p) - {v}"
proof -
  have v: "(v, idx) \<in> set (pageTable p)" using assms(2) by (rule map_of_SomeD)
  have k: "k = idx" if "(v, k) \<in> set (pageTable p)" for k
    using assms that by (simp add: pool_wf_def map_of_eq_Some_iff)
  have s: "set (AList.delete v (pageTable p)) = {x \<in> set (pageTable p). fst x \<noteq> v}" by (auto simp: AList.delete_eq)
  show "insert idx (snd ` set (AList.delete v (pageTable p))) = snd ` set (pageTable p)"
    unfolding s
  proof (rule set_eqI)
    fix x
    show "x \<in> insert idx (snd ` {x \<in> set (pageTable p). fst x \<noteq> v}) \<longleftrightarrow> x \<in> snd ` set (pageTable p)"
      using v k [of x] by (cases "x = idx") (auto simp: image_iff Bex_def)
  qed
  show "fst ` set (AList.delete v (pageTable p)) = fst ` set (pageTable p) - {v}"
    unfolding s by auto
qed

text \<open>A miss that succeeds.\<close>

lemma FetchPage_load:
  assumes "map_of (pageTable p) i = None" "FetchPage E i p = (Inr idx, p')"
    "getAvailableFrame E (p\<lparr>metrics := map_option IncrBufferPoolMiss (metrics p)\<rparr>) = (g, p1)"
  shows "g = Inr idx \<and> (\<exists>data. p' = (upd_frame idx (\<lambda>pg. pg\<lparr>pgID := i, pgPin := 1, pgDirty := False, pgData := data\<rparr>) p1)
      \<lparr>pageTable := AList.update i idx (pageTable p1), evictor := RecordAccess (pol E) i (evictor p1)\<rparr>)"
proof -
  obtain k where k: "g = Inr k" using assms by (cases g) (simp_all add: FetchPage_def)
  obtain data e where rd: "ReadPage (dev E) i zero_page (disk p1) = (data, e)" by fastforce
  show ?thesis using assms k rd by (auto simp: FetchPage_def Let_def split: if_splits)
qed

context buffer_pool
begin

lemma evict_loop_tight:
  "inv M p \<Longrightarrow> tracked (evictor p) = fst ` set (pageTable p) \<Longrightarrow> evict_loop E n p = (Inr idx, p') \<Longrightarrow>
   insert idx (snd ` set (pageTable p')) = snd ` set (pageTable p) \<and> tracked (evictor p') = fst ` set (pageTable p')"
proof (induction n arbitrary: p)
  case (Suc n)
  have ei: "einv (evictor p)" and wf: "pool_wf p" using Suc.prems(1) by (simp_all add: pool_inv_def)
  obtain v ev where evict: "Evict (pol E) (evictor p) = (Some v, ev)"
    using Suc.prems(3) by (cases "Evict (pol E) (evictor p)"; cases "fst (Evict (pol E) (evictor p))") auto
  have V: "einv ev" "tracked ev = tracked (evictor p) - {v}" "v \<in> tracked (evictor p)"
    using evict_some [OF ei evict] by auto
  then obtain k where k: "map_of (pageTable p) v = Some k"
    using Suc.prems(2) map_of_eq_None_iff [of "pageTable p" v] by (cases "map_of (pageTable p) v") auto
  note D = delete_image [OF wf k]
  show ?case
  proof (cases "0 < pgPin (frames p ! k)")
    case True
    let ?ev = "RecordAccess (pol E) v ev"
    have re: "einv ?ev" "tracked ?ev = tracked (evictor p)" using access [OF V(1), of v] V by auto
    have "evict_loop E n (p\<lparr>evictor := ?ev\<rparr>) = (Inr idx, p')" using Suc.prems(3) evict k True by simp
    moreover have "inv M (p\<lparr>evictor := ?ev\<rparr>)" using inv_evictor [OF Suc.prems(1) re(1)] re(2) Suc.prems(2) by simp
    ultimately show ?thesis using Suc.IH [of "p\<lparr>evictor := ?ev\<rparr>"] re(2) Suc.prems(2) by simp
  next
    case False
    then have "idx = k \<and> pageTable p' = AList.delete v (pageTable p) \<and> evictor p' = ev"
      using Suc.prems(3) evict k by (auto simp: Let_def split: if_splits option.splits prod.splits)
    with D V Suc.prems(2) show ?thesis by simp
  qed
qed simp

lemma getAvailableFrame_tight:
  assumes i: "inv M p" and t: "tight tracked p" and run: "getAvailableFrame E p = (Inr idx, p')"
  shows "insert idx (set (freeList p') \<union> snd ` set (pageTable p')) = {..<length (frames p)} \<and>
    tracked (evictor p') = fst ` set (pageTable p')"
proof -
  define p1 where "p1 = (if pressed p then snd (FlushAll E p) else p)"
  obtain e q where f: "FlushAll E p = (e, q)" by fastforce
  have p1: "inv M p1" "length (frames p1) = length (frames p)" "pageTable p1 = pageTable p" "freeList p1 = freeList p"
    "evictor p1 = evictor p"
    using FlushAll_inv [OF i f] i f FlushAll_evictor [OF f] by (simp_all add: p1_def)
  have run1: "(case freeList p1 of idx # rest \<Rightarrow> (Inr idx, p1\<lparr>freeList := rest\<rparr>) | [] \<Rightarrow> evict_loop E (evict_fuel E) p1) = (Inr idx, p')"
    using run unfolding getAvailableFrame_free Let_def p1_def [symmetric] .
  show ?thesis
  proof (cases "freeList p1")
    case Nil
    with run1 have run2: "evict_loop E (evict_fuel E) p1 = (Inr idx, p')" by simp
    have "tracked (evictor p1) = fst ` set (pageTable p1)" using t p1 by (simp add: tight_def)
    from evict_loop_tight [OF p1(1) this run2] have "insert idx (snd ` set (pageTable p')) = snd ` set (pageTable p)"
      "tracked (evictor p') = fst ` set (pageTable p')" using p1(3) by simp_all
    moreover have "freeList p' = []" using evict_loop_inv [OF p1(1) run2] Nil by simp
    ultimately show ?thesis using t Nil p1(4) by (simp add: tight_def)
  next
    case (Cons a rest)
    with run1 have "idx = a" "p' = p1\<lparr>freeList := rest\<rparr>" by simp_all
    moreover have "freeList p = a # rest" using Cons p1(4) by simp
    ultimately show ?thesis using t p1 by (simp add: tight_def)
  qed
qed

lemma FetchPage_tight:
  assumes i: "inv M p" and t: "tight tracked p" and run: "FetchPage E i p = (Inr idx, p')"
  shows "tight tracked p' \<and> length (frames p') = length (frames p)"
proof (cases "map_of (pageTable p) i")
  case (Some k)
  have "einv (evictor p)" "i \<in> tracked (evictor p)"
    using i t map_of_SomeD [OF Some] by (force simp: pool_inv_def tight_def)+
  with access [of "evictor p" i] have "tracked (RecordAccess (pol E) i (evictor p)) = tracked (evictor p)" by auto
  moreover have "p' = pin_frame k (p\<lparr>metrics := map_option IncrBufferPoolHit (metrics p), evictor := RecordAccess (pol E) i (evictor p)\<rparr>)"
    using run Some by (auto simp: FetchPage_def)
  ultimately show ?thesis using t by (simp add: tight_def pin_frame_def)
next
  case None
  let ?q = "p\<lparr>metrics := map_option IncrBufferPoolMiss (metrics p)\<rparr>"
  have q: "inv M ?q" "tight tracked ?q" using i t by (simp_all add: inv_metrics tight_def)
  obtain g p1 where g: "getAvailableFrame E ?q = (g, p1)" by fastforce
  obtain data where k: "g = Inr idx" and p': "p' = (upd_frame idx (\<lambda>pg. pg\<lparr>pgID := i, pgPin := 1, pgDirty := False, pgData := data\<rparr>) p1)
      \<lparr>pageTable := AList.update i idx (pageTable p1), evictor := RecordAccess (pol E) i (evictor p1)\<rparr>"
    using FetchPage_load [OF None run g] by blast
  note G = getAvailableFrame_inv [OF q(1) g] and T = getAvailableFrame_tight [OF q g [unfolded k]]
  have m: "i \<notin> fst ` set (pageTable p1)" using G None by (auto simp: map_of_eq_None_iff)
  have "einv (evictor p1)" using G by (simp add: pool_inv_def)
  from access [OF this, of i] show ?thesis using G T by (auto simp: p' tight_def AList_update_fresh [OF m])
qed

lemma UnpinPage_tight: "tight tracked p \<Longrightarrow> tight tracked (UnpinPage i d p) \<and> length (frames (UnpinPage i d p)) = length (frames p)"
  by (simp add: UnpinPage_def tight_def split: option.split)

end

section \<open>A fetch succeeds\<close>

lemma unpinned_frame:
  assumes wf: "pool_wf p" and t: "tight tracked p" and few: "card {j. 0 < pins p j} < length (frames p)"
  shows "freeList p \<noteq> [] \<or> (\<exists>i idx. map_of (pageTable p) i = Some idx \<and> pgPin (frames p ! idx) \<le> 0)"
proof (rule ccontr)
  assume "\<not> ?thesis"
  then have n: "freeList p = []" "\<And>i idx. map_of (pageTable p) i = Some idx \<Longrightarrow> 0 < pgPin (frames p ! idx)" by force+
  have d: "distinct (map fst (pageTable p))" "distinct (map snd (pageTable p))" using wf by (simp_all add: pool_wf_def)
  have "fst ` set (pageTable p) \<subseteq> {j. 0 < pins p j}"
  proof
    fix i assume "i \<in> fst ` set (pageTable p)"
    then obtain idx where "map_of (pageTable p) i = Some idx" using map_of_eq_None_iff [of "pageTable p" i]
      by (cases "map_of (pageTable p) i") auto
    with n(2) show "i \<in> {j. 0 < pins p j}" by (simp add: pins_def)
  qed
  moreover have "{j. 0 < pins p j} \<subseteq> fst ` set (pageTable p)"
  proof
    fix i assume "i \<in> {j. 0 < pins p j}"
    then show "i \<in> fst ` set (pageTable p)"
      by (cases "map_of (pageTable p) i") (auto simp: pins_def map_of_eq_None_iff dest: map_of_SomeD intro: rev_image_eqI)
  qed
  ultimately have "{j. 0 < pins p j} = set (map fst (pageTable p))" by auto
  then have "card {j. 0 < pins p j} = length (pageTable p)" using distinct_card [OF d(1)] by simp
  moreover have "length (pageTable p) = length (frames p)"
    using t n(1) distinct_card [OF d(2)] by (simp add: tight_def)
  ultimately show False using few by simp
qed

lemma Mem_ReadPage_ok:
  assumes "unat i < 2 ^ 48"
  shows "snd (ReadPage mem_device i data m) = None \<or> snd (ReadPage mem_device i data m) = Some ErrEOF"
  using assms by (simp add: ReadPage_def mem_device_def page_offset_small Mem_ReadAt_def Let_def split_beta del: of_nat_mult)

lemma free_frame:
  assumes inv: "pool_inv mem_stored lru_inv pageMap M p" and t: "tight pageMap p" and None: "map_of (pageTable p) i = None"
    and few: "card {j. 0 < pins p j} < length (frames p)" and fuel: "length (frames p) \<le> fuel"
  shows "\<exists>idx p1. getAvailableFrame (mem_env fuel) (p\<lparr>metrics := map_option IncrBufferPoolMiss (metrics p)\<rparr>) = (Inr idx, p1)"
proof -
  let ?q = "p\<lparr>metrics := map_option IncrBufferPoolMiss (metrics p)\<rparr>"
  have q: "pool_inv mem_stored lru_inv pageMap M ?q" using inv by (simp add: mp.inv_metrics)
  have wf: "pool_wf p" using inv by (simp add: pool_inv_def)
  have d: "distinct (lruList (evictor p))" "set (lruList (evictor p)) = fst ` set (pageTable p)"
    using inv t by (simp_all add: pool_inv_def lru_inv_def tight_def)
  have "length (lruList (evictor p)) \<le> length (pageTable p)"
    using distinct_card [OF d(1)] d(2) card_length [of "map fst (pageTable p)"] by simp
  also have "\<dots> \<le> length (frames p)"
  proof -
    have "distinct (map snd (pageTable p))" using wf by (simp add: pool_wf_def)
    from distinct_card [OF this] have "length (pageTable p) = card (snd ` set (pageTable p))" by simp
    also have "\<dots> \<le> card {..<length (frames p)}" using t by (intro card_mono) (auto simp: tight_def)
    finally show ?thesis by simp
  qed
  finally have l: "length (lruList (evictor ?q)) \<le> fuel" using fuel by simp
  have "freeList ?q \<noteq> [] \<or> (\<exists>i idx. map_of (pageTable ?q) i = Some idx \<and> pgPin (frames ?q ! idx) \<le> 0)"
    using unpinned_frame [OF wf t few] by simp
  from frame_found [OF q this l] show ?thesis by blast
qed

lemma FetchPage_succeeds:
  assumes inv: "pool_inv mem_stored lru_inv pageMap M p" and t: "tight pageMap p" and b: "unat i < 2 ^ 48" "isBTreeKVPage i"
    and few: "map_of (pageTable p) i = None \<Longrightarrow> card {j. 0 < pins p j} < length (frames p)" and fuel: "length (frames p) \<le> fuel"
  shows "\<exists>idx p'. FetchPage (mem_env fuel) i p = (Inr idx, p')"
proof (cases "map_of (pageTable p) i")
  case (Some k)
  then show ?thesis by (simp add: FetchPage_def)
next
  case None
  from free_frame [OF inv t None few [OF None] fuel] obtain idx p1 where
    g: "getAvailableFrame (mem_env fuel) (p\<lparr>metrics := map_option IncrBufferPoolMiss (metrics p)\<rparr>) = (Inr idx, p1)" by blast
  obtain data e where rd: "ReadPage mem_device i zero_page (disk p1) = (data, e)" by fastforce
  with Mem_ReadPage_ok [OF b(1), of zero_page "disk p1"] have "e = None \<or> e = Some ErrEOF" by simp
  with rd b(2) show ?thesis using None g by (auto simp: FetchPage_def Let_def)
qed

section \<open>No fetch makes a page dirty\<close>

lemma is_dirty_cong:
  "pageTable p' = pageTable p \<Longrightarrow> (\<And>j k. map_of (pageTable p) j = Some k \<Longrightarrow> pgDirty (frames p' ! k) = pgDirty (frames p ! k)) \<Longrightarrow>
   is_dirty p' = is_dirty p"
  unfolding is_dirty_def fun_eq_iff by auto

lemma is_dirty_evictor [simp]: "is_dirty (p\<lparr>evictor := ev\<rparr>) = is_dirty p" "is_dirty (p\<lparr>metrics := m\<rparr>) = is_dirty p"
  "is_dirty (p\<lparr>disk := dsk\<rparr>) = is_dirty p" "is_dirty (p\<lparr>freeList := l\<rparr>) = is_dirty p"
  by (simp_all add: is_dirty_def fun_eq_iff)

lemma is_dirty_upd:
  assumes "pool_wf p" "map_of (pageTable p) i = Some k"
  shows "is_dirty (upd_frame k f p) j \<longleftrightarrow> (if j = i then pgDirty (f (frames p ! k)) else is_dirty p j)"
proof -
  have k: "k < length (frames p)" using pool_wfD(1) [OF assms] .
  have "l \<noteq> k" if "map_of (pageTable p) j = Some l" "j \<noteq> i" for l
    using pool_wf_inj [OF assms(1) _ assms(2), of j] that by blast
  then show ?thesis using assms(2) by (cases "j = i") (auto simp: is_dirty_def frames_upd [OF k])
qed

lemma is_dirty_pin: "is_dirty (pin_frame k p) = is_dirty p"
  using dirty_pin_frames [of "[k]" p] by (intro is_dirty_cong) (simp_all add: pin_frame_def)

lemma is_dirty_unpin:
  assumes "pool_wf p" "map_of (pageTable p) i = Some k"
  shows "is_dirty (UnpinPage i d p) j \<longleftrightarrow> (if j = i \<and> d then True else is_dirty p j)"
  using is_dirty_upd [OF assms] assms(2) by (auto simp: UnpinPage_def) (auto simp: is_dirty_def)

context buffer_pool
begin

lemma FetchPage_dirty:
  assumes i: "inv M p" and run: "FetchPage E i p = (r, p')" and d: "is_dirty p' j"
  shows "is_dirty p j \<and> (map_of (pageTable p) i = None \<longrightarrow> j \<noteq> i)"
proof (cases "map_of (pageTable p) i")
  case (Some k)
  then have "p' = pin_frame k (p\<lparr>metrics := map_option IncrBufferPoolHit (metrics p), evictor := RecordAccess (pol E) i (evictor p)\<rparr>)"
    using run by (auto simp: FetchPage_def)
  with d Some show ?thesis by (simp add: is_dirty_pin)
next
  case None
  let ?q = "p\<lparr>metrics := map_option IncrBufferPoolMiss (metrics p)\<rparr>"
  have q: "inv M ?q" using i by (simp add: inv_metrics)
  obtain g p1 where g: "getAvailableFrame E ?q = (g, p1)" by fastforce
  note G = getAvailableFrame_inv [OF q g]
  have K: "is_dirty p1 j \<Longrightarrow> is_dirty p j" using keeps_dirty [OF getAvailableFrame_keeps [OF q g]] by simp
  have m1: "map_of (pageTable p1) i = None" using G None by (auto simp: map_of_eq_None_iff)
  then have ni: "is_dirty p1 j \<Longrightarrow> j \<noteq> i" by (auto simp: is_dirty_def)
  have "is_dirty p1 j"
  proof (cases g)
    case (Inl e)
    then show ?thesis using run g None d by (simp add: FetchPage_def)
  next
    case (Inr idx)
    let ?f = "\<lambda>data. upd_frame idx (\<lambda>pg. pg\<lparr>pgID := i, pgPin := 1, pgDirty := False, pgData := data\<rparr>) p1"
    obtain data e where rd: "ReadPage (dev E) i zero_page (disk p1) = (data, e)" by fastforce
    have idx: "idx < length (frames p1)" "\<And>j k. map_of (pageTable p1) j = Some k \<Longrightarrow> k \<noteq> idx" using G Inr map_of_SomeD by force+
    have "p' = (?f data)\<lparr>freeList := freeList (?f data) @ [idx]\<rparr> \<or>
        p' = (?f data)\<lparr>pageTable := AList.update i idx (pageTable p1), evictor := RecordAccess (pol E) i (evictor p1)\<rparr>"
      using run None g Inr rd by (auto simp: FetchPage_def Let_def split: if_splits)
    with d idx show ?thesis by (auto simp: is_dirty_def frames_upd AList.update_conv' split: if_splits)
  qed
  with K ni show ?thesis by blast
qed

lemma FlushAll_clean: "inv M p \<Longrightarrow> FlushAll E p = (None, p') \<Longrightarrow> \<not> is_dirty p' j"
  using FlushAll_inv [of M p None p'] map_of_SomeD [of "pageTable p'" j] by (force simp: is_dirty_def)

end

section \<open>The device does not fail and grows only by new pages\<close>

lemma Mem_WritePage_length:
  "unat i < 2 ^ 48 \<Longrightarrow> length d = PageSize \<Longrightarrow> length (snd (WritePage mem_device i d m)) = max (length m) (unat i * PageSize + PageSize)"
  using mem.WritePage_view(2) [of i d m None "snd (WritePage mem_device i d m)"] Mem_WritePage_ok [of i d m]
  by (metis prod.collapse)

text \<open>The page ends inside a file of \<open>N\<close> bytes.\<close>

definition within :: "nat \<Rightarrow> PageID \<Rightarrow> bool" where
  "within N i \<longleftrightarrow> unat i < 2 ^ 48 \<and> unat i * PageSize + PageSize \<le> N"

lemma Mem_flush_page:
  assumes i: "unat (pgID (frames p ! idx)) < 2 ^ 48" and len: "length (pgData (frames p ! idx)) = PageSize"
  obtains p' where "flush_page (mem_env f) idx (e, p) = (e, p')" "\<And>k. pgID (frames p' ! k) = pgID (frames p ! k)"
    "\<And>k. length (pgData (frames p ! k)) = PageSize \<Longrightarrow> length (pgData (frames p' ! k)) = PageSize"
    "within N (pgID (frames p ! idx)) \<Longrightarrow> length (disk p) = N \<Longrightarrow> length (disk p') = N"
proof -
  let ?pg = "seal (frames p ! idx)"
  obtain dsk where w: "WritePage mem_device (pgID ?pg) (pgData ?pg) (disk p) = (None, dsk)"
    using Mem_WritePage_ok [OF i] by (metis prod.collapse seal_simps(1))
  let ?p' = "p\<lparr>frames := (frames p)[idx := ?pg\<lparr>pgDirty := False, pgPin := pgPin ?pg - 1\<rparr>], disk := dsk\<rparr>"
  show thesis
  proof (rule that [of ?p'])
    show "flush_page (mem_env f) idx (e, p) = (e, ?p')" using w by (simp add: flush_page_def Let_def)
    show "pgID (frames ?p' ! k) = pgID (frames p ! k)" for k
      by (cases "idx < length (frames p)") (simp_all add: nth_list_update list_update_beyond)
    show "length (pgData (frames ?p' ! k)) = PageSize" if "length (pgData (frames p ! k)) = PageSize" for k
      using that len by (cases "idx < length (frames p)") (simp_all add: nth_list_update list_update_beyond)
    show "length (disk ?p') = N" if "within N (pgID (frames p ! idx))" "length (disk p) = N"
      using that Mem_WritePage_length [of "pgID ?pg" "pgData ?pg" "disk p"] w len by (simp add: within_def)
  qed
qed

lemma Mem_flush_fold:
  "\<forall>idx\<in>set l. unat (pgID (frames p ! idx)) < 2 ^ 48 \<and> length (pgData (frames p ! idx)) = PageSize \<Longrightarrow>
   \<exists>p'. fold (flush_page (mem_env f)) l (e, p) = (e, p') \<and>
     ((\<forall>idx\<in>set l. within N (pgID (frames p ! idx))) \<longrightarrow> length (disk p) = N \<longrightarrow> length (disk p') = N)"
proof (induction l arbitrary: p)
  case (Cons a l)
  have a: "unat (pgID (frames p ! a)) < 2 ^ 48" "length (pgData (frames p ! a)) = PageSize" using Cons.prems by simp_all
  obtain p1 where 1: "flush_page (mem_env f) a (e, p) = (e, p1)" "\<And>k. pgID (frames p1 ! k) = pgID (frames p ! k)"
    "\<And>k. length (pgData (frames p ! k)) = PageSize \<Longrightarrow> length (pgData (frames p1 ! k)) = PageSize"
    "within N (pgID (frames p ! a)) \<Longrightarrow> length (disk p) = N \<Longrightarrow> length (disk p1) = N"
    using Mem_flush_page [OF a, where f = f and e = e and N = N] by metis
  from Cons.IH [of p1] Cons.prems 1 show ?case by auto
qed simp

lemma pin_frames_ids: "pgID (frames (fold pin_frame l p) ! k) = pgID (frames p ! k)" "disk (fold pin_frame l p) = disk p"
proof (induction l arbitrary: p)
  case (Cons a l)
  case 1 from Cons.IH(1) [of "pin_frame a p"] show ?case
    by (cases "a < length (frames p)") (auto simp: pin_frame_def upd_frame_def nth_list_update list_update_beyond)
  case 2 from Cons.IH(2) [of "pin_frame a p"] show ?case by (simp add: pin_frame_def)
qed simp_all

text \<open>Every cached page lies inside the file.\<close>

definition filed :: "(bytes, 'e) pool \<Rightarrow> bool" where
  "filed p \<longleftrightarrow> (\<forall>i. i \<in> fst ` set (pageTable p) \<longrightarrow> within (length (disk p)) i)"

lemma filedD: "filed p \<Longrightarrow> map_of (pageTable p) i = Some k \<Longrightarrow> within (length (disk p)) i"
  using map_of_SomeD [of "pageTable p" i k] by (force simp: filed_def)

lemma Mem_FlushAll:
  assumes inv: "pool_inv mem_stored lru_inv pageMap M p"
  shows "fst (FlushAll (mem_env f) p) = None"
    and "filed p \<Longrightarrow> length (disk (snd (FlushAll (mem_env f) p))) = length (disk p)"
proof -
  have wf: "pool_wf p" using inv by (simp add: pool_inv_def)
  let ?l = "dirty_frames (mem_env f) p" let ?p1 = "fold pin_frame ?l p"
  have l: "\<exists>i. map_of (pageTable p) i = Some idx" if "idx \<in> set ?l" for idx
  proof -
    have "idx \<in> snd ` set (pageTable p)" using that mp.dirty_frames_props(2) [OF wf] by simp
    then obtain i where "(i, idx) \<in> set (pageTable p)" by auto
    then show ?thesis using wf by (auto simp: pool_wf_def map_of_eq_Some_iff)
  qed
  have ids: "\<forall>idx\<in>set ?l. unat (pgID (frames ?p1 ! idx)) < 2 ^ 48 \<and> length (pgData (frames ?p1 ! idx)) = PageSize"
  proof
    fix idx assume "idx \<in> set ?l"
    then obtain i where "map_of (pageTable p) i = Some idx" using l by blast
    from pool_wfD [OF wf this] show "unat (pgID (frames ?p1 ! idx)) < 2 ^ 48 \<and> length (pgData (frames ?p1 ! idx)) = PageSize"
      by (simp add: pin_frames_ids pin_frames_simps)
  qed
  from Mem_flush_fold [OF this, of f None "length (disk p)"]
  obtain p2 where p2: "fold (flush_page (mem_env f)) ?l (None, ?p1) = (None, p2)"
    "(\<forall>idx\<in>set ?l. within (length (disk p)) (pgID (frames ?p1 ! idx))) \<longrightarrow> length (disk ?p1) = length (disk p) \<longrightarrow> length (disk p2) = length (disk p)"
    by blast
  have run: "FlushAll (mem_env f) p = (None, p2)"
    using p2(1) by (simp add: mp.FlushAll_free Let_def mem_device_def Mem_Sync_def)
  then show "fst (FlushAll (mem_env f) p) = None" by simp
  assume f: "filed p"
  have "within (length (disk p)) (pgID (frames ?p1 ! idx))" if "idx \<in> set ?l" for idx
  proof -
    from l [OF that] obtain i where m: "map_of (pageTable p) i = Some idx" by blast
    then show ?thesis using pool_wfD [OF wf m] filedD [OF f m] by (simp add: pin_frames_ids)
  qed
  with p2(2) run show "length (disk (snd (FlushAll (mem_env f) p))) = length (disk p)" by (simp add: pin_frames_ids)
qed

lemma Mem_evict_loop:
  "pool_wf p \<Longrightarrow> filed p \<Longrightarrow> evict_loop (mem_env f) n p = (r, p') \<Longrightarrow> length (disk p') = length (disk p)"
proof (induction n arbitrary: p)
  case (Suc n)
  obtain vo ev where evict: "LRU_Evict (evictor p) = (vo, ev)" by fastforce
  have step: "pool_wf (p\<lparr>evictor := e\<rparr>)" "filed (p\<lparr>evictor := e\<rparr>)" for e
    using Suc.prems(1,2) by (simp_all add: pool_wf_def filed_def)
  show ?case
  proof (cases vo)
    case None
    then show ?thesis using Suc.prems(3) evict by auto
  next
    case (Some v)
    show ?thesis
    proof (cases "map_of (pageTable p) v")
      case None
      then have "evict_loop (mem_env f) n (p\<lparr>evictor := ev\<rparr>) = (r, p')" using Suc.prems(3) evict Some by simp
      from Suc.IH [OF step this] show ?thesis by simp
    next
      case idx: (Some idx)
      show ?thesis
      proof (cases "0 < pgPin (frames p ! idx)")
        case True
        then have "evict_loop (mem_env f) n (p\<lparr>evictor := LRU_RecordAccess v ev\<rparr>) = (r, p')"
          using Suc.prems(3) evict Some idx by simp
        from Suc.IH [OF step this] show ?thesis by simp
      next
        case False
        note wf = pool_wfD [OF Suc.prems(1) idx]
        let ?pg = "seal (frames p ! idx)"
        obtain e dsk where w: "WritePage mem_device v (pgData ?pg) (disk p) = (e, dsk)" by fastforce
        have "within (length (disk p)) v" using filedD [OF Suc.prems(2) idx] .
        with Mem_WritePage_length [OF wf(3), of "pgData ?pg" "disk p"] wf(4) w have "length dsk = length (disk p)"
          by (simp add: within_def)
        with Suc.prems(3) evict Some idx False w wf(2) show ?thesis by (auto simp: Let_def split: if_splits option.splits)
      qed
    qed
  qed
qed simp

lemma Mem_FetchPage_size:
  assumes inv: "pool_inv mem_stored lru_inv pageMap M p" and f: "filed p" and i: "within (length (disk p)) i"
    and run: "FetchPage (mem_env fuel) i p = (Inr idx, p')"
  shows "filed p' \<and> length (disk p') = length (disk p)"
proof (cases "map_of (pageTable p) i")
  case (Some k)
  then have "pageTable p' = pageTable p" "disk p' = disk p" using run by (auto simp: FetchPage_def pin_frame_def)
  with f show ?thesis by (simp add: filed_def)
next
  case None
  let ?q = "p\<lparr>metrics := map_option IncrBufferPoolMiss (metrics p)\<rparr>"
  have q: "pool_inv mem_stored lru_inv pageMap M ?q" "filed ?q" using inv f by (simp_all add: mp.inv_metrics filed_def)
  obtain g p1 where g: "getAvailableFrame (mem_env fuel) ?q = (g, p1)" by fastforce
  obtain q1 where q1: "pool_inv mem_stored lru_inv pageMap M q1" "pageTable q1 = pageTable ?q" "length (disk q1) = length (disk p)"
    and gr: "(case freeList q1 of idx # rest \<Rightarrow> (Inr idx, q1\<lparr>freeList := rest\<rparr>) | [] \<Rightarrow> evict_loop (mem_env fuel) fuel q1) = (g, p1)"
  proof -
    obtain e r where fl: "FlushAll (mem_env fuel) ?q = (e, r)" by fastforce
    have r: "pool_inv mem_stored lru_inv pageMap M r" "pageTable r = pageTable ?q" "length (disk r) = length (disk p)"
      using mp.FlushAll_inv [OF q(1) fl] Mem_FlushAll(2) [OF q, of fuel] fl by simp_all
    define q1 where "q1 = (if pressed ?q then snd (FlushAll (mem_env fuel) ?q) else ?q)"
    have "(case freeList q1 of idx # rest \<Rightarrow> (Inr idx, q1\<lparr>freeList := rest\<rparr>) | [] \<Rightarrow> evict_loop (mem_env fuel) (evict_fuel (mem_env fuel)) q1) = (g, p1)"
      using g unfolding mp.getAvailableFrame_free Let_def q1_def [symmetric] .
    moreover have "pool_inv mem_stored lru_inv pageMap M q1" "pageTable q1 = pageTable ?q" "length (disk q1) = length (disk p)"
      using q r fl by (simp_all add: q1_def)
    ultimately show thesis by (intro that [of q1]) (simp_all only: mem_env_simps)
  qed
  have wf1: "pool_wf q1" "filed q1" using q1 f by (simp_all add: pool_inv_def filed_def)
  have d1: "length (disk p1) = length (disk p)"
    using gr q1(3) Mem_evict_loop [OF wf1, of fuel fuel g p1] by (cases "freeList q1") auto
  have "fst ` set (pageTable p1) \<subseteq> fst ` set (pageTable p)" using mp.getAvailableFrame_inv [OF q(1) g] by simp
  then have f1: "filed p1" using f d1 unfolding filed_def by auto
  obtain data where "p' = (upd_frame idx (\<lambda>pg. pg\<lparr>pgID := i, pgPin := 1, pgDirty := False, pgData := data\<rparr>) p1)
      \<lparr>pageTable := AList.update i idx (pageTable p1), evictor := LRU_RecordAccess i (evictor p1)\<rparr>"
    using FetchPage_load [OF None run g] by auto
  then have "disk p' = disk p1" "fst ` set (pageTable p') = insert i (fst ` set (pageTable p1))"
    by (simp_all add: dom_map_of_conv_image_fst [symmetric])
  with f1 d1 i show ?thesis by (simp add: filed_def)
qed

end
