(* ===== verification/Checksums.thy ===== *)
theory Checksums
  imports MemEngine
begin

text \<open>
  No page is rejected by the checksum test of \<open>FetchPage\<close>: a page is cached and modified, or
  its image on the device is blank, belongs to a tree, or carries its checksum. The pool keeps
  this whatever it evicts or flushes and whether or not the device fails, so on the in-memory
  engine a fetch of any page succeeds as long as a frame is unpinned.
\<close>

definition passes :: "PageID \<Rightarrow> bytes \<Rightarrow> bool" where
  "passes i d \<longleftrightarrow> (\<forall>b\<in>set d. b = 0) \<or> isBTreeKVPage i \<or> GetChecksum d = ComputeChecksum d \<or> GetChecksum d = 0"

definition checked :: "('d \<Rightarrow> nat \<Rightarrow> byte) \<Rightarrow> ('d, 'e) pool \<Rightarrow> bool" where
  "checked st p \<longleftrightarrow> (\<forall>i. unat i < 2 ^ 48 \<longrightarrow>
     (\<exists>k. map_of (pageTable p) i = Some k \<and> pgDirty (frames p ! k)) \<or> passes i (page_at st (disk p) i))"

lemma passes_sealed: "sealed pg \<Longrightarrow> passes (pgID pg) (pgData pg)"
  by (auto simp: sealed_def passes_def)

lemma checkedD: "checked st p \<Longrightarrow> unat i < 2 ^ 48 \<Longrightarrow>
    (\<And>k. map_of (pageTable p) i = Some k \<Longrightarrow> \<not> pgDirty (frames p ! k)) \<Longrightarrow> passes i (page_at st (disk p) i)"
  by (auto simp: checked_def)

lemma checked_cong:
  "pageTable p' = pageTable p \<Longrightarrow> page_at st (disk p') = page_at st (disk p) \<Longrightarrow>
   (\<And>k. k \<in> snd ` set (pageTable p) \<Longrightarrow> pgDirty (frames p ! k) \<Longrightarrow> pgDirty (frames p' ! k)) \<Longrightarrow> checked st p \<Longrightarrow> checked st p'"
  unfolding checked_def using map_of_SomeD [of "pageTable p"] by (metis image_eqI snd_conv)

lemma dirty_upd: "pgDirty (frames p ! j) \<Longrightarrow> (\<And>pg. pgDirty pg \<Longrightarrow> pgDirty (f pg)) \<Longrightarrow> pgDirty (frames (upd_frame k f p) ! j)"
  by (cases "k < length (frames p)") (simp_all add: upd_frame_def nth_list_update list_update_beyond)

lemma table_inj:
  assumes "pool_wf p" "map_of (pageTable p) i = Some k" "map_of (pageTable p) j = Some k"
  shows "i = j"
  using pool_wfD(2) [OF assms(1,2)] pool_wfD(2) [OF assms(1,3)] by simp

context buffer_pool
begin

text \<open>Writing the sealed image of a cached page.\<close>

lemma write_checked:
  assumes c: "checked stored p" and wf: "pool_wf p" and m: "map_of (pageTable p) i = Some idx"
    and w: "WritePage (dev E) i (pgData (seal (frames p ! idx))) (disk p) = (e, dsk)"
    and d: "e = None \<or> pgDirty pg"
  shows "checked stored (p\<lparr>frames := (frames p)[idx := pg], disk := dsk\<rparr>)" "e = None \<Longrightarrow> passes i (page_at stored dsk i)"
proof -
  note I = pool_wfD [OF wf m]
  have len: "length (pgData (seal (frames p ! idx))) = PageSize" using I(4) by simp
  show ok: "passes i (page_at stored dsk i)" if "e = None"
    using WritePage_view(1) [OF I(3) w len that] passes_sealed [OF sealed_seal [OF I(4)]] I(2) by simp
  show "checked stored (p\<lparr>frames := (frames p)[idx := pg], disk := dsk\<rparr>)"
    unfolding checked_def
  proof (intro allI impI)
    fix j :: PageID assume j: "unat j < 2 ^ 48"
    show "(\<exists>k. map_of (pageTable (p\<lparr>frames := (frames p)[idx := pg], disk := dsk\<rparr>)) j = Some k \<and>
        pgDirty (frames (p\<lparr>frames := (frames p)[idx := pg], disk := dsk\<rparr>) ! k)) \<or>
      passes j (page_at stored (disk (p\<lparr>frames := (frames p)[idx := pg], disk := dsk\<rparr>)) j)"
    proof (cases "j = i")
      case True
      then show ?thesis using d ok m I(1) by auto
    next
      case False
      then have "page_at stored dsk j = page_at stored (disk p) j" using WritePage_view(3) [OF I(3) w len] by simp
      moreover have "(frames p)[idx := pg] ! k = frames p ! k" if "map_of (pageTable p) j = Some k" for k
        using table_inj [OF wf m] that False by (cases "k = idx") auto
      ultimately show ?thesis using c j by (auto simp: checked_def)
    qed
  qed
qed

lemma drop_checked:
  "checked stored p \<Longrightarrow> passes v (page_at stored (disk p) v) \<Longrightarrow> checked stored (p\<lparr>evictor := ev, pageTable := AList.delete v (pageTable p)\<rparr>)"
  by (auto simp: checked_def AList.delete_conv')

lemma evictor_checked: "checked stored (p\<lparr>evictor := ev\<rparr>) = checked stored p" "checked stored (p\<lparr>metrics := mt\<rparr>) = checked stored p"
  "checked stored (p\<lparr>freeList := fl\<rparr>) = checked stored p"
  by (simp_all add: checked_def)

lemma flush_page_checked:
  assumes "checked stored p" "pool_wf p" "map_of (pageTable p) i = Some idx" "pgDirty (frames p ! idx)"
    and "flush_page E idx (err, p) = (err', p')"
  shows "checked stored p'"
proof -
  obtain e dsk where w: "WritePage (dev E) i (pgData (seal (frames p ! idx))) (disk p) = (e, dsk)" by fastforce
  let ?pg = "seal (frames p ! idx)\<lparr>pgDirty := (if e = None then False else pgDirty (seal (frames p ! idx))),
      pgPin := pgPin (seal (frames p ! idx)) - 1\<rparr>"
  have "p' = p\<lparr>frames := (frames p)[idx := ?pg], disk := dsk\<rparr>"
    using assms(5) w pool_wfD(2) [OF assms(2,3)] by (auto simp: flush_page_def Let_def split: prod.splits)
  with write_checked(1) [OF assms(1-3) w] assms(4) show ?thesis by simp
qed

lemma flush_fold_checked:
  "inv M p \<Longrightarrow> distinct l \<Longrightarrow> (\<forall>idx\<in>set l. idx \<in> snd ` set (pageTable p) \<and> pgDirty (frames p ! idx)) \<Longrightarrow>
   fold (flush_page E) l (err, p) = (err', p') \<Longrightarrow> checked stored p \<Longrightarrow> checked stored p'"
proof (induction l arbitrary: p err)
  case (Cons idx l)
  have wf: "pool_wf p" using Cons.prems(1) by (simp add: pool_inv_def)
  from Cons.prems(3) obtain i where "(i, idx) \<in> set (pageTable p)" by force
  then have m: "map_of (pageTable p) i = Some idx" using wf by (simp add: pool_wf_def map_of_eq_Some_iff)
  have d: "pgDirty (frames p ! idx)" using Cons.prems(3) by simp
  obtain err1 p1 where 1: "flush_page E idx (err, p) = (err1, p1)" by fastforce
  note F = flush_page_inv [OF Cons.prems(1) m d 1] and C = flush_page_checked [OF Cons.prems(5) wf m d 1]
  have rest: "fold (flush_page E) l (err1, p1) = (err', p')" using Cons.prems(4) 1 by simp
  have fr: "frames p1 ! j = frames p ! j" if "j \<noteq> idx" for j using F that by blast
  have pt: "pageTable p1 = pageTable p" using F by blast
  have l: "\<forall>j\<in>set l. j \<in> snd ` set (pageTable p1) \<and> pgDirty (frames p1 ! j)"
    using Cons.prems(2,3) fr pt by (metis distinct.simps(2) list.set_intros(2))
  have "inv M p1" "distinct l" using F Cons.prems(2) by simp_all
  from Cons.IH [OF this l rest C] show ?case .
qed simp

lemma FlushAll_checked:
  assumes i: "inv M p" and c: "checked stored p" and run: "FlushAll E p = (e, p')"
  shows "checked stored p'"
proof -
  let ?l = "dirty_frames E p" let ?p1 = "fold pin_frame ?l p"
  obtain err p2 where f: "fold (flush_page E) ?l (None, ?p1) = (err, p2)" by fastforce
  obtain es dsk where s: "Sync (dev E) (disk p2) = (es, dsk)" by fastforce
  have p': "p' = p2\<lparr>disk := dsk\<rparr>" using run f s by (auto simp: FlushAll_free Let_def)
  note P = inv_pin_frames [OF i, of ?l]
  note D = dirty_frames_props [OF pool_inv_def [THEN iffD1, THEN conjunct1, OF i]]
  have l: "\<forall>idx\<in>set ?l. idx \<in> snd ` set (pageTable ?p1) \<and> pgDirty (frames ?p1 ! idx)" using D(2) P by simp
  have pt: "pageTable ?p1 = pageTable p" and dy: "\<And>j. pgDirty (frames ?p1 ! j) = pgDirty (frames p ! j)" using P by blast+
  have "checked stored ?p1" by (rule checked_cong [OF pt _ _ c]) (simp_all only: pin_frames_ids(2) dy)
  then have "checked stored p2" using flush_fold_checked [OF conjunct1 [OF P] D(1) l f] by blast
  then show ?thesis using page_at_sync [OF s] by (simp add: p' checked_def)
qed

lemma evict_loop_checked:
  "inv M p \<Longrightarrow> checked stored p \<Longrightarrow> evict_loop E n p = (r, p') \<Longrightarrow> checked stored p'"
proof (induction n arbitrary: p)
  case (Suc n)
  have ei: "einv (evictor p)" and tr: "fst ` set (pageTable p) \<subseteq> tracked (evictor p)" and wf: "pool_wf p"
    using Suc.prems(1) by (simp_all add: pool_inv_def)
  obtain vo ev where evict: "Evict (pol E) (evictor p) = (vo, ev)" by fastforce
  show ?case
  proof (cases vo)
    case None
    then show ?thesis using Suc.prems evict by (auto simp: evictor_checked)
  next
    case (Some v)
    have V: "einv ev" "tracked ev = tracked (evictor p) - {v}" "v \<in> tracked (evictor p)"
      using evict_some [OF ei] evict Some by auto
    show ?thesis
    proof (cases "map_of (pageTable p) v")
      case None
      then have "inv M (p\<lparr>evictor := ev\<rparr>)"
        using inv_evictor [OF Suc.prems(1) V(1)] V(2) tr by (auto simp: map_of_eq_None_iff)
      with Suc.IH [of "p\<lparr>evictor := ev\<rparr>"] Suc.prems evict Some None show ?thesis by (simp add: evictor_checked)
    next
      case idx: (Some idx)
      let ?ev = "RecordAccess (pol E) v ev"
      obtain e dsk where w: "WritePage (dev E) v (pgData (seal (frames p ! idx))) (disk p) = (e, dsk)" by fastforce
      consider (pinned) "0 < pgPin (frames p ! idx)" | (dirty) "\<not> 0 < pgPin (frames p ! idx)" "pgDirty (frames p ! idx)"
        | (clean) "\<not> 0 < pgPin (frames p ! idx)" "\<not> pgDirty (frames p ! idx)" by blast
      then show ?thesis
      proof cases
        case pinned
        have "einv ?ev" "tracked ?ev = tracked (evictor p)" using access [OF V(1), of v] V by auto
        then have "inv M (p\<lparr>evictor := ?ev\<rparr>)" using inv_evictor [OF Suc.prems(1)] tr by simp
        with Suc.IH [of "p\<lparr>evictor := ?ev\<rparr>"] Suc.prems evict Some idx pinned show ?thesis by (simp add: evictor_checked)
      next
        case dirty
        note W = write_checked [OF Suc.prems(2) wf idx w, of "seal (frames p ! idx)"]
        let ?q = "p\<lparr>frames := (frames p)[idx := seal (frames p ! idx)], disk := dsk\<rparr>"
        have q: "checked stored ?q" using W(1) dirty by simp
        have "checked stored (?q\<lparr>evictor := ev, pageTable := AList.delete v (pageTable ?q)\<rparr>)" if "e = None"
          using W(2) that by (intro drop_checked [OF q]) simp
        with q Suc.prems(3) evict Some idx dirty w pool_wfD(2) [OF wf idx] show ?thesis
          by (auto simp: Let_def evictor_checked split: option.splits)
      next
        case clean
        have "passes v (page_at stored (disk p) v)"
          using checkedD [OF Suc.prems(2) pool_wfD(3) [OF wf idx]] idx clean(2) by simp
        with drop_checked [OF Suc.prems(2)] Suc.prems(3) evict Some idx clean show ?thesis by (auto simp: Let_def)
      qed
    qed
  qed
qed simp

lemma getAvailableFrame_checked:
  assumes i: "inv M p" and c: "checked stored p" and run: "getAvailableFrame E p = (r, p')"
  shows "checked stored p'"
proof -
  define p1 where "p1 = (if pressed p then snd (FlushAll E p) else p)"
  obtain e q where f: "FlushAll E p = (e, q)" by fastforce
  have p1: "inv M p1" "checked stored p1"
    using FlushAll_inv [OF i f] FlushAll_checked [OF i c f] i c f by (simp_all add: p1_def)
  have "(case freeList p1 of idx # rest \<Rightarrow> (Inr idx, p1\<lparr>freeList := rest\<rparr>) | [] \<Rightarrow> evict_loop E (evict_fuel E) p1) = (r, p')"
    using run unfolding getAvailableFrame_free Let_def p1_def [symmetric] .
  with p1 evict_loop_checked [OF p1] show ?thesis by (cases "freeList p1") (auto simp: evictor_checked)
qed

lemma FetchPage_checked:
  assumes i: "inv M p" and c: "checked stored p" and run: "FetchPage E i p = (r, p')" and b: "unat i < 2 ^ 48"
  shows "checked stored p'"
proof (cases "map_of (pageTable p) i")
  case (Some k)
  then have "p' = pin_frame k (p\<lparr>metrics := map_option IncrBufferPoolHit (metrics p), evictor := RecordAccess (pol E) i (evictor p)\<rparr>)"
    using run by (auto simp: FetchPage_def)
  then show ?thesis by (intro checked_cong [OF _ _ _ c]) (simp_all add: pin_frame_def dirty_upd)
next
  case None
  let ?q = "p\<lparr>metrics := map_option IncrBufferPoolMiss (metrics p)\<rparr>"
  have q: "inv M ?q" "checked stored ?q" using i c by (simp_all add: inv_metrics evictor_checked)
  obtain g p1 where g: "getAvailableFrame E ?q = (g, p1)" by fastforce
  note G = getAvailableFrame_inv [OF q(1) g] and C = getAvailableFrame_checked [OF q g]
  show ?thesis
  proof (cases g)
    case (Inl e)
    with C None g run show ?thesis by (simp add: FetchPage_def)
  next
    case (Inr idx)
    obtain data e where rd: "ReadPage (dev E) i zero_page (disk p1) = (data, e)" by fastforce
    let ?p2 = "upd_frame idx (\<lambda>pg. pg\<lparr>pgID := i, pgPin := 1, pgDirty := False, pgData := data\<rparr>) p1"
    have fresh: "idx \<notin> snd ` set (pageTable p1)" "i \<notin> fst ` set (pageTable p1)"
      using G Inr None by (auto simp: map_of_eq_None_iff)
    have 2: "checked stored ?p2"
    proof (rule checked_cong [OF _ _ _ C])
      fix k assume "k \<in> snd ` set (pageTable p1)" "pgDirty (frames p1 ! k)"
      moreover from this(1) have "k \<noteq> idx" using fresh(1) by blast
      ultimately show "pgDirty (frames ?p2 ! k)" by (simp add: upd_frame_def)
    qed simp_all
    have "passes i (page_at stored (disk p1) i)" using checkedD [OF C b] fresh(2) by (simp add: map_of_eq_None_iff [symmetric])
    then have "checked stored (?p2\<lparr>pageTable := AList.update i idx (pageTable ?p2), evictor := ev\<rparr>)" for ev
      using 2 by (auto simp: checked_def update_conv')
    moreover have "p' = ?p2\<lparr>freeList := freeList ?p2 @ [idx]\<rparr> \<or>
        p' = ?p2\<lparr>pageTable := AList.update i idx (pageTable ?p2), evictor := RecordAccess (pol E) i (evictor ?p2)\<rparr>"
      using run None g Inr rd by (auto simp: FetchPage_def Let_def split: if_splits)
    ultimately show ?thesis using 2 by (auto simp: evictor_checked)
  qed
qed

lemma UnpinPage_checked: "checked stored p \<Longrightarrow> checked stored (UnpinPage i d p)"
  by (rule checked_cong [where p = p]) (simp_all add: UnpinPage_def dirty_upd split: option.split)

text \<open>Storing a modified page that is unpinned as modified.\<close>

lemma store_checked:
  assumes c: "checked stored p" and wf: "pool_wf p" and m: "map_of (pageTable p) i = Some k"
  shows "checked stored (UnpinPage i True (upd_frame k f p))"
proof -
  let ?q = "UnpinPage i True (upd_frame k f p)"
  have "pgDirty (frames ?q ! k)" "\<And>j. j \<noteq> k \<Longrightarrow> frames ?q ! j = frames p ! j" "pageTable ?q = pageTable p" "disk ?q = disk p"
    using m pool_wfD(1) [OF wf m] by (simp_all add: UnpinPage_def upd_frame_def)
  then show ?thesis by (intro checked_cong [OF _ _ _ c]) (simp_all, metis)
qed

end

lemma NewBufferPool_checked: "checked st (NewBufferPool dsk n ev m) \<longleftrightarrow> (\<forall>i. unat i < 2 ^ 48 \<longrightarrow> passes i (page_at st dsk i))"
  by (simp add: checked_def NewBufferPool_def)

section \<open>A fetch of any page succeeds\<close>

lemma FetchPage_ok:
  assumes inv: "pool_inv mem_stored lru_inv pageMap M p" and t: "tight pageMap p" and c: "checked mem_stored p" and b: "unat i < 2 ^ 48"
    and few: "map_of (pageTable p) i = None \<Longrightarrow> card {j. 0 < pins p j} < length (frames p)" and fuel: "length (frames p) \<le> fuel"
  shows "\<exists>idx p'. FetchPage (mem_env fuel) i p = (Inr idx, p')"
proof (cases "map_of (pageTable p) i")
  case (Some k)
  then show ?thesis by (simp add: FetchPage_def)
next
  case None
  let ?q = "p\<lparr>metrics := map_option IncrBufferPoolMiss (metrics p)\<rparr>"
  have q: "pool_inv mem_stored lru_inv pageMap M ?q" "checked mem_stored ?q"
    using inv c by (simp_all add: mp.inv_metrics mp.evictor_checked)
  obtain idx p1 where g: "getAvailableFrame (mem_env fuel) ?q = (Inr idx, p1)"
    using free_frame [OF inv t None few [OF None] fuel] by blast
  obtain data e where rd: "ReadPage mem_device i zero_page (disk p1) = (data, e)" by fastforce
  have e: "e = None \<or> e = Some ErrEOF" using Mem_ReadPage_ok [OF b, of zero_page "disk p1"] rd by simp
  have C: "checked mem_stored p1" using mp.getAvailableFrame_checked [OF q g] .
  have "fst ` set (pageTable p1) \<subseteq> fst ` set (pageTable ?q)" using mp.getAvailableFrame_inv [OF q(1) g] by blast
  then have "map_of (pageTable p1) i = None" using None by (auto simp: map_of_eq_None_iff)
  then have "passes i (page_at mem_stored (disk p1) i)" using checkedD [OF C b] by simp
  moreover have "data = page_at mem_stored (disk p1) i"
    using mem.ReadPage_view [OF b _ e] rd by (simp add: zero_page_def)
  ultimately show ?thesis using None g rd e by (auto simp: FetchPage_def Let_def passes_def)
qed

end
