(* ===== verification/TreeStore.thy ===== *)
theory TreeStore
  imports BTree Checksums
begin

text \<open>
  What a tree of pages contains and how the operations of \<open>BTree\<close> act on it. A tree is
  read off the contents of the pages as the pool shows them: the internal nodes route every
  key to one leaf, and the contents bind a key to the value its leaf has for it. The lemmas
  of the locale \<open>buffer_pool\<close> carry this through fetches, evictions and unpins.
\<close>

section \<open>Trees of pages\<close>

definition data_cells :: "bytes \<Rightarrow> (bytes \<times> bytes) list" where
  "data_cells d = scan_leaf (NumCells d) d BTreeHeaderSize []"

definition leaf_data :: "bytes \<Rightarrow> bool" where
  "leaf_data d \<longleftrightarrow> leaf_rep (data_cells d) d \<and> sorted_cells (data_cells d)"

lemma leaf_data_page: "leaf_inv pg \<longleftrightarrow> leaf_data (pgData pg)" "leaf_contents pg = map_of (data_cells (pgData pg))"
  "leaf_cells pg = data_cells (pgData pg)"
  by (simp_all add: leaf_inv_def leaf_data_def leaf_contents_def leaf_cells_def data_cells_def)

lemma leaf_dataD: "leaf_data d \<Longrightarrow> PageType d = PageTypeLeaf" "leaf_data d \<Longrightarrow> length d = PageSize"
  by (simp_all add: leaf_data_def leaf_rep_def)

lemma leaf_not_internal [simp]: "leaf_data d \<Longrightarrow> PageType d \<noteq> PageTypeInternal"
  using leaf_dataD(1) [of d] by (simp add: PageTypeLeaf_def PageTypeInternal_def)

text \<open>The leaf a key is routed to, following at most \<open>n\<close> internal nodes.\<close>

fun leaf_of :: "nat \<Rightarrow> (PageID \<Rightarrow> bytes) \<Rightarrow> PageID \<Rightarrow> bytes \<Rightarrow> PageID option" where
  "leaf_of 0 V i k = (if PageType (V i) = PageTypeInternal then None else Some i)"
| "leaf_of (Suc n) V i k =
     (if PageType (V i) = PageTypeInternal then leaf_of n V (findChildInInternalNode (V i) k) k else Some i)"

text \<open>Pages that are stored without a checksum.\<close>

definition tree_id :: "PageID \<Rightarrow> bool" where
  "tree_id i \<longleftrightarrow> unat i < 2 ^ 48 \<and> isBTreeKVPage i"

text \<open>A tree of at most \<open>n\<close> levels of internal nodes above well-formed leaves.\<close>

fun tree_ok :: "nat \<Rightarrow> (PageID \<Rightarrow> bytes) \<Rightarrow> PageID \<Rightarrow> bool" where
  "tree_ok 0 V i \<longleftrightarrow> tree_id i \<and> leaf_data (V i)"
| "tree_ok (Suc n) V i \<longleftrightarrow> tree_id i \<and> (leaf_data (V i) \<or>
     PageType (V i) = PageTypeInternal \<and> (\<forall>k. tree_ok n V (findChildInInternalNode (V i) k)))"

definition tree_contents :: "nat \<Rightarrow> (PageID \<Rightarrow> bytes) \<Rightarrow> PageID \<Rightarrow> bytes \<rightharpoonup> bytes" where
  "tree_contents n V i k = (case leaf_of n V i k of None \<Rightarrow> None | Some j \<Rightarrow> map_of (data_cells (V j)) k)"

lemma tree_ok_id: "tree_ok n V i \<Longrightarrow> tree_id i"
  by (cases n) simp_all

lemma tree_ok_leaf:
  "tree_ok n V i \<Longrightarrow> \<exists>j. leaf_of n V i k = Some j \<and> tree_id j \<and> leaf_data (V j)"
proof (induction n arbitrary: i)
  case (Suc n)
  show ?case
  proof (cases "leaf_data (V i)")
    case True
    with Suc.prems show ?thesis by simp
  next
    case False
    with Suc show ?thesis by simp
  qed
qed simp

text \<open>Two views that agree: on the pages of trees byte by byte, on slotted pages behind the
  checksum.\<close>

definition agree :: "(PageID \<Rightarrow> bytes) \<Rightarrow> (PageID \<Rightarrow> bytes) \<Rightarrow> bool" where
  "agree V V' \<longleftrightarrow> (\<forall>j. unat j < 2 ^ 48 \<longrightarrow> same_page j (V' j) (V j))"

lemma agree_refl [simp]: "agree V V"
  by (simp add: agree_def)

lemma agree_trans: "agree V V1 \<Longrightarrow> agree V1 V2 \<Longrightarrow> agree V V2"
  unfolding agree_def by (blast intro: same_page_trans)

lemma agreeD: "agree V V' \<Longrightarrow> tree_id j \<Longrightarrow> V' j = V j"
  by (simp add: agree_def tree_id_def same_page_def)

lemma tree_agree:
  "agree V V' \<Longrightarrow> tree_ok n V i \<Longrightarrow> tree_ok n V' i \<and> leaf_of n V' i k = leaf_of n V i k"
proof (induction n arbitrary: i)
  case (Suc n)
  have i: "V' i = V i" using agreeD [OF Suc.prems(1)] tree_ok_id [OF Suc.prems(2)] .
  show ?case using Suc by (auto simp: i)
qed (simp add: agreeD)

lemma contents_agree:
  assumes "agree V V'" "tree_ok n V i"
  shows "tree_contents n V' i = tree_contents n V i"
proof
  fix k
  obtain j where "leaf_of n V i k = Some j" "tree_id j" using tree_ok_leaf [OF assms(2)] by blast
  with tree_agree [OF assms] agreeD [OF assms(1)] show "tree_contents n V' i k = tree_contents n V i k"
    by (simp add: tree_contents_def)
qed

text \<open>Replacing one leaf changes the routing of no key, and the contents only for the keys it
  changes.\<close>

lemma tree_update_leaf:
  assumes "tree_ok n V i" "leaf_data (V j)" "leaf_data d"
  shows "tree_ok n (V(j := d)) i \<and> leaf_of n (V(j := d)) i k = leaf_of n V i k"
  using assms(1)
proof (induction n arbitrary: i)
  case 0
  then show ?case using assms(2,3) by simp
next
  case (Suc n)
  show ?case
  proof (cases "i = j")
    case True
    with Suc.prems assms(2,3) show ?thesis by simp
  next
    case False
    with Suc show ?thesis by auto
  qed
qed

lemma contents_update_leaf:
  assumes "tree_ok n V i" "leaf_of n V i k = Some j" "leaf_data d"
    and "map_of (data_cells d) = (map_of (data_cells (V j)))(k := x)"
  shows "tree_contents n (V(j := d)) i = (tree_contents n V i)(k := x)"
proof
  fix k'
  have j: "leaf_data (V j)" using tree_ok_leaf [OF assms(1), of k] assms(2) by simp
  obtain j' where "leaf_of n V i k' = Some j'" using tree_ok_leaf [OF assms(1)] by blast
  with tree_update_leaf [OF assms(1) j assms(3), of k'] assms(2,4)
  show "tree_contents n (V(j := d)) i k' = ((tree_contents n V i)(k := x)) k'"
    by (auto simp: tree_contents_def)
qed

lemma enc_cells_filter_le: "length (enc_cells (filter P cs)) \<le> length (enc_cells cs)"
  by (induction cs) auto

section \<open>The descent through the pool\<close>

lemma set_page_simps [simp]:
  "pageTable (set_page idx pg p) = pageTable p" "disk (set_page idx pg p) = disk p"
  by (simp_all add: set_page_def)

context buffer_pool
begin

lemma transparent_agree: "transparent p p' \<Longrightarrow> agree (view p) (view p')"
  by (simp add: transparent_def agree_def)

lemma set_page_inv:
  assumes i: "inv M p" and m: "map_of (pageTable p) i = Some idx" and pin: "0 < pins p i"
    and pg: "pgID pg = i" "length (pgData pg) = PageSize" "pgPin pg = pgPin (frames p ! idx)"
  shows "inv (insert i M) (set_page idx pg p) \<and> view (set_page idx pg p) = (view p)(i := pgData pg) \<and>
    pins (set_page idx pg p) = pins p"
proof -
  have wf: "pool_wf p" using i by (simp add: pool_inv_def)
  have "inv (insert i M) (set_page idx pg p)"
    unfolding set_page_def using pin m pg by (intro inv_upd_frame [OF i m]) (auto simp: pins_def)
  then show ?thesis
    using m pg(3) by (simp add: set_page_def view_upd_frame [OF wf m] pins_upd_frame [OF wf m]) (simp add: pins_def fun_eq_iff)
qed

lemma view_frame: "map_of (pageTable p) i = Some idx \<Longrightarrow> view p i = frame_data p idx"
  by (simp add: pool_view_def)

lemma find_leaf_loop_inv:
  assumes "inv {} p" "\<And>j. 0 \<le> pins p j" "map_of (pageTable p) i = Some idx" "0 < pins p i"
    and "tree_ok n (view p) i" "find_leaf_loop E n key i idx p = (r, p')" "returns r"
  shows "inv {} p' \<and> agree (view p) (view p') \<and>
    (case r of Inl _ \<Rightarrow> pins p' = (pins p)(i := pins p i - 1)
     | Inr (j, k) \<Rightarrow> leaf_of n (view p) i key = Some j \<and> map_of (pageTable p') j = Some k \<and>
         (let q = (pins p)(i := pins p i - 1) in pins p' = q(j := q j + 1)))"
  using assms
proof (induction n arbitrary: i idx p)
  case 0
  then show ?case by (auto simp: find_leaf_loop.simps [of E 0] view_frame fun_eq_iff)
next
  case (Suc n)
  note ps = find_leaf_loop.simps [of E "Suc n" key i idx p]
  show ?case
  proof (cases "leaf_data (view p i)")
    case True
    then show ?thesis using Suc.prems by (auto simp: ps view_frame fun_eq_iff)
  next
    case False
    let ?c = "findChildInInternalNode (frame_data p idx) key"
    have t: "PageType (view p i) = PageTypeInternal" "tree_ok n (view p) ?c"
      using Suc.prems(5) False view_frame [OF Suc.prems(3)] by simp_all
    obtain f p1 where H: "FetchPage (holding E [i]) ?c p = (f, p1)" by fastforce
    have "f \<noteq> Inl Blocked"
    proof
      assume "f = Inl Blocked"
      then have "r = Inl Blocked" using Suc.prems(6) H t(1) view_frame [OF Suc.prems(3)] by (simp add: ps)
      then show False using Suc.prems(7) by simp
    qed
    then have F: "FetchPage E ?c p = (f, p1)" by (rule FetchPage_returned [OF H])
    have b: "unat ?c < 2 ^ 48" using tree_ok_id [OF t(2)] by (simp add: tree_id_def)
    note C = FetchPage_inv [OF Suc.prems(1) b Suc.prems(2) F]
    have m1: "map_of (pageTable p1) i = Some idx" using C Suc.prems(3,4) by (simp add: stable_def)
    have inv1: "inv {} p1" using C by blast
    note U = UnpinPage_inv [OF inv1 m1, of False]
    let ?p2 = "UnpinPage i False p1"
    have U': "inv {} ?p2" "view ?p2 = view p1" "pins ?p2 = (pins p1)(i := pins p1 i - 1)" "pageTable ?p2 = pageTable p1"
      using U by simp_all
    have ag: "agree (view p) (view ?p2)" using C U'(2) transparent_agree by simp
    show ?thesis
    proof (cases f)
      case (Inl e)
      then have "r = Inl e" using Suc.prems(6) H t(1) view_frame [OF Suc.prems(3)] by (simp add: ps)
      then have "p' = ?p2" using Suc.prems(6,7) H t(1) view_frame [OF Suc.prems(3)] Inl by (simp add: ps stops_def)
      note \<open>r = Inl e\<close> this
      with C Inl U' ag show ?thesis by simp
    next
      case (Inr cidx)
      have run: "find_leaf_loop E n key ?c cidx ?p2 = (r, p')"
        using Suc.prems(6) H t(1) view_frame [OF Suc.prems(3)] Inr by (simp add: ps)
      have p1: "map_of (pageTable p1) ?c = Some cidx" "pins p1 = (pins p)(?c := pins p ?c + 1)" using C Inr by simp_all
      let ?q = "(pins p)(i := pins p i - 1)"
      have p2: "pins ?p2 = ?q(?c := ?q ?c + 1)" using U'(3) p1(2) by (auto simp: fun_eq_iff)
      have nn: "0 \<le> pins ?p2 j" for j using p2 Suc.prems(2,4) by auto
      have cp: "0 < pins ?p2 ?c" using p2 Suc.prems(2) [of ?c] Suc.prems(4) by auto
      have ok: "tree_ok n (view ?p2) ?c" "leaf_of n (view ?p2) ?c key = leaf_of n (view p) ?c key"
        using tree_agree [OF ag t(2)] by blast+
      have m2: "map_of (pageTable ?p2) ?c = Some cidx" using p1(1) U'(4) by simp
      note I = Suc.IH [OF U'(1) nn m2 cp ok(1) run Suc.prems(7)]
      have lf: "leaf_of (Suc n) (view p) i key = leaf_of n (view p) ?c key" using t(1) view_frame [OF Suc.prems(3)] by simp
      have pq: "(pins ?p2)(?c := pins ?p2 ?c - 1) = ?q" using p2 by (simp add: fun_eq_iff)
      from I ag show ?thesis unfolding pq lf ok(2) by (auto intro: agree_trans split: sum.splits)
    qed
  qed
qed

text \<open>Between operations no page is pinned or modified.\<close>

definition idle :: "('d, 'e) pool \<Rightarrow> bool" where
  "idle p \<longleftrightarrow> inv {} p \<and> (\<forall>j. pins p j = 0)"

lemma FindLeaf_inv:
  assumes p: "idle p" and ok: "tree_ok n (view p) (rootID t)" and run: "FindLeaf E n t key p = (r, p')"
    and ret: "returns r"
  shows "inv {} p' \<and> agree (view p) (view p') \<and>
    (case r of Inl _ \<Rightarrow> idle p'
     | Inr (j, k) \<Rightarrow> leaf_of n (view p) (rootID t) key = Some j \<and> map_of (pageTable p') j = Some k \<and> pins p' = (\<lambda>_. 0)(j := 1))"
proof -
  let ?i = "rootID t"
  have i: "inv {} p" "pins p = (\<lambda>_. 0)" using p by (auto simp: idle_def)
  have b: "unat ?i < 2 ^ 48" using tree_ok_id [OF ok] by (simp add: tree_id_def)
  obtain f p1 where F: "FetchPage E ?i p = (f, p1)" by fastforce
  have nn: "\<And>j. 0 \<le> pins p j" by (simp add: i(2))
  note C = FetchPage_inv [OF i(1) b nn F]
  have ag: "agree (view p) (view p1)" using C transparent_agree by blast
  show ?thesis
  proof (cases f)
    case (Inl e)
    then have "r = Inl e" "p' = p1" using run F by (simp_all add: FindLeaf_def)
    with C Inl ag i(2) show ?thesis by (simp add: idle_def)
  next
    case (Inr idx)
    then have run1: "find_leaf_loop E n key ?i idx p1 = (r, p')" using run F by (simp add: FindLeaf_def)
    have p1: "inv {} p1" "map_of (pageTable p1) ?i = Some idx" "pins p1 = (\<lambda>_. 0)(?i := 1)"
      using C Inr i(2) by simp_all
    have nn1: "0 \<le> pins p1 j" for j by (simp add: p1(3))
    have pin: "0 < pins p1 ?i" by (simp add: p1(3))
    have q: "(pins p1)(?i := pins p1 ?i - 1) = (\<lambda>_. 0)" by (simp add: p1(3) fun_eq_iff)
    have ok1: "tree_ok n (view p1) ?i" "leaf_of n (view p1) ?i key = leaf_of n (view p) ?i key"
      using tree_agree [OF ag ok] by blast+
    note L = find_leaf_loop_inv [OF p1(1) nn1 p1(2) pin ok1(1) run1 ret, unfolded q ok1(2)]
    have "agree (view p) (view p')" using agree_trans [OF ag] L by blast
    with L show ?thesis by (auto simp: idle_def split: sum.splits)
  qed
qed

text \<open>Work on the leaf that was found, and the unpin after it.\<close>

lemma leaf_unpin:
  assumes p: "inv {} p" "map_of (pageTable p) j = Some k" "pins p = (\<lambda>_. 0)(j := 1)"
  shows "idle (UnpinPage j False p)" "view (UnpinPage j False p) = view p"
  using UnpinPage_inv [OF p(1,2), of False] p(3) by (simp_all add: idle_def)

lemma leaf_modify:
  assumes p: "inv {} p" "map_of (pageTable p) j = Some k" "pins p = (\<lambda>_. 0)(j := 1)"
    and pg: "pgID pg = pgID (frames p ! k)" "pgPin pg = pgPin (frames p ! k)" "length (pgData pg) = PageSize"
  shows "idle (UnpinPage j True (set_page k pg p))"
    "view (UnpinPage j True (set_page k pg p)) = (view p)(j := pgData pg)"
proof -
  have "pool_wf p" using p(1) by (simp add: pool_inv_def)
  then have "pgID pg = j" using pool_wfD [OF _ p(2)] pg(1) by simp
  with set_page_inv [OF p(1,2), of pg] pg p(3)
  have S: "inv {j} (set_page k pg p)" "view (set_page k pg p) = (view p)(j := pgData pg)" "pins (set_page k pg p) = pins p"
    by simp_all
  have m: "map_of (pageTable (set_page k pg p)) j = Some k" using p(2) by simp
  from UnpinPage_inv [OF S(1) m, of True] S p(3)
  show "idle (UnpinPage j True (set_page k pg p))"
    "view (UnpinPage j True (set_page k pg p)) = (view p)(j := pgData pg)"
    by (simp_all add: idle_def)
qed

text \<open>Storing a changed leaf changes the contents as the leaf changes.\<close>

lemma leaf_store:
  assumes ok: "tree_ok n (view q) i" and ag: "agree (view q) (view p)" and j: "leaf_of n (view q) i key = Some j"
    and p: "inv {} p" "map_of (pageTable p) j = Some k" "pins p = (\<lambda>_. 0)(j := 1)"
    and pg: "pgID pg = pgID (frames p ! k)" "pgPin pg = pgPin (frames p ! k)" "leaf_data (pgData pg)"
      "map_of (data_cells (pgData pg)) = (map_of (data_cells (frame_data p k)))(key := x)"
  defines "p' \<equiv> UnpinPage j True (set_page k pg p)"
  shows "idle p' \<and> tree_ok n (view p') i \<and> tree_contents n (view p') i = (tree_contents n (view q) i)(key := x) \<and>
    (\<forall>m. unat m < 2 ^ 48 \<longrightarrow> m \<noteq> j \<longrightarrow> same_page m (view p' m) (view q m)) \<and> view p' j = pgData pg"
proof -
  note W = leaf_modify [OF p pg(1,2) leaf_dataD(2) [OF pg(3)], folded p'_def]
  have ok1: "tree_ok n (view p) i" "leaf_of n (view p) i key = Some j" using tree_agree [OF ag ok] j by simp_all
  have lf: "leaf_data (view p j)" using tree_ok_leaf [OF ok1(1), of key] ok1(2) by simp
  have d: "map_of (data_cells (pgData pg)) = (map_of (data_cells (view p j)))(key := x)" using pg(4) view_frame [OF p(2)] by simp
  have "tree_ok n (view p') i" using tree_update_leaf [OF ok1(1) lf pg(3)] W(2) by simp
  moreover have "tree_contents n (view p') i = (tree_contents n (view q) i)(key := x)"
    using contents_update_leaf [OF ok1 pg(3) d] W(2) contents_agree [OF ag ok] by simp
  moreover have "same_page m (view p' m) (view q m)" if "unat m < 2 ^ 48" "m \<noteq> j" for m
    using W(2) ag that by (simp add: agree_def)
  ultimately show ?thesis using W by simp
qed

end

section \<open>Total on the in-memory engine\<close>

text \<open>
  A descent holds the latch of an internal node while it fetches the child; if that node is
  dirty, the flush a full pool starts waits for it. No internal node is dirty after a flush
  until the next split. A page of a tree that is not dirty cannot be waited for.
\<close>

abbreviation mview :: "(bytes, lru) pool \<Rightarrow> PageID \<Rightarrow> bytes" where
  "mview \<equiv> pool_view mem_stored"

definition inner_clean :: "(bytes, lru) pool \<Rightarrow> bool" where
  "inner_clean p \<longleftrightarrow> (\<forall>i. tree_id i \<longrightarrow> is_dirty p i \<longrightarrow> PageType (mview p i) \<noteq> PageTypeInternal)"

lemma inner_clean_mono:
  "inner_clean p \<Longrightarrow> agree (mview p) (mview p') \<Longrightarrow> (\<And>i. is_dirty p' i \<Longrightarrow> is_dirty p i) \<Longrightarrow> inner_clean p'"
  by (auto simp: inner_clean_def agreeD)

lemma inner_clean_none: "(\<And>i. \<not> is_dirty p i) \<Longrightarrow> inner_clean p"
  by (simp add: inner_clean_def)

lemma new_pool_clean: "inner_clean (NewBufferPool dsk n ev m)"
  by (rule inner_clean_none) (simp add: is_dirty_def NewBufferPool_def)

text \<open>At most two pages are pinned at a time, so two frames are enough.\<close>

definition ready :: "nat \<Rightarrow> (bytes, lru) pool \<Rightarrow> bool" where
  "ready fuel p \<longleftrightarrow> mp.idle p \<and> tight pageMap p \<and> checked mem_stored p \<and> inner_clean p \<and>
     2 \<le> length (frames p) \<and> length (frames p) \<le> fuel"

lemma find_leaf_loop_total:
  assumes "pool_inv mem_stored lru_inv pageMap {} p" "tight pageMap p" "2 \<le> length (frames p)" "length (frames p) \<le> fuel"
    and "map_of (pageTable p) i = Some idx" "pins p = (\<lambda>_. 0)(i := 1)" "tree_ok n (mview p) i" "checked mem_stored p" "inner_clean p"
  shows "\<exists>x p'. find_leaf_loop (mem_env fuel) n key i idx p = (Inr x, p') \<and> tight pageMap p' \<and>
    length (frames p') = length (frames p) \<and> checked mem_stored p' \<and> inner_clean p'"
  using assms
proof (induction n arbitrary: i idx p)
  case 0
  then show ?case by (auto simp: find_leaf_loop.simps [of _ 0] mp.view_frame)
next
  case (Suc n)
  note ps = find_leaf_loop.simps [of "mem_env fuel" "Suc n" key i idx p]
  show ?case
  proof (cases "leaf_data (mview p i)")
    case True
    then show ?thesis using Suc.prems by (auto simp: ps mp.view_frame)
  next
    case False
    let ?c = "findChildInInternalNode (frame_data p idx) key"
    have t: "PageType (mview p i) = PageTypeInternal" "tree_ok n (mview p) ?c"
      using Suc.prems(7) False mp.view_frame [OF Suc.prems(5)] by simp_all
    have b: "unat ?c < 2 ^ 48" "isBTreeKVPage ?c" using tree_ok_id [OF t(2)] by (simp_all add: tree_id_def)
    have "{j. 0 < pins p j} = {i}" using Suc.prems(6) by auto
    then have few: "card {j. 0 < pins p j} < length (frames p)" using Suc.prems(3) by simp
    obtain cidx p1 where F: "FetchPage (mem_env fuel) ?c p = (Inr cidx, p1)"
      using FetchPage_succeeds [OF Suc.prems(1,2) b few Suc.prems(4)] by blast
    have wf: "pool_wf p" using Suc.prems(1) by (simp add: pool_inv_def)
    have "\<not> is_dirty p i" using Suc.prems(9) t(1) tree_ok_id [OF Suc.prems(7)] by (auto simp: inner_clean_def)
    then have "\<not> mp.stuck fuel [i] ?c p" using mp.not_stuck [OF wf, of "[i]"] by simp
    then have H: "FetchPage (holding (mem_env fuel) [i]) ?c p = (Inr cidx, p1)" using F by (simp add: mp.FetchPage_held)
    have nn: "\<And>j. 0 \<le> pins p j" by (simp add: Suc.prems(6))
    note C = mp.FetchPage_inv [OF Suc.prems(1) b(1) nn F] and T = mp.FetchPage_tight [OF Suc.prems(1,2) F]
    have m1: "map_of (pageTable p1) i = Some idx" using C Suc.prems(5,6) by (simp add: stable_def)
    let ?p2 = "UnpinPage i False p1"
    have U: "pool_inv mem_stored lru_inv pageMap {} ?p2" "mview ?p2 = mview p1" "pins ?p2 = (pins p1)(i := pins p1 i - 1)"
      "pageTable ?p2 = pageTable p1"
      using mp.UnpinPage_inv [OF conjunct1 [OF C] m1, of False] by simp_all
    have T2: "tight pageMap ?p2" "length (frames ?p2) = length (frames p)"
      using mp.UnpinPage_tight [OF conjunct1 [OF T]] T by simp_all
    have ag: "agree (mview p) (mview ?p2)" using C U(2) mp.transparent_agree by simp
    have p2: "map_of (pageTable ?p2) ?c = Some cidx" "pins ?p2 = (\<lambda>_. 0)(?c := 1)"
      using C U(3,4) Suc.prems(6) by (auto simp: fun_eq_iff)
    have ok: "tree_ok n (mview ?p2) ?c" using tree_agree [OF ag t(2)] by blast
    have "2 \<le> length (frames ?p2)" "length (frames ?p2) \<le> fuel" using T2(2) Suc.prems(3,4) by simp_all
    moreover have "inner_clean ?p2"
    proof (rule inner_clean_mono [OF Suc.prems(9) ag])
      fix l assume "is_dirty ?p2 l"
      moreover have "pool_wf p1" using C by (simp add: pool_inv_def)
      ultimately show "is_dirty p l"
        using mp.FetchPage_dirty [OF Suc.prems(1) F] is_dirty_unpin [OF _ m1, of False l] by simp
    qed
    ultimately have I: "\<exists>x p'. find_leaf_loop (mem_env fuel) n key ?c cidx ?p2 = (Inr x, p') \<and> tight pageMap p' \<and>
        length (frames p') = length (frames ?p2) \<and> checked mem_stored p' \<and> inner_clean p'"
      using Suc.IH [OF U(1) T2(1) _ _ p2 ok mp.UnpinPage_checked [OF mp.FetchPage_checked [OF Suc.prems(1,8) F b(1)]]] by blast
    have "find_leaf_loop (mem_env fuel) (Suc n) key i idx p = find_leaf_loop (mem_env fuel) n key ?c cidx ?p2"
      using H t(1) mp.view_frame [OF Suc.prems(5)] by (simp add: ps)
    with I T2(2) show ?thesis by simp
  qed
qed

lemma FindLeaf_total:
  assumes p: "ready fuel p" and ok: "tree_ok n (mview p) (rootID t)"
  obtains j k p1 where "FindLeaf (mem_env fuel) n t key p = (Inr (j, k), p1)" "tight pageMap p1" "length (frames p1) = length (frames p)"
    "checked mem_stored p1" "leaf_of n (mview p) (rootID t) key = Some j" "map_of (pageTable p1) j = Some k" "pins p1 = (\<lambda>_. 0)(j := 1)"
    "pool_inv mem_stored lru_inv pageMap {} p1" "agree (mview p) (mview p1)" "leaf_data (mview p j)" "frame_data p1 k = mview p j" "inner_clean p1"
proof -
  let ?i = "rootID t"
  have r: "pool_inv mem_stored lru_inv pageMap {} p" "pins p = (\<lambda>_. 0)" "tight pageMap p" "2 \<le> length (frames p)" "length (frames p) \<le> fuel"
    "checked mem_stored p" "inner_clean p" and id: "mp.idle p"
    using p by (auto simp: ready_def mp.idle_def)
  have b: "unat ?i < 2 ^ 48" "isBTreeKVPage ?i" using tree_ok_id [OF ok] by (simp_all add: tree_id_def)
  have few: "card {j. 0 < pins p j} < length (frames p)" using r(2,4) by auto
  obtain idx p0 where F: "FetchPage (mem_env fuel) ?i p = (Inr idx, p0)"
    using FetchPage_succeeds [OF r(1,3) b few r(5)] by blast
  have nn: "\<And>j. 0 \<le> pins p j" by (simp add: r(2))
  note C = mp.FetchPage_inv [OF r(1) b(1) nn F] and T = mp.FetchPage_tight [OF r(1,3) F]
  have ag0: "agree (mview p) (mview p0)" using C mp.transparent_agree by blast
  have ok0: "tree_ok n (mview p0) ?i" using tree_agree [OF ag0 ok] by blast
  have c0: "inner_clean p0" using inner_clean_mono [OF r(7) ag0] mp.FetchPage_dirty [OF r(1) F] by blast
  have p0: "map_of (pageTable p0) ?i = Some idx" "pins p0 = (\<lambda>_. 0)(?i := 1)" "2 \<le> length (frames p0)" "length (frames p0) \<le> fuel"
    using C T r by simp_all
  obtain x p1 where L: "find_leaf_loop (mem_env fuel) n key ?i idx p0 = (Inr x, p1)" "tight pageMap p1" "length (frames p1) = length (frames p)"
      "checked mem_stored p1" "inner_clean p1"
    using find_leaf_loop_total [OF conjunct1 [OF C] conjunct1 [OF T] p0(3,4,1,2) ok0 mp.FetchPage_checked [OF r(1,6) F b(1)] c0, of key] T by auto
  obtain j k where x: "x = (j, k)" by fastforce
  have run: "FindLeaf (mem_env fuel) n t key p = (Inr (j, k), p1)" using F L x by (simp add: FindLeaf_def)
  note I = mp.FindLeaf_inv [OF id ok run returns_simps(1)]
  have j: "leaf_of n (mview p) ?i key = Some j" "tree_id j" "leaf_data (mview p j)"
    using I tree_ok_leaf [OF ok, of key] by auto
  have "frame_data p1 k = mview p j" using I agreeD [of "mview p" "mview p1" j] j(2) mp.view_frame [of p1 j k] by simp
  with I j L run show thesis by (intro that) simp_all
qed

text \<open>The leaf of a key has room for one more cell.\<close>

definition leaf_room :: "nat \<Rightarrow> (PageID \<Rightarrow> bytes) \<Rightarrow> PageID \<Rightarrow> bytes \<Rightarrow> bytes \<Rightarrow> bool" where
  "leaf_room n V i key val \<longleftrightarrow> (case leaf_of n V i key of None \<Rightarrow> False
     | Some j \<Rightarrow> BTreeHeaderSize + length (enc_cells (data_cells (V j))) + (4 + length key + length val) < PageSize)"

text \<open>Bytes left in every leaf a key can be routed to.\<close>

definition spare :: "nat \<Rightarrow> (PageID \<Rightarrow> bytes) \<Rightarrow> PageID \<Rightarrow> nat \<Rightarrow> bool" where
  "spare n V i m \<longleftrightarrow> (\<forall>k j. leaf_of n V i k = Some j \<longrightarrow> BTreeHeaderSize + length (enc_cells (data_cells (V j))) + m < PageSize)"

lemma spare_room: "spare n V i m \<Longrightarrow> tree_ok n V i \<Longrightarrow> 4 + length key + length val \<le> m \<Longrightarrow> leaf_room n V i key val"
  using tree_ok_leaf [of n V i key] by (auto simp: spare_def leaf_room_def dest!: spec [of _ key])

lemma spare_update:
  assumes "spare n V i (a + m)" "tree_ok n V i" "leaf_data (V j)" "leaf_data d"
    and "length (enc_cells (data_cells d)) \<le> length (enc_cells (data_cells (V j))) + a"
  shows "spare n (V(j := d)) i m"
  unfolding spare_def
proof (intro allI impI)
  fix k l assume "leaf_of n (V(j := d)) i k = Some l"
  then have "leaf_of n V i k = Some l" using tree_update_leaf [OF assms(2-4)] by simp
  then have "BTreeHeaderSize + length (enc_cells (data_cells (V l))) + (a + m) < PageSize" using assms(1) by (simp add: spare_def)
  then show "BTreeHeaderSize + length (enc_cells (data_cells ((V(j := d)) l))) + m < PageSize" using assms(5) by (cases "l = j") simp_all
qed

lemma length_ins_cell: "length (enc_cells (ins_cell k v cs)) \<le> length (enc_cells cs) + (4 + length k + length v)"
proof -
  let ?cs = "filter (\<lambda>c. fst c \<noteq> k) cs"
  have "length (enc_cells (takeWhile P ?cs)) + length (enc_cells (dropWhile P ?cs)) = length (enc_cells ?cs)" for P
    by (metis concat_append length_append map_append takeWhile_dropWhile_id)
  then have "length (enc_cells (ins_cell k v cs)) = length (enc_cells ?cs) + (4 + length k + length v)"
    unfolding ins_cell_def Let_def by (simp del: length_concat)
  then show ?thesis using enc_cells_filter_le [of "\<lambda>c. fst c \<noteq> k" cs] by simp
qed

lemma UnpinPage_frames: "length (frames (UnpinPage i d p)) = length (frames p)"
  by (simp add: UnpinPage_def split: option.split)

lemma set_page_frames: "length (frames (set_page k pg p)) = length (frames p)"
  by (simp add: set_page_def)

lemma set_page_tight: "tight tracked p \<Longrightarrow> tight tracked (set_page k pg p)"
  by (simp add: tight_def set_page_def)

lemma unpin_set_dirty:
  assumes "pool_wf p" "map_of (pageTable p) j = Some k" "is_dirty (UnpinPage j True (set_page k pg p)) i" "i \<noteq> j"
  shows "is_dirty p i"
proof -
  have "l \<noteq> k" if "map_of (pageTable p) i = Some l" for l using pool_wf_inj [OF assms(1) _ assms(2), of i] that assms(4) by blast
  then show ?thesis using assms(2,3) by (auto simp: is_dirty_def UnpinPage_def set_page_def upd_frame_def)
qed

lemma ready_modify:
  assumes "ready fuel p" "tight pageMap p1" "length (frames p1) = length (frames p)" "checked mem_stored p1"
    and "pool_inv mem_stored lru_inv pageMap {} p1" "map_of (pageTable p1) j = Some k" "mp.idle (UnpinPage j True (set_page k pg p1))"
    and "inner_clean p1" "leaf_data (pgData pg)" "mview (UnpinPage j True (set_page k pg p1)) = (mview p1)(j := pgData pg)"
  shows "ready fuel (UnpinPage j True (set_page k pg p1))"
proof -
  have wf: "pool_wf p1" using assms(5) by (simp add: pool_inv_def)
  have "is_dirty (UnpinPage j True (set_page k pg p1)) i \<Longrightarrow> i \<noteq> j \<Longrightarrow> is_dirty p1 i" for i
    using unpin_set_dirty [OF wf assms(6)] by blast
  then have "inner_clean (UnpinPage j True (set_page k pg p1))"
    using assms(8) leaf_not_internal [OF assms(9)] unfolding inner_clean_def assms(10) by (metis fun_upd_apply)
  moreover from wf have "checked mem_stored (UnpinPage j True (set_page k pg p1))"
    unfolding set_page_def using assms(4,6) by (intro mp.store_checked)
  ultimately show ?thesis using assms(1-3,7) mp.UnpinPage_tight [OF set_page_tight [OF assms(2), of k pg], of j True]
    by (simp add: ready_def set_page_frames)
qed

lemma Insert_total:
  assumes p: "ready fuel p" and ok: "tree_ok n (mview p) (rootID t)" and room: "leaf_room n (mview p) (rootID t) key val"
  obtains p' where "Insert (mem_env fuel) n (\<lambda>s. s) key val (t, p) = (None, t, p')" "ready fuel p'" "tree_ok n (mview p') (rootID t)"
    "tree_contents n (mview p') (rootID t) = (tree_contents n (mview p) (rootID t))(key \<mapsto> val)"
    "\<And>i. unat i < 2 ^ 48 \<Longrightarrow> leaf_of n (mview p) (rootID t) key \<noteq> Some i \<Longrightarrow> same_page i (mview p' i) (mview p i)"
    "\<And>i. leaf_of n (mview p) (rootID t) key = Some i \<Longrightarrow> leaf_data (mview p' i) \<and>
      length (enc_cells (data_cells (mview p' i))) \<le> length (enc_cells (data_cells (mview p i))) + (4 + length key + length val)"
proof -
  obtain j k p1 where F: "FindLeaf (mem_env fuel) n t key p = (Inr (j, k), p1)" "tight pageMap p1" "length (frames p1) = length (frames p)" "checked mem_stored p1"
    and j: "leaf_of n (mview p) (rootID t) key = Some j" and m: "map_of (pageTable p1) j = Some k" "pins p1 = (\<lambda>_. 0)(j := 1)"
    and inv1: "pool_inv mem_stored lru_inv pageMap {} p1" and ag: "agree (mview p) (mview p1)"
    and lf: "leaf_data (mview p j)" and d: "frame_data p1 k = mview p j" and ic: "inner_clean p1"
    by (rule FindLeaf_total [OF p ok])
  let ?pg = "frames p1 ! k"
  have rm: "BTreeHeaderSize + length (enc_cells (data_cells (mview p j))) + (4 + length key + length val) < PageSize"
    using room j by (simp add: leaf_room_def)
  then have req: "4 + length key + length val < 2 ^ 31" "u32 (4 + length key + length val) = 4 + length key + length val"
    by (simp_all add: PageSize_def)
  have rep: "leaf_rep (data_cells (mview p j)) (pgData ?pg)" using lf d by (simp add: leaf_data_def)
  have safe: "BTree_IsSafeForInsert (4 + length key + length val) (pgData ?pg)"
    using safe_leaf [OF rep req(1)] rm by simp
  obtain x pg where I: "insertIntoLeaf ?pg key val = (x, pg)" by fastforce
  have lin: "leaf_inv ?pg" using lf d by (simp add: leaf_data_page)
  note P = leaf_put [OF lin req(1) I]
  have x: "x = None" "leaf_rep (ins_cell key val (data_cells (mview p j))) (pgData pg)"
    using insertIntoLeaf_ok [OF rep, of key val] I rm enc_cells_filter_le [of "\<lambda>c. fst c \<noteq> key" "data_cells (mview p j)"] by auto
  then have cells: "data_cells (pgData pg) = ins_cell key val (data_cells (mview p j))" by (metis leaf_data_page(3) leaf_rep_cells)
  have pg: "pgID pg = pgID ?pg" "pgPin pg = pgPin ?pg" "leaf_data (pgData pg)"
    "map_of (data_cells (pgData pg)) = (map_of (data_cells (frame_data p1 k)))(key \<mapsto> val)"
    using P x by (simp_all add: same_frame_def leaf_data_page)
  let ?p' = "UnpinPage j True (set_page k pg p1)"
  have run: "Insert (mem_env fuel) n (\<lambda>s. s) key val (t, p) = (None, t, ?p')"
    using F I safe x by (simp add: Insert_def req(2))
  note W = mp.leaf_store [OF ok ag j inv1 m pg]
  show thesis
  proof (rule that [OF run])
    show "ready fuel ?p'"
      using W mp.leaf_modify(2) [OF inv1 m pg(1,2) leaf_dataD(2) [OF pg(3)]]
      by (intro ready_modify [OF p F(2-4) inv1 m(1) _ ic pg(3)]) blast+
    show "same_page i (mview ?p' i) (mview p i)" if "unat i < 2 ^ 48" "leaf_of n (mview p) (rootID t) key \<noteq> Some i" for i
      using W that j by simp
    show "leaf_data (mview ?p' i) \<and>
        length (enc_cells (data_cells (mview ?p' i))) \<le> length (enc_cells (data_cells (mview p i))) + (4 + length key + length val)"
      if "leaf_of n (mview p) (rootID t) key = Some i" for i
      using W that j pg(3) cells length_ins_cell by simp
  qed (use W in blast)+
qed

section \<open>A device with one leaf\<close>

text \<open>A pool opened on a device whose last page is the root 1002.\<close>

definition one_leaf :: "nat \<Rightarrow> (bytes \<times> bytes) list \<Rightarrow> (bytes, lru) pool" where
  "one_leaf n cs = NewBufferPool (replicate (1002 * PageSize) 0 @ pgData (mk_leaf 1002 cs)) n NewLRUEvictionPolicy None"

lemma tree_id_1002: "tree_id 1002"
  by (simp add: tree_id_def isBTreeKVPage_def BTreeRootPageID_def)

lemma one_leaf_props:
  assumes "BTreeHeaderSize + length (enc_cells cs) \<le> PageSize" "sorted_cells cs"
  shows "leaf_data (mview (one_leaf n cs) 1002)" "data_cells (mview (one_leaf n cs) 1002) = cs"
    "pool_inv mem_stored lru_inv pageMap {} (one_leaf n cs)" "pins (one_leaf n cs) j = 0" "tight pageMap (one_leaf n cs)"
    "length (frames (one_leaf n cs)) = n" "length (disk (one_leaf n cs)) = 1003 * PageSize" "filed (one_leaf n cs)"
proof -
  let ?d = "pgData (mk_leaf 1002 cs)" let ?dsk = "replicate (1002 * PageSize) 0 @ ?d"
  have len: "length ?d = PageSize" using mk_leaf_rep [OF assms(1), of 1002] by (simp add: leaf_rep_def)
  have "mem_stored ?dsk i = ?d ! (i - 1002 * PageSize)" if "1002 * PageSize \<le> i" "i < 1002 * PageSize + PageSize" for i
    using that len by (simp add: mem_stored_def nth_append)
  then have "page_at mem_stored ?dsk 1002 = map (\<lambda>i. ?d ! (i - 1002 * PageSize)) [1002 * PageSize..<1002 * PageSize + PageSize]"
    by (simp add: page_at_def)
  also have "\<dots> = ?d" using len by (intro nth_equalityI) simp_all
  finally have v: "mview (one_leaf n cs) 1002 = ?d" by (simp add: one_leaf_def NewBufferPool_inv)
  show "leaf_data (mview (one_leaf n cs) 1002)" "data_cells (mview (one_leaf n cs) 1002) = cs"
    using mk_leaf_inv [OF assms, of 1002] v by (simp_all add: leaf_data_page)
  show "pool_inv mem_stored lru_inv pageMap {} (one_leaf n cs)" "pins (one_leaf n cs) j = 0"
    by (simp_all add: one_leaf_def NewBufferPool_inv lru_inv_def NewLRUEvictionPolicy_def)
  show "tight pageMap (one_leaf n cs)" "length (frames (one_leaf n cs)) = n" "filed (one_leaf n cs)"
    by (auto simp: one_leaf_def NewBufferPool_def tight_def filed_def NewLRUEvictionPolicy_def)
  show "length (disk (one_leaf n cs)) = 1003 * PageSize" using len by (simp add: one_leaf_def NewBufferPool_def)
qed

text \<open>A device that starts with blank pages only as far as the slotted pages go.\<close>

lemma blank_front_checked: "checked mem_stored (NewBufferPool (replicate (1002 * PageSize) 0 @ post) n ev m)"
  unfolding NewBufferPool_checked
proof (intro allI impI)
  fix i :: PageID assume "unat i < 2 ^ 48"
  show "passes i (page_at mem_stored (replicate (1002 * PageSize) 0 @ post) i)"
  proof (cases "isBTreeKVPage i")
    case False
    then have "unat i < 1000" by (simp add: isBTreeKVPage_def BTreeRootPageID_def word_le_nat_alt)
    then have "x < 1002 * PageSize" if "x < unat i * PageSize + PageSize" for x using that by (simp add: PageSize_def)
    then have "\<forall>b\<in>set (page_at mem_stored (replicate (1002 * PageSize) 0 @ post) i). b = 0"
      by (auto simp: page_at_def mem_stored_def nth_append)
    then show ?thesis by (simp add: passes_def)
  qed (simp add: passes_def)
qed

lemma one_leaf_checked: "checked mem_stored (one_leaf n cs)"
  unfolding one_leaf_def by (rule blank_front_checked)

lemma one_leaf_ready:
  assumes "BTreeHeaderSize + length (enc_cells cs) \<le> PageSize" "sorted_cells cs" "2 \<le> n" "n \<le> fuel"
  shows "ready fuel (one_leaf n cs)" "tree_ok m (mview (one_leaf n cs)) 1002" "tree_contents m (mview (one_leaf n cs)) 1002 = map_of cs"
    "leaf_of m (mview (one_leaf n cs)) 1002 k = Some 1002"
proof -
  note P = one_leaf_props [OF assms(1,2), of n]
  show "ready fuel (one_leaf n cs)" using P one_leaf_checked [of n cs] assms(3,4) new_pool_clean by (simp add: ready_def mp.idle_def one_leaf_def)
  show "tree_ok m (mview (one_leaf n cs)) 1002" using P(1) tree_id_1002 by (cases m) simp_all
  have l: "leaf_of m (mview (one_leaf n cs)) 1002 k = Some 1002" for k using P(1) by (cases m) simp_all
  then show "leaf_of m (mview (one_leaf n cs)) 1002 k = Some 1002" .
  show "tree_contents m (mview (one_leaf n cs)) 1002 = map_of cs" using P(2) l by (simp add: tree_contents_def fun_eq_iff)
qed

end
