(* ===== verification/KVStore.thy ===== *)
theory KVStore
  imports TreeStore DB
begin

text \<open>
  The key/value store of \<open>kv_store.go\<close> on a tree: \<open>Get\<close>, \<open>Put\<close>, \<open>Delete\<close>, the
  iterator, the reset of damaged roots, the recovery of records from pages that are not trees,
  and the opening of a store.

  The store is its tree and the pool of its database. What other goroutines do while a latch is
  upgraded is an argument, as in \<open>BTree\<close>. An error that ends the goroutine (a panic, a
  latch it waits for itself, a loop that does not end) is \<open>fatal\<close>: the code that discards
  errors does not get to run after it. The handles of \<open>Begin\<close> carry no state.
\<close>

section \<open>Keys that are stored durably\<close>

definition fatal :: "error \<Rightarrow> bool" where
  "fatal e \<longleftrightarrow> e = GoPanic \<or> e = Blocked \<or> e = OutOfFuel"

definition isDurableIdentityKey :: "bytes \<Rightarrow> bool" where
  "isDurableIdentityKey key \<longleftrightarrow>
     has_prefix key (bytes_of ''data:user:'') \<or> has_prefix key (bytes_of ''data:oidc_'') \<or>
     has_prefix key (bytes_of ''data:client:'') \<or> key = bytes_of ''data:oidc_master_key''"

definition flushed_key :: "bytes \<Rightarrow> bool" where
  "flushed_key key \<longleftrightarrow>
     isDurableIdentityKey key \<or> has_prefix key (bytes_of ''data:session:'') \<or> has_prefix key (bytes_of ''mail:'')"

section \<open>The store operations\<close>

definition KV_Flush :: "('d, 'e) env \<Rightarrow> ('d, 'e) pool \<Rightarrow> error option \<times> ('d, 'e) pool" where
  "KV_Flush = FlushAll"

definition KV_Get ::
  "('d, 'e) env \<Rightarrow> nat \<Rightarrow> bytes \<Rightarrow> btree \<times> ('d, 'e) pool \<Rightarrow> bytes result \<times> btree \<times> ('d, 'e) pool" where
  "KV_Get E n key = (\<lambda>(t, p).
     (case FindLeaf E n t key p of
        (Inl e, p1) \<Rightarrow> (Inl e, t, p1)
      | (Inr (_, idx), p1) \<Rightarrow> (leaf_Get (frame_data p1 idx) key, t, UnpinPage (pgID (frames p1 ! idx)) False p1)))"

definition KV_Put ::
  "('d, 'e) env \<Rightarrow> nat \<Rightarrow> (btree \<times> ('d, 'e) pool \<Rightarrow> btree \<times> ('d, 'e) pool) \<Rightarrow> bytes \<Rightarrow> bytes \<Rightarrow> btree \<times> ('d, 'e) pool \<Rightarrow>
   error option \<times> btree \<times> ('d, 'e) pool" where
  "KV_Put E n others key value s =
     (case Insert E n others key value s of
        (Some e, s1) \<Rightarrow> (Some e, s1)
      | (None, t1, p1) \<Rightarrow>
          if flushed_key key then (case KV_Flush E p1 of (e, p2) \<Rightarrow> (e, t1, p2)) else (None, t1, p1))"

text \<open>The version read before the upgrade is not used.\<close>

definition KV_Delete ::
  "('d, 'e) env \<Rightarrow> nat \<Rightarrow> (btree \<times> ('d, 'e) pool \<Rightarrow> btree \<times> ('d, 'e) pool) \<Rightarrow> bytes \<Rightarrow> btree \<times> ('d, 'e) pool \<Rightarrow>
   error option \<times> btree \<times> ('d, 'e) pool" where
  "KV_Delete E n others key = (\<lambda>(t, p).
     (case FindLeaf E n t key p of
        (Inl e, p1) \<Rightarrow> (Some e, t, p1)
      | (Inr (_, idx), p1) \<Rightarrow>
          let (t2, p2) = others (t, p1);
              (e, pg) = leaf_Delete (frames p2 ! idx) key
          in (e, t2, UnpinPage (pgID (frames p2 ! idx)) True (set_page idx pg p2))))"

section \<open>Iterators\<close>

record kv_iter =
  itCursor :: "cursor option"
  itPrefix :: bytes

text \<open>An iterator whose cursor could not be opened is at its end.\<close>

definition NewIterator :: "('d, 'e) env \<Rightarrow> nat \<Rightarrow> btree \<Rightarrow> bytes \<Rightarrow> ('d, 'e) pool \<Rightarrow> kv_iter result \<times> ('d, 'e) pool" where
  "NewIterator E n t prefix p =
     (case NewBTreeCursor E n (rootID t) p of
        (Inl e, p1) \<Rightarrow> (if fatal e then Inl e else Inr \<lparr>itCursor = None, itPrefix = []\<rparr>, p1)
      | (Inr c, p1) \<Rightarrow> (Inr \<lparr>itCursor = Some c, itPrefix = prefix\<rparr>, p1))"

fun iter_next ::
  "('d, 'e) env \<Rightarrow> nat \<Rightarrow> bytes \<Rightarrow> cursor \<Rightarrow> ('d, 'e) pool \<Rightarrow> (bytes \<times> bytes) result \<times> cursor \<times> ('d, 'e) pool" where
  "iter_next E 0 prefix c p = (Inl OutOfFuel, c, p)"
| "iter_next E (Suc n) prefix c p =
     (case Cursor_Next E c p of
        (Inl e, c1, p1) \<Rightarrow> (Inl e, c1, p1)
      | (Inr (k, v), c1, p1) \<Rightarrow>
          if prefix = [] \<or> has_prefix k prefix then (Inr (k, v), c1, p1)
          else if prefix < k then (Inl ErrEOF, c1, p1)
          else iter_next E n prefix c1 p1)"

definition Iter_Next ::
  "('d, 'e) env \<Rightarrow> nat \<Rightarrow> kv_iter \<Rightarrow> ('d, 'e) pool \<Rightarrow> (bytes \<times> bytes) result \<times> kv_iter \<times> ('d, 'e) pool" where
  "Iter_Next E n it p =
     (case itCursor it of
        None \<Rightarrow> (Inl ErrEOF, it, p)
      | Some c \<Rightarrow> (case iter_next E n (itPrefix it) c p of (r, c1, p1) \<Rightarrow> (r, it\<lparr>itCursor := Some c1\<rparr>, p1)))"

definition Iter_Close :: "kv_iter \<Rightarrow> ('d, 'e) pool \<Rightarrow> error option \<times> ('d, 'e) pool" where
  "Iter_Close it p =
     (case itCursor it of
        None \<Rightarrow> (None, p)
      | Some c \<Rightarrow> (case Cursor_Close c p of (e, _, p1) \<Rightarrow> (e, p1)))"

section \<open>Resetting a root\<close>

definition btreePageNeedsReset :: "bytes \<Rightarrow> bool" where
  "btreePageNeedsReset d \<longleftrightarrow> (PageType d \<noteq> PageTypeLeaf \<and> PageType d \<noteq> PageTypeInternal) \<or> 512 < NumCells d"

definition resetBTreePage :: "bytes \<Rightarrow> bytes" where
  "resetBTreePage d0 =
     (let d1 = SetPageType PageTypeLeaf (BTreeInit d0);
          d2 = SetParentID 0 (SetNextLeafID 0 (SetNumCells 0 d1))
      in zero_range d2 BTreeHeaderSize PageSize)"

text \<open>A root that cannot be fetched is replaced by a new page, whose frame is relabelled; the page
  table keeps the number the pool gave it.\<close>

definition open_root :: "('d, 'e) env \<Rightarrow> PageID \<Rightarrow> ('d, 'e) pool \<Rightarrow> nat result \<times> ('d, 'e) pool" where
  "open_root E i p =
     (case FetchPage E i p of
        (Inr idx, p1) \<Rightarrow> (Inr idx, p1)
      | (Inl e, p1) \<Rightarrow>
          if fatal e then (Inl e, p1)
          else (case NewPage E p1 of
                  (Inl e', p2) \<Rightarrow> (Inl e', p2)
                | (Inr idx, p2) \<Rightarrow> (Inr idx, upd_frame idx (\<lambda>pg. pg\<lparr>pgID := i\<rparr>) p2)))"

definition reset_frame :: "nat \<Rightarrow> ('d, 'e) pool \<Rightarrow> ('d, 'e) pool" where
  "reset_frame idx = upd_frame idx (\<lambda>pg. pg\<lparr>pgData := resetBTreePage (pgData pg), pgDirty := True\<rparr>)"

definition ResetBTreeRoot ::
  "('d, 'e) env \<Rightarrow> PageID \<Rightarrow> ('d, 'e) db option \<Rightarrow> error option \<times> ('d, 'e) db option" where
  "ResetBTreeRoot E i dbo =
     (case dbo of
        None \<Rightarrow> (Some ErrNoDB, None)
      | Some db \<Rightarrow>
          (case open_root E i (bp db) of
             (Inl e, p1) \<Rightarrow> (Some e, Some (db\<lparr>bp := p1\<rparr>))
           | (Inr idx, p1) \<Rightarrow>
               let p2 = reset_frame idx p1;
                   p3 = UnpinPage (pgID (frames p2 ! idx)) True p2;
                   (e, p4) = FlushAll E p3
               in (e, Some (db\<lparr>bp := p4\<rparr>))))"

section \<open>Recovering records from pages of another layout\<close>

definition isKVKeyChar :: "byte \<Rightarrow> bool" where
  "isKVKeyChar b \<longleftrightarrow> (0x61 \<le> b \<and> b \<le> 0x7A) \<or> (0x41 \<le> b \<and> b \<le> 0x5A) \<or> (0x30 \<le> b \<and> b \<le> 0x39) \<or>
     b \<in> {0x3A, 0x5F, 0x2D, 0x2E, 0x2B}"

text \<open>The scanner of \<open>extractJSONObject\<close>: the position after the brace that closes the object.
  The depth is a Go \<open>int\<close>; it starts at the opening brace, so it is at least 1 inside.\<close>

fun json_scan :: "bytes \<Rightarrow> nat \<Rightarrow> int \<Rightarrow> bool \<Rightarrow> bool \<Rightarrow> nat option" where
  "json_scan [] i depth inString escaped = None"
| "json_scan (b # rest) i depth inString escaped =
     (if inString
      then if escaped then json_scan rest (Suc i) depth True False
           else if b = 0x5C then json_scan rest (Suc i) depth True True
           else json_scan rest (Suc i) depth (b \<noteq> 0x22) False
      else if b = 0x22 then json_scan rest (Suc i) depth True escaped
      else if b = 0x7B then json_scan rest (Suc i) (depth + 1) False escaped
      else if b = 0x7D then if depth - 1 = 0 then Some (Suc i) else json_scan rest (Suc i) (depth - 1) False escaped
      else json_scan rest (Suc i) depth False escaped)"

definition extractJSONObject :: "bytes \<Rightarrow> bytes option \<times> nat" where
  "extractJSONObject raw =
     (if raw = [] \<or> hd raw \<noteq> 0x7B then (None, 0)
      else case json_scan raw 0 0 False False of
             None \<Rightarrow> (None, 0)
           | Some n \<Rightarrow> (Some (take n raw), n))"

definition recoverKVEntry :: "(bytes \<times> bytes) list \<Rightarrow> bytes \<Rightarrow> bytes \<Rightarrow> (bytes \<times> bytes) list" where
  "recoverKVEntry out key value =
     (if key = [] \<or> value = [] then out
      else if (case map_of out key of None \<Rightarrow> 0 | Some v \<Rightarrow> length v) < length value then AList.update key value out
      else out)"

definition isRecoverableDataKey :: "bytes \<Rightarrow> bool" where
  "isRecoverableDataKey key \<longleftrightarrow>
     has_prefix key (bytes_of ''data:user:'') \<or> has_prefix key (bytes_of ''data:session:'') \<or>
     has_prefix key (bytes_of ''data:oidc_'') \<or> has_prefix key (bytes_of ''data:policy:'') \<or>
     has_prefix key (bytes_of ''data:mesh_'') \<or> has_prefix key (bytes_of ''data:client:'') \<or>
     has_prefix key (bytes_of ''mail:box:'') \<or> has_prefix key (bytes_of ''mail:msg:'') \<or> has_prefix key (bytes_of ''mail:mbx:'')"

text \<open>The body of the loop over all offsets: a slotted record that starts at \<open>i\<close>.\<close>

definition slotted_candidate :: "int \<Rightarrow> bytes \<Rightarrow> nat \<Rightarrow> (bytes \<times> bytes) option" where
  "slotted_candidate now raw i =
     (let txnID = rd_le 8 raw i;
          expiresAt = sint (word_of_nat (rd_le 8 raw (i + 8)) :: 64 word);
          keyLen = rd_le 4 raw (i + 16);
          valLen = rd_le 4 raw (i + 20)
      in if txnID = 0 \<or> keyLen = 0 \<or> 256 < keyLen \<or> valLen = 0 \<or> 16384 < valLen then None
         else if expiresAt \<noteq> 0 \<and> expiresAt \<le> now then None
         else if length raw < i + 24 + keyLen + valLen then None
         else let key = slice raw (i + 24) (i + 24 + keyLen)
              in if \<not> isRecoverableDataKey key then None
                 else Some (key, slice raw (i + 24 + keyLen) (i + 24 + keyLen + valLen)))"

definition recoverSlottedKVFromRaw :: "int \<Rightarrow> bytes \<Rightarrow> (bytes \<times> bytes) list" where
  "recoverSlottedKVFromRaw now raw =
     fold (\<lambda>i out. case slotted_candidate now raw i of None \<Rightarrow> out | Some (k, v) \<Rightarrow> recoverKVEntry out k v)
       [0..<length raw - 24] []"

definition json_candidate :: "bytes \<Rightarrow> nat \<Rightarrow> (bytes \<times> bytes) option" where
  "json_candidate raw i =
     (let marker = bytes_of ''data:''
      in if \<not> has_prefix (drop i raw) marker then None
         else let j = i + length marker + length (takeWhile isKVKeyChar (drop (i + length marker) raw));
                  key = slice raw i j
              in if j = i + length marker \<or> length raw \<le> j \<or> raw ! j \<noteq> 0x7B \<or> \<not> isRecoverableDataKey key then None
                 else map_option (Pair key) (fst (extractJSONObject (drop j raw))))"

definition recoverJSONKVFromRaw :: "bytes \<Rightarrow> (bytes \<times> bytes) list" where
  "recoverJSONKVFromRaw raw =
     fold (\<lambda>i out. case json_candidate raw i of None \<Rightarrow> out | Some (k, v) \<Rightarrow> recoverKVEntry out k v)
       [0..<length raw - 5] []"

text \<open>The three sources are merged; \<open>range\<close> visits the two maps in any order.\<close>

definition recoverLegacyKVRecords ::
  "('d, 'e) env \<Rightarrow> run_env \<Rightarrow> ((bytes \<times> bytes) list \<Rightarrow> (bytes \<times> bytes) list) \<Rightarrow> PageID \<Rightarrow> bytes \<Rightarrow> ('d, 'e) db \<Rightarrow>
   (bytes \<times> bytes) list result \<times> ('d, 'e) db" where
  "recoverLegacyKVRecords E R mperm i raw db =
     (let (txn, db1) = BeginTxn db;
          (r, db2) = Scan E R i txn (bytes_of ''data:'') (\<lambda>out key value. (True, recoverKVEntry out key value)) [] db1;
          out = (case r of Inl _ \<Rightarrow> [] | Inr out \<Rightarrow> out)
      in if (case r of Inl e \<Rightarrow> fatal e | Inr _ \<Rightarrow> False) then (Inl (projl r), db2)
         else (Inr (fold (\<lambda>(k, v) out. recoverKVEntry out k v)
                      (mperm (recoverSlottedKVFromRaw (clock R) raw) @ mperm (recoverJSONKVFromRaw raw)) out), CommitTxn txn db2))"

section \<open>Opening a store\<close>

fun import_loop ::
  "('d, 'e) env \<Rightarrow> nat \<Rightarrow> (bytes \<times> bytes) list \<Rightarrow> nat \<Rightarrow> btree \<times> ('d, 'e) pool \<Rightarrow> nat result \<times> btree \<times> ('d, 'e) pool" where
  "import_loop E n [] imported s = (Inr imported, s)"
| "import_loop E n ((key, value) # rest) imported s =
     (case KV_Get E n key s of
        (r, s1) \<Rightarrow>
          if (case r of Inl e \<Rightarrow> fatal e | Inr _ \<Rightarrow> False) then (Inl (projl r), s1)
          else if (case r of Inl _ \<Rightarrow> False | Inr existing \<Rightarrow> length value \<le> length existing)
          then import_loop E n rest imported s1
          else (case KV_Put E n (\<lambda>s. s) key value s1 of
                  (None, s2) \<Rightarrow> import_loop E n rest (imported + 1) s2
                | (Some e, s2) \<Rightarrow> if fatal e then (Inl e, s2) else import_loop E n rest imported s2))"

definition importRecoveredKV ::
  "('d, 'e) env \<Rightarrow> nat \<Rightarrow> ((bytes \<times> bytes) list \<Rightarrow> (bytes \<times> bytes) list) \<Rightarrow> (bytes \<times> bytes) list \<Rightarrow> btree \<times> ('d, 'e) pool \<Rightarrow>
   nat result \<times> btree \<times> ('d, 'e) pool" where
  "importRecoveredKV E n mperm recovered s =
     (if recovered = [] then (Inr 0, s) else import_loop E n (mperm recovered) 0 s)"

text \<open>All keys an iterator delivers before its first error.\<close>

fun collect_keys ::
  "('d, 'e) env \<Rightarrow> nat \<Rightarrow> nat \<Rightarrow> kv_iter \<Rightarrow> bytes list \<Rightarrow> ('d, 'e) pool \<Rightarrow> bytes list result \<times> kv_iter \<times> ('d, 'e) pool" where
  "collect_keys E n 0 it acc p = (Inl OutOfFuel, it, p)"
| "collect_keys E n (Suc m) it acc p =
     (case Iter_Next E n it p of
        (Inr (k, _), it1, p1) \<Rightarrow> collect_keys E n m it1 (acc @ [k]) p1
      | (Inl e, it1, p1) \<Rightarrow> (if fatal e then Inl e else Inr acc, it1, p1))"

definition ephemeral_prefixes :: "bytes list" where
  "ephemeral_prefixes = map bytes_of [''state:grant:'', ''state:log:'', ''transaction_ledger:'', ''state:pop:'']"

fun collect_prefixes ::
  "('d, 'e) env \<Rightarrow> nat \<Rightarrow> btree \<Rightarrow> bytes list \<Rightarrow> bytes list \<Rightarrow> ('d, 'e) pool \<Rightarrow> bytes list result \<times> ('d, 'e) pool" where
  "collect_prefixes E n t [] acc p = (Inr acc, p)"
| "collect_prefixes E n t (prefix # rest) acc p =
     (case NewIterator E n t prefix p of
        (Inl e, p1) \<Rightarrow> (Inl e, p1)
      | (Inr it, p1) \<Rightarrow>
          (case collect_keys E n n it acc p1 of
             (Inl e, _, p2) \<Rightarrow> (Inl e, p2)
           | (Inr acc1, it1, p2) \<Rightarrow>
               (case Iter_Close it1 p2 of
                  (Some e, p3) \<Rightarrow> (Inl e, p3)
                | (None, p3) \<Rightarrow> collect_prefixes E n t rest acc1 p3)))"

fun delete_keys ::
  "('d, 'e) env \<Rightarrow> nat \<Rightarrow> bytes list \<Rightarrow> nat \<Rightarrow> btree \<times> ('d, 'e) pool \<Rightarrow> nat result \<times> btree \<times> ('d, 'e) pool" where
  "delete_keys E n [] removed s = (Inr removed, s)"
| "delete_keys E n (key # rest) removed s =
     (case KV_Delete E n (\<lambda>s. s) key s of
        (None, s1) \<Rightarrow> delete_keys E n rest (removed + 1) s1
      | (Some e, s1) \<Rightarrow> if fatal e then (Inl e, s1) else delete_keys E n rest removed s1)"

definition purgeEphemeralKVKeys ::
  "('d, 'e) env \<Rightarrow> nat \<Rightarrow> btree \<times> ('d, 'e) pool \<Rightarrow> nat result \<times> btree \<times> ('d, 'e) pool" where
  "purgeEphemeralKVKeys E n = (\<lambda>(t, p).
     (case collect_prefixes E n t ephemeral_prefixes [] p of
        (Inl e, p1) \<Rightarrow> (Inl e, t, p1)
      | (Inr toDelete, p1) \<Rightarrow> delete_keys E n toDelete 0 (t, p1)))"

definition LegacyKVPageID :: PageID where
  "LegacyKVPageID = 1000"

definition NewBTreeKVStoreWithRoot ::
  "('d, 'e) env \<Rightarrow> run_env \<Rightarrow> ((bytes \<times> bytes) list \<Rightarrow> (bytes \<times> bytes) list) \<Rightarrow> nat \<Rightarrow> PageID \<Rightarrow> ('d, 'e) db \<Rightarrow>
   btree result \<times> ('d, 'e) db" where
  "NewBTreeKVStoreWithRoot E R mperm n root db =
     (case open_root E root (bp db) of
        (Inl e, p1) \<Rightarrow> (Inl (if fatal e then e else GoPanic), db\<lparr>bp := p1\<rparr>)
      | (Inr idx, p1) \<Rightarrow>
          let d = frame_data p1 idx;
              needsReset = btreePageNeedsReset d;
              (rec, db2) = (if root = LegacyKVPageID \<or> needsReset
                            then recoverLegacyKVRecords E R mperm root d (db\<lparr>bp := p1\<rparr>) else (Inr [], db\<lparr>bp := p1\<rparr>))
          in case rec of
               Inl e \<Rightarrow> (Inl e, db2)
             | Inr recovered \<Rightarrow>
                 let p3 = (if needsReset then reset_frame idx (bp db2) else bp db2);
                     p4 = UnpinPage (pgID (frames p3 ! idx)) True p3;
                     t = NewBTree root
                 in case importRecoveredKV E n mperm recovered (t, p4) of
                      (Inl e, t5, p5) \<Rightarrow> (Inl e, db2\<lparr>bp := p5\<rparr>)
                    | (Inr imported, t5, p5) \<Rightarrow>
                        (case purgeEphemeralKVKeys E n (t5, p5) of
                           (Inl e, t6, p6) \<Rightarrow> (Inl e, db2\<lparr>bp := p6\<rparr>)
                         | (Inr removed, t6, p6) \<Rightarrow>
                             (Inr t6, db2\<lparr>bp := (if needsReset \<or> 0 < imported \<or> 0 < removed then snd (KV_Flush E p6) else p6)\<rparr>)))"

section \<open>The store on the in-memory engine\<close>

lemma ready_flush:
  assumes "ready fuel p"
  obtains p' where "FlushAll (mem_env fuel) p = (None, p')" "ready fuel p'" "agree (mview p) (mview p')"
proof -
  have p: "pool_inv mem_stored lru_inv pageMap {} p" "\<forall>j. pins p j = 0" "tight pageMap p" "2 \<le> length (frames p)" "length (frames p) \<le> fuel"
    "checked mem_stored p"
    using assms by (simp_all add: ready_def mp.idle_def)
  obtain p' where f: "FlushAll (mem_env fuel) p = (None, p')" using Mem_FlushAll(1) [OF p(1), of fuel] by (metis prod.collapse)
  note F = mp.FlushAll_inv [OF p(1) f]
  have "keeps p p'" by (rule mp.FlushAll_keeps [OF p(1) f])
  then have "pins p' = pins p" using p(2) by (intro keeps_pins) simp_all
  moreover have "tight pageMap p'" using F p(3) mp.FlushAll_evictor [OF f] by (simp add: tight_def)
  moreover have "checked mem_stored p'" using mp.FlushAll_checked [OF p(1,6) f] .
  moreover have "inner_clean p'" using mp.FlushAll_clean [OF p(1) f] by (rule inner_clean_none)
  ultimately have "ready fuel p'" using F p by (simp add: ready_def mp.idle_def)
  moreover have "agree (mview p) (mview p')" using F mp.transparent_agree by blast
  ultimately show thesis using f by (intro that)
qed

lemma KV_Get_total:
  assumes p: "ready fuel p" and ok: "tree_ok n (mview p) (rootID t)"
  shows "\<exists>p'. KV_Get (mem_env fuel) n key (t, p) =
      (case tree_contents n (mview p) (rootID t) key of Some v \<Rightarrow> Inr v | None \<Rightarrow> Inl ErrKeyNotFound, t, p') \<and>
    ready fuel p' \<and> agree (mview p) (mview p')"
proof -
  obtain j k p1 where F: "FindLeaf (mem_env fuel) n t key p = (Inr (j, k), p1)" "tight pageMap p1" "length (frames p1) = length (frames p)" "checked mem_stored p1"
    and j: "leaf_of n (mview p) (rootID t) key = Some j" and m: "map_of (pageTable p1) j = Some k" "pins p1 = (\<lambda>_. 0)(j := 1)"
    and inv1: "pool_inv mem_stored lru_inv pageMap {} p1" and ag: "agree (mview p) (mview p1)"
    and lf: "leaf_data (mview p j)" and d: "frame_data p1 k = mview p j" and ic: "inner_clean p1"
    by (rule FindLeaf_total [OF p ok])
  have wf: "pool_wf p1" using inv1 by (simp add: pool_inv_def)
  then have i: "pgID (frames p1 ! k) = j" using pool_wfD(2) [OF _ m(1)] by blast
  note U = mp.leaf_unpin [OF inv1 m]
  have "inner_clean (UnpinPage j False p1)"
    using U(2) is_dirty_unpin [OF wf m(1), of False] by (intro inner_clean_mono [OF ic]) simp_all
  then have "ready fuel (UnpinPage j False p1)"
    using U(1) p F(3) mp.UnpinPage_tight [OF F(2), of j False] mp.UnpinPage_checked [OF F(4)] by (simp add: ready_def)
  moreover have "leaf_Get (frame_data p1 k) key =
      (case tree_contents n (mview p) (rootID t) key of Some v \<Rightarrow> Inr v | None \<Rightarrow> Inl ErrKeyNotFound)"
    using leaf_Get_rep [of "data_cells (mview p j)" "mview p j" key] lf j d by (simp add: leaf_data_def tree_contents_def)
  ultimately show ?thesis using F(1) i U(2) ag by (auto simp: KV_Get_def)
qed

lemma KV_Put_total:
  assumes p: "ready fuel p" and ok: "tree_ok n (mview p) (rootID t)" and room: "leaf_room n (mview p) (rootID t) key val"
  obtains p' where "KV_Put (mem_env fuel) n (\<lambda>s. s) key val (t, p) = (None, t, p')" "ready fuel p'" "tree_ok n (mview p') (rootID t)"
    "tree_contents n (mview p') (rootID t) = (tree_contents n (mview p) (rootID t))(key \<mapsto> val)"
    "\<And>i. unat i < 2 ^ 48 \<Longrightarrow> leaf_of n (mview p) (rootID t) key \<noteq> Some i \<Longrightarrow> same_page i (mview p' i) (mview p i)"
    "\<And>i. leaf_of n (mview p) (rootID t) key = Some i \<Longrightarrow> leaf_data (mview p' i) \<and>
      length (enc_cells (data_cells (mview p' i))) \<le> length (enc_cells (data_cells (mview p i))) + (4 + length key + length val)"
proof -
  obtain p1 where I: "Insert (mem_env fuel) n (\<lambda>s. s) key val (t, p) = (None, t, p1)" "ready fuel p1" "tree_ok n (mview p1) (rootID t)"
    "tree_contents n (mview p1) (rootID t) = (tree_contents n (mview p) (rootID t))(key \<mapsto> val)"
    "\<And>i. unat i < 2 ^ 48 \<Longrightarrow> leaf_of n (mview p) (rootID t) key \<noteq> Some i \<Longrightarrow> same_page i (mview p1 i) (mview p i)"
    "\<And>i. leaf_of n (mview p) (rootID t) key = Some i \<Longrightarrow> leaf_data (mview p1 i) \<and>
      length (enc_cells (data_cells (mview p1 i))) \<le> length (enc_cells (data_cells (mview p i))) + (4 + length key + length val)"
    using Insert_total [OF p ok room] by metis
  obtain p2 where f: "FlushAll (mem_env fuel) p1 = (None, p2)" "ready fuel p2" "agree (mview p1) (mview p2)"
    by (rule ready_flush [OF I(2)])
  define p' where "p' = (if flushed_key key then p2 else p1)"
  have ag: "agree (mview p1) (mview p')" and r: "ready fuel p'" using f I(2) by (simp_all add: p'_def)
  have run: "KV_Put (mem_env fuel) n (\<lambda>s. s) key val (t, p) = (None, t, p')" using I(1) f by (simp add: KV_Put_def KV_Flush_def p'_def)
  show thesis
  proof (rule that [OF run r])
    show "tree_ok n (mview p') (rootID t)" using tree_agree [OF ag I(3)] by blast
    show "tree_contents n (mview p') (rootID t) = (tree_contents n (mview p) (rootID t))(key \<mapsto> val)"
      using contents_agree [OF ag I(3)] I(4) by simp
    show "same_page i (mview p' i) (mview p i)" if "unat i < 2 ^ 48" "leaf_of n (mview p) (rootID t) key \<noteq> Some i" for i
      using ag that(1) I(5) [OF that] same_page_trans [of i "mview p' i" "mview p1 i" "mview p i"] by (simp add: agree_def)
    show "leaf_data (mview p' i) \<and>
        length (enc_cells (data_cells (mview p' i))) \<le> length (enc_cells (data_cells (mview p i))) + (4 + length key + length val)" if "leaf_of n (mview p) (rootID t) key = Some i" for i
    proof -
      have "tree_id i" using tree_ok_leaf [OF ok, of key] that by simp
      then show ?thesis using I(6) [OF that] agreeD [OF ag] by simp
    qed
  qed
qed

lemma KV_Delete_total:
  assumes p: "ready fuel p" and ok: "tree_ok n (mview p) (rootID t)"
  obtains e p' where "KV_Delete (mem_env fuel) n (\<lambda>s. s) key (t, p) = (e, t, p')" "ready fuel p'" "tree_ok n (mview p') (rootID t)"
    "tree_contents n (mview p') (rootID t) = (tree_contents n (mview p) (rootID t))(key := None)"
    "e = (if tree_contents n (mview p) (rootID t) key = None then Some ErrKeyNotFound else None)"
    "\<And>i. unat i < 2 ^ 48 \<Longrightarrow> leaf_of n (mview p) (rootID t) key \<noteq> Some i \<Longrightarrow> same_page i (mview p' i) (mview p i)"
    "\<And>i. leaf_of n (mview p) (rootID t) key = Some i \<Longrightarrow> leaf_data (mview p' i)"
proof -
  obtain j k p1 where F: "FindLeaf (mem_env fuel) n t key p = (Inr (j, k), p1)" "tight pageMap p1" "length (frames p1) = length (frames p)" "checked mem_stored p1"
    and j: "leaf_of n (mview p) (rootID t) key = Some j" and m: "map_of (pageTable p1) j = Some k" "pins p1 = (\<lambda>_. 0)(j := 1)"
    and inv1: "pool_inv mem_stored lru_inv pageMap {} p1" and ag: "agree (mview p) (mview p1)"
    and lf: "leaf_data (mview p j)" and d: "frame_data p1 k = mview p j" and ic: "inner_clean p1"
    by (rule FindLeaf_total [OF p ok])
  let ?pg = "frames p1 ! k"
  obtain e pg where D: "leaf_Delete ?pg key = (e, pg)" by fastforce
  have lin: "leaf_inv ?pg" using lf d by (simp add: leaf_data_page)
  note L = leaf_del [OF lin D]
  have pg: "pgID pg = pgID ?pg" "pgPin pg = pgPin ?pg" "leaf_data (pgData pg)"
    "map_of (data_cells (pgData pg)) = (map_of (data_cells (frame_data p1 k)))(key := None)"
    using L by (simp_all add: same_frame_def leaf_data_page)
  have "pool_wf p1" using inv1 by (simp add: pool_inv_def)
  then have i: "pgID ?pg = j" using pool_wfD(2) [OF _ m(1)] by blast
  let ?p' = "UnpinPage j True (set_page k pg p1)"
  have run: "KV_Delete (mem_env fuel) n (\<lambda>s. s) key (t, p) = (e, t, ?p')"
    using F D i by (simp add: KV_Delete_def)
  note W = mp.leaf_store [OF ok ag j inv1 m pg]
  have e: "e = (if tree_contents n (mview p) (rootID t) key = None then Some ErrKeyNotFound else None)"
    using L j d by (simp add: tree_contents_def leaf_data_page)
  show thesis
  proof (rule that [OF run _ _ _ e])
    show "ready fuel ?p'"
      using W mp.leaf_modify(2) [OF inv1 m pg(1,2) leaf_dataD(2) [OF pg(3)]]
      by (intro ready_modify [OF p F(2-4) inv1 m(1) _ ic pg(3)]) blast+
    show "same_page i (mview ?p' i) (mview p i)" if "unat i < 2 ^ 48" "leaf_of n (mview p) (rootID t) key \<noteq> Some i" for i
      using W that j by simp
    show "leaf_data (mview ?p' i)" if "leaf_of n (mview p) (rootID t) key = Some i" for i
      using W that j pg(3) by simp
  qed (use W in blast)+
qed

section \<open>Property\<close>

text \<open>C1: on the in-memory engine with at least two frames, no page pinned and no internal node
  dirty (as after every flush, until a split), the store is total and acts on a tree
  of any height as on a finite map: \<open>Get\<close> returns the value bound to the key or \<open>key not found\<close>,
  \<open>Put\<close> of a pair whose leaf has room for it binds the key and nothing else, \<open>Delete\<close> unbinds
  it, or reports that it was not bound. Every call leaves the tree well formed, its internal
  nodes clean and no page pinned, whatever is evicted or flushed on the way. With a dirty
  internal node a descent may wait for itself, see \<open>descent_blocks\<close>.\<close>

theorem kv_operations_total:
  assumes "ready fuel p" and "tree_ok n (mview p) (rootID t)"
  defines "m \<equiv> tree_contents n (mview p) (rootID t)"
  shows "(\<exists>p'. KV_Get (mem_env fuel) n key (t, p) = (case m key of Some v \<Rightarrow> Inr v | None \<Rightarrow> Inl ErrKeyNotFound, t, p') \<and>
      ready fuel p' \<and> tree_ok n (mview p') (rootID t) \<and> tree_contents n (mview p') (rootID t) = m) \<and>
    (leaf_room n (mview p) (rootID t) key val \<longrightarrow>
      (\<exists>p'. KV_Put (mem_env fuel) n (\<lambda>s. s) key val (t, p) = (None, t, p') \<and>
        ready fuel p' \<and> tree_ok n (mview p') (rootID t) \<and> tree_contents n (mview p') (rootID t) = m(key \<mapsto> val))) \<and>
    (\<exists>p'. KV_Delete (mem_env fuel) n (\<lambda>s. s) key (t, p) = (if m key = None then Some ErrKeyNotFound else None, t, p') \<and>
      ready fuel p' \<and> tree_ok n (mview p') (rootID t) \<and> tree_contents n (mview p') (rootID t) = m(key := None))"
proof (intro conjI impI)
  obtain p' where "KV_Get (mem_env fuel) n key (t, p) = (case m key of Some v \<Rightarrow> Inr v | None \<Rightarrow> Inl ErrKeyNotFound, t, p')"
    "ready fuel p'" "agree (mview p) (mview p')"
    using KV_Get_total [OF assms(1,2), of key] unfolding m_def by blast
  then show "\<exists>p'. KV_Get (mem_env fuel) n key (t, p) = (case m key of Some v \<Rightarrow> Inr v | None \<Rightarrow> Inl ErrKeyNotFound, t, p') \<and>
      ready fuel p' \<and> tree_ok n (mview p') (rootID t) \<and> tree_contents n (mview p') (rootID t) = m"
    using tree_agree [OF _ assms(2)] contents_agree [OF _ assms(2)] unfolding m_def by blast
  show "\<exists>p'. KV_Delete (mem_env fuel) n (\<lambda>s. s) key (t, p) = (if m key = None then Some ErrKeyNotFound else None, t, p') \<and>
      ready fuel p' \<and> tree_ok n (mview p') (rootID t) \<and> tree_contents n (mview p') (rootID t) = m(key := None)"
    by (rule KV_Delete_total [OF assms(1,2), of key]) (use m_def in blast)
qed (use KV_Put_total [OF assms(1,2)] in \<open>unfold m_def, metis\<close>)

theorem kv_operations_total_witness:
  "\<exists>p'. KV_Put (mem_env 8) 4 (\<lambda>s. s) [2] [7] (\<lparr>rootID = 1002\<rparr>, one_leaf 2 [([1], [5])]) = (None, \<lparr>rootID = 1002\<rparr>, p') \<and>
     tree_contents 4 (mview p') 1002 = [[1] \<mapsto> [5], [2] \<mapsto> [7]]"
proof -
  let ?cs = "[([1], [5])] :: (bytes \<times> bytes) list" let ?t = "\<lparr>rootID = 1002\<rparr>"
  have c: "BTreeHeaderSize + length (enc_cells ?cs) \<le> PageSize" "sorted_cells ?cs" by (simp_all add: layout_defs)
  have n: "2 \<le> (2 :: nat)" "2 \<le> (8 :: nat)" by simp_all
  note R = one_leaf_ready [OF c n] and P = one_leaf_props [OF c, where n = 2]
  have room: "leaf_room 4 (mview (one_leaf 2 ?cs)) (rootID ?t) [2] [7]" using R(4) P(2) by (simp add: leaf_room_def layout_defs)
  show ?thesis using kv_operations_total [of 8 "one_leaf 2 ?cs" 4 ?t "[2]" "[7]"] R(1,2,3) room by auto
qed

end
