(* ===== verification/KVOps.thy ===== *)
theory KVOps
  imports KVStore
begin

text \<open>
  The interface \<open>KVStore\<close> of \<open>interfaces.go\<close> as a record of operations, the tree store of
  \<open>kv_store.go\<close> as an instance, and the contract its clients rely on as the locale
  \<open>store_side\<close>: what a store does to its own contents, and that it leaves everything else in
  the database alone. The contract is proved for the tree store on the in-memory engine:
  two trees in one pool do not disturb each other when they have no page in common, and no
  tree disturbs a slotted page.

  The handles of \<open>Begin\<close> carry no state and are left out; \<open>Put\<close> of the tree store ignores the
  time to live.
\<close>

section \<open>Stores as records of operations\<close>

record ('s, 'it) kv_ops =
  kvGet :: "bytes \<Rightarrow> 's \<Rightarrow> bytes result \<times> 's"
  kvPut :: "bytes \<Rightarrow> bytes \<Rightarrow> int \<Rightarrow> 's \<Rightarrow> error option \<times> 's"
  kvDelete :: "bytes \<Rightarrow> 's \<Rightarrow> error option \<times> 's"
  kvNewIterator :: "bytes \<Rightarrow> 's \<Rightarrow> 'it result \<times> 's"
  kvNext :: "'it \<Rightarrow> 's \<Rightarrow> (bytes \<times> bytes) result \<times> 'it \<times> 's"
  kvClose :: "'it \<Rightarrow> 's \<Rightarrow> error option \<times> 's"
  kvFlush :: "'s \<Rightarrow> error option \<times> 's"

definition on_tree :: "(btree \<times> ('d, 'e) pool \<Rightarrow> 'a \<times> btree \<times> ('d, 'e) pool) \<Rightarrow> btree \<times> ('d, 'e) db \<Rightarrow> 'a \<times> btree \<times> ('d, 'e) db" where
  "on_tree f = (\<lambda>(t, db). case f (t, bp db) of (a, t', p) \<Rightarrow> (a, t', db\<lparr>bp := p\<rparr>))"

definition on_pool :: "(('d, 'e) pool \<Rightarrow> 'a \<times> ('d, 'e) pool) \<Rightarrow> btree \<times> ('d, 'e) db \<Rightarrow> 'a \<times> btree \<times> ('d, 'e) db" where
  "on_pool f = (\<lambda>(t, db). case f (bp db) of (a, p) \<Rightarrow> (a, t, db\<lparr>bp := p\<rparr>))"

definition btree_ops ::
  "('d, 'e) env \<Rightarrow> nat \<Rightarrow> (btree \<times> ('d, 'e) pool \<Rightarrow> btree \<times> ('d, 'e) pool) \<Rightarrow> (btree \<times> ('d, 'e) db, kv_iter) kv_ops" where
  "btree_ops E n others =
     \<lparr>kvGet = (\<lambda>key. on_tree (KV_Get E n key)),
      kvPut = (\<lambda>key value ttl. on_tree (KV_Put E n others key value)),
      kvDelete = (\<lambda>key. on_tree (KV_Delete E n others key)),
      kvNewIterator = (\<lambda>prefix (t, db). on_pool (NewIterator E n t prefix) (t, db)),
      kvNext = (\<lambda>it (t, db). case Iter_Next E n it (bp db) of (r, it', p) \<Rightarrow> (r, it', t, db\<lparr>bp := p\<rparr>)),
      kvClose = (\<lambda>it. on_pool (Iter_Close it)),
      kvFlush = on_pool (KV_Flush E)\<rparr>"

text \<open>A store inside a larger state.\<close>

definition within_state :: "('t \<Rightarrow> 's) \<Rightarrow> ('s \<Rightarrow> 't \<Rightarrow> 't) \<Rightarrow> ('s, 'it) kv_ops \<Rightarrow> ('t, 'it) kv_ops" where
  "within_state get put S =
     \<lparr>kvGet = (\<lambda>key t. case kvGet S key (get t) of (r, s) \<Rightarrow> (r, put s t)),
      kvPut = (\<lambda>key value ttl t. case kvPut S key value ttl (get t) of (r, s) \<Rightarrow> (r, put s t)),
      kvDelete = (\<lambda>key t. case kvDelete S key (get t) of (r, s) \<Rightarrow> (r, put s t)),
      kvNewIterator = (\<lambda>prefix t. case kvNewIterator S prefix (get t) of (r, s) \<Rightarrow> (r, put s t)),
      kvNext = (\<lambda>it t. case kvNext S it (get t) of (r, it', s) \<Rightarrow> (r, it', put s t)),
      kvClose = (\<lambda>it t. case kvClose S it (get t) of (r, s) \<Rightarrow> (r, put s t)),
      kvFlush = (\<lambda>t. case kvFlush S (get t) of (r, s) \<Rightarrow> (r, put s t))\<rparr>"

text \<open>A call whose error is discarded: what follows runs unless the goroutine has ended.\<close>

definition ignoring :: "error option \<times> 's \<Rightarrow> ('s \<Rightarrow> 'a result \<times> 's) \<Rightarrow> 'a result \<times> 's" where
  "ignoring r k = (case r of (Some e, s) \<Rightarrow> if fatal e then (Inl e, s) else k s | (None, s) \<Rightarrow> k s)"

definition stopped :: "'a result \<Rightarrow> bool" where
  "stopped r \<longleftrightarrow> (case r of Inl e \<Rightarrow> fatal e | Inr _ \<Rightarrow> False)"

text \<open>A value that a wrapper accepts: found and not empty.\<close>

definition hit :: "bytes result \<Rightarrow> bytes option" where
  "hit r = (case r of Inl _ \<Rightarrow> None | Inr v \<Rightarrow> if v = [] then None else Some v)"

definition found :: "bytes option \<Rightarrow> bytes result" where
  "found m = (case m of Some v \<Rightarrow> Inr v | None \<Rightarrow> Inl ErrKeyNotFound)"

lemma ignoring_simps [simp]:
  "ignoring (None, s) k = k s" "\<not> fatal e \<Longrightarrow> ignoring (Some e, s) k = k s" "fatal e \<Longrightarrow> ignoring (Some e, s) k = (Inl e, s)"
  by (simp_all add: ignoring_def)

lemma fatal_simps [simp]: "\<not> fatal ErrKeyNotFound" "\<not> fatal ErrEOF" "fatal OutOfFuel" "fatal GoPanic" "fatal error.Blocked"
  by (simp_all add: fatal_def)

lemma stopped_simps [simp]: "stopped (Inl e) \<longleftrightarrow> fatal e" "\<not> stopped (Inr a)" "\<not> stopped (found m)"
  by (simp_all add: stopped_def found_def split: option.split)

lemma hit_simps [simp]: "hit (Inl e) = None" "hit (Inr v) = (if v = [] then None else Some v)" "hit (found None) = None"
  "hit (found (Some v)) = (if v = [] then None else Some v)"
  by (simp_all add: hit_def found_def)

text \<open>An empty value counts as none.\<close>

definition filled :: "bytes option \<Rightarrow> bytes option" where
  "filled m = (if m = Some [] then None else m)"

lemma found_simps: "found None = Inl ErrKeyNotFound" "found (Some v) = Inr v"
  by (simp_all add: found_def)

lemma hit_found: "hit (found m) = filled m"
  by (cases m) (auto simp: filled_def)

lemma filled_simps [simp]: "filled None = None" "filled (Some []) = None" "v \<noteq> [] \<Longrightarrow> filled (Some v) = Some v"
  "filled (Some (b # bs)) = Some (b # bs)"
  by (simp_all add: filled_def)

lemma filled_Some: "filled m = Some v \<longleftrightarrow> m = Some v \<and> v \<noteq> []"
  by (auto simp: filled_def)

section \<open>The contract\<close>

locale store_side =
  fixes S :: "('s, 'it) kv_ops"
    and inv :: "'s \<Rightarrow> bool"
    and mine :: "'s \<Rightarrow> bytes \<rightharpoonup> bytes"
    and rest :: "'s \<Rightarrow> 'o"
    and room :: "'s \<Rightarrow> bytes \<Rightarrow> bytes \<Rightarrow> bool"
  assumes get_law: "inv s \<Longrightarrow> \<exists>s'. kvGet S k s = (found (mine s k), s') \<and>
      inv s' \<and> mine s' = mine s \<and> rest s' = rest s \<and> room s' = room s"
    and put_law: "inv s \<Longrightarrow> room s k v \<Longrightarrow> \<exists>s'. kvPut S k v ttl s = (None, s') \<and>
      inv s' \<and> mine s' = (mine s)(k \<mapsto> v) \<and> rest s' = rest s"
    and delete_law: "inv s \<Longrightarrow> \<exists>s'. kvDelete S k s = (if mine s k = None then Some ErrKeyNotFound else None, s') \<and>
      inv s' \<and> mine s' = (mine s)(k := None) \<and> rest s' = rest s"
    and flush_law: "inv s \<Longrightarrow> \<exists>s'. kvFlush S s = (None, s') \<and>
      inv s' \<and> mine s' = mine s \<and> rest s' = rest s \<and> room s' = room s"
begin

lemma getE:
  assumes "inv s"
  obtains s' where "kvGet S k s = (found (mine s k), s')" "inv s'" "mine s' = mine s" "rest s' = rest s" "room s' = room s"
  using get_law [OF assms] by blast

lemma putE:
  assumes "inv s" "room s k v"
  obtains s' where "kvPut S k v ttl s = (None, s')" "inv s'" "mine s' = (mine s)(k \<mapsto> v)" "rest s' = rest s"
  using put_law [OF assms] by blast

lemma deleteE:
  assumes "inv s"
  obtains s' where "kvDelete S k s = (if mine s k = None then Some ErrKeyNotFound else None, s')" "inv s'"
    "mine s' = (mine s)(k := None)" "rest s' = rest s"
  using delete_law [OF assms] by blast

lemma flushE:
  assumes "inv s"
  obtains s' where "kvFlush S s = (None, s')" "inv s'" "mine s' = mine s" "rest s' = rest s" "room s' = room s"
  using flush_law [OF assms] by blast

text \<open>A pair that was put is there for the next lookup, a deleted one is not.\<close>

lemma put_then_get:
  assumes "inv s" "room s k v"
  obtains s1 s2 where "kvPut S k v ttl s = (None, s1)" "kvGet S k s1 = (Inr v, s2)" "inv s2" "mine s2 = (mine s)(k \<mapsto> v)"
  by (metis assms putE getE found_def fun_upd_same option.simps(5))

end

section \<open>The pages of a tree\<close>

fun tree_pages :: "nat \<Rightarrow> (PageID \<Rightarrow> bytes) \<Rightarrow> PageID \<Rightarrow> PageID set" where
  "tree_pages 0 V i = {i}"
| "tree_pages (Suc n) V i =
     insert i (if PageType (V i) = PageTypeInternal then \<Union>k. tree_pages n V (findChildInInternalNode (V i) k) else {})"

lemma tree_pages_root [simp]: "i \<in> tree_pages n V i"
  by (cases n) simp_all

lemma leaf_of_pages: "leaf_of n V i k = Some j \<Longrightarrow> j \<in> tree_pages n V i"
  by (induction n arbitrary: i) (auto split: if_splits)

lemma tree_pages_id: "tree_ok n V i \<Longrightarrow> j \<in> tree_pages n V i \<Longrightarrow> tree_id j"
  by (induction n arbitrary: i) (auto split: if_splits)

text \<open>A tree depends on its own pages only.\<close>

lemma tree_cong:
  assumes "\<And>j. j \<in> tree_pages n V i \<Longrightarrow> V' j = V j"
  shows "tree_ok n V' i = tree_ok n V i" "leaf_of n V' i k = leaf_of n V i k" "tree_pages n V' i = tree_pages n V i"
  using assms
proof (induction n arbitrary: i)
  case (Suc n)
  {
    case 1
    have i: "V' i = V i" using 1 by simp
    have "tree_ok n V' (findChildInInternalNode (V i) k) = tree_ok n V (findChildInInternalNode (V i) k)"
      if "PageType (V i) = PageTypeInternal" for k
      using that by (intro Suc.IH(1) 1) auto
    then show ?case by (auto simp: i)
  next
    case 2
    have i: "V' i = V i" using 2 by simp
    have "leaf_of n V' (findChildInInternalNode (V i) k) k = leaf_of n V (findChildInInternalNode (V i) k) k"
      if "PageType (V i) = PageTypeInternal"
      using that by (intro Suc.IH(2) 2) auto
    then show ?case by (simp add: i)
  next
    case 3
    have i: "V' i = V i" using 3 by simp
    have "tree_pages n V' (findChildInInternalNode (V i) k) = tree_pages n V (findChildInInternalNode (V i) k)"
      if "PageType (V i) = PageTypeInternal" for k
      using that by (intro Suc.IH(3) 3) auto
    then show ?case by (simp add: i)
  }
qed simp_all

lemma contents_cong:
  assumes "\<And>j. j \<in> tree_pages n V i \<Longrightarrow> V' j = V j"
  shows "tree_contents n V' i = tree_contents n V i" "leaf_room n V' i = leaf_room n V i"
  using assms tree_cong(2) [of n V i V'] leaf_of_pages [of n V i]
  by (auto simp: tree_contents_def leaf_room_def fun_eq_iff split: option.splits)

lemma spare_cong:
  assumes "\<And>j. j \<in> tree_pages n V i \<Longrightarrow> V' j = V j"
  shows "spare n V' i m = spare n V i m"
  using assms tree_cong(2) [of n V i V'] leaf_of_pages [of n V i] by (fastforce simp: spare_def)

text \<open>Replacing a leaf by a leaf changes no page set.\<close>

lemma tree_pages_update:
  "leaf_data (V j) \<Longrightarrow> leaf_data d \<Longrightarrow> tree_pages n (V(j := d)) i = tree_pages n V i"
  by (induction n arbitrary: i) auto

section \<open>The tree store on the in-memory engine\<close>

abbreviation mem_ops :: "nat \<Rightarrow> nat \<Rightarrow> (btree \<times> (bytes, lru) db, kv_iter) kv_ops" where
  "mem_ops fuel n \<equiv> btree_ops (mem_env fuel) n (\<lambda>s. s)"

abbreviation db_view :: "(bytes, lru) db \<Rightarrow> PageID \<Rightarrow> bytes" where
  "db_view db \<equiv> mview (bp db)"

definition tree_db :: "nat \<Rightarrow> nat \<Rightarrow> btree \<Rightarrow> (bytes, lru) db \<Rightarrow> bool" where
  "tree_db fuel n t db \<longleftrightarrow> ready fuel (bp db) \<and> tree_ok n (db_view db) (rootID t)"

definition db_contents :: "nat \<Rightarrow> btree \<Rightarrow> (bytes, lru) db \<Rightarrow> bytes \<rightharpoonup> bytes" where
  "db_contents n t db = tree_contents n (db_view db) (rootID t)"

definition db_room :: "nat \<Rightarrow> btree \<Rightarrow> (bytes, lru) db \<Rightarrow> bytes \<Rightarrow> bytes \<Rightarrow> bool" where
  "db_room n t db = leaf_room n (db_view db) (rootID t)"

definition db_pages :: "nat \<Rightarrow> btree \<Rightarrow> (bytes, lru) db \<Rightarrow> PageID set" where
  "db_pages n t db = tree_pages n (db_view db) (rootID t)"

definition db_spare :: "nat \<Rightarrow> btree \<Rightarrow> (bytes, lru) db \<Rightarrow> nat \<Rightarrow> bool" where
  "db_spare n t db = spare n (db_view db) (rootID t)"

lemma frame_but_tree: "frame_but mem_stored X db db' \<Longrightarrow> tree_id j \<Longrightarrow> j \<notin> X \<Longrightarrow> db_view db' j = db_view db j"
  by (simp add: frame_but_def tree_id_def same_page_def)

text \<open>A tree is as before when none of its pages was touched.\<close>

lemma tree_frame:
  assumes "tree_db fuel n t db" "frame_but mem_stored X db db'" "X \<inter> db_pages n t db = {}"
  shows "tree_ok n (db_view db') (rootID t)" "db_contents n t db' = db_contents n t db" "db_room n t db' = db_room n t db"
    "db_pages n t db' = db_pages n t db" "db_spare n t db' = db_spare n t db"
proof -
  have ok: "tree_ok n (db_view db) (rootID t)" using assms(1) by (simp add: tree_db_def)
  have "db_view db' j = db_view db j" if "j \<in> tree_pages n (db_view db) (rootID t)" for j
    using frame_but_tree [OF assms(2) tree_pages_id [OF ok that]] assms(3) that by (auto simp: db_pages_def)
  note C = tree_cong [OF this] contents_cong [OF this] spare_cong [OF this]
  show "tree_ok n (db_view db') (rootID t)" "db_contents n t db' = db_contents n t db" "db_room n t db' = db_room n t db"
    "db_pages n t db' = db_pages n t db" "db_spare n t db' = db_spare n t db"
    using C ok by (simp_all add: db_contents_def db_room_def db_pages_def db_spare_def fun_eq_iff)
qed

lemma bp_update_frame:
  assumes "\<And>j. unat j < 2 ^ 48 \<Longrightarrow> j \<notin> X \<Longrightarrow> same_page j (mview p j) (db_view db j)"
  shows "frame_but mem_stored X db (db\<lparr>bp := p\<rparr>)"
  using assms by (simp add: frame_but_def)

lemma tree_get:
  assumes "tree_db fuel n t db"
  obtains db' where "kvGet (mem_ops fuel n) k (t, db) = (found (db_contents n t db k), t, db')" "tree_db fuel n t db'"
    "frame_but mem_stored {} db db'"
proof -
  have r: "ready fuel (bp db)" "tree_ok n (db_view db) (rootID t)" using assms by (simp_all add: tree_db_def)
  obtain p where p: "KV_Get (mem_env fuel) n k (t, bp db) = (found (db_contents n t db k), t, p)" "ready fuel p" "agree (db_view db) (mview p)"
    using KV_Get_total [OF r, of k] by (auto simp: db_contents_def found_def)
  show thesis
  proof (rule that)
    show "kvGet (mem_ops fuel n) k (t, db) = (found (db_contents n t db k), t, db\<lparr>bp := p\<rparr>)"
      using p(1) by (simp add: btree_ops_def on_tree_def)
    show "tree_db fuel n t (db\<lparr>bp := p\<rparr>)" using p(2) tree_agree [OF p(3) r(2)] by (simp add: tree_db_def)
    show "frame_but mem_stored {} db (db\<lparr>bp := p\<rparr>)" using p(3) by (intro bp_update_frame) (simp add: agree_def)
  qed
qed

lemma tree_flush:
  assumes "tree_db fuel n t db"
  obtains db' where "kvFlush (mem_ops fuel n) (t, db) = (None, t, db')" "tree_db fuel n t db'" "frame_but mem_stored {} db db'"
proof -
  have r: "ready fuel (bp db)" "tree_ok n (db_view db) (rootID t)" using assms by (simp_all add: tree_db_def)
  obtain p where p: "FlushAll (mem_env fuel) (bp db) = (None, p)" "ready fuel p" "agree (db_view db) (mview p)"
    by (rule ready_flush [OF r(1)])
  show thesis
  proof (rule that)
    show "kvFlush (mem_ops fuel n) (t, db) = (None, t, db\<lparr>bp := p\<rparr>)"
      using p(1) by (simp add: btree_ops_def on_pool_def KV_Flush_def)
    show "tree_db fuel n t (db\<lparr>bp := p\<rparr>)" using p(2) tree_agree [OF p(3) r(2)] by (simp add: tree_db_def)
    show "frame_but mem_stored {} db (db\<lparr>bp := p\<rparr>)" using p(3) by (intro bp_update_frame) (simp add: agree_def)
  qed
qed

text \<open>A change of one leaf: the pages of the tree stay the same set.\<close>

lemma tree_leaf_changed:
  assumes ok: "tree_db fuel n t db" and j: "leaf_of n (db_view db) (rootID t) k = Some j" and d: "leaf_data (mview p j)"
    and fr: "\<And>i. unat i < 2 ^ 48 \<Longrightarrow> leaf_of n (db_view db) (rootID t) k \<noteq> Some i \<Longrightarrow> same_page i (mview p i) (db_view db i)"
  shows "frame_but mem_stored {j} db (db\<lparr>bp := p\<rparr>)" "j \<in> db_pages n t db" "db_pages n t (db\<lparr>bp := p\<rparr>) = db_pages n t db"
proof -
  have t: "tree_ok n (db_view db) (rootID t)" using ok by (simp add: tree_db_def)
  have lf: "leaf_data (db_view db j)" using tree_ok_leaf [OF t, of k] j by simp
  show f: "frame_but mem_stored {j} db (db\<lparr>bp := p\<rparr>)" using fr j by (intro bp_update_frame) auto
  show "j \<in> db_pages n t db" using leaf_of_pages [OF j] by (simp add: db_pages_def)
  let ?V = "(db_view db)(j := mview p j)"
  have s: "tree_pages n ?V (rootID t) = tree_pages n (db_view db) (rootID t)" using lf d by (intro tree_pages_update)
  have "mview p i = ?V i" if "i \<in> tree_pages n ?V (rootID t)" for i
    using that tree_pages_id [OF t, of i] frame_but_tree [OF f, of i] by (auto simp: s)
  then have "tree_pages n (mview p) (rootID t) = tree_pages n ?V (rootID t)" by (intro tree_cong(3))
  with s show "db_pages n t (db\<lparr>bp := p\<rparr>) = db_pages n t db" by (simp add: db_pages_def)
qed

lemma tree_put:
  assumes "tree_db fuel n t db" "db_room n t db k v"
  obtains db' j where "kvPut (mem_ops fuel n) k v ttl (t, db) = (None, t, db')" "tree_db fuel n t db'"
    "db_contents n t db' = (db_contents n t db)(k \<mapsto> v)"
    "frame_but mem_stored {j} db db'" "j \<in> db_pages n t db" "db_pages n t db' = db_pages n t db"
    "\<And>m. db_spare n t db (4 + length k + length v + m) \<Longrightarrow> db_spare n t db' m"
proof -
  have r: "ready fuel (bp db)" "tree_ok n (db_view db) (rootID t)" using assms(1) by (simp_all add: tree_db_def)
  obtain j where j: "leaf_of n (db_view db) (rootID t) k = Some j" using tree_ok_leaf [OF r(2)] by blast
  show thesis
  proof (rule KV_Put_total [OF r assms(2) [unfolded db_room_def]])
    fix p
    assume p: "KV_Put (mem_env fuel) n (\<lambda>s. s) k v (t, bp db) = (None, t, p)" "ready fuel p" "tree_ok n (mview p) (rootID t)"
      "tree_contents n (mview p) (rootID t) = (tree_contents n (db_view db) (rootID t))(k \<mapsto> v)"
      "\<And>i. unat i < 2 ^ 48 \<Longrightarrow> leaf_of n (db_view db) (rootID t) k \<noteq> Some i \<Longrightarrow> same_page i (mview p i) (db_view db i)"
      "\<And>i. leaf_of n (db_view db) (rootID t) k = Some i \<Longrightarrow> leaf_data (mview p i) \<and>
        length (enc_cells (data_cells (mview p i))) \<le> length (enc_cells (data_cells (db_view db i))) + (4 + length k + length v)"
    have d: "leaf_data (mview p j)" "length (enc_cells (data_cells (mview p j))) \<le> length (enc_cells (data_cells (db_view db j))) + (4 + length k + length v)"
      using p(6) [OF j] by simp_all
    note L = tree_leaf_changed [OF assms(1) j d(1) p(5)]
    have lf: "leaf_data (db_view db j)" using tree_ok_leaf [OF r(2), of k] j by simp
    show thesis
    proof (rule that [OF _ _ _ L])
      show "db_spare n t (db\<lparr>bp := p\<rparr>) m" if "db_spare n t db (4 + length k + length v + m)" for m
      proof -
        have s: "spare n ((db_view db)(j := mview p j)) (rootID t) m"
          using that spare_update [where V = "db_view db" and j = j, OF _ r(2) lf d] by (simp add: db_spare_def)
        have "mview p i = ((db_view db)(j := mview p j)) i" if "i \<in> tree_pages n ((db_view db)(j := mview p j)) (rootID t)" for i
          using that tree_pages_update [of "db_view db" j, OF lf d(1), of n "rootID t"] tree_pages_id [OF r(2), of i] frame_but_tree [OF L(1), of i] by auto
        then have "spare n (mview p) (rootID t) m" using s by (subst spare_cong)
        then show ?thesis by (simp add: db_spare_def)
      qed
      show "kvPut (mem_ops fuel n) k v ttl (t, db) = (None, t, db\<lparr>bp := p\<rparr>)" using p(1) by (simp add: btree_ops_def on_tree_def)
    qed (use p(2-4) in \<open>simp_all add: tree_db_def db_contents_def\<close>)
  qed
qed

lemma tree_delete:
  assumes "tree_db fuel n t db"
  obtains db' j where "kvDelete (mem_ops fuel n) k (t, db) = (if db_contents n t db k = None then Some ErrKeyNotFound else None, t, db')"
    "tree_db fuel n t db'" "db_contents n t db' = (db_contents n t db)(k := None)"
    "frame_but mem_stored {j} db db'" "j \<in> db_pages n t db" "db_pages n t db' = db_pages n t db"
proof -
  have r: "ready fuel (bp db)" "tree_ok n (db_view db) (rootID t)" using assms(1) by (simp_all add: tree_db_def)
  obtain j where j: "leaf_of n (db_view db) (rootID t) k = Some j" using tree_ok_leaf [OF r(2)] by blast
  show thesis
  proof (rule KV_Delete_total [OF r, of k])
    fix e p
    assume p: "KV_Delete (mem_env fuel) n (\<lambda>s. s) k (t, bp db) = (e, t, p)" "ready fuel p" "tree_ok n (mview p) (rootID t)"
      "tree_contents n (mview p) (rootID t) = (tree_contents n (db_view db) (rootID t))(k := None)"
      "e = (if tree_contents n (db_view db) (rootID t) k = None then Some ErrKeyNotFound else None)"
      "\<And>i. unat i < 2 ^ 48 \<Longrightarrow> leaf_of n (db_view db) (rootID t) k \<noteq> Some i \<Longrightarrow> same_page i (mview p i) (db_view db i)"
      "\<And>i. leaf_of n (db_view db) (rootID t) k = Some i \<Longrightarrow> leaf_data (mview p i)"
    note L = tree_leaf_changed [OF assms j p(7) [OF j] p(6)]
    show thesis
    proof (rule that [OF _ _ _ L])
      show "kvDelete (mem_ops fuel n) k (t, db) = (if db_contents n t db k = None then Some ErrKeyNotFound else None, t, db\<lparr>bp := p\<rparr>)"
        using p(1,5) by (simp add: btree_ops_def on_tree_def db_contents_def)
    qed (use p(2-4) in \<open>simp_all add: tree_db_def db_contents_def\<close>)
  qed
qed

end
