(* ===== verification/Replica.thy ===== *)
theory Replica
  imports KVOps
begin

text \<open>
  The replicating store of \<open>kv_replica.go\<close>: keys of durable identities are written to a second
  tree and to a mirror file, and a lookup that misses in the primary tree falls back to the
  copies and writes the value back.

  The two trees are stores of one state, given by their operations. The file system, the JSON
  encoding of the mirror and \<open>filepath.Dir\<close> are arguments; what the properties need of them is the
  predicate \<open>mirror_ok\<close>. Text around an error (\<open>fmt.Errorf("...: %w", err)\<close>) is not modelled.
\<close>

section \<open>State and environment\<close>

definition IdentityReplicaRootPageID :: PageID where
  "IdentityReplicaRootPageID = 1016"

record 'f file_ops =
  fsReadFile :: "string \<Rightarrow> 'f \<Rightarrow> bytes result"
  fsMkdirAll :: "string \<Rightarrow> 'f \<Rightarrow> error option \<times> 'f"
  fsWriteFile :: "string \<Rightarrow> bytes \<Rightarrow> 'f \<Rightarrow> error option \<times> 'f"
  fsRename :: "string \<Rightarrow> string \<Rightarrow> 'f \<Rightarrow> error option \<times> 'f"
  fsRemove :: "string \<Rightarrow> 'f \<Rightarrow> error option \<times> 'f"

record identityMirrorFile =
  mfVersion :: int
  mfUpdatedAt :: int
  mfKeys :: "(bytes \<times> bytes) list option"

record 'f mirror_env =
  meFiles :: "'f file_ops"
  meDir :: "string \<Rightarrow> string"
  meMarshal :: "identityMirrorFile \<Rightarrow> bytes result"
  meUnmarshal :: "bytes \<Rightarrow> identityMirrorFile result"
  meClock :: int

record ('s, 'it, 'f) ReplicatingKVStore =
  rsPrimary :: "('s, 'it) kv_ops"
  rsReplica :: "('s, 'it) kv_ops"
  mirrorPath :: string
  rsMirror :: "'f mirror_env"

text \<open>The device has a path when it is an \<open>OSFileDevice\<close>.\<close>

definition identityMirrorPath :: "string option \<Rightarrow> string" where
  "identityMirrorPath devPath =
     (case devPath of None \<Rightarrow> '''' | Some path \<Rightarrow> if path = '''' then '''' else path @ ''.identity.json'')"

section \<open>The mirror file\<close>

definition mirrorLoad :: "('s, 'it, 'f) ReplicatingKVStore \<Rightarrow> 'f \<Rightarrow> (bytes \<times> bytes) list option" where
  "mirrorLoad X fs =
     (if mirrorPath X = '''' then None
      else case fsReadFile (meFiles (rsMirror X)) (mirrorPath X) fs of
             Inl _ \<Rightarrow> None
           | Inr raw \<Rightarrow>
               if raw = [] then None
               else (case meUnmarshal (rsMirror X) raw of Inl _ \<Rightarrow> None | Inr doc \<Rightarrow> mfKeys doc))"

definition mirrorGet :: "('s, 'it, 'f) ReplicatingKVStore \<Rightarrow> bytes \<Rightarrow> 'f \<Rightarrow> bytes option" where
  "mirrorGet X key fs =
     (case mirrorLoad X fs of
        None \<Rightarrow> None
      | Some m \<Rightarrow> (case map_of m key of None \<Rightarrow> None | Some v \<Rightarrow> if v = [] then None else Some v))"

definition mirrorSave :: "('s, 'it, 'f) ReplicatingKVStore \<Rightarrow> (bytes \<times> bytes) list \<Rightarrow> 'f \<Rightarrow> 'f" where
  "mirrorSave X keys fs =
     (let path = mirrorPath X; F = meFiles (rsMirror X); tmp = path @ ''.tmp'';
          doc = \<lparr>mfVersion = 1, mfUpdatedAt = meClock (rsMirror X), mfKeys = Some keys\<rparr>
      in if path = '''' then fs
         else case meMarshal (rsMirror X) doc of
                Inl _ \<Rightarrow> fs
              | Inr raw \<Rightarrow>
                  (case fsMkdirAll F (meDir (rsMirror X) path) fs of
                     (Some _, fs1) \<Rightarrow> fs1
                   | (None, fs1) \<Rightarrow>
                       (case fsWriteFile F tmp raw fs1 of
                          (Some _, fs2) \<Rightarrow> fs2
                        | (None, fs2) \<Rightarrow>
                            (case fsRename F tmp path fs2 of
                               (None, fs3) \<Rightarrow> fs3
                             | (Some _, fs3) \<Rightarrow> snd (fsRename F tmp path (snd (fsRemove F path fs3)))))))"

definition mirrorPut :: "('s, 'it, 'f) ReplicatingKVStore \<Rightarrow> bytes \<Rightarrow> bytes \<Rightarrow> 'f \<Rightarrow> 'f" where
  "mirrorPut X key value fs =
     (if mirrorPath X = '''' \<or> value = [] then fs
      else mirrorSave X (AList.update key value (case mirrorLoad X fs of None \<Rightarrow> [] | Some m \<Rightarrow> m)) fs)"

definition mirrorDelete :: "('s, 'it, 'f) ReplicatingKVStore \<Rightarrow> bytes \<Rightarrow> 'f \<Rightarrow> 'f" where
  "mirrorDelete X key fs =
     (if mirrorPath X = '''' then fs
      else case mirrorLoad X fs of None \<Rightarrow> fs | Some m \<Rightarrow> mirrorSave X (AList.delete key m) fs)"

section \<open>The store operations\<close>

definition on_kv :: "('s \<Rightarrow> 'a \<times> 's) \<Rightarrow> 's \<times> 'f \<Rightarrow> 'a \<times> 's \<times> 'f" where
  "on_kv f = (\<lambda>(s, fs). case f s of (a, s') \<Rightarrow> (a, s', fs))"

text \<open>The part of \<open>Get\<close> behind a miss in the primary tree, whose answer is \<open>r\<close>.\<close>

definition get_fallback ::
  "('s, 'it, 'f) ReplicatingKVStore \<Rightarrow> bytes \<Rightarrow> bytes result \<Rightarrow> 's \<times> 'f \<Rightarrow> bytes result \<times> 's \<times> 'f" where
  "get_fallback X key r st =
     (let P = rsPrimary X; R = rsReplica X; (rr, st1) = on_kv (kvGet R key) st
      in if stopped rr then (rr, st1)
         else case hit rr of
                Some repVal \<Rightarrow>
                  ignoring (on_kv (kvPut P key repVal 0) st1) (\<lambda>st2.
                  ignoring (on_kv (kvFlush P) st2) (\<lambda>st3. (Inr repVal, st3)))
              | None \<Rightarrow>
                  (case mirrorGet X key (snd st1) of
                     Some mirVal \<Rightarrow>
                       ignoring (on_kv (kvPut P key mirVal 0) st1) (\<lambda>st2.
                       ignoring (on_kv (kvPut R key mirVal 0) st2) (\<lambda>st3.
                       ignoring (on_kv (kvFlush P) st3) (\<lambda>st4.
                       ignoring (on_kv (kvFlush R) st4) (\<lambda>st5. (Inr mirVal, st5)))))
                   | None \<Rightarrow> (case r of Inl err \<Rightarrow> Inl err | Inr _ \<Rightarrow> Inl ErrKeyNotFound, st1)))"

definition R_Get :: "('s, 'it, 'f) ReplicatingKVStore \<Rightarrow> bytes \<Rightarrow> 's \<times> 'f \<Rightarrow> bytes result \<times> 's \<times> 'f" where
  "R_Get X key st =
     (let (r, st1) = on_kv (kvGet (rsPrimary X) key) st
      in if stopped r \<or> hit r \<noteq> None then (r, st1)
         else if \<not> isDurableIdentityKey key then (case r of Inl err \<Rightarrow> Inl err | Inr _ \<Rightarrow> Inr [], st1)
         else get_fallback X key r st1)"

definition R_Put :: "('s, 'it, 'f) ReplicatingKVStore \<Rightarrow> bytes \<Rightarrow> bytes \<Rightarrow> int \<Rightarrow> 's \<times> 'f \<Rightarrow> error option \<times> 's \<times> 'f" where
  "R_Put X key value ttl st =
     (case on_kv (kvPut (rsPrimary X) key value ttl) st of
        (Some e, st1) \<Rightarrow> (Some e, st1)
      | (None, st1) \<Rightarrow>
          if \<not> isDurableIdentityKey key \<or> value = [] then (None, st1)
          else case on_kv (kvPut (rsReplica X) key value 0) st1 of
                 (Some e, st2) \<Rightarrow> (Some e, st2)
               | (None, st2) \<Rightarrow>
                   (case on_kv (kvFlush (rsReplica X)) st2 of
                      (Some e, st3) \<Rightarrow> (Some e, st3)
                    | (None, (s, fs)) \<Rightarrow> (None, s, mirrorPut X key value fs)))"

definition R_Delete :: "('s, 'it, 'f) ReplicatingKVStore \<Rightarrow> bytes \<Rightarrow> 's \<times> 'f \<Rightarrow> error option \<times> 's \<times> 'f" where
  "R_Delete X key st =
     (case on_kv (kvDelete (rsPrimary X) key) st of
        (e, st1) \<Rightarrow>
          if (case e of Some x \<Rightarrow> fatal x | None \<Rightarrow> False) \<or> \<not> isDurableIdentityKey key then (e, st1)
          else case ignoring (on_kv (kvDelete (rsReplica X) key) st1) (\<lambda>st2.
                    ignoring (on_kv (kvFlush (rsReplica X)) st2) (\<lambda>(s, fs). (Inr (), s, mirrorDelete X key fs))) of
                 (Inl x, st2) \<Rightarrow> (Some x, st2)
               | (Inr _, st2) \<Rightarrow> (e, st2))"

definition R_NewIterator :: "('s, 'it, 'f) ReplicatingKVStore \<Rightarrow> bytes \<Rightarrow> 's \<times> 'f \<Rightarrow> 'it result \<times> 's \<times> 'f" where
  "R_NewIterator X prefix = on_kv (kvNewIterator (rsPrimary X) prefix)"

definition R_Flush :: "('s, 'it, 'f) ReplicatingKVStore \<Rightarrow> 's \<times> 'f \<Rightarrow> error option \<times> 's \<times> 'f" where
  "R_Flush X st =
     (case on_kv (kvFlush (rsPrimary X)) st of
        (Some e, st1) \<Rightarrow> (Some e, st1)
      | (None, st1) \<Rightarrow> on_kv (kvFlush (rsReplica X)) st1)"

section \<open>Rehydration\<close>

text \<open>The longer value wins; of two values of one length the first.\<close>

definition keep_longer :: "bytes \<Rightarrow> bytes \<Rightarrow> (bytes \<times> bytes) list \<Rightarrow> (bytes \<times> bytes) list" where
  "keep_longer k v out =
     (case map_of out k of
        None \<Rightarrow> AList.update k v out
      | Some existing \<Rightarrow> if length existing < length v then AList.update k v out else out)"

fun scan_prefix ::
  "('s, 'it) kv_ops \<Rightarrow> nat \<Rightarrow> 'it \<Rightarrow> (bytes \<times> bytes) list \<Rightarrow> 's \<Rightarrow> (bytes \<times> bytes) list result \<times> 'it \<times> 's" where
  "scan_prefix S 0 it out s = (Inl OutOfFuel, it, s)"
| "scan_prefix S (Suc m) it out s =
     (case kvNext S it s of
        (Inl e, it1, s1) \<Rightarrow> (if fatal e then Inl e else Inr out, it1, s1)
      | (Inr (k, v), it1, s1) \<Rightarrow>
          if v = [] then (Inr out, it1, s1)
          else if \<not> isDurableIdentityKey k then scan_prefix S m it1 out s1
          else scan_prefix S m it1 (keep_longer k v out) s1)"

definition durable_prefixes :: "bytes list" where
  "durable_prefixes = map bytes_of [''data:user:'', ''data:oidc_'', ''data:client:'', ''data:oidc_master_key'']"

fun scan_prefixes ::
  "('s, 'it) kv_ops \<Rightarrow> nat \<Rightarrow> bytes list \<Rightarrow> (bytes \<times> bytes) list \<Rightarrow> 's \<Rightarrow> (bytes \<times> bytes) list result \<times> 's" where
  "scan_prefixes S m [] out s = (Inr out, s)"
| "scan_prefixes S m (prefix # rest) out s =
     (case kvNewIterator S prefix s of
        (Inl e, s1) \<Rightarrow> (Inl e, s1)
      | (Inr it, s1) \<Rightarrow>
          (case scan_prefix S m it out s1 of
             (Inl e, _, s2) \<Rightarrow> (Inl e, s2)
           | (Inr out1, it1, s2) \<Rightarrow>
               (case kvClose S it1 s2 of
                  (Some e, s3) \<Rightarrow> (Inl e, s3)
                | (None, s3) \<Rightarrow> scan_prefixes S m rest out1 s3)))"

definition scanDurable ::
  "('s, 'it) kv_ops \<Rightarrow> nat \<Rightarrow> (bytes \<times> bytes) list \<Rightarrow> 's \<Rightarrow> (bytes \<times> bytes) list result \<times> 's" where
  "scanDurable S m out s = scan_prefixes S m durable_prefixes out s"

definition ensurePresent :: "('s, 'it) kv_ops \<Rightarrow> bytes \<Rightarrow> bytes \<Rightarrow> 's \<Rightarrow> bool result \<times> 's" where
  "ensurePresent S key val s =
     (let (r, s1) = kvGet S key s
      in if stopped r then (Inl (projl r), s1)
         else if (case hit r of None \<Rightarrow> False | Some existing \<Rightarrow> length val \<le> length existing) then (Inr False, s1)
         else case kvPut S key val 0 s1 of
                (Some e, s2) \<Rightarrow> (if fatal e then Inl e else Inr False, s2)
              | (None, s2) \<Rightarrow> (Inr True, s2))"

fun ensure_all ::
  "('s, 'it) kv_ops \<Rightarrow> ('s, 'it) kv_ops \<Rightarrow> (bytes \<times> bytes) list \<Rightarrow> nat \<Rightarrow> 's \<Rightarrow> nat result \<times> 's" where
  "ensure_all P R [] restored s = (Inr restored, s)"
| "ensure_all P R ((key, v) # rest) restored s =
     (case ensurePresent P key v s of
        (Inl e, s1) \<Rightarrow> (Inl e, s1)
      | (Inr b1, s1) \<Rightarrow>
          (case ensurePresent R key v s1 of
             (Inl e, s2) \<Rightarrow> (Inl e, s2)
           | (Inr b2, s2) \<Rightarrow> ensure_all P R rest (restored + (if b1 then 1 else 0) + (if b2 then 1 else 0)) s2))"

text \<open>\<open>range\<close> visits the mirror and the merged keys in any order.\<close>

definition rehydrate ::
  "('s, 'it, 'f) ReplicatingKVStore \<Rightarrow> nat \<Rightarrow> ((bytes \<times> bytes) list \<Rightarrow> (bytes \<times> bytes) list) \<Rightarrow> 's \<times> 'f \<Rightarrow> nat result \<times> 's \<times> 'f" where
  "rehydrate X m mperm st =
     (case on_kv (scanDurable (rsPrimary X) m []) st of
        (Inl e, st1) \<Rightarrow> (Inl e, st1)
      | (Inr out1, st1) \<Rightarrow>
          (case on_kv (scanDurable (rsReplica X) m out1) st1 of
             (Inl e, st2) \<Rightarrow> (Inl e, st2)
           | (Inr out2, st2) \<Rightarrow>
               let loaded = (case mirrorLoad X (snd st2) of None \<Rightarrow> [] | Some keys \<Rightarrow> keys);
                   merged = fold (\<lambda>(k, v) out. if v = [] then out else keep_longer k v out) (mperm loaded) out2
               in if merged = [] then (Inr 0, st2)
                  else case on_kv (ensure_all (rsPrimary X) (rsReplica X) (mperm merged) 0) st2 of
                         (Inl e, st3) \<Rightarrow> (Inl e, st3)
                       | (Inr restored, st3) \<Rightarrow>
                           ignoring (on_kv (kvFlush (rsPrimary X)) st3) (\<lambda>st4.
                           ignoring (on_kv (kvFlush (rsReplica X)) st4) (\<lambda>(s, fs). (Inr restored, s, mirrorSave X merged fs)))))"

section \<open>Opening the store\<close>

record ('d, 'e) kv_pair =
  primaryTree :: btree
  replicaTree :: btree
  pairDB :: "('d, 'e) db"

definition primary_ops :: "(btree \<times> ('d, 'e) db, 'it) kv_ops \<Rightarrow> (('d, 'e) kv_pair, 'it) kv_ops" where
  "primary_ops = within_state (\<lambda>s. (primaryTree s, pairDB s)) (\<lambda>(t, db) s. s\<lparr>primaryTree := t, pairDB := db\<rparr>)"

definition replica_ops :: "(btree \<times> ('d, 'e) db, 'it) kv_ops \<Rightarrow> (('d, 'e) kv_pair, 'it) kv_ops" where
  "replica_ops = within_state (\<lambda>s. (replicaTree s, pairDB s)) (\<lambda>(t, db) s. s\<lparr>replicaTree := t, pairDB := db\<rparr>)"

definition tree_pair ::
  "(btree \<times> ('d, 'e) db, 'it) kv_ops \<Rightarrow> string \<Rightarrow> 'f mirror_env \<Rightarrow> (('d, 'e) kv_pair, 'it, 'f) ReplicatingKVStore" where
  "tree_pair S path M = \<lparr>rsPrimary = primary_ops S, rsReplica = replica_ops S, mirrorPath = path, rsMirror = M\<rparr>"

definition NewReplicatingKVStore ::
  "('d, 'e) env \<Rightarrow> run_env \<Rightarrow> ((bytes \<times> bytes) list \<Rightarrow> (bytes \<times> bytes) list) \<Rightarrow> nat \<Rightarrow> 'f mirror_env \<Rightarrow> string option \<Rightarrow>
   btree option \<Rightarrow> ('d, 'e) db \<times> 'f \<Rightarrow> ('d, 'e) kv_pair result \<times> ('d, 'e) db \<times> 'f" where
  "NewReplicatingKVStore E R mperm n M devPath primary = (\<lambda>(db, fs).
     (case primary of
        None \<Rightarrow> (Inl GoPanic, db, fs)
      | Some t \<Rightarrow>
          (case NewBTreeKVStoreWithRoot E R mperm n IdentityReplicaRootPageID db of
             (Inl e, db1) \<Rightarrow> (Inl e, db1, fs)
           | (Inr replica, db1) \<Rightarrow>
               let X = tree_pair (btree_ops E n (\<lambda>s. s)) (identityMirrorPath devPath) M;
                   (r, s, fs1) = rehydrate X n mperm (\<lparr>primaryTree = t, replicaTree = replica, pairDB = db1\<rparr>, fs)
               in (case r of Inl e \<Rightarrow> Inl e | Inr _ \<Rightarrow> Inr s, pairDB s, fs1))))"

text \<open>The import of the legacy page, once per process.\<close>

definition migrate_legacy_kv ::
  "('d, 'e) env \<Rightarrow> run_env \<Rightarrow> ((bytes \<times> bytes) list \<Rightarrow> (bytes \<times> bytes) list) \<Rightarrow> nat \<Rightarrow> btree \<times> ('d, 'e) db \<Rightarrow>
   unit result \<times> btree \<times> ('d, 'e) db" where
  "migrate_legacy_kv E R mperm n = (\<lambda>(t, db).
     (case FetchPage E LegacyKVPageID (bp db) of
        (Inl e, p) \<Rightarrow> (if fatal e then Inl e else Inr (), t, db\<lparr>bp := p\<rparr>)
      | (Inr idx, p) \<Rightarrow>
          (case recoverLegacyKVRecords E R mperm LegacyKVPageID (frame_data p idx) (db\<lparr>bp := p\<rparr>) of
             (Inl e, db1) \<Rightarrow> (Inl e, t, db1)
           | (Inr recovered, db1) \<Rightarrow>
               (case importRecoveredKV E n mperm recovered (t, UnpinPage LegacyKVPageID False (bp db1)) of
                  (Inl e, t2, p2) \<Rightarrow> (Inl e, t2, db1\<lparr>bp := p2\<rparr>)
                | (Inr _, t2, p2) \<Rightarrow>
                    ignoring (on_pool (KV_Flush E) (t2, db1\<lparr>bp := p2\<rparr>)) (\<lambda>s. (Inr (), s))))))"

definition NewBTreeKVStore ::
  "('d, 'e) env \<Rightarrow> run_env \<Rightarrow> ((bytes \<times> bytes) list \<Rightarrow> (bytes \<times> bytes) list) \<Rightarrow> nat \<Rightarrow> 'f mirror_env \<Rightarrow> string option \<Rightarrow>
   bool \<Rightarrow> ('d, 'e) db \<times> 'f \<Rightarrow> ('d, 'e) kv_pair result \<times> ('d, 'e) db \<times> 'f" where
  "NewBTreeKVStore E R mperm n M devPath migrated = (\<lambda>(db, fs).
     (case NewBTreeKVStoreWithRoot E R mperm n BTreeRootPageID db of
        (Inl e, db1) \<Rightarrow> (Inl e, db1, fs)
      | (Inr t, db1) \<Rightarrow>
          (case (if migrated then (Inr (), t, db1) else migrate_legacy_kv E R mperm n (t, db1)) of
             (Inl e, _, db2) \<Rightarrow> (Inl e, db2, fs)
           | (Inr _, t2, db2) \<Rightarrow> NewReplicatingKVStore E R mperm n M devPath (Some t2) (db2, fs))))"

section \<open>The mirror as a map\<close>

definition mirror_view :: "('s, 'it, 'f) ReplicatingKVStore \<Rightarrow> 'f \<Rightarrow> bytes \<rightharpoonup> bytes" where
  "mirror_view X fs k = (case mirrorLoad X fs of None \<Rightarrow> None | Some m \<Rightarrow> map_of m k)"

definition ascii :: "bytes \<Rightarrow> bool" where
  "ascii k \<longleftrightarrow> (\<forall>b\<in>set k. b < 128)"

text \<open>
  What is assumed of the operating system and of \<open>encoding/json\<close>: the calls succeed, a file
  has the bytes that were written to it, also under its new name, and a document whose keys
  are ASCII is read back with the same keys and values (other keys may be changed: invalid
  UTF-8 is replaced).
\<close>

definition mirror_ok :: "('s, 'it, 'f) ReplicatingKVStore \<Rightarrow> bool" where
  "mirror_ok X \<longleftrightarrow> (let F = meFiles (rsMirror X) in
     (\<forall>dir fs. fst (fsMkdirAll F dir fs) = None) \<and>
     (\<forall>f b fs. fst (fsWriteFile F f b fs) = None \<and> fsReadFile F f (snd (fsWriteFile F f b fs)) = Inr b) \<and>
     (\<forall>f g b fs. fsReadFile F f fs = Inr b \<longrightarrow>
        fst (fsRename F f g fs) = None \<and> fsReadFile F g (snd (fsRename F f g fs)) = Inr b) \<and>
     (\<forall>doc m. mfKeys doc = Some m \<longrightarrow> list_all (ascii \<circ> fst) m \<longrightarrow>
        (\<exists>b raw doc' m'. meMarshal (rsMirror X) doc = Inr (b # raw) \<and> meUnmarshal (rsMirror X) (b # raw) = Inr doc' \<and>
           mfKeys doc' = Some m' \<and> map_of m' = map_of m)))"

definition mirror_ascii :: "('s, 'it, 'f) ReplicatingKVStore \<Rightarrow> 'f \<Rightarrow> bool" where
  "mirror_ascii X fs \<longleftrightarrow> dom (mirror_view X fs) \<subseteq> Collect ascii"

lemma mirrorGet_view: "mirrorGet X k fs = hit (found (mirror_view X fs k))"
  by (simp add: mirrorGet_def mirror_view_def split: option.split)

lemma mirror_view_off [simp]: "mirrorPath X = '''' \<Longrightarrow> mirror_view X fs = Map.empty"
  by (simp add: mirror_view_def mirrorLoad_def fun_eq_iff)

text \<open>The keys of a loaded mirror, listed once each.\<close>

lemma map_of_ascii: "dom (map_of m) \<subseteq> Collect ascii \<Longrightarrow> list_all (ascii \<circ> fst) m"
  by (auto simp: list_all_iff dom_map_of_conv_image_fst)

lemma mirrorSave_view:
  assumes ok: "mirror_ok X" and path: "mirrorPath X \<noteq> ''''" and m: "list_all (ascii \<circ> fst) m"
  shows "mirror_view X (mirrorSave X m fs) = map_of m"
proof -
  let ?F = "meFiles (rsMirror X)"
  let ?doc = "\<lparr>mfVersion = 1, mfUpdatedAt = meClock (rsMirror X), mfKeys = Some m\<rparr>"
  have F: "\<And>dir fs. fst (fsMkdirAll ?F dir fs) = None"
    "\<And>f b fs. fst (fsWriteFile ?F f b fs) = None \<and> fsReadFile ?F f (snd (fsWriteFile ?F f b fs)) = Inr b"
    "\<And>f g b fs. fsReadFile ?F f fs = Inr b \<Longrightarrow> fst (fsRename ?F f g fs) = None \<and> fsReadFile ?F g (snd (fsRename ?F f g fs)) = Inr b"
    and json: "\<And>doc m. mfKeys doc = Some m \<Longrightarrow> list_all (ascii \<circ> fst) m \<Longrightarrow>
      \<exists>b raw doc' m'. meMarshal (rsMirror X) doc = Inr (b # raw) \<and> meUnmarshal (rsMirror X) (b # raw) = Inr doc' \<and>
        mfKeys doc' = Some m' \<and> map_of m' = map_of m"
    using ok by (simp_all add: mirror_ok_def Let_def)
  obtain b raw doc' m' where J: "meMarshal (rsMirror X) ?doc = Inr (b # raw)" "meUnmarshal (rsMirror X) (b # raw) = Inr doc'"
    "mfKeys doc' = Some m'" "map_of m' = map_of m"
    using json [of ?doc m] m by auto
  let ?tmp = "mirrorPath X @ ''.tmp''"
  obtain fs1 where 1: "fsMkdirAll ?F (meDir (rsMirror X) (mirrorPath X)) fs = (None, fs1)"
    using F(1) [of "meDir (rsMirror X) (mirrorPath X)" fs] by (metis prod.collapse)
  obtain fs2 where 2: "fsWriteFile ?F ?tmp (b # raw) fs1 = (None, fs2)" "fsReadFile ?F ?tmp fs2 = Inr (b # raw)"
    using F(2) [of ?tmp "b # raw" fs1] by (metis prod.collapse)
  obtain fs3 where 3: "fsRename ?F ?tmp (mirrorPath X) fs2 = (None, fs3)" "fsReadFile ?F (mirrorPath X) fs3 = Inr (b # raw)"
    using F(3) [OF 2(2), of "mirrorPath X"] by (metis prod.collapse)
  have "mirrorSave X m fs = fs3" using path J(1) 1 2(1) 3(1) by (simp add: mirrorSave_def Let_def)
  with path 3(2) J(2-4) show ?thesis by (simp add: mirror_view_def mirrorLoad_def fun_eq_iff)
qed

lemma mirrorLoad_ascii: "mirror_ascii X fs \<Longrightarrow> mirrorLoad X fs = Some m \<Longrightarrow> list_all (ascii \<circ> fst) m"
  by (rule map_of_ascii) (auto simp: mirror_ascii_def mirror_view_def dom_def)

lemma ascii_update: "list_all (ascii \<circ> fst) m \<Longrightarrow> ascii k \<Longrightarrow> list_all (ascii \<circ> fst) (AList.update k v m)"
  by (induction m) (auto simp: o_def)

lemma mirrorPut_view:
  assumes ok: "mirror_ok X" "mirror_ascii X fs" and path: "mirrorPath X \<noteq> ''''" and kv: "ascii k" "v \<noteq> []"
  shows "mirror_view X (mirrorPut X k v fs) = (mirror_view X fs)(k \<mapsto> v)"
proof (cases "mirrorLoad X fs")
  case None
  then have "mirror_view X (mirrorPut X k v fs) = map_of [(k, v)]"
    using path kv mirrorSave_view [OF ok(1) path, of "[(k, v)]"] by (simp add: mirrorPut_def)
  with None show ?thesis by (simp add: mirror_view_def fun_eq_iff)
next
  case (Some m)
  then have "mirror_view X (mirrorPut X k v fs) = map_of (AList.update k v m)"
    using path kv mirrorSave_view [OF ok(1) path ascii_update [OF mirrorLoad_ascii [OF ok(2)] kv(1)]] by (simp add: mirrorPut_def)
  with Some show ?thesis by (simp add: mirror_view_def fun_eq_iff update_conv')
qed

lemma mirrorDelete_view:
  assumes ok: "mirror_ok X" "mirror_ascii X fs"
  shows "mirror_view X (mirrorDelete X k fs) = (mirror_view X fs)(k := None)"
proof (cases "mirrorPath X = '''' \<or> mirrorLoad X fs = None")
  case True
  then show ?thesis by (auto simp: mirrorDelete_def mirror_view_def mirrorLoad_def fun_eq_iff)
next
  case False
  then obtain m where m: "mirrorPath X \<noteq> ''''" "mirrorLoad X fs = Some m" by auto
  have "list_all (ascii \<circ> fst) (AList.delete k m)"
    using mirrorLoad_ascii [OF ok(2) m(2)] by (auto simp: list_all_iff AList.delete_eq)
  then have "mirror_view X (mirrorDelete X k fs) = map_of (AList.delete k m)"
    using m mirrorSave_view [OF ok(1) m(1)] by (simp add: mirrorDelete_def)
  with m show ?thesis by (simp add: mirror_view_def fun_eq_iff delete_conv')
qed

section \<open>The store as one map\<close>

text \<open>What a key means to the clients of the store, given the three copies.\<close>

definition logical :: "(bytes \<rightharpoonup> bytes) \<Rightarrow> (bytes \<rightharpoonup> bytes) \<Rightarrow> (bytes \<rightharpoonup> bytes) \<Rightarrow> bytes \<rightharpoonup> bytes" where
  "logical c1 c2 m k =
     (case filled (c1 k) of
        Some v \<Rightarrow> Some v
      | None \<Rightarrow> if isDurableIdentityKey k then (case filled (c2 k) of Some v \<Rightarrow> Some v | None \<Rightarrow> filled (m k)) else None)"

locale twin_store =
  primary: store_side "rsPrimary X" inv c1 "\<lambda>s. (c2 s, room2 s)" room1 +
  replica: store_side "rsReplica X" inv c2 "\<lambda>s. (c1 s, room1 s)" room2
  for X :: "('s, 'it, 'f) ReplicatingKVStore" and inv c1 c2 room1 room2
begin

lemma get_lemma:
  assumes s: "inv s"
    and room: "\<And>v. filled (c1 s k) = None \<Longrightarrow> isDurableIdentityKey k \<Longrightarrow> logical (c1 s) (c2 s) (mirror_view X fs) k = Some v \<Longrightarrow>
      room1 s k v \<and> (filled (c2 s k) = None \<longrightarrow> room2 s k v)"
  defines "l \<equiv> logical (c1 s) (c2 s) (mirror_view X fs)"
  shows "\<exists>s'. R_Get X k (s, fs) =
      ((case l k of Some v \<Rightarrow> Inr v | None \<Rightarrow> if c1 s k = Some [] \<and> \<not> isDurableIdentityKey k then Inr [] else Inl ErrKeyNotFound), s', fs) \<and>
    inv s' \<and> c1 s' = (case l k of Some v \<Rightarrow> (c1 s)(k \<mapsto> v) | None \<Rightarrow> c1 s) \<and>
    c2 s' = (if filled (c1 s k) = None \<and> filled (c2 s k) = None then (case l k of Some v \<Rightarrow> (c2 s)(k \<mapsto> v) | None \<Rightarrow> c2 s) else c2 s)"
proof -
  obtain s1 where 1: "kvGet (rsPrimary X) k s = (found (c1 s k), s1)" "inv s1" "c1 s1 = c1 s" "c2 s1 = c2 s" "room1 s1 = room1 s" "room2 s1 = room2 s"
    using primary.getE [OF s, of k] by auto
  show ?thesis
  proof (cases "filled (c1 s k) = None \<and> isDurableIdentityKey k")
    case False
    show ?thesis
    proof (cases "filled (c1 s k)")
      case None
      with False have "\<not> isDurableIdentityKey k" and "l k = None" by (simp_all add: l_def logical_def)
      moreover have "(case found (c1 s k) of Inl err \<Rightarrow> Inl err | Inr _ \<Rightarrow> Inr []) = (if c1 s k = Some [] then Inr [] else Inl ErrKeyNotFound)"
        using None by (auto simp: found_def filled_def split: option.split if_splits)
      ultimately have "R_Get X k (s, fs) = (if c1 s k = Some [] then Inr [] else Inl ErrKeyNotFound, s1, fs)"
        using None 1(1) by (simp add: R_Get_def on_kv_def hit_found del: if_split)
      with \<open>l k = None\<close> \<open>\<not> isDurableIdentityKey k\<close> None 1 show ?thesis by simp
    next
      case (Some v)
      then have "c1 s k = Some v" "v \<noteq> []" "l k = Some v" by (auto simp: filled_Some l_def logical_def)
      with Some 1 show ?thesis by (simp add: R_Get_def on_kv_def hit_found found_def fun_upd_idem)
    qed
  next
    case True
    obtain s2 where 2: "kvGet (rsReplica X) k s1 = (found (c2 s k), s2)" "inv s2" "c1 s2 = c1 s" "c2 s2 = c2 s" "room1 s2 = room1 s" "room2 s2 = room2 s"
      using replica.getE [OF 1(2), of k] 1 by auto
    have get: "R_Get X k (s, fs) = get_fallback X k (found (c1 s k)) (s1, fs)"
      using True 1(1) by (simp add: R_Get_def on_kv_def hit_found)
    show ?thesis
    proof (cases "filled (c2 s k)")
      case (Some v)
      then have l: "l k = Some v" using True by (simp add: l_def logical_def)
      obtain s3 where 3: "kvPut (rsPrimary X) k v 0 s2 = (None, s3)" "inv s3" "c1 s3 = (c1 s)(k \<mapsto> v)" "c2 s3 = c2 s"
        using primary.putE [OF 2(2), of k v 0] room True l 2 by (auto simp: l_def)
      obtain s4 where 4: "kvFlush (rsPrimary X) s3 = (None, s4)" "inv s4" "c1 s4 = (c1 s)(k \<mapsto> v)" "c2 s4 = c2 s"
        using primary.flushE [OF 3(2)] 3 by auto
      show ?thesis using get True Some l 2(1) 3(1) 4 by (simp add: get_fallback_def on_kv_def hit_found)
    next
      case None
      then have l: "l k = filled (mirror_view X fs k)" using True by (simp add: l_def logical_def)
      show ?thesis
      proof (cases "l k")
        case no: None
        then have "(case found (c1 s k) of Inl err \<Rightarrow> Inl err | Inr _ \<Rightarrow> Inl ErrKeyNotFound) = (Inl ErrKeyNotFound :: bytes result)"
          by (simp add: found_def split: option.split)
        then show ?thesis using get True None l no 2 by (simp add: get_fallback_def on_kv_def hit_found mirrorGet_view)
      next
        case (Some v)
        obtain s3 where 3: "kvPut (rsPrimary X) k v 0 s2 = (None, s3)" "inv s3" "c1 s3 = (c1 s)(k \<mapsto> v)" "c2 s3 = c2 s" "room2 s3 = room2 s"
          using primary.putE [OF 2(2), of k v 0] room True Some 2 by (auto simp: l_def)
        obtain s4 where 4: "kvPut (rsReplica X) k v 0 s3 = (None, s4)" "inv s4" "c1 s4 = (c1 s)(k \<mapsto> v)" "c2 s4 = (c2 s)(k \<mapsto> v)"
          using replica.putE [OF 3(2), of k v 0] room True None Some 3 by (auto simp: l_def)
        obtain s5 where 5: "kvFlush (rsPrimary X) s4 = (None, s5)" "inv s5" "c1 s5 = (c1 s)(k \<mapsto> v)" "c2 s5 = (c2 s)(k \<mapsto> v)"
          using primary.flushE [OF 4(2)] 4 by auto
        obtain s6 where 6: "kvFlush (rsReplica X) s5 = (None, s6)" "inv s6" "c1 s6 = (c1 s)(k \<mapsto> v)" "c2 s6 = (c2 s)(k \<mapsto> v)"
          using replica.flushE [OF 5(2)] 5 by auto
        have "filled (mirror_view X fs k) = Some v" using l Some by simp
        then have "get_fallback X k (found (c1 s k)) (s1, fs) = (Inr v, s6, fs)"
          using None 2(1) 3(1) 4(1) 5(1) 6(1) by (simp add: get_fallback_def on_kv_def hit_found mirrorGet_view)
        then show ?thesis using get True None Some 6 by simp
      qed
    qed
  qed
qed

lemma put_lemma:
  assumes s: "inv s" and room: "room1 s k v" "isDurableIdentityKey k \<Longrightarrow> v \<noteq> [] \<Longrightarrow> room2 s k v"
  shows "\<exists>s'. R_Put X k v ttl (s, fs) = (None, s', if isDurableIdentityKey k then mirrorPut X k v fs else fs) \<and>
    inv s' \<and> c1 s' = (c1 s)(k \<mapsto> v) \<and> c2 s' = (if isDurableIdentityKey k \<and> v \<noteq> [] then (c2 s)(k \<mapsto> v) else c2 s)"
proof -
  obtain s1 where 1: "kvPut (rsPrimary X) k v ttl s = (None, s1)" "inv s1" "c1 s1 = (c1 s)(k \<mapsto> v)" "c2 s1 = c2 s" "room2 s1 = room2 s"
    using primary.putE [OF s room(1), of ttl] by auto
  show ?thesis
  proof (cases "isDurableIdentityKey k \<and> v \<noteq> []")
    case False
    then show ?thesis using 1 by (auto simp: R_Put_def on_kv_def mirrorPut_def)
  next
    case True
    obtain s2 where 2: "kvPut (rsReplica X) k v 0 s1 = (None, s2)" "inv s2" "c1 s2 = (c1 s)(k \<mapsto> v)" "c2 s2 = (c2 s)(k \<mapsto> v)"
      using replica.putE [OF 1(2), of k v 0] room True 1 by auto
    obtain s3 where 3: "kvFlush (rsReplica X) s2 = (None, s3)" "inv s3" "c1 s3 = (c1 s)(k \<mapsto> v)" "c2 s3 = (c2 s)(k \<mapsto> v)"
      using replica.flushE [OF 2(2)] 2 by auto
    show ?thesis using True 1(1) 2(1) 3 by (simp add: R_Put_def on_kv_def)
  qed
qed

lemma delete_lemma:
  assumes s: "inv s"
  shows "\<exists>s'. R_Delete X k (s, fs) = (if c1 s k = None then Some ErrKeyNotFound else None, s',
      if isDurableIdentityKey k then mirrorDelete X k fs else fs) \<and>
    inv s' \<and> c1 s' = (c1 s)(k := None) \<and> c2 s' = (if isDurableIdentityKey k then (c2 s)(k := None) else c2 s)"
proof -
  obtain s1 where 1: "kvDelete (rsPrimary X) k s = (if c1 s k = None then Some ErrKeyNotFound else None, s1)" "inv s1" "c1 s1 = (c1 s)(k := None)" "c2 s1 = c2 s"
    using primary.deleteE [OF s, of k] by auto
  obtain s2 where 2: "kvDelete (rsReplica X) k s1 = (if c2 s k = None then Some ErrKeyNotFound else None, s2)" "inv s2" "c1 s2 = (c1 s)(k := None)" "c2 s2 = (c2 s)(k := None)"
    using replica.deleteE [OF 1(2), of k] 1 by auto
  obtain s3 where 3: "kvFlush (rsReplica X) s2 = (None, s3)" "inv s3" "c1 s3 = (c1 s)(k := None)" "c2 s3 = (c2 s)(k := None)"
    using replica.flushE [OF 2(2)] 2 by auto
  show ?thesis using 1 2(1) 3 by (simp add: R_Delete_def on_kv_def)
qed

end

section \<open>Two trees in one database\<close>

definition disjoint_trees :: "nat \<Rightarrow> nat \<Rightarrow> btree \<Rightarrow> btree \<Rightarrow> (bytes, lru) db \<Rightarrow> bool" where
  "disjoint_trees fuel n t u db \<longleftrightarrow> tree_db fuel n t db \<and> tree_db fuel n u db \<and> db_pages n t db \<inter> db_pages n u db = {}"

lemma disjoint_trees_sym: "disjoint_trees fuel n t u db \<longleftrightarrow> disjoint_trees fuel n u t db"
  by (auto simp: disjoint_trees_def)

text \<open>A step that touches pages of \<open>t\<close> only leaves \<open>u\<close> alone.\<close>

lemma disjoint_step:
  assumes d: "disjoint_trees fuel n t u db" and t': "tree_db fuel n t db'" and fr: "frame_but mem_stored Y db db'"
    and Y: "Y \<subseteq> db_pages n t db" and pages: "db_pages n t db' = db_pages n t db"
  shows "disjoint_trees fuel n t u db'" "db_contents n u db' = db_contents n u db" "db_room n u db' = db_room n u db"
proof -
  have u: "tree_db fuel n u db" "Y \<inter> db_pages n u db = {}" using d Y by (auto simp: disjoint_trees_def)
  note F = tree_frame [OF u(1) fr u(2)]
  show "disjoint_trees fuel n t u db'" using F(1,4) d t' pages by (simp add: disjoint_trees_def tree_db_def)
  show "db_contents n u db' = db_contents n u db" "db_room n u db' = db_room n u db" by (rule F)+
qed

lemma tree_side:
  assumes [simp]: "\<And>t db s. T (upd (t, db) s) = t" "\<And>t db s. U (upd (t, db) s) = U s" "\<And>t db s. D (upd (t, db) s) = db"
  shows "store_side (within_state (\<lambda>s. (T s, D s)) upd (mem_ops fuel n)) (\<lambda>s. disjoint_trees fuel n (T s) (U s) (D s))
    (\<lambda>s. db_contents n (T s) (D s)) (\<lambda>s. (db_contents n (U s) (D s), db_room n (U s) (D s))) (\<lambda>s. db_room n (T s) (D s))"
proof
  fix s k v ttl
  assume d: "disjoint_trees fuel n (T s) (U s) (D s)"
  then have t: "tree_db fuel n (T s) (D s)" by (simp add: disjoint_trees_def)
  have same: "db_contents n (T s) db' = db_contents n (T s) (D s)" "db_room n (T s) db' = db_room n (T s) (D s)"
      "disjoint_trees fuel n (T s) (U s) db'" "db_contents n (U s) db' = db_contents n (U s) (D s)" "db_room n (U s) db' = db_room n (U s) (D s)"
    if "frame_but mem_stored {} (D s) db'" "tree_db fuel n (T s) db'" for db'
    using tree_frame [OF t that(1)] disjoint_step [OF d that(2,1)] by simp_all
  show "\<exists>s'. kvGet (within_state (\<lambda>s. (T s, D s)) upd (mem_ops fuel n)) k s = (found (db_contents n (T s) (D s) k), s') \<and>
      disjoint_trees fuel n (T s') (U s') (D s') \<and> db_contents n (T s') (D s') = db_contents n (T s) (D s) \<and>
      (db_contents n (U s') (D s'), db_room n (U s') (D s')) = (db_contents n (U s) (D s), db_room n (U s) (D s)) \<and>
      db_room n (T s') (D s') = db_room n (T s) (D s)"
    by (rule tree_get [OF t, of k]) (use same in \<open>simp add: within_state_def\<close>)
  show "\<exists>s'. kvFlush (within_state (\<lambda>s. (T s, D s)) upd (mem_ops fuel n)) s = (None, s') \<and>
      disjoint_trees fuel n (T s') (U s') (D s') \<and> db_contents n (T s') (D s') = db_contents n (T s) (D s) \<and>
      (db_contents n (U s') (D s'), db_room n (U s') (D s')) = (db_contents n (U s) (D s), db_room n (U s) (D s)) \<and>
      db_room n (T s') (D s') = db_room n (T s) (D s)"
    by (rule tree_flush [OF t]) (use same in \<open>simp add: within_state_def\<close>)
  show "\<exists>s'. kvDelete (within_state (\<lambda>s. (T s, D s)) upd (mem_ops fuel n)) k s =
        (if db_contents n (T s) (D s) k = None then Some ErrKeyNotFound else None, s') \<and>
      disjoint_trees fuel n (T s') (U s') (D s') \<and> db_contents n (T s') (D s') = (db_contents n (T s) (D s))(k := None) \<and>
      (db_contents n (U s') (D s'), db_room n (U s') (D s')) = (db_contents n (U s) (D s), db_room n (U s) (D s))"
  proof (rule tree_delete [OF t, of k])
    fix db' j
    assume r: "kvDelete (mem_ops fuel n) k (T s, D s) = (if db_contents n (T s) (D s) k = None then Some ErrKeyNotFound else None, T s, db')"
      "tree_db fuel n (T s) db'" "db_contents n (T s) db' = (db_contents n (T s) (D s))(k := None)" "frame_but mem_stored {j} (D s) db'"
      "j \<in> db_pages n (T s) (D s)" "db_pages n (T s) db' = db_pages n (T s) (D s)"
    note E = disjoint_step [OF d r(2,4) _ r(6)]
    show ?thesis using r(1,3,5) E by (intro exI [of _ "upd (T s, db') s"]) (simp add: within_state_def)
  qed
  assume room: "db_room n (T s) (D s) k v"
  show "\<exists>s'. kvPut (within_state (\<lambda>s. (T s, D s)) upd (mem_ops fuel n)) k v ttl s = (None, s') \<and>
      disjoint_trees fuel n (T s') (U s') (D s') \<and> db_contents n (T s') (D s') = (db_contents n (T s) (D s))(k \<mapsto> v) \<and>
      (db_contents n (U s') (D s'), db_room n (U s') (D s')) = (db_contents n (U s) (D s), db_room n (U s) (D s))"
  proof (rule tree_put [OF t room, of ttl])
    fix db' j
    assume r: "kvPut (mem_ops fuel n) k v ttl (T s, D s) = (None, T s, db')"
      "tree_db fuel n (T s) db'" "db_contents n (T s) db' = (db_contents n (T s) (D s))(k \<mapsto> v)" "frame_but mem_stored {j} (D s) db'"
      "j \<in> db_pages n (T s) (D s)" "db_pages n (T s) db' = db_pages n (T s) (D s)"
    note E = disjoint_step [OF d r(2,4) _ r(6)]
    show ?thesis using r(1,3,5) E by (intro exI [of _ "upd (T s, db') s"]) (simp add: within_state_def)
  qed
qed

definition twin_db :: "nat \<Rightarrow> nat \<Rightarrow> (bytes, lru) kv_pair \<Rightarrow> bool" where
  "twin_db fuel n s \<longleftrightarrow> disjoint_trees fuel n (primaryTree s) (replicaTree s) (pairDB s)"

abbreviation primary_map :: "nat \<Rightarrow> (bytes, lru) kv_pair \<Rightarrow> bytes \<rightharpoonup> bytes" where
  "primary_map n s \<equiv> db_contents n (primaryTree s) (pairDB s)"

abbreviation replica_map :: "nat \<Rightarrow> (bytes, lru) kv_pair \<Rightarrow> bytes \<rightharpoonup> bytes" where
  "replica_map n s \<equiv> db_contents n (replicaTree s) (pairDB s)"

interpretation rp: twin_store "tree_pair (mem_ops fuel n) path M" "twin_db fuel n" "primary_map n" "replica_map n"
  "\<lambda>s. db_room n (primaryTree s) (pairDB s)" "\<lambda>s. db_room n (replicaTree s) (pairDB s)" for fuel n path M
proof (intro twin_store.intro)
  show "store_side (rsPrimary (tree_pair (mem_ops fuel n) path M)) (twin_db fuel n) (primary_map n)
      (\<lambda>s. (replica_map n s, db_room n (replicaTree s) (pairDB s))) (\<lambda>s. db_room n (primaryTree s) (pairDB s))"
    unfolding tree_pair_def primary_ops_def twin_db_def ReplicatingKVStore.simps by (rule tree_side) simp_all
  show "store_side (rsReplica (tree_pair (mem_ops fuel n) path M)) (twin_db fuel n) (replica_map n)
      (\<lambda>s. (primary_map n s, db_room n (primaryTree s) (pairDB s))) (\<lambda>s. db_room n (replicaTree s) (pairDB s))"
    unfolding tree_pair_def replica_ops_def twin_db_def ReplicatingKVStore.simps
    by (subst disjoint_trees_sym) (rule tree_side, simp_all)
qed

section \<open>The store on two trees\<close>

lemma logical_put:
  assumes "v \<noteq> []" "\<And>k'. k' \<noteq> k \<Longrightarrow> c2' k' = c2 k' \<and> m' k' = m k'"
  shows "logical (c1(k \<mapsto> v)) c2' m' = (logical c1 c2 m)(k \<mapsto> v)"
proof
  show "logical (c1(k \<mapsto> v)) c2' m' x = ((logical c1 c2 m)(k \<mapsto> v)) x" for x
    using assms(1) assms(2) [of x] by (cases "x = k") (simp_all add: logical_def cong: option.case_cong)
qed

lemma logical_delete:
  assumes "\<And>k'. k' \<noteq> k \<Longrightarrow> c2' k' = c2 k' \<and> m' k' = m k'" "isDurableIdentityKey k \<Longrightarrow> c2' k = None \<and> m' k = None"
  shows "logical (c1(k := None)) c2' m' = (logical c1 c2 m)(k := None)"
proof
  show "logical (c1(k := None)) c2' m' x = ((logical c1 c2 m)(k := None)) x" for x
    using assms(1) [of x] assms(2) by (cases "x = k") (simp_all add: logical_def cong: option.case_cong)
qed

text \<open>A value that is written back is the value the key has.\<close>

lemma logical_promote:
  assumes "logical c1 c2 m k = Some v" "c2' = c2 \<or> c2' = c2(k \<mapsto> v)"
  shows "logical (c1(k \<mapsto> v)) c2' m = logical c1 c2 m"
proof
  have "v \<noteq> []" using assms(1) by (simp add: logical_def filled_Some split: option.splits if_splits)
  then show "logical (c1(k \<mapsto> v)) c2' m x = logical c1 c2 m x" for x
    using assms by (cases "x = k") (auto simp: logical_def cong: option.case_cong)
qed

abbreviation mem_pair :: "nat \<Rightarrow> nat \<Rightarrow> string \<Rightarrow> 'f mirror_env \<Rightarrow> ((bytes, lru) kv_pair, kv_iter, 'f) ReplicatingKVStore" where
  "mem_pair fuel n path M \<equiv> tree_pair (mem_ops fuel n) path M"

definition store_map :: "('s, 'it, 'f) ReplicatingKVStore \<Rightarrow> nat \<Rightarrow> (bytes, lru) kv_pair \<times> 'f \<Rightarrow> bytes \<rightharpoonup> bytes" where
  "store_map X n = (\<lambda>(s, fs). logical (primary_map n s) (replica_map n s) (mirror_view X fs))"

definition both_room :: "nat \<Rightarrow> (bytes, lru) kv_pair \<Rightarrow> bytes \<Rightarrow> bytes \<Rightarrow> bool" where
  "both_room n s k v \<longleftrightarrow> db_room n (primaryTree s) (pairDB s) k v \<and> db_room n (replicaTree s) (pairDB s) k v"

lemma pair_get:
  assumes s: "twin_db fuel n s" and room: "\<And>v. store_map X n (s, fs) key = Some v \<Longrightarrow> both_room n s key v"
    and X: "X = mem_pair fuel n path M"
  shows "\<exists>s'. R_Get X key (s, fs) =
      (case store_map X n (s, fs) key of Some v \<Rightarrow> Inr v
       | None \<Rightarrow> if primary_map n s key = Some [] \<and> \<not> isDurableIdentityKey key then Inr [] else Inl ErrKeyNotFound, s', fs) \<and>
    twin_db fuel n s' \<and> store_map X n (s', fs) = store_map X n (s, fs) \<and>
    (store_map X n (s, fs) key \<noteq> None \<longrightarrow> primary_map n s' key = store_map X n (s, fs) key)"
proof -
  let ?l = "store_map X n (s, fs)"
  obtain s' where G: "R_Get X key (s, fs) = (case ?l key of Some v \<Rightarrow> Inr v
         | None \<Rightarrow> if primary_map n s key = Some [] \<and> \<not> isDurableIdentityKey key then Inr [] else Inl ErrKeyNotFound, s', fs)"
      "twin_db fuel n s'" "primary_map n s' = (case ?l key of Some v \<Rightarrow> (primary_map n s)(key \<mapsto> v) | None \<Rightarrow> primary_map n s)"
      "replica_map n s' = (if filled (primary_map n s key) = None \<and> filled (replica_map n s key) = None
        then (case ?l key of Some v \<Rightarrow> (replica_map n s)(key \<mapsto> v) | None \<Rightarrow> replica_map n s) else replica_map n s)"
    using rp.get_lemma [OF s, of key path M fs] room unfolding store_map_def X both_room_def prod.case by blast
  have "store_map X n (s', fs) = ?l"
  proof (cases "?l key")
    case None
    with G show ?thesis by (simp add: store_map_def)
  next
    case (Some v)
    then have "logical (primary_map n s) (replica_map n s) (mirror_view X fs) key = Some v" by (simp add: store_map_def)
    moreover have "primary_map n s' = (primary_map n s)(key \<mapsto> v)"
        "replica_map n s' = replica_map n s \<or> replica_map n s' = (replica_map n s)(key \<mapsto> v)"
      using G Some by simp_all
    ultimately show ?thesis by (simp add: store_map_def logical_promote)
  qed
  with G show ?thesis by (intro exI [of _ s'] conjI) (auto split: option.split)
qed

lemma pair_put:
  assumes s: "twin_db fuel n s" and ok: "mirror_ok X" "mirror_ascii X fs" "ascii key" and v: "val \<noteq> []" "both_room n s key val"
    and X: "X = mem_pair fuel n path M"
  shows "\<exists>s' fs'. R_Put X key val ttl (s, fs) = (None, s', fs') \<and> twin_db fuel n s' \<and>
    store_map X n (s', fs') = (store_map X n (s, fs))(key \<mapsto> val) \<and> primary_map n s' key = Some val \<and>
    (isDurableIdentityKey key \<longrightarrow> replica_map n s' key = Some val \<and> (path \<noteq> '''' \<longrightarrow> mirror_view X fs' key = Some val))"
proof -
  define fs' where "fs' = (if isDurableIdentityKey key then mirrorPut X key val fs else fs)"
  obtain s' where P: "R_Put X key val ttl (s, fs) = (None, s', fs')" "twin_db fuel n s'" "primary_map n s' = (primary_map n s)(key \<mapsto> val)"
      "replica_map n s' = (if isDurableIdentityKey key then (replica_map n s)(key \<mapsto> val) else replica_map n s)"
    using rp.put_lemma [OF s, of key val path M ttl fs] v unfolding X both_room_def fs'_def by auto
  have m: "mirror_view X fs' = (if isDurableIdentityKey key \<and> path \<noteq> '''' then (mirror_view X fs)(key \<mapsto> val) else mirror_view X fs)"
    using mirrorPut_view [OF ok(1,2) _ ok(3) v(1)] by (auto simp: X tree_pair_def fs'_def)
  have "store_map X n (s', fs') = (store_map X n (s, fs))(key \<mapsto> val)"
    unfolding store_map_def prod.case P(3) m using v(1) P(4) by (intro logical_put) auto
  with P m show ?thesis by (intro exI [of _ s'] exI [of _ fs']) simp
qed

lemma pair_delete:
  assumes s: "twin_db fuel n s" and ok: "mirror_ok X" "mirror_ascii X fs" and X: "X = mem_pair fuel n path M"
  shows "\<exists>s' fs'. R_Delete X key (s, fs) = (if primary_map n s key = None then Some ErrKeyNotFound else None, s', fs') \<and>
    twin_db fuel n s' \<and> store_map X n (s', fs') = (store_map X n (s, fs))(key := None)"
proof -
  define fs' where "fs' = (if isDurableIdentityKey key then mirrorDelete X key fs else fs)"
  obtain s' where D: "R_Delete X key (s, fs) = (if primary_map n s key = None then Some ErrKeyNotFound else None, s', fs')" "twin_db fuel n s'"
      "primary_map n s' = (primary_map n s)(key := None)"
      "replica_map n s' = (if isDurableIdentityKey key then (replica_map n s)(key := None) else replica_map n s)"
    using rp.delete_lemma [OF s, of path M key fs] unfolding X fs'_def by blast
  have "store_map X n (s', fs') = (store_map X n (s, fs))(key := None)"
    unfolding store_map_def prod.case D(3) using D(4) mirrorDelete_view [OF ok, of key] by (intro logical_delete) (auto simp: fs'_def)
  with D show ?thesis by blast
qed

section \<open>A concrete store\<close>

text \<open>A mirror on files that are a function of their names, with a document format that is easy to
  read back: every byte is preceded by 1, every string ends with 0.\<close>

definition enc_str :: "bytes \<Rightarrow> bytes" where
  "enc_str s = concat (map (\<lambda>b. [1, b]) s) @ [0]"

fun dec_str :: "bytes \<Rightarrow> bytes \<times> bytes" where
  "dec_str (x # b # rest) = (if x = 0 then ([], b # rest) else let (s, r) = dec_str rest in (b # s, r))"
| "dec_str [x] = ([], [])"
| "dec_str [] = ([], [])"

fun dec_pairs :: "nat \<Rightarrow> bytes \<Rightarrow> (bytes \<times> bytes) list" where
  "dec_pairs 0 raw = []"
| "dec_pairs (Suc n) raw = (let (k, r1) = dec_str raw; (v, r2) = dec_str r1 in (k, v) # dec_pairs n r2)"

lemma dec_enc_str: "rest \<noteq> [] \<Longrightarrow> dec_str (enc_str s @ rest) = (s, rest)"
proof (induction s)
  case Nil
  then show ?case by (cases rest) (simp_all add: enc_str_def)
qed (simp add: enc_str_def)

definition enc_pairs :: "(bytes \<times> bytes) list \<Rightarrow> bytes" where
  "enc_pairs m = concat (map (\<lambda>(k, v). enc_str k @ enc_str v) m) @ [0]"

lemma dec_enc_pairs: "dec_pairs (length m) (enc_pairs m) = m"
proof -
  have "dec_pairs (length m) (concat (map (\<lambda>(k, v). enc_str k @ enc_str v) m) @ [0]) = m"
    by (induction m) (auto simp: dec_enc_str)
  then show ?thesis by (simp add: enc_pairs_def)
qed

definition demo_files :: "(string \<Rightarrow> bytes option) file_ops" where
  "demo_files =
     \<lparr>fsReadFile = (\<lambda>f fs. case fs f of None \<Rightarrow> Inl ErrKeyNotFound | Some b \<Rightarrow> Inr b),
      fsMkdirAll = (\<lambda>_ fs. (None, fs)),
      fsWriteFile = (\<lambda>f b fs. (None, fs(f \<mapsto> b))),
      fsRename = (\<lambda>f g fs. case fs f of None \<Rightarrow> (Some ErrKeyNotFound, fs) | Some b \<Rightarrow> (None, fs(f := None, g \<mapsto> b))),
      fsRemove = (\<lambda>f fs. (None, fs(f := None)))\<rparr>"

text \<open>The document starts with the number of pairs in unary.\<close>

definition demo_mirror :: "(string \<Rightarrow> bytes option) mirror_env" where
  "demo_mirror =
     \<lparr>meFiles = demo_files, meDir = (\<lambda>p. p),
      meMarshal = (\<lambda>doc. case mfKeys doc of None \<Rightarrow> Inl ErrJson | Some m \<Rightarrow> Inr (replicate (length m) 1 @ 0 # enc_pairs m)),
      meUnmarshal = (\<lambda>raw. let n = length (takeWhile (\<lambda>b. b = 1) raw)
         in Inr \<lparr>mfVersion = 1, mfUpdatedAt = 0, mfKeys = Some (dec_pairs n (drop (Suc n) raw))\<rparr>),
      meClock = 0\<rparr>"

lemma demo_mirror_ok: "rsMirror X = demo_mirror \<Longrightarrow> mirror_ok X"
proof -
  assume X: "rsMirror X = demo_mirror"
  have tw: "takeWhile (\<lambda>b. b = 1) (replicate n 1 @ 0 # r) = replicate n (1 :: byte)" for n r
    by (induction n) simp_all
  have "\<exists>b raw. meMarshal demo_mirror doc = Inr (b # raw) \<and>
      meUnmarshal demo_mirror (b # raw) = Inr \<lparr>mfVersion = 1, mfUpdatedAt = 0, mfKeys = Some m\<rparr>" if "mfKeys doc = Some m" for doc m
  proof -
    obtain b raw where r: "replicate (length m) 1 @ 0 # enc_pairs m = (b :: byte) # raw"
      by (metis Nil_is_append_conv list.distinct(1) list.exhaust)
    then have "meMarshal demo_mirror doc = Inr (b # raw)" using that by (simp add: demo_mirror_def)
    moreover have "meUnmarshal demo_mirror (b # raw) = Inr \<lparr>mfVersion = 1, mfUpdatedAt = 0, mfKeys = Some m\<rparr>"
      unfolding r [symmetric] by (simp add: demo_mirror_def tw dec_enc_pairs)
    ultimately show ?thesis by blast
  qed
  then show ?thesis
    by (fastforce simp: mirror_ok_def X Let_def demo_mirror_def [THEN arg_cong, of meFiles] demo_files_def split: option.splits)
qed

text \<open>A device with the two roots.\<close>

lemma page_at_append:
  assumes "length pre = unat i * PageSize" "length d = PageSize"
  shows "page_at mem_stored (pre @ d @ post) i = d"
  by (rule nth_equalityI) (use assms in \<open>simp_all add: page_at_def mem_stored_def nth_append\<close>)

definition twin_leaves :: "nat \<Rightarrow> (bytes \<times> bytes) list \<Rightarrow> (bytes \<times> bytes) list \<Rightarrow> (bytes, lru) kv_pair" where
  "twin_leaves n cs ds =
     \<lparr>primaryTree = \<lparr>rootID = 1002\<rparr>, replicaTree = \<lparr>rootID = 1016\<rparr>,
      pairDB = NewDB (NewBufferPool (replicate (1002 * PageSize) 0 @ pgData (mk_leaf 1002 cs) @ replicate (13 * PageSize) 0 @
                        pgData (mk_leaf 1016 ds)) n NewLRUEvictionPolicy None) None\<rparr>"

lemma twin_leaves_props:
  assumes cs: "BTreeHeaderSize + length (enc_cells cs) \<le> PageSize" "sorted_cells cs"
    and ds: "BTreeHeaderSize + length (enc_cells ds) \<le> PageSize" "sorted_cells ds" and n: "2 \<le> n" "n \<le> fuel"
  shows "twin_db fuel m (twin_leaves n cs ds)" "primary_map m (twin_leaves n cs ds) = map_of cs" "replica_map m (twin_leaves n cs ds) = map_of ds"
    "BTreeHeaderSize + length (enc_cells cs) + (4 + length k + length v) < PageSize \<Longrightarrow>
     BTreeHeaderSize + length (enc_cells ds) + (4 + length k + length v) < PageSize \<Longrightarrow> both_room m (twin_leaves n cs ds) k v"
proof -
  let ?c = "pgData (mk_leaf 1002 cs)" let ?d = "pgData (mk_leaf 1016 ds)"
  let ?s = "twin_leaves n cs ds" let ?V = "db_view (pairDB ?s)"
  have len: "length ?c = PageSize" "length ?d = PageSize"
    using mk_leaf_rep [OF cs(1), of 1002] mk_leaf_rep [OF ds(1), of 1016] by (simp_all add: leaf_rep_def)
  have v: "?V 1002 = ?c" "?V 1016 = ?d"
    using page_at_append [of "replicate (1002 * PageSize) 0" 1002 ?c "replicate (13 * PageSize) 0 @ ?d"]
      page_at_append [of "replicate (1002 * PageSize) 0 @ ?c @ replicate (13 * PageSize) 0" 1016 ?d "[]"] len
    by (simp_all add: twin_leaves_def NewDB_def NewBufferPool_inv)
  have lf: "leaf_data (?V 1002)" "data_cells (?V 1002) = cs" "leaf_data (?V 1016)" "data_cells (?V 1016) = ds"
    using mk_leaf_inv [OF cs, of 1002] mk_leaf_inv [OF ds, of 1016] v by (simp_all add: leaf_data_page)
  have id: "tree_id 1002" "tree_id 1016" by (simp_all add: tree_id_def isBTreeKVPage_def BTreeRootPageID_def)
  have "checked mem_stored (bp (pairDB ?s))"
    by (simp add: twin_leaves_def NewDB_def blank_front_checked)
  moreover have "inner_clean (bp (pairDB ?s))" by (simp add: twin_leaves_def NewDB_def new_pool_clean)
  ultimately have "ready fuel (bp (pairDB ?s))"
    using n by (auto simp: twin_leaves_def NewDB_def ready_def mp.idle_def NewBufferPool_inv lru_inv_def tight_def NewBufferPool_def NewLRUEvictionPolicy_def
      pool_inv_def pool_wf_def coherent_def pins_def)
  moreover have "tree_ok m ?V 1002" "tree_ok m ?V 1016" using lf id by (cases m; simp)+
  moreover have pg: "tree_pages m ?V 1002 = {1002}" "tree_pages m ?V 1016 = {1016}" using lf by (cases m; simp)+
  ultimately show "twin_db fuel m ?s"
    by (simp add: twin_db_def disjoint_trees_def tree_db_def db_pages_def twin_leaves_def)
  have l: "leaf_of m ?V 1002 k = Some 1002" "leaf_of m ?V 1016 k = Some 1016" for k using lf by (cases m; simp)+
  show "primary_map m ?s = map_of cs" "replica_map m ?s = map_of ds"
    using l lf by (simp_all add: db_contents_def tree_contents_def fun_eq_iff) (simp_all add: twin_leaves_def)
  show "both_room m ?s k v" if "BTreeHeaderSize + length (enc_cells cs) + (4 + length k + length v) < PageSize"
      "BTreeHeaderSize + length (enc_cells ds) + (4 + length k + length v) < PageSize"
    using that l lf unfolding both_room_def db_room_def leaf_room_def by (simp add: twin_leaves_def)
qed

section \<open>Properties\<close>

text \<open>C2: The replicating store acts as one map, whichever copies of a key are still there. The
  value of a key is the non-empty value in the primary tree, and for durable identity keys
  otherwise the value in the replica tree or in the mirror file. \<open>Get\<close> returns it and writes it
  back to the primary tree, \<open>Put\<close> of a non-empty value binds the key in the map (and, for durable
  keys, in all three copies, so that the value survives the loss of the primary), and after
  \<open>Delete\<close> the key has no value in any copy; no other key is affected.

  The conditions: two trees without common pages on the in-memory engine, whose pools have
  enough frames and whose internal nodes are not dirty (\<open>twin_db\<close>); ASCII keys; a mirror file that
  can be written and reads back what was written (\<open>mirror_ok\<close>); and, for \<open>Get\<close> and \<open>Put\<close>, room for
  the value in the leaves of both trees.\<close>

theorem replicated_store:
  assumes "X = mem_pair fuel n path M" and "twin_db fuel n s"
    and "mirror_ok X" and "mirror_ascii X fs" and "ascii key"
  defines "m \<equiv> store_map X n (s, fs)"
  shows "((\<forall>v. m key = Some v \<longrightarrow> both_room n s key v) \<longrightarrow>
      (\<exists>s'. R_Get X key (s, fs) =
          (case m key of Some v \<Rightarrow> Inr v
           | None \<Rightarrow> if primary_map n s key = Some [] \<and> \<not> isDurableIdentityKey key then Inr [] else Inl ErrKeyNotFound, s', fs) \<and>
        twin_db fuel n s' \<and> store_map X n (s', fs) = m \<and> (m key \<noteq> None \<longrightarrow> primary_map n s' key = m key))) \<and>
    (val \<noteq> [] \<and> both_room n s key val \<longrightarrow>
      (\<exists>s' fs'. R_Put X key val ttl (s, fs) = (None, s', fs') \<and> twin_db fuel n s' \<and>
        store_map X n (s', fs') = m(key \<mapsto> val) \<and> primary_map n s' key = Some val \<and>
        (isDurableIdentityKey key \<longrightarrow> replica_map n s' key = Some val \<and> (path \<noteq> '''' \<longrightarrow> mirror_view X fs' key = Some val)))) \<and>
    (\<exists>s' fs'. R_Delete X key (s, fs) = (if primary_map n s key = None then Some ErrKeyNotFound else None, s', fs') \<and>
        twin_db fuel n s' \<and> store_map X n (s', fs') = m(key := None))"
proof (intro conjI impI)
  assume "\<forall>v. m key = Some v \<longrightarrow> both_room n s key v"
  then show "\<exists>s'. R_Get X key (s, fs) =
          (case m key of Some v \<Rightarrow> Inr v
           | None \<Rightarrow> if primary_map n s key = Some [] \<and> \<not> isDurableIdentityKey key then Inr [] else Inl ErrKeyNotFound, s', fs) \<and>
        twin_db fuel n s' \<and> store_map X n (s', fs) = m \<and> (m key \<noteq> None \<longrightarrow> primary_map n s' key = m key)"
    unfolding m_def by (intro pair_get [OF assms(2) _ assms(1)]) blast
qed (use pair_put [OF assms(2-5) _ _ assms(1)] pair_delete [OF assms(2-4,1)] in \<open>simp_all add: m_def\<close>)

theorem replicated_store_witness:
  "let key = bytes_of ''data:user:a''
   in \<exists>s'. R_Get (mem_pair 8 2 ''db'' demo_mirror) key (twin_leaves 4 [] [(key, [7])], Map.empty) = (Inr [7], s', Map.empty) \<and>
        primary_map 2 s' key = Some [7]"
proof -
  let ?X = "mem_pair 8 2 ''db'' demo_mirror" let ?key = "bytes_of ''data:user:a''" let ?ds = "[(?key, [7])]"
  let ?s = "twin_leaves 4 [] ?ds"
  have k: "?key = [100, 97, 116, 97, 58, 117, 115, 101, 114, 58, 97]" by code_simp
  have fits: "BTreeHeaderSize + length (enc_cells []) \<le> PageSize" "BTreeHeaderSize + length (enc_cells ?ds) \<le> PageSize"
    "BTreeHeaderSize + length (enc_cells []) + (4 + length ?key + length [7 :: byte]) < PageSize"
    "BTreeHeaderSize + length (enc_cells ?ds) + (4 + length ?key + length [7 :: byte]) < PageSize"
    by (simp_all add: k layout_defs)
  have so: "sorted_cells ([] :: (bytes \<times> bytes) list)" "sorted_cells ?ds" and n: "2 \<le> (4 :: nat)" "(4 :: nat) \<le> 8" by simp_all
  note P = twin_leaves_props [OF fits(1) so(1) fits(2) so(2) n]
  have none: "mirror_view ?X Map.empty = Map.empty"
    by (simp add: mirror_view_def mirrorLoad_def tree_pair_def demo_mirror_def demo_files_def fun_eq_iff)
  have d: "isDurableIdentityKey ?key" "ascii ?key" by code_simp+
  have m: "store_map ?X 2 (?s, Map.empty) ?key = Some [7]"
    using d(1) by (simp add: store_map_def logical_def P(2,3) none)
  have room: "both_room 2 ?s ?key [7]" using fits(3,4) by (rule P(4))
  have ok: "mirror_ok ?X" by (rule demo_mirror_ok) (simp add: tree_pair_def)
  have asc: "mirror_ascii ?X Map.empty" by (simp add: mirror_ascii_def none)
  from conjunct1 [OF replicated_store [OF refl P(1) ok asc d(2)]] m room show ?thesis by (auto simp: Let_def)
qed



end
