(* ===== verification/MemDB.thy ===== *)
theory MemDB
  imports KVOps
begin

text \<open>
  The operations of \<open>DB\<close> on slotted pages are total on the in-memory engine: with two frames
  every fetch succeeds, so \<open>Read\<close>, \<open>Scan\<close> and \<open>Write\<close> do what the records of the page say.
\<close>

section \<open>Work on one page\<close>

lemma ready_db_inv: "ready fuel (bp db) \<Longrightarrow> db_inv mem_stored lru_inv pageMap db"
  by (simp add: ready_def mp.idle_def db_inv_def)

lemma unpin_data_dirty:
  assumes "pool_wf q" "map_of (pageTable q) i = Some k" "is_dirty (UnpinPage i d (set_data k x q)) l"
  shows "l = i \<and> d \<or> is_dirty q l"
proof -
  have k: "k < length (frames q)" using pool_wfD(1) [OF assms(1,2)] .
  have "m \<noteq> k" if "map_of (pageTable q) l = Some m" "l \<noteq> i" for m using pool_wf_inj [OF assms(1) _ assms(2), of l] that by blast
  then show ?thesis using assms(2,3) k by (cases "l = i") (auto simp: is_dirty_def UnpinPage_def set_data_def frames_upd)
qed

text \<open>The page is a slotted page when it is modified: a tree page would have to be shown to be
  no internal node.\<close>

lemma mem_on_page:
  assumes r: "ready fuel (bp db)" and b: "unat i < 2 ^ 48" and rep: "page_records mem_stored db i rs"
    and len: "\<And>d. holds rs d \<Longrightarrow> length (snd (work d)) = PageSize" and dirty: "isDirty \<or> (\<forall>d. snd (work d) = d)"
    and slot: "isDirty \<Longrightarrow> \<not> isBTreeKVPage i"
  obtains a db' d where "on_page (mem_env fuel) i isDirty work db = (Inr a, db')" "ready fuel (bp db')" "frame_but mem_stored {i} db db'"
    "holds rs d" "same_page i d (db_view db i)" "work d = (a, db_view db' i)"
proof -
  have p: "pool_inv mem_stored lru_inv pageMap {} (bp db)" "tight pageMap (bp db)" "checked mem_stored (bp db)" "\<And>j. pins (bp db) j = 0"
      "2 \<le> length (frames (bp db))" "length (frames (bp db)) \<le> fuel" "inner_clean (bp db)"
    using r by (simp_all add: ready_def mp.idle_def)
  have "card {j. 0 < pins (bp db) j} < length (frames (bp db))" using p(4,5) by auto
  then obtain idx q where F: "FetchPage (mem_env fuel) i (bp db) = (Inr idx, q)" using FetchPage_ok [OF p(1-3) b _ p(6)] by blast
  obtain a d where w: "work (pgData (frames q ! idx)) = (a, d)" by fastforce
  let ?s = "set_data idx d q" let ?db = "db\<lparr>bp := UnpinPage i isDirty ?s\<rparr>"
  have run: "on_page (mem_env fuel) i isDirty work db = (Inr a, ?db)" using F w by (simp add: on_page_def)
  have sr: "holds rs d" if "length d = PageSize" "same_page i d (db_view db i)" for d
    using rep holds_same [OF that(2,1)] by (simp add: page_records_def)
  have len': "length (snd (work d)) = PageSize" if "length d = PageSize" "same_page i d (db_view db i)" for d
    by (rule len [OF sr [OF that]])
  note P = mp.on_page_contract [OF ready_db_inv [OF r] b len' dirty run]
  have inv: "db_inv mem_stored lru_inv pageMap ?db" and fr: "frame_but mem_stored {i} db ?db"
    and ex: "\<exists>d. length d = PageSize \<and> same_page i d (db_view db i) \<and> work d = (a, db_view ?db i)"
    using P unfolding sum.case by blast+
  have T: "tight pageMap q" "length (frames q) = length (frames (bp db))" using mp.FetchPage_tight [OF p(1,2) F] by simp_all
  have "tight pageMap ?s" "length (frames ?s) = length (frames (bp db))" using T by (simp_all add: set_data_def tight_def)
  moreover have "checked mem_stored ?s"
    by (rule checked_cong [OF _ _ _ mp.FetchPage_checked [OF p(1,3) F b]]) (simp_all add: set_data_def dirty_upd)
  ultimately have "tight pageMap (bp ?db)" "checked mem_stored (bp ?db)" "length (frames (bp ?db)) = length (frames (bp db))"
    using mp.UnpinPage_tight [of ?s i isDirty] mp.UnpinPage_checked [of ?s i isDirty] by simp_all
  moreover obtain d' where d': "length d' = PageSize" "same_page i d' (db_view db i)" "work d' = (a, db_view ?db i)" using ex by blast
  moreover have "inner_clean (bp ?db)"
    unfolding inner_clean_def
  proof (intro allI impI)
    fix l assume l: "tree_id l" "is_dirty (bp ?db) l"
    have "pool_wf q" "map_of (pageTable q) i = Some idx" using mp.FetchPage_inv [OF p(1) b _ F] p(4) by (simp_all add: pool_inv_def)
    then have "l = i \<and> isDirty \<or> is_dirty q l" using unpin_data_dirty [of q i idx isDirty d l] l(2) by simp
    then have "is_dirty (bp db) l" "l \<noteq> i \<or> \<not> isDirty" using slot l(1) mp.FetchPage_dirty [OF p(1) F] by (auto simp: tree_id_def)
    moreover from this(2) have "db_view ?db l = db_view db l"
      using fr l(1) d' dirty by (cases "l = i") (auto simp: frame_but_def tree_id_def same_page_def dest: spec [of _ d'])
    ultimately show "PageType (mview (bp ?db) l) \<noteq> PageTypeInternal" using p(7) l(1) by (simp add: inner_clean_def)
  qed
  ultimately have "ready fuel (bp ?db)" using inv p(5,6) by (simp add: ready_def mp.idle_def db_inv_def)
  with d' show thesis by (intro that [OF run _ fr sr])
qed

section \<open>Reading and scanning\<close>

lemma mem_Read:
  assumes "ready fuel (bp db)" "unat i < 2 ^ 48" "page_records mem_stored db i rs"
  obtains db' where "Read (mem_env fuel) R i t key db = (found (read_spec (activeTxns db) t key (clock R) rs), db')"
    "ready fuel (bp db')" "frame_but mem_stored {} db db'" "page_records mem_stored db' i rs"
proof -
  let ?work = "\<lambda>d. (page_Read (activeTxns db) t key (clock R) d, d)"
  obtain a db' d where o: "on_page (mem_env fuel) i False ?work db = (Inr a, db')" "ready fuel (bp db')" "holds rs d" "same_page i d (db_view db i)" "?work d = (a, db_view db' i)"
    by (rule mem_on_page [OF assms, of ?work False]) (use holds_length in auto)
  have run: "Read (mem_env fuel) R i t key db = (a, db')" using o(1) by (simp add: Read_def)
  have a: "a = found (read_spec (activeTxns db) t key (clock R) rs)" using o(5) page_Read_holds [OF o(3)] by (simp add: found_def)
  note C = mp.Read_contract [OF ready_db_inv [OF assms(1)] assms(2,3) run]
  show thesis by (rule that [OF run [unfolded a] o(2)]) (use C in blast)+
qed

text \<open>The pairs a scan visits: each key with the prefix that a read finds, once, in any order.\<close>

definition scan_pairs :: "TxnID set \<Rightarrow> TxnID \<Rightarrow> bytes \<Rightarrow> int \<Rightarrow> srec list \<Rightarrow> (bytes \<times> bytes) list \<Rightarrow> bool" where
  "scan_pairs active t prefix now rs xs \<longleftrightarrow> distinct (map fst xs) \<and>
     (\<forall>k. map_of xs k = (if has_prefix k prefix then read_spec active t k now rs else None))"

fun pair_loop :: "('s \<Rightarrow> bytes \<Rightarrow> bytes \<Rightarrow> bool \<times> 's) \<Rightarrow> (bytes \<times> bytes) list \<Rightarrow> 's \<Rightarrow> 's" where
  "pair_loop iter [] st = st"
| "pair_loop iter ((k, v) # rest) st = (let (more, st') = iter st k v in if more then pair_loop iter rest st' else st')"

lemma iter_loop_pairs: "iter_loop iter l st = pair_loop iter (map (\<lambda>(k, x). (k, scVal x)) l) st"
  by (induction l arbitrary: st) (auto split: prod.split)

lemma page_Scan_pairs:
  assumes h: "holds rs d" and perm: "\<And>l. mset (perm l) = mset l"
  obtains xs where "scan_pairs active t prefix now rs xs" "page_Scan perm active t prefix now iter st d = Inr (pair_loop iter xs st)"
proof -
  define S where "S = foldl (\<lambda>st (i, r). scan_body active t prefix now i r st) [] (enumerate 0 rs)"
  note S = scan_fold [of active t prefix now rs, folded S_def]
  have latest: "scan_latest active t prefix now d = Inr S"
    using h blank_fields(1) [of d] by (auto simp: holds_def scan_latest_def slot_loop_all S_def)
  let ?xs = "map (\<lambda>(k, x). (k, scVal x)) (perm S)"
  have d: "distinct (map fst (perm S))" using S perm [of S] by (metis mset_eq_imp_distinct_iff mset_map)
  have "set (perm S) = set S" using perm by (metis set_mset_mset)
  then have m: "map_of (perm S) = map_of S" using map_of_inject_set [OF d, of S] S by blast
  have "scan_pairs active t prefix now rs ?xs"
    unfolding scan_pairs_def
  proof (intro conjI allI)
    show "distinct (map fst ?xs)" using d by (simp add: comp_def case_prod_unfold)
    show "map_of ?xs k = (if has_prefix k prefix then read_spec active t k now rs else None)" for k
      using S by (simp add: map_of_map_snd m)
  qed
  then show thesis by (rule that) (simp add: page_Scan_def latest iter_loop_pairs)
qed

lemma mem_Scan:
  assumes "ready fuel (bp db)" "unat i < 2 ^ 48" "page_records mem_stored db i rs" and perm: "\<And>l. mset (sperm R l) = mset l"
  obtains xs db' where "Scan (mem_env fuel) R i t prefix iter st db = (Inr (pair_loop iter xs st), db')"
    "scan_pairs (activeTxns db) t prefix (clock R) rs xs" "ready fuel (bp db')" "frame_but mem_stored {} db db'" "page_records mem_stored db' i rs"
proof -
  let ?work = "\<lambda>d. (page_Scan (sperm R) (activeTxns db) t prefix (clock R) iter st d, d)"
  obtain a db' d where o: "on_page (mem_env fuel) i False ?work db = (Inr a, db')" "ready fuel (bp db')" "frame_but mem_stored {i} db db'"
      "holds rs d" "same_page i d (db_view db i)" "?work d = (a, db_view db' i)"
    by (rule mem_on_page [OF assms(1-3), of ?work False]) (use holds_length in auto)
  obtain xs where xs: "scan_pairs (activeTxns db) t prefix (clock R) rs xs" "a = Inr (pair_loop iter xs st)"
    by (rule page_Scan_pairs [OF o(4) perm, of "activeTxns db" t prefix "clock R" iter st]) (use o(6) in auto)
  have "same_page i (db_view db' i) (db_view db i)" using o(5,6) by simp
  then have "frame_but mem_stored {} db db'" using o(3) by (auto simp: frame_but_def)
  moreover have "page_records mem_stored db' i rs" using o(4,6) by (simp add: page_records_def)
  ultimately show thesis using o(1,2) xs by (intro that) (simp_all add: Scan_def)
qed

section \<open>Writing\<close>

lemma mem_Write:
  fixes t :: TxnID and prm :: mix_param
  assumes r: "ready fuel (bp db)" and b: "unat i < 2 ^ 48" "\<not> isBTreeKVPage i" and rep: "page_records mem_stored db i rs" and small: "24 + length key + length val < 2 ^ 31"
    and perm: "mset (cperm R (survivors (clock R) rs)) = mset (survivors (clock R) rs)"
  defines "r0 \<equiv> new_record R t key val prm" and "rs' \<equiv> after_compaction (cperm R) (clock R) rs (new_record R t key val prm)"
  obtains db' where "Write (mem_env fuel) R i t key val prm db = (if fits rs' r0 then None else Some ErrOverflow, db')"
    "ready fuel (bp db')" "frame_but mem_stored {i} db db'" "page_records mem_stored db' i (if fits rs' r0 then rs' @ [r0] else rs')"
proof -
  have rs: "rsize r0 < 2 ^ 31" using small by (simp add: r0_def new_record_def length_record_bytes)
  have W: "\<exists>d'. page_Write (cperm R) (clock R) r0 d = (if fits rs' r0 then None else Some ErrOverflow, d') \<and>
    slotted_rep (if fits rs' r0 then rs' @ [r0] else rs') d'" if "holds rs d" for d
    unfolding rs'_def r0_def [symmetric] by (rule page_Write_holds [where perm = "cperm R" and now = "clock R", OF that rs perm])
  let ?work = "\<lambda>d. case page_Write (cperm R) (clock R) r0 d of (e, d') \<Rightarrow> ((e, compacts R r0 True d), d')"
  have len: "length (snd (?work d)) = PageSize" if "holds rs d" for d using W [OF that] by (auto simp: slotted_rep_def)
  obtain a db1 d where o: "on_page (mem_env fuel) i True ?work db = (Inr a, db1)" "ready fuel (bp db1)" "frame_but mem_stored {i} db db1"
      "holds rs d" "same_page i d (db_view db i)" "?work d = (a, db_view db1 i)"
    by (rule mem_on_page [OF r b(1) rep len, where isDirty = True]) (use b(2) in auto)
  obtain c where a: "a = (if fits rs' r0 then None else Some ErrOverflow, c)" "slotted_rep (if fits rs' r0 then rs' @ [r0] else rs') (db_view db1 i)"
    using W [OF o(4)] o(6) by auto
  have "Write (mem_env fuel) R i t key val prm db = (if fits rs' r0 then None else Some ErrOverflow, compaction_metric R c db1)"
    using o(1) a(1) unfolding Write_def Let_def r0_def new_record_def by simp
  then show thesis
    by (rule that) (use o(2,3) a(2) in \<open>auto simp: page_records_def holds_def frame_but_def\<close>)
qed

text \<open>The first record of a page.\<close>

lemma mem_Write_first:
  assumes r: "ready fuel (bp db)" and b: "unat i < 2 ^ 48" "\<not> isBTreeKVPage i" and rep: "page_records mem_stored db i []" and small: "24 + length key + length val < 1000"
  obtains db' where "Write (mem_env fuel) run0 i t key val prm db = (None, db')" "ready fuel (bp db')" "frame_but mem_stored {i} db db'"
    "page_records mem_stored db' i [new_record run0 t key val prm]"
proof -
  let ?r = "new_record run0 t key val prm"
  have ac: "after_compaction (cperm run0) (clock run0) [] ?r = []" by (simp add: after_compaction_def survivors_def run0_def)
  have fit: "fits [] ?r" using small by (simp add: length_record_bytes new_record_def layout_defs)
  have cp: "mset (cperm run0 (survivors (clock run0) [])) = mset (survivors (clock run0) [])" by (simp add: run0_def)
  have sm: "24 + length key + length val < 2 ^ 31" using small by simp
  show thesis
    by (rule mem_Write [where R = run0 and t = t and prm = prm, OF r b rep sm cp]) (rule that, simp_all only: ac fit if_True append_Nil)
qed

lemma mem_db_ready: "ready 8 (bp mem_db)"
proof -
  have "checked mem_stored (bp mem_db)"
    unfolding mem_db_def NewDB_def by (simp add: NewBufferPool_checked passes_def page_at_def mem_stored_def)
  moreover have "inner_clean (bp mem_db)" by (simp add: mem_db_def NewDB_def new_pool_clean)
  ultimately show ?thesis
    by (auto simp: mem_db_def NewDB_def ready_def mp.idle_def NewBufferPool_inv lru_inv_def tight_def NewBufferPool_def NewLRUEvictionPolicy_def
      pool_inv_def pool_wf_def coherent_def pins_def)
qed

lemma compactPage_holds:
  assumes "holds rs d" "mset (perm (survivors now rs)) = mset (survivors now rs)"
  obtains d' where "compactPage perm now d = Inr d'" "slotted_rep (map snd (perm (survivors now rs))) d'"
proof (cases "slotted_rep rs d")
  case True
  then show thesis using compactPage_rep [of rs d perm now, OF True assms(2)] that by blast
next
  case False
  then have rs: "rs = []" "blank d" using assms(1) by (simp_all add: holds_def)
  have e: "survivors now [] = []" by (simp add: survivors_def)
  then have p: "perm [] = []" using assms(2) by (simp add: rs(1))
  have "slotted_rep [] (Init d)" using rs(2) Init_rep(1) [of d] by (simp add: blank_def)
  then have "slotted_rep [] (SetSlotCount 0 (Init d))" by (simp add: slotted_rep_def has_prefix_def)
  moreover have "compactPage perm now d = Inr (SetSlotCount 0 (Init d))" using blank_fields(1) [OF rs(2)] by (simp add: compactPage_def p)
  ultimately show thesis by (intro that) (simp_all add: rs(1) e p)
qed

lemma mem_Compact:
  assumes r: "ready fuel (bp db)" and b: "unat i < 2 ^ 48" "\<not> isBTreeKVPage i" and rep: "page_records mem_stored db i rs"
    and perm: "mset (cperm R (survivors (clock R) rs)) = mset (survivors (clock R) rs)"
  obtains db' where "CompactSlottedPage (mem_env fuel) R i db = (None, db')" "ready fuel (bp db')" "frame_but mem_stored {i} db db'"
    "page_records mem_stored db' i (map snd (cperm R (survivors (clock R) rs)))"
proof -
  let ?work = "\<lambda>d. case compactPage (cperm R) (clock R) d of Inl e \<Rightarrow> (Some e, d) | Inr d' \<Rightarrow> (None, d')"
  have W: "fst (?work d) = None \<and> slotted_rep (map snd (cperm R (survivors (clock R) rs))) (snd (?work d))" if "holds rs d" for d
    by (rule compactPage_holds [of rs d "cperm R" "clock R", OF that perm]) simp
  have len: "length (snd (?work d)) = PageSize" if "holds rs d" for d using W [OF that] by (simp add: slotted_rep_def)
  obtain a db1 d where o: "on_page (mem_env fuel) i True ?work db = (Inr a, db1)" "ready fuel (bp db1)" "frame_but mem_stored {i} db db1"
      "holds rs d" "?work d = (a, db_view db1 i)"
    by (rule mem_on_page [OF r b(1) rep len, where isDirty = True]) (use b(2) in auto)
  have "a = None" "slotted_rep (map snd (cperm R (survivors (clock R) rs))) (db_view db1 i)" using W [OF o(4)] unfolding o(5) by simp_all
  then show thesis
    using o(1-3) by (intro that [of "compaction_metric R True db1"]) (auto simp: CompactSlottedPage_def page_records_def holds_def frame_but_def)
qed

text \<open>Transactions do not touch the pool.\<close>

lemma txn_bp [simp]: "bp (snd (BeginTxn db)) = bp db" "bp (CommitTxn t db) = bp db"
  by (simp_all add: BeginTxn_def CommitTxn_def note_active_def Let_def)

lemma txn_sets: "fst (BeginTxn db) = nextTxnID db + 1" "activeTxns (snd (BeginTxn db)) = insert (nextTxnID db + 1) (activeTxns db)"
  "nextTxnID (snd (BeginTxn db)) = nextTxnID db + 1" "activeTxns (CommitTxn t db) = activeTxns db - {t}" "nextTxnID (CommitTxn t db) = nextTxnID db"
  by (simp_all add: BeginTxn_def CommitTxn_def note_active_def Let_def)

end
