(* ===== verification/HotSwap.thy ===== *)
theory HotSwap
  imports MemDB
begin

text \<open>
  The hot-swap store of \<open>hotswap_store.go\<close>: a tree store in front of a slotted page that holds
  the keys of an older layout. Lookups fall back to the page until the migration is complete and
  copy what they find into the tree; the migration copies all keys and leaves a marker in
  the tree.

  The tree and the page live in one database. Every call of the database may see another clock
  and another order of its maps, so the environment of a call is given by its number.
  Log messages are not modelled; the database is never nil after the constructor.
\<close>

section \<open>State\<close>

record HotSwapConfig =
  HotRoot :: PageID
  LegacyPage :: PageID
  MarkerKey :: "bytes option"
  LegacyMatch :: "(bytes \<Rightarrow> bool) option"

record ('d, 'e) HotSwapKVStore =
  hsHot :: "(btree \<times> ('d, 'e) db, kv_iter) kv_ops"
  legacyPage :: PageID
  markerKey :: bytes
  legacyMatch :: "(bytes \<Rightarrow> bool) option"
  hsEnv :: "('d, 'e) env"
  hsRun :: "nat \<Rightarrow> run_env"
  hsOrder :: "(bytes \<times> bytes) list \<Rightarrow> (bytes \<times> bytes) list"

record ('d, 'e) hot_state =
  hotTree :: btree
  hotDB :: "('d, 'e) db"
  hotCalls :: nat
  migrateOnce :: bool

definition hot :: "('d, 'e) HotSwapKVStore \<Rightarrow> (('d, 'e) hot_state, kv_iter) kv_ops" where
  "hot X = within_state (\<lambda>s. (hotTree s, hotDB s)) (\<lambda>(t, db) s. s\<lparr>hotTree := t, hotDB := db\<rparr>) (hsHot X)"

definition NewHotSwapKVStore ::
  "('d, 'e) env \<Rightarrow> run_env \<Rightarrow> ((bytes \<times> bytes) list \<Rightarrow> (bytes \<times> bytes) list) \<Rightarrow> nat \<Rightarrow> (nat \<Rightarrow> run_env) \<Rightarrow> HotSwapConfig \<Rightarrow>
   ('d, 'e) db option \<Rightarrow> (('d, 'e) HotSwapKVStore \<times> ('d, 'e) hot_state) result" where
  "NewHotSwapKVStore E R mperm n rs cfg dbo =
     (case dbo of
        None \<Rightarrow> Inl GoPanic
      | Some db \<Rightarrow>
          (case NewBTreeKVStoreWithRoot E R mperm n (HotRoot cfg) db of
             (Inl e, _) \<Rightarrow> Inl e
           | (Inr t, db1) \<Rightarrow>
               Inr (\<lparr>hsHot = btree_ops E n (\<lambda>s. s), legacyPage = LegacyPage cfg,
                     markerKey = (case MarkerKey cfg of None \<Rightarrow> bytes_of ''__hotswap_migrated__'' | Some k \<Rightarrow> k),
                     legacyMatch = LegacyMatch cfg, hsEnv = E, hsRun = rs, hsOrder = mperm\<rparr>,
                    \<lparr>hotTree = t, hotDB = db1, hotCalls = 0, migrateOnce = False\<rparr>)))"

section \<open>Calls of the database\<close>

definition on_db :: "('d, 'e) HotSwapKVStore \<Rightarrow> (run_env \<Rightarrow> ('d, 'e) db \<Rightarrow> 'a \<times> ('d, 'e) db) \<Rightarrow> ('d, 'e) hot_state \<Rightarrow> 'a \<times> ('d, 'e) hot_state" where
  "on_db X f s = (case f (hsRun X (hotCalls s)) (hotDB s) of (a, db) \<Rightarrow> (a, s\<lparr>hotDB := db, hotCalls := hotCalls s + 1\<rparr>))"

definition legacy_begin :: "('d, 'e) hot_state \<Rightarrow> TxnID \<times> ('d, 'e) hot_state" where
  "legacy_begin s = (case BeginTxn (hotDB s) of (t, db) \<Rightarrow> (t, s\<lparr>hotDB := db\<rparr>))"

definition legacy_commit :: "TxnID \<Rightarrow> ('d, 'e) hot_state \<Rightarrow> ('d, 'e) hot_state" where
  "legacy_commit t s = s\<lparr>hotDB := CommitTxn t (hotDB s)\<rparr>"

definition migrationDone :: "('d, 'e) HotSwapKVStore \<Rightarrow> ('d, 'e) hot_state \<Rightarrow> bool result \<times> ('d, 'e) hot_state" where
  "migrationDone X s =
     (case kvGet (hot X) (markerKey X) s of
        (Inl e, s1) \<Rightarrow> (if fatal e then Inl e else Inr False, s1)
      | (Inr _, s1) \<Rightarrow> (Inr True, s1))"

text \<open>The callback of the second attempt stops at the first key it is given.\<close>

definition exact_iter :: "bytes \<Rightarrow> bytes \<Rightarrow> bytes \<Rightarrow> bytes \<Rightarrow> bool \<times> bytes" where
  "exact_iter key acc k v = (False, if k = key \<and> v \<noteq> [] then v else acc)"

definition legacyGet :: "('d, 'e) HotSwapKVStore \<Rightarrow> bytes \<Rightarrow> ('d, 'e) hot_state \<Rightarrow> bytes option result \<times> ('d, 'e) hot_state" where
  "legacyGet X key s =
     (if legacyPage X = 0 then (Inr None, s)
      else let (txn, s1) = legacy_begin s;
               (r, s2) = on_db X (\<lambda>R. Read (hsEnv X) R (legacyPage X) txn key) s1
           in if stopped r then (Inl (projl r), s2)
              else case hit r of
                     Some raw \<Rightarrow> (Inr (Some raw), legacy_commit txn s2)
                   | None \<Rightarrow>
                       (case on_db X (\<lambda>R. Scan (hsEnv X) R (legacyPage X) txn key (exact_iter key) []) s2 of
                          (Inl e, s3) \<Rightarrow> if fatal e then (Inl e, s3) else (Inr None, legacy_commit txn s3)
                        | (Inr val, s3) \<Rightarrow> (Inr (if val = [] then None else Some val), legacy_commit txn s3)))"

definition expireLegacyKey :: "('d, 'e) HotSwapKVStore \<Rightarrow> bytes \<Rightarrow> ('d, 'e) hot_state \<Rightarrow> unit result \<times> ('d, 'e) hot_state" where
  "expireLegacyKey X key s =
     (if legacyPage X = 0 then (Inr (), s)
      else let (txn, s1) = legacy_begin s
           in ignoring (on_db X (\<lambda>R. Write (hsEnv X) R (legacyPage X) txn key [] (DurationParam 1)) s1)
                (\<lambda>s2. (Inr (), legacy_commit txn s2)))"

definition hotGetNoFallback :: "('d, 'e) HotSwapKVStore \<Rightarrow> bytes \<Rightarrow> ('d, 'e) hot_state \<Rightarrow> bytes result \<times> ('d, 'e) hot_state" where
  "hotGetNoFallback X key = kvGet (hot X) key"

definition promoteLegacy :: "('d, 'e) HotSwapKVStore \<Rightarrow> bytes \<Rightarrow> bytes \<Rightarrow> ('d, 'e) hot_state \<Rightarrow> unit result \<times> ('d, 'e) hot_state" where
  "promoteLegacy X key val s =
     (if val = [] then (Inr (), s) else ignoring (kvPut (hot X) key val 0 s) (\<lambda>s1. (Inr (), s1)))"

definition legacy_key :: "('d, 'e) HotSwapKVStore \<Rightarrow> bytes \<Rightarrow> bool" where
  "legacy_key X key \<longleftrightarrow> (case legacyMatch X of None \<Rightarrow> True | Some f \<Rightarrow> f key)"

section \<open>The store operations\<close>

definition HS_Get :: "('d, 'e) HotSwapKVStore \<Rightarrow> bytes \<Rightarrow> ('d, 'e) hot_state \<Rightarrow> bytes result \<times> ('d, 'e) hot_state" where
  "HS_Get X key s =
     (case kvGet (hot X) key s of
        (r, s1) \<Rightarrow>
          if stopped r \<or> hit r \<noteq> None then (r, s1)
          else (case migrationDone X s1 of
                  (Inl e, s2) \<Rightarrow> (Inl e, s2)
                | (Inr done, s2) \<Rightarrow>
                    if done \<or> \<not> legacy_key X key then (Inl ErrKeyNotFound, s2)
                    else (case legacyGet X key s2 of
                            (Inl e, s3) \<Rightarrow> (Inl e, s3)
                          | (Inr None, s3) \<Rightarrow> (Inl ErrKeyNotFound, s3)
                          | (Inr (Some legacy), s3) \<Rightarrow>
                              (case promoteLegacy X key legacy s3 of
                                 (Inl e, s4) \<Rightarrow> (Inl e, s4)
                               | (Inr _, s4) \<Rightarrow> (Inr legacy, s4)))))"

definition HS_Put :: "('d, 'e) HotSwapKVStore \<Rightarrow> bytes \<Rightarrow> bytes \<Rightarrow> int \<Rightarrow> ('d, 'e) hot_state \<Rightarrow> error option \<times> ('d, 'e) hot_state" where
  "HS_Put X key value ttl = kvPut (hot X) key value ttl"

definition HS_Delete :: "('d, 'e) HotSwapKVStore \<Rightarrow> bytes \<Rightarrow> ('d, 'e) hot_state \<Rightarrow> error option \<times> ('d, 'e) hot_state" where
  "HS_Delete X key s =
     (case kvDelete (hot X) key s of
        (Some e, s1) \<Rightarrow> (Some e, s1)
      | (None, s1) \<Rightarrow> (case expireLegacyKey X key s1 of (Inl e, s2) \<Rightarrow> (Some e, s2) | (Inr _, s2) \<Rightarrow> (None, s2)))"

definition HS_Flush :: "('d, 'e) HotSwapKVStore \<Rightarrow> ('d, 'e) hot_state \<Rightarrow> error option \<times> ('d, 'e) hot_state" where
  "HS_Flush X = kvFlush (hot X)"

section \<open>Migration\<close>

definition pending_iter :: "('d, 'e) HotSwapKVStore \<Rightarrow> (bytes \<times> bytes) list \<Rightarrow> bytes \<Rightarrow> bytes \<Rightarrow> bool \<times> (bytes \<times> bytes) list" where
  "pending_iter X pending k v = (True, if v = [] \<or> \<not> legacy_key X k then pending else pending @ [(k, v)])"

text \<open>The copying loop returns the number of keys copied and the error that ended it.\<close>

fun migrate_loop ::
  "('d, 'e) HotSwapKVStore \<Rightarrow> (bytes \<times> bytes) list \<Rightarrow> nat \<Rightarrow> ('d, 'e) hot_state \<Rightarrow> (nat \<times> error option) \<times> ('d, 'e) hot_state" where
  "migrate_loop X [] copied s = ((copied, None), s)"
| "migrate_loop X ((key, val) # rest) copied s =
     (case hotGetNoFallback X key s of
        (r, s1) \<Rightarrow>
          if stopped r then ((copied, Some (projl r)), s1)
          else if hit r \<noteq> None
          then (case expireLegacyKey X key s1 of
                  (Inl e, s2) \<Rightarrow> ((copied, Some e), s2)
                | (Inr _, s2) \<Rightarrow> migrate_loop X rest copied s2)
          else (case kvPut (hot X) key val 0 s1 of
                  (Some e, s2) \<Rightarrow> ((copied, Some e), s2)
                | (None, s2) \<Rightarrow>
                    (case expireLegacyKey X key s2 of
                       (Inl e, s3) \<Rightarrow> ((copied, Some e), s3)
                     | (Inr _, s3) \<Rightarrow> migrate_loop X rest (copied + 1) s3)))"

definition finish_migration ::
  "('d, 'e) HotSwapKVStore \<Rightarrow> nat \<Rightarrow> ('d, 'e) hot_state \<Rightarrow> (nat \<times> error option) \<times> ('d, 'e) hot_state" where
  "finish_migration X copied s =
     (case on_db X (\<lambda>R. CompactSlottedPage (hsEnv X) R (legacyPage X)) s of
        (e, s1) \<Rightarrow>
          if (case e of Some x \<Rightarrow> fatal x | None \<Rightarrow> False) then ((copied, e), s1)
          else (case kvPut (hot X) (markerKey X) (bytes_of ''1'') 0 s1 of
                  (Some e, s2) \<Rightarrow> ((copied, Some e), s2)
                | (None, s2) \<Rightarrow> (case kvFlush (hot X) s2 of (e, s3) \<Rightarrow> ((copied, e), s3))))"

definition MigrateLegacy :: "('d, 'e) HotSwapKVStore \<Rightarrow> ('d, 'e) hot_state \<Rightarrow> (nat \<times> error option) \<times> ('d, 'e) hot_state" where
  "MigrateLegacy X s =
     (case migrationDone X s of
        (Inl e, s1) \<Rightarrow> ((0, Some e), s1)
      | (Inr done, s1) \<Rightarrow>
          if done \<or> legacyPage X = 0 then ((0, None), s1)
          else let (txn, s2) = legacy_begin s1;
                   (r, s3) = on_db X (\<lambda>R. Scan (hsEnv X) R (legacyPage X) txn [] (pending_iter X) []) s2
               in if stopped r then ((0, Some (projl r)), s3)
                  else (case migrate_loop X (case r of Inl _ \<Rightarrow> [] | Inr pending \<Rightarrow> pending) 0 (legacy_commit txn s3) of
                          ((copied, Some e), s4) \<Rightarrow> ((copied, Some e), s4)
                        | ((copied, None), s4) \<Rightarrow> finish_migration X copied s4))"

text \<open>The first call starts a goroutine that runs \<open>MigrateLegacy\<close>.\<close>

definition StartBackgroundMigration :: "('d, 'e) hot_state \<Rightarrow> bool \<times> ('d, 'e) hot_state" where
  "StartBackgroundMigration s = (\<not> migrateOnce s, s\<lparr>migrateOnce := True\<rparr>)"

section \<open>Iterators\<close>

record hotSwapIterator =
  hiHot :: kv_iter
  hiPrefix :: bytes
  hiLegacy :: "(bytes \<times> bytes) list"
  legacyIDs :: "bytes list"
  legacyPos :: nat
  legacyReady :: bool
  doneHot :: bool

definition HS_NewIterator :: "('d, 'e) HotSwapKVStore \<Rightarrow> bytes \<Rightarrow> ('d, 'e) hot_state \<Rightarrow> hotSwapIterator result \<times> ('d, 'e) hot_state" where
  "HS_NewIterator X prefix s =
     (case kvNewIterator (hot X) prefix s of
        (Inl e, s1) \<Rightarrow> (Inl e, s1)
      | (Inr it, s1) \<Rightarrow>
          (Inr \<lparr>hiHot = it, hiPrefix = prefix, hiLegacy = [], legacyIDs = [], legacyPos = 0, legacyReady = False, doneHot = False\<rparr>, s1))"

definition load_iter :: "('d, 'e) HotSwapKVStore \<Rightarrow> (bytes \<times> bytes) list \<Rightarrow> bytes \<Rightarrow> bytes \<Rightarrow> bool \<times> (bytes \<times> bytes) list" where
  "load_iter X m k v = (True, if v = [] \<or> \<not> legacy_key X k then m else AList.update k v m)"

text \<open>The lookup of the marker and the scan of the old page are those of a caller without latches;
  in the code the exhausted iterator of the tree may still hold the read latch of its leaf.\<close>

definition loadLegacy ::
  "('d, 'e) HotSwapKVStore \<Rightarrow> hotSwapIterator \<Rightarrow> ('d, 'e) hot_state \<Rightarrow> hotSwapIterator result \<times> ('d, 'e) hot_state" where
  "loadLegacy X it s =
     (if legacyReady it then (Inr it, s)
      else case migrationDone X s of
             (Inl e, s1) \<Rightarrow> (Inl e, s1)
           | (Inr done, s1) \<Rightarrow>
               if done then (Inr (it\<lparr>legacyReady := True\<rparr>), s1)
               else let (txn, s2) = legacy_begin s1;
                        (r, s3) = on_db X (\<lambda>R. Scan (hsEnv X) R (legacyPage X) txn (hiPrefix it) (load_iter X) []) s2;
                        m = (case r of Inl _ \<Rightarrow> [] | Inr m \<Rightarrow> m)
                    in if stopped r then (Inl (projl r), s3)
                       else (Inr (it\<lparr>hiLegacy := m, legacyIDs := legacyIDs it @ map fst (hsOrder X m), legacyReady := True\<rparr>),
                             legacy_commit txn s3))"

text \<open>The loop over the remaining legacy keys.\<close>

fun next_legacy :: "(bytes \<times> bytes) list \<Rightarrow> bytes list \<Rightarrow> nat \<Rightarrow> (bytes \<times> bytes) result \<times> nat" where
  "next_legacy m [] pos = (Inl ErrEOF, pos)"
| "next_legacy m (k # ks) pos =
     (case map_of m k of None \<Rightarrow> next_legacy m ks (pos + 1) | Some v \<Rightarrow> (Inr (k, v), pos + 1))"

definition HS_Next ::
  "('d, 'e) HotSwapKVStore \<Rightarrow> hotSwapIterator \<Rightarrow> ('d, 'e) hot_state \<Rightarrow>
   (bytes \<times> bytes) result \<times> hotSwapIterator \<times> ('d, 'e) hot_state" where
  "HS_Next X it s =
     (let from_legacy = (\<lambda>it s. case next_legacy (hiLegacy it) (drop (legacyPos it) (legacyIDs it)) (legacyPos it) of
                           (r, pos) \<Rightarrow> (r, it\<lparr>legacyPos := pos\<rparr>, s))
      in if doneHot it then from_legacy it s
         else case kvNext (hot X) (hiHot it) s of
                (Inr (k, v), h, s1) \<Rightarrow> (Inr (k, v), it\<lparr>hiHot := h, hiLegacy := AList.delete k (hiLegacy it)\<rparr>, s1)
              | (Inl e, h, s1) \<Rightarrow>
                  if e \<noteq> ErrEOF then (Inl e, it\<lparr>hiHot := h\<rparr>, s1)
                  else (case loadLegacy X (it\<lparr>hiHot := h, doneHot := True\<rparr>) s1 of
                          (Inl e, s2) \<Rightarrow> (Inl e, it\<lparr>hiHot := h, doneHot := True\<rparr>, s2)
                        | (Inr it2, s2) \<Rightarrow> from_legacy it2 s2))"

definition HS_Close :: "('d, 'e) HotSwapKVStore \<Rightarrow> hotSwapIterator \<Rightarrow> ('d, 'e) hot_state \<Rightarrow> error option \<times> ('d, 'e) hot_state" where
  "HS_Close X it s = kvClose (hot X) (hiHot it) s"

section \<open>The contract of the two halves\<close>

text \<open>Clients of the store see one map: the value in the tree, and until the marker is there the
  value of the old page for the keys the store takes over.\<close>

definition overlay_map :: "('d, 'e) HotSwapKVStore \<Rightarrow> (bytes \<rightharpoonup> bytes) \<Rightarrow> (bytes \<rightharpoonup> bytes) \<Rightarrow> bytes \<rightharpoonup> bytes" where
  "overlay_map X m old k =
     (case filled (m k) of
        Some v \<Rightarrow> Some v
      | None \<Rightarrow> if m (markerKey X) \<noteq> None \<or> \<not> legacy_key X k then None else old k)"

text \<open>A tree after the values of another map have been copied into it where it has none.\<close>

definition merged :: "(bytes \<rightharpoonup> bytes) \<Rightarrow> (bytes \<rightharpoonup> bytes) \<Rightarrow> bytes \<rightharpoonup> bytes" where
  "merged m old k = (if filled (m k) = None \<and> old k \<noteq> None then old k else m k)"

definition cell_need :: "(bytes \<times> bytes) list \<Rightarrow> nat" where
  "cell_need xs = (\<Sum>(k, v)\<leftarrow>xs. 4 + length k + length v)"

lemma cell_need_simps [simp]: "cell_need [] = 0" "cell_need ((k, v) # xs) = 4 + length k + length v + cell_need xs"
  by (simp_all add: cell_need_def)

locale overlay_store = store_side "hot X" inv mine old room
  for X :: "('d, 'e) HotSwapKVStore" and inv mine old room +
  fixes spare :: "('d, 'e) hot_state \<Rightarrow> nat \<Rightarrow> bool"
  assumes old_filled: "old s k \<noteq> Some []"
    and get_spare: "inv s \<Longrightarrow> spare (snd (kvGet (hot X) k s)) = spare s"
    and put_spare: "inv s \<Longrightarrow> spare s (4 + length k + length v + m) \<Longrightarrow> spare (snd (kvPut (hot X) k v ttl s)) m"
    and spare_room: "inv s \<Longrightarrow> spare s m \<Longrightarrow> 4 + length k + length v \<le> m \<Longrightarrow> room s k v"
    and spare_mono: "spare s m \<Longrightarrow> m' \<le> m \<Longrightarrow> spare s m'"
    and spare_small: "inv s \<Longrightarrow> spare s m \<Longrightarrow> m < PageSize"
    and legacy_law: "inv s \<Longrightarrow> \<exists>s'. legacyGet X k s = (Inr (old s k), s') \<and> inv s' \<and> mine s' = mine s \<and> room s' = room s"
    and expire_law: "inv s \<Longrightarrow> length k \<le> PageSize \<Longrightarrow>
      \<exists>s'. expireLegacyKey X k s = (Inr (), s') \<and> inv s' \<and> mine s' = mine s \<and> room s' = room s \<and> spare s' = spare s"
    and scan_law: "inv s \<Longrightarrow> legacyPage X \<noteq> 0 \<Longrightarrow> legacy_begin s = (txn, s1) \<Longrightarrow>
      \<exists>pending s2. on_db X (\<lambda>R. Scan (hsEnv X) R (legacyPage X) txn [] (pending_iter X) []) s1 = (Inr pending, s2) \<and>
        distinct (map fst pending) \<and> (\<forall>k. map_of pending k = (if legacy_key X k then old s k else None)) \<and>
        inv (legacy_commit txn s2) \<and> mine (legacy_commit txn s2) = mine s \<and> spare (legacy_commit txn s2) = spare s"
    and compact_law: "inv s \<Longrightarrow> \<exists>s'. on_db X (\<lambda>R. CompactSlottedPage (hsEnv X) R (legacyPage X)) s = (None, s') \<and>
        inv s' \<and> mine s' = mine s \<and> spare s' = spare s"
begin

lemma done_lemma:
  assumes "inv s"
  obtains s' where "migrationDone X s = (Inr (mine s (markerKey X) \<noteq> None), s')" "inv s'" "mine s' = mine s" "old s' = old s" "room s' = room s" "spare s' = spare s"
proof -
  obtain s' where g: "kvGet (hot X) (markerKey X) s = (found (mine s (markerKey X)), s')" "inv s'" "mine s' = mine s" "old s' = old s" "room s' = room s"
    by (rule getE [OF assms, of "markerKey X"])
  have "spare s' = spare s" using get_spare [OF assms, of "markerKey X"] g(1) by simp
  moreover have "migrationDone X s = (Inr (mine s (markerKey X) \<noteq> None), s')"
    using g(1) by (auto simp: migrationDone_def found_def split: option.splits)
  ultimately show thesis using g(2-5) by (intro that)
qed

lemma get_overlay:
  assumes s: "inv s" and room: "\<And>v. filled (mine s k) = None \<Longrightarrow> overlay_map X (mine s) (old s) k = Some v \<Longrightarrow> room s k v"
  defines "l \<equiv> overlay_map X (mine s) (old s) k"
  shows "\<exists>s'. HS_Get X k s = (found l, s') \<and> inv s' \<and> mine s' = (case l of Some v \<Rightarrow> (mine s)(k \<mapsto> v) | None \<Rightarrow> mine s)"
proof -
  obtain s1 where 1: "kvGet (hot X) k s = (found (mine s k), s1)" "inv s1" "mine s1 = mine s" "old s1 = old s" "room s1 = room s"
    by (rule getE [OF s, of k])
  show ?thesis
  proof (cases "filled (mine s k)")
    case (Some v)
    then show ?thesis using 1 by (auto simp: HS_Get_def l_def overlay_map_def hit_found filled_Some)
  next
    case None
    obtain s2 where 2: "migrationDone X s1 = (Inr (mine s (markerKey X) \<noteq> None), s2)" "inv s2" "mine s2 = mine s" "old s2 = old s" "room s2 = room s"
      using done_lemma [OF 1(2)] 1 by metis
    show ?thesis
    proof (cases "mine s (markerKey X) \<noteq> None \<or> \<not> legacy_key X k")
      case True
      then have "l = None" using None by (simp add: l_def overlay_map_def)
      with True None 1 2 show ?thesis by (simp add: HS_Get_def hit_found found_simps)
    next
      case False
      then have l: "l = old s k" using None by (simp add: l_def overlay_map_def)
      obtain s3 where 3: "legacyGet X k s2 = (Inr l, s3)" "inv s3" "mine s3 = mine s" "room s3 = room s"
        using legacy_law [OF 2(2), of k] 2 l by auto
      show ?thesis
      proof (cases l)
        case None
        with \<open>filled (mine s k) = None\<close> False 1 2 3 show ?thesis by (simp add: HS_Get_def hit_found found_simps)
      next
        case (Some v)
        have v: "v \<noteq> []" using old_filled [of s k] l Some by auto
        have "room s3 k v" using room [OF None, of v] Some 3(4) by (simp add: l_def)
        then obtain s4 where "kvPut (hot X) k v 0 s3 = (None, s4)" "inv s4" "mine s4 = (mine s3)(k \<mapsto> v)"
          using putE [OF 3(2), of k v 0] by metis
        with None False Some v 1 2 3 show ?thesis by (simp add: HS_Get_def promoteLegacy_def hit_found found_simps)
      qed
    qed
  qed
qed

text \<open>A deletion fails when the tree does not have the key, and then leaves the page alone.\<close>

lemma delete_overlay:
  assumes s: "inv s" and small: "length k \<le> PageSize"
  shows "\<exists>s'. HS_Delete X k s = (if mine s k = None then Some ErrKeyNotFound else None, s') \<and> inv s' \<and> mine s' = (mine s)(k := None) \<and>
    (mine s k = None \<longrightarrow> old s' = old s)"
proof -
  obtain s1 where 1: "kvDelete (hot X) k s = (if mine s k = None then Some ErrKeyNotFound else None, s1)" "inv s1" "mine s1 = (mine s)(k := None)" "old s1 = old s"
    by (rule deleteE [OF s, of k])
  show ?thesis
  proof (cases "mine s k = None")
    case True
    with 1 show ?thesis by (simp add: HS_Delete_def)
  next
    case False
    obtain s2 where "expireLegacyKey X k s1 = (Inr (), s2)" "inv s2" "mine s2 = mine s1" using expire_law [OF 1(2) small] by blast
    then have "HS_Delete X k s = (None, s2)" using False 1(1) by (simp add: HS_Delete_def)
    with False 1 \<open>inv s2\<close> \<open>mine s2 = mine s1\<close> show ?thesis by auto
  qed
qed

text \<open>One pass over the collected pairs copies those the tree has no value for.\<close>

lemma migrate_loop_overlay:
  assumes "inv s" "distinct (map fst xs)" "\<forall>(k, v)\<in>set xs. v \<noteq> []" "spare s (cell_need xs + m)"
  shows "\<exists>s'. migrate_loop X xs c s = ((c + length (filter (\<lambda>(k, v). filled (mine s k) = None) xs), None), s') \<and>
    inv s' \<and> spare s' m \<and> mine s' = merged (mine s) (map_of xs)"
  using assms
proof (induction xs arbitrary: c s)
  case Nil
  then show ?case by (simp add: merged_def fun_eq_iff)
next
  case (Cons x xs)
  obtain k v where x: "x = (k, v)" by fastforce
  have small: "length k \<le> PageSize" using spare_small [OF Cons.prems(1,4)] by (simp add: x)
  have k: "k \<notin> fst ` set xs" "map_of xs k = None" and v: "v \<noteq> []" and d: "distinct (map fst xs)" "\<forall>(k, v)\<in>set xs. v \<noteq> []"
    using Cons.prems(2,3) by (auto simp: x map_of_eq_None_iff)
  obtain s1 where 1: "hotGetNoFallback X k s = (found (mine s k), s1)" "inv s1" "mine s1 = mine s" "room s1 = room s" "spare s1 = spare s"
    using getE [OF Cons.prems(1), of k] get_spare [OF Cons.prems(1), of k] by (metis hotGetNoFallback_def snd_conv)
  have other: "filter (\<lambda>(k, v). filled (m k) = None) xs = filter (\<lambda>(k, v). filled (mine s k) = None) xs"
    if "\<And>k'. k' \<noteq> k \<Longrightarrow> m k' = mine s k'" for m
  proof (rule filter_cong [OF refl])
    fix y assume "y \<in> set xs"
    then have "fst y \<noteq> k" using k(1) by auto
    then show "(case y of (k, v) \<Rightarrow> filled (m k) = None) = (case y of (k, v) \<Rightarrow> filled (mine s k) = None)" using that by (cases y) simp
  qed
  show ?case
  proof (cases "filled (mine s k)")
    case None
    have "room s1 k v" using spare_room [OF 1(2), of _ k v] Cons.prems(4) 1(5) by (simp add: x)
    then obtain s2 where 2: "kvPut (hot X) k v 0 s1 = (None, s2)" "inv s2" "mine s2 = (mine s)(k \<mapsto> v)"
      using putE [OF 1(2), of k v 0] 1(3) by metis
    have sp: "spare s2 (cell_need xs + m)"
      using put_spare [OF 1(2), of k v "cell_need xs + m" 0] Cons.prems(4) 1(5) 2(1) by (simp add: x add.assoc)
    obtain s3 where 3: "expireLegacyKey X k s2 = (Inr (), s3)" "inv s3" "mine s3 = (mine s)(k \<mapsto> v)" "spare s3 = spare s2"
      using expire_law [OF 2(2) small] 2(3) by metis
    have f: "filter (\<lambda>(k, v). filled (mine s3 k) = None) xs = filter (\<lambda>(k, v). filled (mine s k) = None) xs"
      by (rule other) (simp add: 3(3))
    have step: "migrate_loop X (x # xs) c s = migrate_loop X xs (c + 1) s3"
      using None 1(1) 2(1) 3(1) by (simp add: x hit_found)
    obtain s' where L: "migrate_loop X xs (c + 1) s3 = ((c + 1 + length (filter (\<lambda>(k, v). filled (mine s k) = None) xs), None), s')"
      "inv s'" "spare s' m" "mine s' = merged (mine s3) (map_of xs)"
      using Cons.IH [OF 3(2) d, of "c + 1"] sp 3(4) unfolding f by auto
    have "merged (mine s3) (map_of xs) = merged (mine s) (map_of (x # xs))"
      using None v k(2) by (auto simp: merged_def 3(3) x fun_eq_iff)
    with L step None show ?thesis by (simp add: x fun_upd_def)
  next
    case (Some w)
    obtain s2 where 2: "expireLegacyKey X k s1 = (Inr (), s2)" "inv s2" "mine s2 = mine s" "spare s2 = spare s"
      using expire_law [OF 1(2) small] 1(3,5) by metis
    have step: "migrate_loop X (x # xs) c s = migrate_loop X xs c s2"
      using Some 1(1) 2(1) by (simp add: x hit_found)
    have "spare s2 (cell_need xs + m)" using spare_mono [OF Cons.prems(4)] 2(4) by (simp add: x)
    then obtain s' where L: "migrate_loop X xs c s2 = ((c + length (filter (\<lambda>(k, v). filled (mine s k) = None) xs), None), s')"
      "inv s'" "spare s' m" "mine s' = merged (mine s) (map_of xs)"
      using Cons.IH [OF 2(2) d, of c] 2(3) by auto
    have "merged (mine s) (map_of xs) = merged (mine s) (map_of (x # xs))"
      using Some k(2) by (auto simp: merged_def x fun_eq_iff)
    with L step Some show ?thesis by (simp add: x fun_upd_def)
  qed
qed

text \<open>The whole migration: the number of copied keys, the tree afterwards and the marker.\<close>

lemma migrate_overlay:
  assumes s: "inv s" and new: "mine s (markerKey X) = None" and page: "legacyPage X \<noteq> 0"
    and room: "\<And>xs. distinct (map fst xs) \<Longrightarrow> (\<And>k. map_of xs k = (if legacy_key X k then old s k else None)) \<Longrightarrow>
      spare s (cell_need xs + (4 + length (markerKey X) + 1))"
  defines "avail \<equiv> \<lambda>k. if legacy_key X k then old s k else None"
  shows "\<exists>s'. MigrateLegacy X s = ((card {k. filled (mine s k) = None \<and> avail k \<noteq> None}, None), s') \<and> inv s' \<and>
    mine s' = (merged (mine s) avail)(markerKey X \<mapsto> bytes_of ''1'')"
proof -
  obtain s1 where 1: "migrationDone X s = (Inr False, s1)" "inv s1" "mine s1 = mine s" "old s1 = old s" "spare s1 = spare s"
    using done_lemma [OF s] new by metis
  obtain txn s2 where 2: "legacy_begin s1 = (txn, s2)" by fastforce
  obtain xs s3 where 3: "on_db X (\<lambda>R. Scan (hsEnv X) R (legacyPage X) txn [] (pending_iter X) []) s2 = (Inr xs, s3)"
      "distinct (map fst xs)" "\<And>k. map_of xs k = avail k" "inv (legacy_commit txn s3)" "mine (legacy_commit txn s3) = mine s" "spare (legacy_commit txn s3) = spare s"
    using scan_law [OF 1(2) page 2] by (auto simp: 1(3-5) avail_def)
  have ne: "\<forall>(k, v)\<in>set xs. v \<noteq> []"
  proof (intro ballI, clarify)
    fix k assume "(k, []) \<in> set xs"
    then have "avail k = Some []" using 3(2) 3(3) [of k] by simp
    then show False using old_filled [of s k] by (simp add: avail_def split: if_splits)
  qed
  have sp: "spare (legacy_commit txn s3) (cell_need xs + (4 + length (markerKey X) + 1))"
    unfolding 3(6) by (rule room [OF 3(2)]) (simp add: 3(3) avail_def)
  have m: "map_of xs = avail" using 3(3) by blast
  obtain s4 where 4: "migrate_loop X xs 0 (legacy_commit txn s3) = ((length (filter (\<lambda>(k, v). filled (mine s k) = None) xs), None), s4)"
      "inv s4" "spare s4 (4 + length (markerKey X) + 1)" "mine s4 = merged (mine s) avail"
    using migrate_loop_overlay [OF 3(4,2) ne sp, of 0] unfolding 3(5) m by auto
  have "length (filter (\<lambda>(k, v). filled (mine s k) = None) xs) = card (fst ` set (filter (\<lambda>(k, v). filled (mine s k) = None) xs))"
    using distinct_card [OF distinct_map_filter [OF 3(2)]] by simp
  also have "fst ` set (filter (\<lambda>(k, v). filled (mine s k) = None) xs) = {k. filled (mine s k) = None \<and> k \<in> fst ` set xs}" by auto
  also have "\<dots> = {k. filled (mine s k) = None \<and> avail k \<noteq> None}" using m by (metis (no_types, lifting) map_of_eq_None_iff)
  finally have c: "length (filter (\<lambda>(k, v). filled (mine s k) = None) xs) = card {k. filled (mine s k) = None \<and> avail k \<noteq> None}" .
  obtain s5 where 5: "on_db X (\<lambda>R. CompactSlottedPage (hsEnv X) R (legacyPage X)) s4 = (None, s5)" "inv s5" "mine s5 = mine s4" "spare s5 = spare s4"
    using compact_law [OF 4(2)] by blast
  have "room s5 (markerKey X) (bytes_of ''1'')" using spare_room [OF 5(2), of _ "markerKey X" "bytes_of ''1''"] 4(3) 5(4) by (simp add: bytes_of_def)
  then obtain s6 where 6: "kvPut (hot X) (markerKey X) (bytes_of ''1'') 0 s5 = (None, s6)" "inv s6" "mine s6 = (mine s5)(markerKey X \<mapsto> bytes_of ''1'')"
    using putE [OF 5(2), of "markerKey X" "bytes_of ''1''" 0] by metis
  obtain s7 where 7: "kvFlush (hot X) s6 = (None, s7)" "inv s7" "mine s7 = mine s6" using flushE [OF 6(2)] by metis
  have "MigrateLegacy X s = ((card {k. filled (mine s k) = None \<and> avail k \<noteq> None}, None), s7)"
    using 1(1) 2 3(1) 4(1) 5(1) 6(1) 7(1) page by (simp add: MigrateLegacy_def finish_migration_def c)
  with 4(4) 5(3) 6(3) 7(2,3) show ?thesis by simp
qed

end

section \<open>The store on the in-memory engine\<close>

text \<open>What a transaction started now finds for a key in the old page; an empty value counts as none.\<close>

definition legacy_value :: "(bytes, lru) HotSwapKVStore \<Rightarrow> (bytes, lru) hot_state \<Rightarrow> bytes \<rightharpoonup> bytes" where
  "legacy_value X s k =
     (if legacyPage X = 0 then None
      else let t = nextTxnID (hotDB s) + 1
           in hit (page_Read (insert t (activeTxns (hotDB s))) t k (clock (hsRun X (hotCalls s))) (db_view (hotDB s) (legacyPage X))))"

text \<open>The calls of the store run on the in-memory engine, time does not run backwards and a map is
  visited in some order.\<close>

definition swap_env :: "nat \<Rightarrow> nat \<Rightarrow> (bytes, lru) HotSwapKVStore \<Rightarrow> bool" where
  "swap_env fuel n X \<longleftrightarrow> hsHot X = mem_ops fuel n \<and> hsEnv X = mem_env fuel \<and> unat (legacyPage X) < 2 ^ 48 \<and> \<not> isBTreeKVPage (legacyPage X) \<and>
     (\<forall>c. (\<forall>l. mset (sperm (hsRun X c) l) = mset l) \<and> (\<forall>l. mset (cperm (hsRun X c) l) = mset l) \<and> clock (hsRun X c) \<le> clock (hsRun X (Suc c)))"

definition swap_inv :: "nat \<Rightarrow> nat \<Rightarrow> (bytes, lru) HotSwapKVStore \<Rightarrow> (bytes, lru) hot_state \<Rightarrow> bool" where
  "swap_inv fuel n X s \<longleftrightarrow> swap_env fuel n X \<and> tree_db fuel n (hotTree s) (hotDB s) \<and> (\<exists>rs. page_records mem_stored (hotDB s) (legacyPage X) rs)"

abbreviation hot_map :: "nat \<Rightarrow> (bytes, lru) hot_state \<Rightarrow> bytes \<rightharpoonup> bytes" where
  "hot_map n s \<equiv> db_contents n (hotTree s) (hotDB s)"

abbreviation hot_room :: "nat \<Rightarrow> (bytes, lru) hot_state \<Rightarrow> bytes \<Rightarrow> bytes \<Rightarrow> bool" where
  "hot_room n s \<equiv> db_room n (hotTree s) (hotDB s)"

abbreviation hot_spare :: "nat \<Rightarrow> (bytes, lru) hot_state \<Rightarrow> nat \<Rightarrow> bool" where
  "hot_spare n s \<equiv> db_spare n (hotTree s) (hotDB s)"

lemma swap_envD:
  assumes "swap_env fuel n X"
  shows "hsHot X = mem_ops fuel n" "hsEnv X = mem_env fuel" "unat (legacyPage X) < 2 ^ 48" "\<not> isBTreeKVPage (legacyPage X)"
    "mset (sperm (hsRun X c) l) = mset l" "mset (cperm (hsRun X c) l') = mset l'" "clock (hsRun X c) \<le> clock (hsRun X (Suc c))"
  using assms by (simp_all add: swap_env_def)

lemma legacy_value_records:
  assumes "page_records mem_stored (hotDB s) (legacyPage X) rs"
  shows "legacy_value X s k = (if legacyPage X = 0 then None
    else let t = nextTxnID (hotDB s) + 1 in filled (read_spec (insert t (activeTxns (hotDB s))) t k (clock (hsRun X (hotCalls s))) rs))"
  using page_Read_holds [OF assms [unfolded page_records_def]] by (simp add: legacy_value_def Let_def hit_found flip: found_def)

text \<open>Steps of the tree leave the old page alone.\<close>

lemma tree_step:
  assumes s: "swap_inv fuel n X s" and t: "tree_db fuel n (hotTree s) db'" and fr: "frame_but mem_stored Y (hotDB s) db'" and Y: "Y \<subseteq> db_pages n (hotTree s) (hotDB s)"
  shows "swap_inv fuel n X (s\<lparr>hotDB := db'\<rparr>)" "legacy_value X (s\<lparr>hotDB := db'\<rparr>) = legacy_value X s"
proof -
  obtain rs where e: "swap_env fuel n X" "tree_db fuel n (hotTree s) (hotDB s)" and rs: "page_records mem_stored (hotDB s) (legacyPage X) rs"
    using s by (auto simp: swap_inv_def)
  have "tree_id i" if "i \<in> Y" for i using tree_pages_id e(2) Y that by (auto simp: db_pages_def tree_db_def)
  then have "legacyPage X \<notin> Y" using swap_envD(4) [OF e(1)] by (auto simp: tree_id_def)
  moreover have "pool_inv mem_stored lru_inv pageMap {} (bp db')" using t by (simp add: tree_db_def ready_def mp.idle_def)
  ultimately have rs': "page_records mem_stored db' (legacyPage X) rs" using page_records_frame [OF fr _ swap_envD(3) [OF e(1)] _ rs] by blast
  then show "swap_inv fuel n X (s\<lparr>hotDB := db'\<rparr>)" using e t by (auto simp: swap_inv_def)
  have "activeTxns db' = activeTxns (hotDB s)" "nextTxnID db' = nextTxnID (hotDB s)" using fr by (simp_all add: frame_but_def)
  then show "legacy_value X (s\<lparr>hotDB := db'\<rparr>) = legacy_value X s"
    using legacy_value_records [of s X rs] legacy_value_records [of "s\<lparr>hotDB := db'\<rparr>" X rs] rs rs' by (simp add: fun_eq_iff)
qed

text \<open>Steps on the old page leave the tree alone.\<close>

definition slot_frame :: "PageID \<Rightarrow> (bytes, lru) db \<Rightarrow> (bytes, lru) db \<Rightarrow> bool" where
  "slot_frame i db db' \<longleftrightarrow> (\<forall>j. unat j < 2 ^ 48 \<longrightarrow> j \<noteq> i \<longrightarrow> same_page j (db_view db' j) (db_view db j))"

lemma slot_frame_trans: "slot_frame i db db1 \<Longrightarrow> slot_frame i db1 db2 \<Longrightarrow> slot_frame i db db2"
  unfolding slot_frame_def by (meson same_page_trans)

lemma slot_frame_of [simp]:
  "frame_but mem_stored {} db db' \<Longrightarrow> slot_frame i db db'" "frame_but mem_stored {i} db db' \<Longrightarrow> slot_frame i db db'"
  by (simp_all add: slot_frame_def frame_but_def)

lemma slot_step:
  assumes s: "swap_inv fuel n X s" and r: "ready fuel (bp (hotDB s'))" and fr: "slot_frame (legacyPage X) (hotDB s) (hotDB s')"
    and rs: "page_records mem_stored (hotDB s') (legacyPage X) rs" and t: "hotTree s' = hotTree s"
  shows "swap_inv fuel n X s'" "hot_map n s' = hot_map n s" "hot_room n s' = hot_room n s" "hot_spare n s' = hot_spare n s"
proof -
  have e: "swap_env fuel n X" "tree_db fuel n (hotTree s) (hotDB s)" using s by (auto simp: swap_inv_def)
  let ?db = "(hotDB s)\<lparr>bp := bp (hotDB s')\<rparr>"
  have f: "frame_but mem_stored {legacyPage X} (hotDB s) ?db" using fr by (intro bp_update_frame) (simp add: slot_frame_def)
  have "legacyPage X \<notin> db_pages n (hotTree s) (hotDB s)"
    using tree_pages_id e(2) swap_envD(4) [OF e(1)] by (fastforce simp: db_pages_def tree_db_def tree_id_def)
  then have d: "{legacyPage X} \<inter> db_pages n (hotTree s) (hotDB s) = {}" by simp
  note F = tree_frame [OF e(2) f d]
  show "swap_inv fuel n X s'" using F(1) r rs e(1) by (auto simp: swap_inv_def tree_db_def t)
  show "hot_map n s' = hot_map n s" "hot_room n s' = hot_room n s" "hot_spare n s' = hot_spare n s"
    using F by (simp_all add: db_contents_def db_room_def db_spare_def t)
qed

subsection \<open>The tree half\<close>

lemma hot_tree_same [simp]: "s\<lparr>hotTree := hotTree s, hotDB := db\<rparr> = s\<lparr>hotDB := db\<rparr>"
  by simp

lemma swap_tree: "store_side (hot X) (swap_inv fuel n X) (hot_map n) (legacy_value X) (hot_room n)"
proof
  fix s k v ttl
  assume s: "swap_inv fuel n X s"
  let ?db = "hotDB s" let ?t = "hotTree s"
  have t: "tree_db fuel n ?t ?db" and X: "hsHot X = mem_ops fuel n" using s swap_envD(1) by (auto simp: swap_inv_def)
  have same: "hot_map n (s\<lparr>hotDB := db'\<rparr>) = hot_map n s \<and> hot_room n (s\<lparr>hotDB := db'\<rparr>) = hot_room n s"
    if "frame_but mem_stored {} ?db db'" for db'
    using tree_frame [OF t that] by simp
  show "\<exists>s'. kvGet (hot X) k s = (found (hot_map n s k), s') \<and> swap_inv fuel n X s' \<and> hot_map n s' = hot_map n s \<and>
      legacy_value X s' = legacy_value X s \<and> hot_room n s' = hot_room n s"
  proof (rule tree_get [OF t, of k])
    fix db' assume r: "kvGet (mem_ops fuel n) k (?t, ?db) = (found (hot_map n s k), ?t, db')" "tree_db fuel n ?t db'" "frame_but mem_stored {} ?db db'"
    then show ?thesis using tree_step [OF s r(2,3)] same by (intro exI [of _ "s\<lparr>hotDB := db'\<rparr>"]) (simp add: hot_def within_state_def X)
  qed
  show "\<exists>s'. kvFlush (hot X) s = (None, s') \<and> swap_inv fuel n X s' \<and> hot_map n s' = hot_map n s \<and>
      legacy_value X s' = legacy_value X s \<and> hot_room n s' = hot_room n s"
  proof (rule tree_flush [OF t])
    fix db' assume r: "kvFlush (mem_ops fuel n) (?t, ?db) = (None, ?t, db')" "tree_db fuel n ?t db'" "frame_but mem_stored {} ?db db'"
    then show ?thesis using tree_step [OF s r(2,3)] same by (intro exI [of _ "s\<lparr>hotDB := db'\<rparr>"]) (simp add: hot_def within_state_def X)
  qed
  show "\<exists>s'. kvDelete (hot X) k s = (if hot_map n s k = None then Some ErrKeyNotFound else None, s') \<and> swap_inv fuel n X s' \<and>
      hot_map n s' = (hot_map n s)(k := None) \<and> legacy_value X s' = legacy_value X s"
  proof (rule tree_delete [OF t, of k])
    fix db' j
    assume r: "kvDelete (mem_ops fuel n) k (?t, ?db) = (if hot_map n s k = None then Some ErrKeyNotFound else None, ?t, db')" "tree_db fuel n ?t db'"
      "db_contents n ?t db' = (hot_map n s)(k := None)" "frame_but mem_stored {j} ?db db'" "j \<in> db_pages n ?t ?db"
    then show ?thesis using tree_step [OF s r(2,4)] by (intro exI [of _ "s\<lparr>hotDB := db'\<rparr>"]) (simp add: hot_def within_state_def X)
  qed
  assume room: "hot_room n s k v"
  show "\<exists>s'. kvPut (hot X) k v ttl s = (None, s') \<and> swap_inv fuel n X s' \<and> hot_map n s' = (hot_map n s)(k \<mapsto> v) \<and> legacy_value X s' = legacy_value X s"
  proof (rule tree_put [OF t room, of ttl])
    fix db' j
    assume r: "kvPut (mem_ops fuel n) k v ttl (?t, ?db) = (None, ?t, db')" "tree_db fuel n ?t db'"
      "db_contents n ?t db' = (hot_map n s)(k \<mapsto> v)" "frame_but mem_stored {j} ?db db'" "j \<in> db_pages n ?t ?db"
    then show ?thesis using tree_step [OF s r(2,4)] by (intro exI [of _ "s\<lparr>hotDB := db'\<rparr>"]) (simp add: hot_def within_state_def X)
  qed
qed

subsection \<open>The page half\<close>

lemma legacy_beginE:
  obtains db' where "legacy_begin s = (nextTxnID (hotDB s) + 1, s\<lparr>hotDB := db'\<rparr>)" "bp db' = bp (hotDB s)"
    "activeTxns db' = insert (nextTxnID (hotDB s) + 1) (activeTxns (hotDB s))"
  by (rule that [of "snd (BeginTxn (hotDB s))"]) (simp_all add: legacy_begin_def case_prod_unfold txn_sets)

lemma swap_legacy:
  assumes s: "swap_inv fuel n X s"
  shows "\<exists>s'. legacyGet X k s = (Inr (legacy_value X s k), s') \<and> swap_inv fuel n X s' \<and> hot_map n s' = hot_map n s \<and> hot_room n s' = hot_room n s"
proof (cases "legacyPage X = 0")
  case True
  then show ?thesis using s by (simp add: legacyGet_def legacy_value_def)
next
  case False
  obtain rs where e: "swap_env fuel n X" "tree_db fuel n (hotTree s) (hotDB s)" and rs: "page_records mem_stored (hotDB s) (legacyPage X) rs"
    using s by (auto simp: swap_inv_def)
  note E = swap_envD [OF e(1)] let ?i = "legacyPage X" let ?c = "hotCalls s"
  define t where "t = nextTxnID (hotDB s) + 1" define A where "A = insert t (activeTxns (hotDB s))"
  define m where "m = read_spec A t k (clock (hsRun X ?c)) rs"
  obtain db1 where 1: "legacy_begin s = (t, s\<lparr>hotDB := db1\<rparr>)" "bp db1 = bp (hotDB s)" "activeTxns db1 = A"
    by (rule legacy_beginE [of s]) (simp add: t_def A_def)
  have r1: "ready fuel (bp db1)" "page_records mem_stored db1 ?i rs" using e(2) rs 1(2) by (simp_all add: tree_db_def page_records_def)
  obtain db2 where 2: "Read (mem_env fuel) (hsRun X ?c) ?i t k db1 = (found m, db2)" "ready fuel (bp db2)" "frame_but mem_stored {} db1 db2" "page_records mem_stored db2 ?i rs"
    by (rule mem_Read [OF r1(1) E(3) r1(2), of "hsRun X ?c" t k]) (simp add: 1(3) m_def)
  have v: "legacy_value X s k = filled m" using legacy_value_records [OF rs] False by (simp add: t_def A_def m_def Let_def)
  have f2: "slot_frame ?i (hotDB s) db2"
    using slot_frame_trans [of ?i "hotDB s" db1 db2] slot_frame_of(1) [OF 2(3)] 1(2) by (simp add: slot_frame_def)
  show ?thesis
  proof (cases "filled m")
    case (Some w)
    let ?s = "legacy_commit t (s\<lparr>hotDB := db2, hotCalls := Suc ?c\<rparr>)"
    have "legacyGet X k s = (Inr (Some w), ?s)" using Some False 1(1) 2(1) E(2) by (simp add: legacyGet_def on_db_def hit_found)
    moreover have "swap_inv fuel n X ?s" "hot_map n ?s = hot_map n s" "hot_room n ?s = hot_room n s"
      using slot_step [OF s, of ?s rs] 2(2,4) f2 by (simp_all add: legacy_commit_def slot_frame_def page_records_def)
    ultimately show ?thesis using Some v by auto
  next
    case None
    obtain xs db3 where 3: "Scan (mem_env fuel) (hsRun X (Suc ?c)) ?i t k (exact_iter k) [] db2 = (Inr (pair_loop (exact_iter k) xs []), db3)"
        "scan_pairs (activeTxns db2) t k (clock (hsRun X (Suc ?c))) rs xs" "ready fuel (bp db3)" "frame_but mem_stored {} db2 db3" "page_records mem_stored db3 ?i rs"
      by (rule mem_Scan [OF 2(2) E(3) 2(4), of "hsRun X (Suc ?c)"]) (simp_all add: E(5))
    have "read_spec A t k (clock (hsRun X (Suc ?c))) rs \<in> {None, m}" using E(7) [of ?c] by (auto simp: m_def read_spec_def Let_def)
    then have "filled (map_of xs k) = None" using 3(2) None 2(3) 1(3) by (auto simp: scan_pairs_def frame_but_def)
    then have p: "pair_loop (exact_iter k) xs [] = []" by (cases xs) (auto simp: exact_iter_def filled_def split: if_splits)
    let ?s = "legacy_commit t (s\<lparr>hotDB := db3, hotCalls := Suc (Suc ?c)\<rparr>)"
    have "legacyGet X k s = (Inr None, ?s)" using None False 1(1) 2(1) 3(1) E(2) p by (simp add: legacyGet_def on_db_def hit_found)
    moreover have "swap_inv fuel n X ?s" "hot_map n ?s = hot_map n s" "hot_room n ?s = hot_room n s"
      using slot_step [OF s, of ?s rs] 3(3,5) slot_frame_trans [OF f2 slot_frame_of(1) [OF 3(4)]]
      by (simp_all add: legacy_commit_def slot_frame_def page_records_def)
    ultimately show ?thesis using None v by auto
  qed
qed

lemma swap_expire:
  assumes s: "swap_inv fuel n X s" and k: "length k \<le> PageSize"
  shows "\<exists>s'. expireLegacyKey X k s = (Inr (), s') \<and> swap_inv fuel n X s' \<and> hot_map n s' = hot_map n s \<and> hot_room n s' = hot_room n s \<and>
    hot_spare n s' = hot_spare n s"
proof (cases "legacyPage X = 0")
  case True
  then show ?thesis using s by (simp add: expireLegacyKey_def)
next
  case False
  obtain rs where e: "swap_env fuel n X" "tree_db fuel n (hotTree s) (hotDB s)" and rs: "page_records mem_stored (hotDB s) (legacyPage X) rs"
    using s by (auto simp: swap_inv_def)
  note E = swap_envD [OF e(1)] let ?i = "legacyPage X" let ?R = "hsRun X (hotCalls s)"
  obtain t db1 where 1: "legacy_begin s = (t, s\<lparr>hotDB := db1\<rparr>)" "bp db1 = bp (hotDB s)" by (rule legacy_beginE [of s]) blast
  have r1: "ready fuel (bp db1)" "page_records mem_stored db1 ?i rs" using e(2) rs 1(2) by (simp_all add: tree_db_def page_records_def)
  have small: "24 + length k + length ([] :: bytes) < 2 ^ 31" using k by (simp add: PageSize_def)
  obtain x rs' db2 where 2: "Write (mem_env fuel) ?R ?i t k [] (DurationParam 1) db1 = (x, db2)" "x = None \<or> x = Some ErrOverflow" "ready fuel (bp db2)"
      "frame_but mem_stored {?i} db1 db2" "page_records mem_stored db2 ?i rs'"
    by (rule mem_Write [where t = t and prm = "DurationParam 1" and R = ?R, OF r1(1) E(3,4) r1(2) small E(6)]) auto
  let ?s = "legacy_commit t (s\<lparr>hotDB := db2, hotCalls := Suc (hotCalls s)\<rparr>)"
  have "expireLegacyKey X k s = (Inr (), ?s)" using False 1(1) 2(1,2) E(2) by (auto simp: expireLegacyKey_def on_db_def ignoring_def fatal_def)
  moreover have "slot_frame ?i (hotDB s) (hotDB ?s)"
    using slot_frame_of(2) [OF 2(4)] 1(2) by (simp add: slot_frame_def legacy_commit_def)
  moreover have "ready fuel (bp (hotDB ?s))" "page_records mem_stored (hotDB ?s) ?i rs'" "hotTree ?s = hotTree s"
    using 2(3,5) by (simp_all add: legacy_commit_def page_records_def)
  ultimately show ?thesis using slot_step [OF s, of ?s rs'] by blast
qed

lemma pending_loop:
  "pair_loop (pending_iter X) xs acc = acc @ filter (\<lambda>(k, v). v \<noteq> [] \<and> legacy_key X k) xs"
  by (induction xs arbitrary: acc) (simp_all add: pending_iter_def split: prod.split)

lemma map_of_filter_pairs:
  assumes "distinct (map fst ps)"
  shows "map_of (filter Q ps) y = (case map_of ps y of Some b \<Rightarrow> (if Q (y, b) then Some b else None) | None \<Rightarrow> None)"
  using assms
proof (induction ps)
  case (Cons p ps)
  have "map_of ps y = None" if "fst p = y" using Cons.prems that by (auto simp: map_of_eq_None_iff)
  then show ?case using Cons by (cases p) auto
qed simp

lemma swap_scan:
  assumes s: "swap_inv fuel n X s" and page: "legacyPage X \<noteq> 0" and b: "legacy_begin s = (txn, s1)"
  shows "\<exists>pending s2. on_db X (\<lambda>R. Scan (hsEnv X) R (legacyPage X) txn [] (pending_iter X) []) s1 = (Inr pending, s2) \<and>
    distinct (map fst pending) \<and> (\<forall>k. map_of pending k = (if legacy_key X k then legacy_value X s k else None)) \<and>
    swap_inv fuel n X (legacy_commit txn s2) \<and> hot_map n (legacy_commit txn s2) = hot_map n s \<and> hot_spare n (legacy_commit txn s2) = hot_spare n s"
proof -
  obtain rs where e: "swap_env fuel n X" "tree_db fuel n (hotTree s) (hotDB s)" and rs: "page_records mem_stored (hotDB s) (legacyPage X) rs"
    using s by (auto simp: swap_inv_def)
  note E = swap_envD [OF e(1)] let ?i = "legacyPage X" let ?R = "hsRun X (hotCalls s)"
  obtain db1 where 1: "txn = nextTxnID (hotDB s) + 1" "s1 = s\<lparr>hotDB := db1\<rparr>" "bp db1 = bp (hotDB s)" "activeTxns db1 = insert txn (activeTxns (hotDB s))"
    by (rule legacy_beginE [of s]) (use b in simp)
  have r1: "ready fuel (bp db1)" "page_records mem_stored db1 ?i rs" using e(2) rs 1(3) by (simp_all add: tree_db_def page_records_def)
  obtain xs db2 where 2: "Scan (mem_env fuel) ?R ?i txn [] (pending_iter X) [] db1 = (Inr (pair_loop (pending_iter X) xs []), db2)"
      "scan_pairs (activeTxns db1) txn [] (clock ?R) rs xs" "ready fuel (bp db2)" "frame_but mem_stored {} db1 db2" "page_records mem_stored db2 ?i rs"
    by (rule mem_Scan [OF r1(1) E(3) r1(2), of ?R]) (simp_all add: E(5))
  let ?p = "filter (\<lambda>(k, v). v \<noteq> [] \<and> legacy_key X k) xs" let ?s = "s\<lparr>hotDB := db2, hotCalls := Suc (hotCalls s)\<rparr>"
  have d: "distinct (map fst xs)" "\<And>k. map_of xs k = read_spec (insert txn (activeTxns (hotDB s))) txn k (clock ?R) rs"
    using 2(2) by (simp_all add: scan_pairs_def 1(4) has_prefix_def)
  have m: "map_of ?p k = (if legacy_key X k then legacy_value X s k else None)" for k
    unfolding map_of_filter_pairs [OF d(1)] d(2) using legacy_value_records [OF rs, of k] page
    by (auto simp: Let_def 1(1) filled_def split: option.split)
  have c: "slot_frame ?i (hotDB s) (hotDB (legacy_commit txn ?s))" "ready fuel (bp (hotDB (legacy_commit txn ?s)))"
      "page_records mem_stored (hotDB (legacy_commit txn ?s)) ?i rs" "hotTree (legacy_commit txn ?s) = hotTree s"
    using slot_frame_of(1) [OF 2(4), of ?i] 2(3,5) 1(3) by (simp_all add: slot_frame_def legacy_commit_def page_records_def)
  have "on_db X (\<lambda>R. Scan (hsEnv X) R ?i txn [] (pending_iter X) []) s1 = (Inr ?p, ?s)"
    using 2(1) by (simp add: on_db_def E(2) 1(2) pending_loop)
  then show ?thesis using m d(1) slot_step [OF s c(2,1,3,4)] by (intro exI [of _ ?p] exI [of _ ?s]) (simp add: distinct_map_filter)
qed

lemma swap_compact:
  assumes s: "swap_inv fuel n X s"
  shows "\<exists>s'. on_db X (\<lambda>R. CompactSlottedPage (hsEnv X) R (legacyPage X)) s = (None, s') \<and> swap_inv fuel n X s' \<and> hot_map n s' = hot_map n s \<and>
    hot_spare n s' = hot_spare n s"
proof -
  obtain rs where e: "swap_env fuel n X" "tree_db fuel n (hotTree s) (hotDB s)" and rs: "page_records mem_stored (hotDB s) (legacyPage X) rs"
    using s by (auto simp: swap_inv_def)
  note E = swap_envD [OF e(1)] let ?i = "legacyPage X" let ?R = "hsRun X (hotCalls s)"
  have r: "ready fuel (bp (hotDB s))" using e(2) by (simp add: tree_db_def)
  obtain db' rs' where c: "CompactSlottedPage (mem_env fuel) ?R ?i (hotDB s) = (None, db')" "ready fuel (bp db')" "frame_but mem_stored {?i} (hotDB s) db'"
      "page_records mem_stored db' ?i rs'"
    by (rule mem_Compact [OF r E(3,4) rs, of ?R]) (use E(6) in auto)
  let ?s = "s\<lparr>hotDB := db', hotCalls := Suc (hotCalls s)\<rparr>"
  show ?thesis using c slot_step [OF s, of ?s rs'] by (intro exI [of _ ?s]) (simp add: on_db_def E(2))
qed

interpretation hs: overlay_store X "swap_inv fuel n X" "hot_map n" "legacy_value X" "hot_room n" "hot_spare n" for X fuel n
proof (intro overlay_store.intro overlay_store_axioms.intro swap_tree)
  fix s k v m m' ttl
  show "legacy_value X s k \<noteq> Some []" by (simp add: legacy_value_def Let_def hit_def split: sum.split)
  show "hot_spare n s m \<Longrightarrow> m' \<le> m \<Longrightarrow> hot_spare n s m'" by (fastforce simp: db_spare_def spare_def)
  assume s: "swap_inv fuel n X s"
  then have t: "tree_db fuel n (hotTree s) (hotDB s)" and X: "hsHot X = mem_ops fuel n" using swap_envD(1) by (auto simp: swap_inv_def)
  show "hot_spare n (snd (kvGet (hot X) k s)) = hot_spare n s"
  proof (rule tree_get [OF t, of k])
    fix db' assume "kvGet (mem_ops fuel n) k (hotTree s, hotDB s) = (found (hot_map n s k), hotTree s, db')" "frame_but mem_stored {} (hotDB s) db'"
    then show ?thesis using tree_frame(5) [OF t, of "{}" db'] by (simp add: hot_def within_state_def X)
  qed
  show "hot_spare n s m \<Longrightarrow> 4 + length k + length v \<le> m \<Longrightarrow> hot_room n s k v"
    using t by (auto simp: tree_db_def db_spare_def db_room_def intro: spare_room)
  show "hot_spare n s m \<Longrightarrow> m < PageSize"
    using tree_ok_leaf [of n "db_view (hotDB s)" "rootID (hotTree s)" "[]"] t by (fastforce simp: tree_db_def db_spare_def spare_def)
  show "hot_spare n (snd (kvPut (hot X) k v ttl s)) m" if "hot_spare n s (4 + length k + length v + m)"
  proof -
    have room: "hot_room n s k v" using t that by (auto simp: tree_db_def db_spare_def db_room_def intro: spare_room)
    show ?thesis
    proof (rule tree_put [OF t room, of ttl])
      fix db' assume "kvPut (mem_ops fuel n) k v ttl (hotTree s, hotDB s) = (None, hotTree s, db')"
        "\<And>m. hot_spare n s (4 + length k + length v + m) \<Longrightarrow> db_spare n (hotTree s) db' m"
      with that show ?thesis by (simp add: hot_def within_state_def X)
    qed
  qed
qed (rule swap_legacy swap_expire swap_scan swap_compact; assumption)+

section \<open>A concrete store\<close>

text \<open>An empty tree at page 1002 and one record in the old page 7.\<close>

definition demo_swap :: "(bytes, lru) HotSwapKVStore" where
  "demo_swap = \<lparr>hsHot = mem_ops 8 2, legacyPage = 7, markerKey = [109], legacyMatch = None, hsEnv = mem_env 8, hsRun = (\<lambda>_. run0), hsOrder = (\<lambda>l. l)\<rparr>"

definition demo_hot :: "(bytes, lru) hot_state" where
  "demo_hot = \<lparr>hotTree = \<lparr>rootID = 1002\<rparr>, hotDB = snd (Write (mem_env 8) run0 7 1 [1] [2] OtherParam (NewDB (one_leaf 4 []) None)), hotCalls = 0, migrateOnce = False\<rparr>"

lemma demo_swap_simps [simp]:
  "markerKey demo_swap = [109]" "legacyPage demo_swap = 7" "legacy_key demo_swap k"
  by (simp_all add: demo_swap_def legacy_key_def)

lemma demo_hot_props:
  shows "swap_inv 8 2 demo_swap demo_hot" "hot_map 2 demo_hot = Map.empty" "legacy_value demo_swap demo_hot = [[1] \<mapsto> [2]]"
    "m < 30000 \<Longrightarrow> hot_spare 2 demo_hot m"
proof -
  let ?db = "NewDB (one_leaf 4 []) None" let ?t = "\<lparr>rootID = 1002\<rparr>"
  let ?r = "new_record run0 1 [1] [2] OtherParam"
  have c: "BTreeHeaderSize + length (enc_cells []) \<le> PageSize" "sorted_cells ([] :: (bytes \<times> bytes) list)" by (simp_all add: layout_defs)
  have n: "2 \<le> (4 :: nat)" "4 \<le> (8 :: nat)" by simp_all
  note R = one_leaf_ready [OF c n] and P = one_leaf_props [OF c, where n = 4]
  have b: "bp ?db = one_leaf 4 []" "nextTxnID ?db = 0" "activeTxns ?db = {}" by (simp_all add: NewDB_def)
  have t: "tree_db 8 2 ?t ?db" "db_contents 2 ?t ?db = Map.empty" using R by (simp_all add: tree_db_def db_contents_def b(1))
  have sp: "db_spare 2 ?t ?db m" if "m < 30000" for m using R(4) P(2) that by (simp add: db_spare_def spare_def b(1) layout_defs)
  have bl: "page_records mem_stored ?db 7 []"
  proof -
    have z: "mem_stored (replicate (1002 * PageSize) 0 @ z) i = 0" if "i < 7 * PageSize + PageSize" for i z
      using that by (simp add: mem_stored_def nth_append)
    let ?dev = "replicate (1002 * PageSize) 0 @ pgData (mk_leaf 1002 [])"
    have "page_at mem_stored ?dev 7 = map (\<lambda>_. 0) [7 * PageSize..<7 * PageSize + PageSize]"
      unfolding page_at_def by (intro map_cong) (simp_all add: z)
    also have "\<dots> = zero_page" by (simp add: map_replicate_const zero_page_def)
    finally have "page_at mem_stored ?dev 7 = zero_page" .
    then have "db_view ?db 7 = zero_page" by (simp add: NewDB_def one_leaf_def NewBufferPool_inv)
    then show ?thesis by (simp add: page_records_def holds_def blank_def)
  qed
  have rd: "ready 8 (bp ?db)" using R(1) b(1) by simp
  have nb: "\<not> isBTreeKVPage 7" by (simp add: isBTreeKVPage_def BTreeRootPageID_def)
  obtain db1 where 1: "Write (mem_env 8) run0 7 1 [1] [2] OtherParam ?db = (None, db1)" "ready 8 (bp db1)" "frame_but mem_stored {7} ?db db1" "page_records mem_stored db1 7 [?r]"
    by (rule mem_Write_first [OF rd _ nb bl, of "[1]" "[2]" 1 OtherParam]) simp_all
  have h: "hotDB demo_hot = db1" "hotTree demo_hot = ?t" "hotCalls demo_hot = 0" using 1(1) by (simp_all add: demo_hot_def)
  have "7 \<notin> db_pages 2 ?t ?db" using tree_pages_id [of 2 "db_view ?db" 1002 7] t(1) nb by (auto simp: db_pages_def tree_db_def tree_id_def)
  then have "{7} \<inter> db_pages 2 ?t ?db = {}" by simp
  note F = tree_frame [OF t(1) 1(3) this]
  have e: "swap_env 8 2 demo_swap" using nb by (simp add: swap_env_def demo_swap_def run0_def)
  show "swap_inv 8 2 demo_swap demo_hot" unfolding swap_inv_def h using e 1(2,4) F(1) by (auto simp: tree_db_def demo_swap_def)
  show "hot_map 2 demo_hot = Map.empty" unfolding h using F(2) t(2) by simp
  show "hot_spare 2 demo_hot m" if "m < 30000" unfolding h using F(5) sp [OF that] by simp
  have tx: "nextTxnID db1 = 0" "activeTxns db1 = {}" using 1(3) b by (simp_all add: frame_but_def)
  have "read_spec {1} 1 k 0 [?r] = (if k = [1] then Some [2] else None)" for k
    by (simp add: read_spec_def new_record_def visible_def isRecordVisible_def expiry_def far_future_def run0_def)
  then show "legacy_value demo_swap demo_hot = [[1] \<mapsto> [2]]"
    using legacy_value_records [of demo_hot demo_swap "[?r]"] 1(4) tx by (simp add: h fun_eq_iff demo_swap_def Let_def run0_def)
qed

section \<open>Properties\<close>

text \<open>C8: A lookup of the hot-swap store, on the in-memory engine with no internal node of the tree
  dirty, returns the value the key has in the tree, and as long as the migration is not complete
  the value of the old page for the keys the store takes over; it is not found exactly when
  neither has a value. When the leaf of the key has room for the value, a value found in
  the old page is in the tree afterwards; nothing else in the tree changes.\<close>

theorem hotswap_get:
  assumes "swap_inv fuel n X s"
    and "\<forall>v. overlay_map X (hot_map n s) (legacy_value X s) key = Some v \<longrightarrow> hot_room n s key v"
  defines "m \<equiv> overlay_map X (hot_map n s) (legacy_value X s)"
  shows "\<exists>s'. HS_Get X key s = (found (m key), s') \<and> swap_inv fuel n X s' \<and>
    hot_map n s' = (case m key of Some v \<Rightarrow> (hot_map n s)(key \<mapsto> v) | None \<Rightarrow> hot_map n s)"
  unfolding m_def using assms(2) by (intro hs.get_overlay [OF assms(1)]) blast

theorem hotswap_get_witness:
  "\<exists>s'. HS_Get demo_swap [1] demo_hot = (Inr [2], s') \<and> hot_map 2 s' = [[1] \<mapsto> [2]]"
proof -
  note P = demo_hot_props
  have m: "overlay_map demo_swap (hot_map 2 demo_hot) (legacy_value demo_swap demo_hot) [1] = Some [2]"
    by (simp add: overlay_map_def P(2,3))
  have "hot_room 2 demo_hot [1] [2]" using hs.spare_room [OF P(1) P(4) [of 6]] by simp
  with hotswap_get [OF P(1), of "[1]"] m show ?thesis by (auto simp: found_simps P(2))
qed

text \<open>C3: The migration does not change what a client reads. On the in-memory engine, when the marker
  is not yet set, no internal node of the tree is dirty and every leaf has free bytes for all
  pairs of the old page and the marker, \<open>MigrateLegacy\<close> succeeds and reports the number of keys
  whose value was in the old page only. Afterwards every key except the marker key has the
  value it had before, the values come from the tree alone, and another migration copies
  nothing.\<close>

theorem migration_preserves_lookups:
  assumes "swap_inv fuel n X s" and "hot_map n s (markerKey X) = None" and "legacyPage X \<noteq> 0"
    and "\<forall>xs. distinct (map fst xs) \<and> (\<forall>k. map_of xs k = (if legacy_key X k then legacy_value X s k else None)) \<longrightarrow>
      hot_spare n s (cell_need xs + (5 + length (markerKey X)))"
  defines "m \<equiv> overlay_map X (hot_map n s) (legacy_value X s)"
  shows "\<exists>s'. MigrateLegacy X s = ((card {k. m k \<noteq> None \<and> filled (hot_map n s k) = None}, None), s') \<and> swap_inv fuel n X s' \<and>
    (\<forall>k. k \<noteq> markerKey X \<longrightarrow> overlay_map X (hot_map n s') (legacy_value X s') k = m k \<and> filled (hot_map n s' k) = m k) \<and>
    fst (MigrateLegacy X s') = (0, None)"
proof -
  define avail where "avail = (\<lambda>k. if legacy_key X k then legacy_value X s k else None)"
  have m: "m k = (case filled (hot_map n s k) of Some v \<Rightarrow> Some v | None \<Rightarrow> avail k)" for k
    using assms(2) by (simp add: m_def overlay_map_def avail_def split: option.split)
  obtain s' where S: "MigrateLegacy X s = ((card {k. filled (hot_map n s k) = None \<and> avail k \<noteq> None}, None), s')" "swap_inv fuel n X s'"
      "hot_map n s' = (merged (hot_map n s) avail)(markerKey X \<mapsto> bytes_of ''1'')"
    using hs.migrate_overlay [OF assms(1-3)] assms(4) unfolding avail_def by (auto simp: add.commute)
  have c: "{k. filled (hot_map n s k) = None \<and> avail k \<noteq> None} = {k. m k \<noteq> None \<and> filled (hot_map n s k) = None}"
    using m by (auto split: option.splits)
  have ne: "avail k \<noteq> Some []" for k using hs.old_filled [of X s k] by (simp add: avail_def)
  have f: "filled (hot_map n s' k) = m k" if "k \<noteq> markerKey X" for k
    using that m [of k] ne [of k] by (auto simp: S(3) merged_def filled_def split: if_splits option.splits)
  have "overlay_map X (hot_map n s') (legacy_value X s') k = filled (hot_map n s' k)" for k
    using S(3) by (simp add: overlay_map_def split: option.split)
  moreover have "fst (MigrateLegacy X s') = (0, None)"
    by (rule hs.done_lemma [OF S(2)]) (simp add: MigrateLegacy_def S(3))
  ultimately show ?thesis using S(1,2) f unfolding c by auto
qed

theorem migration_preserves_lookups_witness:
  "\<exists>s'. MigrateLegacy demo_swap demo_hot = ((1, None), s') \<and> hot_map 2 s' [1] = Some [2]"
proof -
  note P = demo_hot_props
  have sp: "hot_spare 2 demo_hot (cell_need xs + (5 + length (markerKey demo_swap)))"
    if "distinct (map fst xs)" "\<forall>k. map_of xs k = (if legacy_key demo_swap k then legacy_value demo_swap demo_hot k else None)" for xs
  proof -
    have mo: "map_of xs = map_of [([1], [2])]" using that(2) by (simp add: P(3) fun_eq_iff)
    then have "set xs = {([1], [2])}" using map_of_inject_set [OF that(1), of "[([1], [2])]"] by simp
    moreover have "distinct xs" using that(1) by (simp add: distinct_map)
    ultimately have "length xs = 1" using distinct_card [of xs] by simp
    with \<open>set xs = {([1], [2])}\<close> have "xs = [([1], [2])]" by (cases xs) auto
    then show ?thesis by (intro P(4)) simp
  qed
  let ?m = "overlay_map demo_swap (hot_map 2 demo_hot) (legacy_value demo_swap demo_hot)"
  have m: "?m = [[1] \<mapsto> [2]]" by (simp add: overlay_map_def P(2,3) fun_eq_iff)
  have "{k. ?m k \<noteq> None \<and> filled (hot_map 2 demo_hot k) = None} = {[1]}" unfolding m by (auto simp: P(2) split: if_splits)
  then have c: "card {k. ?m k \<noteq> None \<and> filled (hot_map 2 demo_hot k) = None} = 1" by simp
  have none: "hot_map 2 demo_hot (markerKey demo_swap) = None" "legacyPage demo_swap \<noteq> 0" by (simp_all add: P(2))
  obtain s' where s': "MigrateLegacy demo_swap demo_hot = ((1, None), s')" "\<forall>k. k \<noteq> [109] \<longrightarrow> filled (hot_map 2 s' k) = ?m k"
    using migration_preserves_lookups [OF P(1) none] sp unfolding c by auto
  have "filled (hot_map 2 s' [1]) = Some [2]" using s'(2) by (simp add: m)
  with s'(1) show ?thesis by (simp add: filled_Some)
qed

text \<open>A key that is only in the old page cannot be deleted: \<open>Delete\<close> reports that the key does
  not exist and leaves its record, so the key still has its value and a lookup returns it
  and copies it into the tree.\<close>

theorem delete_leaves_legacy:
  assumes "swap_inv fuel n X s" and "length key \<le> PageSize" and "hot_map n s key = None" and "hot_map n s (markerKey X) = None"
    and "legacy_key X key" and "legacy_value X s key = Some v" and "HS_Delete X key s = (e, s')"
  shows "e = Some ErrKeyNotFound \<and> overlay_map X (hot_map n s') (legacy_value X s') key = Some v \<and>
    (hot_room n s' key v \<longrightarrow> fst (HS_Get X key s') = Inr v)"
proof -
  have D: "e = Some ErrKeyNotFound" "swap_inv fuel n X s'" "hot_map n s' = (hot_map n s)(key := None)" "legacy_value X s' = legacy_value X s"
    using hs.delete_overlay [OF assms(1,2)] assms(3,7) by auto
  have o: "overlay_map X (hot_map n s') (legacy_value X s') key = Some v"
    using assms(4-6) by (simp add: overlay_map_def D(3,4))
  moreover have "fst (HS_Get X key s') = Inr v" if "hot_room n s' key v"
  proof -
    have "hot_room n s' key w" if "overlay_map X (hot_map n s') (legacy_value X s') key = Some w" for w
      using that o \<open>hot_room n s' key v\<close> by simp
    then have "\<exists>s''. HS_Get X key s' = (found (Some v), s'')" using hs.get_overlay [OF D(2), of key] unfolding o by blast
    then show ?thesis by (auto simp: found_simps)
  qed
  ultimately show ?thesis using D(1) by blast
qed

theorem delete_leaves_legacy_witness:
  "\<exists>s'. HS_Delete demo_swap [1] demo_hot = (Some ErrKeyNotFound, s') \<and>
     overlay_map demo_swap (hot_map 2 s') (legacy_value demo_swap s') [1] = Some [2]"
proof -
  note P = demo_hot_props
  have len: "length [1 :: byte] \<le> PageSize" by (simp add: PageSize_def)
  have "hot_map 2 demo_hot [1] = None" "hot_map 2 demo_hot (markerKey demo_swap) = None" "legacy_key demo_swap [1]"
    "legacy_value demo_swap demo_hot [1] = Some [2]"
    by (simp_all add: P(2,3))
  note D = delete_leaves_legacy [OF P(1) len this]
  obtain e s' where "HS_Delete demo_swap [1] demo_hot = (e, s')" by fastforce
  with D [OF this] show ?thesis by auto
qed

end
