(* ===== verification/Unicode.thy ===== *)
theory Unicode
  imports GoStd
begin

text \<open>
  Text outside ASCII, as \<open>kernel.go\<close> handles it: the UTF-8 decoding that \<open>range\<close> over a string
  does, \<open>strings.FieldsFunc\<close> with a predicate on runes, and \<open>strings.ToLower\<close>. The tables of
  the package \<open>unicode\<close> are arguments; what is relied on is their ASCII part, and that a rune
  outside ASCII whose lower case is in ASCII becomes a letter (as the Kelvin sign becomes k).
\<close>

section \<open>Runes\<close>

definition RuneError :: nat where
  "RuneError = 0xFFFD"

definition cont_byte :: "nat \<Rightarrow> bool" where
  "cont_byte b \<longleftrightarrow> 0x80 \<le> b \<and> b \<le> 0xBF"

definition byte_at :: "string \<Rightarrow> nat \<Rightarrow> nat" where
  "byte_at s i = (if i < length s then of_char (s ! i) else 0)"

text \<open>\<open>utf8.DecodeRuneInString\<close>: the rune at the start of a string and its width; a byte that
  starts no valid sequence is \<open>RuneError\<close> of width 1.\<close>

definition decode_rune :: "string \<Rightarrow> nat \<times> nat" where
  "decode_rune s =
     (let a = byte_at s 0; b = byte_at s 1; c = byte_at s 2; d = byte_at s 3
      in if a < 0x80 then (a, 1)
         else if 0xC2 \<le> a \<and> a \<le> 0xDF \<and> cont_byte b then ((a - 0xC0) * 64 + (b - 0x80), 2)
         else if 0xE0 \<le> a \<and> a \<le> 0xEF \<and> (if a = 0xE0 then 0xA0 else 0x80) \<le> b \<and> b \<le> (if a = 0xED then 0x9F else 0xBF) \<and> cont_byte c
         then ((a - 0xE0) * 4096 + (b - 0x80) * 64 + (c - 0x80), 3)
         else if 0xF0 \<le> a \<and> a \<le> 0xF4 \<and> (if a = 0xF0 then 0x90 else 0x80) \<le> b \<and> b \<le> (if a = 0xF4 then 0x8F else 0xBF) \<and>
                 cont_byte c \<and> cont_byte d
         then ((a - 0xF0) * 262144 + (b - 0x80) * 4096 + (c - 0x80) * 64 + (d - 0x80), 4)
         else (RuneError, 1))"

lemma decode_width: "1 \<le> snd (decode_rune s)"
  by (simp add: decode_rune_def Let_def)

function runes :: "string \<Rightarrow> (nat \<times> string) list" where
  "runes [] = []"
| "runes (x # xs) = (case decode_rune (x # xs) of (r, w) \<Rightarrow> (r, take w (x # xs)) # runes (drop w (x # xs)))"
  by pat_completeness auto
termination
  by (relation "measure length") (auto dest: arg_cong [where f = snd] simp: decode_rune_def Let_def split: if_splits)

text \<open>Decoding loses no byte.\<close>

lemma runes_concat: "concat (map snd (runes s)) = s"
proof (induction s rule: runes.induct)
  case (2 x xs)
  obtain q w where d: "decode_rune (x # xs) = (q, w)" by fastforce
  then show ?case using "2.IH" [OF d [symmetric]] by simp
qed simp

text \<open>\<open>utf8.AppendRune\<close>.\<close>

definition rune_bytes :: "nat \<Rightarrow> nat list" where
  "rune_bytes r0 =
     (let r = (if 0x10FFFF < r0 \<or> 0xD800 \<le> r0 \<and> r0 \<le> 0xDFFF then RuneError else r0)
      in if r < 0x80 then [r]
         else if r < 0x800 then [0xC0 + r div 64, 0x80 + r mod 64]
         else if r < 0x10000 then [0xE0 + r div 4096, 0x80 + r div 64 mod 64, 0x80 + r mod 64]
         else [0xF0 + r div 262144, 0x80 + r div 4096 mod 64, 0x80 + r div 64 mod 64, 0x80 + r mod 64])"

definition encode_rune :: "nat \<Rightarrow> string" where
  "encode_rune r = map char_of (rune_bytes r)"

definition ascii :: "string \<Rightarrow> bool" where
  "ascii s \<longleftrightarrow> (\<forall>c\<in>set s. (of_char c :: nat) < 128)"

section \<open>The functions of strings\<close>

record unicode_ops =
  IsLetter :: "nat \<Rightarrow> bool"
  IsNumber :: "nat \<Rightarrow> bool"
  RuneLower :: "nat \<Rightarrow> nat"

definition unicode_ok :: "unicode_ops \<Rightarrow> bool" where
  "unicode_ok U \<longleftrightarrow>
     (\<forall>r<128. (IsLetter U r \<longleftrightarrow> 65 \<le> r \<and> r \<le> 90 \<or> 97 \<le> r \<and> r \<le> 122) \<and> (IsNumber U r \<longleftrightarrow> 48 \<le> r \<and> r \<le> 57) \<and>
       RuneLower U r = (if 65 \<le> r \<and> r \<le> 90 then r + 32 else r)) \<and>
     (\<forall>r. 128 \<le> r \<longrightarrow> RuneLower U r < 128 \<longrightarrow> IsLetter U (RuneLower U r))"

fun rune_fields_loop :: "(nat \<Rightarrow> bool) \<Rightarrow> string \<Rightarrow> (nat \<times> string) list \<Rightarrow> string list" where
  "rune_fields_loop f cur [] = (if cur = [] then [] else [cur])"
| "rune_fields_loop f cur ((r, bs) # rest) =
     (if f r then (if cur = [] then rune_fields_loop f [] rest else cur # rune_fields_loop f [] rest)
      else rune_fields_loop f (cur @ bs) rest)"

definition rune_FieldsFunc :: "(nat \<Rightarrow> bool) \<Rightarrow> string \<Rightarrow> string list" where
  "rune_FieldsFunc f s = rune_fields_loop f [] (runes s)"

text \<open>ASCII text takes a short cut; other text is decoded and encoded again, which replaces bytes
  that are not UTF-8.\<close>

definition rune_ToLower :: "unicode_ops \<Rightarrow> string \<Rightarrow> string" where
  "rune_ToLower U s = (if ascii s then ToLower s else concat (map (\<lambda>(r, _). encode_rune (RuneLower U r)) (runes s)))"

text \<open>An instance that knows the letters and digits of ASCII only.\<close>

definition ascii_tables :: unicode_ops where
  "ascii_tables = \<lparr>IsLetter = (\<lambda>r. 65 \<le> r \<and> r \<le> 90 \<or> 97 \<le> r \<and> r \<le> 122), IsNumber = (\<lambda>r. 48 \<le> r \<and> r \<le> 57),
     RuneLower = (\<lambda>r. if 65 \<le> r \<and> r \<le> 90 then r + 32 else r)\<rparr>"

lemma ascii_tables_ok: "unicode_ok ascii_tables"
  unfolding unicode_ok_def by (intro conjI allI impI) (simp_all add: ascii_tables_def)

section \<open>Where an ASCII byte can come from\<close>

text \<open>The bytes of a rune are one ASCII byte or all outside ASCII.\<close>

lemma byte_at_char:
  assumes "c \<in> set (take n s)"
  shows "\<exists>i<n. i < length s \<and> byte_at s i = of_char c"
proof -
  obtain i where "i < length (take n s)" "take n s ! i = c" using assms by (auto simp: in_set_conv_nth)
  then show ?thesis by (intro exI [of _ i]) (simp add: byte_at_def)
qed

lemma decode_bytes:
  assumes "s \<noteq> []" "decode_rune s = (r, w)" "c \<in> set (take w s)" "(of_char c :: nat) < 128"
  shows "r = of_char c"
proof -
  obtain i where i: "i < w" "i < length s" "byte_at s i = of_char c" using byte_at_char [OF assms(3)] by blast
  then have "byte_at s i < 128" using assms(4) by simp
  moreover have "i = 0 \<or> i = 1 \<or> i = 2 \<or> i = 3 \<or> 4 \<le> i" by auto
  ultimately show ?thesis
    using assms(2) i(1) unfolding i(3) [symmetric] by (elim disjE) (simp_all add: decode_rune_def Let_def cont_byte_def split: if_splits)
qed

lemma decode_small:
  assumes "decode_rune s = (r, w)" "r < 128"
  shows "w = 1 \<and> r = byte_at s 0"
proof -
  have "2 * 64 \<le> (a - 0xC0) * 64" if "0xC2 \<le> a" for a :: nat using that by simp
  moreover have "32 * 64 \<le> (a - 0xE0) * 4096 + (b - 0x80) * 64" if "0xE0 \<le> a" "(if a = 0xE0 then 0xA0 else 0x80) \<le> b" for a b :: nat
    using that by (cases "a = 0xE0") simp_all
  moreover have "16 * 4096 \<le> (a - 0xF0) * 262144 + (b - 0x80) * 4096" if "0xF0 \<le> a" "(if a = 0xF0 then 0x90 else 0x80) \<le> b" for a b :: nat
    using that by (cases "a = 0xF0") simp_all
  ultimately show ?thesis
    using assms unfolding decode_rune_def Let_def RuneError_def by (fastforce split: if_splits)
qed

lemma runes_bytes: "(r, bs) \<in> set (runes s) \<Longrightarrow> c \<in> set bs \<Longrightarrow> (of_char c :: nat) < 128 \<Longrightarrow> r = of_char c"
proof (induction s rule: runes.induct)
  case (2 x xs)
  obtain q w where d: "decode_rune (x # xs) = (q, w)" by fastforce
  from "2.prems"(1) consider "r = q" "bs = take w (x # xs)" | "(r, bs) \<in> set (runes (drop w (x # xs)))" by (auto simp: d)
  then show ?case
  proof cases
    case 1
    then show ?thesis using decode_bytes [OF _ d, of c] "2.prems"(2,3) by simp
  next
    case 2
    then show ?thesis using "2.IH" [OF d [symmetric]] "2.prems"(2,3) by simp
  qed
qed simp

lemma rune_fields_bytes:
  assumes "t \<in> set (rune_fields_loop f cur rs)" "c \<in> set t" "\<forall>c\<in>set cur. P c" "\<forall>(r, bs)\<in>set rs. \<not> f r \<longrightarrow> (\<forall>c\<in>set bs. P c)"
  shows "P c"
  using assms
proof (induction f cur rs rule: rune_fields_loop.induct)
  case (2 f cur r bs rest)
  show ?case
  proof (cases "f r")
    case True
    then show ?thesis using 2 by (cases "cur = []") auto
  next
    case False
    then show ?thesis using 2(3) [OF False] "2.prems" by auto
  qed
qed (auto split: if_splits)

lemma rune_bytes_small: "b \<in> set (rune_bytes r) \<Longrightarrow> b < 128 \<Longrightarrow> b = r"
  by (auto simp: rune_bytes_def Let_def RuneError_def split: if_splits)

lemma rune_bytes_bound: "b \<in> set (rune_bytes r) \<Longrightarrow> b < 256"
proof -
  have d: "x div 64 < 32" if "x < 0x800" for x :: nat using that by (simp add: less_mult_imp_div_less)
  have e: "x div 4096 < 16" if "x < 0x10000" for x :: nat using that by (simp add: less_mult_imp_div_less)
  have g: "x div 262144 < 5" if "x \<le> 0x10FFFF" for x :: nat using that by (simp add: less_mult_imp_div_less)
  have m: "x mod 64 < 64" for x :: nat by simp
  show "b \<in> set (rune_bytes r) \<Longrightarrow> b < 256"
    using d [of r] e [of r] g [of r] m [of r] m [of "r div 64"] m [of "r div 4096"]
    by (auto simp: rune_bytes_def Let_def RuneError_def split: if_splits)
qed

lemma encode_bytes:
  assumes "c \<in> set (encode_rune r)" "(of_char c :: nat) < 128"
  shows "r = of_char c"
proof -
  obtain b where b: "b \<in> set (rune_bytes r)" "c = char_of b" using assms(1) by (auto simp: encode_rune_def)
  then have "(of_char c :: nat) = b" using rune_bytes_bound [OF b(1)] by simp
  with rune_bytes_small [OF b(1)] assms(2) show ?thesis by simp
qed

text \<open>A token of letters and numbers keeps no other ASCII byte, in lower case either.\<close>

definition plain_rune :: "unicode_ops \<Rightarrow> nat \<Rightarrow> bool" where
  "plain_rune U r \<longleftrightarrow> IsLetter U r \<or> IsNumber U r"

lemma field_bytes:
  assumes "t \<in> set (rune_FieldsFunc (\<lambda>r. \<not> IsLetter U r \<and> \<not> IsNumber U r) s)" "c \<in> set t" "(of_char c :: nat) < 128"
  shows "plain_rune U (of_char c)"
proof -
  have "(of_char c :: nat) < 128 \<longrightarrow> plain_rune U (of_char c)"
    by (rule rune_fields_bytes [OF assms(1) [unfolded rune_FieldsFunc_def] assms(2)]) (use runes_bytes in \<open>force simp: plain_rune_def\<close>)+
  with assms(3) show ?thesis by blast
qed

lemma runes_small: "(r, bs) \<in> set (runes s) \<Longrightarrow> r < 128 \<Longrightarrow> \<exists>c\<in>set s. r = of_char c"
proof (induction s rule: runes.induct)
  case (2 x xs)
  obtain q w where d: "decode_rune (x # xs) = (q, w)" by fastforce
  from "2.prems"(1) consider "r = q" | "(r, bs) \<in> set (runes (drop w (x # xs)))" by (auto simp: d)
  then show ?case
  proof cases
    case 1
    then show ?thesis using decode_small [OF d] "2.prems"(2) by (simp add: byte_at_def)
  next
    case 2
    then have "\<exists>c\<in>set (drop w (x # xs)). r = of_char c" using "2.IH" [OF d [symmetric]] "2.prems"(2) by simp
    then show ?thesis by (meson in_set_dropD)
  qed
qed simp

lemma lower_bytes:
  assumes U: "unicode_ok U" and c: "c \<in> set (rune_ToLower U t)" "(of_char c :: nat) < 128"
  shows "IsLetter U (of_char c) \<or> c \<in> set t"
proof (cases "ascii t")
  case True
  then obtain b where b: "b \<in> set t" "c = to_lower_char b" using c(1) by (auto simp: rune_ToLower_def ToLower_def)
  show ?thesis
  proof (cases "char_in (CHR ''A'') (CHR ''Z'') b")
    case up: True
    then have "65 \<le> (of_char b :: nat)" "(of_char b :: nat) \<le> 90" by (simp_all add: char_in_def less_eq_char_def)
    then have "97 \<le> (of_char c :: nat)" "(of_char c :: nat) \<le> 122" using up b(2) by (simp_all add: to_lower_char_def)
    then show ?thesis using U c(2) by (simp add: unicode_ok_def)
  qed (use b in \<open>simp add: to_lower_char_def\<close>)
next
  case False
  then obtain r bs where r: "(r, bs) \<in> set (runes t)" "c \<in> set (encode_rune (RuneLower U r))" using c(1) by (auto simp: rune_ToLower_def)
  then have l: "RuneLower U r = of_char c" using encode_bytes c(2) by blast
  show ?thesis
  proof (cases "r < 128")
    case True
    obtain b where b: "b \<in> set t" "r = of_char b" using runes_small [OF r(1) True] by blast
    have "RuneLower U r = (if 65 \<le> r \<and> r \<le> 90 then r + 32 else r)" using U True by (simp add: unicode_ok_def)
    then show ?thesis using U c(2) b l by (cases "65 \<le> r \<and> r \<le> 90") (auto simp: unicode_ok_def)
  next
    case False
    then show ?thesis using U c(2) l unfolding unicode_ok_def by (metis not_le)
  qed
qed

text \<open>The number of fields is at most the number of bytes.\<close>

lemma length_rune_fields: "length (rune_fields_loop f cur rs) \<le> length rs + (if cur = [] then 0 else 1)"
  by (induction f cur rs rule: rune_fields_loop.induct) (auto split: if_splits)

lemma length_runes: "length (runes s) \<le> length s"
proof (induction s rule: runes.induct)
  case (2 x xs)
  obtain q w where d: "decode_rune (x # xs) = (q, w)" by fastforce
  then have "1 \<le> w" using decode_width [of "x # xs"] by simp
  then show ?case using "2.IH" [OF d [symmetric]] by (simp add: d)
qed simp

lemma length_rune_FieldsFunc: "length (rune_FieldsFunc f s) \<le> length s"
  using length_rune_fields [of f "[]" "runes s"] length_runes [of s] by (simp add: rune_FieldsFunc_def)

end
