(* ===== verification/Kernel.thy ===== *)
theory Kernel
  imports MemDB Query Strconv Unicode
begin

text \<open>
  The search kernel of \<open>kernel.go\<close> and the score of \<open>scorer.go\<close>: documents and posting lists in
  slotted pages, boolean queries over them, a hash ring of nodes, and the distributed search.

  The posting list of a term is cut into chunks of 256 entries, stored as JSON documents under
  \<open>term:<term>:chunk:<n>\<close> in page 10; \<open>term_meta:<term>\<close> has the number of chunks.
  Floating point numbers, JSON, SHA-256, the transport and the interceptor are arguments;
  \<open>sort.Slice\<close> is a stable sort of the elements in an order that is an argument, and any
  permutation at all when a score is not a number. Documents may hold any text: the analyzer
  decodes UTF-8, with the tables of \<open>unicode\<close> as an argument. The parser of queries is the one
  of \<open>Query\<close>, whose lower case is that of ASCII. The loop over a cursor is followed for
  \<open>keFuel\<close> rounds.
\<close>

section \<open>Tokens\<close>

definition IndexPageID :: PageID where
  "IndexPageID = 10"

definition MetadataPageID :: PageID where
  "MetadataPageID = 11"

definition PostingsChunkSize :: nat where
  "PostingsChunkSize = 256"

definition DefaultVirtualNodes :: nat where
  "DefaultVirtualNodes = 64"

definition stopWords :: "string list" where
  "stopWords = [''the'', ''is'', ''at'', ''which'', ''on'', ''and'', ''a'', ''an'', ''in'', ''of'', ''to'', ''for'', ''with'', ''by'', ''as'']"

definition Analyzer_Tokenize :: "unicode_ops \<Rightarrow> string \<Rightarrow> string list" where
  "Analyzer_Tokenize U txt =
     (let rawTokens = rune_FieldsFunc (\<lambda>c. \<not> IsLetter U c \<and> \<not> IsNumber U c) txt
      in filter (\<lambda>clean. clean \<notin> set stopWords \<and> 1 < length clean) (map (rune_ToLower U) rawTokens))"

section \<open>The score\<close>

record 'f float_ops =
  fLit :: "int \<Rightarrow> int \<Rightarrow> 'f"
  fAdd :: "'f \<Rightarrow> 'f \<Rightarrow> 'f"
  fSub :: "'f \<Rightarrow> 'f \<Rightarrow> 'f"
  fMul :: "'f \<Rightarrow> 'f \<Rightarrow> 'f"
  fDiv :: "'f \<Rightarrow> 'f \<Rightarrow> 'f"
  fLog :: "'f \<Rightarrow> 'f"
  fLeq :: "'f \<Rightarrow> 'f \<Rightarrow> bool"

text \<open>\<open>fLit F n d\<close> is the number closest to \<open>n / d\<close>: a literal, or a converted integer when \<open>d\<close> is 1.\<close>

abbreviation float64 :: "'f float_ops \<Rightarrow> int \<Rightarrow> 'f" where
  "float64 F n \<equiv> fLit F n 1"

record 'f BM25Scorer =
  k1 :: 'f
  bb :: 'f

definition NewBM25Scorer :: "'f float_ops \<Rightarrow> 'f BM25Scorer" where
  "NewBM25Scorer F = \<lparr>k1 = fLit F 12 10, bb = fLit F 75 100\<rparr>"

definition Score :: "'f float_ops \<Rightarrow> 'f BM25Scorer \<Rightarrow> 'f \<Rightarrow> 'f \<Rightarrow> 'f \<Rightarrow> int \<Rightarrow> int \<Rightarrow> 'f" where
  "Score F sc tf docLen0 avgDocLen0 totalDocs docFreq0 =
     (if fLeq F tf (float64 F 0) \<or> totalDocs \<le> 0 then float64 F 0
      else let docFreq = (if docFreq0 \<le> 0 then 1 else docFreq0);
               avgDocLen = (if fLeq F avgDocLen0 (float64 F 0) then float64 F 1 else avgDocLen0);
               docLen = (if fLeq F docLen0 (float64 F 0) then float64 F 1 else docLen0);
               numerator = fAdd F (float64 F (totalDocs - docFreq)) (fLit F 1 2);
               denominator = fAdd F (float64 F docFreq) (fLit F 1 2);
               idf = fLog F (fAdd F (float64 F 1) (fDiv F numerator denominator));
               lengthNorm = fAdd F (fSub F (float64 F 1) (bb sc)) (fMul F (bb sc) (fDiv F docLen avgDocLen));
               tfNorm = fDiv F (fMul F tf (fAdd F (k1 sc) (float64 F 1))) (fAdd F tf (fMul F (k1 sc) lengthNorm))
           in fMul F idf tfNorm)"

section \<open>Data\<close>

record 'f Posting =
  DocID :: string
  TF :: 'f

record 'f PostingsChunk =
  ChunkID :: "32 word"
  Postings :: "'f Posting list"

record 'f EngineState =
  esTotalDocs :: int
  esAvgDocLen :: 'f

record 'f SearchResult =
  srDocID :: string
  srScore :: 'f

record ClusterQuery =
  QueryID :: string
  QueryText :: string
  cqLimit :: int

record RoutingEntry =
  reID :: string
  Address :: string
  Healthy :: bool

text \<open>\<open>json.Unmarshal\<close> returns whether it succeeded and what it left in the variable.\<close>

record 'f kernel_json =
  jmChunk :: "'f PostingsChunk \<Rightarrow> bytes"
  juChunk :: "bytes \<Rightarrow> bool \<times> 'f PostingsChunk"
  jmState :: "'f EngineState \<Rightarrow> bytes"
  juState :: "bytes \<Rightarrow> bool \<times> 'f EngineState"
  jmQuery :: "ClusterQuery \<Rightarrow> bytes"
  juHits :: "bytes \<Rightarrow> bool \<times> 'f SearchResult list"

record 'w NetworkTransport =
  BroadcastQuery :: "bytes \<Rightarrow> 'w \<Rightarrow> bytes list result \<times> 'w"

record 'w AuditInterceptor =
  VerifyAccess :: "bytes \<Rightarrow> string \<Rightarrow> string \<Rightarrow> 'w \<Rightarrow> bool \<times> 'w"
  LogAudit :: "string \<Rightarrow> string \<Rightarrow> string \<Rightarrow> 'w \<Rightarrow> 'w"

record ('d, 'e, 'f, 'w) kernel_env =
  keEnv :: "('d, 'e) env"
  keRun :: "nat \<Rightarrow> run_env"
  keFloat :: "'f float_ops"
  keJson :: "'f kernel_json"
  keSha :: "bytes \<Rightarrow> bytes"
  keUnicode :: unicode_ops
  keTerms :: "(string \<times> nat) list \<Rightarrow> (string \<times> nat) list"
  keScores :: "(string \<times> 'f) list \<Rightarrow> (string \<times> 'f) list"
  keTies :: "'f SearchResult list \<Rightarrow> 'f SearchResult list"
  keNow :: nat
  keFuel :: nat

record ('d, 'e, 'f, 'w) IntegratedEngine =
  ieDB :: "('d, 'e) db"
  ieTransport :: "'w NetworkTransport option"
  ieInterceptor :: "'w AuditInterceptor option"
  vNodes :: nat
  ring :: "32 word list"
  nodeMap :: "(32 word \<times> string) list"
  routingTable :: "(string \<times> RoutingEntry) list"
  TotalDocs :: int
  AvgDocLen :: 'f
  ieCalls :: nat
  ieWorld :: 'w

definition kernel_call ::
  "('d, 'e, 'f, 'w) kernel_env \<Rightarrow> (run_env \<Rightarrow> ('d, 'e) db \<Rightarrow> 'a \<times> ('d, 'e) db) \<Rightarrow> ('d, 'e, 'f, 'w) IntegratedEngine \<Rightarrow>
   'a \<times> ('d, 'e, 'f, 'w) IntegratedEngine" where
  "kernel_call X f s = (case f (keRun X (ieCalls s)) (ieDB s) of (a, db) \<Rightarrow> (a, s\<lparr>ieDB := db, ieCalls := ieCalls s + 1\<rparr>))"

definition kernel_begin :: "('d, 'e, 'f, 'w) IntegratedEngine \<Rightarrow> TxnID \<times> ('d, 'e, 'f, 'w) IntegratedEngine" where
  "kernel_begin s = (case BeginTxn (ieDB s) of (t, db) \<Rightarrow> (t, s\<lparr>ieDB := db\<rparr>))"

definition kernel_commit :: "TxnID \<Rightarrow> ('d, 'e, 'f, 'w) IntegratedEngine \<Rightarrow> ('d, 'e, 'f, 'w) IntegratedEngine" where
  "kernel_commit t s = s\<lparr>ieDB := CommitTxn t (ieDB s)\<rparr>"

text \<open>A deferred \<open>CommitTxn\<close> runs when the function returns or panics, not when it never ends.\<close>

definition defer_commit :: "TxnID \<Rightarrow> 'a result \<times> ('d, 'e, 'f, 'w) IntegratedEngine \<Rightarrow> 'a result \<times> ('d, 'e, 'f, 'w) IntegratedEngine" where
  "defer_commit t = (\<lambda>(r, s). (r, case r of Inl e \<Rightarrow> if e = Blocked \<or> e = OutOfFuel then s else kernel_commit t s | Inr _ \<Rightarrow> kernel_commit t s))"

lemma defer_commit_ok [simp]: "defer_commit t (Inr x, s) = (Inr x, kernel_commit t s)"
  by (simp add: defer_commit_def)

definition NewIntegratedEngine ::
  "('d, 'e, 'f, 'w) kernel_env \<Rightarrow> ('d, 'e) db \<Rightarrow> 'w NetworkTransport option \<Rightarrow> 'w AuditInterceptor option \<Rightarrow> 'w \<Rightarrow>
   ('d, 'e, 'f, 'w) IntegratedEngine result" where
  "NewIntegratedEngine X db transport interceptor w =
     (let s = \<lparr>ieDB = db, ieTransport = transport, ieInterceptor = interceptor, vNodes = DefaultVirtualNodes, ring = [], nodeMap = [],
               routingTable = [], TotalDocs = 0, AvgDocLen = float64 (keFloat X) 0, ieCalls = 0, ieWorld = w\<rparr>;
          (txn, s1) = kernel_begin s;
          (r, s2) = kernel_call X (\<lambda>R. Read (keEnv X) R MetadataPageID txn (bytes_of ''bm25_state'')) s1;
          s3 = kernel_commit txn s2
      in if stopped r then Inl (projl r)
         else case hit r of
                None \<Rightarrow> Inr s3
              | Some stateBytes \<Rightarrow>
                  (case juState (keJson X) stateBytes of
                     (ok, st) \<Rightarrow> Inr (if ok then s3\<lparr>TotalDocs := esTotalDocs st, AvgDocLen := esAvgDocLen st\<rparr> else s3)))"

section \<open>The ring of nodes\<close>

definition get_be32 :: "bytes \<Rightarrow> 32 word" where
  "get_be32 b = word_of_nat (get_le (rev (take 4 b)))"

definition put_be32 :: "32 word \<Rightarrow> bytes" where
  "put_be32 w = rev (put_le 4 (unat w))"

definition ring_key :: "(bytes \<Rightarrow> bytes) \<Rightarrow> string \<Rightarrow> nat \<Rightarrow> 32 word" where
  "ring_key sha nodeID i = get_be32 (sha (bytes_of (nodeID @ ''#'' @ dec i)))"

fun ring_loop :: "(bytes \<Rightarrow> bytes) \<Rightarrow> string \<Rightarrow> nat list \<Rightarrow> 32 word list \<times> (32 word \<times> string) list \<Rightarrow> 32 word list \<times> (32 word \<times> string) list" where
  "ring_loop sha nodeID [] st = st"
| "ring_loop sha nodeID (i # is) (hashes, nm) =
     (let hk = ring_key sha nodeID i in ring_loop sha nodeID is (hashes @ [hk], AList.update hk nodeID nm))"

definition AddClusterNode ::
  "('d, 'e, 'f, 'w) kernel_env \<Rightarrow> string \<Rightarrow> string \<Rightarrow> ('d, 'e, 'f, 'w) IntegratedEngine \<Rightarrow> ('d, 'e, 'f, 'w) IntegratedEngine" where
  "AddClusterNode X nodeID address s =
     (case ring_loop (keSha X) nodeID [0..<vNodes s] (ring s, nodeMap s) of
        (hashes, nm) \<Rightarrow> s\<lparr>routingTable := AList.update nodeID \<lparr>reID = nodeID, Address = address, Healthy = True\<rparr> (routingTable s),
                       ring := sort hashes, nodeMap := nm\<rparr>)"

section \<open>Inserting a document\<close>

definition count_terms :: "string list \<Rightarrow> (string \<times> nat) list" where
  "count_terms tokens = foldl (\<lambda>m t. AList.update t (case map_of m t of None \<Rightarrow> 1 | Some c \<Rightarrow> c + 1) m) [] tokens"

definition meta_key :: "string \<Rightarrow> bytes" where
  "meta_key w = bytes_of (''term_meta:'' @ w)"

definition chunk_key :: "string \<Rightarrow> nat \<Rightarrow> bytes" where
  "chunk_key w n = bytes_of (''term:'' @ w @ '':chunk:'' @ dec n)"

definition store_chunk ::
  "('d, 'e, 'f, 'w) kernel_env \<Rightarrow> TxnID \<Rightarrow> bytes \<Rightarrow> 'f PostingsChunk \<Rightarrow> ('d, 'e, 'f, 'w) IntegratedEngine \<Rightarrow>
   unit result \<times> ('d, 'e, 'f, 'w) IntegratedEngine" where
  "store_chunk X txn key chunk s =
     (case kernel_call X (\<lambda>R. Write (keEnv X) R IndexPageID txn key (jmChunk (keJson X) chunk) (IntParam 0)) s of
        (Some e, s1) \<Rightarrow> (Inl e, s1)
      | (None, s1) \<Rightarrow> (Inr (), s1))"

definition write_meta ::
  "('d, 'e, 'f, 'w) kernel_env \<Rightarrow> TxnID \<Rightarrow> string \<Rightarrow> 32 word \<Rightarrow> ('d, 'e, 'f, 'w) IntegratedEngine \<Rightarrow>
   error option \<times> ('d, 'e, 'f, 'w) IntegratedEngine" where
  "write_meta X txn w chunkCount = kernel_call X (\<lambda>R. Write (keEnv X) R IndexPageID txn (meta_key w) (put_be32 chunkCount) (IntParam 0))"

text \<open>The body of the loop over the terms, from the number of chunks on.\<close>

definition add_posting ::
  "('d, 'e, 'f, 'w) kernel_env \<Rightarrow> TxnID \<Rightarrow> string \<Rightarrow> string \<Rightarrow> nat \<Rightarrow> 32 word \<Rightarrow> ('d, 'e, 'f, 'w) IntegratedEngine \<Rightarrow>
   unit result \<times> ('d, 'e, 'f, 'w) IntegratedEngine" where
  "add_posting X txn docID w cnt chunkCount s =
     (let targetChunkKey = chunk_key w (unat (chunkCount - 1));
          (r, s1) = kernel_call X (\<lambda>R. Read (keEnv X) R IndexPageID txn targetChunkKey) s
      in if stopped r then (Inl (projl r), s1)
         else let currentChunk = (case hit r of Some b \<Rightarrow> snd (juChunk (keJson X) b) | None \<Rightarrow> \<lparr>ChunkID = chunkCount - 1, Postings = []\<rparr>);
                  newPosting = \<lparr>DocID = docID, TF = float64 (keFloat X) (int cnt)\<rparr>
              in if PostingsChunkSize \<le> length (Postings currentChunk)
                 then ignoring (write_meta X txn w (chunkCount + 1) s1)
                        (store_chunk X txn (chunk_key w (unat chunkCount)) \<lparr>ChunkID = chunkCount, Postings = [newPosting]\<rparr>)
                 else store_chunk X txn targetChunkKey (currentChunk\<lparr>Postings := Postings currentChunk @ [newPosting]\<rparr>) s1)"

definition index_term ::
  "('d, 'e, 'f, 'w) kernel_env \<Rightarrow> TxnID \<Rightarrow> string \<Rightarrow> string \<Rightarrow> nat \<Rightarrow> ('d, 'e, 'f, 'w) IntegratedEngine \<Rightarrow>
   unit result \<times> ('d, 'e, 'f, 'w) IntegratedEngine" where
  "index_term X txn docID w cnt s =
     (case kernel_call X (\<lambda>R. Read (keEnv X) R IndexPageID txn (meta_key w)) s of
        (r, s1) \<Rightarrow>
          if stopped r then (Inl (projl r), s1)
          else case hit r of
                 Some b \<Rightarrow> if length b < 4 then (Inl GoPanic, s1)
                           else if get_be32 b = 0 then ignoring (write_meta X txn w 1 s1) (add_posting X txn docID w cnt 1)
                           else add_posting X txn docID w cnt (get_be32 b) s1
               | None \<Rightarrow> ignoring (write_meta X txn w 1 s1) (add_posting X txn docID w cnt 1))"

fun index_terms ::
  "('d, 'e, 'f, 'w) kernel_env \<Rightarrow> TxnID \<Rightarrow> string \<Rightarrow> (string \<times> nat) list \<Rightarrow> ('d, 'e, 'f, 'w) IntegratedEngine \<Rightarrow>
   unit result \<times> ('d, 'e, 'f, 'w) IntegratedEngine" where
  "index_terms X txn docID [] s = (Inr (), s)"
| "index_terms X txn docID ((w, cnt) # rest) s =
     (case index_term X txn docID w cnt s of
        (Inl e, s1) \<Rightarrow> (Inl e, s1)
      | (Inr _, s1) \<Rightarrow> index_terms X txn docID rest s1)"

definition update_stats :: "('d, 'e, 'f, 'w) kernel_env \<Rightarrow> nat \<Rightarrow> ('d, 'e, 'f, 'w) IntegratedEngine \<Rightarrow> ('d, 'e, 'f, 'w) IntegratedEngine" where
  "update_stats X len s =
     (let F = keFloat X; prevDocs = TotalDocs s
      in s\<lparr>TotalDocs := prevDocs + 1,
           AvgDocLen := fDiv F (fAdd F (fMul F (AvgDocLen s) (float64 F prevDocs)) (float64 F (int len))) (float64 F (prevDocs + 1))\<rparr>)"

definition InsertDocument ::
  "('d, 'e, 'f, 'w) kernel_env \<Rightarrow> PageID \<Rightarrow> string \<Rightarrow> string \<Rightarrow> ('d, 'e, 'f, 'w) IntegratedEngine \<Rightarrow>
   unit result \<times> ('d, 'e, 'f, 'w) IntegratedEngine" where
  "InsertDocument X pageID docID txt s =
     (let tokens = Analyzer_Tokenize (keUnicode X) txt;
          (txn, s1) = kernel_begin s
      in defer_commit txn
          (case kernel_call X (\<lambda>R. Write (keEnv X) R pageID txn (bytes_of (''doc:'' @ docID)) (bytes_of txt) (IntParam 0)) s1 of
             (Some e, s2) \<Rightarrow> (Inl e, s2)
           | (None, s2) \<Rightarrow>
               (case index_terms X txn docID (keTerms X (count_terms tokens)) s2 of
                  (Inl e, s3) \<Rightarrow> (Inl e, s3)
                | (Inr _, s3) \<Rightarrow>
                    let s4 = update_stats X (length tokens) s3;
                        stateBytes = jmState (keJson X) \<lparr>esTotalDocs = TotalDocs s4, esAvgDocLen = AvgDocLen s4\<rparr>
                    in ignoring (kernel_call X (\<lambda>R. Write (keEnv X) R MetadataPageID txn (bytes_of ''bm25_state'') stateBytes (IntParam 0)) s4)
                         (\<lambda>s5. (Inr (), s5)))))"

section \<open>Searching\<close>

text \<open>The chunks a cursor over the keys of a term delivers, and how many rounds it takes.\<close>

fun chunk_loop ::
  "('d, 'e, 'f, 'w) kernel_env \<Rightarrow> nat \<Rightarrow> range_cursor \<Rightarrow> ('d, 'e, 'f, 'w) IntegratedEngine \<Rightarrow>
   'f PostingsChunk list result \<times> ('d, 'e, 'f, 'w) IntegratedEngine" where
  "chunk_loop X 0 cursor s = (Inl OutOfFuel, s)"
| "chunk_loop X (Suc n) cursor s =
     (case kernel_call X (\<lambda>R db. case Range_Next (keEnv X) R cursor db of (r, rc, db') \<Rightarrow> ((r, rc), db')) s of
        ((Inl e, rc), s1) \<Rightarrow> (if fatal e then Inl e else Inr [], s1)
      | ((Inr None, rc), s1) \<Rightarrow> (Inr [], s1)
      | ((Inr (Some (k, [])), rc), s1) \<Rightarrow> (Inr [], s1)
      | ((Inr (Some (k, b # bs)), rc), s1) \<Rightarrow>
          (case chunk_loop X n rc s1 of
             (Inl e, s2) \<Rightarrow> (Inl e, s2)
           | (Inr cs, s2) \<Rightarrow> (Inr (case juChunk (keJson X) (b # bs) of (ok, chunk) \<Rightarrow> if ok then chunk # cs else cs), s2)))"

definition term_chunks ::
  "('d, 'e, 'f, 'w) kernel_env \<Rightarrow> TxnID \<Rightarrow> string \<Rightarrow> ('d, 'e, 'f, 'w) IntegratedEngine \<Rightarrow>
   'f PostingsChunk list result \<times> ('d, 'e, 'f, 'w) IntegratedEngine" where
  "term_chunks X txn w =
     chunk_loop X (keFuel X)
       (NewRangeCursor IndexPageID txn (chunk_key w 0) (Some (bytes_of (''term:'' @ w @ '':chunk:'') @ [255])))"

primrec evaluateAST ::
  "('d, 'e, 'f, 'w) kernel_env \<Rightarrow> TxnID \<Rightarrow> query \<Rightarrow> ('d, 'e, 'f, 'w) IntegratedEngine \<Rightarrow> string list result \<times> ('d, 'e, 'f, 'w) IntegratedEngine" where
  "evaluateAST X txn (TermQuery w) s =
     (case term_chunks X txn w s of
        (Inl e, s1) \<Rightarrow> (Inl e, s1)
      | (Inr chunks, s1) \<Rightarrow> (Inr (foldl (\<lambda>res p. List.insert (DocID p) res) [] (concat (map Postings chunks))), s1))"
| "evaluateAST X txn (AndQuery l r) s =
     (case evaluateAST X txn l s of
        (Inl e, s1) \<Rightarrow> (Inl e, s1)
      | (Inr left, s1) \<Rightarrow>
          (case evaluateAST X txn r s1 of
             (Inl e, s2) \<Rightarrow> (Inl e, s2)
           | (Inr right, s2) \<Rightarrow> (Inr (filter (\<lambda>k. k \<in> set right) left), s2)))"
| "evaluateAST X txn (OrQuery l r) s =
     (case evaluateAST X txn l s of
        (Inl e, s1) \<Rightarrow> (Inl e, s1)
      | (Inr left, s1) \<Rightarrow>
          (case evaluateAST X txn r s1 of
             (Inl e, s2) \<Rightarrow> (Inl e, s2)
           | (Inr right, s2) \<Rightarrow> (Inr (foldl (\<lambda>res k. List.insert k res) left right), s2)))"
| "evaluateAST X txn (NotQuery l r) s = (Inr [], s)"

definition add_scores ::
  "('d, 'e, 'f, 'w) kernel_env \<Rightarrow> string list \<Rightarrow> int \<Rightarrow> 'f \<Rightarrow> 'f Posting list \<Rightarrow> (string \<times> 'f) list \<Rightarrow> (string \<times> 'f) list" where
  "add_scores X validDocs totalDocs avgDocLen found_ps docScores =
     (let F = keFloat X
      in foldl (\<lambda>m p. if DocID p \<notin> set validDocs then m
                      else let score = Score F (NewBM25Scorer F) (TF p) avgDocLen avgDocLen totalDocs (int (length found_ps))
                           in AList.update (DocID p) (fAdd F (case map_of m (DocID p) of None \<Rightarrow> float64 F 0 | Some x \<Rightarrow> x) score) m)
           docScores found_ps)"

fun score_tokens ::
  "('d, 'e, 'f, 'w) kernel_env \<Rightarrow> TxnID \<Rightarrow> string list \<Rightarrow> int \<Rightarrow> 'f \<Rightarrow> string list \<Rightarrow> (string \<times> 'f) list \<Rightarrow>
   ('d, 'e, 'f, 'w) IntegratedEngine \<Rightarrow> (string \<times> 'f) list result \<times> ('d, 'e, 'f, 'w) IntegratedEngine" where
  "score_tokens X txn validDocs totalDocs avgDocLen [] docScores s = (Inr docScores, s)"
| "score_tokens X txn validDocs totalDocs avgDocLen (token # tokens) docScores s =
     (case term_chunks X txn token s of
        (Inl e, s1) \<Rightarrow> (Inl e, s1)
      | (Inr chunks, s1) \<Rightarrow>
          score_tokens X txn validDocs totalDocs avgDocLen tokens
            (add_scores X validDocs totalDocs avgDocLen (concat (map Postings chunks)) docScores) s1)"

text \<open>Results by falling score.\<close>

fun insert_result :: "'f float_ops \<Rightarrow> 'f SearchResult \<Rightarrow> 'f SearchResult list \<Rightarrow> 'f SearchResult list" where
  "insert_result F r [] = [r]"
| "insert_result F r (x # xs) = (if fLeq F (srScore x) (srScore r) then r # x # xs else x # insert_result F r xs)"

text \<open>A number: NaN compares with nothing, itself included.\<close>

definition number :: "'f float_ops \<Rightarrow> 'f \<Rightarrow> bool" where
  "number F x \<longleftrightarrow> fLeq F x x"

definition sort_results :: "('d, 'e, 'f, 'w) kernel_env \<Rightarrow> 'f SearchResult list \<Rightarrow> 'f SearchResult list" where
  "sort_results X rs =
     (if \<forall>r\<in>set rs. number (keFloat X) (srScore r) then foldr (insert_result (keFloat X)) (keTies X rs) [] else keTies X rs)"

definition truncate_results :: "int \<Rightarrow> 'a list \<Rightarrow> 'a list" where
  "truncate_results limit rs = (if 0 < limit \<and> limit < int (length rs) then take (nat limit) rs else rs)"

definition LocalSearch ::
  "('d, 'e, 'f, 'w) kernel_env \<Rightarrow> string \<Rightarrow> int \<Rightarrow> ('d, 'e, 'f, 'w) IntegratedEngine \<Rightarrow>
   'f SearchResult list result \<times> ('d, 'e, 'f, 'w) IntegratedEngine" where
  "LocalSearch X queryText limit s =
     (case ParseQuery queryText of
        Inl e \<Rightarrow> (Inl e, s)
      | Inr ast \<Rightarrow>
          let (txn, s1) = kernel_begin s
          in defer_commit txn
               (case evaluateAST X txn ast s1 of
                  (Inl e, s2) \<Rightarrow> (Inl e, s2)
                | (Inr validDocs, s2) \<Rightarrow>
                    if validDocs = [] then (Inr [], s2)
                    else (case score_tokens X txn validDocs (TotalDocs s) (AvgDocLen s) (Analyzer_Tokenize (keUnicode X) queryText) [] s2 of
                            (Inl e, s3) \<Rightarrow> (Inl e, s3)
                          | (Inr docScores, s3) \<Rightarrow>
                              (Inr (truncate_results limit
                                     (sort_results X (map (\<lambda>(i, x). \<lparr>srDocID = i, srScore = x\<rparr>) (keScores X docScores)))),
                               s3))))"

definition ScatterGather ::
  "('d, 'e, 'f, 'w) kernel_env \<Rightarrow> bytes \<Rightarrow> string \<Rightarrow> int \<Rightarrow> ('d, 'e, 'f, 'w) IntegratedEngine \<Rightarrow>
   'f SearchResult list result \<times> ('d, 'e, 'f, 'w) IntegratedEngine" where
  "ScatterGather X subjectID queryText limit s =
     (let (allowed, s1) =
            (case ieInterceptor s of
               None \<Rightarrow> (True, s)
             | Some ic \<Rightarrow>
                 (case VerifyAccess ic subjectID ''SEARCH'' ''audit_logs'' (ieWorld s) of
                    (ok, w) \<Rightarrow>
                      (ok, s\<lparr>ieWorld := (if ok then w else LogAudit ic (string_of subjectID) ''SEARCH_DENIED''
                               ''ABAC validation failure on distributed search request'' w)\<rparr>)))
      in if \<not> allowed then (Inl ErrAccessDenied, s1)
         else case LocalSearch X queryText limit s1 of
                (Inl e, s2) \<Rightarrow> (Inl e, s2)
              | (Inr localHits, s2) \<Rightarrow>
                  (case ieTransport s2 of
                     None \<Rightarrow> (Inr localHits, s2)
                   | Some t \<Rightarrow>
                       (case BroadcastQuery t (jmQuery (keJson X) \<lparr>QueryID = ''q_'' @ dec (keNow X), QueryText = queryText, cqLimit = limit\<rparr>) (ieWorld s2) of
                          (r, w) \<Rightarrow>
                            let peers = (case r of
                                           Inl _ \<Rightarrow> []
                                         | Inr responses \<Rightarrow> concat (map (\<lambda>b. case juHits (keJson X) b of (ok, hits) \<Rightarrow> if ok then hits else []) responses))
                            in (Inr (truncate_results limit (sort_results X (localHits @ peers))), s2\<lparr>ieWorld := w\<rparr>))))"

section \<open>The ring\<close>

lemma ring_loop_eq:
  "ring_loop sha n is (hs, nm) = (hs @ map (ring_key sha n) is, foldl (\<lambda>m i. AList.update (ring_key sha n i) n m) nm is)"
  by (induction "is" arbitrary: hs nm) (simp_all add: Let_def)

lemma ring_loop_map: "map_of (foldl (\<lambda>m i. AList.update (f i) n m) nm is) h = (if h \<in> f ` set is then Some n else map_of nm h)"
  by (induction "is" arbitrary: nm) auto

text \<open>The owner of a point is the node that was added last among those with this hash.\<close>

fun owner :: "(bytes \<Rightarrow> bytes) \<Rightarrow> nat \<Rightarrow> (string \<times> string) list \<Rightarrow> 32 word \<Rightarrow> string option" where
  "owner sha v [] h = None"
| "owner sha v ((n, a) # rest) h = (case owner sha v rest h of Some m \<Rightarrow> Some m | None \<Rightarrow> if h \<in> ring_key sha n ` {..<v} then Some n else None)"

definition add_nodes :: "('d, 'e, 'f, 'w) kernel_env \<Rightarrow> (string \<times> string) list \<Rightarrow> ('d, 'e, 'f, 'w) IntegratedEngine \<Rightarrow> ('d, 'e, 'f, 'w) IntegratedEngine" where
  "add_nodes X calls s = foldl (\<lambda>s (n, a). AddClusterNode X n a s) s calls"

lemma add_nodes_simps [simp]: "add_nodes X [] s = s" "add_nodes X ((n, a) # calls) s = add_nodes X calls (AddClusterNode X n a s)"
  by (simp_all add: add_nodes_def)

lemma AddClusterNode_fields:
  "vNodes (AddClusterNode X n a s) = vNodes s" "mset (ring (AddClusterNode X n a s)) = mset (ring s) + mset (map (ring_key (keSha X) n) [0..<vNodes s])"
  "sorted (ring (AddClusterNode X n a s))"
  "map_of (nodeMap (AddClusterNode X n a s)) h = (if h \<in> ring_key (keSha X) n ` {..<vNodes s} then Some n else map_of (nodeMap s) h)"
  "map_of (routingTable (AddClusterNode X n a s)) m = (if m = n then Some \<lparr>reID = n, Address = a, Healthy = True\<rparr> else map_of (routingTable s) m)"
  by (simp_all add: AddClusterNode_def ring_loop_eq ring_loop_map lessThan_atLeast0)

lemma add_nodes_ring:
  "vNodes (add_nodes X calls s) = vNodes s \<and>
   mset (ring (add_nodes X calls s)) = mset (ring s) + mset (concat (map (\<lambda>(n, a). map (ring_key (keSha X) n) [0..<vNodes s]) calls)) \<and>
   (sorted (ring s) \<longrightarrow> sorted (ring (add_nodes X calls s))) \<and>
   map_of (nodeMap (add_nodes X calls s)) h = (case owner (keSha X) (vNodes s) calls h of Some n \<Rightarrow> Some n | None \<Rightarrow> map_of (nodeMap s) h)"
proof (induction calls arbitrary: s)
  case (Cons c calls)
  obtain n a where "c = (n, a)" by fastforce
  then show ?case using Cons [of "AddClusterNode X n a s"] AddClusterNode_fields [of X n a s]
    by (simp add: ac_simps split: option.split)
qed simp

lemma add_nodes_table: "map_of (routingTable (add_nodes X calls s)) m =
   (case map_of (rev calls) m of Some a \<Rightarrow> Some \<lparr>reID = m, Address = a, Healthy = True\<rparr> | None \<Rightarrow> map_of (routingTable s) m)"
proof (induction calls arbitrary: s)
  case (Cons c calls)
  obtain n a where "c = (n, a)" by fastforce
  then show ?case using Cons [of "AddClusterNode X n a s"] AddClusterNode_fields(5) [of X n a s]
    by (simp add: map_add_def split: option.split)
qed simp

lemma owner_spec: "owner sha v calls h = Some n \<Longrightarrow> n \<in> fst ` set calls \<and> h \<in> ring_key sha n ` {..<v}"
  "(owner sha v calls h \<noteq> None) \<longleftrightarrow> (\<exists>(n, a)\<in>set calls. h \<in> ring_key sha n ` {..<v})"
  by (induction calls) (auto split: option.splits if_splits)

lemma length_points: "length (concat (map (\<lambda>(n, a). map (f n) [0..<v]) calls)) = v * length calls"
  by (induction calls) (simp_all add: case_prod_unfold)

section \<open>Keys of the index page\<close>

lemma has_prefix_eq: "has_prefix s p \<longleftrightarrow> (\<exists>r. s = p @ r)"
  by (metis append_take_drop_id has_prefix_append has_prefix_def)

lemma bytes_of_inj: "bytes_of a = bytes_of b \<longleftrightarrow> a = b"
  by (metis string_of_bytes_of)

lemma bytes_of_prefix: "has_prefix (bytes_of a) (bytes_of b) \<longleftrightarrow> has_prefix a b"
  unfolding has_prefix_def by (metis bytes_of_inj bytes_of_def length_map take_map)

lemma dec_zero [simp]: "dec 0 = ''0''"
  by code_simp

lemma dec_head: "hd (dec n) = CHR ''0'' \<Longrightarrow> n = 0"
proof (induction n rule: dec.induct)
  case (1 n)
  show ?case
  proof (cases "n < 10")
    case True
    then have "(of_char (digit_char n) :: nat) = of_char (CHR ''0'')" using 1(2) by (simp add: dec.simps [of n])
    then show ?thesis using True by (simp add: of_digit_char)
  next
    case False
    then have "hd (dec (n div 10)) = CHR ''0''" using 1(2) by (simp add: dec.simps [of n])
    then show ?thesis using 1(1) [OF False] False by simp
  qed
qed

definition colon_free :: "string \<Rightarrow> bool" where
  "colon_free w \<longleftrightarrow> CHR '':'' \<notin> set w"

lemma colon_split: "colon_free w \<Longrightarrow> colon_free w' \<Longrightarrow> w' @ CHR '':'' # r' = w @ CHR '':'' # r \<Longrightarrow> w' = w \<and> r' = r"
proof (induction w arbitrary: w')
  case Nil
  then show ?case by (cases w') (auto simp: colon_free_def)
next
  case (Cons c w)
  then show ?case by (cases w') (auto simp: colon_free_def)
qed

text \<open>Only the first chunk has the key of the first chunk as a prefix.\<close>

lemma chunk_key_prefix:
  assumes "colon_free w" "colon_free w'" "has_prefix (chunk_key w' n) (chunk_key w 0)"
  shows "w' = w \<and> n = 0"
proof -
  obtain r where "''term:'' @ w' @ '':chunk:'' @ dec n = (''term:'' @ w @ '':chunk:'' @ ''0'') @ r"
    using assms(3) [unfolded chunk_key_def bytes_of_prefix dec_zero] unfolding has_prefix_eq by blast
  then have "w' @ CHR '':'' # (''chunk:'' @ dec n) = w @ CHR '':'' # (''chunk:0'' @ r)" by simp
  from colon_split [OF assms(1,2) this] have "w' = w" "dec n = CHR ''0'' # r" by simp_all
  then show ?thesis using dec_head [of n] by simp
qed

lemma meta_key_prefix: "\<not> has_prefix (meta_key w') (chunk_key w 0)"
  unfolding meta_key_def chunk_key_def bytes_of_prefix by (simp add: has_prefix_eq)

section \<open>Queries on the in-memory engine\<close>

text \<open>The version of a key a transaction sees on a page where nothing expires.\<close>

definition latest_version :: "TxnID set \<Rightarrow> TxnID \<Rightarrow> bytes \<Rightarrow> srec list \<Rightarrow> bytes option" where
  "latest_version active t k rs =
     (let vs = filter (\<lambda>r. rKey r = k \<and> visible active t r) rs in if vs = [] then None else Some (rVal (last vs)))"

definition lasting :: "('d, 'e, 'f, 'w) kernel_env \<Rightarrow> srec list \<Rightarrow> bool" where
  "lasting X rs \<longleftrightarrow> (\<forall>r\<in>set rs. \<forall>c. clock (keRun X c) < sint (rExp r))"

definition index_words :: "srec list \<Rightarrow> bool" where
  "index_words rs \<longleftrightarrow> (\<forall>r\<in>set rs. \<exists>w n. colon_free w \<and> (rKey r = meta_key w \<or> rKey r = chunk_key w n))"

definition engine_ok :: "nat \<Rightarrow> (bytes, lru, 'f, 'w) kernel_env \<Rightarrow> srec list \<Rightarrow> (bytes, lru, 'f, 'w) IntegratedEngine \<Rightarrow> bool" where
  "engine_ok fuel X rs s \<longleftrightarrow> keEnv X = mem_env fuel \<and> (\<forall>c l. mset (sperm (keRun X c) l) = mset l) \<and> 2 \<le> keFuel X \<and>
     ready fuel (bp (ieDB s)) \<and> page_records mem_stored (ieDB s) IndexPageID rs \<and> lasting X rs \<and> index_words rs"

lemma read_lasting: "lasting X rs \<Longrightarrow> read_spec A t k (clock (keRun X c)) rs = latest_version A t k rs"
proof -
  assume "lasting X rs"
  moreover have "last (filter P rs) \<in> set rs" if "filter P rs \<noteq> []" for P using last_in_set [OF that] by simp
  ultimately show ?thesis by (simp add: read_spec_def latest_version_def lasting_def Let_def)
qed

lemma read_spec_key: "read_spec A t k now rs \<noteq> None \<Longrightarrow> \<exists>r\<in>set rs. rKey r = k"
  by (auto simp: read_spec_def Let_def filter_empty_conv split: if_splits)

lemma scan_first_chunk:
  assumes "index_words rs" "colon_free w" "scan_pairs A t (chunk_key w 0) now rs xs"
  shows "xs = (case read_spec A t (chunk_key w 0) now rs of None \<Rightarrow> [] | Some v \<Rightarrow> [(chunk_key w 0, v)])"
proof -
  let ?k = "chunk_key w 0"
  have d: "distinct (map fst xs)" and m: "\<And>k. map_of xs k = (if has_prefix k ?k then read_spec A t k now rs else None)"
    using assms(3) by (simp_all add: scan_pairs_def)
  have only: "fst x = ?k" if x: "x \<in> set xs" for x
  proof -
    have "map_of xs (fst x) \<noteq> None" using x by (simp add: map_of_eq_None_iff)
    then have p: "has_prefix (fst x) ?k" "read_spec A t (fst x) now rs \<noteq> None" using m [of "fst x"] by (auto split: if_splits)
    obtain w' n where "colon_free w'" "fst x = meta_key w' \<or> fst x = chunk_key w' n"
      using read_spec_key [OF p(2)] assms(1) unfolding index_words_def by metis
    then show ?thesis using p(1) chunk_key_prefix [OF assms(2), of w' n] meta_key_prefix [of w' w] by auto
  qed
  have k: "map_of xs ?k = read_spec A t ?k now rs" using m [of ?k] by (simp add: has_prefix_def)
  show ?thesis
  proof (cases xs)
    case Nil
    then show ?thesis using k by simp
  next
    case (Cons x ys)
    then have "ys = []" using only d by (cases ys) auto
    moreover obtain v where "x = (?k, v)" using only [of x] Cons by (cases x) simp
    ultimately have "xs = [(?k, v)]" "Some v = read_spec A t ?k now rs" using k Cons by simp_all
    then show ?thesis by (metis option.simps(5))
  qed
qed

lemma append_less: "p @ a < p @ b \<longleftrightarrow> a < (b :: bytes)"
  by (induction p) simp_all

lemma before_end: "\<not> bytes_of (''term:'' @ w @ '':chunk:'') @ [255] < chunk_key w 0"
proof -
  let ?p = "bytes_of (''term:'' @ w @ '':chunk:'')"
  have "chunk_key w 0 = ?p @ [48]" by (simp add: chunk_key_def bytes_of_def)
  moreover have "\<not> ?p @ [255] < ?p @ [48]" unfolding append_less by simp
  ultimately show ?thesis by simp
qed

text \<open>What the cursor of a term delivers: the first chunk, if there is one.\<close>

definition first_chunk :: "('d, 'e, 'f, 'w) kernel_env \<Rightarrow> TxnID set \<Rightarrow> TxnID \<Rightarrow> srec list \<Rightarrow> string \<Rightarrow> 'f PostingsChunk list" where
  "first_chunk X active t rs w =
     (case filled (latest_version active t (chunk_key w 0) rs) of
        None \<Rightarrow> []
      | Some b \<Rightarrow> (case juChunk (keJson X) b of (ok, chunk) \<Rightarrow> if ok then [chunk] else []))"

lemma cursor_step:
  assumes s: "engine_ok fuel X rs s" and w: "colon_free w" and rc: "rcPage rc = IndexPageID" "rcTxn rc = t" "rcStart rc = chunk_key w 0"
    "rcEnd rc = Some (bytes_of (''term:'' @ w @ '':chunk:'') @ [255])" "\<not> rcExhausted rc" "rcCurrent rc = [] \<or> rcCurrent rc = chunk_key w 0"
  defines "m \<equiv> (if rcCurrent rc = [] then latest_version (activeTxns (ieDB s)) t (chunk_key w 0) rs else None)"
  obtains rc' s' where "kernel_call X (\<lambda>R db. case Range_Next (keEnv X) R rc db of (r, rc, db') \<Rightarrow> ((r, rc), db')) s =
      ((Inr (map_option (Pair (chunk_key w 0)) m), rc'), s')" "engine_ok fuel X rs s'" "activeTxns (ieDB s') = activeTxns (ieDB s)"
    "m \<noteq> None \<Longrightarrow> rc' = rc\<lparr>rcCurrent := chunk_key w 0\<rparr>"
proof -
  let ?R = "keRun X (ieCalls s)" let ?k = "chunk_key w 0" let ?A = "activeTxns (ieDB s)"
  have e: "keEnv X = mem_env fuel" "ready fuel (bp (ieDB s))" "page_records mem_stored (ieDB s) IndexPageID rs" "lasting X rs" "index_words rs"
    and perm: "\<And>l. mset (sperm ?R l) = mset l" using s by (simp_all add: engine_ok_def)
  have b: "unat IndexPageID < 2 ^ 48" by (simp add: IndexPageID_def)
  obtain xs db' where S: "Scan (mem_env fuel) ?R IndexPageID t ?k (range_iter rc) (False, [], []) (ieDB s) = (Inr (pair_loop (range_iter rc) xs (False, [], [])), db')"
      "scan_pairs ?A t ?k (clock ?R) rs xs" "ready fuel (bp db')" "frame_but mem_stored {} (ieDB s) db'" "page_records mem_stored db' IndexPageID rs"
    by (rule mem_Scan [OF e(2) b e(3) perm])
  have ne: "?k \<noteq> []" by (simp add: chunk_key_def bytes_of_def)
  have xs: "xs = (case latest_version ?A t ?k rs of None \<Rightarrow> [] | Some v \<Rightarrow> [(?k, v)])"
    using scan_first_chunk [OF e(5) w S(2)] read_lasting [OF e(4)] by simp
  have loop: "pair_loop (range_iter rc) xs (False, [], []) = (case m of None \<Rightarrow> (False, [], []) | Some v \<Rightarrow> (False, ?k, v))"
    using rc(4,6) before_end [of w] ne by (auto simp: xs range_iter_def m_def split: option.split)
  let ?s = "s\<lparr>ieDB := db', ieCalls := Suc (ieCalls s)\<rparr>"
  let ?rc = "case m of None \<Rightarrow> rc\<lparr>rcExhausted := True\<rparr> | Some v \<Rightarrow> rc\<lparr>rcCurrent := ?k, rcStart := ?k, rcExhausted := False\<rparr>"
  have "Range_Next (mem_env fuel) ?R rc (ieDB s) = (Inr (map_option (Pair ?k) m), ?rc, db')"
    using S(1) rc(1-3,5) ne by (auto simp: Range_Next_def loop Let_def split: option.split)
  then have "kernel_call X (\<lambda>R db. case Range_Next (keEnv X) R rc db of (r, rc, db') \<Rightarrow> ((r, rc), db')) s = ((Inr (map_option (Pair ?k) m), ?rc), ?s)"
    by (simp add: kernel_call_def e(1))
  moreover have "engine_ok fuel X rs ?s" using s S(3,5) by (simp add: engine_ok_def)
  moreover have "activeTxns (ieDB ?s) = ?A" using S(4) by (simp add: frame_but_def)
  moreover have "m \<noteq> None \<Longrightarrow> ?rc = rc\<lparr>rcCurrent := ?k\<rparr>" using rc(3,5) by auto
  ultimately show thesis by (rule that)
qed

lemma term_chunks_first:
  assumes s: "engine_ok fuel X rs s" and w: "colon_free w"
  obtains s' where "term_chunks X t w s = (Inr (first_chunk X (activeTxns (ieDB s)) t rs w), s')" "engine_ok fuel X rs s'"
    "activeTxns (ieDB s') = activeTxns (ieDB s)"
proof -
  let ?k = "chunk_key w 0" let ?A = "activeTxns (ieDB s)" let ?m = "latest_version ?A t ?k rs"
  let ?rc = "NewRangeCursor IndexPageID t ?k (Some (bytes_of (''term:'' @ w @ '':chunk:'') @ [255]))"
  have ne: "?k \<noteq> []" by (simp add: chunk_key_def bytes_of_def)
  obtain n where n: "keFuel X = Suc (Suc n)" using s by (auto simp: engine_ok_def dest: le_Suc_ex)
  obtain rc1 s1 where 1: "kernel_call X (\<lambda>R db. case Range_Next (keEnv X) R ?rc db of (r, rc, db') \<Rightarrow> ((r, rc), db')) s = ((Inr (map_option (Pair ?k) ?m), rc1), s1)"
      "engine_ok fuel X rs s1" "activeTxns (ieDB s1) = ?A" "?m \<noteq> None \<Longrightarrow> rc1 = ?rc\<lparr>rcCurrent := ?k\<rparr>"
    by (rule cursor_step [OF s w, of ?rc t]) (simp_all add: NewRangeCursor_def)
  show thesis
  proof (cases "filled ?m")
    case None
    then have "term_chunks X t w s = (Inr (first_chunk X ?A t rs w), s1)"
      using 1(1) by (cases ?m) (auto simp: term_chunks_def n first_chunk_def filled_def split: if_splits)
    then show thesis using 1(2,3) by (rule that)
  next
    case (Some v)
    then obtain b bs where v: "?m = Some (b # bs)" "v = b # bs" by (cases v) (auto simp: filled_Some)
    have rc1: "rc1 = ?rc\<lparr>rcCurrent := ?k\<rparr>" using 1(4) v(1) by simp
    obtain rc2 s2 where 2: "kernel_call X (\<lambda>R db. case Range_Next (keEnv X) R rc1 db of (r, rc, db') \<Rightarrow> ((r, rc), db')) s1 = ((Inr None, rc2), s2)"
        "engine_ok fuel X rs s2" "activeTxns (ieDB s2) = activeTxns (ieDB s1)"
      by (rule cursor_step [OF 1(2) w, of rc1 t]) (use ne in \<open>simp_all add: rc1 NewRangeCursor_def\<close>)
    have "term_chunks X t w s = (Inr (first_chunk X ?A t rs w), s2)"
      using 1(1) 2(1) by (simp add: term_chunks_def n v first_chunk_def split: prod.split)
    moreover have "activeTxns (ieDB s2) = ?A" using 2(3) 1(3) by simp
    ultimately show thesis using 2(2) by (intro that)
  qed
qed

text \<open>What a query selects, given what its words select.\<close>

primrec kernel_docs :: "(string \<Rightarrow> string set) \<Rightarrow> query \<Rightarrow> string set" where
  "kernel_docs D (TermQuery w) = D w"
| "kernel_docs D (AndQuery l r) = kernel_docs D l \<inter> kernel_docs D r"
| "kernel_docs D (OrQuery l r) = kernel_docs D l \<union> kernel_docs D r"
| "kernel_docs D (NotQuery l r) = {}"

primrec query_words :: "query \<Rightarrow> string set" where
  "query_words (TermQuery w) = {w}"
| "query_words (AndQuery l r) = query_words l \<union> query_words r"
| "query_words (OrQuery l r) = query_words l \<union> query_words r"
| "query_words (NotQuery l r) = query_words l \<union> query_words r"

definition chunk_docs :: "'f PostingsChunk list \<Rightarrow> string set" where
  "chunk_docs cs = (\<Union>c\<in>set cs. DocID ` set (Postings c))"

lemma set_foldl_insert: "set (foldl (\<lambda>res p. List.insert (f p) res) acc ps) = set acc \<union> f ` set ps"
  by (induction ps arbitrary: acc) auto

lemma evaluate_docs:
  fixes t :: TxnID
  assumes "engine_ok fuel X rs s" "\<forall>w\<in>query_words q. colon_free w"
  defines "D \<equiv> \<lambda>w. chunk_docs (first_chunk X (activeTxns (ieDB s)) t rs w)"
  shows "\<exists>res s'. evaluateAST X t q s = (Inr res, s') \<and> set res = kernel_docs D q \<and> engine_ok fuel X rs s' \<and> activeTxns (ieDB s') = activeTxns (ieDB s)"
  using assms(1,2) unfolding D_def
proof (induction q arbitrary: s)
  case (TermQuery w)
  have w: "colon_free w" using TermQuery.prems(2) by simp
  obtain s' where "term_chunks X t w s = (Inr (first_chunk X (activeTxns (ieDB s)) t rs w), s')" "engine_ok fuel X rs s'"
      "activeTxns (ieDB s') = activeTxns (ieDB s)"
    by (rule term_chunks_first [OF TermQuery.prems(1) w, of t])
  then show ?case by (simp add: set_foldl_insert chunk_docs_def image_UN)
next
  case (AndQuery l r)
  obtain res1 s1 where 1: "evaluateAST X t l s = (Inr res1, s1)" "set res1 = kernel_docs (\<lambda>w. chunk_docs (first_chunk X (activeTxns (ieDB s)) t rs w)) l"
      "engine_ok fuel X rs s1" "activeTxns (ieDB s1) = activeTxns (ieDB s)" using AndQuery.IH(1) [of s] AndQuery.prems by auto
  obtain res2 s2 where 2: "evaluateAST X t r s1 = (Inr res2, s2)" "set res2 = kernel_docs (\<lambda>w. chunk_docs (first_chunk X (activeTxns (ieDB s)) t rs w)) r"
      "engine_ok fuel X rs s2" "activeTxns (ieDB s2) = activeTxns (ieDB s)" using AndQuery.IH(2) [OF 1(3)] AndQuery.prems(2) 1(4) by auto
  show ?case using 1 2 by auto
next
  case (OrQuery l r)
  obtain res1 s1 where 1: "evaluateAST X t l s = (Inr res1, s1)" "set res1 = kernel_docs (\<lambda>w. chunk_docs (first_chunk X (activeTxns (ieDB s)) t rs w)) l"
      "engine_ok fuel X rs s1" "activeTxns (ieDB s1) = activeTxns (ieDB s)" using OrQuery.IH(1) [of s] OrQuery.prems by auto
  obtain res2 s2 where 2: "evaluateAST X t r s1 = (Inr res2, s2)" "set res2 = kernel_docs (\<lambda>w. chunk_docs (first_chunk X (activeTxns (ieDB s)) t rs w)) r"
      "engine_ok fuel X rs s2" "activeTxns (ieDB s2) = activeTxns (ieDB s)" using OrQuery.IH(2) [OF 1(3)] OrQuery.prems(2) 1(4) by auto
  show ?case using 1 2 set_foldl_insert [of "\<lambda>k. k" res1 res2] by auto
next
  case (NotQuery l r)
  then show ?case by simp
qed

section \<open>Words of queries and documents\<close>

lemma token_colon_free: "w \<in> set (FieldsFunc token_sep s) \<Longrightarrow> colon_free w"
proof -
  assume "w \<in> set (FieldsFunc token_sep s)"
  then have "\<forall>c\<in>set w. \<not> token_sep c" using FieldsFunc_parts by blast
  moreover have "token_sep (CHR '':'')" by code_simp
  ultimately show ?thesis by (auto simp: colon_free_def)
qed

lemma Tokenize_colon_free: "w \<in> set (Tokenize s) \<Longrightarrow> colon_free w"
  by (auto simp: Tokenize_def token_colon_free)

lemma Analyzer_colon_free:
  assumes U: "unicode_ok U" and w: "w \<in> set (Analyzer_Tokenize U s)"
  shows "colon_free w"
proof -
  obtain t where t: "t \<in> set (rune_FieldsFunc (\<lambda>c. \<not> IsLetter U c \<and> \<not> IsNumber U c) s)" "w = rune_ToLower U t"
    using w by (auto simp: Analyzer_Tokenize_def Let_def)
  have o: "(of_char (CHR '':'') :: nat) = 58" by simp
  have "\<not> plain_rune U 58" using U by (simp add: unicode_ok_def plain_rune_def)
  moreover from this have "CHR '':'' \<notin> set t" using field_bytes [OF t(1), of "CHR '':''"] by auto
  ultimately show ?thesis using lower_bytes [OF U, of "CHR '':''" t] t(2) by (auto simp: colon_free_def plain_rune_def)
qed

lemma length_Analyzer: "length (Analyzer_Tokenize U s) \<le> length s"
proof -
  let ?l = "rune_FieldsFunc (\<lambda>c. \<not> IsLetter U c \<and> \<not> IsNumber U c) s"
  have "length (filter P (map (rune_ToLower U) ?l)) \<le> length ?l" for P using length_filter_le [of P "map (rune_ToLower U) ?l"] by simp
  then show ?thesis using length_rune_FieldsFunc [of _ s] unfolding Analyzer_Tokenize_def Let_def by (blast intro: order_trans)
qed

abbreviation good_words :: "query \<Rightarrow> bool" where
  "good_words q \<equiv> \<forall>w\<in>query_words q. colon_free w"

lemma parse_words:
  shows "parseExpression d1 t1 = Inr (q1, r1) \<Longrightarrow> good_words q1"
    and "good_words l2 \<Longrightarrow> orLoop d2 l2 t2 = Inr (q2, r2) \<Longrightarrow> good_words q2"
    and "parseTerm d3 t3 = Inr (q3, r3) \<Longrightarrow> good_words q3"
    and "good_words l4 \<Longrightarrow> andLoop d4 l4 t4 = Inr (q4, r4) \<Longrightarrow> good_words q4"
    and "parseFactor d5 t5 = Inr (q5, r5) \<Longrightarrow> good_words q5"
proof (induction d1 t1 and d2 l2 t2 and d3 t3 and d4 l4 t4 and d5 t5
    arbitrary: q1 r1 and q2 r2 and q3 r3 and q4 r4 and q5 r5
    rule: parseExpression_orLoop_parseTerm_andLoop_parseFactor.induct)
  case (1 depth toks)
  from "1.prems" obtain q' toks1 where "\<not> depth + 1 > MaxQueryDepth"
    "parseTerm (depth + 1) toks = Inr (q', toks1)" "orLoop (depth + 1) q' toks1 = Inr (q1, r1)"
    by (auto simp: parseExpression.simps split: if_splits sum.splits)
  with "1.IH" show ?case by (metis (no_types, lifting))
next
  case (2 depth left toks)
  show ?case
  proof (cases "current toks = ''OR''")
    case True
    obtain right toks1 where r: "parseTerm depth (consume toks) = Inr (right, toks1)" "orLoop depth (OrQuery left right) toks1 = Inr (q2, r2)"
      using "2.prems"(2) True by (subst (asm) orLoop.simps) (auto split: sum.splits)
    have "good_words (OrQuery left right)" using "2.IH"(1) [OF True r(1)] "2.prems"(1) by auto
    from "2.IH"(2) [OF True r(1) refl this r(2)] show ?thesis .
  qed (use "2.prems" in \<open>simp add: orLoop.simps\<close>)
next
  case (3 depth toks)
  from "3.prems" obtain q' toks1 where "\<not> depth + 1 > MaxQueryDepth"
    "parseFactor (depth + 1) toks = Inr (q', toks1)" "andLoop (depth + 1) q' toks1 = Inr (q3, r3)"
    by (auto simp: parseTerm.simps split: if_splits sum.splits)
  with "3.IH" show ?case by blast
next
  case (4 depth left toks)
  show ?case
  proof (cases "current toks = ''AND'' \<or> current toks = ''NOT''")
    case True
    obtain right toks1 where r: "parseFactor depth (consume toks) = Inr (right, toks1)"
        "andLoop depth (if current toks = ''AND'' then AndQuery left right else NotQuery left right) toks1 = Inr (q4, r4)"
      using "4.prems"(2) True by (subst (asm) andLoop.simps) (auto split: sum.splits)
    have "good_words right" using "4.IH"(1) [OF True r(1)] .
    then have "good_words (if current toks = ''AND'' then AndQuery left right else NotQuery left right)" using "4.prems"(1) by auto
    from "4.IH"(2) [OF True r(1) refl this r(2)] show ?thesis .
  qed (use "4.prems" in \<open>simp add: andLoop.simps\<close>)
next
  case (5 depth toks)
  show ?case
  proof (cases "current toks = ''(''")
    case True
    with "5.prems" obtain toks1 where "\<not> depth + 1 > MaxQueryDepth"
      "parseExpression (depth + 1) (consume toks) = Inr (q5, toks1)" "r5 = consume toks1"
      by (auto simp: parseFactor.simps split: if_splits sum.splits)
    with "5.IH" True show ?thesis by blast
  next
    case False
    have "colon_free ''''" by (simp add: colon_free_def)
    with False "5.prems" Tokenize_colon_free [of _ "current toks"] show ?thesis
      by (auto simp: parseFactor.simps split: if_splits list.splits)
  qed
qed

lemma ParseQuery_words: "ParseQuery input = Inr q \<Longrightarrow> good_words q"
  by (auto simp: ParseQuery_def Let_def split: sum.splits dest: parse_words(1))

section \<open>Scores and order of results\<close>

lemma mset_insert_result: "mset (insert_result F r xs) = add_mset r (mset xs)"
  by (induction xs) auto

lemma mset_insert_results: "mset (foldr (insert_result F) l []) = mset l"
  by (induction l) (simp_all add: mset_insert_result)

lemma mset_sort_results: "mset (sort_results X rs) = mset (keTies X rs)"
  by (simp add: sort_results_def mset_insert_results)

text \<open>What IEEE 754 says of \<open><=\<close>: it orders the numbers, and NaN is below and above nothing.\<close>

definition score_order :: "'f float_ops \<Rightarrow> bool" where
  "score_order F \<longleftrightarrow> (\<forall>x y. number F x \<longrightarrow> number F y \<longrightarrow> fLeq F x y \<or> fLeq F y x) \<and>
     (\<forall>x y z. fLeq F x y \<longrightarrow> fLeq F y z \<longrightarrow> fLeq F x z) \<and> (\<forall>x y. fLeq F x y \<longrightarrow> number F x \<and> number F y)"

abbreviation falling :: "'f float_ops \<Rightarrow> 'f SearchResult list \<Rightarrow> bool" where
  "falling F \<equiv> sorted_wrt (\<lambda>a b. fLeq F (srScore b) (srScore a))"

lemma falling_insert_result:
  assumes F: "score_order F" and xs: "falling F xs" and num: "number F (srScore r)" "\<forall>x\<in>set xs. number F (srScore x)"
  shows "falling F (insert_result F r xs)"
  using xs num(2)
proof (induction xs)
  case (Cons x xs)
  have set_ins: "set (insert_result F r xs) = insert r (set xs)" using mset_insert_result [of F r xs] by (metis set_mset_add_mset_insert set_mset_mset)
  show ?case
  proof (cases "fLeq F (srScore x) (srScore r)")
    case True
    then show ?thesis using Cons.prems F unfolding score_order_def by (auto dest: spec)
  next
    case False
    then have "fLeq F (srScore r) (srScore x)" using F num(1) Cons.prems(2) unfolding score_order_def by auto
    then show ?thesis using False Cons by (simp add: set_ins)
  qed
qed simp

lemma falling_sort_results:
  assumes F: "score_order (keFloat X)" and num: "\<forall>r\<in>set rs. number (keFloat X) (srScore r)" and ties: "set (keTies X rs) = set rs"
  shows "falling (keFloat X) (sort_results X rs)"
proof -
  have "\<forall>x\<in>set l. number (keFloat X) (srScore x) \<Longrightarrow> falling (keFloat X) (foldr (insert_result (keFloat X)) l [])" for l
    by (induction l) (simp_all add: falling_insert_result [OF F] mset_eq_setD [OF mset_insert_results])
  from this [of "keTies X rs"] show ?thesis using num ties by (simp add: sort_results_def)
qed

lemma add_scores_keys:
  assumes "distinct (map fst sc)"
  shows "distinct (map fst (add_scores X valid N a ps sc)) \<and>
    fst ` set (add_scores X valid N a ps sc) = fst ` set sc \<union> (set valid \<inter> DocID ` set ps)"
proof -
  have upd: "fst ` set (AList.update k v m) = insert k (fst ` set m)" for k v and m :: "(string \<times> 'x) list"
    by (induction m) auto
  have "distinct (map fst (foldl (\<lambda>m p. if DocID p \<notin> set valid then m else AList.update (DocID p) (g m p) m) sc qs)) \<and>
      fst ` set (foldl (\<lambda>m p. if DocID p \<notin> set valid then m else AList.update (DocID p) (g m p) m) sc qs) = fst ` set sc \<union> (set valid \<inter> DocID ` set qs)"
    for g and qs using assms
  proof (induction qs arbitrary: sc)
    case (Cons q qs)
    show ?case
    proof (cases "DocID q \<in> set valid")
      case True
      then show ?thesis using Cons.IH [of "AList.update (DocID q) (g sc q) sc"] Cons.prems
        by (auto simp: AList.distinct_update upd)
    qed (use Cons.IH [of sc] Cons.prems in auto)
  qed simp
  note G = this
  show ?thesis unfolding add_scores_def Let_def by (rule G)
qed

lemma score_tokens_keys:
  fixes t :: TxnID
  assumes "engine_ok fuel X rs s" "\<forall>w\<in>set toks. colon_free w" "distinct (map fst sc)"
  shows "\<exists>sc' s'. score_tokens X t valid N a toks sc s = (Inr sc', s') \<and> engine_ok fuel X rs s' \<and> distinct (map fst sc') \<and>
    fst ` set sc' = fst ` set sc \<union> (set valid \<inter> (\<Union>w\<in>set toks. chunk_docs (first_chunk X (activeTxns (ieDB s)) t rs w)))"
  using assms
proof (induction toks arbitrary: s sc)
  case (Cons w toks)
  have w: "colon_free w" using Cons.prems(2) by simp
  let ?A = "activeTxns (ieDB s)" let ?cs = "first_chunk X ?A t rs w"
  obtain s1 where 1: "term_chunks X t w s = (Inr ?cs, s1)" "engine_ok fuel X rs s1" "activeTxns (ieDB s1) = ?A"
    by (rule term_chunks_first [OF Cons.prems(1) w, of t])
  let ?sc = "add_scores X valid N a (concat (map Postings ?cs)) sc"
  have k: "distinct (map fst ?sc)" "fst ` set ?sc = fst ` set sc \<union> (set valid \<inter> chunk_docs ?cs)"
    using add_scores_keys [OF Cons.prems(3), of X valid N a "concat (map Postings ?cs)"] by (simp_all add: chunk_docs_def image_UN)
  obtain sc' s' where "score_tokens X t valid N a toks ?sc s1 = (Inr sc', s')" "engine_ok fuel X rs s'" "distinct (map fst sc')"
      "fst ` set sc' = fst ` set ?sc \<union> (set valid \<inter> (\<Union>w\<in>set toks. chunk_docs (first_chunk X ?A t rs w)))"
    using Cons.IH [OF 1(2) _ k(1)] Cons.prems(2) 1(3) by auto
  then show ?case using 1(1) k(2) by auto
qed simp

lemma kernel_beginE:
  obtains s' where "kernel_begin s = (nextTxnID (ieDB s) + 1, s')" "engine_ok fuel X rs s \<Longrightarrow> engine_ok fuel X rs s'"
    "activeTxns (ieDB s') = insert (nextTxnID (ieDB s) + 1) (activeTxns (ieDB s))"
  by (rule that [of "s\<lparr>ieDB := snd (BeginTxn (ieDB s))\<rparr>"])
    (simp_all add: kernel_begin_def case_prod_unfold txn_sets engine_ok_def page_records_def)

section \<open>A concrete engine\<close>

text \<open>Integers as numbers, a coding of one chunk, and an index page with the postings of one word.\<close>

definition demo_float :: "int float_ops" where
  "demo_float = \<lparr>fLit = (\<lambda>n d. n div d), fAdd = (+), fSub = (-), fMul = (*), fDiv = (div), fLog = (\<lambda>x. x), fLeq = (\<le>)\<rparr>"

definition demo_chunk :: "int PostingsChunk" where
  "demo_chunk = \<lparr>ChunkID = 0, Postings = [\<lparr>DocID = ''d'', TF = 1\<rparr>]\<rparr>"

definition demo_json :: "int kernel_json" where
  "demo_json = \<lparr>jmChunk = (\<lambda>_. [1]), juChunk = (\<lambda>b. (b = [1], demo_chunk)), jmState = (\<lambda>_. [2]),
     juState = (\<lambda>b. (b = [2], \<lparr>esTotalDocs = 1, esAvgDocLen = 1\<rparr>)), jmQuery = (\<lambda>_. [3]), juHits = (\<lambda>_. (False, []))\<rparr>"

definition demo_kernel :: "(bytes, lru, int, unit) kernel_env" where
  "demo_kernel = \<lparr>keEnv = mem_env 8, keRun = (\<lambda>_. run0), keFloat = demo_float, keJson = demo_json, keSha = (\<lambda>b. b @ [0, 0, 0, 0]), keUnicode = ascii_tables,
     keTerms = (\<lambda>l. l), keScores = (\<lambda>l. l), keTies = (\<lambda>l. l), keNow = 0, keFuel = 2\<rparr>"

definition demo_engine :: "(bytes, lru, int, unit) IntegratedEngine" where
  "demo_engine =
     \<lparr>ieDB = snd (Write (mem_env 8) run0 IndexPageID 1 (chunk_key ''ab'' 0) [1] (IntParam 0) mem_db), ieTransport = None, ieInterceptor = None,
      vNodes = 2, ring = [], nodeMap = [], routingTable = [], TotalDocs = 1, AvgDocLen = 1, ieCalls = 0, ieWorld = ()\<rparr>"

lemma demo_engine_props:
  defines "r \<equiv> new_record run0 1 (chunk_key ''ab'' 0) [1] (IntParam 0)"
  shows "engine_ok 8 demo_kernel [r] demo_engine" "nextTxnID (ieDB demo_engine) = 0" "activeTxns (ieDB demo_engine) = {}"
    "first_chunk demo_kernel {1} 1 [r] ''ab'' = [demo_chunk]"
proof -
  have b: "unat IndexPageID < 2 ^ 48" "\<not> isBTreeKVPage IndexPageID" by (simp_all add: IndexPageID_def isBTreeKVPage_def BTreeRootPageID_def)
  have small: "24 + length (chunk_key ''ab'' 0) + length [1 :: byte] < 1000" by (simp add: chunk_key_def)
  obtain db where 1: "Write (mem_env 8) run0 IndexPageID 1 (chunk_key ''ab'' 0) [1] (IntParam 0) mem_db = (None, db)" "ready 8 (bp db)"
      "frame_but mem_stored {IndexPageID} mem_db db" "page_records mem_stored db IndexPageID [r]"
    unfolding r_def by (rule mem_Write_first [OF mem_db_ready b mem_db_blank small, of 1 "IntParam 0"])
  have "lasting demo_kernel [r]"
    by (simp add: lasting_def r_def new_record_def expiry_def far_future_def run0_def demo_kernel_def)
  moreover have "index_words [r]"
    by (auto simp: index_words_def r_def new_record_def colon_free_def intro!: exI [of _ "''ab''"])
  ultimately show "engine_ok 8 demo_kernel [r] demo_engine" using 1 by (simp add: engine_ok_def demo_kernel_def demo_engine_def run0_def)
  show "nextTxnID (ieDB demo_engine) = 0" "activeTxns (ieDB demo_engine) = {}"
    using 1(1,3) by (simp_all add: demo_engine_def frame_but_def mem_db_def NewDB_def)
  show "first_chunk demo_kernel {1} 1 [r] ''ab'' = [demo_chunk]"
    by (simp add: first_chunk_def latest_version_def r_def new_record_def visible_def isRecordVisible_def demo_kernel_def demo_json_def)
qed

section \<open>Properties\<close>

text \<open>C7: a local search on the in-memory engine, on an index page whose records are postings and
  term counts that do not expire, answers every ASCII query that parses. Its hits are the
  beginning of a list \<open>all\<close>, cut at \<open>limit\<close> when a limit is given. The list has exactly the
  documents selected by the query that have a posting for one of the analyzed words, each once,
  and it is in the order of falling scores unless some score is not a number. A word selects the
  documents of its \<^emph>\<open>first\<close> chunk only, since the range cursor takes the key of that chunk as a
  prefix: the postings from number 257 on are never found. A query with NOT at the top selects
  nothing.\<close>

theorem local_search_exact:
  assumes "engine_ok fuel X rs s" and "ParseQuery queryText = Inr q" and "ascii queryText"
    and "score_order (keFloat X)" and "unicode_ok (keUnicode X)"
    and "\<forall>l. mset (keScores X l) = mset l" and "\<forall>l. mset (keTies X l) = mset l"
  defines "t \<equiv> nextTxnID (ieDB s) + 1"
  defines "D \<equiv> \<lambda>w. chunk_docs (first_chunk X (insert t (activeTxns (ieDB s))) t rs w)"
  shows "\<exists>all s'. LocalSearch X queryText limit s = (Inr (truncate_results limit all), s') \<and> distinct (map srDocID all) \<and>
    srDocID ` set all = kernel_docs D q \<inter> (\<Union>w\<in>set (Analyzer_Tokenize (keUnicode X) queryText). D w) \<and>
    ((\<forall>r\<in>set all. number (keFloat X) (srScore r)) \<longrightarrow> falling (keFloat X) all)"
proof -
  obtain s1 where 1: "kernel_begin s = (t, s1)" "engine_ok fuel X rs s1" "activeTxns (ieDB s1) = insert t (activeTxns (ieDB s))"
    by (rule kernel_beginE [of s fuel X rs]) (use assms(1) in \<open>simp add: t_def\<close>)
  obtain res s2 where 2: "evaluateAST X t q s1 = (Inr res, s2)" "set res = kernel_docs D q" "engine_ok fuel X rs s2" "activeTxns (ieDB s2) = activeTxns (ieDB s1)"
    using evaluate_docs [OF 1(2) ParseQuery_words [OF assms(2)], of t] unfolding 1(3) D_def by blast
  show ?thesis
  proof (cases "res = []")
    case True
    then have "LocalSearch X queryText limit s = (Inr (truncate_results limit []), kernel_commit t s2)"
      using assms(2) 1(1) 2(1) by (simp add: LocalSearch_def truncate_results_def)
    then show ?thesis using 2(2) True by (intro exI [of _ "[]"]) auto
  next
    case False
    let ?toks = "Analyzer_Tokenize (keUnicode X) queryText"
    obtain sc s3 where 3: "score_tokens X t res (TotalDocs s) (AvgDocLen s) ?toks [] s2 = (Inr sc, s3)" "distinct (map fst sc)"
        "fst ` set sc = kernel_docs D q \<inter> (\<Union>w\<in>set ?toks. D w)"
      using score_tokens_keys [OF 2(3), of ?toks "[]" t res "TotalDocs s" "AvgDocLen s"] Analyzer_colon_free [OF assms(5)] 2(2,4) 1(3)
      by (auto simp: D_def)
    let ?rs = "map (\<lambda>(i, x). \<lparr>srDocID = i, srScore = x\<rparr>) (keScores X sc)"
    let ?all = "sort_results X ?rs"
    have ties: "mset ?all = mset ?rs" using assms(7) by (simp add: mset_sort_results)
    then have "mset (map srDocID ?all) = mset (map fst sc)"
      using assms(6) by (simp add: case_prod_unfold multiset.map_comp comp_def)
    then have a: "distinct (map srDocID ?all)" "srDocID ` set ?all = fst ` set sc"
      using 3(2) mset_eq_imp_distinct_iff [of "map srDocID ?all" "map fst sc"] mset_eq_setD [of "map srDocID ?all" "map fst sc"]
      by (simp_all del: mset_map)
    have "set ?all = set ?rs" "set (keTies X ?rs) = set ?rs"
      by (rule mset_eq_setD [OF ties], rule mset_eq_setD [OF spec [OF assms(7)]])
    then have f: "(\<forall>r\<in>set ?all. number (keFloat X) (srScore r)) \<longrightarrow> falling (keFloat X) ?all"
      using falling_sort_results [OF assms(4), of ?rs] by simp
    have run: "LocalSearch X queryText limit s = (Inr (truncate_results limit ?all), kernel_commit t s3)"
      using False assms(2) 1(1) 2(1) 3(1) by (simp add: LocalSearch_def)
    show ?thesis by (rule exI [of _ ?all], rule exI, intro conjI) (rule run, rule a(1), rule trans [OF a(2) 3(3)], rule f)
  qed
qed

theorem local_search_exact_witness:
  "\<exists>hits s'. LocalSearch demo_kernel ''ab'' 0 demo_engine = (Inr hits, s') \<and> srDocID ` set hits = {''d''}"
proof -
  note P = demo_engine_props
  have q: "ParseQuery ''ab'' = Inr (TermQuery ''ab'')" by code_simp
  have tok: "Analyzer_Tokenize (keUnicode demo_kernel) ''ab'' = [''ab'']" by code_simp
  have so: "score_order (keFloat demo_kernel)" by (auto simp: score_order_def number_def demo_kernel_def demo_float_def)
  have u: "unicode_ok (keUnicode demo_kernel)" using ascii_tables_ok by (simp add: demo_kernel_def)
  have as: "ascii ''ab''" by code_simp
  have perm: "\<forall>l. mset (keScores demo_kernel l) = mset l" "\<forall>l. mset (keTies demo_kernel l) = mset l" by (simp_all add: demo_kernel_def)
  have "chunk_docs [demo_chunk] = {''d''}" by (simp add: chunk_docs_def demo_chunk_def)
  let ?t = "nextTxnID (ieDB demo_engine) + 1"
  let ?D = "\<lambda>w. chunk_docs (first_chunk demo_kernel (insert ?t (activeTxns (ieDB demo_engine))) ?t
      [new_record run0 1 (chunk_key ''ab'' 0) [1] (IntParam 0)] w)"
  have "?D ''ab'' = {''d''}" using \<open>chunk_docs [demo_chunk] = {''d''}\<close> by (simp add: P(2-4))
  then have docs: "kernel_docs ?D (TermQuery ''ab'') \<inter> (\<Union>w\<in>set [''ab'']. ?D w) = {''d''}"
    by (simp only: kernel_docs.simps list.set UN_insert UN_empty Un_empty_right Int_absorb)
  obtain all s' where "LocalSearch demo_kernel ''ab'' 0 demo_engine = (Inr (truncate_results 0 all), s')"
      "srDocID ` set all = kernel_docs ?D (TermQuery ''ab'') \<inter> (\<Union>w\<in>set [''ab'']. ?D w)"
    using local_search_exact [OF P(1) q as so u perm, of 0, unfolded tok] by (elim exE conjE) (rule that)
  note this(1) this(2) [unfolded docs]
  then show ?thesis by (auto simp: truncate_results_def)
qed

text \<open>C16: The hash ring after any sequence of nodes was added: it is sorted and has one point per
  virtual node and call, the owner of a point is the node added last among those that hash
  to it, every point has an owner, and the routing table has the last address of every node.\<close>

theorem ring_of_nodes:
  fixes X :: "('d, 'e, 'f, 'w) kernel_env" and calls :: "(string \<times> string) list"
  assumes "ring s = []" and "nodeMap s = []" and "routingTable s = []"
  defines "s' \<equiv> add_nodes X calls s"
  shows "sorted (ring s') \<and> length (ring s') = vNodes s * length calls \<and>
    mset (ring s') = mset (concat (map (\<lambda>(n, a). map (ring_key (keSha X) n) [0..<vNodes s]) calls)) \<and>
    (\<forall>h\<in>set (ring s'). \<exists>n. map_of (nodeMap s') h = Some n \<and> owner (keSha X) (vNodes s) calls h = Some n \<and> h \<in> ring_key (keSha X) n ` {..<vNodes s} \<and>
       (\<exists>a. map_of (routingTable s') n = Some \<lparr>reID = n, Address = a, Healthy = True\<rparr> \<and> map_of (rev calls) n = Some a))"
proof -
  note R = add_nodes_ring [of X calls s, folded s'_def]
  let ?pts = "concat (map (\<lambda>(n, a). map (ring_key (keSha X) n) [0..<vNodes s]) calls)"
  have m: "mset (ring s') = mset ?pts" and so: "sorted (ring s')" using R assms(1) by simp_all
  have "length ?pts = vNodes s * length calls" by (rule length_points)
  then have len: "length (ring s') = vNodes s * length calls" using mset_eq_length [OF m] by simp
  have "\<exists>n. map_of (nodeMap s') h = Some n \<and> owner (keSha X) (vNodes s) calls h = Some n \<and> h \<in> ring_key (keSha X) n ` {..<vNodes s} \<and>
       (\<exists>a. map_of (routingTable s') n = Some \<lparr>reID = n, Address = a, Healthy = True\<rparr> \<and> map_of (rev calls) n = Some a)"
    if h: "h \<in> set (ring s')" for h
  proof -
    have "set (ring s') = set ?pts" by (rule mset_eq_setD [OF m])
    then have "\<exists>(n, a)\<in>set calls. h \<in> ring_key (keSha X) n ` {..<vNodes s}" using h by (force simp: lessThan_atLeast0)
    then obtain n where n: "owner (keSha X) (vNodes s) calls h = Some n" using owner_spec(2) by blast
    note O = owner_spec(1) [OF n]
    then have "map_of (rev calls) n \<noteq> None" by (auto simp: map_of_eq_None_iff)
    then show ?thesis using n O R add_nodes_table [of X calls s n] assms(2,3) by (auto simp: s'_def)
  qed
  with m so len show ?thesis by blast
qed

theorem ring_of_nodes_witness:
  "length (ring (add_nodes demo_kernel [(''a'', ''x''), (''b'', ''y'')] demo_engine)) = 4"
  using ring_of_nodes [of demo_engine demo_kernel "[(''a'', ''x''), (''b'', ''y'')]"] by (simp add: demo_engine_def)

end
