(* ===== verification/KernelInsert.thy ===== *)
theory KernelInsert
  imports Kernel
begin

text \<open>
  \<open>InsertDocument\<close> of \<open>kernel.go\<close> on the in-memory engine: with room in the pages, every word of a
  document gets a posting in its first chunk, which a later search finds.
\<close>

section \<open>Reads and writes of the index page\<close>

text \<open>What a step leaves alone: the transactions, the counter of documents and the records of all pages
  but some.\<close>

definition kept :: "PageID set \<Rightarrow> (bytes, lru, 'f, 'w) IntegratedEngine \<Rightarrow> (bytes, lru, 'f, 'w) IntegratedEngine \<Rightarrow> bool" where
  "kept I s s' \<longleftrightarrow> activeTxns (ieDB s') = activeTxns (ieDB s) \<and> nextTxnID (ieDB s') = nextTxnID (ieDB s) \<and> TotalDocs s' = TotalDocs s \<and>
     (\<forall>j ms. unat j < 2 ^ 48 \<longrightarrow> j \<notin> I \<longrightarrow> page_records mem_stored (ieDB s) j ms \<longrightarrow> page_records mem_stored (ieDB s') j ms)"

lemma kept_refl [simp]: "kept I s s"
  by (simp add: kept_def)

lemma kept_trans: "kept I s s1 \<Longrightarrow> kept I s1 s2 \<Longrightarrow> kept I s s2"
  by (simp add: kept_def)

lemma kept_frame:
  assumes "frame_but mem_stored I (ieDB s) db" "ready fuel (bp db)"
  shows "kept I s (s\<lparr>ieDB := db, ieCalls := n\<rparr>)"
proof -
  have "pool_inv mem_stored lru_inv pageMap {} (bp db)" using assms(2) by (simp add: ready_def mp.idle_def)
  then have "page_records mem_stored db j ms" if "unat j < 2 ^ 48" "j \<notin> I" "page_records mem_stored (ieDB s) j ms" for j ms
    using page_records_frame [OF assms(1) that(2,1) _ that(3)] by blast
  then show ?thesis using assms(1) by (simp add: kept_def frame_but_def)
qed

text \<open>Times between 1970 and 2065 in nanoseconds. \<open>json.Marshal\<close> and \<open>json.Unmarshal\<close> are inverse
  on chunks whose identifiers are ASCII strings and whose counts are converted integers; the
  encoder refuses NaN and replaces bytes that are not UTF-8, so nothing is said of other chunks.\<close>

definition write_env :: "('d, 'e, 'f, 'w) kernel_env \<Rightarrow> bool" where
  "write_env X \<longleftrightarrow> (\<forall>c l. mset (cperm (keRun X c) l) = mset l) \<and> (\<forall>c. 0 \<le> clock (keRun X c) \<and> clock (keRun X c) < 3 * 10 ^ 18)"

definition plain_chunk :: "'f float_ops \<Rightarrow> 'f PostingsChunk \<Rightarrow> bool" where
  "plain_chunk F c \<longleftrightarrow> (\<forall>p\<in>set (Postings c). ascii (DocID p) \<and> (\<exists>n<2 ^ 63. TF p = float64 F (int n)))"

definition json_ok :: "'f float_ops \<Rightarrow> 'f kernel_json \<Rightarrow> bool" where
  "json_ok F J \<longleftrightarrow> (\<forall>c. plain_chunk F c \<longrightarrow> jmChunk J c \<noteq> [] \<and> juChunk J (jmChunk J c) = (True, c))"

definition page_use :: "srec list \<Rightarrow> nat" where
  "page_use rs = PageHeaderSize + 4 * length rs + length (recs rs)"

lemma length_recs_append: "length (recs (xs @ ys)) = length (recs xs) + length (recs ys)"
  by (induction xs) simp_all

lemma page_use_snoc: "page_use (rs @ [r]) = page_use rs + (28 + length (rKey r) + length (rVal r))"
  by (simp add: page_use_def length_recs_append length_record_bytes)

lemma index_read:
  assumes "engine_ok fuel X rs s"
  obtains s' where "kernel_call X (\<lambda>R. Read (keEnv X) R IndexPageID t k) s = (found (latest_version (activeTxns (ieDB s)) t k rs), s')"
    "engine_ok fuel X rs s'" "kept {IndexPageID} s s'"
proof -
  have e: "keEnv X = mem_env fuel" "ready fuel (bp (ieDB s))" "page_records mem_stored (ieDB s) IndexPageID rs" "lasting X rs"
    using assms by (simp_all add: engine_ok_def)
  have b: "unat IndexPageID < 2 ^ 48" by (simp add: IndexPageID_def)
  let ?R = "keRun X (ieCalls s)"
  obtain db where 1: "Read (mem_env fuel) ?R IndexPageID t k (ieDB s) = (found (read_spec (activeTxns (ieDB s)) t k (clock ?R) rs), db)" "ready fuel (bp db)"
      "frame_but mem_stored {} (ieDB s) db" "page_records mem_stored db IndexPageID rs"
    by (rule mem_Read [OF e(2) b e(3), of ?R t k])
  let ?s = "s\<lparr>ieDB := db, ieCalls := Suc (ieCalls s)\<rparr>"
  show thesis
  proof (rule that)
    show "kernel_call X (\<lambda>R. Read (keEnv X) R IndexPageID t k) s = (found (latest_version (activeTxns (ieDB s)) t k rs), ?s)"
      using 1(1) by (simp add: kernel_call_def e(1) read_lasting [OF e(4)])
    show "engine_ok fuel X rs ?s" using assms 1(2,4) by (simp add: engine_ok_def)
    show "kept {IndexPageID} s ?s" by (rule kept_frame [OF frame_but_mono [OF 1(3)] 1(2)]) simp
  qed
qed

lemma fresh_record:
  assumes "write_env X"
  shows "clock (keRun X c) < sint (expiry (clock (keRun X c')) (IntParam 0))"
proof -
  have "0 \<le> clock (keRun X c')" "clock (keRun X c') < 3 * 10 ^ 18" "clock (keRun X c) < 3 * 10 ^ 18" using assms by (simp_all add: write_env_def)
  moreover have "sint (word_of_int n :: 64 word) = n" if "0 \<le> n" "n < 2 ^ 63" for n
    using that by (simp add: signed_of_int signed_take_bit_int_eq_self)
  from this [of "clock (keRun X c') + far_future"] calculation have "sint (word_of_int (clock (keRun X c') + far_future) :: 64 word) = clock (keRun X c') + far_future" by (simp add: far_future_def)
  moreover have "expiry (clock (keRun X c')) (IntParam 0) = word_of_int (clock (keRun X c') + far_future)" by (simp only: expiry_def Let_def mix_param.case) simp
  ultimately show ?thesis using \<open>0 \<le> clock (keRun X c')\<close> \<open>clock (keRun X c) < 3 * 10 ^ 18\<close> by (simp only:) (simp add: far_future_def)
qed

lemma index_write:
  assumes s: "engine_ok fuel X rs s" and X: "write_env X" and room: "page_use rs + (28 + length k + length v) \<le> PageSize"
    and k: "colon_free w" "k = meta_key w \<or> k = chunk_key w n"
  obtains r s' where "kernel_call X (\<lambda>R. Write (keEnv X) R IndexPageID t k v (IntParam 0)) s = (None, s')" "engine_ok fuel X (rs @ [r]) s'"
    "kept {IndexPageID} s s'" "rTxn r = t" "rKey r = k" "rVal r = v"
proof -
  have e: "keEnv X = mem_env fuel" "ready fuel (bp (ieDB s))" "page_records mem_stored (ieDB s) IndexPageID rs" "lasting X rs" "index_words rs"
    using s by (simp_all add: engine_ok_def)
  have b: "unat IndexPageID < 2 ^ 48" "\<not> isBTreeKVPage IndexPageID" by (simp_all add: IndexPageID_def isBTreeKVPage_def BTreeRootPageID_def)
  let ?R = "keRun X (ieCalls s)" let ?r = "new_record ?R t k v (IntParam 0)"
  have small: "24 + length k + length v < 2 ^ 31" using room by (simp add: PageSize_def)
  have fit: "fits rs ?r" using room by (simp add: page_use_def length_record_bytes new_record_def)
  then have ac: "after_compaction (cperm ?R) (clock ?R) rs ?r = rs" by (simp add: after_compaction_def)
  have cp: "mset (cperm ?R (survivors (clock ?R) rs)) = mset (survivors (clock ?R) rs)" using X by (simp add: write_env_def)
  obtain db where 1: "Write (mem_env fuel) ?R IndexPageID t k v (IntParam 0) (ieDB s) = (None, db)" "ready fuel (bp db)"
      "frame_but mem_stored {IndexPageID} (ieDB s) db" "page_records mem_stored db IndexPageID (rs @ [?r])"
    by (rule mem_Write [where R = ?R and t = t and prm = "IntParam 0", OF e(2) b e(3) small cp]) (simp only: ac fit if_True)
  let ?s = "s\<lparr>ieDB := db, ieCalls := Suc (ieCalls s)\<rparr>"
  show thesis
  proof (rule that [of ?s ?r])
    show "kernel_call X (\<lambda>R. Write (keEnv X) R IndexPageID t k v (IntParam 0)) s = (None, ?s)" using 1(1) by (simp add: kernel_call_def e(1))
    have "lasting X [?r]" using fresh_record [OF X] by (simp add: lasting_def new_record_def)
    moreover have "index_words [?r]" using k by (auto simp: index_words_def new_record_def)
    ultimately show "engine_ok fuel X (rs @ [?r]) ?s" using s 1(2,4) e(4,5) by (simp add: engine_ok_def lasting_def index_words_def ball_Un)
    show "kept {IndexPageID} s ?s" by (rule kept_frame [OF 1(3,2)])
  qed (simp_all add: new_record_def)
qed

section \<open>One word\<close>

lemma meta_key_inj: "meta_key w = meta_key w' \<longleftrightarrow> w = w'"
  by (simp add: meta_key_def bytes_of_inj)

lemma chunk_key_inj: "colon_free w \<Longrightarrow> colon_free w' \<Longrightarrow> chunk_key w' 0 = chunk_key w 0 \<Longrightarrow> w' = w"
  using chunk_key_prefix [of w w' 0] by (simp add: has_prefix_def)

lemma meta_not_chunk: "meta_key w' \<noteq> chunk_key w 0"
  using meta_key_prefix [of w' w] by (auto simp: has_prefix_def)

lemma put_be32_length [simp]: "length (put_be32 c) = 4"
  by (simp add: put_be32_def)

lemma get_put_be32 [simp]: "get_be32 (put_be32 c) = c"
  using unsigned_less [of c, where ?'a = nat] by (simp add: get_be32_def put_be32_def)

definition old_chunk :: "('d, 'e, 'f, 'w) kernel_env \<Rightarrow> TxnID set \<Rightarrow> TxnID \<Rightarrow> srec list \<Rightarrow> string \<Rightarrow> 'f PostingsChunk" where
  "old_chunk X active t rs w =
     (case filled (latest_version active t (chunk_key w 0) rs) of
        Some b \<Rightarrow> snd (juChunk (keJson X) b)
      | None \<Rightarrow> \<lparr>ChunkID = 0, Postings = []\<rparr>)"

definition new_chunk :: "('d, 'e, 'f, 'w) kernel_env \<Rightarrow> TxnID set \<Rightarrow> TxnID \<Rightarrow> srec list \<Rightarrow> string \<Rightarrow> string \<Rightarrow> nat \<Rightarrow> 'f PostingsChunk" where
  "new_chunk X active t rs docID w cnt =
     (let c = old_chunk X active t rs w in c\<lparr>Postings := Postings c @ [\<lparr>DocID = docID, TF = float64 (keFloat X) (int cnt)\<rparr>]\<rparr>)"

text \<open>A word whose postings fit into one chunk, which has been stored exactly.\<close>

definition one_chunk :: "('d, 'e, 'f, 'w) kernel_env \<Rightarrow> TxnID set \<Rightarrow> TxnID \<Rightarrow> srec list \<Rightarrow> string \<Rightarrow> bool" where
  "one_chunk X active t rs w \<longleftrightarrow> latest_version active t (meta_key w) rs \<in> {None, Some (put_be32 1)} \<and>
     length (Postings (old_chunk X active t rs w)) < PostingsChunkSize \<and> plain_chunk (keFloat X) (old_chunk X active t rs w)"

definition word_need :: "('d, 'e, 'f, 'w) kernel_env \<Rightarrow> TxnID set \<Rightarrow> TxnID \<Rightarrow> srec list \<Rightarrow> string \<Rightarrow> string \<times> nat \<Rightarrow> nat" where
  "word_need X active t rs docID = (\<lambda>(w, cnt). 60 + length (meta_key w) + length (chunk_key w 0) + length (jmChunk (keJson X) (new_chunk X active t rs docID w cnt)))"

lemma latest_other:
  assumes "\<forall>r\<in>set ex. rKey r \<noteq> k"
  shows "latest_version A t k (rs @ ex) = latest_version A t k rs"
proof -
  have "filter (\<lambda>r. rKey r = k \<and> visible A t r) ex = []" using assms by (auto simp: filter_empty_conv)
  then show ?thesis by (simp add: latest_version_def)
qed

lemma chunk_other:
  assumes "\<forall>r\<in>set ex. rKey r \<noteq> chunk_key w 0"
  shows "old_chunk X A t (rs @ ex) w = old_chunk X A t rs w" "new_chunk X A t (rs @ ex) docID w cnt = new_chunk X A t rs docID w cnt"
  using latest_other [OF assms] by (simp_all add: old_chunk_def new_chunk_def)

text \<open>The value of the last record for the first chunk of a word.\<close>

definition chunk_written :: "srec list \<Rightarrow> string \<Rightarrow> bytes \<Rightarrow> bool" where
  "chunk_written ex w v \<longleftrightarrow> (let vs = filter (\<lambda>r. rKey r = chunk_key w 0) ex in vs \<noteq> [] \<and> rVal (last vs) = v)"

lemma add_posting_first:
  assumes s: "engine_ok fuel X rs s" and X: "write_env X" and w: "colon_free w" and A: "A = activeTxns (ieDB s)"
    and few: "length (Postings (old_chunk X A t rs w)) < PostingsChunkSize"
    and room: "page_use rs + (28 + length (chunk_key w 0) + length (jmChunk (keJson X) (new_chunk X A t rs docID w cnt))) \<le> PageSize"
  obtains r s' where "add_posting X t docID w cnt 1 s = (Inr (), s')" "engine_ok fuel X (rs @ [r]) s'" "kept {IndexPageID} s s'"
    "rTxn r = t" "rKey r = chunk_key w 0" "rVal r = jmChunk (keJson X) (new_chunk X A t rs docID w cnt)"
proof -
  let ?k = "chunk_key w 0" let ?m = "latest_version A t ?k rs" let ?new = "new_chunk X A t rs docID w cnt"
  obtain s1 where 1: "kernel_call X (\<lambda>R. Read (keEnv X) R IndexPageID t ?k) s = (found ?m, s1)" "engine_ok fuel X rs s1" "kept {IndexPageID} s s1"
    unfolding A by (rule index_read [OF s])
  obtain r s2 where 2: "kernel_call X (\<lambda>R. Write (keEnv X) R IndexPageID t ?k (jmChunk (keJson X) ?new) (IntParam 0)) s1 = (None, s2)"
      "engine_ok fuel X (rs @ [r]) s2" "kept {IndexPageID} s1 s2" "rTxn r = t" "rKey r = ?k" "rVal r = jmChunk (keJson X) ?new"
    by (rule index_write [OF 1(2) X room w disjI2 [OF refl], of t])
  have cur: "(case filled ?m of Some b \<Rightarrow> snd (juChunk (keJson X) b) | None \<Rightarrow> \<lparr>ChunkID = 1 - 1, Postings = []\<rparr>) = old_chunk X A t rs w"
    by (simp add: old_chunk_def split: option.split)
  have "add_posting X t docID w cnt 1 s = store_chunk X t ?k ?new s1"
    using 1(1) few unfolding add_posting_def Let_def
    by (simp add: hit_found cur [simplified] new_chunk_def not_le Let_def)
  then have "add_posting X t docID w cnt 1 s = (Inr (), s2)" using 2(1) by (simp add: store_chunk_def)
  then show thesis using 2(2,4-6) kept_trans [OF 1(3) 2(3)] by (intro that)
qed

lemma index_term_first:
  assumes s: "engine_ok fuel X rs s" and X: "write_env X" and w: "colon_free w" and A: "A = activeTxns (ieDB s)" and one: "one_chunk X A t rs w"
    and room: "page_use rs + word_need X A t rs docID (w, cnt) \<le> PageSize"
  shows "\<exists>ex s'. index_term X t docID w cnt s = (Inr (), s') \<and> engine_ok fuel X (rs @ ex) s' \<and> kept {IndexPageID} s s' \<and>
    (\<forall>r\<in>set ex. rTxn r = t \<and> rKey r \<in> {meta_key w, chunk_key w 0}) \<and>
    chunk_written ex w (jmChunk (keJson X) (new_chunk X A t rs docID w cnt)) \<and> page_use (rs @ ex) \<le> page_use rs + word_need X A t rs docID (w, cnt)"
proof -
  let ?m = "latest_version A t (meta_key w) rs" let ?v = "jmChunk (keJson X) (new_chunk X A t rs docID w cnt)"
  have few: "length (Postings (old_chunk X A t rs w)) < PostingsChunkSize" using one by (simp add: one_chunk_def)
  obtain s1 where 1: "kernel_call X (\<lambda>R. Read (keEnv X) R IndexPageID t (meta_key w)) s = (found ?m, s1)" "engine_ok fuel X rs s1" "kept {IndexPageID} s s1"
    unfolding A by (rule index_read [OF s])
  have A1: "A = activeTxns (ieDB s1)" using 1(3) A by (simp add: kept_def)
  show ?thesis
  proof (cases "?m = None")
    case False
    then have m: "?m = Some (put_be32 1)" using one by (auto simp: one_chunk_def)
    obtain r s2 where 2: "add_posting X t docID w cnt 1 s1 = (Inr (), s2)" "engine_ok fuel X (rs @ [r]) s2" "kept {IndexPageID} s1 s2"
        "rTxn r = t" "rKey r = chunk_key w 0" "rVal r = ?v"
      by (rule add_posting_first [OF 1(2) X w A1 few, of docID cnt]) (use room in \<open>simp add: word_need_def\<close>)
    have "put_be32 1 \<noteq> []" by (metis length_0_conv put_be32_length zero_neq_numeral)
    then have "index_term X t docID w cnt s = (Inr (), s2)" using 1(1) 2(1) by (simp add: index_term_def m hit_found)
    moreover have "page_use (rs @ [r]) \<le> page_use rs + word_need X A t rs docID (w, cnt)" using 2(5,6) by (simp add: page_use_snoc word_need_def)
    ultimately show ?thesis using 2(2,4-6) kept_trans [OF 1(3) 2(3)]
      by (intro exI [of _ "[r]"] exI [of _ s2]) (simp add: chunk_written_def)
  next
    case True
    have rm: "page_use rs + (28 + length (meta_key w) + length (put_be32 1)) \<le> PageSize" using room by (simp add: word_need_def)
    obtain r1 s2 where 2: "kernel_call X (\<lambda>R. Write (keEnv X) R IndexPageID t (meta_key w) (put_be32 1) (IntParam 0)) s1 = (None, s2)"
        "engine_ok fuel X (rs @ [r1]) s2" "kept {IndexPageID} s1 s2" "rTxn r1 = t" "rKey r1 = meta_key w" "rVal r1 = put_be32 1"
      by (rule index_write [OF 1(2) X rm w disjI1 [OF refl], of t])
    have A2: "A = activeTxns (ieDB s2)" using 2(3) A1 by (simp add: kept_def)
    have ne: "\<forall>r\<in>set [r1]. rKey r \<noteq> chunk_key w 0" using 2(5) meta_not_chunk by simp
    note C = chunk_other [OF ne, of X A t rs]
    have few2: "length (Postings (old_chunk X A t (rs @ [r1]) w)) < PostingsChunkSize" using few by (simp add: C)
    obtain r s3 where 3: "add_posting X t docID w cnt 1 s2 = (Inr (), s3)" "engine_ok fuel X ((rs @ [r1]) @ [r]) s3" "kept {IndexPageID} s2 s3"
        "rTxn r = t" "rKey r = chunk_key w 0" "rVal r = ?v"
      by (rule add_posting_first [OF 2(2) X w A2 few2, of docID cnt]) (use room 2(5,6) in \<open>simp_all add: word_need_def C page_use_snoc\<close>)
    have "index_term X t docID w cnt s = (Inr (), s3)" using 1(1) 2(1) 3(1) True by (simp add: index_term_def write_meta_def hit_found)
    moreover have "page_use ((rs @ [r1]) @ [r]) \<le> page_use rs + word_need X A t rs docID (w, cnt)"
      using 2(5,6) 3(5,6) unfolding page_use_snoc by (simp add: word_need_def)
    ultimately show ?thesis using 2(4,5) 3(2,4-6) kept_trans [OF kept_trans [OF 1(3) 2(3)] 3(3)] meta_not_chunk [of w w]
      by (intro exI [of _ "[r1, r]"] exI [of _ s3]) (simp add: chunk_written_def)
  qed
qed

section \<open>All words\<close>

lemma chunk_written_append:
  assumes "\<forall>r\<in>set ex2. rKey r \<noteq> chunk_key w 0"
  shows "chunk_written (ex1 @ ex2) w v = chunk_written ex1 w v"
proof -
  have "filter (\<lambda>r. rKey r = chunk_key w 0) ex2 = []" using assms by (auto simp: filter_empty_conv)
  then show ?thesis by (simp add: chunk_written_def)
qed

lemma chunk_written_later: "chunk_written ex2 w v \<Longrightarrow> chunk_written (ex1 @ ex2) w v"
  by (simp add: chunk_written_def Let_def)

lemma index_terms_first:
  fixes t :: TxnID
  assumes "engine_ok fuel X rs s" "write_env X" "A = activeTxns (ieDB s)" "distinct (map fst ws)"
    "\<forall>(w, cnt)\<in>set ws. colon_free w \<and> one_chunk X A t rs w" "page_use rs + sum_list (map (word_need X A t rs docID) ws) \<le> PageSize"
  shows "\<exists>ex s'. index_terms X t docID ws s = (Inr (), s') \<and> engine_ok fuel X (rs @ ex) s' \<and> kept {IndexPageID} s s' \<and>
    (\<forall>r\<in>set ex. rTxn r = t \<and> (\<exists>w\<in>fst ` set ws. rKey r \<in> {meta_key w, chunk_key w 0})) \<and>
    (\<forall>(w, cnt)\<in>set ws. chunk_written ex w (jmChunk (keJson X) (new_chunk X A t rs docID w cnt)))"
  using assms
proof (induction ws arbitrary: rs s)
  case Nil
  then show ?case by (intro exI [of _ "[]"] exI [of _ s]) simp
next
  case (Cons x ws)
  obtain w cnt where x: "x = (w, cnt)" by fastforce
  have w: "colon_free w" and one: "one_chunk X A t rs w" and room: "page_use rs + word_need X A t rs docID (w, cnt) \<le> PageSize"
    using Cons.prems(5,6) by (simp_all add: x)
  obtain ex1 s1 where 1: "index_term X t docID w cnt s = (Inr (), s1)" "engine_ok fuel X (rs @ ex1) s1" "kept {IndexPageID} s s1"
      and ex1: "\<forall>r\<in>set ex1. rTxn r = t \<and> rKey r \<in> {meta_key w, chunk_key w 0}" "chunk_written ex1 w (jmChunk (keJson X) (new_chunk X A t rs docID w cnt))"
      and use: "page_use (rs @ ex1) \<le> page_use rs + word_need X A t rs docID (w, cnt)"
    using index_term_first [OF Cons.prems(1,2) w Cons.prems(3) one room] by blast
  have new: "w' \<noteq> w \<and> colon_free w' \<and> one_chunk X A t rs w'" if "(w', c) \<in> set ws" for w' c
    using Cons.prems(4,5) that by (force simp: x)
  have other: "\<forall>r\<in>set ex1. rKey r \<noteq> chunk_key w' 0" "\<forall>r\<in>set ex1. rKey r \<noteq> meta_key w'" if "(w', c) \<in> set ws" for w' c
    using new [OF that] ex1(1) chunk_key_inj [OF w, of w'] meta_not_chunk [of w w'] meta_not_chunk [of w' w] meta_key_inj [of w w'] by fastforce+
  have same: "word_need X A t (rs @ ex1) docID y = word_need X A t rs docID y" if "y \<in> set ws" for y
    using other(1) [of "fst y" "snd y"] that chunk_other(2) [of ex1 "fst y" X A t rs docID "snd y"] by (cases y) (simp add: word_need_def)
  have ok: "\<forall>(w', c)\<in>set ws. colon_free w' \<and> one_chunk X A t (rs @ ex1) w'"
  proof (clarify, intro conjI)
    fix w' c assume y: "(w', c) \<in> set ws"
    show "colon_free w'" "one_chunk X A t (rs @ ex1) w'"
      using new [OF y] chunk_other(1) [OF other(1) [OF y], of X A t rs] latest_other [OF other(2) [OF y], of A t rs] by (simp_all add: one_chunk_def)
  qed
  have sum: "sum_list (map (word_need X A t (rs @ ex1) docID) ws) = sum_list (map (word_need X A t rs docID) ws)"
    by (intro arg_cong [of _ _ sum_list] map_cong refl same)
  have room2: "page_use (rs @ ex1) + sum_list (map (word_need X A t (rs @ ex1) docID) ws) \<le> PageSize"
    using use Cons.prems(6) unfolding sum by (simp add: x)
  have A1: "A = activeTxns (ieDB s1)" using 1(3) Cons.prems(3) by (simp add: kept_def)
  have d: "distinct (map fst ws)" using Cons.prems(4) by simp
  obtain ex2 s2 where 2: "index_terms X t docID ws s1 = (Inr (), s2)" "engine_ok fuel X ((rs @ ex1) @ ex2) s2" "kept {IndexPageID} s1 s2"
      and ex2: "\<forall>r\<in>set ex2. rTxn r = t \<and> (\<exists>w\<in>fst ` set ws. rKey r \<in> {meta_key w, chunk_key w 0})"
        "\<forall>(w, cnt)\<in>set ws. chunk_written ex2 w (jmChunk (keJson X) (new_chunk X A t (rs @ ex1) docID w cnt))"
    using Cons.IH [OF 1(2) Cons.prems(2) A1 d ok room2] by blast
  have "\<forall>r\<in>set ex2. rKey r \<noteq> chunk_key w 0"
  proof
    fix r assume "r \<in> set ex2"
    then obtain w' c where "(w', c) \<in> set ws" "rKey r \<in> {meta_key w', chunk_key w' 0}" using ex2(1) by force
    then show "rKey r \<noteq> chunk_key w 0" using new [of w' c] chunk_key_inj [OF w, of w'] meta_not_chunk [of w' w] by auto
  qed
  then have w1: "chunk_written (ex1 @ ex2) w (jmChunk (keJson X) (new_chunk X A t rs docID w cnt))" using ex1(2) by (simp add: chunk_written_append)
  have w2: "chunk_written (ex1 @ ex2) w' (jmChunk (keJson X) (new_chunk X A t rs docID w' c))" if "(w', c) \<in> set ws" for w' c
  proof -
    have "chunk_written ex2 w' (jmChunk (keJson X) (new_chunk X A t (rs @ ex1) docID w' c))" using ex2(2) that by blast
    then show ?thesis unfolding chunk_other(2) [OF other(1) [OF that]] by (rule chunk_written_later)
  qed
  show ?case
  proof (intro exI [of _ "ex1 @ ex2"] exI [of _ s2] conjI)
    show "index_terms X t docID (x # ws) s = (Inr (), s2)" using 1(1) 2(1) by (simp add: x)
    show "engine_ok fuel X (rs @ ex1 @ ex2) s2" using 2(2) by simp
    show "kept {IndexPageID} s s2" by (rule kept_trans [OF 1(3) 2(3)])
    show "\<forall>r\<in>set (ex1 @ ex2). rTxn r = t \<and> (\<exists>w\<in>fst ` set (x # ws). rKey r \<in> {meta_key w, chunk_key w 0})" using ex1(1) ex2(1) by (auto simp: x)
    show "\<forall>(w, cnt)\<in>set (x # ws). chunk_written (ex1 @ ex2) w (jmChunk (keJson X) (new_chunk X A t rs docID w cnt))" using w1 w2 by (auto simp: x)
  qed
qed

text \<open>A committed chunk is what every later transaction reads.\<close>

lemma chunk_written_found:
  assumes "json_ok (keFloat X) (keJson X)" "t \<notin> A'" "\<forall>r\<in>set ex. rTxn r = t" "chunk_written ex w (jmChunk (keJson X) c)"
    "plain_chunk (keFloat X) c"
  shows "first_chunk X A' t' (rs @ ex) w = [c]"
proof -
  have "filter (\<lambda>r. rKey r = chunk_key w 0 \<and> visible A' t' r) ex = filter (\<lambda>r. rKey r = chunk_key w 0) ex"
    using assms(2,3) by (intro filter_cong) (auto simp: visible_def isRecordVisible_def)
  then have "latest_version A' t' (chunk_key w 0) (rs @ ex) = Some (jmChunk (keJson X) c)"
    using assms(4) by (simp add: latest_version_def chunk_written_def Let_def)
  then show ?thesis using assms(1,5) by (simp add: first_chunk_def json_ok_def)
qed

lemma new_chunk_plain:
  "plain_chunk (keFloat X) (old_chunk X A t rs w) \<Longrightarrow> ascii docID \<Longrightarrow> cnt < 2 ^ 63 \<Longrightarrow> plain_chunk (keFloat X) (new_chunk X A t rs docID w cnt)"
  by (auto simp: plain_chunk_def new_chunk_def Let_def)

lemma count_terms_keys: "distinct (map fst (count_terms toks))" "fst ` set (count_terms toks) = set toks"
proof -
  have upd: "fst ` set (AList.update k v m) = insert k (fst ` set m)" for k v and m :: "(string \<times> nat) list" by (induction m) auto
  have "distinct (map fst m) \<Longrightarrow> distinct (map fst (foldl (\<lambda>m t. AList.update t (case map_of m t of None \<Rightarrow> 1 | Some c \<Rightarrow> c + 1) m) m toks)) \<and>
      fst ` set (foldl (\<lambda>m t. AList.update t (case map_of m t of None \<Rightarrow> 1 | Some c \<Rightarrow> c + 1) m) m toks) = fst ` set m \<union> set toks" for m :: "(string \<times> nat) list"
    by (induction toks arbitrary: m) (auto simp: AList.distinct_update upd)
  from this [of "[]"] show "distinct (map fst (count_terms toks))" "fst ` set (count_terms toks) = set toks" by (simp_all add: count_terms_def)
qed

lemma count_terms_le: "(w, cnt) \<in> set (count_terms toks) \<Longrightarrow> cnt \<le> length toks"
proof -
  let ?f = "\<lambda>m t. AList.update t (case map_of m t of None \<Rightarrow> 1 | Some c \<Rightarrow> c + 1) m"
  have upd: "set (AList.update k v m) \<subseteq> insert (k, v) (set m)" for k v and m :: "(string \<times> nat) list" by (induction m) auto
  have "\<forall>(w, c)\<in>set m. c \<le> n \<Longrightarrow> \<forall>(w, c)\<in>set (foldl ?f m ts). c \<le> n + length ts" for m :: "(string \<times> nat) list" and ts n
  proof (induction ts arbitrary: m n)
    case (Cons x ts)
    have "\<forall>(w, c)\<in>set (?f m x). c \<le> Suc n"
      using Cons.prems upd [of x "case map_of m x of None \<Rightarrow> 1 | Some c \<Rightarrow> c + 1" m] by (fastforce dest: map_of_SomeD split: option.splits)
    from Cons.IH [OF this] show ?case by simp
  qed simp
  from this [of "[]" 0 toks] show "(w, cnt) \<in> set (count_terms toks) \<Longrightarrow> cnt \<le> length toks" by (auto simp: count_terms_def)
qed

section \<open>The other pages\<close>

lemma side_write:
  assumes s: "engine_ok fuel X rs s" and X: "write_env X" and i: "unat i < 2 ^ 48" "i \<noteq> IndexPageID" "\<not> isBTreeKVPage i" and ms: "page_records mem_stored (ieDB s) i ms"
    and small: "24 + length k + length v < 2 ^ 31"
  obtains e s' where "kernel_call X (\<lambda>R. Write (keEnv X) R i t k v (IntParam 0)) s = (e, s')" "e = None \<or> e = Some ErrOverflow"
    "page_use ms + (28 + length k + length v) \<le> PageSize \<Longrightarrow> e = None" "engine_ok fuel X rs s'" "kept {i} s s'"
proof -
  have e: "keEnv X = mem_env fuel" "ready fuel (bp (ieDB s))" "page_records mem_stored (ieDB s) IndexPageID rs" using s by (simp_all add: engine_ok_def)
  let ?R = "keRun X (ieCalls s)" let ?r = "new_record ?R t k v (IntParam 0)" let ?ms = "after_compaction (cperm ?R) (clock ?R) ms ?r"
  have cp: "mset (cperm ?R (survivors (clock ?R) ms)) = mset (survivors (clock ?R) ms)" using X by (simp add: write_env_def)
  obtain x db where 1: "Write (mem_env fuel) ?R i t k v (IntParam 0) (ieDB s) = (x, db)" "x = (if fits ?ms ?r then None else Some ErrOverflow)"
      "ready fuel (bp db)" "frame_but mem_stored {i} (ieDB s) db"
    by (rule mem_Write [where R = ?R and t = t and prm = "IntParam 0", OF e(2) i(1,3) ms small cp]) blast
  let ?s = "s\<lparr>ieDB := db, ieCalls := Suc (ieCalls s)\<rparr>"
  have k: "kept {i} s ?s" by (rule kept_frame [OF 1(4,3)])
  show thesis
  proof (rule that [of x ?s])
    show "kernel_call X (\<lambda>R. Write (keEnv X) R i t k v (IntParam 0)) s = (x, ?s)" using 1(1) by (simp add: kernel_call_def e(1))
    show "x = None \<or> x = Some ErrOverflow" using 1(2) by simp
    show "engine_ok fuel X rs ?s" using s k 1(3) e(3) i(2) by (simp add: engine_ok_def kept_def IndexPageID_def)
    show "x = None" if "page_use ms + (28 + length k + length v) \<le> PageSize"
    proof -
      have "fits ms ?r" using that by (simp add: page_use_def length_record_bytes new_record_def)
      then show ?thesis using 1(2) by (simp add: after_compaction_def)
    qed
  qed (rule k)
qed

section \<open>A concrete coding\<close>

text \<open>Numbers of one byte, and a coding of chunks that is easy to read back: 1 announces a byte of a
  name or another posting, 0 ends a name or the list.\<close>

fun enc_name :: "string \<Rightarrow> bytes" where
  "enc_name [] = [0]"
| "enc_name (c # s) = 1 # of_char c # enc_name s"

fun dec_name :: "bytes \<Rightarrow> string \<times> bytes" where
  "dec_name (x # c # rest) = (if x = 0 then ([], c # rest) else let (s, r) = dec_name rest in (char_of (unat c) # s, r))"
| "dec_name _ = ([], [])"

fun enc_postings :: "byte Posting list \<Rightarrow> bytes" where
  "enc_postings [] = [0]"
| "enc_postings (p # ps) = 1 # enc_name (DocID p) @ TF p # enc_postings ps"

fun dec_postings :: "nat \<Rightarrow> bytes \<Rightarrow> byte Posting list" where
  "dec_postings (Suc n) (x # rest) =
     (if x = 0 then []
      else case dec_name rest of (d, tf # r) \<Rightarrow> \<lparr>DocID = d, TF = tf\<rparr> # dec_postings n r | (d, []) \<Rightarrow> [])"
| "dec_postings _ _ = []"

lemma dec_enc_name: "dec_name (enc_name s @ b # r) = (s, b # r)"
  by (induction s) simp_all

lemma dec_enc_postings: "length ps < n \<Longrightarrow> dec_postings n (enc_postings ps) = ps"
proof (induction ps arbitrary: n)
  case Nil
  then show ?case by (cases n) simp_all
next
  case (Cons p ps)
  then show ?case by (cases n) (simp_all add: dec_enc_name)
qed

lemma length_enc_postings: "length ps < length (enc_postings ps)"
  by (induction ps) simp_all

definition byte_float :: "byte float_ops" where
  "byte_float = \<lparr>fLit = (\<lambda>n d. word_of_int (n div d)), fAdd = (+), fSub = (-), fMul = (*), fDiv = (div), fLog = (\<lambda>x. x), fLeq = (\<le>)\<rparr>"

definition byte_json :: "byte kernel_json" where
  "byte_json = \<lparr>jmChunk = (\<lambda>c. put_be32 (ChunkID c) @ enc_postings (Postings c)),
     juChunk = (\<lambda>b. (4 < length b, \<lparr>ChunkID = get_be32 b, Postings = dec_postings (length b) (drop 4 b)\<rparr>)),
     jmState = (\<lambda>_. [2]), juState = (\<lambda>b. (b = [2], \<lparr>esTotalDocs = 1, esAvgDocLen = 1\<rparr>)), jmQuery = (\<lambda>_. [3]), juHits = (\<lambda>_. (False, []))\<rparr>"

lemma byte_json_ok: "json_ok F byte_json"
proof -
  have "dec_postings (4 + length (enc_postings ps)) (enc_postings ps) = ps" for ps
    using length_enc_postings [of ps] by (intro dec_enc_postings) simp
  moreover have "get_be32 (put_be32 c @ r) = c" for c r using get_put_be32 [of c] by (simp add: get_be32_def)
  moreover have "enc_postings ps \<noteq> []" for ps by (cases ps) simp_all
  ultimately show ?thesis by (simp add: json_ok_def byte_json_def)
qed

definition byte_kernel :: "(bytes, lru, byte, unit) kernel_env" where
  "byte_kernel = \<lparr>keEnv = mem_env 8, keRun = (\<lambda>_. run0), keFloat = byte_float, keJson = byte_json, keSha = (\<lambda>b. b @ [0, 0, 0, 0]), keUnicode = ascii_tables,
     keTerms = (\<lambda>l. l), keScores = (\<lambda>l. l), keTies = (\<lambda>l. l), keNow = 0, keFuel = 2\<rparr>"

definition blank_engine :: "(bytes, lru, byte, unit) IntegratedEngine" where
  "blank_engine = \<lparr>ieDB = mem_db, ieTransport = None, ieInterceptor = None, vNodes = 2, ring = [], nodeMap = [], routingTable = [],
     TotalDocs = 0, AvgDocLen = 0, ieCalls = 0, ieWorld = ()\<rparr>"

section \<open>Property\<close>

text \<open>C6: A document that was inserted can be found. On the in-memory engine, when the analyzed words
  of the document (those of two or more bytes that are not stop words) have at most one chunk
  that is not full, the identifiers are ASCII, \<open>pageID\<close> is a slotted page of its own and the pages
  have room, \<open>InsertDocument\<close> succeeds, counts the document and adds it to the first chunk of each
  analyzed word. The next transaction finds it by each of these words, and so does any
  transaction \<open>t'\<close> in any engine state with these records on the index page in which the
  inserting transaction is not active.\<close>

theorem insert_then_found:
  fixes X :: "(bytes, lru, 'f, 'w) kernel_env"
  assumes "engine_ok fuel X rs s" and "write_env X" and "json_ok (keFloat X) (keJson X)" and "\<forall>l. mset (keTerms X l) = mset l"
    and "unat pageID < 2 ^ 48" and "pageID \<noteq> IndexPageID" and "pageID \<noteq> MetadataPageID"
    and "page_records mem_stored (ieDB s) pageID ds" and "page_use ds + (32 + length docID + length txt) \<le> PageSize"
    and "page_records mem_stored (ieDB s) MetadataPageID ms" and "\<forall>st. length (jmState (keJson X) st) < 2 ^ 30"
  defines "t \<equiv> nextTxnID (ieDB s) + 1" and "A \<equiv> insert (nextTxnID (ieDB s) + 1) (activeTxns (ieDB s))"
  defines "toks \<equiv> Analyzer_Tokenize (keUnicode X) txt"
  assumes "\<forall>w\<in>set toks. one_chunk X A t rs w" and "page_use rs + sum_list (map (word_need X A t rs docID) (count_terms toks)) \<le> PageSize"
    and "unicode_ok (keUnicode X)" and "ascii docID" and "\<not> isBTreeKVPage pageID"
  shows "\<exists>rs' s'. InsertDocument X pageID docID txt s = (Inr (), s') \<and> engine_ok fuel X rs' s' \<and> TotalDocs s' = TotalDocs s + 1 \<and>
    (\<forall>w\<in>set toks. (\<exists>res s2. (case kernel_begin s' of (t', s1) \<Rightarrow> evaluateAST X t' (TermQuery w) s1) = (Inr res, s2) \<and> docID \<in> set res) \<and>
       (\<forall>t' u. engine_ok fuel X rs' u \<longrightarrow> t \<notin> activeTxns (ieDB u) \<longrightarrow>
          (\<exists>res s2. evaluateAST X t' (TermQuery w) u = (Inr res, s2) \<and> docID \<in> set res)))"
proof -
  let ?toks = toks let ?ws = "keTerms X (count_terms ?toks)"
  have ws: "distinct (map fst ?ws)" "set ?ws = set (count_terms ?toks)" "fst ` set ?ws = set ?toks"
    "sum_list (map f ?ws) = sum_list (map f (count_terms ?toks))" for f :: "string \<times> nat \<Rightarrow> nat"
  proof -
    have m: "mset ?ws = mset (count_terms ?toks)" using assms(4) by blast
    show st: "set ?ws = set (count_terms ?toks)" by (rule mset_eq_setD [OF m])
    show "distinct (map fst ?ws)" using count_terms_keys(1) [of ?toks] mset_eq_imp_distinct_iff [of "map fst ?ws" "map fst (count_terms ?toks)"] m by simp
    show "fst ` set ?ws = set ?toks" using st count_terms_keys(2) by simp
    show "sum_list (map f ?ws) = sum_list (map f (count_terms ?toks))" using m by (metis mset_map sum_mset_sum_list)
  qed
  define s1 where "s1 = s\<lparr>ieDB := snd (BeginTxn (ieDB s))\<rparr>"
  have 1: "kernel_begin s = (t, s1)" "engine_ok fuel X rs s1" "activeTxns (ieDB s1) = A" "nextTxnID (ieDB s1) = t" "TotalDocs s1 = TotalDocs s" "bp (ieDB s1) = bp (ieDB s)"
    using assms(1) by (simp_all add: s1_def kernel_begin_def case_prod_unfold txn_sets engine_ok_def page_records_def t_def A_def)
  have p1: "page_records mem_stored (ieDB s1) pageID ds" "page_records mem_stored (ieDB s1) MetadataPageID ms"
    using assms(8,10) 1(6) by (simp_all add: page_records_def)
  let ?k = "bytes_of (''doc:'' @ docID)"
  have dk: "length ?k = 4 + length docID" by simp
  have sm: "24 + length ?k + length (bytes_of txt) < 2 ^ 31" using assms(9) by (simp add: PageSize_def)
  obtain e s2 where 2: "kernel_call X (\<lambda>R. Write (keEnv X) R pageID t ?k (bytes_of txt) (IntParam 0)) s1 = (e, s2)" "e = None" "engine_ok fuel X rs s2" "kept {pageID} s1 s2"
    by (rule side_write [OF 1(2) assms(2,5,6,19) p1(1) sm, of t]) (use assms(9) dk in auto)
  have A2: "A = activeTxns (ieDB s2)" using 2(4) 1(3) by (simp add: kept_def)
  have md: "unat MetadataPageID < 2 ^ 48" "MetadataPageID \<noteq> IndexPageID" "\<not> isBTreeKVPage MetadataPageID"
    by (simp_all add: MetadataPageID_def IndexPageID_def isBTreeKVPage_def BTreeRootPageID_def)
  have cf: "w \<in> set ?toks \<Longrightarrow> colon_free w" for w using Analyzer_colon_free [OF assms(17)] by (simp add: toks_def)
  have one: "\<forall>(w, cnt)\<in>set ?ws. colon_free w \<and> one_chunk X A t rs w"
    using ws(3) assms(15) cf by (metis (no_types, lifting) case_prodI2 fst_conv image_eqI)
  have room: "page_use rs + sum_list (map (word_need X A t rs docID) ?ws) \<le> PageSize" using assms(16) ws(4) by simp
  obtain ex s3 where 3: "index_terms X t docID ?ws s2 = (Inr (), s3)" "engine_ok fuel X (rs @ ex) s3" "kept {IndexPageID} s2 s3"
      and ex: "\<forall>r\<in>set ex. rTxn r = t" "\<forall>(w, cnt)\<in>set ?ws. chunk_written ex w (jmChunk (keJson X) (new_chunk X A t rs docID w cnt))"
    using index_terms_first [OF 2(3) assms(2) A2 ws(1) one room] by blast
  let ?s4 = "update_stats X (length ?toks) s3" let ?st = "\<lparr>esTotalDocs = TotalDocs ?s4, esAvgDocLen = AvgDocLen ?s4\<rparr>"
  have 4: "engine_ok fuel X (rs @ ex) ?s4" "TotalDocs ?s4 = TotalDocs s + 1" "ieDB ?s4 = ieDB s3"
    using 3 2(4) 1(5) by (simp_all add: update_stats_def Let_def engine_ok_def kept_def)
  have p4: "page_records mem_stored (ieDB ?s4) MetadataPageID ms"
    using p1(2) 2(4) 3(3) md assms(7) by (simp add: 4(3) kept_def)
  have sm2: "24 + length (bytes_of ''bm25_state'') + length (jmState (keJson X) ?st) < 2 ^ 31" using assms(11) [rule_format, of ?st] by simp
  obtain e5 s5 where 5: "kernel_call X (\<lambda>R. Write (keEnv X) R MetadataPageID t (bytes_of ''bm25_state'') (jmState (keJson X) ?st) (IntParam 0)) ?s4 = (e5, s5)"
      "e5 = None \<or> e5 = Some ErrOverflow" "engine_ok fuel X (rs @ ex) s5" "kept {MetadataPageID} ?s4 s5"
    by (rule side_write [OF 4(1) assms(2) md p4 sm2, of t]) blast
  let ?s' = "kernel_commit t s5"
  have nf: "\<not> fatal ErrOverflow" by (simp add: fatal_def)
  have run: "InsertDocument X pageID docID txt s = (Inr (), ?s')"
    using 1(1) 2(1,2) 3(1) 5(1,2) nf by (auto simp: InsertDocument_def Let_def toks_def)
  have tx: "activeTxns (ieDB ?s') = A - {t}" "nextTxnID (ieDB ?s') = t" "TotalDocs ?s' = TotalDocs s + 1"
    using 5(4) 3(3) 2(4) 1(3,4) 4(2,3) by (simp_all add: kernel_commit_def txn_sets kept_def)
  have ok: "engine_ok fuel X (rs @ ex) ?s'" using 5(3) by (simp add: engine_ok_def kernel_commit_def page_records_def)
  obtain s6 where 6: "kernel_begin ?s' = (t + 1, s6)" "engine_ok fuel X (rs @ ex) s6" "activeTxns (ieDB s6) = insert (t + 1) (A - {t})"
    by (rule kernel_beginE [of ?s' fuel X "rs @ ex"]) (use ok tx in simp)
  have found_in: "\<exists>res s2. evaluateAST X t' (TermQuery w) u = (Inr res, s2) \<and> docID \<in> set res"
    if w: "w \<in> set ?toks" and u: "engine_ok fuel X (rs @ ex) u" "t \<notin> activeTxns (ieDB u)" for w t' u
  proof -
    have "w \<in> fst ` set ?ws" unfolding ws(3) by (rule w)
    then obtain cnt where c: "(w, cnt) \<in> set ?ws" by auto
    then have cw: "chunk_written ex w (jmChunk (keJson X) (new_chunk X A t rs docID w cnt))" using ex(2) by blast
    have "cnt \<le> length txt" using count_terms_le [of w cnt ?toks] c ws(2) length_Analyzer [of "keUnicode X" "txt"] by (simp add: toks_def)
    then have "cnt < 2 ^ 63" using assms(9) by (simp add: PageSize_def)
    then have "plain_chunk (keFloat X) (new_chunk X A t rs docID w cnt)"
      using assms(15,18) w by (intro new_chunk_plain) (simp_all add: one_chunk_def)
    then have "first_chunk X (activeTxns (ieDB u)) t' (rs @ ex) w = [new_chunk X A t rs docID w cnt]"
      by (rule chunk_written_found [OF assms(3) u(2) ex(1) cw])
    then have "docID \<in> chunk_docs (first_chunk X (activeTxns (ieDB u)) t' (rs @ ex) w)"
      by (simp add: chunk_docs_def new_chunk_def Let_def)
    moreover have "\<forall>w'\<in>query_words (TermQuery w). colon_free w'" using cf [OF w] by simp
    ultimately show ?thesis using evaluate_docs [OF u(1), of "TermQuery w" t'] by auto
  qed
  have "t \<notin> activeTxns (ieDB s6)" by (simp add: 6(3))
  then have "(\<exists>res s2. (case kernel_begin ?s' of (t', s1) \<Rightarrow> evaluateAST X t' (TermQuery w) s1) = (Inr res, s2) \<and> docID \<in> set res)" if "w \<in> set ?toks" for w
    unfolding 6(1) prod.case by (rule found_in [OF that 6(2)])
  then show ?thesis using run ok tx(3) found_in by (intro exI [of _ "rs @ ex"] exI [of _ ?s'] conjI ballI allI impI)
qed

theorem insert_then_found_witness:
  "\<exists>s'. InsertDocument byte_kernel 12 ''d'' ''ab'' blank_engine = (Inr (), s') \<and> TotalDocs s' = 1 \<and>
     (\<exists>res s2. (case kernel_begin s' of (t', s1) \<Rightarrow> evaluateAST byte_kernel t' (TermQuery ''ab'') s1) = (Inr res, s2) \<and> ''d'' \<in> set res)"
proof -
  let ?X = byte_kernel let ?s = blank_engine
  have tok: "Analyzer_Tokenize (keUnicode byte_kernel) ''ab'' = [''ab'']" "count_terms [''ab''] = [(''ab'', 1)]" by code_simp+
  have e: "engine_ok 8 ?X [] ?s" using mem_db_ready mem_db_blank
    by (simp add: engine_ok_def byte_kernel_def blank_engine_def run0_def lasting_def index_words_def)
  have we: "write_env ?X" "json_ok (keFloat ?X) (keJson ?X)" "\<forall>l. mset (keTerms ?X l) = mset l" "\<forall>st. length (jmState (keJson ?X) st) < 2 ^ 30"
    using byte_json_ok by (simp_all add: write_env_def byte_kernel_def run0_def) (simp add: byte_json_def)
  have pg: "unat (12 :: PageID) < 2 ^ 48" "(12 :: PageID) \<noteq> IndexPageID" "(12 :: PageID) \<noteq> MetadataPageID"
    by (simp_all add: IndexPageID_def MetadataPageID_def)
  have un: "unicode_ok (keUnicode ?X)" "ascii ''d''" "\<not> isBTreeKVPage 12"
    using ascii_tables_ok by (simp_all add: byte_kernel_def ascii_def isBTreeKVPage_def BTreeRootPageID_def)
  have rec: "page_records mem_stored (ieDB ?s) i []" for i using mem_db_blank by (simp add: blank_engine_def)
  have use0: "page_use [] + (32 + length ''d'' + length ''ab'') \<le> PageSize" by (simp add: page_use_def layout_defs)
  have one: "\<forall>w\<in>set (Analyzer_Tokenize (keUnicode ?X) ''ab''). one_chunk ?X A t [] w" for A t
    by (simp add: one_chunk_def latest_version_def old_chunk_def plain_chunk_def PostingsChunkSize_def)
  have room: "page_use [] + sum_list (map (word_need ?X A t [] ''d'') (count_terms (Analyzer_Tokenize (keUnicode ?X) ''ab''))) \<le> PageSize" for A t
    by (simp only: tok) (simp add: page_use_def word_need_def new_chunk_def old_chunk_def latest_version_def meta_key_def chunk_key_def byte_kernel_def byte_json_def layout_defs Let_def)
  from insert_then_found [OF e we(1-3) pg rec use0 rec we(4) one room un] obtain rs' s' where
    "InsertDocument ?X 12 ''d'' ''ab'' ?s = (Inr (), s')" "TotalDocs s' = TotalDocs ?s + 1"
    "\<forall>w\<in>set (Analyzer_Tokenize (keUnicode ?X) ''ab''). \<exists>res s2. (case kernel_begin s' of (t', s1) \<Rightarrow> evaluateAST ?X t' (TermQuery w) s1) = (Inr res, s2) \<and> ''d'' \<in> set res"
    by blast
  then show ?thesis by (intro exI [of _ s']) (simp add: tok blank_engine_def)
qed

end
