(* ===== verification/OSFile.thy ===== *)
theory OSFile
  imports Device
begin

text \<open>
  \<open>OSFileDevice\<close> of \<open>vfs.go\<close>: a block device on a file of the operating system. The operations of
  \<open>*os.File\<close> and \<open>os.OpenFile\<close> are arguments; the device forwards to them and remembers its path.
  It keeps the laws of a block device when the file has them.
\<close>

record 'h OSFileDevice =
  osFile :: 'h
  osPath :: string

definition NewOSFileDevice :: "(string \<Rightarrow> 'w \<Rightarrow> 'h result \<times> 'w) \<Rightarrow> string \<Rightarrow> 'w \<Rightarrow> 'h OSFileDevice result \<times> 'w" where
  "NewOSFileDevice openFile p w =
     (case openFile p w of
        (Inl err, w1) \<Rightarrow> (Inl err, w1)
      | (Inr file, w1) \<Rightarrow> (Inr \<lparr>osFile = file, osPath = p\<rparr>, w1))"

definition OS_Path :: "'h OSFileDevice option \<Rightarrow> string" where
  "OS_Path d = (case d of None \<Rightarrow> '''' | Some d \<Rightarrow> osPath d)"

definition OS_ReadAt :: "'h device_ops \<Rightarrow> 'h OSFileDevice \<Rightarrow> nat \<Rightarrow> int \<Rightarrow> bytes \<times> error option" where
  "OS_ReadAt F d n off = ReadAt F (osFile d) n off"

definition OS_WriteAt :: "'h device_ops \<Rightarrow> 'h OSFileDevice \<Rightarrow> bytes \<Rightarrow> int \<Rightarrow> error option \<times> 'h OSFileDevice" where
  "OS_WriteAt F d p off = (case WriteAt F (osFile d) p off of (e, f) \<Rightarrow> (e, d\<lparr>osFile := f\<rparr>))"

definition OS_Sync :: "'h device_ops \<Rightarrow> 'h OSFileDevice \<Rightarrow> error option \<times> 'h OSFileDevice" where
  "OS_Sync F d = (case Sync F (osFile d) of (e, f) \<Rightarrow> (e, d\<lparr>osFile := f\<rparr>))"

definition OS_Stat :: "'h device_ops \<Rightarrow> 'h OSFileDevice \<Rightarrow> nat result" where
  "OS_Stat F d = Stat F (osFile d)"

definition OS_Close :: "'h device_ops \<Rightarrow> 'h OSFileDevice \<Rightarrow> error option \<times> 'h OSFileDevice" where
  "OS_Close F d = (case Close F (osFile d) of (e, f) \<Rightarrow> (e, d\<lparr>osFile := f\<rparr>))"

definition os_device :: "'h device_ops \<Rightarrow> 'h OSFileDevice device_ops" where
  "os_device F = \<lparr>ReadAt = OS_ReadAt F, WriteAt = OS_WriteAt F, Sync = OS_Sync F, Stat = OS_Stat F, Close = OS_Close F\<rparr>"

lemmas os_device_defs = os_device_def OS_ReadAt_def OS_WriteAt_def OS_Sync_def OS_Stat_def OS_Close_def

lemma os_block_device:
  assumes "block_device F stored dsize"
  shows "block_device (os_device F) (\<lambda>d. stored (osFile d)) (\<lambda>d. dsize (osFile d))"
proof
  fix d n x bs e p off d' i m
  note L = block_device.read_len [OF assms] block_device.read [OF assms] block_device.write_frame [OF assms] block_device.write_ok [OF assms]
    block_device.sync [OF assms] block_device.stat [OF assms] block_device.beyond [OF assms]
  show "ReadAt (os_device F) d n x = (bs, e) \<Longrightarrow> length bs \<le> n" using L(1) by (simp add: os_device_defs)
  show "ReadAt (os_device F) d n (int off) = (bs, e) \<Longrightarrow> e = None \<or> e = Some ErrEOF \<Longrightarrow>
      length bs \<le> n \<and> bs @ replicate (n - length bs) 0 = map (stored (osFile d)) [off..<off + n]" using L(2) by (simp add: os_device_defs)
  show "WriteAt (os_device F) d p (int off) = (e, d') \<Longrightarrow> i < off \<or> off + length p \<le> i \<Longrightarrow> stored (osFile d') i = stored (osFile d) i"
    using L(3) by (auto simp: os_device_defs split: prod.splits)
  show "WriteAt (os_device F) d p (int off) = (None, d') \<Longrightarrow>
      map (stored (osFile d')) [off..<off + length p] = p \<and> dsize (osFile d') = max (dsize (osFile d)) (off + length p)"
    using L(4) by (auto simp: os_device_defs split: prod.splits)
  show "Sync (os_device F) d = (e, d') \<Longrightarrow> stored (osFile d') = stored (osFile d) \<and> dsize (osFile d') = dsize (osFile d)"
    using L(5) by (auto simp: os_device_defs split: prod.splits)
  show "Stat (os_device F) d = Inr m \<Longrightarrow> m = dsize (osFile d)" using L(6) by (simp add: os_device_defs)
  show "dsize (osFile d) \<le> i \<Longrightarrow> stored (osFile d) i = 0" by (rule L(7))
qed

end
