(* ===== verification/WalRun.thy ===== *)
theory WalRun
  imports Wal
begin

text \<open>
  The goroutines of the log (\<open>wal.go\<close>) at the grain of their channel operations. A caller of
  \<open>Append\<close> gets its number in one step and sends its record in another; the flusher takes one
  message per step, drains, puts a truncate request back, writes a batch and answers its
  callers; \<open>Close\<close> signals the flusher and waits for its end. The queue holds 4096 messages, a
  send to a full queue waits.

  Shown: a flusher that is not interrupted does what \<open>flusher\<close> of \<open>Wal\<close> does in one step; records
  are answered in the order they were sent and only once they are in the file; and the two
  states in which no caller is ever answered again.
\<close>

section \<open>State\<close>

datatype flusher_pc =
    FWaiting
  | FDraining "wal_entry list"
  | FPutBack "wal_entry list"
  | FWriting "wal_entry list"
  | FStopped

text \<open>\<open>lrSent\<close>, \<open>lrAcked\<close> and \<open>lrCut\<close> record the history: the records sent and answered so far, and how
  many had been answered when the file was last truncated.\<close>

record log_run =
  lrWal :: wal
  lrCalls :: "wal_entry list"
  lrPc :: flusher_pc
  lrQuit :: bool
  lrOpen :: bool
  lrSent :: "wal_entry list"
  lrAcked :: "wal_entry list"
  lrCut :: nat

definition queueCap :: nat where
  "queueCap = 4096"

definition start_run :: "bytes \<Rightarrow> log_run" where
  "start_run f = \<lparr>lrWal = NewBatchingWAL f, lrCalls = [], lrPc = FWaiting, lrQuit = False, lrOpen = True, lrSent = [], lrAcked = [], lrCut = 0\<rparr>"

section \<open>Steps\<close>

definition number_call :: "append_call \<Rightarrow> log_run \<Rightarrow> log_run" where
  "number_call c s =
     (case Append_assign (acTxn c) (acType c) (acPage c) (acKey c) (acOld c) (acNew c) (lrWal s) of
        (e, w) \<Rightarrow> s\<lparr>lrWal := w, lrCalls := lrCalls s @ [e]\<rparr>)"

definition send_call :: "nat \<Rightarrow> log_run \<Rightarrow> log_run option" where
  "send_call i s =
     (if i < length (lrCalls s) \<and> length (wQueue (lrWal s)) < queueCap
      then Some (s\<lparr>lrWal := send (EntryMsg (lrCalls s ! i)) (lrWal s), lrCalls := take i (lrCalls s) @ drop (Suc i) (lrCalls s),
                   lrSent := lrSent s @ [lrCalls s ! i]\<rparr>)
      else None)"

definition send_truncate :: "log_run \<Rightarrow> log_run option" where
  "send_truncate s = (if length (wQueue (lrWal s)) < queueCap then Some (s\<lparr>lrWal := send TruncateMsg (lrWal s)\<rparr>) else None)"

text \<open>One move of the flusher; \<open>None\<close> while it has to wait.\<close>

definition flusher_move :: "log_run \<Rightarrow> log_run option" where
  "flusher_move s =
     (let w = lrWal s
      in case lrPc s of
           FWaiting \<Rightarrow>
             (case wQueue w of
                [] \<Rightarrow> None
              | EntryMsg e # q \<Rightarrow> Some (s\<lparr>lrWal := w\<lparr>wQueue := q\<rparr>, lrPc := FDraining [e]\<rparr>)
              | TruncateMsg # q \<Rightarrow> Some (s\<lparr>lrWal := w\<lparr>wFile := [], wQueue := q, currentLSN := 0\<rparr>, lrCut := length (lrAcked s)\<rparr>))
         | FDraining pending \<Rightarrow>
             if length pending < 1000
             then (case wQueue w of
                     [] \<Rightarrow> Some (s\<lparr>lrPc := FWriting pending\<rparr>)
                   | EntryMsg e # q \<Rightarrow> Some (s\<lparr>lrWal := w\<lparr>wQueue := q\<rparr>, lrPc := FDraining (pending @ [e])\<rparr>)
                   | TruncateMsg # q \<Rightarrow> Some (s\<lparr>lrWal := w\<lparr>wQueue := q\<rparr>, lrPc := FPutBack pending\<rparr>))
             else Some (s\<lparr>lrPc := FWriting pending\<rparr>)
         | FPutBack pending \<Rightarrow>
             if length (wQueue w) < queueCap then Some (s\<lparr>lrWal := send TruncateMsg w, lrPc := FWriting pending\<rparr>) else None
         | FWriting pending \<Rightarrow>
             Some (s\<lparr>lrWal := w\<lparr>wFile := wFile w @ concat (map writeEntry pending)\<rparr>, lrPc := FWaiting, lrAcked := lrAcked s @ pending\<rparr>)
         | FStopped \<Rightarrow> None)"

text \<open>The other branch of the flusher's \<open>select\<close>, which is open once \<open>quit\<close> is closed, whatever is in
  the queue.\<close>

definition flusher_quit :: "log_run \<Rightarrow> log_run option" where
  "flusher_quit s = (if lrPc s = FWaiting \<and> lrQuit s then Some (s\<lparr>lrPc := FStopped\<rparr>) else None)"

text \<open>\<open>Close\<close>: the part under \<open>closeOnce\<close> up to the wait, and the part behind it. A file that was
  closed before gives an error.\<close>

definition Close_signal :: "log_run \<Rightarrow> log_run" where
  "Close_signal s = s\<lparr>lrQuit := True\<rparr>"

definition Close_finish :: "log_run \<Rightarrow> (error option \<times> log_run) option" where
  "Close_finish s =
     (if lrQuit s \<and> lrPc s = FStopped then Some (if lrOpen s then None else Some ErrDevice, s\<lparr>lrOpen := False\<rparr>) else None)"

inductive wstep :: "log_run \<Rightarrow> log_run \<Rightarrow> bool" where
  wstep_number: "wstep s (number_call c s)"
| wstep_send: "send_call i s = Some s' \<Longrightarrow> wstep s s'"
| wstep_truncate: "send_truncate s = Some s' \<Longrightarrow> wstep s s'"
| wstep_move: "flusher_move s = Some s' \<Longrightarrow> wstep s s'"
| wstep_quit: "flusher_quit s = Some s' \<Longrightarrow> wstep s s'"
| wstep_signal: "wstep s (Close_signal s)"
| wstep_finish: "Close_finish s = Some (e, s') \<Longrightarrow> wstep s s'"

inductive_cases wstepE: "wstep s s'"

section \<open>Order and durability\<close>

fun pending_of :: "flusher_pc \<Rightarrow> wal_entry list" where
  "pending_of (FDraining p) = p"
| "pending_of (FPutBack p) = p"
| "pending_of (FWriting p) = p"
| "pending_of _ = []"

fun queued_entries :: "wal_msg list \<Rightarrow> wal_entry list" where
  "queued_entries [] = []"
| "queued_entries (EntryMsg e # q) = e # queued_entries q"
| "queued_entries (TruncateMsg # q) = queued_entries q"

lemma queued_entries_append [simp]: "queued_entries (q @ q') = queued_entries q @ queued_entries q'"
  by (induction q rule: queued_entries.induct) simp_all

definition run_inv :: "bytes \<Rightarrow> log_run \<Rightarrow> bool" where
  "run_inv f s \<longleftrightarrow>
     lrSent s = lrAcked s @ pending_of (lrPc s) @ queued_entries (wQueue (lrWal s)) \<and> lrCut s \<le> length (lrAcked s) \<and>
     (\<exists>b\<in>{f, []}. wFile (lrWal s) = b @ concat (map writeEntry (drop (lrCut s) (lrAcked s)))) \<and>
     length (wQueue (lrWal s)) \<le> queueCap \<and> length (pending_of (lrPc s)) \<le> 1000 \<and> (\<not> lrOpen s \<longrightarrow> lrPc s = FStopped)"

lemma start_run_inv: "run_inv f (start_run f)"
  by (simp add: run_inv_def start_run_def NewBatchingWAL_def)

lemma Append_assign_keeps:
  assumes "Append_assign t ty i k ov nv w = (e, w')"
  shows "wFile w' = wFile w \<and> wQueue w' = wQueue w"
  using assms by (auto simp: Append_assign_def Let_def split: if_splits)

lemma number_call_keeps [simp]:
  "wFile (lrWal (number_call c s)) = wFile (lrWal s)" "wQueue (lrWal (number_call c s)) = wQueue (lrWal s)"
  "lrPc (number_call c s) = lrPc s" "lrQuit (number_call c s) = lrQuit s" "lrOpen (number_call c s) = lrOpen s"
  "lrSent (number_call c s) = lrSent s" "lrAcked (number_call c s) = lrAcked s" "lrCut (number_call c s) = lrCut s"
  "length (lrCalls (number_call c s)) = Suc (length (lrCalls s))"
  using Append_assign_keeps by (auto simp: number_call_def split: prod.splits)

lemma flusher_move_inv: "run_inv f s \<Longrightarrow> flusher_move s = Some s' \<Longrightarrow> run_inv f s'"
  by (auto simp: run_inv_def flusher_move_def Let_def send_def queueCap_def split: flusher_pc.splits list.splits wal_msg.splits if_splits)

lemma wstep_inv: "wstep s s' \<Longrightarrow> run_inv f s \<Longrightarrow> run_inv f s'"
proof (induction rule: wstep.induct)
  case (wstep_move s s')
  then show ?case by (blast intro: flusher_move_inv)
qed (auto simp: run_inv_def send_call_def send_truncate_def send_def flusher_quit_def Close_signal_def Close_finish_def split: if_splits)

lemma run_inv_reachable: "wstep\<^sup>*\<^sup>* (start_run f) s \<Longrightarrow> run_inv f s"
  by (induction rule: rtranclp_induct) (auto intro: start_run_inv wstep_inv)

section \<open>The flusher in one step\<close>

lemma drain_moves:
  assumes "lrPc s = FDraining p" "length p + n = 1000" "length (wQueue (lrWal s)) \<le> queueCap" "drain n (wQueue (lrWal s)) = (ps, q')"
  shows "wstep\<^sup>*\<^sup>* s (s\<lparr>lrWal := (lrWal s)\<lparr>wQueue := q'\<rparr>, lrPc := FWriting (p @ ps)\<rparr>)"
  using assms
proof (induction n "wQueue (lrWal s)" arbitrary: s p ps rule: drain.induct)
  case (3 n e q)
  let ?s = "s\<lparr>lrWal := (lrWal s)\<lparr>wQueue := q\<rparr>, lrPc := FDraining (p @ [e])\<rparr>"
  obtain ps' where d: "drain n q = (ps', q')" "ps = e # ps'" using 3(2,6) by (auto simp flip: 3(2) split: prod.splits)
  have "flusher_move s = Some ?s" using 3(3,4) by (simp add: flusher_move_def flip: 3(2))
  moreover have "wstep\<^sup>*\<^sup>* ?s (?s\<lparr>lrWal := (lrWal ?s)\<lparr>wQueue := q'\<rparr>, lrPc := FWriting ((p @ [e]) @ ps')\<rparr>)"
    using 3(4,5) d(1) by (intro 3(1)) (auto simp flip: 3(2))
  ultimately show ?case using d(2) by (auto intro: converse_rtranclp_into_rtranclp wstep_move)
next
  case (4 n q)
  let ?s1 = "s\<lparr>lrWal := (lrWal s)\<lparr>wQueue := q\<rparr>, lrPc := FPutBack p\<rparr>"
  have "flusher_move s = Some ?s1" using 4(2,3) by (simp add: flusher_move_def flip: 4(1))
  moreover have "flusher_move ?s1 = Some (?s1\<lparr>lrWal := send TruncateMsg (lrWal ?s1), lrPc := FWriting p\<rparr>)"
    using 4(4) by (simp add: flusher_move_def Let_def flip: 4(1))
  ultimately show ?case using 4(5) by (auto simp: send_def simp flip: 4(1) intro: converse_rtranclp_into_rtranclp wstep_move)
qed (auto simp: flusher_move_def intro!: r_into_rtranclp wstep_move)

lemma flusher_refined:
  assumes "lrPc s = FWaiting" "wQueue (lrWal s) \<noteq> []" "length (wQueue (lrWal s)) \<le> queueCap"
  shows "\<exists>s'. wstep\<^sup>*\<^sup>* s s' \<and> lrWal s' = flusher (lrWal s) \<and> lrPc s' = FWaiting \<and> lrSent s' = lrSent s"
proof (cases "wQueue (lrWal s)")
  case (Cons m q)
  show ?thesis
  proof (cases m)
    case (EntryMsg e)
    obtain ps q' where d: "drain 999 q = (ps, q')" by fastforce
    let ?s1 = "s\<lparr>lrWal := (lrWal s)\<lparr>wQueue := q\<rparr>, lrPc := FDraining [e]\<rparr>"
    let ?s2 = "?s1\<lparr>lrWal := (lrWal ?s1)\<lparr>wQueue := q'\<rparr>, lrPc := FWriting ([e] @ ps)\<rparr>"
    let ?s3 = "?s2\<lparr>lrWal := flusher (lrWal s), lrPc := FWaiting, lrAcked := lrAcked s @ e # ps\<rparr>"
    have "flusher_move s = Some ?s1" using assms(1) by (simp add: flusher_move_def Cons EntryMsg)
    moreover have "wstep\<^sup>*\<^sup>* ?s1 ?s2" using d assms(3) by (intro drain_moves [where n = 999]) (auto simp: Cons)
    moreover have "flusher_move ?s2 = Some ?s3" by (simp add: flusher_move_def flusher_def Cons EntryMsg d)
    ultimately have "wstep\<^sup>*\<^sup>* s ?s3" by (meson converse_rtranclp_into_rtranclp rtranclp.rtrancl_into_rtrancl wstep_move)
    then show ?thesis by (intro exI [of _ ?s3]) simp
  next
    case TruncateMsg
    let ?s = "s\<lparr>lrWal := flusher (lrWal s), lrCut := length (lrAcked s)\<rparr>"
    have "flusher_move s = Some ?s" using assms(1) by (simp add: flusher_move_def flusher_def Cons TruncateMsg)
    then show ?thesis using assms(1) by (intro exI [of _ ?s]) (auto intro: wstep_move)
  qed
qed (use assms in simp)

section \<open>Progress\<close>

definition jammed :: "log_run \<Rightarrow> bool" where
  "jammed s \<longleftrightarrow> (\<exists>p. lrPc s = FPutBack p) \<and> length (wQueue (lrWal s)) = queueCap"

definition dead_run :: "log_run \<Rightarrow> bool" where
  "dead_run s \<longleftrightarrow> jammed s \<or> lrPc s = FStopped"

lemma drain_shrinks: "drain n q = (p, q') \<Longrightarrow> length q' \<le> length q"
  by (induction n q arbitrary: p q' rule: drain.induct) (auto split: prod.splits)

lemma flusher_shrinks: "wQueue w \<noteq> [] \<Longrightarrow> length (wQueue (flusher w)) < length (wQueue w)"
  using drain_shrinks [of 999] by (force simp: flusher_def split: list.splits wal_msg.splits prod.splits)

lemma waiting_run_drains:
  assumes "lrPc s = FWaiting" "length (wQueue (lrWal s)) \<le> queueCap"
  shows "\<exists>s'. wstep\<^sup>*\<^sup>* s s' \<and> lrPc s' = FWaiting \<and> wQueue (lrWal s') = [] \<and> lrSent s' = lrSent s"
  using assms
proof (induction "length (wQueue (lrWal s))" arbitrary: s rule: less_induct)
  case less
  show ?case
  proof (cases "wQueue (lrWal s) = []")
    case False
    then obtain s1 where 1: "wstep\<^sup>*\<^sup>* s s1" "lrWal s1 = flusher (lrWal s)" "lrPc s1 = FWaiting" "lrSent s1 = lrSent s"
      using flusher_refined [OF less.prems(1)] less.prems(2) by blast
    with flusher_shrinks [OF False] less.hyps [of s1] less.prems(2) show ?thesis
      by (metis le_trans less_imp_le rtranclp_trans)
  qed (use less.prems in blast)
qed

lemma writing_run_waits:
  assumes "lrPc s = FWriting p"
  shows "\<exists>s'. wstep\<^sup>*\<^sup>* s s' \<and> lrPc s' = FWaiting \<and> wQueue (lrWal s') = wQueue (lrWal s) \<and> lrSent s' = lrSent s"
proof -
  have "\<exists>s'. flusher_move s = Some s' \<and> lrPc s' = FWaiting \<and> wQueue (lrWal s') = wQueue (lrWal s) \<and> lrSent s' = lrSent s"
    using assms by (simp add: flusher_move_def Let_def)
  then show ?thesis by (meson r_into_rtranclp wstep_move)
qed

lemma live_run_waits:
  assumes "\<not> dead_run s" "length (wQueue (lrWal s)) \<le> queueCap" "length (pending_of (lrPc s)) \<le> 1000"
  shows "\<exists>s'. wstep\<^sup>*\<^sup>* s s' \<and> lrPc s' = FWaiting \<and> length (wQueue (lrWal s')) \<le> queueCap \<and> lrSent s' = lrSent s"
proof (cases "lrPc s")
  case (FDraining p)
  obtain ps q' where d: "drain (1000 - length p) (wQueue (lrWal s)) = (ps, q')" by fastforce
  let ?s1 = "s\<lparr>lrWal := (lrWal s)\<lparr>wQueue := q'\<rparr>, lrPc := FWriting (p @ ps)\<rparr>"
  have "wstep\<^sup>*\<^sup>* s ?s1" using drain_moves [OF FDraining _ assms(2) d] assms(3) FDraining by simp
  moreover have "length q' \<le> queueCap" using drain_shrinks [OF d] assms(2) by simp
  ultimately show ?thesis using writing_run_waits [of ?s1 "p @ ps"] by (auto dest: rtranclp_trans)
next
  case (FPutBack p)
  let ?s1 = "s\<lparr>lrWal := send TruncateMsg (lrWal s), lrPc := FWriting p\<rparr>"
  have l: "length (wQueue (lrWal s)) < queueCap" using assms(1,2) FPutBack by (auto simp: dead_run_def jammed_def)
  then have "wstep s ?s1" by (intro wstep_move) (simp add: flusher_move_def FPutBack)
  then show ?thesis using writing_run_waits [of ?s1 p] l by (auto simp: send_def dest: converse_rtranclp_into_rtranclp)
next
  case (FWriting p)
  then show ?thesis using writing_run_waits [OF FWriting] assms(2) by auto
qed (use assms in \<open>auto simp: dead_run_def\<close>)

lemma dead_run_stays:
  assumes "wstep s s'" "dead_run s"
  shows "dead_run s' \<and> lrAcked s' = lrAcked s \<and> wFile (lrWal s') = wFile (lrWal s)"
  using assms
proof (induction rule: wstep.induct)
  case (wstep_number s c)
  then show ?case by (simp add: dead_run_def jammed_def)
qed (auto simp: dead_run_def jammed_def send_call_def send_truncate_def send_def flusher_move_def flusher_quit_def Close_signal_def Close_finish_def Let_def
    split: if_splits)

lemma dead_run_forever:
  assumes "wstep\<^sup>*\<^sup>* s s'" "dead_run s"
  shows "dead_run s' \<and> lrAcked s' = lrAcked s \<and> wFile (lrWal s') = wFile (lrWal s)"
  using assms(1)
proof (induction rule: rtranclp_induct)
  case (step y z)
  then show ?case using dead_run_stays by metis
qed (use assms(2) in simp)

section \<open>A run that jams\<close>

lemma send_last:
  assumes "length (wQueue (lrWal s)) < queueCap"
  shows "\<exists>s' e. wstep\<^sup>*\<^sup>* s s' \<and> lrPc s' = lrPc s \<and> wQueue (lrWal s') = wQueue (lrWal s) @ [EntryMsg e]"
proof -
  let ?s1 = "number_call (call_of (example_entry 1 1 0)) s" let ?i = "length (lrCalls s)"
  obtain s2 where s2: "send_call ?i ?s1 = Some s2" "lrPc s2 = lrPc s" "wQueue (lrWal s2) = wQueue (lrWal s) @ [EntryMsg (lrCalls ?s1 ! ?i)]"
    using assms by (simp add: send_call_def send_def)
  then have "wstep\<^sup>*\<^sup>* s s2" by (meson converse_rtranclp_into_rtranclp r_into_rtranclp wstep_number wstep_send)
  with s2 show ?thesis by blast
qed

lemma send_many:
  assumes "length (wQueue (lrWal s)) + n \<le> queueCap"
  shows "\<exists>s' ms. wstep\<^sup>*\<^sup>* s s' \<and> lrPc s' = lrPc s \<and> wQueue (lrWal s') = wQueue (lrWal s) @ ms \<and> length ms = n"
  using assms
proof (induction n)
  case (Suc n)
  then obtain s1 ms where 1: "wstep\<^sup>*\<^sup>* s s1" "lrPc s1 = lrPc s" "wQueue (lrWal s1) = wQueue (lrWal s) @ ms" "length ms = n" by auto
  then have "length (wQueue (lrWal s1)) < queueCap" using Suc.prems by simp
  then obtain s2 e where "wstep\<^sup>*\<^sup>* s1 s2" "lrPc s2 = lrPc s1" "wQueue (lrWal s2) = wQueue (lrWal s1) @ [EntryMsg e]"
    using send_last by blast
  with 1 show ?case by (intro exI [of _ s2] exI [of _ "ms @ [EntryMsg e]"]) auto
qed auto

lemma jam_reachable: "\<exists>s p. wstep\<^sup>*\<^sup>* (start_run f) s \<and> lrPc s = FPutBack p \<and> p \<noteq> [] \<and> length (wQueue (lrWal s)) = queueCap"
proof -
  obtain s1 e where 1: "wstep\<^sup>*\<^sup>* (start_run f) s1" "lrPc s1 = FWaiting" "wQueue (lrWal s1) = [EntryMsg e]"
    using send_last [of "start_run f"] by (auto simp: start_run_def NewBatchingWAL_def queueCap_def)
  let ?s2 = "s1\<lparr>lrWal := (lrWal s1)\<lparr>wQueue := []\<rparr>, lrPc := FDraining [e]\<rparr>"
  let ?s3 = "?s2\<lparr>lrWal := send TruncateMsg (lrWal ?s2)\<rparr>"
  have 2: "wstep s1 ?s2" by (intro wstep_move) (simp add: flusher_move_def 1)
  have 3: "wstep ?s2 ?s3" by (intro wstep_truncate) (simp add: send_truncate_def queueCap_def)
  obtain s4 ms where 4: "wstep\<^sup>*\<^sup>* ?s3 s4" "lrPc s4 = FDraining [e]" "wQueue (lrWal s4) = TruncateMsg # ms" "length ms = 4095"
    using send_many [of ?s3 4095] by (auto simp: send_def queueCap_def)
  let ?s5 = "s4\<lparr>lrWal := (lrWal s4)\<lparr>wQueue := ms\<rparr>, lrPc := FPutBack [e]\<rparr>"
  have 5: "wstep s4 ?s5" by (intro wstep_move) (simp add: flusher_move_def 4)
  obtain s6 x where 6: "wstep\<^sup>*\<^sup>* ?s5 s6" "lrPc s6 = FPutBack [e]" "wQueue (lrWal s6) = ms @ [x]"
    using send_last [of ?s5] 4(4) by (auto simp: queueCap_def)
  have "wstep\<^sup>*\<^sup>* (start_run f) s6" using 1(1) 2 3 4(1) 5 6(1) by (meson converse_rtranclp_into_rtranclp rtranclp_trans)
  then show ?thesis using 6 4(4) by (auto simp: queueCap_def)
qed

section \<open>Properties\<close>

text \<open>C23: As long as the operating system reports no write error, records are answered in the order
  they were sent, and only once their frames are in the file: at every moment the records sent are those answered, then the batch of the flusher,
  then those in the queue, and the file has, behind what it had before or nothing, the frames of
  all records answered since the last truncation. A closed file has no flusher any more.\<close>

theorem acknowledged_durable:
  assumes "wstep\<^sup>*\<^sup>* (start_run f) s"
  shows "lrSent s = lrAcked s @ pending_of (lrPc s) @ queued_entries (wQueue (lrWal s)) \<and>
    (\<exists>b\<in>{f, []}. wFile (lrWal s) = b @ concat (map writeEntry (drop (lrCut s) (lrAcked s)))) \<and>
    length (wQueue (lrWal s)) \<le> queueCap \<and> (\<not> lrOpen s \<longrightarrow> lrPc s = FStopped)"
  using run_inv_reachable [OF assms] by (simp add: run_inv_def)

theorem acknowledged_durable_witness:
  "\<exists>s. wstep\<^sup>*\<^sup>* (start_run []) s \<and> lrSent s \<noteq> [] \<and> lrAcked s = lrSent s \<and> wFile (lrWal s) = concat (map writeEntry (lrSent s))"
proof -
  define c where "c = call_of (example_entry 1 1 0)"
  let ?s1 = "number_call c (start_run [])"
  have "length (lrCalls ?s1) = 1" by (simp add: start_run_def)
  then obtain e where e: "lrCalls ?s1 = [e]" by (metis One_nat_def length_0_conv length_Suc_conv)
  let ?s2 = "?s1\<lparr>lrWal := send (EntryMsg e) (lrWal ?s1), lrCalls := [], lrSent := [e]\<rparr>"
  let ?s3 = "?s2\<lparr>lrWal := (lrWal ?s2)\<lparr>wQueue := []\<rparr>, lrPc := FDraining [e]\<rparr>"
  let ?s4 = "?s3\<lparr>lrPc := FWriting [e]\<rparr>"
  let ?s5 = "?s4\<lparr>lrWal := (lrWal ?s4)\<lparr>wFile := writeEntry e\<rparr>, lrPc := FWaiting, lrAcked := [e]\<rparr>"
  have q: "wQueue (lrWal (start_run [])) = []" "wFile (lrWal (start_run [])) = []" "lrPc (start_run []) = FWaiting" "lrSent (start_run []) = []" "lrAcked (start_run []) = []" "lrCut (start_run []) = 0"
    by (simp_all add: start_run_def NewBatchingWAL_def)
  have "send_call 0 ?s1 = Some ?s2" by (simp add: send_call_def e q queueCap_def)
  moreover have "flusher_move ?s2 = Some ?s3" by (simp add: flusher_move_def send_def q)
  moreover have "flusher_move ?s3 = Some ?s4" by (simp add: flusher_move_def)
  moreover have "flusher_move ?s4 = Some ?s5" by (simp add: flusher_move_def q send_def)
  ultimately have r: "wstep\<^sup>*\<^sup>* (start_run []) ?s5"
    by (meson converse_rtranclp_into_rtranclp rtranclp.rtrancl_refl wstep_number wstep_send wstep_move)
  then show ?thesis using acknowledged_durable [OF r] by (intro exI [of _ ?s5]) (simp add: q send_def)
qed

text \<open>C24: Exactly when callers of \<open>Append\<close> get no answer. The flusher can always answer all records
  sent so far, unless it has stopped, which it may do with records in the queue once \<open>Close\<close> was
  called, or it is jammed: it holds a truncate request that it wants to put back into the queue,
  the queue is full, and no one else takes from it. From then on nothing is written or answered.\<close>

theorem log_answers_exact:
  assumes "wstep\<^sup>*\<^sup>* (start_run f) s"
  shows "((\<exists>s' ys. wstep\<^sup>*\<^sup>* s s' \<and> lrAcked s' = lrSent s @ ys) \<longleftrightarrow> \<not> dead_run s \<or> lrAcked s = lrSent s) \<and>
    (dead_run s \<longrightarrow> (\<forall>s'. wstep\<^sup>*\<^sup>* s s' \<longrightarrow> wFile (lrWal s') = wFile (lrWal s) \<and> lrAcked s' = lrAcked s))"
proof (cases "dead_run s")
  case True
  have "lrAcked s = lrSent s" if "wstep\<^sup>*\<^sup>* s s'" "lrAcked s' = lrSent s @ ys" for s' ys
    using dead_run_forever [OF that(1) True] that(2) run_inv_reachable [OF assms] by (auto simp: run_inv_def)
  moreover have "\<exists>s' ys. wstep\<^sup>*\<^sup>* s s' \<and> lrAcked s' = lrSent s @ ys" if "lrAcked s = lrSent s"
    using that by (metis append_Nil2 rtranclp.rtrancl_refl)
  ultimately show ?thesis using True dead_run_forever [OF _ True] by blast
next
  case False
  note I = run_inv_reachable [OF assms, unfolded run_inv_def]
  obtain s1 where 1: "wstep\<^sup>*\<^sup>* s s1" "lrPc s1 = FWaiting" "length (wQueue (lrWal s1)) \<le> queueCap" "lrSent s1 = lrSent s"
    using live_run_waits [OF False] I by blast
  obtain s2 where 2: "wstep\<^sup>*\<^sup>* s1 s2" "lrPc s2 = FWaiting" "wQueue (lrWal s2) = []" "lrSent s2 = lrSent s1"
    using waiting_run_drains [OF 1(2,3)] by blast
  have r: "wstep\<^sup>*\<^sup>* s s2" using 1(1) 2(1) by (rule rtranclp_trans)
  have "lrAcked s2 = lrSent s"
    using run_inv_reachable [OF rtranclp_trans [OF assms r]] 2 1(4) by (simp add: run_inv_def)
  then show ?thesis using False r by (metis append_Nil2)
qed

theorem log_answers_exact_witness:
  "\<exists>s. wstep\<^sup>*\<^sup>* (start_run []) s \<and> jammed s \<and> (\<nexists>s' ys. wstep\<^sup>*\<^sup>* s s' \<and> lrAcked s' = lrSent s @ ys)"
proof -
  obtain s p where s: "wstep\<^sup>*\<^sup>* (start_run []) s" "lrPc s = FPutBack p" "p \<noteq> []" "length (wQueue (lrWal s)) = queueCap"
    using jam_reachable by blast
  have "lrAcked s \<noteq> lrSent s" "jammed s" "dead_run s"
    using run_inv_reachable [OF s(1)] s by (simp_all add: run_inv_def jammed_def dead_run_def)
  with log_answers_exact [OF s(1)] s(1) show ?thesis by blast
qed

end
