(* ===== verification/TreeSplit.thy ===== *)
theory TreeSplit
  imports KVStore
begin

text \<open>
  The pessimistic path of \<open>Insert\<close> when the root is a full leaf, followed through the pool
  on the in-memory engine: two pages are allocated, the leaf is divided, a new root routes
  to the halves, and everything is released.
\<close>

section \<open>The engine between calls of the pool\<close>

definition engine :: "nat \<Rightarrow> PageID set \<Rightarrow> (bytes, lru) pool \<Rightarrow> bool" where
  "engine fuel M p \<longleftrightarrow> pool_inv mem_stored lru_inv pageMap M p \<and> tight pageMap p \<and> filed p \<and> PageSize dvd length (disk p) \<and>
     length (frames p) \<le> fuel \<and> (\<forall>j. 0 \<le> pins p j)"

abbreviation next_id :: "(bytes, lru) pool \<Rightarrow> PageID" where
  "next_id p \<equiv> fresh_id (length (disk p))"

lemma engineD:
  assumes "engine fuel M p"
  shows "pool_inv mem_stored lru_inv pageMap M p" "tight pageMap p" "filed p" "PageSize dvd length (disk p)"
    "length (frames p) \<le> fuel" "\<And>j. 0 \<le> pins p j" "pool_wf p"
  using assms by (simp_all add: engine_def pool_inv_def)

lemma engine_fetch:
  assumes e: "engine fuel M p" and i: "tree_id i" "within (length (disk p)) i"
    and few: "map_of (pageTable p) i = None \<Longrightarrow> card {j. 0 < pins p j} < length (frames p)"
  obtains idx p' where "FetchPage (mem_env fuel) i p = (Inr idx, p')" "engine fuel M p'" "map_of (pageTable p') i = Some idx"
    "pins p' = (pins p)(i := pins p i + 1)" "stable p p'" "agree (mview p) (mview p')"
    "length (disk p') = length (disk p)" "length (frames p') = length (frames p)"
    "\<forall>k. map_of (pageTable p) i = Some k \<longrightarrow> idx = k" "\<forall>j. is_dirty p' j \<longrightarrow> is_dirty p j"
proof -
  note E = engineD [OF e]
  have b: "unat i < 2 ^ 48" "isBTreeKVPage i" using i(1) by (simp_all add: tree_id_def)
  obtain idx p' where F: "FetchPage (mem_env fuel) i p = (Inr idx, p')"
    using FetchPage_succeeds [OF E(1,2) b few E(5)] by blast
  note C = mp.FetchPage_inv [OF E(1) b(1) E(6) F] and T = mp.FetchPage_tight [OF E(1,2) F]
    and S = Mem_FetchPage_size [OF E(1,3) i(2) F]
  have "\<forall>j. 0 \<le> pins p' j" using C E(6) by (simp add: add_nonneg_nonneg)
  then have "engine fuel M p'" using C T S E by (simp add: engine_def)
  moreover have "map_of (pageTable p) i = Some k \<Longrightarrow> idx = k" for k using F by (simp add: FetchPage_def)
  moreover have "agree (mview p) (mview p')" using C mp.transparent_agree by blast
  moreover have "\<forall>j. is_dirty p' j \<longrightarrow> is_dirty p j" using mp.FetchPage_dirty [OF E(1) F] by blast
  ultimately show thesis using F C T S by (intro that [of idx p']) simp_all
qed

lemma engine_set_page:
  assumes e: "engine fuel M p" and m: "map_of (pageTable p) i = Some idx" and pin: "0 < pins p i"
    and pg: "pgID pg = pgID (frames p ! idx)" "pgPin pg = pgPin (frames p ! idx)" "length (pgData pg) = PageSize"
  shows "engine fuel (insert i M) (set_page idx pg p)" "mview (set_page idx pg p) = (mview p)(i := pgData pg)"
    "pins (set_page idx pg p) = pins p" "length (frames (set_page idx pg p)) = length (frames p)"
    "pgDirty pg = pgDirty (frames p ! idx) \<Longrightarrow> is_dirty (set_page idx pg p) j = is_dirty p j"
proof -
  note E = engineD [OF e]
  have "pgID pg = i" using pool_wfD(2) [OF E(7) m] pg(1) by simp
  note S = mp.set_page_inv [OF E(1) m pin this pg(3,2)]
  show "engine fuel (insert i M) (set_page idx pg p)"
    using S E set_page_tight [OF E(2)] by (simp add: engine_def filed_def set_page_def)
  show "mview (set_page idx pg p) = (mview p)(i := pgData pg)" "pins (set_page idx pg p) = pins p" using S by simp_all
  show "is_dirty (set_page idx pg p) j = is_dirty p j" if "pgDirty pg = pgDirty (frames p ! idx)"
    using is_dirty_upd [OF E(7) m, of "\<lambda>_. pg" j] that m by (auto simp: set_page_def is_dirty_def)
qed (simp add: set_page_def)

lemma engine_unpin:
  assumes e: "engine fuel M p" and m: "map_of (pageTable p) i = Some idx" and pin: "0 < pins p i" and d: "isDirty \<or> i \<notin> M"
  shows "engine fuel (M - {i}) (UnpinPage i isDirty p)" "mview (UnpinPage i isDirty p) = mview p"
    "pins (UnpinPage i isDirty p) = (pins p)(i := pins p i - 1)" "pageTable (UnpinPage i isDirty p) = pageTable p"
    "disk (UnpinPage i isDirty p) = disk p" "pgID (frames (UnpinPage i isDirty p) ! k) = pgID (frames p ! k)"
    "length (frames (UnpinPage i isDirty p)) = length (frames p)"
proof -
  note E = engineD [OF e] and U = mp.UnpinPage_inv [OF engineD(1) [OF e] m d]
  show dk: "disk (UnpinPage i isDirty p) = disk p" using m by (simp add: UnpinPage_def)
  show "pgID (frames (UnpinPage i isDirty p) ! k) = pgID (frames p ! k)"
    using m pool_wfD(1) [OF E(7) m] by (simp add: UnpinPage_def frames_upd)
  show "mview (UnpinPage i isDirty p) = mview p" "pins (UnpinPage i isDirty p) = (pins p)(i := pins p i - 1)"
    "pageTable (UnpinPage i isDirty p) = pageTable p" using U by simp_all
  have "\<forall>j. 0 \<le> pins (UnpinPage i isDirty p) j" using U E(6) pin by simp
  moreover have "filed (UnpinPage i isDirty p)" using U E(3) dk by (simp add: filed_def)
  ultimately show "engine fuel (M - {i}) (UnpinPage i isDirty p)"
    using U E dk mp.UnpinPage_tight [OF E(2), of i isDirty] by (simp add: engine_def)
  show "length (frames (UnpinPage i isDirty p)) = length (frames p)" using mp.UnpinPage_tight [OF E(2), of i isDirty] by simp
qed

text \<open>On a file of at least 1000 pages the new page is a tree page outside the file.\<close>

lemma next_id_props:
  assumes "PageSize dvd length (disk p)" "1000 \<le> length (disk p) div PageSize" "length (disk p) div PageSize < 2 ^ 48"
  shows "tree_id (next_id p)" "unat (next_id p) * PageSize = length (disk p)" "\<not> within (length (disk p)) (next_id p)"
proof -
  have u: "unat (next_id p) = length (disk p) div PageSize" using assms(3) by (rule unat_fresh_id)
  then show "unat (next_id p) * PageSize = length (disk p)" using assms(1) by simp
  then show "\<not> within (length (disk p)) (next_id p)" by (simp add: within_def PageSize_def)
  have "unat (1000 :: PageID) \<le> unat (next_id p)" using u assms(2) by simp
  then have "(1000 :: PageID) \<le> next_id p" by (simp add: word_le_nat_alt)
  then show "tree_id (next_id p)" using u assms(3) by (simp add: tree_id_def isBTreeKVPage_def BTreeRootPageID_def)
qed

lemma engine_new:
  assumes e: "engine fuel M p" and big: "1000 \<le> length (disk p) div PageSize" "length (disk p) div PageSize + 1 < 2 ^ 48"
    and few: "card {j. 0 < pins p j} < length (frames p)" and hs: "\<forall>h\<in>set hs. \<not> is_dirty p h"
  obtains idx p' where "NewPage (holding (mem_env fuel) hs) p = (Inr idx, p')" "engine fuel (insert (next_id p) M) p'"
    "map_of (pageTable p') (next_id p) = Some idx" "pins p' = (pins p)(next_id p := 1)" "stable p p'"
    "mview p' (next_id p) = Init zero_page" "\<forall>j. tree_id j \<longrightarrow> j \<noteq> next_id p \<longrightarrow> mview p' j = mview p j"
    "length (disk p') = length (disk p) + PageSize" "length (frames p') = length (frames p)"
    "\<forall>j. is_dirty p' j \<longrightarrow> is_dirty p j \<and> j \<noteq> next_id p"
proof -
  let ?n = "next_id p"
  note E = engineD [OF e]
  have n: "tree_id ?n" "unat ?n * PageSize = length (disk p)" "\<not> within (length (disk p)) ?n"
    using next_id_props [OF E(4) big(1)] big(2) by simp_all
  have b: "unat ?n < 2 ^ 48" using n(1) by (simp add: tree_id_def)
  have none: "map_of (pageTable p) ?n = None" using n(3) filedD [OF E(3)] by (cases "map_of (pageTable p) ?n") auto
  obtain dsk where w: "WritePage mem_device ?n zero_page (disk p) = (None, dsk)"
    using Mem_WritePage_ok [OF b, of zero_page "disk p"] by (metis prod.collapse)
  have ld: "length dsk = length (disk p) + PageSize"
    using Mem_WritePage_length [OF b, of zero_page "disk p"] w n(2) by simp
  let ?q = "p\<lparr>disk := dsk\<rparr>"
  have dv: "length (disk p) div PageSize < 2 ^ 48" using big(2) by simp
  have X: "pool_inv mem_stored lru_inv pageMap M ?q"
    using mp.extend_view [OF E(1,4) dv, of fuel None dsk] w by simp
  have fq: "filed ?q" using E(3) ld by (auto simp: filed_def within_def)
  have pq: "pins ?q = pins p" by (simp add: pins_def fun_eq_iff split: option.split)
  have eq: "engine fuel M ?q" using X fq E pq ld by (simp add: engine_def tight_def)
  have wn: "within (length (disk ?q)) ?n" using n(2) ld b by (simp add: within_def)
  have fewq: "card {j. 0 < pins ?q j} < length (frames ?q)" using few pq by simp
  obtain idx q' where F: "FetchPage (mem_env fuel) ?n ?q = (Inr idx, q')" "engine fuel M q'"
      "length (disk q') = length (disk ?q)" "length (frames q') = length (frames ?q)" "map_of (pageTable q') ?n = Some idx"
      "\<forall>j. is_dirty q' j \<longrightarrow> is_dirty ?q j"
    by (rule engine_fetch [OF eq n(1) wn fewq])
  have "\<not> mp.stuck fuel hs ?n ?q" using hs by (intro mp.not_stuck [OF engineD(7) [OF eq]]) simp
  then have H: "FetchPage (holding (mem_env fuel) hs) ?n ?q = (Inr idx, q')" using F(1) by (simp add: mp.FetchPage_held)
  let ?p' = "upd_frame idx (\<lambda>pg. pg\<lparr>pgData := Init (pgData pg)\<rparr>) q'"
  have "Stat mem_device (disk p) = Inr (length (disk p))" by (simp add: mem_device_def Mem_Stat_def)
  then have run: "NewPage (mem_env fuel) p = (Inr idx, ?p')" and runH: "NewPage (holding (mem_env fuel) hs) p = (Inr idx, ?p')"
    using w F(1) H by (simp_all add: NewPage_def Let_def fresh_id_def)
  have dy: "\<forall>j. is_dirty ?p' j \<longrightarrow> is_dirty p j \<and> j \<noteq> ?n"
  proof (intro allI impI)
    fix j assume "is_dirty ?p' j"
    then have "is_dirty q' j" using is_dirty_upd [OF engineD(7) [OF F(2)] F(5)] F(5) by (auto simp: is_dirty_def split: if_splits)
    then show "is_dirty p j \<and> j \<noteq> ?n" using F(6) none by (auto simp: is_dirty_def)
  qed
  note N = mp.NewPage_inv [OF E(1) E(6) E(4) dv run]
  have z: "pins p ?n = 0" using none by (simp add: pins_def)
  have pn: "pins ?p' = (pins p)(?n := 1)" using N z by simp
  have en: "engine fuel (insert ?n M) ?p'"
    using N F(2,3,4) E(6) pn ld E(4) engineD [OF F(2)] by (simp add: engine_def tight_def filed_def)
  have other: "\<forall>j. tree_id j \<longrightarrow> j \<noteq> ?n \<longrightarrow> mview ?p' j = mview p j"
    using N by (simp add: tree_id_def same_page_def)
  have m: "map_of (pageTable ?p') ?n = Some idx" "stable p ?p'" "mview ?p' ?n = Init zero_page" using N none by blast+
  show thesis by (rule that [OF runH en m(1) pn m(2,3) other]) (use dy in \<open>simp_all add: F(3,4) ld\<close>)
qed

section \<open>A new root\<close>

lemma root_image_rep:
  assumes d: "length d = PageSize" and k: "BTreeHeaderSize + 10 + length k \<le> PageSize" and r: "unat r < 2 ^ 32"
  shows "node_rep [(k, l)] r (root_image l r k d)"
proof -
  obtain q where q: "BTreeInit d = replicate BTreeHeaderSize 0 @ q" "length q = PageSize - BTreeHeaderSize"
    by (rule BTreeInit_split [OF d])
  let ?h = "SetNumCells 1 (SetPageType PageTypeInternal (replicate BTreeHeaderSize 0))"
  let ?X = "take (10 + length k) q" and ?r = "drop (10 + length k) q"
  have h: "length ?h = BTreeHeaderSize" by simp
  have X: "length ?X = 10 + length k" using k q(2) by simp
  have len: "length (?h @ ?X @ ?r) = PageSize" using k q(2) h by (simp add: layout_defs)
  have d1: "SetNumCells 1 (SetPageType PageTypeInternal (BTreeInit d)) = ?h @ ?X @ ?r"
    unfolding q(1) by simp
  have t: "take (PageSize - (BTreeHeaderSize + 10)) k = k" using k by simp
  have u: "u32 (BTreeHeaderSize + 10 + length k) = BTreeHeaderSize + 10 + length k" using k by (simp add: PageSize_def)
  have "blit (wr_le 8 (wr_le 2 (?h @ ?X @ ?r) BTreeHeaderSize (length k)) (BTreeHeaderSize + 2) (unat l)) (BTreeHeaderSize + 10) k =
      ?h @ enc_sep (k, l) @ ?r"
    using put_sep [OF h X len, of l] unfolding u by (simp add: go_copy_def split: if_splits)
  then have img: "root_image l r k d = SetRightmostChildID r ?h @ enc_sep (k, l) @ ?r"
    unfolding root_image_def Let_def d1 t by (simp only: header_append(10) [OF h])
  show ?thesis
    by (rule node_repI [where h = "SetRightmostChildID r ?h" and r = ?r]) (use r len img k in \<open>simp_all add: layout_defs\<close>)
qed

lemma split_leaf_frame:
  "split_leaf p q = (p', q', k) \<Longrightarrow> pgID p' = pgID p \<and> pgPin p' = pgPin p \<and> pgID q' = pgID q \<and> pgPin q' = pgPin q \<and>
   pgDirty p' = pgDirty p \<and> pgDirty q' = pgDirty q"
  by (auto simp: split_leaf_def Let_def split: prod.splits)

text \<open>The contents of a root with two leaves.\<close>

lemma two_leaves:
  assumes rt: "tree_id rt" "node_rep [(mid, l)] r (V rt)" and l: "tree_id l" "leaf_data (V l)" and r: "tree_id r" "leaf_data (V r)"
    and lo: "\<forall>x\<in>fst ` set (data_cells (V l)). x < mid" and hi: "\<forall>x\<in>fst ` set (data_cells (V r)). mid \<le> x"
  shows "tree_ok (Suc 0) V rt" "tree_contents (Suc 0) V rt = map_of (data_cells (V l) @ data_cells (V r))"
proof -
  have c: "findChildInInternalNode (V rt) k = (if k < mid then l else r)" for k
    using findChild_route [OF rt(2), of k] by (simp add: route_def)
  have t: "PageType (V rt) = PageTypeInternal" using rt(2) by (simp add: node_rep_def)
  show "tree_ok (Suc 0) V rt" using rt l r c t by simp
  show "tree_contents (Suc 0) V rt = map_of (data_cells (V l) @ data_cells (V r))"
  proof
    fix k
    show "tree_contents (Suc 0) V rt k = map_of (data_cells (V l) @ data_cells (V r)) k"
    proof (cases "k < mid")
      case True
      then have "map_of (data_cells (V r)) k = None" using hi by (auto simp: map_of_eq_None_iff)
      with True l(2) c t show ?thesis by (simp add: tree_contents_def map_add_def split: option.split)
    next
      case False
      then have "map_of (data_cells (V l)) k = None" using lo by (auto simp: map_of_eq_None_iff)
      with False r(2) c t show ?thesis by (simp add: tree_contents_def map_add_def split: option.split)
    qed
  qed
qed

section \<open>Splitting a root leaf\<close>

lemma other_frame:
  "pool_wf p \<Longrightarrow> map_of (pageTable p) i = Some a \<Longrightarrow> map_of (pageTable p) j = Some b \<Longrightarrow> i \<noteq> j \<Longrightarrow> a \<noteq> b"
  using pool_wf_inj [of p i a j] by blast

lemma frames_set_page: "k < length (frames p) \<Longrightarrow> frames (set_page k pg p) ! i = (if i = k then pg else frames p ! i)"
  by (simp add: set_page_def frames_upd)

text \<open>The promotion to a new root, with the two halves pinned.\<close>

lemma promote_new_root:
  assumes e: "engine fuel M p" and t: "rootID t = l" and ids: "tree_id l" "tree_id r" "l \<noteq> r" "unat r < 2 ^ 32"
    and m: "map_of (pageTable p) l = Some kl" "map_of (pageTable p) r = Some kr" "pins p = (\<lambda>_. 0)(l := 1, r := 1)"
    and big: "1000 \<le> length (disk p) div PageSize" "length (disk p) div PageSize + 1 < 2 ^ 48" and fr: "3 \<le> length (frames p)"
    and mid: "BTreeHeaderSize + 10 + length mid \<le> PageSize" and clean: "\<not> is_dirty p l" "\<not> is_dirty p r"
  defines "n \<equiv> next_id p"
  obtains p' where "promoteToParent (mem_env fuel) [kr, kl] l r mid anc (t, p) = (None, t\<lparr>rootID := n\<rparr>, p')" "engine fuel (M - {n}) p'"
    "map_of (pageTable p') l = Some kl" "map_of (pageTable p') r = Some kr" "pins p' = pins p"
    "node_rep [(mid, l)] r (mview p' n)" "\<forall>j. tree_id j \<longrightarrow> j \<noteq> n \<longrightarrow> mview p' j = mview p j" "tree_id n" "n \<noteq> l" "n \<noteq> r"
    "length (frames p') = length (frames p)"
proof -
  note E = engineD [OF e]
  have "{j. 0 < pins p j} = {l, r}" using m(3) by auto
  then have few: "card {j. 0 < pins p j} < length (frames p)" using fr ids(3) by simp
  have hs: "frame_ids p [kr, kl] = [r, l]" "\<forall>h\<in>set [r, l]. \<not> is_dirty p h"
    using pool_wfD(2) [OF E(7)] m(1,2) clean by (simp_all add: frame_ids_def)
  obtain k p1 where N: "NewPage (holding (mem_env fuel) [r, l]) p = (Inr k, p1)" "engine fuel (insert n M) p1"
    "map_of (pageTable p1) n = Some k" "pins p1 = (pins p)(n := 1)" "stable p p1"
    "mview p1 n = Init zero_page" "\<forall>j. tree_id j \<longrightarrow> j \<noteq> n \<longrightarrow> mview p1 j = mview p j"
    "length (disk p1) = length (disk p) + PageSize" "length (frames p1) = length (frames p)"
    unfolding n_def by (rule engine_new [OF e big few hs(2)])
  have n: "tree_id n" "\<not> within (length (disk p)) n" using next_id_props [OF E(4) big(1)] big(2) by (simp_all add: n_def)
  have nlr: "n \<noteq> l" "n \<noteq> r" using filedD [OF E(3)] m(1,2) n(2) by auto
  have m1: "map_of (pageTable p1) l = Some kl" "map_of (pageTable p1) r = Some kr"
    using N(5) m ids(3) by (simp_all add: stable_def)
  note E1 = engineD [OF N(2)]
  have held: "k \<notin> set [kr, kl]" using other_frame [OF E1(7) N(3)] m1 nlr by auto
  have kl: "k < length (frames p1)" "pgID (frames p1 ! k) = n" "length (frame_data p1 k) = PageSize" using pool_wfD [OF E1(7) N(3)] by simp_all
  let ?pg = "frames p1 ! k"
  let ?pg' = "?pg\<lparr>pgData := root_image l r mid (pgData ?pg), pgVersion := pgVersion ?pg + 1\<rparr>"
  have rep: "node_rep [(mid, l)] r (pgData ?pg')" using root_image_rep [OF kl(3) mid ids(4), of l] by simp
  then have len: "length (pgData ?pg') = PageSize" by (simp add: node_rep_def)
  have pin: "0 < pins p1 n" using N(4) by simp
  have same: "pgID ?pg' = pgID ?pg" "pgPin ?pg' = pgPin ?pg" by simp_all
  note S = engine_set_page [OF N(2,3) pin same len]
  let ?p2 = "set_page k ?pg' p1"
  have m2: "map_of (pageTable ?p2) n = Some k" "0 < pins ?p2 n" using N(3) S(3) pin by simp_all
  note U = engine_unpin [OF S(1) m2, of True]
  let ?p' = "UnpinPage n True ?p2"
  have run: "promoteToParent (mem_env fuel) [kr, kl] l r mid anc (t, p) = (None, t\<lparr>rootID := n\<rparr>, ?p')"
    using t N(1) held kl(2) by (simp add: promoteToParent.simps Let_def hs(1))
  have pn: "pins ?p' = pins p" using U(3) S(3) N(4) m(3) nlr by (auto simp: fun_eq_iff)
  have en: "engine fuel (M - {n}) ?p'" using U(1) by simp
  show thesis
  proof (rule that [OF run en])
    show "\<forall>j. tree_id j \<longrightarrow> j \<noteq> n \<longrightarrow> mview ?p' j = mview p j" using U(2) S(2) N(7) by simp
    show "node_rep [(mid, l)] r (mview ?p' n)" using U(2) S(2) rep by simp
    show "length (frames ?p') = length (frames p)" using U(7) S(4) N(9) by simp
  qed (use m1 U(4) pn n nlr in simp_all)
qed

text \<open>The cells of the root leaf are divided over two leaves and a new root routes to them; every
  lookup goes on as before.\<close>

lemma SplitLeaf_root:
  assumes e: "engine fuel {r} p" and t: "rootID t = r" and ids: "tree_id r"
    and m: "map_of (pageTable p) r = Some k" "pins p = (\<lambda>_. 0)(r := 1)"
    and lf: "leaf_data (mview p r)" "data_cells (mview p r) \<noteq> []"
      "\<forall>x\<in>fst ` set (data_cells (mview p r)). BTreeHeaderSize + 10 + length x \<le> PageSize"
    and big: "1000 \<le> length (disk p) div PageSize" "length (disk p) div PageSize + 1 < 2 ^ 32" and fr: "3 \<le> length (frames p)" and clean: "\<not> is_dirty p r"
  obtains t' p' where "SplitLeaf (mem_env fuel) [k] k [k] (t, p) = (None, t', p')" "engine fuel {r} p'"
    "map_of (pageTable p') r = Some k" "pins p' = pins p" "tree_ok (Suc 0) (mview p') (rootID t')" "rootID t' \<noteq> r"
    "tree_contents (Suc 0) (mview p') (rootID t') = map_of (data_cells (mview p r))" "length (frames p') = length (frames p)"
proof -
  define n where "n = next_id p"
  note E = engineD [OF e]
  have "{j. 0 < pins p j} = {r}" using m(2) by auto
  then have few: "card {j. 0 < pins p j} < length (frames p)" using fr by simp
  have b48: "length (disk p) div PageSize + 1 < 2 ^ 48" using big(2) by simp
  have hs: "frame_ids p [k] = [r]" "\<forall>h\<in>set [r]. \<not> is_dirty p h" using pool_wfD(2) [OF E(7) m(1)] clean by (simp_all add: frame_ids_def)
  obtain k1 p1 where N: "NewPage (holding (mem_env fuel) [r]) p = (Inr k1, p1)" "engine fuel (insert n {r}) p1"
    "map_of (pageTable p1) n = Some k1" "pins p1 = (pins p)(n := 1)" "stable p p1"
    "mview p1 n = Init zero_page" "\<forall>j. tree_id j \<longrightarrow> j \<noteq> n \<longrightarrow> mview p1 j = mview p j"
    "length (disk p1) = length (disk p) + PageSize" "length (frames p1) = length (frames p)" "\<forall>j. is_dirty p1 j \<longrightarrow> is_dirty p j \<and> j \<noteq> n"
    unfolding n_def by (rule engine_new [OF e big(1) b48 few hs(2)])
  have n: "tree_id n" "\<not> within (length (disk p)) n" using next_id_props [OF E(4) big(1)] b48 by (simp_all add: n_def)
  have n32: "unat n < 2 ^ 32" using big(2) b48 by (simp add: n_def unat_fresh_id)
  have nr: "n \<noteq> r" using filedD [OF E(3) m(1)] n(2) by auto
  note E1 = engineD [OF N(2)]
  have m1: "map_of (pageTable p1) r = Some k" using N(5) m by (simp add: stable_def)
  have k1k: "k1 \<noteq> k" using other_frame [OF E1(7) N(3) m1 nr] .
  note wf = pool_wfD [OF E1(7) m1] pool_wfD [OF E1(7) N(3)]
  have dr: "frame_data p1 k = mview p r" using mp.view_frame [OF m1] N(7) ids nr by simp
  obtain node new mid where sp: "split_leaf (frames p1 ! k) (frames p1 ! k1) = (node, new, mid)" using prod_cases3 by blast
  have lin: "leaf_inv (frames p1 ! k)" "leaf_cells (frames p1 ! k) = data_cells (mview p r)"
    using lf(1) dr by (simp_all add: leaf_data_page)
  have len1: "length (pgData (frames p1 ! k1)) = PageSize" using pool_wfD(4) [OF E1(7) N(3)] .
  obtain bound: "BTreeHeaderSize + 10 + length mid \<le> PageSize"
    and half: "leaf_data (pgData node)" "leaf_data (pgData new)" "data_cells (pgData node) @ data_cells (pgData new) = data_cells (mview p r)"
      "\<forall>x\<in>fst ` set (data_cells (pgData node)). x < mid" "\<forall>x\<in>fst ` set (data_cells (pgData new)). mid \<le> x"
    using split_leaf_halves [OF lin(1) _ len1 sp] lf(2,3) lin(2) by (auto simp: leaf_data_page)
  note fm = split_leaf_frame [OF sp]
  have pin: "0 < pins p1 r" using N(4) m(2) nr by simp
  note S1 = engine_set_page [OF N(2) m1 pin conjunct1 [OF fm] conjunct1 [OF conjunct2 [OF fm]] leaf_dataD(2) [OF half(1)]]
  let ?q = "set_page k node p1"
  have q: "map_of (pageTable ?q) n = Some k1" "0 < pins ?q n" "frames ?q ! k1 = frames p1 ! k1"
    using N(3,4) S1(3) k1k wf(1) by (simp_all add: frames_set_page)
  have fn: "pgID new = pgID (frames ?q ! k1)" "pgPin new = pgPin (frames ?q ! k1)" "pgDirty new = pgDirty (frames ?q ! k1)" using fm q(3) by simp_all
  note S2 = engine_set_page [OF S1(1) q(1,2) fn(1,2) leaf_dataD(2) [OF half(2)]]
  let ?p2 = "set_page k1 new ?q"
  have v2: "mview ?p2 r = pgData node" "mview ?p2 n = pgData new" using S1(2) S2(2) nr by simp_all
  have m2: "map_of (pageTable ?p2) r = Some k" "map_of (pageTable ?p2) n = Some k1" "pins ?p2 = (\<lambda>_. 0)(r := 1, n := 1)"
    using m1 N(3,4) S1(3) S2(3) m(2) by simp_all
  have c2: "\<not> is_dirty ?p2 r" "\<not> is_dirty ?p2 n" using S1(5) S2(5) fm fn(3) N(10) clean by auto
  have d2: "length (disk ?p2) div PageSize = length (disk p) div PageSize + 1" using N(8) by (simp add: PageSize_def)
  have big2: "1000 \<le> length (disk ?p2) div PageSize" "length (disk ?p2) div PageSize + 1 < 2 ^ 48" "3 \<le> length (frames ?p2)"
    using d2 big fr S1(4) S2(4) N(9) by simp_all
  obtain p3 where P: "promoteToParent (mem_env fuel) [k1, k] r n mid [k] (t, ?p2) = (None, t\<lparr>rootID := next_id ?p2\<rparr>, p3)"
    "engine fuel (insert n (insert r (insert n {r})) - {next_id ?p2}) p3"
    "map_of (pageTable p3) r = Some k" "map_of (pageTable p3) n = Some k1" "pins p3 = pins ?p2"
    "node_rep [(mid, r)] n (mview p3 (next_id ?p2))" "\<forall>j. tree_id j \<longrightarrow> j \<noteq> next_id ?p2 \<longrightarrow> mview p3 j = mview ?p2 j"
    "tree_id (next_id ?p2)" "next_id ?p2 \<noteq> r" "next_id ?p2 \<noteq> n" "length (frames p3) = length (frames ?p2)"
    by (rule promote_new_root [OF S2(1) t ids n(1) nr [symmetric] n32 m2 big2 bound c2])
  let ?n2 = "next_id ?p2" let ?p' = "UnpinPage n True p3"
  have M: "insert n (insert r (insert n {r})) - {?n2} = {r, n}" using P(9,10) by auto
  have pn: "0 < pins p3 n" using P(5) m2(3) by simp
  note U = engine_unpin [OF P(2)[unfolded M] P(4) pn, of True]
  have "{r, n} - {n} = {r}" using nr by auto
  with U(1) have en: "engine fuel {r} ?p'" by simp
  have idn: "pgID (frames p1 ! k1) = n" "pgID node = r" using pool_wfD(2) [OF E1(7) N(3)] pool_wfD(2) [OF E1(7) m1] fm by simp_all
  have run: "SplitLeaf (mem_env fuel) [k] k [k] (t, p) = (None, t\<lparr>rootID := ?n2\<rparr>, ?p')"
    using N(1) k1k sp P(1) idn by (simp add: SplitLeaf_def Let_def hs(1) stops_def)
  have vw: "mview ?p' r = pgData node" "mview ?p' n = pgData new" "node_rep [(mid, r)] n (mview ?p' ?n2)"
    using U(2) P(6,7,9,10) v2 ids n(1) by auto
  have ld: "leaf_data (mview ?p' r)" "leaf_data (mview ?p' n)" using half(1,2) vw by simp_all
  note T = two_leaves [where V = "mview ?p'", OF P(8) vw(3) ids ld(1) n(1) ld(2)]
  show thesis
  proof (rule that [OF run en])
    show "tree_ok (Suc 0) (mview ?p') (rootID (t\<lparr>rootID := ?n2\<rparr>))" using T(1) half(4,5) vw by simp
    show "tree_contents (Suc 0) (mview ?p') (rootID (t\<lparr>rootID := ?n2\<rparr>)) = map_of (data_cells (mview p r))"
      using T(2) half(3,4,5) vw by simp
    show "pins ?p' = pins p" using U(3) P(5) m2(3) m(2) nr by (auto simp: fun_eq_iff)
  qed (use U(4,7) P(3,9,11) S1(4) S2(4) N(9) in simp_all)
qed

section \<open>Inserting into a full root leaf\<close>

text \<open>The leaf is full even without the old cell of the key.\<close>

definition leaf_full :: "bytes \<Rightarrow> bytes \<Rightarrow> bytes \<Rightarrow> bool" where
  "leaf_full d key val \<longleftrightarrow>
     PageSize \<le> BTreeHeaderSize + length (enc_cells (filter (\<lambda>c. fst c \<noteq> key) (data_cells d))) + (4 + length key + length val)"

lemma find_leaf_at_leaf:
  "leaf_data (frame_data p idx) \<Longrightarrow> find_leaf_loop E n key i idx p = (Inr (i, idx), p)"
  by (simp add: find_leaf_loop.simps)

lemma lock_path_at_leaf:
  "leaf_data (frame_data p idx) \<Longrightarrow> lock_path E n key req idx anc p = (Inr (idx, anc), p)"
  by (simp add: lock_path.simps)

lemma pessimistic_full_root:
  assumes e: "engine fuel {} p" and idle: "\<forall>j. pins p j = 0" and ids: "tree_id (rootID t)" "within (length (disk p)) (rootID t)"
    and lf: "leaf_data (mview p (rootID t))" "leaf_full (mview p (rootID t)) key val" "4 + length key + length val < 2 ^ 31"
      "filter (\<lambda>c. fst c \<noteq> key) (data_cells (mview p (rootID t))) \<noteq> []"
      "\<forall>x\<in>fst ` set (data_cells (mview p (rootID t))). BTreeHeaderSize + 10 + length x \<le> PageSize"
    and big: "1000 \<le> length (disk p) div PageSize" "length (disk p) div PageSize + 1 < 2 ^ 32" and fr: "3 \<le> length (frames p)" and clean: "\<not> is_dirty p (rootID t)"
  obtains t' p' where "pessimisticInsert (mem_env fuel) n key val (t, p) = (None, t', p')" "engine fuel {} p'" "\<forall>j. pins p' j = 0"
    "tree_ok (Suc 0) (mview p') (rootID t')" "rootID t' \<noteq> rootID t"
    "tree_contents (Suc 0) (mview p') (rootID t') = (map_of (data_cells (mview p (rootID t))))(key := None)"
    "length (frames p') = length (frames p)"
proof -
  define r where "r = rootID t"
  note ids = ids [folded r_def] and lf = lf [folded r_def] and clean = clean [folded r_def]
  have p0: "pins p = (\<lambda>_. 0)" using idle by auto
  have few: "card {j. 0 < pins p j} < length (frames p)" using p0 fr by auto
  let ?cs = "data_cells (mview p r)" let ?cs' = "filter (\<lambda>c. fst c \<noteq> key) ?cs"
  have rep: "leaf_rep ?cs (mview p r)" using lf(1) by (simp add: leaf_data_def)
  obtain k3 p3 where G: "FetchPage (mem_env fuel) r p = (Inr k3, p3)" "engine fuel {} p3" "map_of (pageTable p3) r = Some k3"
    "pins p3 = (pins p)(r := pins p r + 1)" "stable p p3" "agree (mview p) (mview p3)"
    "length (disk p3) = length (disk p)" "length (frames p3) = length (frames p)"
    "\<forall>k'. map_of (pageTable p) r = Some k' \<longrightarrow> k3 = k'" "\<forall>j. is_dirty p3 j \<longrightarrow> is_dirty p j"
    by (rule engine_fetch [OF e ids few])
  have d3: "frame_data p3 k3 = mview p r" using mp.view_frame [OF G(3)] agreeD [OF G(6) ids(1)] by simp
  have pin3: "0 < pins p3 r" "pins p3 = (\<lambda>_. 0)(r := 1)" using G(4) p0 by simp_all
  have rep3: "leaf_rep ?cs (pgData (frames p3 ! k3))" using rep d3 by simp
  obtain pg where I: "insertIntoLeaf (frames p3 ! k3) key val = (Some ErrPageFull, pg)" and repg: "leaf_rep ?cs' (pgData pg)"
    and sf: "same_frame (frames p3 ! k3) pg" "pgDirty pg = pgDirty (frames p3 ! k3)"
    using insertIntoLeaf_full [OF rep3 lf(3)] lf(2) unfolding leaf_full_def by blast
  have cg: "data_cells (pgData pg) = ?cs'" using leaf_rep_cells [OF repg] by (simp add: leaf_data_page)
  have srt: "sorted_cells ?cs" using lf(1) by (simp add: leaf_data_def)
  have lg: "leaf_data (pgData pg)" using repg cg sorted_cells_filter [OF srt, of "\<lambda>c. fst c \<noteq> key"] by (simp add: leaf_data_def)
  have same: "pgID pg = pgID (frames p3 ! k3)" "pgPin pg = pgPin (frames p3 ! k3)" using sf by (simp_all add: same_frame_def)
  note S = engine_set_page [OF G(2,3) pin3(1) same leaf_dataD(2) [OF lg]]
  let ?p4 = "set_page k3 pg p3"
  have v4: "mview ?p4 r = pgData pg" using S(2) by simp
  have c4: "\<not> is_dirty ?p4 r" using S(5) [OF sf(2), of r] G(10) clean by blast
  have big4: "1000 \<le> length (disk ?p4) div PageSize" "length (disk ?p4) div PageSize + 1 < 2 ^ 32" "3 \<le> length (frames ?p4)"
    using big fr S(4) G(7,8) by simp_all
  have m4: "map_of (pageTable ?p4) r = Some k3" "pins ?p4 = (\<lambda>_. 0)(r := 1)" using G(3) S(3) pin3(2) by simp_all
  have keys: "\<forall>x\<in>fst ` set (data_cells (mview ?p4 r)). BTreeHeaderSize + 10 + length x \<le> PageSize"
    "data_cells (mview ?p4 r) \<noteq> []" using lf(4,5) v4 cg by auto
  obtain t' p5 where P: "SplitLeaf (mem_env fuel) [k3] k3 [k3] (t, ?p4) = (None, t', p5)" "engine fuel {r} p5"
    "map_of (pageTable p5) r = Some k3" "pins p5 = pins ?p4" "tree_ok (Suc 0) (mview p5) (rootID t')" "rootID t' \<noteq> r"
    "tree_contents (Suc 0) (mview p5) (rootID t') = map_of (data_cells (mview ?p4 r))" "length (frames p5) = length (frames ?p4)"
    by (rule SplitLeaf_root [OF S(1) r_def [symmetric] ids(1) m4 lg [folded v4] keys(2,1) big4 c4])
  have pin5: "0 < pins p5 r" using P(4) m4(2) by simp
  have dirty: "True \<or> r \<notin> {r}" by simp
  note W = engine_unpin [OF P(2,3) pin5 dirty]
  let ?p' = "UnpinPage r True p5"
  have idr: "pgID (frames p5 ! k3) = r" using pool_wfD(2) [OF engineD(7) [OF P(2)] P(3)] .
  have run: "pessimisticInsert (mem_env fuel) n key val (t, p) = (None, t', ?p')"
    using G(1) I P(1) lf(1) d3 idr
    by (simp add: pessimisticInsert_def stops_def r_def [symmetric] lock_path_at_leaf releaseAncestors_def del: One_nat_def)
  show thesis
  proof (rule that [OF run])
    show "engine fuel {} ?p'" using W(1) by simp
    show "\<forall>j. pins ?p' j = 0" using W(3) P(4) m4(2) by simp
    show "tree_contents (Suc 0) (mview ?p') (rootID t') = (map_of (data_cells (mview p (rootID t))))(key := None)"
      using W(2) P(7) v4 cg by (simp add: map_of_filter_other r_def)
    show "length (frames ?p') = length (frames p)" using W(7) P(8) S(4) G(8) by simp
  qed (use W(2) P(5,6) in \<open>simp_all add: r_def\<close>)
qed

text \<open>The optimistic descent finds the leaf full and hands over.\<close>

lemma Insert_full_root:
  assumes e: "engine fuel {} p" and idle: "\<forall>j. pins p j = 0" and ids: "tree_id (rootID t)" "within (length (disk p)) (rootID t)"
    and lf: "leaf_data (mview p (rootID t))" "leaf_full (mview p (rootID t)) key val" "4 + length key + length val < 2 ^ 31"
      "filter (\<lambda>c. fst c \<noteq> key) (data_cells (mview p (rootID t))) \<noteq> []"
      "\<forall>x\<in>fst ` set (data_cells (mview p (rootID t))). BTreeHeaderSize + 10 + length x \<le> PageSize"
    and big: "1000 \<le> length (disk p) div PageSize" "length (disk p) div PageSize + 1 < 2 ^ 32" and fr: "3 \<le> length (frames p)" and clean: "\<not> is_dirty p (rootID t)"
  obtains t' p' where "Insert (mem_env fuel) n others key val (t, p) = (None, t', p')" "engine fuel {} p'" "\<forall>j. pins p' j = 0"
    "tree_ok (Suc 0) (mview p') (rootID t')" "rootID t' \<noteq> rootID t"
    "tree_contents (Suc 0) (mview p') (rootID t') = (map_of (data_cells (mview p (rootID t))))(key := None)"
    "length (frames p') = length (frames p)"
proof -
  define r where "r = rootID t"
  note ids' = ids [folded r_def] and lf' = lf [folded r_def]
  have p0: "pins p = (\<lambda>_. 0)" using idle by auto
  have few: "card {j. 0 < pins p j} < length (frames p)" using p0 fr by auto
  obtain k p1 where F: "FetchPage (mem_env fuel) r p = (Inr k, p1)" "engine fuel {} p1" "map_of (pageTable p1) r = Some k"
    "pins p1 = (pins p)(r := pins p r + 1)" "stable p p1" "agree (mview p) (mview p1)"
    "length (disk p1) = length (disk p)" "length (frames p1) = length (frames p)" "\<forall>k'. map_of (pageTable p) r = Some k' \<longrightarrow> k = k'"
    "\<forall>j. is_dirty p1 j \<longrightarrow> is_dirty p j"
    by (rule engine_fetch [OF e ids' few])
  have d1: "frame_data p1 k = mview p r" using mp.view_frame [OF F(3)] agreeD [OF F(6) ids'(1)] by simp
  have pin1: "0 < pins p1 r" using F(4) p0 by simp
  let ?req = "4 + length key + length val" let ?cs = "data_cells (mview p r)"
  have u: "u32 ?req = ?req" using lf'(3) by simp
  have rep: "leaf_rep ?cs (mview p r)" using lf'(1) by (simp add: leaf_data_def)
  have unsafe: "\<not> BTree_IsSafeForInsert ?req (mview p r)"
    using safe_leaf [OF rep lf'(3)] lf'(2) enc_cells_filter_le [of "\<lambda>c. fst c \<noteq> key" ?cs] by (simp add: leaf_full_def)
  have find: "FindLeaf (mem_env fuel) n t key p = (Inr (r, k), p1)"
    using F(1) lf'(1) d1 by (simp add: FindLeaf_def r_def find_leaf_at_leaf)
  let ?p2 = "UnpinPage r False p1"
  have nM: "False \<or> r \<notin> {}" by simp
  note U = engine_unpin [OF F(2,3) pin1 nM]
  have e2: "engine fuel {} ?p2" using U(1) by simp
  have pins2: "\<forall>j. pins ?p2 j = 0" using U(3) F(4) p0 by simp
  have v2: "mview ?p2 r = mview p r" using U(2) agreeD [OF F(6) ids'(1)] by simp
  have c2: "\<not> is_dirty ?p2 r" using is_dirty_unpin [OF engineD(7) [OF F(2)] F(3), of False r] F(10) clean unfolding r_def by metis
  have sz: "length (disk ?p2) = length (disk p)" "length (frames ?p2) = length (frames p)" using U(5,7) F(7,8) by simp_all
  have run: "Insert (mem_env fuel) n others key val (t, p) = pessimisticInsert (mem_env fuel) n key val (t, ?p2)"
    using find unsafe d1 by (simp add: Insert_def u)
  obtain t' p' where P: "pessimisticInsert (mem_env fuel) n key val (t, ?p2) = (None, t', p')" "engine fuel {} p'" "\<forall>j. pins p' j = 0"
    "tree_ok (Suc 0) (mview p') (rootID t')" "rootID t' \<noteq> rootID t"
    "tree_contents (Suc 0) (mview p') (rootID t') = (map_of (data_cells (mview ?p2 (rootID t))))(key := None)"
    "length (frames p') = length (frames ?p2)"
    by (rule pessimistic_full_root [OF e2 pins2, of t key val]) (use ids lf big fr sz v2 c2 in \<open>simp_all add: r_def\<close>)
  show thesis
    by (rule that [OF run [unfolded P(1)] P(2,3,4,5)]) (use P(6,7) v2 sz in \<open>simp_all add: r_def\<close>)
qed

section \<open>Property\<close>

text \<open>C37: on the in-memory engine with three frames, none of them pinned, an insertion into a full tree
  of one leaf whose page is not dirty returns no error, and the key is not stored.
  The leaf is split correctly: the tree has a new root above two leaves, nothing is left
  pinned, and every other key is found as before; but the pair that was to be inserted is in
  neither half, and the value the key had before is gone too.\<close>

theorem insert_full_root_loses_key:
  assumes "engine fuel {} p" and "\<forall>j. pins p j = 0" and "tree_id (rootID t)" and "within (length (disk p)) (rootID t)"
    and "leaf_data (mview p (rootID t))" and "leaf_full (mview p (rootID t)) key val" and "4 + length key + length val < 2 ^ 31"
    and "filter (\<lambda>c. fst c \<noteq> key) (data_cells (mview p (rootID t))) \<noteq> []"
    and "\<forall>x\<in>fst ` set (data_cells (mview p (rootID t))). BTreeHeaderSize + 10 + length x \<le> PageSize"
    and "1000 \<le> length (disk p) div PageSize" and "length (disk p) div PageSize + 1 < 2 ^ 32" and "3 \<le> length (frames p)"
    and "\<not> is_dirty p (rootID t)"
  shows "\<exists>t' p'. Insert (mem_env fuel) n others key val (t, p) = (None, t', p') \<and>
    engine fuel {} p' \<and> (\<forall>j. pins p' j = 0) \<and> rootID t' \<noteq> rootID t \<and> tree_ok 1 (mview p') (rootID t') \<and>
    tree_contents 1 (mview p') (rootID t') = (tree_contents n (mview p) (rootID t))(key := None)"
proof -
  have "tree_contents n (mview p) (rootID t) = map_of (data_cells (mview p (rootID t)))"
    using assms(5) by (cases n) (simp_all add: tree_contents_def fun_eq_iff)
  then show ?thesis
    using Insert_full_root [OF assms, of n others] unfolding One_nat_def by metis
qed

theorem insert_full_root_loses_key_witness:
  "\<exists>t' p'. Insert (mem_env 8) 4 (\<lambda>s. s) [2] (replicate 1000 0) (\<lparr>rootID = 1002\<rparr>, one_leaf 3 [([1], replicate 32000 0)]) = (None, t', p') \<and>
     tree_contents 1 (mview p') (rootID t') = [[1] \<mapsto> replicate 32000 0]"
proof -
  let ?cs = "[([1], replicate 32000 0)] :: (bytes \<times> bytes) list" let ?p = "one_leaf 3 ?cs" let ?t = "\<lparr>rootID = 1002\<rparr>"
  have c: "BTreeHeaderSize + length (enc_cells ?cs) \<le> PageSize" "sorted_cells ?cs" by (simp_all add: layout_defs)
  have n: "2 \<le> (3 :: nat)" "3 \<le> (8 :: nat)" by simp_all
  note P = one_leaf_props [OF c, where n = 3] and R = one_leaf_ready [OF c n]
  have e: "engine 8 {} ?p" using P by (simp add: engine_def)
  have ne: "[1] \<noteq> ([2] :: bytes)" by simp
  have full: "leaf_full (mview ?p 1002) [2] (replicate 1000 0)" using P(2) by (simp add: leaf_full_def layout_defs)
  have w: "within (length (disk ?p)) 1002" using P(7) by (simp add: within_def PageSize_def)
  have "\<exists>t' p'. Insert (mem_env 8) 4 (\<lambda>s. s) [2] (replicate 1000 0) (?t, ?p) = (None, t', p') \<and>
    engine 8 {} p' \<and> (\<forall>j. pins p' j = 0) \<and> rootID t' \<noteq> rootID ?t \<and> tree_ok 1 (mview p') (rootID t') \<and>
    tree_contents 1 (mview p') (rootID t') = (tree_contents 4 (mview ?p) (rootID ?t))([2] := None)"
    by (rule insert_full_root_loses_key)
      (use e P w full tree_id_1002 in \<open>simp_all add: layout_defs one_leaf_def NewBufferPool_def is_dirty_def\<close>)
  then show ?thesis using R(3) [of 4] by auto
qed

section \<open>A descent that waits for itself\<close>

lemma hit_pressed:
  "pressed (pin_frame k (p\<lparr>metrics := m, evictor := ev\<rparr>)) = pressed p"
  using dirty_pin_frames [of "[k]" "p\<lparr>metrics := m, evictor := ev\<rparr>"] by (simp add: pressed_def pin_frame_def)

text \<open>C38: a store can stop for ever on its own latch. When the cached root is an internal node that
  is dirty, at least 80 per cent of the frames are dirty and the child a key is routed to is
  not cached, \<open>Get\<close>, \<open>Put\<close> and \<open>Delete\<close> of the key do not return, on any device and with
  any eviction policy: the descent holds the root's read latch while it fetches the child, the
  fetch finds the pool under pressure and calls \<open>FlushAll\<close>, and that asks for the write latch
  of the root.\<close>

theorem descent_blocks:
  assumes B: "buffer_pool E stored dsize einv tracked" and inv: "pool_inv stored einv tracked M p"
    and root: "map_of (pageTable p) (rootID t) = Some k" "PageType (frame_data p k) = PageTypeInternal" "pgDirty (frames p ! k)"
    and full: "4 * length (frames p) \<le> 5 * length (filter (\<lambda>idx. pgDirty (frames p ! idx)) (map snd (pageTable p)))"
    and child: "map_of (pageTable p) (findChildInInternalNode (frame_data p k) key) = None"
  shows "fst (KV_Get E (Suc n) key (t, p)) = Inl Blocked \<and> fst (KV_Put E (Suc n) others key val (t, p)) = Some Blocked \<and>
    fst (KV_Delete E (Suc n) others key (t, p)) = Some Blocked"
proof -
  have wf: "pool_wf p" using inv by (simp add: pool_inv_def)
  let ?r = "rootID t" let ?c = "findChildInInternalNode (frame_data p k) key"
  let ?p = "pin_frame k (p\<lparr>metrics := map_option IncrBufferPoolHit (metrics p), evictor := RecordAccess (pol E) ?r (evictor p)\<rparr>)"
  have F: "FetchPage E ?r p = (Inr k, ?p)" using root(1) by (simp add: FetchPage_def)
  have k: "k < length (frames p)" using pool_wfD(1) [OF wf root(1)] .
  have "pressed p" using full k by (auto simp: pressed_def)
  then have pr: "pressed ?p" by (simp add: hit_pressed)
  have "pool_inv stored einv tracked M ?p" using buffer_pool.FetchPage_hit [OF B inv root(1) F] by blast
  then have wf': "pool_wf ?p" by (simp add: pool_inv_def)
  have "is_dirty ?p ?r" using root(1,3) by (simp add: is_dirty_pin) (simp add: is_dirty_def)
  then have "buffer_pool.stuck E [?r] ?c ?p"
    using pr child buffer_pool.flush_waits_iff [OF B wf', of "[?r]"] unfolding buffer_pool.stuck_def [OF B] by (simp add: pin_frame_def)
  from buffer_pool.FetchPage_held(2) [OF B this] obtain q where q: "FetchPage (holding E [?r]) ?c ?p = (Inl Blocked, q)"
    by (metis prod.collapse)
  have "frame_data ?p k = frame_data p k" using k by (simp add: pin_frame_def frames_upd)
  then have "FindLeaf E (Suc n) t key p = (Inl Blocked, q)"
    using F q root(2) by (simp add: FindLeaf_def find_leaf_loop.simps stops_def)
  then show ?thesis by (simp add: KV_Get_def KV_Put_def KV_Delete_def Insert_def)
qed

text \<open>A pool of two frames, both dirty: a root above the pages 1003 and 1004, and page 5.\<close>

definition dirty_root :: "(bytes, lru) pool" where
  "dirty_root = \<lparr>disk = [],
     frames = [\<lparr>pgID = 1002, pgData = root_image 1003 1004 [7] zero_page, pgPin = 0, pgDirty = True, pgVersion = 0\<rparr>,
               \<lparr>pgID = 5, pgData = zero_page, pgPin = 0, pgDirty = True, pgVersion = 0\<rparr>],
     pageTable = [(1002, 0), (5, 1)], evictor = \<lparr>lruList = [1002, 5], pageMap = {1002, 5}\<rparr>, freeList = [], metrics = None\<rparr>"

theorem descent_blocks_witness:
  "fst (KV_Get (mem_env 8) 4 [9] (\<lparr>rootID = 1002\<rparr>, dirty_root)) = Inl Blocked"
proof -
  have rep: "node_rep [([7], 1003)] 1004 (root_image 1003 1004 [7] zero_page)"
    by (rule root_image_rep) (simp_all add: layout_defs)
  then have img: "length (root_image 1003 1004 [7] zero_page) = PageSize" "PageType (root_image 1003 1004 [7] zero_page) = PageTypeInternal"
    "findChildInInternalNode (root_image 1003 1004 [7] zero_page) [9] = 1004"
    using findChild_route [OF rep, of "[9]"] by (simp_all add: node_rep_def route_def)
  have inv: "pool_inv mem_stored lru_inv pageMap {} dirty_root"
    using img(1) by (simp add: dirty_root_def pool_inv_def pool_wf_def coherent_def lru_inv_def)
  have "fst (KV_Get (mem_env 8) (Suc 3) [9] (\<lparr>rootID = 1002\<rparr>, dirty_root)) = Inl Blocked \<and>
    fst (KV_Put (mem_env 8) (Suc 3) (\<lambda>s. s) [9] [] (\<lparr>rootID = 1002\<rparr>, dirty_root)) = Some Blocked \<and>
    fst (KV_Delete (mem_env 8) (Suc 3) (\<lambda>s. s) [9] (\<lparr>rootID = 1002\<rparr>, dirty_root)) = Some Blocked"
    by (rule descent_blocks [OF mp.buffer_pool_axioms inv, of _ 0]) (use img in \<open>simp_all add: dirty_root_def\<close>)
  then show ?thesis by simp
qed

end
