(* ===== verification/Spec2Isabelle.thy ===== *)
theory Spec2Isabelle
  imports Orm Huffman Replica HotSwap KernelInsert OSFile WalRun TreeSplit
begin

text \<open>
  Verification of \<open>ultimate_db\<close>, an embedded database engine in Go (files under \<open>src/\<close>).

  \<^bold>\<open>The program.\<close> A database file is a sequence of pages of 32 KB on a block device
  (\<open>vfs.go\<close>). A buffer pool (\<open>storage.go\<close>) keeps pages in frames, with pins, a policy that
  picks victims (\<open>lru_policy.go\<close>) and counters (\<open>telemetry.go\<close>). Two stores live on the pool:
  slotted pages with versioned records (\<open>db.go\<close>, cursors in \<open>range.go\<close>) and B+ trees of
  key/value cells (\<open>btree.go\<close>, \<open>kv_store.go\<close>). Beside them stand a lock manager
  (\<open>lock_manager.go\<close>), a write-ahead log (\<open>wal.go\<close>) with crash recovery (\<open>recovery.go\<close>), and
  a full-text index of segment files (\<open>index.go\<close>) queried through a small language (\<open>ast.go\<close>)
  that is evaluated on bitmaps (\<open>roaring.go\<close>). On top are the statements of the relational
  engine with its cache of versions (\<open>query.go\<close>), the object mapper (\<open>orm.go\<close>), a block codec
  (\<open>compression.go\<close>) and two wrappers of the tree store: one that keeps identity keys in a
  second tree and a mirror file (\<open>kv_replica.go\<close>), one that moves the keys of an old slotted
  page into a tree (\<open>hotswap_store.go\<close>). The search kernel (\<open>kernel.go\<close>) keeps documents and
  posting lists in slotted pages, ranks the answers by a score (\<open>scorer.go\<close>) and asks other
  nodes of a hash ring.

  \<^bold>\<open>Conventions.\<close> Bytes are \<open>8 word\<close>, identifiers \<open>64 word\<close>, offsets and lengths \<open>nat\<close> with
  \<open>uint16\<close> and \<open>uint32\<close> reductions written out where a value can leave its range. A fallible
  operation returns \<open>error + 'a\<close> or \<open>error option\<close>; \<open>GoPanic\<close> is a run-time panic, \<open>Blocked\<close> a
  goroutine that waits for ever for a latch it holds itself, \<open>OutOfFuel\<close> a loop that is still running.
  State is passed explicitly. A Go map is an association list; where the code ranges over one,
  the order is an argument. The clock, the device, the eviction policy, the codec and what
  other goroutines do while a latch is upgraded are arguments. Strings are lists of bytes; the
  analyzer of the kernel decodes them to runes, while \<open>Tokenize\<close> of the index lower-cases the
  ASCII letters only. An operation under a mutex is one step, except in \<open>LockManager\<close>, \<open>Wal\<close>
  and \<open>WalRun\<close>, whose critical sections are separate steps that interleave. The page latches a
  goroutine holds while it calls the pool are the field \<open>latches\<close> of the pool's environment
  (\<open>holding E hs\<close> is \<open>E\<close> for a caller that holds \<open>hs\<close>): \<open>FlushAll\<close>, also when the pool starts it
  under pressure inside a fetch, returns \<open>Blocked\<close> at a dirty page whose latch is among them. The
  operations of the stores are those of a caller that holds no latch, that is, has no iterator open.

  \<^bold>\<open>Theories, from the bottom.\<close>
  \<^item> \<open>Prelude\<close>, \<open>GoStd\<close>, \<open>Unicode\<close>: slices, copies, little-endian integers, errors; varints,
    strings, CRC and sorting of the standard library as the code uses them; UTF-8 decoding and
    encoding, with the tables of letters, numbers and lower case as an argument.
  \<^item> \<open>Roaring\<close>, \<open>Index\<close>, \<open>Query\<close>: bitmaps, the memory index and its segment file, the parser and
    the evaluation of queries. Shown: the set operations are exact, encodings are inverted
    by their decoders, and \<open>Search\<close> returns exactly the matching documents.
  \<^item> \<open>Page\<close>, \<open>Device\<close>, \<open>OSFile\<close>, \<open>Lru\<close>, \<open>Telemetry\<close>: page header and slots, the device and
    policy interfaces as locales (\<open>block_device\<close>, \<open>eviction_policy\<close>) interpreted on \<open>MemDevice\<close>
    and on the LRU list; a device on a file of the operating system keeps the contract when
    the file does.
  \<^item> \<open>BufferPool\<close>, \<open>PoolClient\<close>, \<open>MemEngine\<close>: the pool; the locale \<open>buffer_pool\<close> carries its
    invariant (frames, page table and free list fit together; a clean frame equals the
    device) and the contracts of fetch, modify, unpin, flush and allocate for any device and
    policy, whatever latches the caller holds; on the in-memory engine the same operations
    return unless they wait for a latch of their caller, and exactly then they do not. The eviction loop has no
    bound in the code: it is followed for a number of rounds, the number of tracked pages is
    enough when a page is unpinned, and no number is when all are pinned.
  \<^item> \<open>Slotted\<close>, \<open>DB\<close>: one slotted page as a list of records, compaction, visibility; every
    operation of \<open>DB\<close> through the pool, and the range cursor. Shown: writes are read back
    after any commits, flushes and reads of other pages in between; reads see committed or own versions only; scans agree with
    reads; what compaction keeps and what it loses.
  \<^item> \<open>BTreePage\<close>, \<open>KVSpec\<close>, \<open>LeafStore\<close>: tree pages byte by byte; the locale \<open>kv_store\<close> is the
    contract of a key/value store and a leaf is an instance. Internal nodes are related to
    the routing function they implement, splits keep it.
  \<^item> \<open>BTree\<close>, \<open>TreeStore\<close>, \<open>TreeSplit\<close>, \<open>KVStore\<close>: the tree over the pool. The abstraction of a
    tree is the finite map that binds a key to what the leaf it is routed to has for it.
    Shown: when no internal node is dirty the store operations return and refine the map on
    trees of any height, if the leaf has room; with a dirty root a descent can wait for itself
    for ever; a full root leaf is split correctly but the pair is lost. A descent is
    followed for a number of levels and a walk along leaves for a number of leaves; the
    height of the tree is enough.
  \<^item> \<open>LockManager\<close>: a state machine; mutual exclusion, no lost wakeup, and the upgrade that
    blocks for ever.
  \<^item> \<open>Wal\<close>, \<open>WalRun\<close>, \<open>Recovery\<close>: frames, numbering, queue and flusher; the goroutines of the log
    as a step relation; analysis, redo and undo. Shown: a record is answered once it is in the
    file and in the order of sending; exactly when callers are never answered;
    the analysis reads back what the writer wrote, redo makes the last update of each key
    visible when no page has to be compacted; the anomalies of overlapping appends, checkpoints, torn tails and of the first
    record.
  \<^item> \<open>Strconv\<close>, \<open>MVCC\<close>, \<open>UQL\<close>, \<open>UQLExec\<close>, \<open>Orm\<close>: the version cache with optimistic commits, the
    lexer and parser of the statements, their execution over pages, locks, cache and index,
    and the mapper of structures. Shown: a commit fails exactly when a key it writes was last
    committed at a stamp above its begin; every statement but RECOVER closes its page
    transactions, and which cache windows stay open; an inserted model is found again; which
    forms of statements are never accepted.
  \<^item> \<open>Huffman\<close>: the tables, the packer and the decoder of the codec. Shown: decoding inverts
    encoding on the inputs the tables cover, and what happens on the others.
  \<^item> \<open>Checksums\<close>, \<open>KVOps\<close>, \<open>Replica\<close>: no operation of the pool leaves a page that a later fetch
    rejects; the store interface as a record of operations with the locale \<open>store_side\<close>; two
    trees in one database do not disturb each other, and the replicating store
    implements one map (locale \<open>twin_store\<close>).
  \<^item> \<open>MemDB\<close>, \<open>HotSwap\<close>: reads, scans and writes of slotted pages are total on the in-memory
    engine; lookups, deletions, migration and iteration of the hot-swap store, whose laws are
    the locale \<open>overlay_store\<close>. Shown: a lookup sees the tree over the old page, migration
    leaves the lookups of all keys but its marker, a key that is only in the old page cannot be
    deleted.
  \<^item> \<open>Kernel\<close>, \<open>KernelInsert\<close>: tokens, score, ring, insertion and search of the kernel. Shown: a
    local search answers exactly what the first chunk of each word has, an inserted document is
    selected by each of its analyzed words, the ring is sorted and its points have owners. The loop over
    a cursor is followed for a number of rounds; two are enough, since the cursor delivers at
    most one chunk.

  \<^bold>\<open>Not modelled.\<close> The operating system behind \<open>OSFileDevice\<close> and behind the files of the log, the
  segments and the mirror, the arithmetic of floating point numbers, JSON, SHA-256, the
  transport and the audit interceptor are arguments of the definitions that use them. Log
  messages, and the methods of \<open>interfaces.go\<close> that nothing calls, have no definition.
\<close>

end
